(* ===== verification/Prelude.thy ===== *)
theory Prelude
  imports Main "HOL-Library.Word" "HOL-Library.Signed_Division" "HOL-Library.Multiset"
begin

unbundle bit_operations_syntax

text \<open>
  Shared vocabulary of the development: the machine integer types of
  \<^verbatim>\<open>cppLib/code/define.h\<close>, the C conversions between them, bounded reads and writes of
  byte arrays, and the generic facts on lists, words and options that the component
  theories use.  The code is built for Windows (Visual Studio projects, Winsock field
  names), so \<^verbatim>\<open>int\<close> and \<^verbatim>\<open>long\<close> are both 32 bits wide and the machine is little-endian.
\<close>

named_theorems codec_simps \<open>evaluation of the byte codecs\<close>
named_theorems kcp_defs \<open>definitions of the KCP operations, for symbolic evaluation\<close>
named_theorems inv_intros \<open>preservation of the component invariants\<close>

type_synonym u8 = "8 word"
type_synonym u16 = "16 word"
type_synonym u32 = "32 word"
type_synonym u64 = "64 word"
type_synonym bytes = "u8 list"

section \<open>C conversions and arithmetic\<close>

text \<open>
  \<open>c_long_of_u32 w v\<close> is the conversion of an unsigned 32-bit value to a signed
  \<^verbatim>\<open>long\<close> of \<open>w\<close> bits: modular reduction followed by sign interpretation.
\<close>

definition c_long_of_u32 :: "nat \<Rightarrow> u32 \<Rightarrow> int" where
  "c_long_of_u32 w v = signed_take_bit (w - 1) (uint v)"

text \<open>The result of signed arithmetic in \<open>w\<close> bits; an overflow is undefined.\<close>

definition fits :: "nat \<Rightarrow> int \<Rightarrow> int option" where
  "fits w x = (if - (2 ^ (w - 1)) \<le> x \<and> x < 2 ^ (w - 1) then Some x else None)"

definition sdiv32 :: "u32 \<Rightarrow> int \<Rightarrow> u32" where
  "sdiv32 a b = word_of_int (sint a sdiv b)"

lemma c_long_of_u32_32: "c_long_of_u32 32 v = sint v"
  by (simp add: c_long_of_u32_def sint_uint)

lemma c_long_of_u32_64_nonneg: "0 \<le> c_long_of_u32 64 v"
proof -
  have "uint v < 2 ^ 63" using uint_lt2p [of v] by simp
  then have "\<not> bit (uint v) 63"
    by (simp add: bit_iff_odd div_pos_pos_trivial)
  then show ?thesis
    by (simp add: c_long_of_u32_def signed_take_bit_eq_if_positive)
qed

lemma sint32_cases:
  "sint (v :: u32) = (if unat v < 2 ^ 31 then int (unat v) else int (unat v) - 2 ^ 32)"
proof -
  have ub: "uint v < 2 ^ 32" using uint_lt2p [of v] by simp
  have "sint v = signed_take_bit 31 (uint v)" by (simp add: sint_uint)
  also have "\<dots> = (uint v + 2 ^ 31) mod 2 ^ 32 - 2 ^ 31"
    by (simp add: signed_take_bit_eq_take_bit_shift take_bit_eq_mod)
  also have "\<dots> = (if uint v < 2 ^ 31 then uint v else uint v - 2 ^ 32)"
  proof (cases "uint v < 2 ^ 31")
    case True
    then show ?thesis by (simp add: mod_pos_pos_trivial)
  next
    case False
    have "(uint v + 2 ^ 31) mod 2 ^ 32 = (uint v + 2 ^ 31 - 2 ^ 32) mod (2 ^ 32 :: int)"
      by (rule minus_mod_self2 [symmetric])
    also have "\<dots> = uint v + 2 ^ 31 - 2 ^ 32"
      using False ub by (intro mod_pos_pos_trivial) auto
    finally show ?thesis using False by simp
  qed
  finally have *: "sint v = (if uint v < 2 ^ 31 then uint v else uint v - 2 ^ 32)" .
  obtain n where n: "unat v = n" "uint v = int n" by simp
  show ?thesis unfolding * n by simp
qed

lemma unat32_less: "unat (v :: u32) < 2 ^ 32"
  using unsigned_less [of v] by simp

lemma unat16_less: "unat (v :: u16) < 2 ^ 16"
  using unsigned_less [of v] by simp

lemma u8_lt: "unat (b :: u8) < 256"
  using unsigned_less [of b] by simp

lemma sint32_neg_iff: "sint (v :: u32) < 0 \<longleftrightarrow> 2 ^ 31 \<le> unat v"
proof -
  obtain n where n: "unat v = n" by simp
  show ?thesis using unat32_less [of v] unfolding sint32_cases n by (auto split: if_splits)
qed

lemma sint32_nonneg_iff: "0 \<le> sint (v :: u32) \<longleftrightarrow> unat v < 2 ^ 31"
  using sint32_neg_iff [of v] by linarith

lemma sint32_pos_iff: "0 < sint (v :: u32) \<longleftrightarrow> 0 < unat v \<and> unat v < 2 ^ 31"
proof -
  obtain n where n: "unat v = n" by simp
  show ?thesis using unat32_less [of v] unfolding sint32_cases n by (auto split: if_splits)
qed

section \<open>Bounded reads and writes of byte arrays\<close>

text \<open>
  \<open>peek n i a\<close> reads \<open>n\<close> elements at offset \<open>i\<close>; \<open>poke xs i a\<close> overwrites the elements at
  offset \<open>i\<close>.  Both are \<open>None\<close> where the C code would leave the object.
\<close>

definition peek :: "nat \<Rightarrow> nat \<Rightarrow> 'a list \<Rightarrow> 'a list option" where
  "peek n i a = (if i + n \<le> length a then Some (take n (drop i a)) else None)"

definition poke :: "'a list \<Rightarrow> nat \<Rightarrow> 'a list \<Rightarrow> 'a list option" where
  "poke xs i a =
     (if i + length xs \<le> length a then Some (take i a @ xs @ drop (i + length xs) a) else None)"

lemma length_peek: "peek n i a = Some xs \<Longrightarrow> length xs = n"
  by (auto simp: peek_def split: if_splits)

lemma length_poke: "poke xs i a = Some b \<Longrightarrow> length b = length a"
  by (auto simp: poke_def split: if_splits)

lemma peek_poke: "poke xs i a = Some b \<Longrightarrow> peek (length xs) i b = Some xs"
  by (auto simp: poke_def peek_def split: if_splits)

lemma peek_poke_before:
  assumes "poke xs i a = Some b" and "j + n \<le> i"
  shows "peek n j b = peek n j a"
proof -
  have b: "i + length xs \<le> length a" "b = take i a @ xs @ drop (i + length xs) a"
    using assms(1) by (auto simp: poke_def split: if_splits)
  have "take n (drop j b) = take n (drop j (take i a))"
    using assms(2) b by simp
  also have "\<dots> = take n (drop j a)"
    using assms(2) by (simp add: drop_take)
  finally show ?thesis
    using assms(2) b by (simp add: peek_def)
qed

lemma poke_defined_iff: "(\<exists>b. poke xs i a = Some b) \<longleftrightarrow> i + length xs \<le> length a"
  by (simp add: poke_def)

section \<open>Lists\<close>

lemma takeWhile_dropWhile_length:
  "length (takeWhile P xs) + length (dropWhile P xs) = length xs"
  by (induction xs) auto

lemma sum_list_map_add: "sum_list (map (\<lambda>x. f x + g x) xs) = sum_list (map f xs) + (sum_list (map g xs) :: nat)"
  by (induction xs) auto

lemma filter_neq_mset: "mset (filter P xs) + mset (filter (\<lambda>x. \<not> P x) xs) = mset xs"
  by (induction xs) auto

lemma set_of_mset_eq: "mset xs = mset ys \<Longrightarrow> set xs = set ys"
  by (rule mset_eq_setD)

lemma set_of_add_mset: "mset xs = add_mset a (mset ys) \<Longrightarrow> set xs = insert a (set ys)"
  using mset_eq_setD [of xs "a # ys"] by simp

lemma length_of_add_mset: "mset xs = add_mset a (mset ys) \<Longrightarrow> length xs = Suc (length ys)"
  using mset_eq_length [of xs "a # ys"] by simp

lemma strict_sorted_below_length:
  "sorted_wrt (<) xs \<Longrightarrow> \<forall>x \<in> set xs. x < n \<Longrightarrow> length xs \<le> (n :: nat)"
  using card_mono [of "{..<n}" "set xs"] strict_sorted_iff [of xs]
  by (auto simp: distinct_card)

lemma list_update_nth_same: "i < length xs \<Longrightarrow> xs[i := xs ! i] = xs"
  by simp

end
