(* ===== verification/Byte_Codec.thy ===== *)
theory Byte_Codec
  imports Prelude
begin

text \<open>
  The byte codecs of \<^verbatim>\<open>Network/Socket/ikcp.c\<close> (\<open>ikcp_encode8u\<close> to \<open>ikcp_decode32u\<close>, which
  advance a cursor) and of \<^verbatim>\<open>Network/Socket/SocketConfig.h\<close> (\<open>utils_encode32u\<close>,
  \<open>utils_decode32u\<close>, which do not), and the packet header that the session layer puts in
  front of every message.  An encoder that advances a cursor appends to the bytes written
  so far; a decoder returns the value and the bytes after the cursor, or \<open>None\<close> when the
  buffer ends first.
\<close>

section \<open>The interface: a fixed-width code that leaves the rest of the stream alone\<close>

locale wire_codec =
  fixes enc :: "'a \<Rightarrow> bytes"
    and dec :: "bytes \<Rightarrow> ('a \<times> bytes) option"
    and width :: nat
  assumes dec_enc: "dec (enc x @ rest) = Some (x, rest)"
    and enc_width: "length (enc x) = width"
    and dec_Some: "dec bs = Some (y, r) \<Longrightarrow> bs = enc y @ r"
    and dec_None: "dec bs = None \<Longrightarrow> length bs < width"
begin

lemma dec_total: "width \<le> length bs \<Longrightarrow> \<exists>y r. dec bs = Some (y, r)"
  using dec_None [of bs] by (cases "dec bs") auto

lemma dec_rest_length: "dec bs = Some (y, r) \<Longrightarrow> length bs = width + length r"
  by (auto dest!: dec_Some simp: enc_width)

lemma enc_inject: "enc x @ r = enc y @ s \<longleftrightarrow> x = y \<and> r = s"
  by (metis dec_enc option.inject prod.inject)

lemma dec_enc_self: "dec (enc x) = Some (x, [])"
  using dec_enc [of x "[]"] by simp

lemma dec_short: "length bs < width \<Longrightarrow> dec bs = None"
  using dec_rest_length by (cases "dec bs") fastforce+

end

text \<open>Two codes in sequence form a code: the layout of a struct is a chain of fields.\<close>

definition enc_seq :: "('a \<Rightarrow> bytes) \<Rightarrow> ('b \<Rightarrow> bytes) \<Rightarrow> 'a \<times> 'b \<Rightarrow> bytes" where
  "enc_seq e1 e2 p = e1 (fst p) @ e2 (snd p)"

definition dec_seq :: "(bytes \<Rightarrow> ('a \<times> bytes) option) \<Rightarrow> (bytes \<Rightarrow> ('b \<times> bytes) option) \<Rightarrow>
    bytes \<Rightarrow> (('a \<times> 'b) \<times> bytes) option" where
  "dec_seq d1 d2 bs =
     (case d1 bs of None \<Rightarrow> None
      | Some (x, r) \<Rightarrow> (case d2 r of None \<Rightarrow> None | Some (y, r') \<Rightarrow> Some ((x, y), r')))"

locale codec_pair = fst: wire_codec e1 d1 w1 + snd: wire_codec e2 d2 w2
  for e1 :: "'a \<Rightarrow> bytes" and d1 w1 and e2 :: "'b \<Rightarrow> bytes" and d2 w2
begin

sublocale wire_codec "enc_seq e1 e2" "dec_seq d1 d2" "w1 + w2"
proof
  fix bs assume "dec_seq d1 d2 bs = None"
  then show "length bs < w1 + w2"
    by (auto simp: dec_seq_def split: option.splits dest!: fst.dec_None snd.dec_None
        dest: fst.dec_rest_length)
qed (auto simp: enc_seq_def dec_seq_def fst.dec_enc snd.dec_enc fst.enc_width snd.enc_width
      split: option.splits dest!: fst.dec_Some snd.dec_Some)

end

section \<open>Unsigned integers, least significant byte first\<close>

text \<open>
  On a little-endian machine the code stores the integer as it is; under
  \<open>IWORDS_BIG_ENDIAN\<close> it stores the bytes one by one.  \<open>le16\<close>, \<open>le32\<close> are the native store;
  \<open>be_store16\<close>, \<open>be_store32\<close> and \<open>be_load16\<close>, \<open>be_load32\<close> the byte-wise branch.
\<close>

fun nat_to_le :: "nat \<Rightarrow> nat \<Rightarrow> bytes" where
  "nat_to_le 0 n = []"
| "nat_to_le (Suc k) n = word_of_nat n # nat_to_le k (n div 256)"

fun le_to_nat :: "bytes \<Rightarrow> nat" where
  "le_to_nat [] = 0"
| "le_to_nat (b # bs) = unat b + 256 * le_to_nat bs"

definition le16 :: "u16 \<Rightarrow> bytes" where
  "le16 w = nat_to_le 2 (unat w)"

definition le32 :: "u32 \<Rightarrow> bytes" where
  "le32 l = nat_to_le 4 (unat l)"

definition of_le16 :: "bytes \<Rightarrow> u16 option" where
  "of_le16 bs = (if length bs = 2 then Some (word_of_nat (le_to_nat bs)) else None)"

definition of_le32 :: "bytes \<Rightarrow> u32 option" where
  "of_le32 bs = (if length bs = 4 then Some (word_of_nat (le_to_nat bs)) else None)"

definition be_store16 :: "u16 \<Rightarrow> bytes" where
  "be_store16 w = [ucast (w AND 255), ucast (drop_bit 8 w)]"

definition be_store32 :: "u32 \<Rightarrow> bytes" where
  "be_store32 l = [ucast (drop_bit 0 l AND 0xff), ucast (drop_bit 8 l AND 0xff),
                   ucast (drop_bit 16 l AND 0xff), ucast (drop_bit 24 l AND 0xff)]"

fun be_load16 :: "bytes \<Rightarrow> u16 option" where
  "be_load16 [b0, b1] = (let w = ucast b1; w = ucast b0 + push_bit 8 w in Some w)"
| "be_load16 _ = None"

fun be_load32 :: "bytes \<Rightarrow> u32 option" where
  "be_load32 [b0, b1, b2, b3] =
     (let l = ucast b3;
          l = ucast b2 + push_bit 8 l;
          l = ucast b1 + push_bit 8 l;
          l = ucast b0 + push_bit 8 l
      in Some l)"
| "be_load32 _ = None"

subsection \<open>The cursor-moving codecs of ikcp.c\<close>

definition ikcp_encode8u :: "bytes \<Rightarrow> u8 \<Rightarrow> bytes" where
  "ikcp_encode8u p c = p @ [c]"

definition ikcp_encode16u :: "bytes \<Rightarrow> u16 \<Rightarrow> bytes" where
  "ikcp_encode16u p w = p @ le16 w"

definition ikcp_encode32u :: "bytes \<Rightarrow> u32 \<Rightarrow> bytes" where
  "ikcp_encode32u p l = p @ le32 l"

definition ikcp_decode8u :: "bytes \<Rightarrow> (u8 \<times> bytes) option" where
  "ikcp_decode8u p = (case p of [] \<Rightarrow> None | c # r \<Rightarrow> Some (c, r))"

definition ikcp_decode16u :: "bytes \<Rightarrow> (u16 \<times> bytes) option" where
  "ikcp_decode16u p = map_option (\<lambda>w. (w, drop 2 p)) (of_le16 (take 2 p))"

definition ikcp_decode32u :: "bytes \<Rightarrow> (u32 \<times> bytes) option" where
  "ikcp_decode32u p = map_option (\<lambda>l. (l, drop 4 p)) (of_le32 (take 4 p))"

subsection \<open>The codecs of SocketConfig.h: in place, at an offset\<close>

definition utils_encode32u :: "bytes \<Rightarrow> nat \<Rightarrow> u32 \<Rightarrow> bytes option" where
  "utils_encode32u p i l = poke (le32 l) i p"

definition utils_decode32u :: "bytes \<Rightarrow> nat \<Rightarrow> u32 option" where
  "utils_decode32u p i = Option.bind (peek 4 i p) of_le32"

section \<open>The codes satisfy the interface\<close>

lemma length_nat_to_le [simp]: "length (nat_to_le k n) = k"
  by (induction k arbitrary: n) auto

lemma unat_of_byte: "unat (word_of_nat n :: u8) = n mod 256"
  by (simp add: unat_of_nat)

lemma le_to_nat_less: "le_to_nat bs < 256 ^ length bs"
proof (induction bs)
  case (Cons b bs)
  then show ?case using u8_lt [of b] by simp
qed simp

lemma le_to_nat_to_le: "le_to_nat (nat_to_le k n) = n mod 256 ^ k"
proof (induction k arbitrary: n)
  case (Suc k)
  then show ?case using mod_mult2_eq [of n 256 "256 ^ k"] by (simp add: unat_of_byte)
qed simp

lemma nat_to_le_to_nat: "nat_to_le (length bs) (le_to_nat bs) = bs"
proof (induction bs)
  case (Cons b bs)
  have "word_of_nat (unat b + 256 * n) = b" for n
  proof (rule unsigned_word_eqI)
    show "unat (word_of_nat (unat b + 256 * n) :: u8) = unat b"
      using u8_lt [of b] unfolding unat_of_byte by simp
  qed
  then show ?case using Cons u8_lt [of b] by simp
qed simp

lemma length_le16 [simp, codec_simps]: "length (le16 w) = 2"
  by (simp add: le16_def)

lemma length_le32 [simp, codec_simps]: "length (le32 w) = 4"
  by (simp add: le32_def)

lemma of_le16_le16 [simp, codec_simps]: "of_le16 (le16 w) = Some w"
  using unat16_less [of w] by (simp add: of_le16_def le16_def le_to_nat_to_le)

lemma of_le32_le32 [simp, codec_simps]: "of_le32 (le32 w) = Some w"
  using unat32_less [of w] by (simp add: of_le32_def le32_def le_to_nat_to_le)

lemma le16_of_le16: "of_le16 bs = Some w \<Longrightarrow> le16 w = bs"
  using le_to_nat_less [of bs] nat_to_le_to_nat [of bs]
  by (auto simp: of_le16_def le16_def unat_of_nat split: if_splits)

lemma le32_of_le32: "of_le32 bs = Some w \<Longrightarrow> le32 w = bs"
  using le_to_nat_less [of bs] nat_to_le_to_nat [of bs]
  by (auto simp: of_le32_def le32_def unat_of_nat split: if_splits)

subsection \<open>The byte-wise branch writes and reads the same layout\<close>

lemma unat_byte_of: "unat (ucast (drop_bit k (w :: 'a::len word)) :: u8) = unat w div 2 ^ k mod 256"
  unfolding unsigned_ucast_eq unat_drop_bit_eq by (simp add: drop_bit_eq_div take_bit_eq_mod)

lemma byte_of_eq: "(ucast (drop_bit k (w :: 'a::len word)) :: u8) = word_of_nat (unat w div 2 ^ k)"
  by (simp only: word_unat_eq_iff unat_byte_of unat_of_byte)

lemma ucast_and_ff: "(ucast (w AND 0xff) :: u8) = ucast (w :: 'a::len word)"
proof (rule bit_word_eqI)
  fix n assume "n < LENGTH(8)"
  then have "bit (255 :: 'a word) n \<longleftrightarrow> n < LENGTH('a)"
    using bit_mask_iff [where 'a = "'a word", of 8 n] by (simp add: mask_eq_exp_minus_1)
  then show "bit (ucast (w AND 0xff) :: u8) n = bit (ucast w :: u8) n"
    by (auto simp: bit_simps dest: bit_imp_le_length)
qed

lemma nat_to_le_2: "nat_to_le 2 n = [word_of_nat n, word_of_nat (n div 2 ^ 8)]"
proof -
  have e: "(2::nat) = Suc (Suc 0)" by simp
  have "nat_to_le 2 n = nat_to_le (Suc (Suc 0)) n" by (simp only: e)
  then show ?thesis by simp
qed

lemma nat_to_le_4:
  "nat_to_le 4 n = [word_of_nat (n div 2 ^ 0), word_of_nat (n div 2 ^ 8),
     word_of_nat (n div 2 ^ 16), word_of_nat (n div 2 ^ 24)]"
proof -
  have e: "(4::nat) = Suc (Suc (Suc (Suc 0)))" by simp
  have "nat_to_le 4 n = nat_to_le (Suc (Suc (Suc (Suc 0)))) n" by (simp only: e)
  also have "\<dots> = [word_of_nat n, word_of_nat (n div 256), word_of_nat (n div 256 div 256),
       word_of_nat (n div 256 div 256 div 256)]" by simp
  finally show ?thesis by (simp add: div_mult2_eq [symmetric])
qed

lemma be_store16_eq: "be_store16 w = le16 w"
  unfolding be_store16_def le16_def ucast_and_ff byte_of_eq nat_to_le_2 by simp

lemma be_store32_eq: "be_store32 l = le32 l"
  unfolding be_store32_def le32_def ucast_and_ff byte_of_eq nat_to_le_4 by simp

lemma ucast_u8_nat: "(ucast (b :: u8) :: 'a::len word) = word_of_nat (unat b)"
  by simp

lemma be_load16_eq: "be_load16 bs = of_le16 bs"
  by (cases bs rule: be_load16.cases)
    (auto simp: of_le16_def push_bit_eq_mult Let_def algebra_simps split: if_splits)

lemma be_load32_eq: "be_load32 bs = of_le32 bs"
  by (cases bs rule: be_load32.cases)
    (auto simp: of_le32_def push_bit_eq_mult Let_def algebra_simps split: if_splits)


subsection \<open>The cursor-moving codecs as instances of the interface\<close>

interpretation u8c: wire_codec "\<lambda>c. [c]" ikcp_decode8u 1
  by unfold_locales (auto simp: ikcp_decode8u_def split: list.splits)

interpretation u16c: wire_codec le16 ikcp_decode16u 2
proof
  fix bs y r assume *: "ikcp_decode16u bs = Some (y, r)"
  then have "of_le16 (take 2 bs) = Some y" "r = drop 2 bs"
    by (auto simp: ikcp_decode16u_def)
  then show "bs = le16 y @ r" by (simp add: le16_of_le16)
qed (auto simp: ikcp_decode16u_def of_le16_def [of "take 2 _"] min_def split: if_splits)

interpretation u32c: wire_codec le32 ikcp_decode32u 4
proof
  fix bs y r assume *: "ikcp_decode32u bs = Some (y, r)"
  then have "of_le32 (take 4 bs) = Some y" "r = drop 4 bs"
    by (auto simp: ikcp_decode32u_def)
  then show "bs = le32 y @ r" by (simp add: le32_of_le32)
qed (auto simp: ikcp_decode32u_def of_le32_def [of "take 4 _"] min_def split: if_splits)

lemmas codec_roundtrips [codec_simps] =
  u8c.dec_enc u16c.dec_enc u32c.dec_enc u8c.dec_enc_self u16c.dec_enc_self u32c.dec_enc_self

lemma utils_roundtrip:
  "utils_encode32u p i l = Some q \<Longrightarrow> utils_decode32u q i = Some l"
  using peek_poke [of "le32 l" i p q] by (simp add: utils_encode32u_def utils_decode32u_def)

end
