(* ===== verification/Message_Buffer.thy ===== *)
theory Message_Buffer
  imports Prelude
begin

text \<open>
  \<^verbatim>\<open>Network/Socket/MessageBuffer.h\<close>: a byte vector with a write and a read position.
  Every method of the class is a definition; positions are \<open>size_t\<close> values, so their
  differences wrap at \<open>2 ^ 64\<close>.  \<open>Write\<close> copies without a bounds check in the source: the
  model returns \<open>None\<close> where the copy would leave the storage.  The interface
  \<open>byte_fifo\<close> is what the packet readers of the session and of the client rely on.
\<close>

section \<open>State and operations\<close>

record message_buffer =
  wpos :: nat
  rpos :: nat
  storage :: bytes

definition BUFFER_SIZE :: nat where "BUFFER_SIZE = 1024"

definition size_sub :: "nat \<Rightarrow> nat \<Rightarrow> nat" where
  "size_sub a b = (if b \<le> a then a - b else 2 ^ 64 + a - b)"

definition vec_resize :: "nat \<Rightarrow> bytes \<Rightarrow> bytes" where
  "vec_resize n xs = take n xs @ replicate (n - length xs) 0"

definition mb_new_default :: message_buffer where
  "mb_new_default = \<lparr>wpos = 0, rpos = 0, storage = vec_resize BUFFER_SIZE []\<rparr>"

definition mb_new :: "nat \<Rightarrow> message_buffer" where
  "mb_new initialSize = \<lparr>wpos = 0, rpos = 0, storage = vec_resize initialSize []\<rparr>"

definition mb_Reset :: "message_buffer \<Rightarrow> message_buffer" where
  "mb_Reset b = b\<lparr>wpos := 0, rpos := 0\<rparr>"

definition mb_Resize :: "nat \<Rightarrow> message_buffer \<Rightarrow> message_buffer" where
  "mb_Resize n b = b\<lparr>storage := vec_resize n (storage b)\<rparr>"

definition mb_ReadCompleted :: "nat \<Rightarrow> message_buffer \<Rightarrow> message_buffer" where
  "mb_ReadCompleted n b = b\<lparr>rpos := (rpos b + n) mod 2 ^ 64\<rparr>"

definition mb_WriteCompleted :: "nat \<Rightarrow> message_buffer \<Rightarrow> message_buffer" where
  "mb_WriteCompleted n b = b\<lparr>wpos := (wpos b + n) mod 2 ^ 64\<rparr>"

definition mb_GetActiveSize :: "message_buffer \<Rightarrow> nat" where
  "mb_GetActiveSize b = size_sub (wpos b) (rpos b)"

definition mb_GetRemainingSpace :: "message_buffer \<Rightarrow> nat" where
  "mb_GetRemainingSpace b = size_sub (length (storage b)) (wpos b)"

definition mb_GetBufferSize :: "message_buffer \<Rightarrow> nat" where
  "mb_GetBufferSize b = length (storage b)"

text \<open>\<open>mb_read n b\<close>: the \<open>n\<close> bytes at \<open>GetReadPointer()\<close>, when they lie in the storage.\<close>

definition mb_read :: "nat \<Rightarrow> message_buffer \<Rightarrow> bytes option" where
  "mb_read n b = peek n (rpos b) (storage b)"

definition mb_Write :: "bytes \<Rightarrow> message_buffer \<Rightarrow> message_buffer option" where
  "mb_Write data b =
     (if data \<noteq> [] then
        (case poke data (wpos b) (storage b) of
           None \<Rightarrow> None
         | Some st \<Rightarrow> Some (mb_WriteCompleted (length data) (b\<lparr>storage := st\<rparr>)))
      else Some b)"

definition mb_Normalize :: "message_buffer \<Rightarrow> message_buffer option" where
  "mb_Normalize b =
     (if rpos b \<noteq> 0 then
        (case (if rpos b \<noteq> wpos b
               then Option.bind (mb_read (mb_GetActiveSize b) b) (\<lambda>act. poke act 0 (storage b))
               else Some (storage b)) of
           None \<Rightarrow> None
         | Some st \<Rightarrow> Some (b\<lparr>storage := st, wpos := size_sub (wpos b) (rpos b), rpos := 0\<rparr>))
      else Some b)"

definition mb_EnsureFreeSpace :: "nat \<Rightarrow> message_buffer \<Rightarrow> message_buffer" where
  "mb_EnsureFreeSpace sz b =
     (if mb_GetRemainingSpace b = 0 then
        (if sz \<noteq> 0 then b\<lparr>storage := vec_resize (length (storage b) + sz) (storage b)\<rparr>
         else b\<lparr>storage := vec_resize (length (storage b) * 3 div 2) (storage b)\<rparr>)
      else b)"

text \<open>
  \<open>Move\<close> hands the storage out and leaves an empty vector; the move constructor reads the
  positions before the call, the move assignment likewise.
\<close>

definition mb_Move :: "message_buffer \<Rightarrow> bytes \<times> message_buffer" where
  "mb_Move b = (storage b, \<lparr>wpos = 0, rpos = 0, storage = []\<rparr>)"

definition mb_move_new :: "message_buffer \<Rightarrow> message_buffer \<times> message_buffer" where
  "mb_move_new right =
     (let (st, right') = mb_Move right
      in (\<lparr>wpos = wpos right, rpos = rpos right, storage = st\<rparr>, right'))"

definition mb_assign :: "message_buffer \<Rightarrow> message_buffer \<Rightarrow> message_buffer" where
  "mb_assign this right = this\<lparr>wpos := wpos right, rpos := rpos right, storage := storage right\<rparr>"

definition mb_move_assign :: "message_buffer \<Rightarrow> message_buffer \<Rightarrow> message_buffer \<times> message_buffer" where
  "mb_move_assign this right =
     (let (st, right') = mb_Move right
      in (this\<lparr>wpos := wpos right, rpos := rpos right, storage := st\<rparr>, right'))"

section \<open>Well-formedness and contents\<close>

definition mb_ok :: "message_buffer \<Rightarrow> bool" where
  "mb_ok b \<longleftrightarrow> rpos b \<le> wpos b \<and> wpos b \<le> length (storage b) \<and> length (storage b) < 2 ^ 63"

definition mb_unread :: "message_buffer \<Rightarrow> bytes" where
  "mb_unread b = take (wpos b - rpos b) (drop (rpos b) (storage b))"

named_theorems mb_defs \<open>definitions of the message buffer\<close>
lemmas [mb_defs] = mb_Reset_def mb_Resize_def mb_ReadCompleted_def mb_WriteCompleted_def
  mb_GetActiveSize_def mb_GetRemainingSpace_def mb_GetBufferSize_def mb_read_def mb_Write_def
  mb_Normalize_def mb_EnsureFreeSpace_def mb_new_def mb_new_default_def size_sub_def

lemma length_vec_resize [simp]: "length (vec_resize n xs) = n"
  by (simp add: vec_resize_def min_def)

lemma take_vec_resize: "k \<le> n \<Longrightarrow> k \<le> length xs \<Longrightarrow> take k (vec_resize n xs) = take k xs"
  by (simp add: vec_resize_def)

lemma mb_ok_new [simp]: "n < 2 ^ 63 \<Longrightarrow> mb_ok (mb_new n)"
  by (simp add: mb_ok_def mb_new_def)

lemma mb_ok_Reset [simp]: "mb_ok b \<Longrightarrow> mb_ok (mb_Reset b)"
  by (simp add: mb_ok_def mb_Reset_def)

lemma mb_unread_Reset [simp]: "mb_unread (mb_Reset b) = []"
  by (simp add: mb_unread_def mb_Reset_def)

lemma mb_unread_new [simp]: "mb_unread (mb_new n) = []"
  by (simp add: mb_unread_def mb_new_def)

lemma mb_okD: "mb_ok b \<Longrightarrow> rpos b \<le> wpos b" "mb_ok b \<Longrightarrow> wpos b \<le> length (storage b)"
    "mb_ok b \<Longrightarrow> length (storage b) < 2 ^ 63"
  by (simp_all add: mb_ok_def)

lemma mb_length_unread: "mb_ok b \<Longrightarrow> length (mb_unread b) = wpos b - rpos b"
  using mb_okD [of b] by (simp add: mb_unread_def)

lemma mb_active_size: "mb_ok b \<Longrightarrow> mb_GetActiveSize b = length (mb_unread b)"
  by (auto simp: mb_ok_def mb_GetActiveSize_def size_sub_def mb_unread_def min_def)

lemma mb_active_size': "mb_ok b \<Longrightarrow> mb_GetActiveSize b = wpos b - rpos b"
  by (simp add: mb_ok_def mb_GetActiveSize_def size_sub_def)

lemma mb_remaining: "mb_ok b \<Longrightarrow> mb_GetRemainingSpace b = length (storage b) - wpos b"
  by (simp add: mb_ok_def mb_GetRemainingSpace_def size_sub_def)

lemma mb_read_unread: "mb_ok b \<Longrightarrow> n \<le> length (mb_unread b) \<Longrightarrow> mb_read n b = Some (take n (mb_unread b))"
  using mb_okD [of b] by (simp add: mb_length_unread) (simp add: mb_read_def mb_unread_def peek_def min_absorb1)

lemma mb_Write_Some:
  assumes "mb_ok b" and "length data \<le> mb_GetRemainingSpace b"
  obtains b' where "mb_Write data b = Some b'" "mb_ok b'" "mb_unread b' = mb_unread b @ data"
    "wpos b' = wpos b + length data" "rpos b' = rpos b" "length (storage b') = length (storage b)"
proof (cases "data = []")
  case True
  then show ?thesis using assms that by (simp add: mb_Write_def)
next
  case False
  let ?st = "take (wpos b) (storage b) @ data @ drop (wpos b + length data) (storage b)"
  let ?b = "b\<lparr>storage := ?st, wpos := wpos b + length data\<rparr>"
  have fits: "wpos b + length data \<le> length (storage b)"
    using assms mb_okD [OF assms(1)] by (simp add: mb_remaining)
  have small: "wpos b + length data < 2 ^ 64" using fits assms(1) by (simp add: mb_ok_def)
  have "mb_Write data b = Some ?b"
    using False fits small by (simp add: mb_Write_def poke_def mb_WriteCompleted_def)
  moreover have "mb_ok ?b" using assms(1) fits by (simp add: mb_ok_def)
  moreover have "mb_unread ?b = mb_unread b @ data"
  proof -
    have d: "drop (rpos b) ?st = mb_unread b @ data @ drop (wpos b + length data) (storage b)"
      using mb_okD [OF assms(1)] by (simp add: mb_unread_def drop_take)
    have n: "wpos b + length data - rpos b = length (mb_unread b @ data)"
      using mb_okD [OF assms(1)] by (simp add: mb_length_unread assms(1))
    have "mb_unread ?b = take (wpos b + length data - rpos b) (drop (rpos b) ?st)"
      by (simp add: mb_unread_def)
    then show ?thesis unfolding d n by simp
  qed
  ultimately show ?thesis using that fits assms(1) by (simp add: mb_ok_def)
qed

lemma mb_ReadCompleted_ok:
  assumes "mb_ok b" and "n \<le> length (mb_unread b)"
  shows "mb_ok (mb_ReadCompleted n b)" and "mb_unread (mb_ReadCompleted n b) = drop n (mb_unread b)"
proof -
  have le: "rpos b + n \<le> wpos b"
    using assms mb_okD(1) [OF assms(1)] by (simp add: mb_length_unread)
  moreover have "rpos b + n < 2 ^ 64" using le assms(1) by (simp add: mb_ok_def)
  ultimately show "mb_ok (mb_ReadCompleted n b)"
    "mb_unread (mb_ReadCompleted n b) = drop n (mb_unread b)"
    using assms(1) by (auto simp: mb_ok_def mb_ReadCompleted_def mb_unread_def drop_take add.commute)
qed

lemma mb_ReadCompleted_sel [simp]:
  "wpos (mb_ReadCompleted n b) = wpos b" "storage (mb_ReadCompleted n b) = storage b"
  by (simp_all add: mb_ReadCompleted_def)

lemma mb_Normalize_ok:
  assumes "mb_ok b"
  obtains b' where "mb_Normalize b = Some b'" "mb_ok b'" "mb_unread b' = mb_unread b" "rpos b' = 0"
    "length (storage b') = length (storage b)"
proof -
  let ?a = "mb_unread b"
  let ?st = "if rpos b \<noteq> 0 \<and> rpos b \<noteq> wpos b then ?a @ drop (length ?a) (storage b) else storage b"
  let ?b = "b\<lparr>storage := ?st, wpos := wpos b - rpos b, rpos := 0\<rparr>"
  have len: "length ?a = wpos b - rpos b" using assms by (rule mb_length_unread)
  have rd: "mb_read (mb_GetActiveSize b) b = Some ?a"
    using mb_read_unread [OF assms, of "length ?a"] mb_active_size [OF assms] by simp
  have fits: "length ?a \<le> length (storage b)" using len mb_okD [OF assms] by simp
  have eq: "mb_Normalize b = Some ?b"
    using assms rd fits len
    by (auto simp: mb_Normalize_def poke_def mb_ok_def size_sub_def intro: message_buffer.equality)
  have "mb_ok ?b" using assms len by (auto simp: mb_ok_def)
  moreover have "mb_unread ?b = ?a"
    using len assms by (auto simp: mb_unread_def mb_ok_def)
  moreover have "length ?st = length (storage b)" using fits by simp
  ultimately show ?thesis using that eq by simp
qed

section \<open>The interface of the packet readers\<close>

text \<open>
  A bounded FIFO of bytes: writing within the free space appends, consuming what is there
  drops from the front, and neither fails.
\<close>

locale byte_fifo =
  fixes put :: "bytes \<Rightarrow> 'b \<Rightarrow> 'b option"
    and consume :: "nat \<Rightarrow> 'b \<Rightarrow> 'b"
    and front :: "nat \<Rightarrow> 'b \<Rightarrow> bytes option"
    and used :: "'b \<Rightarrow> nat"
    and room :: "'b \<Rightarrow> nat"
    and unread :: "'b \<Rightarrow> bytes"
    and ok :: "'b \<Rightarrow> bool"
  assumes used_unread: "ok b \<Longrightarrow> used b = length (unread b)"
    and front_take: "ok b \<Longrightarrow> n \<le> used b \<Longrightarrow> front n b = Some (take n (unread b))"
    and consume_drop: "ok b \<Longrightarrow> n \<le> used b \<Longrightarrow> ok (consume n b) \<and> unread (consume n b) = drop n (unread b)"
    and write_append: "ok b \<Longrightarrow> length xs \<le> room b \<Longrightarrow>
      \<exists>b'. put xs b = Some b' \<and> ok b' \<and> unread b' = unread b @ xs \<and> room b' + length xs = room b"
begin

text \<open>Moving bytes from one FIFO to another loses and reorders nothing.\<close>

lemma transfer:
  assumes "ok b" "ok c" "n \<le> used b" "n \<le> room c"
  shows "\<exists>c'. Option.bind (front n b) (\<lambda>xs. put xs c) = Some c' \<and> ok c' \<and>
     unread c' @ unread (consume n b) = unread c @ unread b \<and> room c' + n = room c"
proof -
  have f: "front n b = Some (take n (unread b))" using assms front_take by simp
  have l: "length (take n (unread b)) = n" using assms used_unread by simp
  obtain c' where "put (take n (unread b)) c = Some c'" "ok c'"
    "unread c' = unread c @ take n (unread b)" "room c' + n = room c"
    using write_append [of c "take n (unread b)"] assms l by auto
  moreover have "unread (consume n b) = drop n (unread b)" using assms consume_drop by simp
  ultimately show ?thesis using f by simp
qed

end

interpretation mb: byte_fifo mb_Write mb_ReadCompleted mb_read mb_GetActiveSize
    mb_GetRemainingSpace mb_unread mb_ok
proof
  fix b :: message_buffer and xs :: bytes
  assume *: "mb_ok b" "length xs \<le> mb_GetRemainingSpace b"
  then show "\<exists>b'. mb_Write xs b = Some b' \<and> mb_ok b' \<and> mb_unread b' = mb_unread b @ xs \<and>
      mb_GetRemainingSpace b' + length xs = mb_GetRemainingSpace b"
    by (rule mb_Write_Some) (use * mb_okD [of b] in \<open>simp add: mb_remaining\<close>)
qed (auto simp: mb_active_size mb_read_unread mb_ReadCompleted_ok)

end
