(* ===== verification/Socket_Types.thy ===== *)
theory Socket_Types
  imports Byte_Codec
begin

text \<open>
  The data types that the network layer shares: socket addresses and packet headers of
  \<^verbatim>\<open>Network/Socket/SocketConfig.h\<close>, session ids and session states of
  \<^verbatim>\<open>Network/Socket/kcp_config.h\<close>, opcodes of \<^verbatim>\<open>Network/Socket/CoreOpcodes.h\<close>, and the
  \<open>std::map\<close> the server keys with them.  A \<open>std::map\<close> is the list of its entries in key
  order; two keys are the same entry when neither is less than the other.
\<close>

section \<open>Socket addresses\<close>

record sock_addr =
  sa_family :: u16
  sa_port :: u16
  sa_addr :: u32

definition sock_addr_new :: sock_addr where
  "sock_addr_new = \<lparr>sa_family = 0, sa_port = 0, sa_addr = 0\<rparr>"

definition sock_addr_eq :: "sock_addr \<Rightarrow> sock_addr \<Rightarrow> bool" where
  "sock_addr_eq a b \<longleftrightarrow> sa_addr a = sa_addr b \<and> sa_port a = sa_port b"

definition sock_addr_less :: "sock_addr \<Rightarrow> sock_addr \<Rightarrow> bool" where
  "sock_addr_less a b \<longleftrightarrow> sa_addr a < sa_addr b"

section \<open>Session ids\<close>

record session_id =
  sid_conv :: u32
  sid_addr :: sock_addr

definition session_id_less :: "session_id \<Rightarrow> session_id \<Rightarrow> bool" where
  "session_id_less l r =
     (if sid_conv l \<noteq> sid_conv r then sid_conv l < sid_conv r
      else sock_addr_less (sid_addr l) (sid_addr r))"

definition session_id_eq :: "session_id \<Rightarrow> session_id \<Rightarrow> bool" where
  "session_id_eq l r \<longleftrightarrow> sid_conv l = sid_conv r \<and> sock_addr_eq (sid_addr l) (sid_addr r)"

datatype session_status = Disconnected | Connecting | Connected

datatype read_result = RdOk | RdError | RdWaitingForQuery

section \<open>Opcodes and sizes\<close>

definition C2S_CONNECT :: u16 where "C2S_CONNECT = 0"
definition S2C_ACCEPT_ACT :: u16 where "S2C_ACCEPT_ACT = 0"
definition S2C_DISCONNECT :: u16 where "S2C_DISCONNECT = 1"
definition C2S_HEARTBEAT :: u16 where "C2S_HEARTBEAT = 2"
definition S2C_HEARTBEAT :: u16 where "S2C_HEARTBEAT = 2"
definition S2C_CRITICAL_ERROR :: u16 where "S2C_CRITICAL_ERROR = 3"
definition HEART_BEAT_INTERVAL :: int where "HEART_BEAT_INTERVAL = 6000"
definition RECV_BUFFER_SIZE :: nat where "RECV_BUFFER_SIZE = 4096"

lemmas opcode_defs = C2S_CONNECT_def S2C_ACCEPT_ACT_def S2C_DISCONNECT_def C2S_HEARTBEAT_def
  S2C_HEARTBEAT_def S2C_CRITICAL_ERROR_def

section \<open>Packet headers\<close>

text \<open>
  \<open>struct PacketHeader\<close> is copied to and from the wire as raw memory: four bytes of size,
  two of command, and two bytes of padding that no code sets.  The padding is an argument
  of the encoder.
\<close>

record packet_header =
  ph_Size :: u32
  ph_Command :: u16

definition sizeof_PacketHeader :: nat where "sizeof_PacketHeader = 8"

definition IsValidSize :: "packet_header \<Rightarrow> bool" where
  "IsValidSize h \<longleftrightarrow> ph_Size h < 0x10000"

definition IsValidOpcode :: "packet_header \<Rightarrow> bool" where
  "IsValidOpcode h \<longleftrightarrow> ph_Command h < 1024"

definition header_bytes :: "u8 \<times> u8 \<Rightarrow> packet_header \<Rightarrow> bytes" where
  "header_bytes pad h = le32 (ph_Size h) @ le16 (ph_Command h) @ [fst pad, snd pad]"

definition header_of_bytes :: "bytes \<Rightarrow> packet_header option" where
  "header_of_bytes bs =
     (if length bs < sizeof_PacketHeader then None
      else Option.bind (of_le32 (take 4 bs)) (\<lambda>s.
           Option.bind (of_le16 (take 2 (drop 4 bs))) (\<lambda>c.
           Some \<lparr>ph_Size = s, ph_Command = c\<rparr>)))"

lemma length_header_bytes [simp, codec_simps]: "length (header_bytes pad h) = sizeof_PacketHeader"
  by (simp add: header_bytes_def sizeof_PacketHeader_def)

lemma header_roundtrip [simp, codec_simps]:
  "header_of_bytes (header_bytes pad h @ rest) = Some h"
  by (simp add: header_bytes_def header_of_bytes_def sizeof_PacketHeader_def)

lemma header_of_bytes_total:
  "sizeof_PacketHeader \<le> length bs \<Longrightarrow> \<exists>h. header_of_bytes bs = Some h"
  by (simp add: header_of_bytes_def sizeof_PacketHeader_def of_le32_def of_le16_def)

section \<open>std::map\<close>

text \<open>A comparator that \<open>std::map\<close> accepts: a strict weak order.\<close>

locale strict_weak_order =
  fixes less :: "'k \<Rightarrow> 'k \<Rightarrow> bool"
  assumes less_irrefl: "\<not> less a a"
    and less_trans: "less a b \<Longrightarrow> less b c \<Longrightarrow> less a c"
    and incomparable_trans: "\<not> less a b \<Longrightarrow> \<not> less b a \<Longrightarrow> \<not> less b c \<Longrightarrow> \<not> less c b \<Longrightarrow>
      \<not> less a c \<and> \<not> less c a"
begin

lemma less_asym: "less a b \<Longrightarrow> \<not> less b a"
  using less_irrefl less_trans by blast

lemma incomparable_less: "\<not> less a b \<Longrightarrow> \<not> less b a \<Longrightarrow> less a c \<longleftrightarrow> less b c"
  using incomparable_trans less_trans less_irrefl less_asym by metis

end

fun map_find :: "('k \<Rightarrow> 'k \<Rightarrow> bool) \<Rightarrow> 'k \<Rightarrow> ('k \<times> 'v) list \<Rightarrow> 'v option" where
  "map_find lt k [] = None"
| "map_find lt k ((k', v) # m) =
     (if lt k' k then map_find lt k m else if lt k k' then None else Some v)"

fun map_insert :: "('k \<Rightarrow> 'k \<Rightarrow> bool) \<Rightarrow> 'k \<Rightarrow> 'v \<Rightarrow> ('k \<times> 'v) list \<Rightarrow> ('k \<times> 'v) list" where
  "map_insert lt k v [] = [(k, v)]"
| "map_insert lt k v ((k', v') # m) =
     (if lt k' k then (k', v') # map_insert lt k v m
      else if lt k k' then (k, v) # (k', v') # m
      else (k', v') # m)"

definition map_sorted :: "('k \<Rightarrow> 'k \<Rightarrow> bool) \<Rightarrow> ('k \<times> 'v) list \<Rightarrow> bool" where
  "map_sorted lt m \<longleftrightarrow> sorted_wrt lt (map fst m)"

context strict_weak_order
begin

lemma map_insert_keys:
  "x \<in> set (map fst (map_insert less k v m)) \<Longrightarrow> x = k \<or> x \<in> set (map fst m)"
proof (induction m)
  case (Cons e m)
  obtain k' v' where e: "e = (k', v')" by (cases e)
  show ?case using Cons unfolding e by (simp split: if_splits) blast
qed simp

lemma map_sorted_Cons:
  "map_sorted less ((k', v') # m) \<longleftrightarrow> (\<forall>x \<in> set (map fst m). less k' x) \<and> map_sorted less m"
  by (auto simp: map_sorted_def)

lemma map_insert_sorted: "map_sorted less m \<Longrightarrow> map_sorted less (map_insert less k v m)"
proof (induction m)
  case (Cons e m)
  obtain k' v' where e: "e = (k', v')" by (cases e)
  have sm: "map_sorted less m" and lt: "\<forall>x \<in> set (map fst m). less k' x"
    using Cons.prems by (simp_all add: e map_sorted_Cons)
  consider "less k' k" | "\<not> less k' k" "less k k'" | "\<not> less k' k" "\<not> less k k'" by blast
  then show ?case
  proof cases
    case 1
    have "\<forall>x \<in> set (map fst (map_insert less k v m)). less k' x"
      using map_insert_keys [of _ k v m] lt 1 by blast
    then show ?thesis using Cons.IH [OF sm] 1 by (simp add: e map_sorted_Cons)
  next
    case 2
    have "\<forall>x \<in> set (map fst m). less k x" using lt 2(2) less_trans by blast
    then show ?thesis using 2 sm lt by (simp add: e map_sorted_Cons)
  next
    case 3
    then show ?thesis using Cons.prems by (simp add: e)
  qed
qed (simp add: map_sorted_def)

text \<open>
  Insertion never replaces: a key equivalent to a stored one keeps the stored value.
\<close>

lemma map_find_insert:
  assumes "map_sorted less m"
  shows "map_find less q (map_insert less k v m) =
    (if \<not> less q k \<and> \<not> less k q
     then (case map_find less k m of None \<Rightarrow> Some v | Some w \<Rightarrow> Some w)
     else map_find less q m)"
  using assms
proof (induction m)
  case Nil
  then show ?case by auto
next
  case (Cons e m)
  obtain k' v' where e: "e = (k', v')" by (cases e)
  note IH = Cons.IH [OF iffD1 [OF map_sorted_Cons, THEN conjunct2, OF Cons.prems [unfolded e]]]
  have lt: "map_find less x m = None" if "less x k'" for x
    using Cons.prems that by (cases m) (auto simp: e map_sorted_Cons dest: less_trans less_asym)
  consider "less k' k" | "\<not> less k' k" "less k k'" | "\<not> less k' k" "\<not> less k k'" by blast
  then show ?case
  proof cases
    case 1
    show ?thesis
    proof (cases "less k' q")
      case True
      then show ?thesis using 1 IH by (simp add: e)
    next
      case False
      have "less q k" if "\<not> less q k'" using incomparable_less [of q k' k] that False 1 by simp
      then have "less q k" using less_trans [of q k' k] 1 by blast
      then show ?thesis using 1 False by (simp add: e)
    qed
  next
    case 2
    have "map_find less k m = None" using lt 2(2) by simp
    show ?thesis
    proof (cases "less k q")
      case True
      then show ?thesis using 2 by (simp add: e)
    next
      case False
      have "less q k'" using incomparable_less [of q k k'] less_trans [of q k k'] False 2 by blast
      then show ?thesis using 2 False less_asym [of q k'] lt [of q] by (simp add: e)
    qed
  next
    case 3
    then show ?thesis
      using incomparable_less [of k k' q] incomparable_trans [of q k k'] incomparable_trans [of q k' k]
      by (simp add: e)
  qed
qed

end

lemma sock_addr_less_order: "strict_weak_order sock_addr_less"
  by unfold_locales (auto simp: sock_addr_less_def)

interpretation addr_map: strict_weak_order sock_addr_less
  by (rule sock_addr_less_order)

interpretation sid_map: strict_weak_order session_id_less
  by unfold_locales (auto simp: session_id_less_def sock_addr_less_def split: if_splits)

interpretation conv_map: strict_weak_order "(<) :: u32 \<Rightarrow> u32 \<Rightarrow> bool"
  by unfold_locales auto

end
