(* ===== verification/Write_Queue.thy ===== *)
theory Write_Queue
  imports Socket_Types Message_Buffer
begin

text \<open>
  \<^verbatim>\<open>Network/Socket/WriteBufferQueue.h/.cpp\<close>: the pool of at most 128 outgoing datagrams of
  the server.  A buffer is in use while \<open>active\<close>; \<open>Flush\<close> sorts the pool with \<open>std::sort\<close> and
  counts the leading active buffers.  \<open>std::sort\<close> is not stable, so the sort is a parameter
  \<open>srt\<close>: any function that permutes its input into an order the comparator accepts.
\<close>

section \<open>State and operations\<close>

record write_buffer =
  wb_buffer :: message_buffer
  wb_addr :: sock_addr
  wb_active :: bool

record write_queue =
  writeList :: "write_buffer list"
  activepos :: nat

type_synonym wb_sort = "write_buffer list \<Rightarrow> write_buffer list"

definition MAX_WRITE_BUFFER_SIZE :: nat where "MAX_WRITE_BUFFER_SIZE = 128"

definition wq_new :: write_queue where
  "wq_new = \<lparr>writeList = [], activepos = 0\<rparr>"

definition wb_new :: "sock_addr \<Rightarrow> bytes \<Rightarrow> write_buffer option" where
  "wb_new adr data =
     map_option (\<lambda>b. \<lparr>wb_buffer = b, wb_addr = adr, wb_active = True\<rparr>)
       (mb_Write data (mb_new (length data)))"

definition wb_reuse :: "sock_addr \<Rightarrow> bytes \<Rightarrow> write_buffer \<Rightarrow> write_buffer option" where
  "wb_reuse adr data fb =
     map_option (\<lambda>b. fb\<lparr>wb_active := True, wb_addr := adr, wb_buffer := b\<rparr>)
       (mb_Write data (mb_Reset (mb_Resize (length data) (wb_buffer fb))))"

definition wb_before :: "write_buffer \<Rightarrow> write_buffer \<Rightarrow> bool" where
  "wb_before a b \<longleftrightarrow> \<not> wb_active a \<and> wb_active b"

fun count_leading_active :: "write_buffer list \<Rightarrow> nat" where
  "count_leading_active [] = 0"
| "count_leading_active (b # bs) = (if \<not> wb_active b then 0 else Suc (count_leading_active bs))"

definition wq_Flush :: "wb_sort \<Rightarrow> write_queue \<Rightarrow> write_queue" where
  "wq_Flush srt q =
     (let l = srt (writeList q)
      in q\<lparr>writeList := l, activepos := count_leading_active l\<rparr>)"

fun find_inactive :: "nat \<Rightarrow> write_buffer list \<Rightarrow> nat option" where
  "find_inactive i [] = None"
| "find_inactive i (b # bs) = (if \<not> wb_active b then Some i else find_inactive (Suc i) bs)"

definition wq_Push :: "wb_sort \<Rightarrow> bytes \<Rightarrow> sock_addr \<Rightarrow> write_queue \<Rightarrow> (bool \<times> write_queue) option" where
  "wq_Push srt data adr q =
     (case find_inactive 0 (writeList q) of
        Some i \<Rightarrow>
          (case wb_reuse adr data (writeList q ! i) of
             None \<Rightarrow> None
           | Some fb \<Rightarrow> Some (True, wq_Flush srt (q\<lparr>writeList := (writeList q)[i := fb]\<rparr>)))
      | None \<Rightarrow>
          (if length (writeList q) < MAX_WRITE_BUFFER_SIZE then
             (case wb_new adr data of
                None \<Rightarrow> None
              | Some b \<Rightarrow>
                  (let l = writeList q @ [b]
                   in Some (True, q\<lparr>writeList := l, activepos := length l\<rparr>)))
           else Some (False, q)))"

text \<open>\<open>at(0)\<close> throws on an empty vector: \<open>None\<close>.\<close>

definition wq_Front :: "write_queue \<Rightarrow> write_buffer option" where
  "wq_Front q = (case writeList q of [] \<Rightarrow> None | b # _ \<Rightarrow> Some b)"

definition wq_Pop :: "wb_sort \<Rightarrow> write_queue \<Rightarrow> bool \<times> write_queue" where
  "wq_Pop srt q =
     (case writeList q of
        [] \<Rightarrow> (False, q)
      | b # bs \<Rightarrow> (True, wq_Flush srt (q\<lparr>writeList := b\<lparr>wb_active := False\<rparr> # bs\<rparr>)))"

definition wq_GetActiveSize :: "write_queue \<Rightarrow> nat" where
  "wq_GetActiveSize q = activepos q"

section \<open>The contract of the sort\<close>

text \<open>
  What the standard promises of \<open>std::sort\<close>: a permutation in which no element must come
  before its predecessor.
\<close>

locale std_sort =
  fixes before :: "'a \<Rightarrow> 'a \<Rightarrow> bool"
    and srt :: "'a list \<Rightarrow> 'a list"
  assumes sort_mset: "mset (srt xs) = mset xs"
    and sort_sorted: "sorted_wrt (\<lambda>a b. \<not> before b a) (srt xs)"
begin

lemma sort_length [simp]: "length (srt xs) = length xs"
  using sort_mset mset_eq_length by metis

lemma sort_set [simp]: "set (srt xs) = set xs"
  using sort_mset mset_eq_setD by metis

lemma sort_Nil_iff: "srt xs = [] \<longleftrightarrow> xs = []"
proof -
  have "length (srt xs) = 0 \<longleftrightarrow> length xs = 0" by (simp only: sort_length)
  then show ?thesis by (simp only: length_0_conv)
qed

lemma sort_hd_minimal: "y \<in> set xs \<Longrightarrow> srt xs = x # ys \<Longrightarrow> y = x \<or> \<not> before y x"
  using sort_sorted [of xs] sort_set [of xs] by auto

end

text \<open>Inactive buffers first, each group in its old order: one sort that meets the contract.\<close>

definition wb_partition :: wb_sort where
  "wb_partition l = filter (\<lambda>b. \<not> wb_active b) l @ filter wb_active l"

lemma filter_sorted_wrt: "\<forall>a \<in> set l. \<forall>b \<in> set l. P a \<longrightarrow> P b \<longrightarrow> R a b \<Longrightarrow> sorted_wrt R (filter P l)"
  by (induction l) auto

interpretation wb_part: std_sort wb_before wb_partition
proof
  show "mset (wb_partition xs) = mset xs" for xs
    using filter_neq_mset [of "\<lambda>b. \<not> wb_active b" xs] by (simp add: wb_partition_def)
  show "sorted_wrt (\<lambda>a b. \<not> wb_before b a) (wb_partition xs)" for xs
    by (auto simp: wb_partition_def sorted_wrt_append wb_before_def intro!: filter_sorted_wrt)
qed

section \<open>Invariant\<close>

definition inactives :: "write_buffer list \<Rightarrow> nat" where
  "inactives l = length (filter (\<lambda>b. \<not> wb_active b) l)"

text \<open>
  Reachable pools hold at most one inactive buffer, and it is at the front: then the active
  count is the whole pool or zero.
\<close>

definition wq_inv :: "write_queue \<Rightarrow> bool" where
  "wq_inv q \<longleftrightarrow> length (writeList q) \<le> MAX_WRITE_BUFFER_SIZE \<and>
     (\<forall>b \<in> set (tl (writeList q)). wb_active b) \<and>
     activepos q = (if \<forall>b \<in> set (writeList q). wb_active b then length (writeList q) else 0)"

lemma count_leading_all: "\<forall>b \<in> set l. wb_active b \<Longrightarrow> count_leading_active l = length l"
  by (induction l) auto

lemma find_inactive_None: "find_inactive i l = None \<longleftrightarrow> (\<forall>b \<in> set l. wb_active b)"
  by (induction l arbitrary: i) auto

lemma find_inactive_Some:
  "find_inactive i l = Some j \<Longrightarrow> i \<le> j \<and> j - i < length l \<and> \<not> wb_active (l ! (j - i))"
proof (induction l arbitrary: i)
  case (Cons b l)
  then show ?case
    by (cases "wb_active b") (fastforce simp: Suc_diff_le nth_Cons' split: if_splits)+
qed simp

lemma wb_new_Some:
  assumes "length data < 2 ^ 63"
  obtains b where "wb_new adr data = Some b" "wb_active b" "wb_addr b = adr"
    "mb_ok (wb_buffer b)" "mb_unread (wb_buffer b) = data"
proof -
  obtain m where "mb_Write data (mb_new (length data)) = Some m" "mb_ok m" "mb_unread m = data"
    using mb_Write_Some [of "mb_new (length data)" data] assms
    by (auto simp: mb_remaining) (auto simp: mb_new_def)
  then show ?thesis using that by (simp add: wb_new_def)
qed

lemma wb_reuse_Some:
  assumes "length data < 2 ^ 63"
  obtains b where "wb_reuse adr data fb = Some b" "wb_active b" "wb_addr b = adr"
    "mb_ok (wb_buffer b)" "mb_unread (wb_buffer b) = data"
proof -
  let ?m = "mb_Reset (mb_Resize (length data) (wb_buffer fb))"
  have ok: "mb_ok ?m" using assms by (simp add: mb_ok_def mb_Reset_def mb_Resize_def)
  have room: "mb_GetRemainingSpace ?m = length data"
    by (simp add: mb_remaining ok) (simp add: mb_Reset_def mb_Resize_def)
  obtain m where "mb_Write data ?m = Some m" "mb_ok m" "mb_unread m = data"
    using mb_Write_Some [OF ok, of data] room by auto
  then show ?thesis using that by (simp add: wb_reuse_def)
qed

lemma wq_inv_new [simp]: "wq_inv wq_new"
  by (simp add: wq_inv_def wq_new_def)

context std_sort
begin

text \<open>At most one element precedes the others: it ends up first.\<close>

lemma sort_single_first:
  assumes "\<not> P x" "\<forall>y \<in> set xs. P y" and "\<And>a b. before a b \<longleftrightarrow> \<not> P a \<and> P b"
  shows "\<exists>ys. srt (x # xs) = x # ys \<and> mset ys = mset xs"
proof -
  obtain z ys where z: "srt (x # xs) = z # ys"
    using sort_Nil_iff [of "x # xs"] by (cases "srt (x # xs)") auto
  have "z = x"
    using sort_hd_minimal [of x "x # xs" z ys] z assms sort_set [of "x # xs"] by auto
  then show ?thesis using z sort_mset [of "x # xs"] by simp
qed

end

lemma wq_Flush_all_active:
  assumes "std_sort wb_before srt" "\<forall>b \<in> set (writeList q). wb_active b"
    "length (writeList q) \<le> MAX_WRITE_BUFFER_SIZE"
  shows "wq_inv (wq_Flush srt q)" "mset (writeList (wq_Flush srt q)) = mset (writeList q)"
    "wq_GetActiveSize (wq_Flush srt q) = length (writeList q)"
proof -
  note s = std_sort.sort_set [OF assms(1)] std_sort.sort_length [OF assms(1)]
    std_sort.sort_mset [OF assms(1)]
  have "set (tl l) \<subseteq> set l" for l :: "write_buffer list" by (cases l) auto
  then have "\<forall>b \<in> set (tl (srt (writeList q))). wb_active b" using assms s by blast
  then show "wq_inv (wq_Flush srt q)" "mset (writeList (wq_Flush srt q)) = mset (writeList q)"
    "wq_GetActiveSize (wq_Flush srt q) = length (writeList q)"
    using assms s by (auto simp: wq_Flush_def wq_inv_def wq_GetActiveSize_def count_leading_all Let_def)
qed

lemma wq_Flush_hd_inactive:
  assumes "std_sort wb_before srt" "writeList q = b # bs" "\<not> wb_active b" "\<forall>c \<in> set bs. wb_active c"
    "length (writeList q) \<le> MAX_WRITE_BUFFER_SIZE"
  shows "wq_inv (wq_Flush srt q)" "\<exists>bs'. writeList (wq_Flush srt q) = b # bs' \<and> mset bs' = mset bs"
    "wq_GetActiveSize (wq_Flush srt q) = 0"
proof -
  obtain ys where ys: "srt (b # bs) = b # ys" "mset ys = mset bs"
    using std_sort.sort_single_first [OF assms(1), where P = wb_active, OF assms(3,4) wb_before_def] by blast
  have "set ys = set bs" "length ys = length bs"
    using ys(2) by (auto dest: mset_eq_setD mset_eq_length)
  then show "wq_inv (wq_Flush srt q)" "\<exists>bs'. writeList (wq_Flush srt q) = b # bs' \<and> mset bs' = mset bs"
    "wq_GetActiveSize (wq_Flush srt q) = 0"
    using assms(2-5) ys by (auto simp: wq_Flush_def wq_inv_def wq_GetActiveSize_def Let_def)
qed

section \<open>Push and Pop\<close>

lemma wq_inv_cases:
  assumes "wq_inv q"
  obtains (all) "\<forall>b \<in> set (writeList q). wb_active b" "activepos q = length (writeList q)"
    | (front) b bs where "writeList q = b # bs" "\<not> wb_active b" "\<forall>c \<in> set bs. wb_active c"
        "activepos q = 0"
  using assms by (cases "writeList q") (auto simp: wq_inv_def split: if_splits)

lemma find_inactive_hd: "writeList q = b # bs \<Longrightarrow> \<not> wb_active b \<Longrightarrow> find_inactive 0 (writeList q) = Some 0"
  by simp

lemma wq_Push_inv:
  assumes "std_sort wb_before srt" "wq_inv q" "length data < 2 ^ 63"
  obtains r q' where "wq_Push srt data adr q = Some (r, q')" "wq_inv q'"
    "r = (wq_GetActiveSize q < MAX_WRITE_BUFFER_SIZE)"
    "r \<Longrightarrow> \<exists>b \<in> set (writeList q'). wb_active b \<and> wb_addr b = adr \<and> mb_unread (wb_buffer b) = data"
    "r \<Longrightarrow> wq_GetActiveSize q' = length (writeList q')" "\<not> r \<Longrightarrow> q' = q"
  using assms(2)
proof (cases rule: wq_inv_cases)
  case all
  then have f: "find_inactive 0 (writeList q) = None" by (simp add: find_inactive_None)
  obtain b where b: "wb_new adr data = Some b" "wb_active b" "wb_addr b = adr"
    "mb_unread (wb_buffer b) = data" using wb_new_Some [OF assms(3)] by blast
  show ?thesis
  proof (cases "length (writeList q) < MAX_WRITE_BUFFER_SIZE")
    case True
    let ?q = "q\<lparr>writeList := writeList q @ [b], activepos := length (writeList q @ [b])\<rparr>"
    have "set (tl (writeList q @ [b])) \<subseteq> set (writeList q @ [b])" by (cases "writeList q") auto
    then have "wq_inv ?q" using True all b(2) by (fastforce simp: wq_inv_def)
    moreover have "wq_Push srt data adr q = Some (True, ?q)"
      using f b(1) True by (simp add: wq_Push_def Let_def)
    ultimately show ?thesis using that True all b by (simp add: wq_GetActiveSize_def)
  next
    case False
    then have "wq_Push srt data adr q = Some (False, q)" using f by (simp add: wq_Push_def)
    then show ?thesis using that False all assms(2) by (simp add: wq_GetActiveSize_def)
  qed
next
  case (front b bs)
  obtain c where c: "wb_reuse adr data b = Some c" "wb_active c" "wb_addr c = adr"
    "mb_unread (wb_buffer c) = data" using wb_reuse_Some [OF assms(3)] by blast
  let ?q = "q\<lparr>writeList := c # bs\<rparr>"
  have "wq_Push srt data adr q = Some (True, wq_Flush srt ?q)"
    using front c(1) by (simp add: wq_Push_def)
  moreover have len: "length (writeList ?q) \<le> MAX_WRITE_BUFFER_SIZE"
    using assms(2) front by (simp add: wq_inv_def)
  moreover have act: "\<forall>x \<in> set (writeList ?q). wb_active x" using front c(2) by simp
  moreover note fl = wq_Flush_all_active [OF assms(1) act len]
  moreover have "set (writeList (wq_Flush srt ?q)) = set (c # bs)"
    using mset_eq_setD [OF fl(2)] by simp
  moreover have "length (writeList (wq_Flush srt ?q)) = length (c # bs)"
    using mset_eq_length [OF fl(2)] by simp
  ultimately show ?thesis using that [of True "wq_Flush srt ?q"] c front(4)
    by (simp add: wq_GetActiveSize_def MAX_WRITE_BUFFER_SIZE_def)
qed

lemma wq_Pop_nonempty:
  assumes "std_sort wb_before srt" "wq_inv q" "writeList q = b # bs"
  shows "\<exists>q' bs'. wq_Pop srt q = (True, q') \<and> writeList q' = b\<lparr>wb_active := False\<rparr> # bs' \<and>
     mset bs' = mset bs \<and> wq_inv q' \<and> wq_GetActiveSize q' = 0"
proof -
  let ?q = "q\<lparr>writeList := b\<lparr>wb_active := False\<rparr> # bs\<rparr>"
  have "wq_Pop srt q = (True, wq_Flush srt ?q)" using assms(3) by (simp add: wq_Pop_def)
  moreover have "\<forall>c \<in> set bs. wb_active c" "length (writeList ?q) \<le> MAX_WRITE_BUFFER_SIZE"
    using assms by (simp_all add: wq_inv_def)
  ultimately show ?thesis
    using wq_Flush_hd_inactive [OF assms(1), of ?q "b\<lparr>wb_active := False\<rparr>" bs] by auto
qed

end
