(* ===== verification/Kcp_Base.thy ===== *)
theory Kcp_Base
  imports Byte_Codec "HOL-Library.Monad_Syntax"
begin

text \<open>
  \<^verbatim>\<open>Network/Socket/ikcp.h/.c\<close>: the data of the KCP reliable transport, its creation and
  release and its configuration.  The control block and the segments are records with the
  fields of \<open>struct IKCPCB\<close> and \<open>struct IKCPSEG\<close>, every integer a 32-bit word (\<open>IINT32\<close>
  fields are read with \<open>sint\<close>).  The intrusive queues are lists, first element first; the
  counters that the code keeps beside them are fields of their own.  \<open>malloc n\<close> says whether
  an allocation of \<open>n\<close> bytes succeeds.  A failed \<open>assert\<close>, a null dereference or a write
  past an array is \<open>None\<close>.  Logging is left out: it writes no field.
\<close>

section \<open>Constants\<close>

definition IKCP_RTO_NDL :: u32 where "IKCP_RTO_NDL = 30"
definition IKCP_RTO_MIN :: u32 where "IKCP_RTO_MIN = 100"
definition IKCP_RTO_DEF :: u32 where "IKCP_RTO_DEF = 200"
definition IKCP_RTO_MAX :: u32 where "IKCP_RTO_MAX = 60000"
definition IKCP_CMD_PUSH :: u32 where "IKCP_CMD_PUSH = 81"
definition IKCP_CMD_ACK :: u32 where "IKCP_CMD_ACK = 82"
definition IKCP_CMD_WASK :: u32 where "IKCP_CMD_WASK = 83"
definition IKCP_CMD_WINS :: u32 where "IKCP_CMD_WINS = 84"
definition IKCP_ASK_SEND :: u32 where "IKCP_ASK_SEND = 1"
definition IKCP_ASK_TELL :: u32 where "IKCP_ASK_TELL = 2"
definition IKCP_WND_SND :: u32 where "IKCP_WND_SND = 32"
definition IKCP_WND_RCV :: u32 where "IKCP_WND_RCV = 128"
definition IKCP_MTU_DEF :: u32 where "IKCP_MTU_DEF = 1400"
definition IKCP_INTERVAL :: u32 where "IKCP_INTERVAL = 100"
definition IKCP_OVERHEAD :: u32 where "IKCP_OVERHEAD = 24"
definition IKCP_DEADLINK :: u32 where "IKCP_DEADLINK = 20"
definition IKCP_THRESH_INIT :: u32 where "IKCP_THRESH_INIT = 2"
definition IKCP_THRESH_MIN :: u32 where "IKCP_THRESH_MIN = 2"
definition IKCP_PROBE_INIT :: u32 where "IKCP_PROBE_INIT = 7000"
definition IKCP_PROBE_LIMIT :: u32 where "IKCP_PROBE_LIMIT = 120000"

lemmas ikcp_consts = IKCP_RTO_NDL_def IKCP_RTO_MIN_def IKCP_RTO_DEF_def IKCP_RTO_MAX_def
  IKCP_CMD_PUSH_def IKCP_CMD_ACK_def IKCP_CMD_WASK_def IKCP_CMD_WINS_def IKCP_ASK_SEND_def
  IKCP_ASK_TELL_def IKCP_WND_SND_def IKCP_WND_RCV_def IKCP_MTU_DEF_def IKCP_INTERVAL_def
  IKCP_OVERHEAD_def IKCP_DEADLINK_def IKCP_THRESH_INIT_def IKCP_THRESH_MIN_def
  IKCP_PROBE_INIT_def IKCP_PROBE_LIMIT_def

section \<open>Arithmetic\<close>

definition imin :: "u32 \<Rightarrow> u32 \<Rightarrow> u32" where
  "imin a b = (if a \<le> b then a else b)"

definition imax :: "u32 \<Rightarrow> u32 \<Rightarrow> u32" where
  "imax a b = (if a \<ge> b then a else b)"

definition ibound :: "u32 \<Rightarrow> u32 \<Rightarrow> u32 \<Rightarrow> u32" where
  "ibound lower middle upper = imin (imax lower middle) upper"

text \<open>
  \<open>_itimediff\<close> returns the unsigned difference as a \<open>long\<close>.  Its width is an argument of
  \<open>itimediff_w\<close>; the protocol uses the 32 bits of the Windows build.
\<close>

definition itimediff_w :: "nat \<Rightarrow> u32 \<Rightarrow> u32 \<Rightarrow> int" where
  "itimediff_w w later earlier = c_long_of_u32 w (later - earlier)"

definition LONG_BITS :: nat where "LONG_BITS = 32"

definition itimediff :: "u32 \<Rightarrow> u32 \<Rightarrow> int" where
  "itimediff later earlier = itimediff_w LONG_BITS later earlier"

lemma itimediff_sint [simp]: "itimediff a b = sint (a - b)"
  by (simp add: itimediff_def itimediff_w_def LONG_BITS_def c_long_of_u32_32)

section \<open>Segments\<close>

record kseg =
  sg_conv :: u32
  sg_cmd :: u32
  sg_frg :: u32
  sg_wnd :: u32
  sg_ts :: u32
  sg_sn :: u32
  sg_una :: u32
  sg_len :: u32
  sg_resendts :: u32
  sg_rto :: u32
  sg_fastack :: u32
  sg_xmit :: u32
  sg_data :: bytes

text \<open>A fresh segment; \<open>malloc\<close> does not clear the fields, which the callers set.\<close>

definition seg_blank :: kseg where
  "seg_blank = \<lparr>sg_conv = 0, sg_cmd = 0, sg_frg = 0, sg_wnd = 0, sg_ts = 0, sg_sn = 0,
     sg_una = 0, sg_len = 0, sg_resendts = 0, sg_rto = 0, sg_fastack = 0, sg_xmit = 0,
     sg_data = []\<rparr>"

definition seg_ok :: "kseg \<Rightarrow> bool" where
  "seg_ok s \<longleftrightarrow> length (sg_data s) = unat (sg_len s)"

section \<open>The control block\<close>

record kcb =
  k_conv :: u32
  k_mtu :: u32
  k_mss :: u32
  k_state :: u32
  k_snd_una :: u32
  k_snd_nxt :: u32
  k_rcv_nxt :: u32
  k_ts_recent :: u32
  k_ts_lastack :: u32
  k_ssthresh :: u32
  k_rx_rttval :: u32
  k_rx_srtt :: u32
  k_rx_rto :: u32
  k_rx_minrto :: u32
  k_snd_wnd :: u32
  k_rcv_wnd :: u32
  k_rmt_wnd :: u32
  k_cwnd :: u32
  k_probe :: u32
  k_current :: u32
  k_ts_flush :: u32
  k_interval :: u32
  k_xmit :: u32
  k_nrcv_buf :: u32
  k_nsnd_buf :: u32
  k_nrcv_que :: u32
  k_nsnd_que :: u32
  k_nodelay :: u32
  k_updated :: u32
  k_ts_probe :: u32
  k_probe_wait :: u32
  k_dead_link :: u32
  k_incr :: u32
  k_snd_queue :: "kseg list"
  k_rcv_queue :: "kseg list"
  k_snd_buf :: "kseg list"
  k_rcv_buf :: "kseg list"
  k_acklist :: "(u32 \<times> u32) list"
  k_ackcount :: nat
  k_bufsize :: nat
  k_fastresend :: int
  k_nocwnd :: int
  k_stream :: int
  k_output :: bool

text \<open>
  \<open>k_acklist\<close> is the allocated array (\<open>ackblock\<close> is its length), of which the first
  \<open>k_ackcount\<close> entries are pending; \<open>k_bufsize\<close> is the size of the allocation \<open>buffer\<close>;
  \<open>k_output\<close> says whether the output callback is set.
\<close>

definition buffer_size :: "u32 \<Rightarrow> nat" where
  "buffer_size mtu = unat ((mtu + IKCP_OVERHEAD) * 3)"

definition ikcp_create :: "(nat \<Rightarrow> bool) \<Rightarrow> nat \<Rightarrow> u32 \<Rightarrow> kcb option" where
  "ikcp_create malloc sizeof_kcb conv =
     (if \<not> malloc sizeof_kcb then None
      else if \<not> malloc (buffer_size IKCP_MTU_DEF) then None
      else Some \<lparr>k_conv = conv, k_mtu = IKCP_MTU_DEF, k_mss = IKCP_MTU_DEF - IKCP_OVERHEAD,
        k_state = 0, k_snd_una = 0, k_snd_nxt = 0, k_rcv_nxt = 0, k_ts_recent = 0,
        k_ts_lastack = 0, k_ssthresh = IKCP_THRESH_INIT, k_rx_rttval = 0, k_rx_srtt = 0,
        k_rx_rto = IKCP_RTO_DEF, k_rx_minrto = IKCP_RTO_MIN, k_snd_wnd = IKCP_WND_SND,
        k_rcv_wnd = IKCP_WND_RCV, k_rmt_wnd = IKCP_WND_RCV, k_cwnd = 0, k_probe = 0,
        k_current = 0, k_ts_flush = IKCP_INTERVAL, k_interval = IKCP_INTERVAL, k_xmit = 0,
        k_nrcv_buf = 0, k_nsnd_buf = 0, k_nrcv_que = 0, k_nsnd_que = 0, k_nodelay = 0,
        k_updated = 0, k_ts_probe = 0, k_probe_wait = 0, k_dead_link = IKCP_DEADLINK,
        k_incr = 0, k_snd_queue = [], k_rcv_queue = [], k_snd_buf = [], k_rcv_buf = [],
        k_acklist = [], k_ackcount = 0, k_bufsize = buffer_size IKCP_MTU_DEF,
        k_fastresend = 0, k_nocwnd = 0, k_stream = 0, k_output = False\<rparr>)"

definition ikcp_release :: "kcb \<Rightarrow> kcb" where
  "ikcp_release k = k\<lparr>k_snd_buf := [], k_rcv_buf := [], k_snd_queue := [], k_rcv_queue := [],
     k_nrcv_buf := 0, k_nsnd_buf := 0, k_nrcv_que := 0, k_nsnd_que := 0, k_ackcount := 0,
     k_bufsize := 0, k_acklist := []\<rparr>"

definition ikcp_setoutput :: "bool \<Rightarrow> kcb \<Rightarrow> kcb" where
  "ikcp_setoutput f k = k\<lparr>k_output := f\<rparr>"

section \<open>Configuration\<close>

definition ikcp_setmtu :: "(nat \<Rightarrow> bool) \<Rightarrow> int \<Rightarrow> kcb \<Rightarrow> int \<times> kcb" where
  "ikcp_setmtu malloc mtu k =
     (if mtu < 50 \<or> mtu < sint IKCP_OVERHEAD then (-1, k)
      else if \<not> malloc (buffer_size (word_of_int mtu)) then (-2, k)
      else (0, k\<lparr>k_mtu := word_of_int mtu, k_mss := word_of_int mtu - IKCP_OVERHEAD,
                 k_bufsize := buffer_size (word_of_int mtu)\<rparr>))"

definition clamp_interval :: "int \<Rightarrow> int" where
  "clamp_interval i = (if i > 5000 then 5000 else if i < 10 then 10 else i)"

definition ikcp_interval :: "int \<Rightarrow> kcb \<Rightarrow> int \<times> kcb" where
  "ikcp_interval interval k = (0, k\<lparr>k_interval := word_of_int (clamp_interval interval)\<rparr>)"

definition ikcp_nodelay :: "int \<Rightarrow> int \<Rightarrow> int \<Rightarrow> int \<Rightarrow> kcb \<Rightarrow> int \<times> kcb" where
  "ikcp_nodelay nodelay interval resend nc k =
     (let k = (if nodelay \<ge> 0
               then k\<lparr>k_nodelay := word_of_int nodelay,
                      k_rx_minrto := (if nodelay \<noteq> 0 then IKCP_RTO_NDL else IKCP_RTO_MIN)\<rparr>
               else k);
          k = (if interval \<ge> 0 then k\<lparr>k_interval := word_of_int (clamp_interval interval)\<rparr> else k);
          k = (if resend \<ge> 0 then k\<lparr>k_fastresend := resend\<rparr> else k);
          k = (if nc \<ge> 0 then k\<lparr>k_nocwnd := nc\<rparr> else k)
      in (0, k))"

definition ikcp_wndsize :: "int \<Rightarrow> int \<Rightarrow> kcb \<Rightarrow> int \<times> kcb" where
  "ikcp_wndsize sndwnd rcvwnd k =
     (let k = (if sndwnd > 0 then k\<lparr>k_snd_wnd := word_of_int sndwnd\<rparr> else k);
          k = (if rcvwnd > 0 then k\<lparr>k_rcv_wnd := imax (word_of_int rcvwnd) IKCP_WND_RCV\<rparr> else k)
      in (0, k))"

definition ikcp_waitsnd :: "kcb \<Rightarrow> int" where
  "ikcp_waitsnd k = sint (k_nsnd_buf k + k_nsnd_que k)"

definition ikcp_getconv :: "bytes \<Rightarrow> u32 option" where
  "ikcp_getconv p = map_option fst (ikcp_decode32u p)"

section \<open>Basic invariant\<close>

text \<open>
  The counters count: each of the four queue counters is the length of its queue, the
  pending acknowledgements lie in the allocated array, and every segment holds \<open>len\<close> bytes.
\<close>

definition counters_ok :: "kcb \<Rightarrow> bool" where
  "counters_ok k \<longleftrightarrow> unat (k_nsnd_que k) = length (k_snd_queue k) \<and>
     unat (k_nsnd_buf k) = length (k_snd_buf k) \<and>
     unat (k_nrcv_que k) = length (k_rcv_queue k) \<and>
     unat (k_nrcv_buf k) = length (k_rcv_buf k) \<and>
     k_ackcount k \<le> length (k_acklist k)"

definition segs_ok :: "kcb \<Rightarrow> bool" where
  "segs_ok k \<longleftrightarrow> (\<forall>s \<in> set (k_snd_queue k) \<union> set (k_snd_buf k) \<union>
     set (k_rcv_queue k) \<union> set (k_rcv_buf k). seg_ok s)"

definition config_ok :: "kcb \<Rightarrow> bool" where
  "config_ok k \<longleftrightarrow> 50 \<le> unat (k_mtu k) \<and> unat (k_mtu k) < 2 ^ 28 \<and>
     k_mss k = k_mtu k - IKCP_OVERHEAD \<and> k_bufsize k = buffer_size (k_mtu k) \<and>
     128 \<le> unat (k_rcv_wnd k) \<and> unat (k_rcv_wnd k) < 2 ^ 31 \<and>
     10 \<le> unat (k_interval k) \<and> unat (k_interval k) \<le> 5000 \<and>
     k_rx_minrto k \<le> IKCP_RTO_MAX"

lemma imin_le: "imin a b \<le> a" "imin a b \<le> b"
  by (auto simp: imin_def)

lemma imax_ge: "a \<le> imax a b" "b \<le> imax a b"
  by (auto simp: imax_def)

lemma ibound_range: "lower \<le> upper \<Longrightarrow> lower \<le> ibound lower middle upper \<and> ibound lower middle upper \<le> upper"
  by (auto simp: ibound_def imin_def imax_def)

lemma unat_imax: "unat (imax a b) = max (unat a) (unat b)"
  by (auto simp: imax_def word_le_nat_alt max_def)

lemma unat_imin: "unat (imin a b) = min (unat a) (unat b)"
  by (auto simp: imin_def word_le_nat_alt min_def)

lemma clamp_interval_range: "10 \<le> clamp_interval i \<and> clamp_interval i \<le> 5000"
  by (simp add: clamp_interval_def)

lemma unat_word_of_int32: "0 \<le> i \<Longrightarrow> i < 2 ^ 32 \<Longrightarrow> unat (word_of_int i :: u32) = nat i"
  by (simp add: unat_eq_nat_uint uint_word_of_int)

lemma unat_clamp: "unat (word_of_int (clamp_interval i) :: u32) = nat (clamp_interval i)"
  using clamp_interval_range [of i] by (intro unat_word_of_int32) auto

lemma buffer_size_eq:
  assumes "unat mtu < 2 ^ 28" shows "buffer_size mtu = 3 * (unat mtu + 24)"
proof -
  have u: "unat (mtu + IKCP_OVERHEAD) = unat mtu + 24"
    using assms by (subst unat_add_lem [THEN iffD1]) (auto simp: IKCP_OVERHEAD_def)
  have "unat ((mtu + IKCP_OVERHEAD) * 3) = unat (mtu + IKCP_OVERHEAD) * unat (3 :: u32)"
    using assms u by (subst unat_mult_lem [THEN iffD1]) auto
  then show ?thesis by (simp add: buffer_size_def u)
qed

lemma create_ok:
  assumes "ikcp_create malloc n conv = Some k"
  shows "counters_ok k" "segs_ok k" "config_ok k"
  using assms
  by (auto simp: ikcp_create_def counters_ok_def segs_ok_def config_ok_def ikcp_consts
      split: if_splits)

lemma release_frees_all:
  "k_snd_queue (ikcp_release k) = [] \<and> k_snd_buf (ikcp_release k) = [] \<and>
   k_rcv_queue (ikcp_release k) = [] \<and> k_rcv_buf (ikcp_release k) = [] \<and>
   counters_ok (ikcp_release k) \<and> ikcp_waitsnd (ikcp_release k) = 0"
  by (simp add: ikcp_release_def counters_ok_def ikcp_waitsnd_def)

lemma setmtu_config:
  assumes "config_ok k" "mtu < 2 ^ 28"
  shows "config_ok (snd (ikcp_setmtu malloc mtu k))"
proof (cases "mtu < 50")
  case False
  then have "unat (word_of_int mtu :: u32) = nat mtu"
    using assms by (intro unat_word_of_int32) auto
  then show ?thesis using assms False by (auto simp: ikcp_setmtu_def config_ok_def)
qed (use assms in \<open>simp add: ikcp_setmtu_def\<close>)

lemma setmtu_result:
  "fst (ikcp_setmtu malloc mtu k) = 0 \<longleftrightarrow> 50 \<le> mtu \<and> malloc (buffer_size (word_of_int mtu))"
  by (auto simp: ikcp_setmtu_def IKCP_OVERHEAD_def)

lemma interval_config: "config_ok k \<Longrightarrow> config_ok (snd (ikcp_interval i k))"
  using clamp_interval_range [of i] by (auto simp: ikcp_interval_def config_ok_def unat_clamp)

lemma nodelay_config: "config_ok k \<Longrightarrow> config_ok (snd (ikcp_nodelay nd i rs nc k))"
  using clamp_interval_range [of i]
  by (auto simp: ikcp_nodelay_def config_ok_def unat_clamp Let_def ikcp_consts)

lemma wndsize_config:
  assumes "config_ok k" "r < 2 ^ 31"
  shows "config_ok (snd (ikcp_wndsize s r k))"
proof -
  have "0 < r \<Longrightarrow> unat (word_of_int r :: u32) = nat r"
    using assms by (intro unat_word_of_int32) auto
  then show ?thesis
    using assms by (auto simp: ikcp_wndsize_def config_ok_def Let_def unat_imax IKCP_WND_RCV_def)
qed

lemma waitsnd_counts:
  assumes "counters_ok k" "length (k_snd_buf k) + length (k_snd_queue k) < 2 ^ 31"
  shows "ikcp_waitsnd k = int (length (k_snd_buf k) + length (k_snd_queue k))"
proof -
  have "unat (k_nsnd_buf k + k_nsnd_que k) = length (k_snd_buf k) + length (k_snd_queue k)"
    using assms by (subst unat_add_lem [THEN iffD1]) (auto simp: counters_ok_def)
  then show ?thesis using assms(2) by (simp add: ikcp_waitsnd_def sint32_cases)
qed

end
