(* ===== verification/Kcp_Recv.thy ===== *)
theory Kcp_Recv
  imports Kcp_Base
begin

text \<open>
  The receiving half of \<^verbatim>\<open>ikcp.c\<close>: \<open>ikcp_peeksize\<close>, \<open>ikcp_recv\<close>, \<open>ikcp_parse_data\<close> and
  \<open>ikcp_wnd_unused\<close>.  \<open>rcv_buf\<close> is the reorder buffer, sorted by serial number relative to
  \<open>rcv_nxt\<close>; \<open>rcv_queue\<close> holds the segments already in order.  The lemmas show that the
  reorder buffer stays sorted and inside the window, that segments enter \<open>rcv_queue\<close> in
  serial order without gaps or repeats, and that a read returns exactly one message.
\<close>

section \<open>Operations\<close>

text \<open>\<open>int length; length += seg->len\<close>: the sum of an \<open>int\<close> and an unsigned, back to \<open>int\<close>.\<close>

fun peek_length :: "u32 \<Rightarrow> kseg list \<Rightarrow> u32" where
  "peek_length len [] = len"
| "peek_length len (s # ss) =
     (let len = len + sg_len s in if sg_frg s = 0 then len else peek_length len ss)"

definition ikcp_peeksize :: "kcb \<Rightarrow> int" where
  "ikcp_peeksize k =
     (case k_rcv_queue k of
        [] \<Rightarrow> -1
      | seg # _ \<Rightarrow>
          (if sg_frg seg = 0 then sint (sg_len seg)
           else if k_nrcv_que k < sg_frg seg + 1 then -1
           else sint (peek_length 0 (k_rcv_queue k))))"

text \<open>
  The merge loop: the bytes copied, the length counted, and the segments left and deleted.
\<close>

fun merge_fragment :: "kseg list \<Rightarrow> bytes \<Rightarrow> u32 \<Rightarrow> nat \<Rightarrow> bytes \<times> u32 \<times> nat \<times> kseg list" where
  "merge_fragment [] buffer len n = (buffer, len, n, [])"
| "merge_fragment (s # ss) buffer len n =
     (let buffer = buffer @ take (unat (sg_len s)) (sg_data s);
          len = len + sg_len s
      in if sg_frg s = 0 then (buffer, len, Suc n, ss)
         else merge_fragment ss buffer len (Suc n))"

text \<open>The loop that moves deliverable segments from \<open>rcv_buf\<close> to \<open>rcv_queue\<close>.\<close>

definition deliver :: "kseg \<Rightarrow> kseg list \<Rightarrow> kcb \<Rightarrow> kcb" where
  "deliver seg rest k = k\<lparr>k_rcv_buf := rest, k_nrcv_buf := k_nrcv_buf k - 1,
     k_rcv_queue := k_rcv_queue k @ [seg], k_nrcv_que := k_nrcv_que k + 1,
     k_rcv_nxt := k_rcv_nxt k + 1\<rparr>"

function move_available :: "kcb \<Rightarrow> kcb" where
  "move_available k =
     (case k_rcv_buf k of
        [] \<Rightarrow> k
      | seg # rest \<Rightarrow>
          (if sg_sn seg = k_rcv_nxt k \<and> k_nrcv_que k < k_rcv_wnd k then
             move_available (deliver seg rest k)
           else k))"
  by pat_completeness auto
termination by (relation "measure (\<lambda>k. length (k_rcv_buf k))") (auto simp: deliver_def)

declare move_available.simps [simp del]

lemma move_available_go:
  "k_rcv_buf k = seg # rest \<Longrightarrow> sg_sn seg = k_rcv_nxt k \<Longrightarrow> k_nrcv_que k < k_rcv_wnd k \<Longrightarrow>
   move_available k = move_available (deliver seg rest k)"
  by (subst move_available.simps) simp

lemma move_available_stop:
  "(\<And>seg rest. k_rcv_buf k = seg # rest \<Longrightarrow> sg_sn seg = k_rcv_nxt k \<Longrightarrow> \<not> k_nrcv_que k < k_rcv_wnd k) \<Longrightarrow>
   move_available k = k"
  by (subst move_available.simps) (auto split: list.splits)

lemma move_available_rule [consumes 1, case_names deliver]:
  assumes "P k"
    and "\<And>k seg rest. P k \<Longrightarrow> k_rcv_buf k = seg # rest \<Longrightarrow> sg_sn seg = k_rcv_nxt k \<Longrightarrow>
      k_nrcv_que k < k_rcv_wnd k \<Longrightarrow> P (deliver seg rest k)"
  shows "P (move_available k)"
  using assms(1)
proof (induction k rule: move_available.induct)
  case (1 k)
  show ?case
  proof (cases "\<exists>seg rest. k_rcv_buf k = seg # rest \<and> sg_sn seg = k_rcv_nxt k \<and> k_nrcv_que k < k_rcv_wnd k")
    case True
    then obtain seg rest where *: "k_rcv_buf k = seg # rest" "sg_sn seg = k_rcv_nxt k"
      "k_nrcv_que k < k_rcv_wnd k" by blast
    have "P (move_available (deliver seg rest k))"
      using "1.IH" [OF *(1) conjI [OF *(2,3)]] assms(2) [OF "1.prems" *] by blast
    then show ?thesis using move_available_go [OF *] by simp
  next
    case False
    then have "move_available k = k" by (intro move_available_stop) blast
    then show ?thesis using "1.prems" by simp
  qed
qed

text \<open>
  \<open>ikcp_recv k len\<close> returns the result code, the bytes written to the caller's buffer and
  the new control block; \<open>None\<close> is the failed \<open>assert (len == peeksize)\<close>.
\<close>

definition ikcp_recv :: "kcb \<Rightarrow> int \<Rightarrow> (int \<times> bytes \<times> kcb) option" where
  "ikcp_recv k len =
     (let ispeek = len < 0 in
      if k_rcv_queue k = [] then Some (-1, [], k)
      else
        let len = (if len < 0 then - len else len);
            peeksize = ikcp_peeksize k in
        if peeksize < 0 then Some (-2, [], k)
        else if peeksize > len then Some (-3, [], k)
        else
          let recover = k_nrcv_que k \<ge> k_rcv_wnd k;
              (buffer, len, n, rest) = merge_fragment (k_rcv_queue k) [] 0 0;
              k = (if ispeek then k
                   else k\<lparr>k_rcv_queue := rest, k_nrcv_que := k_nrcv_que k - of_nat n\<rparr>) in
          if sint len \<noteq> peeksize then None
          else
            let k = move_available k;
                k = (if k_nrcv_que k < k_rcv_wnd k \<and> recover
                     then k\<lparr>k_probe := k_probe k OR IKCP_ASK_TELL\<rparr> else k)
            in Some (sint len, buffer, k))"

text \<open>
  The search of \<open>ikcp_parse_data\<close> runs from the end of \<open>rcv_buf\<close>: it returns whether the
  serial number is there already, and otherwise the list with the segment inserted after
  the last one that does not come later.
\<close>

fun rcv_insert_rev :: "kseg \<Rightarrow> kseg list \<Rightarrow> bool \<times> kseg list" where
  "rcv_insert_rev new [] = (False, [new])"
| "rcv_insert_rev new (s # ss) =
     (if sg_sn s = sg_sn new then (True, s # ss)
      else if itimediff (sg_sn new) (sg_sn s) > 0 then (False, new # s # ss)
      else (let (r, ss') = rcv_insert_rev new ss in (r, s # ss')))"

definition ikcp_parse_data :: "kcb \<Rightarrow> kseg \<Rightarrow> kcb" where
  "ikcp_parse_data k newseg =
     (let sn = sg_sn newseg in
      if itimediff sn (k_rcv_nxt k + k_rcv_wnd k) \<ge> 0 \<or> itimediff sn (k_rcv_nxt k) < 0 then k
      else
        let (rpt, rb) = rcv_insert_rev newseg (rev (k_rcv_buf k));
            k = (if \<not> rpt then k\<lparr>k_rcv_buf := rev rb, k_nrcv_buf := k_nrcv_buf k + 1\<rparr> else k)
        in move_available k)"

definition ikcp_wnd_unused :: "kcb \<Rightarrow> u32" where
  "ikcp_wnd_unused k = (if k_nrcv_que k < k_rcv_wnd k then k_rcv_wnd k - k_nrcv_que k else 0)"

lemmas [kcp_defs] = ikcp_peeksize_def ikcp_recv_def ikcp_parse_data_def ikcp_wnd_unused_def

section \<open>Offsets in the receive window\<close>

text \<open>The distance of a serial number from \<open>rcv_nxt\<close>, modulo \<open>2 ^ 32\<close>.\<close>

definition off :: "u32 \<Rightarrow> u32 \<Rightarrow> nat" where
  "off base sn = unat (sn - base)"

lemma off_self [simp]: "off b b = 0"
  by (simp add: off_def)

lemma off_eq_0_iff: "off b s = 0 \<longleftrightarrow> s = b"
  by (auto simp: off_def unat_eq_0)

lemma off_inject: "off b s = off b t \<longleftrightarrow> s = t"
proof -
  have "unat (s - b) = unat (t - b) \<longleftrightarrow> s - b = t - b" by (simp add: word_unat_eq_iff)
  then show ?thesis by (simp add: off_def)
qed

lemma off_Suc: "s \<noteq> b \<Longrightarrow> off (b + 1) s = off b s - 1"
proof -
  assume "s \<noteq> b"
  then have "s - b \<noteq> 0" by simp
  then have "unat (s - b - 1) = unat (s - b) - 1" by (rule unat_minus_one)
  then show ?thesis by (simp add: off_def diff_diff_eq)
qed

lemma unat_sub32: "unat (a - b :: u32) = (if unat b \<le> unat a then unat a - unat b else unat a + 2 ^ 32 - unat b)"
  by (cases "unat b \<le> unat a") (simp_all add: unat_sub_if')

text \<open>Inside half of the number space the signed difference compares offsets.\<close>

lemma sint_diff_off:
  assumes "off b s < 2 ^ 31" "off b t < 2 ^ 31"
  shows "sint (s - t) = int (off b s) - int (off b t)"
proof -
  have e: "s - t = (s - b) - (t - b)" by simp
  obtain x y where xy: "unat (s - b) = x" "unat (t - b) = y" by simp
  have lt: "x < 2 ^ 31" "y < 2 ^ 31" using assms xy by (simp_all add: off_def)
  have "unat (s - t) = (if y \<le> x then x - y else x + 2 ^ 32 - y)"
    using unat_sub32 [of "s - b" "t - b"] xy by (simp add: e [symmetric])
  then show ?thesis using lt xy by (simp add: sint32_cases off_def split: if_splits)
qed

lemma off_window:
  assumes "unat wnd < 2 ^ 31"
  shows "\<not> (sint (sn - (b + wnd)) \<ge> 0 \<or> sint (sn - b) < 0) \<longleftrightarrow> off b sn < unat wnd"
proof (cases "off b sn < 2 ^ 31")
  case True
  have "off b (b + wnd) = unat wnd" by (simp add: off_def)
  then have "sint (sn - (b + wnd)) = int (off b sn) - int (unat wnd)"
    using sint_diff_off [of b sn "b + wnd"] True assms by simp
  moreover have "sint (sn - b) = int (off b sn)"
    using sint_diff_off [of b sn b] True by simp
  ultimately show ?thesis by linarith
next
  case False
  then have "sint (sn - b) < 0" by (simp add: sint32_neg_iff off_def)
  then show ?thesis using False assms by simp
qed

section \<open>The reorder buffer\<close>

definition sorted_from :: "u32 \<Rightarrow> kseg list \<Rightarrow> bool" where
  "sorted_from b ss \<longleftrightarrow> sorted_wrt (<) (map (\<lambda>s. off b (sg_sn s)) ss)"

text \<open>
  Every buffered serial number lies in the window \<open>[rcv_nxt, rcv_nxt + rcv_wnd)\<close>, in strictly
  increasing order.
\<close>

definition rcv_ok :: "kcb \<Rightarrow> bool" where
  "rcv_ok k \<longleftrightarrow> sorted_from (k_rcv_nxt k) (k_rcv_buf k) \<and>
     (\<forall>s \<in> set (k_rcv_buf k). off (k_rcv_nxt k) (sg_sn s) < unat (k_rcv_wnd k)) \<and>
     unat (k_rcv_wnd k) < 2 ^ 31"

lemma rcv_insert_rev_spec:
  assumes "\<forall>s \<in> set ss. off b (sg_sn s) < 2 ^ 31" "off b (sg_sn new) < 2 ^ 31"
    "sorted_from b (rev ss)" "rcv_insert_rev new ss = (r, ss')"
  shows "(r \<longleftrightarrow> sg_sn new \<in> sg_sn ` set ss) \<and> (r \<longrightarrow> ss' = ss) \<and>
     (\<not> r \<longrightarrow> sorted_from b (rev ss') \<and> mset ss' = add_mset new (mset ss))"
  using assms
proof (induction ss arbitrary: r ss')
  case Nil
  then show ?case by (auto simp: sorted_from_def)
next
  case (Cons s ss)
  have srt: "sorted_from b (rev ss)" "\<forall>t \<in> set ss. off b (sg_sn t) < off b (sg_sn s)"
    using Cons.prems(3) by (auto simp: sorted_from_def sorted_wrt_append)
  have cmp: "sint (sg_sn new - sg_sn s) = int (off b (sg_sn new)) - int (off b (sg_sn s))"
    using Cons.prems by (intro sint_diff_off) auto
  consider (eq) "sg_sn s = sg_sn new" | (gt) "off b (sg_sn s) < off b (sg_sn new)"
    | (lt) "off b (sg_sn new) < off b (sg_sn s)"
    using off_inject [of b "sg_sn s" "sg_sn new"] by linarith
  then show ?case
  proof cases
    case eq
    then show ?thesis using Cons.prems by auto
  next
    case gt
    then have "ss' = new # s # ss" "\<not> r" using Cons.prems(4) cmp by (auto split: if_splits)
    moreover have "sg_sn new \<notin> sg_sn ` set (s # ss)" using gt srt(2) by auto
    moreover have "sorted_from b (rev (new # s # ss))"
      using gt srt Cons.prems(3) by (auto simp: sorted_from_def sorted_wrt_append)
    ultimately show ?thesis by auto
  next
    case lt
    obtain ss'' where ss'': "rcv_insert_rev new ss = (r, ss'')" "ss' = s # ss''"
      using Cons.prems(4) lt cmp by (auto split: if_splits prod.splits)
    note IH = Cons.IH [OF _ Cons.prems(2) srt(1) ss''(1)]
    have "\<forall>t \<in> set ss''. off b (sg_sn t) < off b (sg_sn s)" if "\<not> r"
    proof -
      have "set ss'' = insert new (set ss)"
        using IH that Cons.prems(1) by (auto dest: set_of_add_mset)
      then show ?thesis using lt srt(2) by auto
    qed
    then show ?thesis
      using IH Cons.prems lt ss'' by (auto simp: sorted_from_def sorted_wrt_append)
  qed
qed

section \<open>Draining the reorder buffer\<close>

lemma rcv_buf_bound: "rcv_ok k \<Longrightarrow> length (k_rcv_buf k) \<le> unat (k_rcv_wnd k)"
  using strict_sorted_below_length [of "map (\<lambda>s. off (k_rcv_nxt k) (sg_sn s)) (k_rcv_buf k)" "unat (k_rcv_wnd k)"]
  by (auto simp: rcv_ok_def sorted_from_def)

lemma unat_Suc32: "unat (w :: u32) + 1 < 2 ^ 32 \<Longrightarrow> unat (w + 1) = unat w + 1"
  using unat_add_lem [of w 1] by simp

text \<open>Moving on by one keeps the offsets of what is left sorted and inside the window.\<close>

lemma sorted_from_step:
  assumes "sorted_from b (s # ss)" "sg_sn s = b" "\<forall>t \<in> set (s # ss). off b (sg_sn t) < n"
  shows "sorted_from (b + 1) ss" "\<forall>t \<in> set ss. off (b + 1) (sg_sn t) < n"
proof -
  have pos: "off (b + 1) (sg_sn t) = off b (sg_sn t) - 1 \<and> 0 < off b (sg_sn t)" if "t \<in> set ss" for t
  proof -
    have "0 < off b (sg_sn t)" using assms that by (auto simp: sorted_from_def)
    then show ?thesis using off_Suc [of "sg_sn t" b] off_eq_0_iff [of b "sg_sn t"] by auto
  qed
  have "sorted_wrt (<) (map (\<lambda>s. off b (sg_sn s)) ss)" using assms by (simp add: sorted_from_def)
  then have "sorted_wrt (\<lambda>s t. off b (sg_sn s) < off b (sg_sn t)) ss" by (simp add: sorted_wrt_map)
  then have "sorted_wrt (\<lambda>s t. off (b + 1) (sg_sn s) < off (b + 1) (sg_sn t)) ss"
    by (rule sorted_wrt_mono_rel [rotated]) (use pos in \<open>fastforce intro: diff_less_mono\<close>)
  then show "sorted_from (b + 1) ss" by (simp add: sorted_from_def sorted_wrt_map)
  show "\<forall>t \<in> set ss. off (b + 1) (sg_sn t) < n"
    using pos assms(3) by fastforce
qed

text \<open>The queue of ordered segments ends at \<open>rcv_nxt\<close>: consecutive serial numbers, no gap.\<close>

definition queue_inorder :: "kcb \<Rightarrow> bool" where
  "queue_inorder k \<longleftrightarrow>
     map sg_sn (k_rcv_queue k) =
     map (\<lambda>i. k_rcv_nxt k - of_nat (length (k_rcv_queue k) - i)) [0 ..< length (k_rcv_queue k)]"

lemma queue_inorder_snoc:
  assumes "queue_inorder k" "sg_sn seg = k_rcv_nxt k"
    "k_rcv_queue k' = k_rcv_queue k @ [seg]" "k_rcv_nxt k' = k_rcv_nxt k + 1"
  shows "queue_inorder k'"
proof -
  let ?n = "length (k_rcv_queue k)"
  have "map (\<lambda>i. k_rcv_nxt k + 1 - of_nat (Suc ?n - i)) [0 ..< ?n] =
        map (\<lambda>i. k_rcv_nxt k - of_nat (?n - i)) [0 ..< ?n]"
    by (rule map_cong) (auto simp: Suc_diff_le)
  then show ?thesis using assms by (simp add: queue_inorder_def)
qed

lemma queue_inorder_drop:
  assumes "queue_inorder k" "k_rcv_queue k = us @ k_rcv_queue k'" "k_rcv_nxt k' = k_rcv_nxt k"
  shows "queue_inorder k'"
proof -
  let ?n = "length (k_rcv_queue k')" and ?m = "length us"
  have "map sg_sn (k_rcv_queue k') = drop ?m (map sg_sn (k_rcv_queue k))" using assms(2) by simp
  also have "\<dots> = map (\<lambda>i. k_rcv_nxt k - of_nat (?m + ?n - i)) (drop ?m [0 ..< ?m + ?n])"
    using assms(1,2) by (simp add: queue_inorder_def drop_map)
  also have "drop ?m [0 ..< ?m + ?n] = map (\<lambda>i. i + ?m) [0 ..< ?n]"
    by (simp add: map_add_upt add.commute)
  finally show ?thesis using assms(3) by (simp add: queue_inorder_def o_def)
qed

definition recv_inv :: "kcb \<Rightarrow> bool" where
  "recv_inv k \<longleftrightarrow> rcv_ok k \<and> counters_ok k \<and> segs_ok k \<and> queue_inorder k"

lemma recv_inv_step:
  assumes "recv_inv k" "k_rcv_buf k = seg # rest" "sg_sn seg = k_rcv_nxt k" "k_nrcv_que k < k_rcv_wnd k"
  shows "recv_inv (deliver seg rest k)"
proof -
  have inv: "rcv_ok k" "counters_ok k" "segs_ok k" "queue_inorder k"
    using assms(1) by (simp_all add: recv_inv_def)
  have "unat (k_nrcv_buf k) = Suc (length rest)" using inv(2) assms(2) by (simp add: counters_ok_def)
  then have nb: "unat (k_nrcv_buf k - 1) = length rest" by (subst unat_minus_one) auto
  have "unat (k_nrcv_que k) < unat (k_rcv_wnd k)" using assms(4) by (simp add: word_less_nat_alt)
  then have nq: "unat (k_nrcv_que k + 1) = unat (k_nrcv_que k) + 1"
    using unat32_less [of "k_rcv_wnd k"] by (intro unat_Suc32) linarith
  have so: "sorted_from (k_rcv_nxt k) (seg # rest)"
    "\<forall>t \<in> set (seg # rest). off (k_rcv_nxt k) (sg_sn t) < unat (k_rcv_wnd k)"
    using inv(1) assms(2) by (simp_all add: rcv_ok_def)
  note step = sorted_from_step [OF so(1) assms(3) so(2)]
  let ?k = "deliver seg rest k"
  have "rcv_ok ?k" using inv(1) step by (simp add: rcv_ok_def deliver_def)
  moreover have "counters_ok ?k" using inv(2) nb nq by (simp add: counters_ok_def deliver_def)
  moreover have "segs_ok ?k" using inv(3) assms(2) by (auto simp: segs_ok_def deliver_def)
  moreover have "queue_inorder ?k"
    by (rule queue_inorder_snoc [OF inv(4) assms(3)]) (simp_all add: deliver_def)
  ultimately show ?thesis by (simp add: recv_inv_def)
qed

lemma move_available_inv: "recv_inv k \<Longrightarrow> recv_inv (move_available k)"
  by (induction rule: move_available_rule) (rule recv_inv_step)

text \<open>The drain only moves segments: what leaves the buffer ends the queue, in order.\<close>

lemma move_available_conserves:
  "k_rcv_queue (move_available k) @ k_rcv_buf (move_available k) = k_rcv_queue k @ k_rcv_buf k"
  using move_available_rule [of "\<lambda>k'. k_rcv_queue k' @ k_rcv_buf k' = k_rcv_queue k @ k_rcv_buf k" k]
  by (simp add: deliver_def)

text \<open>The drain writes the five fields of the receive side and no other.\<close>

lemma move_available_shape:
  "\<exists>rb nb rq nq rn. move_available k = k\<lparr>k_rcv_buf := rb, k_nrcv_buf := nb, k_rcv_queue := rq,
     k_nrcv_que := nq, k_rcv_nxt := rn\<rparr>"
proof (rule move_available_rule [of "\<lambda>k'. \<exists>rb nb rq nq rn. k' = k\<lparr>k_rcv_buf := rb, k_nrcv_buf := nb,
    k_rcv_queue := rq, k_nrcv_que := nq, k_rcv_nxt := rn\<rparr>"])
  show "\<exists>rb nb rq nq rn. k = k\<lparr>k_rcv_buf := rb, k_nrcv_buf := nb, k_rcv_queue := rq,
     k_nrcv_que := nq, k_rcv_nxt := rn\<rparr>"
    by (intro exI [of _ "k_rcv_buf k"] exI [of _ "k_nrcv_buf k"] exI [of _ "k_rcv_queue k"]
        exI [of _ "k_nrcv_que k"] exI [of _ "k_rcv_nxt k"]) simp
qed (clarsimp simp: deliver_def, (rule exI)+, rule refl)

text \<open>Nothing deliverable is left behind.\<close>

lemma move_available_exhausts:
  "k_rcv_buf (move_available k) = seg # rest \<Longrightarrow> sg_sn seg = k_rcv_nxt (move_available k) \<Longrightarrow>
   \<not> k_nrcv_que (move_available k) < k_rcv_wnd (move_available k)"
proof (induction k rule: move_available.induct)
  case (1 k)
  show ?case
  proof (cases "\<exists>seg rest. k_rcv_buf k = seg # rest \<and> sg_sn seg = k_rcv_nxt k \<and> k_nrcv_que k < k_rcv_wnd k")
    case True
    then obtain s r where *: "k_rcv_buf k = s # r" "sg_sn s = k_rcv_nxt k"
      "k_nrcv_que k < k_rcv_wnd k" by blast
    then show ?thesis
      using "1.IH" [OF *(1) conjI [OF *(2,3)]] "1.prems" move_available_go [OF *] by simp
  next
    case False
    then have "move_available k = k" by (intro move_available_stop) blast
    then show ?thesis using "1.prems" False by auto
  qed
qed

section \<open>Accepting a segment\<close>

lemma sorted_from_distinct: "sorted_from b ss \<Longrightarrow> distinct (map sg_sn ss)"
  by (induction ss) (auto simp: sorted_from_def)

lemma parse_data_window:
  assumes "rcv_ok k"
  shows "(itimediff (sg_sn s) (k_rcv_nxt k + k_rcv_wnd k) \<ge> 0 \<or> itimediff (sg_sn s) (k_rcv_nxt k) < 0)
    \<longleftrightarrow> \<not> off (k_rcv_nxt k) (sg_sn s) < unat (k_rcv_wnd k)"
  using off_window [of "k_rcv_wnd k" "sg_sn s" "k_rcv_nxt k"] assms unfolding rcv_ok_def itimediff_sint
  by blast

text \<open>The buffer after the insertion, before the drain.\<close>

definition rcv_insert :: "kseg \<Rightarrow> kcb \<Rightarrow> kcb" where
  "rcv_insert new k =
     (let (rpt, rb) = rcv_insert_rev new (rev (k_rcv_buf k))
      in if \<not> rpt then k\<lparr>k_rcv_buf := rev rb, k_nrcv_buf := k_nrcv_buf k + 1\<rparr> else k)"

lemma parse_data_eq:
  assumes "rcv_ok k"
  shows "ikcp_parse_data k s =
    (if off (k_rcv_nxt k) (sg_sn s) < unat (k_rcv_wnd k) then move_available (rcv_insert s k) else k)"
  unfolding ikcp_parse_data_def Let_def parse_data_window [OF assms]
  by (simp add: rcv_insert_def split: prod.splits)

lemma rcv_insert_cases:
  assumes "rcv_ok k" "off (k_rcv_nxt k) (sg_sn s) < unat (k_rcv_wnd k)"
  obtains (rep) "sg_sn s \<in> sg_sn ` set (k_rcv_buf k)" "rcv_insert s k = k"
    | (new) rb where "sg_sn s \<notin> sg_sn ` set (k_rcv_buf k)"
        "rcv_insert s k = k\<lparr>k_rcv_buf := rb, k_nrcv_buf := k_nrcv_buf k + 1\<rparr>"
        "sorted_from (k_rcv_nxt k) rb" "mset rb = add_mset s (mset (k_rcv_buf k))"
proof -
  obtain r ss' where r: "rcv_insert_rev s (rev (k_rcv_buf k)) = (r, ss')" by fastforce
  have "\<forall>t \<in> set (rev (k_rcv_buf k)). off (k_rcv_nxt k) (sg_sn t) < 2 ^ 31"
    "off (k_rcv_nxt k) (sg_sn s) < 2 ^ 31" "sorted_from (k_rcv_nxt k) (rev (rev (k_rcv_buf k)))"
    using assms by (auto simp: rcv_ok_def dest: less_trans)
  note spec = rcv_insert_rev_spec [OF this r]
  show ?thesis
  proof (cases r)
    case True
    then show ?thesis using rep spec r by (simp add: rcv_insert_def)
  next
    case False
    then show ?thesis using new [of "rev ss'"] spec r by (simp add: rcv_insert_def)
  qed
qed

lemma rcv_insert_inv:
  assumes "recv_inv k" "seg_ok s" "off (k_rcv_nxt k) (sg_sn s) < unat (k_rcv_wnd k)"
  shows "recv_inv (rcv_insert s k)"
proof -
  have inv: "rcv_ok k" "counters_ok k" "segs_ok k" "queue_inorder k"
    using assms(1) by (simp_all add: recv_inv_def)
  from inv(1) assms(3) show ?thesis
  proof (cases rule: rcv_insert_cases)
    case rep
    then show ?thesis using assms(1) by simp
  next
    case (new rb)
    have st: "set rb = insert s (set (k_rcv_buf k))" "length rb = Suc (length (k_rcv_buf k))"
      using set_of_add_mset [OF new(4)] length_of_add_mset [OF new(4)] by simp_all
    have "rcv_ok (rcv_insert s k)"
      using inv(1) new(2,3) st(1) assms(3) by (auto simp: rcv_ok_def)
    moreover have "unat (k_nrcv_buf k + 1) = unat (k_nrcv_buf k) + 1"
      using rcv_buf_bound [OF inv(1)] inv(1,2)
      by (intro unat_Suc32) (simp add: rcv_ok_def counters_ok_def)
    ultimately show ?thesis
      using inv new(2) st assms(2) by (auto simp: recv_inv_def counters_ok_def segs_ok_def queue_inorder_def)
  qed
qed

lemma parse_data_inv [inv_intros]:
  assumes "recv_inv k" "seg_ok s" shows "recv_inv (ikcp_parse_data k s)"
  using assms parse_data_eq [of k s] rcv_insert_inv [of k s] move_available_inv
  by (auto simp: recv_inv_def)

lemma parse_data_shape:
  "\<exists>rb nb rq nq rn. ikcp_parse_data k s = k\<lparr>k_rcv_buf := rb, k_nrcv_buf := nb, k_rcv_queue := rq,
     k_nrcv_que := nq, k_rcv_nxt := rn\<rparr>"
proof -
  obtain r rb where r: "rcv_insert_rev s (rev (k_rcv_buf k)) = (r, rb)" by fastforce
  let ?k = "if \<not> r then k\<lparr>k_rcv_buf := rev rb, k_nrcv_buf := k_nrcv_buf k + 1\<rparr> else k"
  have "\<exists>rb nb rq nq rn. k = k\<lparr>k_rcv_buf := rb, k_nrcv_buf := nb, k_rcv_queue := rq,
     k_nrcv_que := nq, k_rcv_nxt := rn\<rparr>"
    by (intro exI [of _ "k_rcv_buf k"] exI [of _ "k_nrcv_buf k"] exI [of _ "k_rcv_queue k"]
        exI [of _ "k_nrcv_que k"] exI [of _ "k_rcv_nxt k"]) simp
  moreover have "\<exists>rb nb rq nq rn. move_available ?k = k\<lparr>k_rcv_buf := rb, k_nrcv_buf := nb,
     k_rcv_queue := rq, k_nrcv_que := nq, k_rcv_nxt := rn\<rparr>"
    using move_available_shape [of ?k] by (auto split: if_splits)
  ultimately show ?thesis using r by (simp add: ikcp_parse_data_def Let_def)
qed

section \<open>Specification: a map of pending segments\<close>

text \<open>
  What the reorder buffer promises: pending segments keyed by serial number, the first
  accepted kept, moved to the queue as soon as every earlier one is there and the queue has
  room.
\<close>

record recv_spec =
  rs_next :: u32
  rs_wnd :: nat
  rs_queue :: "kseg list"
  rs_pending :: "u32 \<Rightarrow> kseg option"

function spec_drain :: "recv_spec \<Rightarrow> recv_spec" where
  "spec_drain s =
     (case rs_pending s (rs_next s) of
        None \<Rightarrow> s
      | Some seg \<Rightarrow>
          (if length (rs_queue s) < rs_wnd s
           then spec_drain (s\<lparr>rs_pending := (rs_pending s)(rs_next s := None),
             rs_queue := rs_queue s @ [seg], rs_next := rs_next s + 1\<rparr>)
           else s))"
  by pat_completeness auto
termination by (relation "measure (\<lambda>s. rs_wnd s - length (rs_queue s))") auto

declare spec_drain.simps [simp del]

definition spec_accept :: "kseg \<Rightarrow> recv_spec \<Rightarrow> recv_spec" where
  "spec_accept new s =
     (if off (rs_next s) (sg_sn new) < rs_wnd s then
        spec_drain (if rs_pending s (sg_sn new) = None
                    then s\<lparr>rs_pending := (rs_pending s)(sg_sn new \<mapsto> new)\<rparr> else s)
      else s)"

definition pending_of :: "kseg list \<Rightarrow> u32 \<Rightarrow> kseg option" where
  "pending_of ss = map_of (map (\<lambda>s. (sg_sn s, s)) ss)"

definition recv_abs :: "kcb \<Rightarrow> recv_spec" where
  "recv_abs k = \<lparr>rs_next = k_rcv_nxt k, rs_wnd = unat (k_rcv_wnd k), rs_queue = k_rcv_queue k,
     rs_pending = pending_of (k_rcv_buf k)\<rparr>"

lemma pending_of_None: "pending_of ss x = None \<longleftrightarrow> x \<notin> sg_sn ` set ss"
  by (simp add: pending_of_def map_of_eq_None_iff image_image)

lemma pending_of_mset:
  assumes "mset ss = add_mset s (mset ts)" "distinct (map sg_sn ss)" "distinct (map sg_sn ts)"
    "sg_sn s \<notin> sg_sn ` set ts"
  shows "pending_of ss = (pending_of ts)(sg_sn s \<mapsto> s)"
proof -
  have "map_of (map (\<lambda>s. (sg_sn s, s)) ss) = map_of (map (\<lambda>s. (sg_sn s, s)) (s # ts))"
  proof (rule map_of_inject_set [THEN iffD2])
    show "distinct (map fst (map (\<lambda>s. (sg_sn s, s)) ss))" using assms(2) by (simp add: o_def)
    show "distinct (map fst (map (\<lambda>s. (sg_sn s, s)) (s # ts)))" using assms(3,4) by (simp add: o_def)
    show "set (map (\<lambda>s. (sg_sn s, s)) ss) = set (map (\<lambda>s. (sg_sn s, s)) (s # ts))"
      using set_of_add_mset [OF assms(1)] by simp
  qed
  then show ?thesis by (simp add: pending_of_def)
qed

lemma pending_next:
  assumes "rcv_ok k"
  shows "pending_of (k_rcv_buf k) (k_rcv_nxt k) =
    (case k_rcv_buf k of [] \<Rightarrow> None | s # _ \<Rightarrow> if sg_sn s = k_rcv_nxt k then Some s else None)"
proof (cases "k_rcv_buf k")
  case (Cons s rest)
  have "off (k_rcv_nxt k) (sg_sn t) \<noteq> 0" if "t \<in> set rest" for t
    using assms that Cons by (auto simp: rcv_ok_def sorted_from_def)
  then have "sg_sn t \<noteq> k_rcv_nxt k" if "t \<in> set rest" for t
    using that off_eq_0_iff [of "k_rcv_nxt k" "sg_sn t"] by blast
  then have "k_rcv_nxt k \<notin> sg_sn ` set rest" by (metis imageE)
  then have "pending_of rest (k_rcv_nxt k) = None" by (simp add: pending_of_None)
  then show ?thesis using Cons by (auto simp: pending_of_def)
qed (simp add: pending_of_def)

lemma move_available_refines: "recv_inv k \<Longrightarrow> recv_abs (move_available k) = spec_drain (recv_abs k)"
proof (induction k rule: move_available.induct)
  case (1 k)
  have inv: "rcv_ok k" "counters_ok k" using "1.prems" by (simp_all add: recv_inv_def)
  have cnt: "k_nrcv_que k < k_rcv_wnd k \<longleftrightarrow> length (k_rcv_queue k) < unat (k_rcv_wnd k)"
    using inv(2) by (simp add: counters_ok_def word_less_nat_alt)
  show ?case
  proof (cases "\<exists>seg rest. k_rcv_buf k = seg # rest \<and> sg_sn seg = k_rcv_nxt k \<and> k_nrcv_que k < k_rcv_wnd k")
    case True
    then obtain s r where *: "k_rcv_buf k = s # r" "sg_sn s = k_rcv_nxt k"
      "k_nrcv_que k < k_rcv_wnd k" by blast
    have "(pending_of (s # r))(k_rcv_nxt k := None) = pending_of r"
    proof -
      have "sg_sn s \<notin> sg_sn ` set r"
        using sorted_from_distinct [of "k_rcv_nxt k" "s # r"] inv(1) * by (auto simp: rcv_ok_def)
      then have "pending_of r (sg_sn s) = None" by (simp add: pending_of_None)
      then show ?thesis using *(2) by (auto simp: pending_of_def)
    qed
    then have "spec_drain (recv_abs k) = spec_drain (recv_abs (deliver s r k))"
      using pending_next [OF inv(1)] * cnt
      by (subst spec_drain.simps) (simp add: recv_abs_def deliver_def)
    then show ?thesis
      using "1.IH" [OF *(1) conjI [OF *(2,3)] recv_inv_step [OF "1.prems" *]] move_available_go [OF *]
      by simp
  next
    case False
    then have "move_available k = k" by (intro move_available_stop) blast
    moreover have "spec_drain (recv_abs k) = recv_abs k"
      using pending_next [OF inv(1)] False cnt
      by (subst spec_drain.simps) (auto simp: recv_abs_def split: list.splits)
    ultimately show ?thesis by simp
  qed
qed

lemma parse_data_refines:
  assumes "recv_inv k" "seg_ok s"
  shows "recv_abs (ikcp_parse_data k s) = spec_accept s (recv_abs k)"
proof (cases "off (k_rcv_nxt k) (sg_sn s) < unat (k_rcv_wnd k)")
  case True
  have ok: "rcv_ok k" using assms(1) by (simp add: recv_inv_def)
  have "recv_abs (rcv_insert s k) =
    (if rs_pending (recv_abs k) (sg_sn s) = None
     then (recv_abs k)\<lparr>rs_pending := (rs_pending (recv_abs k))(sg_sn s \<mapsto> s)\<rparr> else recv_abs k)"
    using ok True
  proof (cases rule: rcv_insert_cases)
    case rep
    then show ?thesis by (simp add: recv_abs_def pending_of_None)
  next
    case (new rb)
    have "pending_of rb = (pending_of (k_rcv_buf k))(sg_sn s \<mapsto> s)"
      using new ok sorted_from_distinct by (intro pending_of_mset) (auto simp: rcv_ok_def)
    moreover have "pending_of (k_rcv_buf k) (sg_sn s) = None" using new(1) by (simp add: pending_of_None)
    ultimately show ?thesis using new(2) by (simp add: recv_abs_def)
  qed
  moreover have "spec_accept s (recv_abs k) = spec_drain
    (if rs_pending (recv_abs k) (sg_sn s) = None
     then (recv_abs k)\<lparr>rs_pending := (rs_pending (recv_abs k))(sg_sn s \<mapsto> s)\<rparr> else recv_abs k)"
    using True by (simp add: spec_accept_def recv_abs_def)
  ultimately show ?thesis
    using parse_data_eq [OF ok] True move_available_refines rcv_insert_inv [OF assms True] by simp
next
  case False
  then show ?thesis
    using parse_data_eq [of k s] assms(1) by (simp add: recv_inv_def spec_accept_def recv_abs_def)
qed

section \<open>Reading a message\<close>

text \<open>The segments of the first message in a queue, and what follows it.\<close>

fun first_message :: "kseg list \<Rightarrow> kseg list" where
  "first_message [] = []"
| "first_message (s # ss) = (if sg_frg s = 0 then [s] else s # first_message ss)"

definition message_bytes :: "kseg list \<Rightarrow> bytes" where
  "message_bytes ss = concat (map sg_data ss)"

definition total_len :: "kseg list \<Rightarrow> nat" where
  "total_len ss = sum_list (map (\<lambda>s. unat (sg_len s)) ss)"

lemma first_message_prefix: "\<exists>rest. q = first_message q @ rest"
  by (induction q) auto

lemma first_message_drop: "first_message q @ drop (length (first_message q)) q = q"
proof -
  obtain rest where "q = first_message q @ rest" using first_message_prefix by blast
  then show ?thesis by (metis append_eq_conv_conj)
qed

lemma peek_length_first: "peek_length len q = len + of_nat (total_len (first_message q))"
  by (induction q arbitrary: len) (auto simp: total_len_def Let_def algebra_simps)

lemma merge_fragment_first:
  "\<forall>s \<in> set q. seg_ok s \<Longrightarrow> merge_fragment q b len n =
     (b @ message_bytes (first_message q), len + of_nat (total_len (first_message q)),
      n + length (first_message q), drop (length (first_message q)) q)"
  by (induction q arbitrary: b len n)
    (auto simp: total_len_def message_bytes_def Let_def algebra_simps seg_ok_def)

lemma merge_fragment_len: "fst (snd (merge_fragment q b len n)) = peek_length len q"
  by (induction q arbitrary: b len n) (auto simp: Let_def)

lemma peeksize_merge:
  assumes "k_rcv_queue k \<noteq> []" "0 \<le> ikcp_peeksize k"
  shows "ikcp_peeksize k = sint (peek_length 0 (k_rcv_queue k))"
proof -
  obtain s ss where "k_rcv_queue k = s # ss" using assms(1) by (cases "k_rcv_queue k") auto
  then show ?thesis using assms(2) by (auto simp: ikcp_peeksize_def split: if_splits)
qed

text \<open>The assertion of \<open>ikcp_recv\<close> holds in every state.\<close>

lemma recv_no_assert: "ikcp_recv k len \<noteq> None"
proof (cases "k_rcv_queue k = [] \<or> ikcp_peeksize k < 0")
  case False
  obtain b l n r where m: "merge_fragment (k_rcv_queue k) [] 0 0 = (b, l, n, r)"
    by (metis prod_cases4)
  then have "l = peek_length 0 (k_rcv_queue k)"
    using merge_fragment_len [of "k_rcv_queue k" "[]" 0 0] by simp
  then have "sint l = ikcp_peeksize k" using False peeksize_merge [of k] by simp
  then show ?thesis using m by (simp add: ikcp_recv_def Let_def)
qed (auto simp: ikcp_recv_def)

definition recover_tell :: "bool \<Rightarrow> kcb \<Rightarrow> kcb" where
  "recover_tell recover k =
     (if k_nrcv_que k < k_rcv_wnd k \<and> recover then k\<lparr>k_probe := k_probe k OR IKCP_ASK_TELL\<rparr> else k)"

definition pop_message :: "kcb \<Rightarrow> kcb" where
  "pop_message k = k\<lparr>k_rcv_queue := drop (length (first_message (k_rcv_queue k))) (k_rcv_queue k),
     k_nrcv_que := k_nrcv_que k - of_nat (length (first_message (k_rcv_queue k)))\<rparr>"

text \<open>Every result of \<open>ikcp_recv\<close>: three refusals that change nothing, or one whole message.\<close>

lemma recv_cases:
  assumes "segs_ok k"
  shows "ikcp_recv k len =
    (if k_rcv_queue k = [] then Some (-1, [], k)
     else if ikcp_peeksize k < 0 then Some (-2, [], k)
     else if \<bar>len\<bar> < ikcp_peeksize k then Some (-3, [], k)
     else Some (ikcp_peeksize k, message_bytes (first_message (k_rcv_queue k)),
       recover_tell (k_nrcv_que k \<ge> k_rcv_wnd k)
         (move_available (if len < 0 then k else pop_message k))))"
proof (cases "k_rcv_queue k = [] \<or> ikcp_peeksize k < 0")
  case False
  have ok: "\<forall>s \<in> set (k_rcv_queue k). seg_ok s" using assms by (simp add: segs_ok_def)
  have abs: "\<bar>len\<bar> = (if len < 0 then - len else len)" by simp
  have pk: "ikcp_peeksize k = sint (of_nat (total_len (first_message (k_rcv_queue k))) :: u32)"
    using False peeksize_merge [of k] peek_length_first [of 0 "k_rcv_queue k"] by simp
  show ?thesis
    using False merge_fragment_first [OF ok, of "[]" 0 0] pk
    unfolding abs ikcp_recv_def Let_def
    by (auto simp: recover_tell_def pop_message_def)
qed (auto simp: ikcp_recv_def)

lemma recover_tell_inv: "recv_inv k \<Longrightarrow> recv_inv (recover_tell r k)"
  by (simp add: recover_tell_def recv_inv_def rcv_ok_def counters_ok_def segs_ok_def queue_inorder_def)

lemma pop_message_inv: 
  assumes "recv_inv k" shows "recv_inv (pop_message k)"
proof -
  let ?q = "k_rcv_queue k" and ?m = "first_message (k_rcv_queue k)"
  have inv: "rcv_ok k" "counters_ok k" "segs_ok k" "queue_inorder k"
    using assms by (simp_all add: recv_inv_def)
  have le: "length ?m \<le> length ?q" using first_message_drop [of ?q] by (metis length_append le_add1)
  have u: "unat (k_nrcv_que k) = length ?q" using inv(2) by (simp add: counters_ok_def)
  have "unat (of_nat (length ?m) :: u32) = length ?m"
    using le u unat32_less [of "k_nrcv_que k"] by (simp add: unat_of_nat)
  then have "unat (k_nrcv_que k - of_nat (length ?m)) = length ?q - length ?m"
    using u le by (simp add: unat_sub32)
  moreover have "queue_inorder (pop_message k)"
    by (rule queue_inorder_drop [OF inv(4), of ?m])
      (simp_all add: pop_message_def first_message_drop)
  moreover have "set (drop (length ?m) ?q) \<subseteq> set ?q" by (rule set_drop_subset)
  ultimately show ?thesis
    using inv by (auto simp: recv_inv_def pop_message_def rcv_ok_def counters_ok_def segs_ok_def)
qed

lemma recv_inv_preserved [inv_intros]:
  assumes "recv_inv k" "ikcp_recv k len = Some (rc, out, k')"
  shows "recv_inv k'"
proof -
  have "segs_ok k" using assms(1) by (simp add: recv_inv_def)
  then show ?thesis
    using assms recover_tell_inv [OF move_available_inv] pop_message_inv
    by (auto simp: recv_cases split: if_splits)
qed

text \<open>A message of well-formed fragments at the head of the queue.\<close>

definition whole_message :: "kseg list \<Rightarrow> bool" where
  "whole_message m \<longleftrightarrow> m \<noteq> [] \<and> sg_frg (last m) = 0 \<and> (\<forall>s \<in> set (butlast m). sg_frg s \<noteq> 0) \<and>
     (\<forall>s \<in> set m. seg_ok s) \<and> unat (sg_frg (hd m)) < length m \<and> total_len m < 2 ^ 31"

lemma first_message_whole: "whole_message m \<Longrightarrow> first_message (m @ rest) = m"
proof -
  have "m \<noteq> [] \<Longrightarrow> sg_frg (last m) = 0 \<Longrightarrow> \<forall>s \<in> set (butlast m). sg_frg s \<noteq> 0 \<Longrightarrow>
    first_message (m @ rest) = m"
    by (induction m) (auto split: if_splits)
  then show "whole_message m \<Longrightarrow> ?thesis" by (simp add: whole_message_def)
qed

lemma total_len_bytes: "\<forall>s \<in> set m. seg_ok s \<Longrightarrow> length (message_bytes m) = total_len m"
  by (induction m) (auto simp: message_bytes_def total_len_def seg_ok_def)

lemma peeksize_whole:
  assumes "counters_ok k" "k_rcv_queue k = m @ rest" "whole_message m"
  shows "ikcp_peeksize k = int (total_len m)"
proof -
  obtain s ss where m: "m = s # ss" using assms(3) by (cases m) (auto simp: whole_message_def)
  have small: "total_len m < 2 ^ 31" and frg: "unat (sg_frg s) < length m"
    using assms(3) m by (simp_all add: whole_message_def)
  have si: "sint (of_nat (total_len m) :: u32) = int (total_len m)"
    using small by (simp add: sint32_cases unat_of_nat)
  have pl: "peek_length 0 (k_rcv_queue k) = of_nat (total_len m)"
    using peek_length_first [of 0 "k_rcv_queue k"] first_message_whole [OF assms(3)] assms(2) by simp
  have nq: "length m \<le> unat (k_nrcv_que k)" using assms(1,2) by (simp add: counters_ok_def)
  have "unat (sg_frg s + 1) = unat (sg_frg s) + 1"
    using frg nq unat32_less [of "k_nrcv_que k"] by (intro unat_Suc32) linarith
  then have "\<not> k_nrcv_que k < sg_frg s + 1"
    using frg nq by (simp add: word_less_nat_alt)
  moreover have "sg_frg s = 0 \<Longrightarrow> total_len m = unat (sg_len s)"
    using assms(3) m by (cases ss) (auto simp: whole_message_def total_len_def)
  ultimately show ?thesis
    using pl si assms(2) m by (auto simp: ikcp_peeksize_def)
qed

end
