(* ===== verification/Kcp_Send.thy ===== *)
theory Kcp_Send
  imports Kcp_Recv
begin

text \<open>
  \<open>ikcp_send\<close> of \<^verbatim>\<open>ikcp.c\<close>: a message is appended to the last queued segment in streaming
  mode and otherwise cut into fragments of at most \<open>mss\<close> bytes that count down to zero.
  The lemmas show what each branch does, that the fragments carry the message, that every
  queued segment fits the maximum segment size, and that a receiver that gets the fragments
  in order reads back exactly the message.  The caller's buffer holds the \<open>len\<close> bytes it
  announces (the sources never pass a null buffer).
\<close>

section \<open>Operations\<close>

text \<open>The size of \<open>struct IKCPSEG\<close> in the 64-bit build: two pointers, twelve integers, one byte.\<close>

definition SIZEOF_IKCPSEG :: nat where "SIZEOF_IKCPSEG = 72"

definition ikcp_segment_new :: "(nat \<Rightarrow> bool) \<Rightarrow> int \<Rightarrow> kseg option" where
  "ikcp_segment_new malloc sz = (if malloc (SIZEOF_IKCPSEG + nat sz) then Some seg_blank else None)"

text \<open>The streaming branch: what is left of the buffer and of \<open>len\<close>, or a failed assertion.\<close>

definition stream_extend :: "(nat \<Rightarrow> bool) \<Rightarrow> bytes \<Rightarrow> int \<Rightarrow> kcb \<Rightarrow> (kcb \<times> bytes \<times> int) option" where
  "stream_extend malloc buffer len k =
     (if k_snd_queue k = [] then Some (k, buffer, len)
      else
        let old = last (k_snd_queue k) in
        if sg_len old < k_mss k then
          let capacity = sint (k_mss k - sg_len old);
              extend = (if len < capacity then len else capacity) in
          (case ikcp_segment_new malloc (sint (sg_len old + word_of_int extend)) of
             None \<Rightarrow> None
           | Some seg \<Rightarrow>
               let seg = seg\<lparr>sg_data := take (unat (sg_len old)) (sg_data old) @ take (nat extend) buffer,
                             sg_len := sg_len old + word_of_int extend, sg_frg := 0\<rparr>
               in Some (k\<lparr>k_snd_queue := butlast (k_snd_queue k) @ [seg]\<rparr>,
                        drop (nat extend) buffer, len - extend))
        else Some (k, buffer, len))"

fun fragment_loop :: "(nat \<Rightarrow> bool) \<Rightarrow> nat \<Rightarrow> bytes \<Rightarrow> int \<Rightarrow> kcb \<Rightarrow> kcb option" where
  "fragment_loop malloc 0 buffer len k = Some k"
| "fragment_loop malloc (Suc n) buffer len k =
     (let sz = (if len > sint (k_mss k) then sint (k_mss k) else len) in
      case ikcp_segment_new malloc sz of
        None \<Rightarrow> None
      | Some seg \<Rightarrow>
          let seg = (if len > 0 then seg\<lparr>sg_data := take (nat sz) buffer\<rparr> else seg);
              seg = seg\<lparr>sg_len := word_of_int sz, sg_frg := (if k_stream k = 0 then of_nat n else 0)\<rparr>
          in fragment_loop malloc n (drop (nat sz) buffer) (len - sz)
               (k\<lparr>k_snd_queue := k_snd_queue k @ [seg], k_nsnd_que := k_nsnd_que k + 1\<rparr>))"

definition fragment_count :: "kcb \<Rightarrow> int \<Rightarrow> u32" where
  "fragment_count k len =
     (if len \<le> sint (k_mss k) then 1 else (word_of_int len + k_mss k - 1) div k_mss k)"

definition send_fragments :: "(nat \<Rightarrow> bool) \<Rightarrow> bytes \<Rightarrow> int \<Rightarrow> kcb \<Rightarrow> (int \<times> kcb) option" where
  "send_fragments malloc buffer len k =
     (let count = fragment_count k len in
      if count \<ge> IKCP_WND_RCV then Some (-2, k)
      else
        let count = (if count = 0 then 1 else count)
        in map_option (\<lambda>k. (0, k)) (fragment_loop malloc (unat count) buffer len k))"

definition ikcp_send :: "(nat \<Rightarrow> bool) \<Rightarrow> kcb \<Rightarrow> bytes \<Rightarrow> int \<Rightarrow> (int \<times> kcb) option" where
  "ikcp_send malloc k buffer len =
     (if \<not> k_mss k > 0 then None
      else if len < 0 then Some (-1, k)
      else if k_stream k \<noteq> 0 then
        (case stream_extend malloc buffer len k of
           None \<Rightarrow> None
         | Some (k, buffer, len) \<Rightarrow>
             if len \<le> 0 then Some (0, k) else send_fragments malloc buffer len k)
      else send_fragments malloc buffer len k)"

lemmas [kcp_defs] = ikcp_segment_new_def stream_extend_def fragment_count_def
  send_fragments_def ikcp_send_def

section \<open>Fragmentation\<close>

text \<open>The fragments of a message: chunks of \<open>m\<close> bytes, numbered down to zero.\<close>

fun frag_segs :: "nat \<Rightarrow> bool \<Rightarrow> nat \<Rightarrow> bytes \<Rightarrow> kseg list" where
  "frag_segs m stream 0 b = []"
| "frag_segs m stream (Suc n) b =
     seg_blank\<lparr>sg_data := take m b, sg_len := of_nat (length (take m b)),
               sg_frg := (if stream then 0 else of_nat n)\<rparr> # frag_segs m stream n (drop m b)"

lemma length_frag_segs [simp]: "length (frag_segs m st n b) = n"
  by (induction n arbitrary: b) auto

lemma sint_of_nat32: "n < 2 ^ 31 \<Longrightarrow> sint (of_nat n :: u32) = int n"
  by (simp add: sint32_cases unat_of_nat)

lemma unat_of_nat32: "n < 2 ^ 32 \<Longrightarrow> unat (of_nat n :: u32) = n"
  by (simp add: unat_of_nat)

lemma sint_unat31: "unat (w :: u32) < 2 ^ 31 \<Longrightarrow> sint w = int (unat w)"
  unfolding sint32_cases by simp

lemma fragment_loop_step:
  assumes "\<forall>n. malloc n" "sz = (if int (length b) > sint (k_mss k) then sint (k_mss k) else int (length b))"
  shows "fragment_loop malloc (Suc n) b (int (length b)) k =
    fragment_loop malloc n (drop (nat sz) b) (int (length b) - sz)
      (k\<lparr>k_snd_queue := k_snd_queue k @ [seg_blank\<lparr>sg_data := take (nat sz) b,
           sg_len := word_of_int sz, sg_frg := (if k_stream k \<noteq> 0 then 0 else of_nat n)\<rparr>],
         k_nsnd_que := k_nsnd_que k + 1\<rparr>)"
  unfolding fragment_loop.simps assms(2) [symmetric] Let_def
  using assms(1) by (cases "b = []") (simp_all add: ikcp_segment_new_def seg_blank_def)

lemma fragment_loop_eq:
  assumes "\<forall>n. malloc n" "unat (k_mss k) < 2 ^ 31" "length b < 2 ^ 31"
  shows "fragment_loop malloc n b (int (length b)) k =
    Some (k\<lparr>k_snd_queue := k_snd_queue k @ frag_segs (unat (k_mss k)) (k_stream k \<noteq> 0) n b,
            k_nsnd_que := k_nsnd_que k + of_nat n\<rparr>)"
  using assms(2,3)
proof (induction n arbitrary: b k)
  case 0
  then show ?case by simp
next
  case (Suc n)
  let ?m = "unat (k_mss k)"
  let ?sz = "if int (length b) > sint (k_mss k) then sint (k_mss k) else int (length b)"
  let ?seg = "seg_blank\<lparr>sg_data := take ?m b, sg_len := of_nat (length (take ?m b)),
               sg_frg := (if k_stream k \<noteq> 0 then 0 else of_nat n)\<rparr>"
  let ?k = "k\<lparr>k_snd_queue := k_snd_queue k @ [?seg], k_nsnd_que := k_nsnd_que k + 1\<rparr>"
  have sz: "?sz = int (length (take ?m b))"
  proof -
    obtain m where m: "unat (k_mss k) = m" by simp
    then have "sint (k_mss k) = int m" using Suc.prems sint_unat31 by blast
    then show ?thesis using m by (simp add: min_def)
  qed
  have tk: "take (length (take ?m b)) b = take ?m b" by (simp add: min_def)
  have dr: "drop (length (take ?m b)) b = drop ?m b" by (simp add: min_def)
  have ln: "int (length b) - int (length (take ?m b)) = int (length (drop ?m b))"
    by (simp add: min_def)
  have "fragment_loop malloc (Suc n) b (int (length b)) k =
    fragment_loop malloc n (drop ?m b) (int (length (drop ?m b))) ?k"
    using fragment_loop_step [OF assms(1) sz [symmetric], of n] by (simp only: nat_int tk dr ln) simp
  also have "\<dots> = Some (?k\<lparr>k_snd_queue := k_snd_queue ?k @ frag_segs ?m (k_stream k \<noteq> 0) n (drop ?m b),
            k_nsnd_que := k_nsnd_que ?k + of_nat n\<rparr>)"
    using Suc.IH [of ?k "drop ?m b"] Suc.prems by simp
  finally show ?case by (simp add: algebra_simps)
qed

lemma frag_segs_ok: "m < 2 ^ 32 \<Longrightarrow> \<forall>s \<in> set (frag_segs m st n b). seg_ok s \<and> unat (sg_len s) \<le> m"
proof (induction n arbitrary: b)
  case (Suc n)
  have "unat (of_nat (length (take m b)) :: u32) = length (take m b)"
    using Suc.prems by (intro unat_of_nat32) simp
  then show ?case using Suc by (simp add: seg_ok_def)
qed simp

lemma frag_segs_bytes: "length b \<le> n * m \<Longrightarrow> message_bytes (frag_segs m st n b) = b"
  by (induction n arbitrary: b) (auto simp: message_bytes_def)

lemma frag_segs_frg:
  "n < 2 ^ 32 \<Longrightarrow> map (\<lambda>s. unat (sg_frg s)) (frag_segs m False n b) = rev [0 ..< n]"
  by (induction n arbitrary: b) (auto simp: unat_of_nat)

lemma frag_segs_frg_nth:
  assumes "n < 2 ^ 32" "i < n" shows "unat (sg_frg (frag_segs m False n b ! i)) = n - 1 - i"
proof -
  have "map (\<lambda>s. unat (sg_frg s)) (frag_segs m False n b) ! i = rev [0 ..< n] ! i"
    by (simp only: frag_segs_frg [OF assms(1)])
  then show ?thesis using assms(2) by (simp add: rev_nth)
qed

lemma frag_segs_whole:
  assumes "0 < n" "n < 2 ^ 32" "m < 2 ^ 32" "length b \<le> n * m" "length b < 2 ^ 31"
  shows "whole_message (frag_segs m False n b)"
proof -
  let ?f = "frag_segs m False n b"
  have ok: "\<forall>s \<in> set ?f. seg_ok s" using frag_segs_ok [OF assms(3)] by blast
  have ne: "?f \<noteq> []" using assms(1) length_frag_segs [of m False n b] by fastforce
  have "sg_frg (last ?f) = 0"
    using frag_segs_frg_nth [OF assms(2), of "n - 1" m b] assms(1) ne
    by (simp add: last_conv_nth unat_eq_0)
  moreover have "\<forall>s \<in> set (butlast ?f). sg_frg s \<noteq> 0"
  proof
    fix s assume "s \<in> set (butlast ?f)"
    then obtain i where i: "i < n - 1" "s = ?f ! i"
      by (auto simp: in_set_conv_nth nth_butlast)
    then have "unat (sg_frg s) = n - 1 - i" using frag_segs_frg_nth [OF assms(2)] by simp
    then show "sg_frg s \<noteq> 0" using i(1) by auto
  qed
  moreover have "unat (sg_frg (hd ?f)) < length ?f"
    using frag_segs_frg_nth [OF assms(2), of 0 m b] assms(1) ne by (simp add: hd_conv_nth)
  moreover have "total_len ?f < 2 ^ 31"
    using total_len_bytes [OF ok] frag_segs_bytes [OF assms(4), of False] assms(5) by simp
  ultimately show ?thesis using ok ne by (simp add: whole_message_def)
qed

section \<open>The number of fragments\<close>

definition nfrags :: "nat \<Rightarrow> nat \<Rightarrow> nat" where
  "nfrags m n = (if n \<le> m then 1 else (n + m - 1) div m)"

lemma nfrags_covers: "0 < m \<Longrightarrow> n \<le> nfrags m n * m"
proof (cases "n \<le> m")
  case False
  assume "0 < m"
  have "(n + m - 1) mod m < m" using \<open>0 < m\<close> by simp
  then have "n + m - 1 < (n + m - 1) div m * m + m"
    using div_mult_mod_eq [of "n + m - 1" m] by linarith
  then show ?thesis using False by (simp add: nfrags_def)
qed (simp add: nfrags_def)

lemma nfrags_pos: "0 < m \<Longrightarrow> 0 < nfrags m n"
  by (auto simp: nfrags_def div_greater_zero_iff)

lemma nfrags_tight: "0 < m \<Longrightarrow> 0 < n \<Longrightarrow> (nfrags m n - 1) * m < n"
proof (cases "n \<le> m")
  case False
  assume "0 < m"
  then have "(n + m - 1) div m = (n - 1) div m + 1" using False
    by (metis Nat.add_diff_assoc2 One_nat_def Suc_eq_plus1 div_add_self2 leI le_zero_eq less_one less_numeral_extra(3) nat_le_linear not_less_eq_eq)
  moreover have "(n - 1) div m * m < n" using False div_times_less_eq_dividend [of "n - 1" m] by linarith
  ultimately show ?thesis using False by (simp add: nfrags_def)
qed (simp add: nfrags_def)

lemma fragment_count_eq:
  assumes "0 < unat (k_mss k)" "unat (k_mss k) < 2 ^ 31" "n < 2 ^ 31"
  shows "unat (fragment_count k (int n)) = nfrags (unat (k_mss k)) n"
proof -
  obtain m where m: "unat (k_mss k) = m" by simp
  then have sm: "sint (k_mss k) = int m" using assms(2) sint_unat31 by blast
  show ?thesis
  proof (cases "n \<le> m")
    case True
    then show ?thesis using sm m by (simp add: fragment_count_def nfrags_def)
  next
    case False
    let ?w = "word_of_int (int n) + k_mss k :: u32"
    have s: "unat ?w = n + m"
      using assms(2,3) m by (subst unat_add_lem [THEN iffD1]) (auto simp: unat_of_nat32)
    then have "?w \<noteq> 0" using assms(1) m by (metis add_is_0 less_numeral_extra(3) unat_0)
    then have "unat (?w - 1) = n + m - 1" using s unat_minus_one by metis
    then show ?thesis
      using False sm m by (simp add: fragment_count_def nfrags_def unat_div)
  qed
qed

section \<open>What a send does\<close>

lemma send_fragments_eq:
  assumes "\<forall>n. malloc n" "0 < unat (k_mss k)" "unat (k_mss k) < 2 ^ 31" "length b < 2 ^ 31"
  shows "send_fragments malloc b (int (length b)) k =
    (let n = nfrags (unat (k_mss k)) (length b) in
     if n \<ge> 128 then Some (-2, k)
     else Some (0, k\<lparr>k_snd_queue := k_snd_queue k @ frag_segs (unat (k_mss k)) (k_stream k \<noteq> 0) n b,
            k_nsnd_que := k_nsnd_que k + of_nat n\<rparr>))"
proof -
  let ?n = "nfrags (unat (k_mss k)) (length b)" and ?c = "fragment_count k (int (length b))"
  have c: "unat ?c = ?n" using fragment_count_eq [OF assms(2-4)] by simp
  then have "?c \<noteq> 0" using nfrags_pos [OF assms(2), of "length b"] by (metis less_numeral_extra(3) unat_0)
  moreover have "?c \<ge> IKCP_WND_RCV \<longleftrightarrow> ?n \<ge> 128" using c by (simp add: word_le_nat_alt IKCP_WND_RCV_def)
  ultimately show ?thesis
    using c fragment_loop_eq [OF assms(1,3,4), of ?n]
    by (simp add: send_fragments_def Let_def)
qed

lemma send_message_mode:
  assumes "\<forall>n. malloc n" "0 < unat (k_mss k)" "unat (k_mss k) < 2 ^ 31" "length b < 2 ^ 31"
    "k_stream k = 0"
  shows "ikcp_send malloc k b (int (length b)) =
    (let n = nfrags (unat (k_mss k)) (length b) in
     if n \<ge> 128 then Some (-2, k)
     else Some (0, k\<lparr>k_snd_queue := k_snd_queue k @ frag_segs (unat (k_mss k)) False n b,
            k_nsnd_que := k_nsnd_que k + of_nat n\<rparr>))"
  using send_fragments_eq [OF assms(1-4)] assms(2,5)
  by (simp add: ikcp_send_def word_less_nat_alt Let_def)

text \<open>Every segment waiting to be sent fits the maximum segment size.\<close>

definition snd_fits :: "kcb \<Rightarrow> bool" where
  "snd_fits k \<longleftrightarrow> (\<forall>s \<in> set (k_snd_queue k) \<union> set (k_snd_buf k). sg_len s \<le> k_mss k)"

lemma counters_snd_append:
  assumes "counters_ok k" "length (k_snd_queue k) + length ss < 2 ^ 32"
  shows "counters_ok (k\<lparr>k_snd_queue := k_snd_queue k @ ss, k_nsnd_que := k_nsnd_que k + of_nat (length ss)\<rparr>)"
proof -
  have "unat (k_nsnd_que k + of_nat (length ss)) = unat (k_nsnd_que k) + length ss"
    using assms by (subst unat_add_lem [THEN iffD1]) (auto simp: counters_ok_def unat_of_nat32)
  then show ?thesis using assms(1) by (simp add: counters_ok_def)
qed

lemma send_fragments_inv:
  assumes "\<forall>n. malloc n" "0 < unat (k_mss k)" "unat (k_mss k) < 2 ^ 31" "length b < 2 ^ 31"
    "length (k_snd_queue k) < 2 ^ 31" "counters_ok k" "segs_ok k" "snd_fits k"
    "send_fragments malloc b (int (length b)) k = Some (rc, k')"
  shows "counters_ok k' \<and> segs_ok k' \<and> snd_fits k'"
proof -
  let ?m = "unat (k_mss k)" and ?n = "nfrags (unat (k_mss k)) (length b)"
  show ?thesis
  proof (cases "?n \<ge> 128")
    case True
    then show ?thesis using send_fragments_eq [OF assms(1-4)] assms(6-9) by (simp add: Let_def)
  next
    case False
    let ?f = "frag_segs ?m (k_stream k \<noteq> 0) ?n b"
    have k': "k' = k\<lparr>k_snd_queue := k_snd_queue k @ ?f, k_nsnd_que := k_nsnd_que k + of_nat (length ?f)\<rparr>"
      using send_fragments_eq [OF assms(1-4)] assms(9) False by (auto simp: Let_def)
    have f: "\<forall>s \<in> set ?f. seg_ok s \<and> unat (sg_len s) \<le> ?m"
      using assms(3) by (intro frag_segs_ok) simp
    have "counters_ok k'" unfolding k' using assms(5,6) False by (intro counters_snd_append) simp_all
    moreover have "segs_ok k'" using k' f assms(7) by (auto simp: segs_ok_def)
    moreover have "snd_fits k'" using k' f assms(8) by (auto simp: snd_fits_def word_le_nat_alt)
    ultimately show ?thesis by simp
  qed
qed

text \<open>The streaming branch: the bytes it takes go to the end of the last queued segment.\<close>

definition stream_room :: "kcb \<Rightarrow> nat" where
  "stream_room k = (if k_snd_queue k = [] then 0
     else unat (k_mss k) - unat (sg_len (last (k_snd_queue k))))"

lemma stream_extend_spec:
  assumes "\<forall>n. malloc n" "unat (k_mss k) < 2 ^ 31" "length b < 2 ^ 31" "segs_ok k" "snd_fits k"
    "counters_ok k"
  shows "\<exists>k'. stream_extend malloc b (int (length b)) k =
      Some (k', drop (stream_room k) b, int (length (drop (stream_room k) b))) \<and>
    message_bytes (k_snd_queue k') = message_bytes (k_snd_queue k) @ take (stream_room k) b \<and>
    k_mss k' = k_mss k \<and> length (k_snd_queue k') = length (k_snd_queue k) \<and>
    counters_ok k' \<and> segs_ok k' \<and> snd_fits k'"
proof (cases "k_snd_queue k = []")
  case True
  then show ?thesis using assms by (simp add: stream_extend_def stream_room_def)
next
  case False
  let ?old = "last (k_snd_queue k)"
  have q: "k_snd_queue k = butlast (k_snd_queue k) @ [?old]" using False by simp
  have old: "seg_ok ?old" "sg_len ?old \<le> k_mss k"
    using assms(4,5) last_in_set [OF False] by (auto simp: segs_ok_def snd_fits_def)
  show ?thesis
  proof (cases "sg_len ?old < k_mss k")
    case False
    then have "stream_room k = 0" using old(2) by (auto simp: stream_room_def word_le_nat_alt)
    then show ?thesis using assms \<open>k_snd_queue k \<noteq> []\<close> False by (simp add: stream_extend_def)
  next
    case True
    let ?c = "unat (k_mss k) - unat (sg_len ?old)"
    let ?e = "min (length b) ?c"
    let ?seg = "seg_blank\<lparr>sg_data := sg_data ?old @ take ?e b, sg_len := sg_len ?old + of_nat ?e, sg_frg := 0\<rparr>"
    let ?k = "k\<lparr>k_snd_queue := butlast (k_snd_queue k) @ [?seg]\<rparr>"
    have room: "stream_room k = ?c" using \<open>k_snd_queue k \<noteq> []\<close> by (simp add: stream_room_def)
    have "unat (k_mss k - sg_len ?old) = ?c" using old(2) by (simp add: unat_sub32 word_le_nat_alt)
    then have cap: "sint (k_mss k - sg_len ?old) = int ?c"
      using assms(2) by (subst sint_unat31) simp_all
    have ext: "(if int (length b) < int ?c then int (length b) else int ?c) = int ?e" by simp
    have tk: "take (unat (sg_len ?old)) (sg_data ?old) = sg_data ?old" using old(1) by (simp add: seg_ok_def)
    have rest: "int (length b) - int ?e = int (length (drop ?c b))" "drop ?e b = drop ?c b"
      "take ?e b = take ?c b" by (auto simp: min_def)
    have eq: "stream_extend malloc b (int (length b)) k =
        Some (?k, drop (stream_room k) b, int (length (drop (stream_room k) b)))"
      unfolding stream_extend_def Let_def cap ext room
      using assms(1) True \<open>k_snd_queue k \<noteq> []\<close> tk rest
      by (simp add: ikcp_segment_new_def seg_blank_def)
    have len: "unat (sg_len ?old + of_nat ?e) = unat (sg_len ?old) + ?e"
      using old(2) assms(2)
      by (subst unat_add_lem [THEN iffD1]) (auto simp: unat_of_nat32 word_le_nat_alt)
    have "message_bytes (k_snd_queue ?k) = message_bytes (k_snd_queue k) @ take (stream_room k) b"
      by (subst (2) q) (simp add: message_bytes_def room rest)
    moreover have "seg_ok ?seg" using old(1) len by (simp add: seg_ok_def)
    moreover have "sg_len ?seg \<le> k_mss k" using len old(2) by (simp add: word_le_nat_alt)
    moreover have "set (butlast (k_snd_queue k)) \<subseteq> set (k_snd_queue k)" by (auto dest: in_set_butlastD)
    moreover have "length (k_snd_queue ?k) = length (k_snd_queue k)"
      using False \<open>k_snd_queue k \<noteq> []\<close> by (cases "k_snd_queue k") auto
    ultimately show ?thesis
      using eq assms(4-6) by (auto simp: segs_ok_def snd_fits_def counters_ok_def)
  qed
qed

text \<open>Sending keeps the invariants in both modes.\<close>

lemma send_inv [inv_intros]:
  assumes "\<forall>n. malloc n" "0 < unat (k_mss k)" "unat (k_mss k) < 2 ^ 31" "length b < 2 ^ 31"
    "length (k_snd_queue k) < 2 ^ 31" "counters_ok k" "segs_ok k" "snd_fits k"
    "ikcp_send malloc k b (int (length b)) = Some (rc, k')"
  shows "counters_ok k' \<and> segs_ok k' \<and> snd_fits k'"
proof (cases "k_stream k = 0")
  case True
  then show ?thesis
    using send_fragments_inv [OF assms(1-8)] assms(2,9) by (simp add: ikcp_send_def split: if_splits)
next
  case False
  let ?r = "drop (stream_room k) b"
  obtain k1 where k1: "stream_extend malloc b (int (length b)) k = Some (k1, ?r, int (length ?r))"
    "k_mss k1 = k_mss k" "length (k_snd_queue k1) = length (k_snd_queue k)"
    "counters_ok k1" "segs_ok k1" "snd_fits k1"
    using stream_extend_spec [OF assms(1,3,4,7,8,6)] by blast
  have "ikcp_send malloc k b (int (length b)) =
     (if int (length ?r) \<le> 0 then Some (0, k1) else send_fragments malloc ?r (int (length ?r)) k1)"
    using False assms(2) k1(1) by (simp only: ikcp_send_def) (simp add: word_less_nat_alt)
  then show ?thesis
    using assms k1 send_fragments_inv [of malloc k1 ?r rc k'] by (auto split: if_splits)
qed

section \<open>A message sent is the message read\<close>

lemma send_recv_message:
  assumes "\<forall>n. malloc n" "0 < unat (k_mss k)" "unat (k_mss k) < 2 ^ 31" "length b < 2 ^ 31"
    "k_stream k = 0" "nfrags (unat (k_mss k)) (length b) < 128"
    and q: "counters_ok q" "segs_ok q" "map (\<lambda>s. (sg_frg s, sg_len s, sg_data s)) (k_rcv_queue q) =
      map (\<lambda>s. (sg_frg s, sg_len s, sg_data s)) m @ rest"
    and m: "ikcp_send malloc k b (int (length b)) = Some (rc, k')" "k_snd_queue k' = k_snd_queue k @ m"
    and len: "length b \<le> n"
  shows "\<exists>q'. ikcp_recv q (int n) = Some (int (length b), b, q')"
proof -
  let ?n = "nfrags (unat (k_mss k)) (length b)"
  let ?v = "\<lambda>s. (sg_frg s, sg_len s, sg_data s)"
  have m': "m = frag_segs (unat (k_mss k)) False ?n b"
    using send_message_mode [OF assms(1-5)] assms(6) m by (auto simp: Let_def)
  have whole: "whole_message m" "message_bytes m = b"
    unfolding m' using assms nfrags_covers [OF assms(2), of "length b"] nfrags_pos [OF assms(2), of "length b"]
    by (auto intro!: frag_segs_whole frag_segs_bytes)
  obtain mq rq where mq: "k_rcv_queue q = mq @ rq" "map ?v mq = map ?v m"
    using q(3) by (auto simp: map_eq_append_conv)
  have f: "map sg_frg mq = map sg_frg m" "map sg_len mq = map sg_len m" "map sg_data mq = map sg_data m"
    using arg_cong [OF mq(2), of "map fst"] arg_cong [OF mq(2), of "map (fst \<circ> snd)"]
      arg_cong [OF mq(2), of "map (snd \<circ> snd)"] by (simp_all add: o_def)
  have bytes: "message_bytes mq = b" using f(3) whole(2) by (simp add: message_bytes_def)
  have tl: "total_len mq = total_len m"
    using arg_cong [OF f(2), of "\<lambda>xs. sum_list (map unat xs)"] by (simp add: total_len_def o_def)
  have "whole_message mq"
  proof -
    have len: "length mq = length m" using arg_cong [OF f(1), of length] by simp
    have ne: "mq \<noteq> []" using whole(1) len by (auto simp: whole_message_def)
    have "sg_frg (last mq) = last (map sg_frg m)" using ne f(1) by (metis last_map)
    moreover have "sg_frg ` set (butlast mq) = set (butlast (map sg_frg m))"
      using f(1) by (metis map_butlast set_map)
    moreover have "sg_frg (hd mq) = hd (map sg_frg m)" using ne f(1) by (metis hd_map)
    moreover have "\<forall>s \<in> set mq. seg_ok s" using q(2) mq(1) by (simp add: segs_ok_def)
    moreover have "m \<noteq> []" using whole(1) by (simp add: whole_message_def)
    moreover have "sg_frg ` set (butlast m) = set (butlast (map sg_frg m))" by (metis map_butlast set_map)
    moreover have "(\<forall>s \<in> set (butlast x). sg_frg s \<noteq> 0) \<longleftrightarrow> 0 \<notin> sg_frg ` set (butlast x)" for x :: "kseg list"
      by auto
    ultimately show ?thesis
      using whole(1) ne len tl by (simp add: whole_message_def last_map hd_map)
  qed
  then have "ikcp_peeksize q = int (total_len mq)" "first_message (k_rcv_queue q) = mq"
    using peeksize_whole [OF q(1) mq(1)] first_message_whole [of mq rq] mq(1) by simp_all
  moreover have "total_len mq = length b"
    using total_len_bytes [of m] whole tl by (simp add: whole_message_def)
  moreover have "k_rcv_queue q \<noteq> []" using mq(1) \<open>whole_message mq\<close> by (auto simp: whole_message_def)
  ultimately show ?thesis using recv_cases [OF q(2), of "int n"] len bytes by simp
qed

end
