(* ===== verification/Kcp_Input.thy ===== *)
theory Kcp_Input
  imports Kcp_Send
begin

text \<open>
  \<open>ikcp_input\<close> of \<^verbatim>\<open>ikcp.c\<close> and the functions it calls: the segment header on the wire,
  round-trip estimation, acknowledgement of the send buffer and the list of pending
  acknowledgements.  A datagram is processed segment by segment; the loop ends because each
  round consumes the header.  An early return keeps the changes made so far and skips the
  window update at the end.
\<close>

section \<open>The segment header\<close>

record seg_header =
  sh_conv :: u32
  sh_cmd :: u8
  sh_frg :: u8
  sh_wnd :: u16
  sh_ts :: u32
  sh_sn :: u32
  sh_una :: u32
  sh_len :: u32

definition ikcp_encode_seg :: "bytes \<Rightarrow> kseg \<Rightarrow> bytes" where
  "ikcp_encode_seg ptr seg =
     (let ptr = ikcp_encode32u ptr (sg_conv seg);
          ptr = ikcp_encode8u ptr (ucast (sg_cmd seg));
          ptr = ikcp_encode8u ptr (ucast (sg_frg seg));
          ptr = ikcp_encode16u ptr (ucast (sg_wnd seg));
          ptr = ikcp_encode32u ptr (sg_ts seg);
          ptr = ikcp_encode32u ptr (sg_sn seg);
          ptr = ikcp_encode32u ptr (sg_una seg);
          ptr = ikcp_encode32u ptr (sg_len seg)
      in ptr)"

definition decode_seg_header :: "bytes \<Rightarrow> (seg_header \<times> bytes) option" where
  "decode_seg_header data = do {
     (conv, data) \<leftarrow> ikcp_decode32u data;
     (cmd, data) \<leftarrow> ikcp_decode8u data;
     (frg, data) \<leftarrow> ikcp_decode8u data;
     (wnd, data) \<leftarrow> ikcp_decode16u data;
     (ts, data) \<leftarrow> ikcp_decode32u data;
     (sn, data) \<leftarrow> ikcp_decode32u data;
     (una, data) \<leftarrow> ikcp_decode32u data;
     (len, data) \<leftarrow> ikcp_decode32u data;
     Some (\<lparr>sh_conv = conv, sh_cmd = cmd, sh_frg = frg, sh_wnd = wnd, sh_ts = ts,
            sh_sn = sn, sh_una = una, sh_len = len\<rparr>, data)
   }"

definition header_of_seg :: "kseg \<Rightarrow> seg_header" where
  "header_of_seg seg = \<lparr>sh_conv = sg_conv seg, sh_cmd = ucast (sg_cmd seg),
     sh_frg = ucast (sg_frg seg), sh_wnd = ucast (sg_wnd seg), sh_ts = sg_ts seg,
     sh_sn = sg_sn seg, sh_una = sg_una seg, sh_len = sg_len seg\<rparr>"

subsection \<open>The header as a composed code\<close>

interpretation hdr_lens: codec_pair le32 ikcp_decode32u 4 le32 ikcp_decode32u 4 ..

interpretation hdr_sn: codec_pair le32 ikcp_decode32u 4
  "enc_seq le32 le32" "dec_seq ikcp_decode32u ikcp_decode32u" "4 + 4" ..

interpretation hdr_ts: codec_pair le32 ikcp_decode32u 4
  "enc_seq le32 (enc_seq le32 le32)" "dec_seq ikcp_decode32u (dec_seq ikcp_decode32u ikcp_decode32u)"
  "4 + (4 + 4)" ..

interpretation hdr_wnd: codec_pair le16 ikcp_decode16u 2
  "enc_seq le32 (enc_seq le32 (enc_seq le32 le32))"
  "dec_seq ikcp_decode32u (dec_seq ikcp_decode32u (dec_seq ikcp_decode32u ikcp_decode32u))"
  "4 + (4 + (4 + 4))" ..

definition enc_tail :: "u16 \<times> u32 \<times> u32 \<times> u32 \<times> u32 \<Rightarrow> bytes" where
  "enc_tail = enc_seq le16 (enc_seq le32 (enc_seq le32 (enc_seq le32 le32)))"

definition dec_tail :: "bytes \<Rightarrow> ((u16 \<times> u32 \<times> u32 \<times> u32 \<times> u32) \<times> bytes) option" where
  "dec_tail = dec_seq ikcp_decode16u
     (dec_seq ikcp_decode32u (dec_seq ikcp_decode32u (dec_seq ikcp_decode32u ikcp_decode32u)))"

interpretation hdr_tail: wire_codec enc_tail dec_tail "2 + (4 + (4 + (4 + 4)))"
  unfolding enc_tail_def dec_tail_def by unfold_locales

interpretation hdr_frg: codec_pair "\<lambda>c. [c]" ikcp_decode8u 1 enc_tail dec_tail "2 + (4 + (4 + (4 + 4)))" ..

interpretation hdr_cmd: codec_pair "\<lambda>c. [c]" ikcp_decode8u 1 "enc_seq (\<lambda>c. [c]) enc_tail"
  "dec_seq ikcp_decode8u dec_tail" "1 + (2 + (4 + (4 + (4 + 4))))" ..

interpretation hdr: codec_pair le32 ikcp_decode32u 4 "enc_seq (\<lambda>c. [c]) (enc_seq (\<lambda>c. [c]) enc_tail)"
  "dec_seq ikcp_decode8u (dec_seq ikcp_decode8u dec_tail)" "1 + (1 + (2 + (4 + (4 + (4 + 4)))))" ..

definition enc_header :: "seg_header \<Rightarrow> bytes" where
  "enc_header h = enc_seq le32 (enc_seq (\<lambda>c. [c]) (enc_seq (\<lambda>c. [c]) enc_tail))
     (sh_conv h, sh_cmd h, sh_frg h, sh_wnd h, sh_ts h, sh_sn h, sh_una h, sh_len h)"

lemma encode_seg_eq: "ikcp_encode_seg ptr seg = ptr @ enc_header (header_of_seg seg)"
  by (simp add: ikcp_encode_seg_def enc_header_def enc_seq_def enc_tail_def header_of_seg_def
      ikcp_encode32u_def ikcp_encode8u_def ikcp_encode16u_def)

lemma decode_header_eq:
  "decode_seg_header data = map_option
     (\<lambda>((conv, cmd, frg, wnd, ts, sn, una, len), r). (\<lparr>sh_conv = conv, sh_cmd = cmd, sh_frg = frg,
        sh_wnd = wnd, sh_ts = ts, sh_sn = sn, sh_una = una, sh_len = len\<rparr>, r))
     (dec_seq ikcp_decode32u (dec_seq ikcp_decode8u (dec_seq ikcp_decode8u dec_tail)) data)"
  by (simp add: decode_seg_header_def dec_seq_def dec_tail_def Option.bind_def
      split: option.splits prod.splits)

interpretation kcp_hdr: wire_codec enc_header decode_seg_header 24
proof
  show "decode_seg_header (enc_header x @ rest) = Some (x, rest)" for x rest
    by (simp add: decode_header_eq enc_header_def hdr.dec_enc)
  show "length (enc_header x) = 24" for x
    by (simp add: enc_header_def hdr.enc_width)
  show "bs = enc_header y @ r" if "decode_seg_header bs = Some (y, r)" for bs y r
    using that by (auto simp: decode_header_eq enc_header_def dest!: hdr.dec_Some)
  show "length bs < 24" if "decode_seg_header bs = None" for bs
    using that hdr.dec_None [of bs] by (simp add: decode_header_eq)
qed

section \<open>Round-trip time\<close>

definition ikcp_update_ack :: "kcb \<Rightarrow> u32 \<Rightarrow> kcb" where
  "ikcp_update_ack k rtt =
     (let k = (if k_rx_srtt k = 0 then k\<lparr>k_rx_srtt := rtt, k_rx_rttval := sdiv32 rtt 2\<rparr>
               else
                 let delta = rtt - k_rx_srtt k;
                     delta = (if sint delta < 0 then - delta else delta);
                     k = k\<lparr>k_rx_rttval := sdiv32 (3 * k_rx_rttval k + delta) 4\<rparr>;
                     k = k\<lparr>k_rx_srtt := sdiv32 (7 * k_rx_srtt k + rtt) 8\<rparr>
                 in if sint (k_rx_srtt k) < 1 then k\<lparr>k_rx_srtt := 1\<rparr> else k);
          rto = k_rx_srtt k + imax (k_interval k) (4 * k_rx_rttval k)
      in k\<lparr>k_rx_rto := ibound (k_rx_minrto k) rto IKCP_RTO_MAX\<rparr>)"

section \<open>The send buffer\<close>

definition ikcp_shrink_buf :: "kcb \<Rightarrow> kcb" where
  "ikcp_shrink_buf k =
     (case k_snd_buf k of
        seg # _ \<Rightarrow> k\<lparr>k_snd_una := sg_sn seg\<rparr>
      | [] \<Rightarrow> k\<lparr>k_snd_una := k_snd_nxt k\<rparr>)"

fun ack_loop :: "u32 \<Rightarrow> kseg list \<Rightarrow> nat \<times> kseg list" where
  "ack_loop sn [] = (0, [])"
| "ack_loop sn (s # ss) =
     (if sn = sg_sn s then (1, ss)
      else if itimediff sn (sg_sn s) < 0 then (0, s # ss)
      else (let (n, ss') = ack_loop sn ss in (n, s # ss')))"

definition ikcp_parse_ack :: "kcb \<Rightarrow> u32 \<Rightarrow> kcb" where
  "ikcp_parse_ack k sn =
     (if itimediff sn (k_snd_una k) < 0 \<or> itimediff sn (k_snd_nxt k) \<ge> 0 then k
      else (let (n, ss) = ack_loop sn (k_snd_buf k)
            in k\<lparr>k_snd_buf := ss, k_nsnd_buf := k_nsnd_buf k - of_nat n\<rparr>))"

fun una_loop :: "u32 \<Rightarrow> kseg list \<Rightarrow> nat \<times> kseg list" where
  "una_loop una [] = (0, [])"
| "una_loop una (s # ss) =
     (if itimediff una (sg_sn s) > 0 then (let (n, ss') = una_loop una ss in (Suc n, ss'))
      else (0, s # ss))"

definition ikcp_parse_una :: "kcb \<Rightarrow> u32 \<Rightarrow> kcb" where
  "ikcp_parse_una k una =
     (let (n, ss) = una_loop una (k_snd_buf k)
      in k\<lparr>k_snd_buf := ss, k_nsnd_buf := k_nsnd_buf k - of_nat n\<rparr>)"

fun fastack_loop :: "u32 \<Rightarrow> kseg list \<Rightarrow> kseg list" where
  "fastack_loop sn [] = []"
| "fastack_loop sn (s # ss) =
     (if itimediff sn (sg_sn s) < 0 then s # ss
      else if sn \<noteq> sg_sn s then s\<lparr>sg_fastack := sg_fastack s + 1\<rparr> # fastack_loop sn ss
      else s # fastack_loop sn ss)"

definition ikcp_parse_fastack :: "kcb \<Rightarrow> u32 \<Rightarrow> kcb" where
  "ikcp_parse_fastack k sn =
     (if itimediff sn (k_snd_una k) < 0 \<or> itimediff sn (k_snd_nxt k) \<ge> 0 then k
      else k\<lparr>k_snd_buf := fastack_loop sn (k_snd_buf k)\<rparr>)"

section \<open>Pending acknowledgements\<close>

function ack_newblock :: "nat \<Rightarrow> nat \<Rightarrow> nat" where
  "ack_newblock newsize newblock =
     (if newblock < newsize \<and> 0 < newblock then ack_newblock newsize (2 * newblock) else newblock)"
  by pat_completeness auto
termination by (relation "measure (\<lambda>(s, b). s - b)") auto

declare ack_newblock.simps [simp del]

text \<open>The entries of the new array that the copy does not reach are uninitialised memory.\<close>

definition ikcp_ack_push :: "(nat \<Rightarrow> bool) \<Rightarrow> kcb \<Rightarrow> u32 \<Rightarrow> u32 \<Rightarrow> kcb option" where
  "ikcp_ack_push malloc k sn ts =
     (let newsize = k_ackcount k + 1 in
      case (if newsize > length (k_acklist k) then
              let newblock = ack_newblock newsize 8 in
              if \<not> malloc (newblock * 4 * 2) then None
              else Some (k\<lparr>k_acklist := take (k_ackcount k) (k_acklist k) @
                                         replicate (newblock - k_ackcount k) (0, 0)\<rparr>)
            else Some k) of
        None \<Rightarrow> None
      | Some k \<Rightarrow> Some (k\<lparr>k_acklist := (k_acklist k)[k_ackcount k := (sn, ts)],
                           k_ackcount := k_ackcount k + 1\<rparr>))"

definition ikcp_ack_get :: "kcb \<Rightarrow> nat \<Rightarrow> u32 \<times> u32" where
  "ikcp_ack_get k p = k_acklist k ! p"

definition pending_acks :: "kcb \<Rightarrow> (u32 \<times> u32) list" where
  "pending_acks k = take (k_ackcount k) (k_acklist k)"

section \<open>Input\<close>

definition seg_of_header :: "seg_header \<Rightarrow> bytes \<Rightarrow> kseg \<Rightarrow> kseg" where
  "seg_of_header h payload seg =
     seg\<lparr>sg_conv := sh_conv h, sg_cmd := ucast (sh_cmd h), sg_frg := ucast (sh_frg h),
         sg_wnd := ucast (sh_wnd h), sg_ts := sh_ts h, sg_sn := sh_sn h, sg_una := sh_una h,
         sg_len := sh_len h, sg_data := payload\<rparr>"

definition input_ack :: "kcb \<Rightarrow> u32 \<Rightarrow> u32 \<Rightarrow> bool \<Rightarrow> u32 \<Rightarrow> kcb \<times> bool \<times> u32" where
  "input_ack k ts sn flag maxack =
     (let k = (if itimediff (k_current k) ts \<ge> 0
               then ikcp_update_ack k (word_of_int (itimediff (k_current k) ts)) else k);
          k = ikcp_shrink_buf (ikcp_parse_ack k sn)
      in if \<not> flag then (k, True, sn)
         else (k, flag, if itimediff sn maxack > 0 then sn else maxack))"

definition input_push :: "(nat \<Rightarrow> bool) \<Rightarrow> kcb \<Rightarrow> seg_header \<Rightarrow> bytes \<Rightarrow> kcb option" where
  "input_push malloc k h data =
     (if itimediff (sh_sn h) (k_rcv_nxt k + k_rcv_wnd k) < 0 then
        (case ikcp_ack_push malloc k (sh_sn h) (sh_ts h) of
           None \<Rightarrow> None
         | Some k \<Rightarrow>
             if itimediff (sh_sn h) (k_rcv_nxt k) \<ge> 0 then
               (case ikcp_segment_new malloc (sint (sh_len h)) of
                  None \<Rightarrow> None
                | Some seg \<Rightarrow>
                    Some (ikcp_parse_data k (seg_of_header h (take (unat (sh_len h)) data) seg)))
             else Some k)
      else Some k)"

definition input_cmd :: "(nat \<Rightarrow> bool) \<Rightarrow> kcb \<Rightarrow> seg_header \<Rightarrow> bytes \<Rightarrow> bool \<Rightarrow> u32 \<Rightarrow>
    (kcb \<times> bool \<times> u32) option" where
  "input_cmd malloc k h data flag maxack =
     (let k = k\<lparr>k_rmt_wnd := ucast (sh_wnd h)\<rparr>;
          k = ikcp_shrink_buf (ikcp_parse_una k (sh_una h));
          cmd = ucast (sh_cmd h) in
      if cmd = IKCP_CMD_ACK then Some (input_ack k (sh_ts h) (sh_sn h) flag maxack)
      else if cmd = IKCP_CMD_PUSH then
        map_option (\<lambda>k. (k, flag, maxack)) (input_push malloc k h data)
      else if cmd = IKCP_CMD_WASK then
        Some (k\<lparr>k_probe := k_probe k OR IKCP_ASK_TELL\<rparr>, flag, maxack)
      else Some (k, flag, maxack))"

text \<open>\<open>Inl\<close>: an early return with its code; \<open>Inr\<close>: the loop ended.\<close>

function input_loop :: "(nat \<Rightarrow> bool) \<Rightarrow> kcb \<Rightarrow> bytes \<Rightarrow> bool \<Rightarrow> u32 \<Rightarrow>
    (int \<times> kcb + kcb \<times> bool \<times> u32) option" where
  "input_loop malloc k data flag maxack =
     (if int (length data) < sint IKCP_OVERHEAD then Some (Inr (k, flag, maxack))
      else
        case decode_seg_header data of
          None \<Rightarrow> None
        | Some (h, data) \<Rightarrow>
            if sh_conv h \<noteq> k_conv k then Some (Inl (-1, k))
            else if int (length data) < c_long_of_u32 LONG_BITS (sh_len h) \<or> sint (sh_len h) < 0
            then Some (Inl (-2, k))
            else if ucast (sh_cmd h) \<notin> {IKCP_CMD_PUSH, IKCP_CMD_ACK, IKCP_CMD_WASK, IKCP_CMD_WINS}
            then Some (Inl (-3, k))
            else
              (case input_cmd malloc k h data flag maxack of
                 None \<Rightarrow> None
               | Some (k, flag, maxack) \<Rightarrow>
                   input_loop malloc k (drop (unat (sh_len h)) data) flag maxack))"
  by pat_completeness auto
termination
  by (relation "measure (\<lambda>(_, _, data, _, _). length data)") (auto dest!: kcp_hdr.dec_rest_length)

declare input_loop.simps [simp del]

definition input_cwnd :: "u32 \<Rightarrow> kcb \<Rightarrow> kcb" where
  "input_cwnd una k =
     (if itimediff (k_snd_una k) una > 0 \<and> k_cwnd k < k_rmt_wnd k then
        let mss = k_mss k;
            k = (if k_cwnd k < k_ssthresh k
                 then k\<lparr>k_cwnd := k_cwnd k + 1, k_incr := k_incr k + mss\<rparr>
                 else
                   let k = (if k_incr k < mss then k\<lparr>k_incr := mss\<rparr> else k);
                       k = k\<lparr>k_incr := k_incr k + ((mss * mss) div k_incr k + mss div 16)\<rparr>
                   in if (k_cwnd k + 1) * mss \<le> k_incr k then k\<lparr>k_cwnd := k_cwnd k + 1\<rparr> else k)
        in if k_cwnd k > k_rmt_wnd k
           then k\<lparr>k_cwnd := k_rmt_wnd k, k_incr := k_rmt_wnd k * mss\<rparr> else k
      else k)"

definition ikcp_input :: "(nat \<Rightarrow> bool) \<Rightarrow> kcb \<Rightarrow> bytes \<Rightarrow> (int \<times> kcb) option" where
  "ikcp_input malloc k data =
     (if int (length data) < sint IKCP_OVERHEAD then Some (-1, k)
      else
        case input_loop malloc k data False 0 of
          None \<Rightarrow> None
        | Some (Inl (rc, k')) \<Rightarrow> Some (rc, k')
        | Some (Inr (k', flag, maxack)) \<Rightarrow>
            (let k' = (if flag then ikcp_parse_fastack k' maxack else k')
             in Some (0, input_cwnd (k_snd_una k) k')))"

section \<open>The send buffer in order\<close>

text \<open>
  The unacknowledged segments carry increasing serial numbers in \<open>[snd_una, snd_nxt)\<close>, a range
  of less than half of the number space.
\<close>

definition snd_ok :: "kcb \<Rightarrow> bool" where
  "snd_ok k \<longleftrightarrow> sorted_from (k_snd_una k) (k_snd_buf k) \<and>
     (\<forall>s \<in> set (k_snd_buf k). off (k_snd_una k) (sg_sn s) < off (k_snd_una k) (k_snd_nxt k)) \<and>
     off (k_snd_una k) (k_snd_nxt k) < 2 ^ 31"

lemma off_rebase:
  assumes "off b c \<le> off b s" shows "off c s = off b s - off b c"
proof -
  have "s - c = (s - b) - (c - b)" by simp
  then show ?thesis using assms unat_sub32 [of "s - b" "c - b"] by (simp add: off_def)
qed

lemma sorted_from_rebase:
  assumes "sorted_from b ss" "\<forall>s \<in> set ss. off b c \<le> off b (sg_sn s)"
  shows "sorted_from c ss"
proof -
  have "sorted_wrt (\<lambda>s t. off b (sg_sn s) < off b (sg_sn t)) ss"
    using assms(1) by (simp add: sorted_from_def sorted_wrt_map)
  moreover have "off c (sg_sn s) < off c (sg_sn t)"
    if "s \<in> set ss" "t \<in> set ss" "off b (sg_sn s) < off b (sg_sn t)" for s t
  proof -
    have "off b c \<le> off b (sg_sn s)" "off b c \<le> off b (sg_sn t)" using assms(2) that by blast+
    then show ?thesis
      using off_rebase [of b c "sg_sn s"] off_rebase [of b c "sg_sn t"] that(3) by linarith
  qed
  ultimately have "sorted_wrt (\<lambda>s t. off c (sg_sn s) < off c (sg_sn t)) ss"
    using sorted_wrt_mono_rel [of ss "\<lambda>s t. off b (sg_sn s) < off b (sg_sn t)"
      "\<lambda>s t. off c (sg_sn s) < off c (sg_sn t)"] by blast
  then show ?thesis by (simp add: sorted_from_def sorted_wrt_map)
qed

text \<open>A sublist of the send buffer, followed by \<open>ikcp_shrink_buf\<close>, is again in order.\<close>

definition snd_pre :: "u32 \<Rightarrow> kseg list \<Rightarrow> u32 \<Rightarrow> bool" where
  "snd_pre una ss nxt \<longleftrightarrow> sorted_from una ss \<and>
     (\<forall>s \<in> set ss. off una (sg_sn s) < off una nxt) \<and> off una nxt < 2 ^ 31"

lemma snd_ok_pre: "snd_ok k \<longleftrightarrow> snd_pre (k_snd_una k) (k_snd_buf k) (k_snd_nxt k)"
  by (simp add: snd_ok_def snd_pre_def)

lemma shrink_snd_ok:
  assumes "snd_pre una (k_snd_buf k) (k_snd_nxt k)" shows "snd_ok (ikcp_shrink_buf k)"
proof (cases "k_snd_buf k")
  case Nil
  then show ?thesis by (simp add: ikcp_shrink_buf_def snd_ok_def sorted_from_def)
next
  case (Cons s ss)
  let ?nxt = "k_snd_nxt k"
  have srt: "sorted_from una (s # ss)" and lt: "\<forall>t \<in> set (s # ss). off una (sg_sn t) < off una ?nxt"
    and small: "off una ?nxt < 2 ^ 31" using assms Cons by (simp_all add: snd_pre_def)
  have le: "\<forall>t \<in> set (s # ss). off una (sg_sn s) \<le> off una (sg_sn t)"
    using srt by (auto simp: sorted_from_def)
  have nxt: "off (sg_sn s) ?nxt = off una ?nxt - off una (sg_sn s)" using lt by (intro off_rebase) simp
  have "off (sg_sn s) (sg_sn t) < off (sg_sn s) ?nxt" if "t \<in> set (s # ss)" for t
  proof -
    have "off una (sg_sn s) \<le> off una (sg_sn t)" "off una (sg_sn t) < off una ?nxt"
      using le lt that by blast+
    then show ?thesis using off_rebase [of una "sg_sn s" "sg_sn t"] nxt by linarith
  qed
  then have "snd_pre (sg_sn s) (s # ss) ?nxt"
    using sorted_from_rebase [OF srt le] nxt small by (simp add: snd_pre_def del: set_simps)
  then show ?thesis using Cons by (simp add: ikcp_shrink_buf_def snd_ok_pre)
qed

lemma snd_pre_sublist:
  assumes "snd_pre una ss nxt" "sorted_from una ts" "set ts \<subseteq> set ss"
  shows "snd_pre una ts nxt"
  using assms by (auto simp: snd_pre_def)

subsection \<open>Cumulative acknowledgement\<close>

lemma una_loop_spec:
  "una_loop una ss = (n, ss') \<Longrightarrow> ss' = dropWhile (\<lambda>s. itimediff una (sg_sn s) > 0) ss \<and>
     n + length ss' = length ss"
  by (induction ss arbitrary: n ss') (auto split: if_splits prod.splits)

lemma sorted_from_Cons: "sorted_from b (s # ss) \<longleftrightarrow>
    (\<forall>t \<in> set ss. off b (sg_sn s) < off b (sg_sn t)) \<and> sorted_from b ss"
  by (auto simp: sorted_from_def)

lemma sorted_from_dropWhile: "sorted_from b ss \<Longrightarrow> sorted_from b (dropWhile P ss)"
  by (induction ss) (auto simp: sorted_from_Cons)

lemma sorted_dropWhile_filter:
  assumes "sorted_from b ss" "\<And>s. s \<in> set ss \<Longrightarrow> P s \<longleftrightarrow> off b (sg_sn s) < c"
  shows "dropWhile P ss = filter (\<lambda>s. \<not> P s) ss"
  using assms
proof (induction ss)
  case (Cons s ss)
  show ?case
  proof (cases "P s")
    case True
    then show ?thesis using Cons by (simp add: sorted_from_Cons)
  next
    case False
    then have "c \<le> off b (sg_sn s)" using Cons.prems(2) [of s] by simp
    then have "\<not> P t" if "t \<in> set ss" for t
      using Cons.prems(2) [of t] Cons.prems(1) that by (auto simp: sorted_from_Cons)
    then have "filter (\<lambda>s. \<not> P s) ss = ss" by (intro filter_True) blast
    then show ?thesis using False by simp
  qed
qed simp

text \<open>For a \<open>una\<close> at or after \<open>snd_una\<close> the early exit is exact: what stays is what \<open>una\<close> does not cover.\<close>

lemma parse_una_filter:
  assumes "snd_ok k" "off (k_snd_una k) una < 2 ^ 31"
  shows "k_snd_buf (ikcp_parse_una k una) =
    filter (\<lambda>s. off (k_snd_una k) una \<le> off (k_snd_una k) (sg_sn s)) (k_snd_buf k)"
proof -
  let ?b = "k_snd_una k"
  obtain n ss' where u: "una_loop una (k_snd_buf k) = (n, ss')" by fastforce
  have P: "itimediff una (sg_sn s) > 0 \<longleftrightarrow> off ?b (sg_sn s) < off ?b una" if "s \<in> set (k_snd_buf k)" for s
  proof -
    have "off ?b (sg_sn s) < 2 ^ 31" using assms(1) that by (auto simp: snd_ok_def dest: less_trans)
    then show ?thesis using sint_diff_off [OF assms(2), of "sg_sn s"] by simp
  qed
  have "ss' = dropWhile (\<lambda>s. itimediff una (sg_sn s) > 0) (k_snd_buf k)"
    using una_loop_spec [OF u] by blast
  also have "\<dots> = filter (\<lambda>s. \<not> itimediff una (sg_sn s) > 0) (k_snd_buf k)"
    using assms(1) P by (intro sorted_dropWhile_filter) (auto simp: snd_ok_def)
  also have "\<dots> = filter (\<lambda>s. off ?b una \<le> off ?b (sg_sn s)) (k_snd_buf k)"
    by (intro filter_cong) (auto simp only: P not_less)
  finally show ?thesis using u by (simp add: ikcp_parse_una_def)
qed

subsection \<open>Selective acknowledgement\<close>

lemma ack_loop_spec:
  assumes "ack_loop sn ss = (n, ss')"
  shows "n + length ss' = length ss \<and> set ss' \<subseteq> set ss \<and> (sorted_from b ss \<longrightarrow> sorted_from b ss')"
  using assms
proof (induction ss arbitrary: n ss')
  case (Cons s ss)
  obtain m ts where r: "ack_loop sn ss = (m, ts)" by fastforce
  show ?case using Cons.IH [OF r] Cons.prems r
    by (auto simp: sorted_from_Cons subset_iff split: if_splits)
qed simp

lemma ack_loop_removes:
  assumes "sorted_from b ss" "\<forall>s \<in> set ss. off b (sg_sn s) < 2 ^ 31" "off b sn < 2 ^ 31"
  shows "snd (ack_loop sn ss) = filter (\<lambda>s. sg_sn s \<noteq> sn) ss"
  using assms(1,2)
proof (induction ss)
  case (Cons s ss)
  have cmp: "sint (sn - sg_sn s) = int (off b sn) - int (off b (sg_sn s))"
    using Cons.prems assms(3) by (intro sint_diff_off) simp_all
  have later: "off b (sg_sn s) < off b (sg_sn t)" if "t \<in> set ss" for t
    using Cons.prems(1) that by (simp add: sorted_from_Cons)
  show ?case
  proof (cases "sn = sg_sn s")
    case True
    have "filter (\<lambda>t. sg_sn t \<noteq> sn) ss = ss"
      using later True by (intro filter_True) (metis less_irrefl)
    then show ?thesis using True by simp
  next
    case False
    show ?thesis
    proof (cases "sint (sn - sg_sn s) < 0")
      case True
      then have "off b sn < off b (sg_sn s)" using cmp by linarith
      then have "filter (\<lambda>t. sg_sn t \<noteq> sn) ss = ss" using later
        by (intro filter_True) (metis less_trans less_irrefl)
      then show ?thesis using True False by auto
    next
      case no: False
      then show ?thesis using Cons False by (auto simp: sorted_from_Cons split: prod.splits)
    qed
  qed
qed simp

lemma parse_ack_guard:
  assumes "snd_ok k"
  shows "(itimediff sn (k_snd_una k) < 0 \<or> itimediff sn (k_snd_nxt k) \<ge> 0) \<longleftrightarrow>
     \<not> off (k_snd_una k) sn < off (k_snd_una k) (k_snd_nxt k)"
proof -
  let ?d = "k_snd_nxt k - k_snd_una k"
  have "unat ?d < 2 ^ 31" using assms by (simp add: snd_ok_def off_def)
  then show ?thesis using off_window [of ?d sn "k_snd_una k"] by (auto simp: off_def)
qed

text \<open>An acknowledgement inside the window removes exactly its segment, any other none.\<close>

lemma parse_ack_filter:
  assumes "snd_ok k"
  shows "k_snd_buf (ikcp_parse_ack k sn) = filter (\<lambda>s. sg_sn s \<noteq> sn) (k_snd_buf k)"
proof (cases "off (k_snd_una k) sn < off (k_snd_una k) (k_snd_nxt k)")
  case True
  have "snd (ack_loop sn (k_snd_buf k)) = filter (\<lambda>s. sg_sn s \<noteq> sn) (k_snd_buf k)"
    using assms True by (intro ack_loop_removes [of "k_snd_una k"]) (auto simp: snd_ok_def dest: less_trans)
  moreover have "\<not> (itimediff sn (k_snd_una k) < 0 \<or> itimediff sn (k_snd_nxt k) \<ge> 0)"
    using parse_ack_guard [OF assms] True by blast
  ultimately show ?thesis by (auto simp: ikcp_parse_ack_def split: prod.splits)
next
  case False
  then have "sg_sn s \<noteq> sn" if "s \<in> set (k_snd_buf k)" for s
    using assms that by (auto simp: snd_ok_def)
  then have "filter (\<lambda>s. sg_sn s \<noteq> sn) (k_snd_buf k) = k_snd_buf k" by (intro filter_True) blast
  moreover have "itimediff sn (k_snd_una k) < 0 \<or> itimediff sn (k_snd_nxt k) \<ge> 0"
    using parse_ack_guard [OF assms] False by blast
  ultimately show ?thesis by (simp only: ikcp_parse_ack_def if_True)
qed

section \<open>Every datagram keeps the control block well formed\<close>

definition kcp_inv :: "kcb \<Rightarrow> bool" where
  "kcp_inv k \<longleftrightarrow> recv_inv k \<and> snd_ok k \<and> snd_fits k"

lemma kcp_invI: "recv_inv k \<Longrightarrow> snd_ok k \<Longrightarrow> snd_fits k \<Longrightarrow> kcp_inv k"
  by (simp add: kcp_inv_def)

lemmas recv_inv_defs = recv_inv_def rcv_ok_def counters_ok_def segs_ok_def queue_inorder_def

text \<open>What the invariant reads: an update of any other field keeps it.\<close>

lemma kcp_inv_cong:
  assumes "kcp_inv k"
    "k_snd_queue k' = k_snd_queue k" "k_snd_buf k' = k_snd_buf k" "k_rcv_queue k' = k_rcv_queue k"
    "k_rcv_buf k' = k_rcv_buf k" "k_nsnd_que k' = k_nsnd_que k" "k_nsnd_buf k' = k_nsnd_buf k"
    "k_nrcv_que k' = k_nrcv_que k" "k_nrcv_buf k' = k_nrcv_buf k" "k_rcv_nxt k' = k_rcv_nxt k"
    "k_rcv_wnd k' = k_rcv_wnd k" "k_snd_una k' = k_snd_una k" "k_snd_nxt k' = k_snd_nxt k"
    "k_mss k' = k_mss k" "k_ackcount k' \<le> length (k_acklist k')"
  shows "kcp_inv k'"
  using assms unfolding kcp_inv_def recv_inv_defs snd_ok_def snd_fits_def by simp

lemma kcp_inv_acks: "kcp_inv k \<Longrightarrow> k_ackcount k \<le> length (k_acklist k)"
  by (simp add: kcp_inv_def recv_inv_defs)

lemma counter_sub:
  assumes "unat (c :: u32) = length ss" "n + length ss' = length ss"
  shows "unat (c - of_nat n) = length ss'"
proof -
  have "unat (of_nat n :: u32) = n" using assms unat32_less [of c] by (intro unat_of_nat32) linarith
  then show ?thesis using assms by (simp add: unat_sub32)
qed

text \<open>Replacing the send buffer by a sublist and shrinking.\<close>

lemma shrink_sublist_inv:
  assumes "kcp_inv k" "sorted_from (k_snd_una k) ss" "set ss \<subseteq> set (k_snd_buf k)"
    "n + length ss = length (k_snd_buf k)"
  shows "kcp_inv (ikcp_shrink_buf (k\<lparr>k_snd_buf := ss, k_nsnd_buf := k_nsnd_buf k - of_nat n\<rparr>))"
proof -
  let ?k = "k\<lparr>k_snd_buf := ss, k_nsnd_buf := k_nsnd_buf k - of_nat n\<rparr>"
  have inv: "recv_inv k" "snd_ok k" "snd_fits k" using assms(1) by (simp_all add: kcp_inv_def)
  have c: "unat (k_nsnd_buf k - of_nat n) = length ss"
    using inv(1) assms(4) by (intro counter_sub) (simp_all add: recv_inv_defs)
  have "snd_pre (k_snd_una k) (k_snd_buf ?k) (k_snd_nxt ?k)"
    using snd_pre_sublist [of "k_snd_una k" "k_snd_buf k" "k_snd_nxt k" ss] assms(2,3) inv(2)
    by (simp add: snd_ok_pre)
  then have "snd_ok (ikcp_shrink_buf ?k)" by (rule shrink_snd_ok)
  moreover have "recv_inv (ikcp_shrink_buf ?k)"
    using inv(1) c assms(3) by (auto simp: ikcp_shrink_buf_def recv_inv_defs split: list.splits)
  moreover have "snd_fits (ikcp_shrink_buf ?k)"
    using inv(3) assms(3) by (auto simp: ikcp_shrink_buf_def snd_fits_def split: list.splits)
  ultimately show ?thesis by (intro kcp_invI)
qed

lemma parse_una_inv: "kcp_inv k \<Longrightarrow> kcp_inv (ikcp_shrink_buf (ikcp_parse_una k una))"
proof -
  assume inv: "kcp_inv k"
  obtain n ss where u: "una_loop una (k_snd_buf k) = (n, ss)" by fastforce
  have ss: "ss = dropWhile (\<lambda>s. itimediff una (sg_sn s) > 0) (k_snd_buf k)"
    "n + length ss = length (k_snd_buf k)" using una_loop_spec [OF u] by blast+
  have "sorted_from (k_snd_una k) ss"
    unfolding ss(1) using inv by (intro sorted_from_dropWhile) (simp add: kcp_inv_def snd_ok_def)
  moreover have "set ss \<subseteq> set (k_snd_buf k)" unfolding ss(1) by (auto dest: set_dropWhileD)
  ultimately show ?thesis using shrink_sublist_inv [OF inv _ _ ss(2)] u by (simp add: ikcp_parse_una_def)
qed

lemma shrink_inv: "kcp_inv k \<Longrightarrow> kcp_inv (ikcp_shrink_buf k)"
  using shrink_sublist_inv [of k "k_snd_buf k" 0] by (simp add: kcp_inv_def snd_ok_def)

lemma parse_ack_inv: "kcp_inv k \<Longrightarrow> kcp_inv (ikcp_shrink_buf (ikcp_parse_ack k sn))"
proof -
  assume inv: "kcp_inv k"
  obtain n ss where a: "ack_loop sn (k_snd_buf k) = (n, ss)" by fastforce
  have "sorted_from (k_snd_una k) (k_snd_buf k)" using inv by (simp add: kcp_inv_def snd_ok_def)
  then have "kcp_inv (ikcp_shrink_buf (k\<lparr>k_snd_buf := ss, k_nsnd_buf := k_nsnd_buf k - of_nat n\<rparr>))"
    using ack_loop_spec [OF a, of "k_snd_una k"] by (intro shrink_sublist_inv [OF inv]) blast+
  then show ?thesis using a shrink_inv [OF inv] by (simp add: ikcp_parse_ack_def)
qed

text \<open>
  Changing the timers of buffered segments, but not their serial numbers and contents, keeps
  the invariant.
\<close>

definition same_content :: "kseg list \<Rightarrow> kseg list \<Rightarrow> bool" where
  "same_content ss ts \<longleftrightarrow> map sg_sn ss = map sg_sn ts \<and> map sg_len ss = map sg_len ts \<and>
     map sg_data ss = map sg_data ts"

lemma same_content_all:
  assumes "same_content ss ts"
    "\<And>s t. sg_sn s = sg_sn t \<Longrightarrow> sg_len s = sg_len t \<Longrightarrow> sg_data s = sg_data t \<Longrightarrow> P s = P t"
  shows "(\<forall>s \<in> set ss. P s) \<longleftrightarrow> (\<forall>s \<in> set ts. P s)"
proof -
  have len: "length ss = length ts" using assms(1) by (metis same_content_def length_map)
  have nth: "sg_sn (ss ! i) = sg_sn (ts ! i)" "sg_len (ss ! i) = sg_len (ts ! i)"
      "sg_data (ss ! i) = sg_data (ts ! i)" if "i < length ts" for i
    using assms(1) that len unfolding same_content_def by (metis nth_map)+
  show ?thesis unfolding all_set_conv_all_nth len using nth assms(2) by blast
qed

lemma same_content_inv:
  assumes "kcp_inv k" "same_content ss (k_snd_buf k)" shows "kcp_inv (k\<lparr>k_snd_buf := ss\<rparr>)"
proof -
  note all = same_content_all [OF assms(2)]
  have len: "length ss = length (k_snd_buf k)" using assms(2) by (metis same_content_def length_map)
  have "seg_ok s = seg_ok t" if "sg_len s = sg_len t" "sg_data s = sg_data t" for s t
    using that by (simp add: seg_ok_def)
  then have ok: "(\<forall>s \<in> set ss. seg_ok s) \<longleftrightarrow> (\<forall>s \<in> set (k_snd_buf k). seg_ok s)"
    by (intro all) blast
  have fits: "(\<forall>s \<in> set ss. sg_len s \<le> k_mss k) \<longleftrightarrow> (\<forall>s \<in> set (k_snd_buf k). sg_len s \<le> k_mss k)"
    by (rule all) simp
  have rng: "(\<forall>s \<in> set ss. off (k_snd_una k) (sg_sn s) < b) \<longleftrightarrow>
      (\<forall>s \<in> set (k_snd_buf k). off (k_snd_una k) (sg_sn s) < b)" for b
    by (rule all) simp
  have "map (\<lambda>s. off (k_snd_una k) (sg_sn s)) xs = map (off (k_snd_una k)) (map sg_sn xs)" for xs by simp
  then have srt: "sorted_from (k_snd_una k) ss = sorted_from (k_snd_una k) (k_snd_buf k)"
    using assms(2) unfolding sorted_from_def same_content_def by metis
  show ?thesis
    using assms(1) ok fits rng srt len by (simp add: kcp_inv_def recv_inv_defs snd_ok_def snd_fits_def ball_Un)
qed

lemma fastack_loop_same: "same_content (fastack_loop sn ss) ss"
  by (induction ss) (auto simp: same_content_def)

lemma parse_fastack_inv: "kcp_inv k \<Longrightarrow> kcp_inv (ikcp_parse_fastack k sn)"
  using same_content_inv [OF _ fastack_loop_same] by (simp add: ikcp_parse_fastack_def)

lemma update_ack_inv: "kcp_inv k \<Longrightarrow> kcp_inv (ikcp_update_ack k rtt)"
  by (rule kcp_inv_cong [of k]) (simp_all add: ikcp_update_ack_def Let_def kcp_inv_acks)

subsection \<open>Pending acknowledgements\<close>

lemma ack_newblock_ge: "0 < b \<Longrightarrow> n \<le> ack_newblock n b \<and> b \<le> ack_newblock n b"
proof (induction n b rule: ack_newblock.induct)
  case (1 n b)
  show ?case
  proof (cases "b < n \<and> 0 < b")
    case True
    then show ?thesis using "1.IH" by (subst (1 2) ack_newblock.simps) force
  next
    case False
    then show ?thesis using "1.prems" by (subst (1 2) ack_newblock.simps) auto
  qed
qed

text \<open>The capacity at most doubles beyond what is needed.\<close>

lemma ack_newblock_le: "0 < b \<Longrightarrow> ack_newblock n b \<le> max b (2 * n)"
proof (induction n b rule: ack_newblock.induct)
  case (1 n b)
  show ?case
  proof (cases "b < n \<and> 0 < b")
    case True
    then have "ack_newblock n b = ack_newblock n (2 * b)" by (subst ack_newblock.simps) simp
    then show ?thesis using "1.IH" True by auto
  next
    case False
    then have "ack_newblock n b = b" by (subst ack_newblock.simps) auto
    then show ?thesis by simp
  qed
qed

lemma ack_push_spec:
  assumes "\<forall>n. malloc n" "k_ackcount k \<le> length (k_acklist k)"
  shows "\<exists>al. ikcp_ack_push malloc k sn ts = Some (k\<lparr>k_acklist := al, k_ackcount := Suc (k_ackcount k)\<rparr>) \<and>
     take (Suc (k_ackcount k)) al = pending_acks k @ [(sn, ts)] \<and> Suc (k_ackcount k) \<le> length al \<and>
     length (k_acklist k) \<le> length al"
proof (cases "k_ackcount k + 1 > length (k_acklist k)")
  case True
  let ?n = "ack_newblock (k_ackcount k + 1) 8"
  let ?a = "take (k_ackcount k) (k_acklist k) @ replicate (?n - k_ackcount k) (0, 0)"
  have ge: "k_ackcount k + 1 \<le> ?n" using ack_newblock_ge by simp
  then have len: "length ?a = ?n" using assms(2) by simp
  have "ikcp_ack_push malloc k sn ts =
      Some (k\<lparr>k_acklist := ?a[k_ackcount k := (sn, ts)], k_ackcount := Suc (k_ackcount k)\<rparr>)"
    using True assms(1) by (simp add: ikcp_ack_push_def Let_def)
  moreover have "take (Suc (k_ackcount k)) (?a[k_ackcount k := (sn, ts)]) = pending_acks k @ [(sn, ts)]"
    using len ge assms(2) by (subst take_Suc_conv_app_nth) (auto simp: pending_acks_def)
  ultimately show ?thesis using len ge True assms(2)
    by (intro exI [of _ "?a[k_ackcount k := (sn, ts)]"]) simp
next
  case False
  let ?a = "(k_acklist k)[k_ackcount k := (sn, ts)]"
  have "take (Suc (k_ackcount k)) ?a = pending_acks k @ [(sn, ts)]"
    using False by (subst take_Suc_conv_app_nth) (auto simp: pending_acks_def)
  then show ?thesis using False by (intro exI [of _ ?a]) (simp add: ikcp_ack_push_def)
qed

lemma ack_push_pending:
  assumes "\<forall>n. malloc n" "k_ackcount k \<le> length (k_acklist k)" "ikcp_ack_push malloc k sn ts = Some k'"
  shows "pending_acks k' = pending_acks k @ [(sn, ts)]" "k_ackcount k' \<le> length (k_acklist k')"
  using ack_push_spec [OF assms(1,2), of sn ts] assms(3) by (auto simp: pending_acks_def)

lemma ack_push_inv:
  assumes "\<forall>n. malloc n" "kcp_inv k"
  shows "\<exists>k'. ikcp_ack_push malloc k sn ts = Some k' \<and> kcp_inv k' \<and> k_rcv_nxt k' = k_rcv_nxt k"
proof -
  obtain al where al: "ikcp_ack_push malloc k sn ts = Some (k\<lparr>k_acklist := al, k_ackcount := Suc (k_ackcount k)\<rparr>)"
    "Suc (k_ackcount k) \<le> length al"
    using ack_push_spec [OF assms(1) kcp_inv_acks [OF assms(2)]] by blast
  have "kcp_inv (k\<lparr>k_acklist := al, k_ackcount := Suc (k_ackcount k)\<rparr>)"
    by (rule kcp_inv_cong [OF assms(2)]) (use al(2) in simp_all)
  then show ?thesis using al(1) by simp
qed

subsection \<open>The loop\<close>

lemma parse_data_kcp_inv: "kcp_inv k \<Longrightarrow> seg_ok s \<Longrightarrow> kcp_inv (ikcp_parse_data k s)"
proof -
  assume k: "kcp_inv k" and s: "seg_ok s"
  have "recv_inv (ikcp_parse_data k s)" using k s by (intro parse_data_inv) (simp_all add: kcp_inv_def)
  then show ?thesis using k parse_data_shape [of k s] by (auto simp: kcp_inv_def snd_ok_def snd_fits_def)
qed

lemma input_push_inv:
  assumes "\<forall>n. malloc n" "kcp_inv k" "unat (sh_len h) \<le> length data"
  shows "\<exists>k'. input_push malloc k h data = Some k' \<and> kcp_inv k'"
proof -
  obtain k1 where k1: "ikcp_ack_push malloc k (sh_sn h) (sh_ts h) = Some k1" "kcp_inv k1"
    using ack_push_inv [OF assms(1,2)] by blast
  have "seg_ok (seg_of_header h (take (unat (sh_len h)) data) s)" for s
    using assms(3) by (simp add: seg_ok_def seg_of_header_def)
  then show ?thesis
    using k1 assms(1,2) parse_data_kcp_inv [OF k1(2)] by (simp add: input_push_def ikcp_segment_new_def)
qed

lemma input_cmd_inv:
  assumes "\<forall>n. malloc n" "kcp_inv k" "unat (sh_len h) \<le> length data"
  shows "\<exists>k' f m. input_cmd malloc k h data flag maxack = Some (k', f, m) \<and> kcp_inv k'"
proof -
  have "kcp_inv (k\<lparr>k_rmt_wnd := ucast (sh_wnd h)\<rparr>)"
    by (rule kcp_inv_cong [OF assms(2)]) (simp_all add: kcp_inv_acks assms(2))
  note una = parse_una_inv [OF this, of "sh_una h"]
  have ack: "kcp_inv (fst (input_ack k' ts sn f m))" if "kcp_inv k'" for k' ts sn f m
    using that by (simp add: input_ack_def Let_def parse_ack_inv update_ack_inv)
  have probe: "kcp_inv (k'\<lparr>k_probe := p\<rparr>)" if "kcp_inv k'" for k' p
    by (rule kcp_inv_cong [OF that]) (simp_all add: kcp_inv_acks that)
  let ?k = "ikcp_shrink_buf (ikcp_parse_una (k\<lparr>k_rmt_wnd := ucast (sh_wnd h)\<rparr>) (sh_una h))"
  have push: "\<exists>k'. input_push malloc ?k h data = Some k' \<and> kcp_inv k'"
    by (rule input_push_inv [OF assms(1) una assms(3)])
  show ?thesis
    using ack [OF una, of "sh_ts h" "sh_sn h" flag maxack] push probe [OF una] una
    by (auto simp: input_cmd_def Let_def prod_eq_iff)
qed

lemma input_len_check:
  "\<not> (int n < c_long_of_u32 LONG_BITS len \<or> sint len < 0) \<Longrightarrow> unat len \<le> n"
proof -
  assume *: "\<not> (int n < c_long_of_u32 LONG_BITS len \<or> sint len < 0)"
  obtain l where l: "unat len = l" by simp
  have "l < 2 ^ 31" using * l sint32_neg_iff [of len] by linarith
  then have "sint len = int l" using l unfolding sint32_cases by simp
  then show ?thesis using * l by (simp add: LONG_BITS_def c_long_of_u32_32)
qed

definition input_outcome :: "int \<times> kcb + kcb \<times> bool \<times> u32 \<Rightarrow> kcb" where
  "input_outcome r = (case r of Inl (_, k) \<Rightarrow> k | Inr (k, _, _) \<Rightarrow> k)"

lemma input_loop_inv:
  assumes "\<forall>n. malloc n"
  shows "kcp_inv k \<Longrightarrow> \<exists>r. input_loop malloc k data flag maxack = Some r \<and> kcp_inv (input_outcome r) \<and>
    (\<forall>rc k'. r = Inl (rc, k') \<longrightarrow> rc \<in> {-1, -2, -3})"
  using assms
proof (induction malloc k data flag maxack rule: input_loop.induct)
  case (1 malloc k data flag maxack)
  show ?case
  proof (cases "int (length data) < sint IKCP_OVERHEAD")
    case True
    then show ?thesis using "1.prems" by (subst input_loop.simps) (simp add: input_outcome_def)
  next
    case False
    then have "24 \<le> length data" by (simp add: IKCP_OVERHEAD_def)
    then obtain h r where h: "decode_seg_header data = Some (h, r)" using kcp_hdr.dec_total by blast
    let ?len = "int (length r) < c_long_of_u32 LONG_BITS (sh_len h) \<or> sint (sh_len h) < 0"
    let ?cmd = "ucast (sh_cmd h) \<notin> {IKCP_CMD_PUSH, IKCP_CMD_ACK, IKCP_CMD_WASK, IKCP_CMD_WINS}"
    show ?thesis
    proof (cases "sh_conv h \<noteq> k_conv k \<or> ?len \<or> ?cmd")
      case True
      then show ?thesis using False h "1.prems"
        by (subst input_loop.simps) (auto simp: input_outcome_def)
    next
      case ok: False
      then have "unat (sh_len h) \<le> length r" using input_len_check by blast
      then obtain k' f m where k': "input_cmd malloc k h r flag maxack = Some (k', f, m)" "kcp_inv k'"
        using input_cmd_inv [OF "1.prems"(2,1)] by blast
      have "input_loop malloc k data flag maxack = input_loop malloc k' (drop (unat (sh_len h)) r) f m"
        using False h ok k'(1) by (subst input_loop.simps) simp
      moreover note "1.IH" [OF False h refl _ _ _ k'(1) refl refl k'(2) "1.prems"(2)]
      ultimately show ?thesis using ok by auto
    qed
  qed
qed

lemma input_cwnd_inv: "kcp_inv k \<Longrightarrow> kcp_inv (input_cwnd una k)"
  by (rule kcp_inv_cong [of k]) (simp_all add: input_cwnd_def Let_def kcp_inv_acks)

text \<open>Any bytes at all: a result code, no crash, and the invariant kept.\<close>

lemma input_inv [inv_intros]:
  assumes "\<forall>n. malloc n" "kcp_inv k"
  shows "\<exists>rc k'. ikcp_input malloc k data = Some (rc, k') \<and> kcp_inv k' \<and> rc \<in> {0, -1, -2, -3}"
proof -
  obtain r where r: "input_loop malloc k data False 0 = Some r" "kcp_inv (input_outcome r)"
    "\<forall>rc k'. r = Inl (rc, k') \<longrightarrow> rc \<in> {-1, -2, -3}"
    using input_loop_inv [OF assms] by blast
  show ?thesis
  proof (cases r)
    case (Inl e)
    then show ?thesis using r assms by (cases e) (auto simp: ikcp_input_def input_outcome_def)
  next
    case (Inr t)
    then show ?thesis
      using r assms input_cwnd_inv parse_fastack_inv
      by (cases t) (auto simp: ikcp_input_def input_outcome_def Let_def)
  qed
qed

end
