(* ===== verification/Kcp_Flush.thy ===== *)
theory Kcp_Flush
  imports Kcp_Input
begin

text \<open>
  \<open>ikcp_flush\<close>, \<open>ikcp_update\<close> and \<open>ikcp_check\<close> of \<^verbatim>\<open>ikcp.c\<close>.  The output buffer is written
  from its start: \<open>ptr\<close> is what lies in it, and the datagrams handed to the output callback
  are collected in order.  A write that leaves the allocation is \<open>None\<close>, so that \<open>None\<close>
  never being reached is the memory safety of the flush.
\<close>

section \<open>Output\<close>

type_synonym out_state = "bytes list \<times> bytes"

definition ikcp_output :: "kcb \<Rightarrow> bytes \<Rightarrow> bytes list \<Rightarrow> bytes list option" where
  "ikcp_output k data outs =
     (if \<not> k_output k then None
      else if length data = 0 then Some outs
      else Some (outs @ [data]))"

definition flush_room :: "kcb \<Rightarrow> int \<Rightarrow> out_state \<Rightarrow> out_state option" where
  "flush_room k need st =
     (case st of (outs, ptr) \<Rightarrow>
        if int (length ptr) + need > sint (k_mtu k)
        then map_option (\<lambda>outs. (outs, [])) (ikcp_output k ptr outs)
        else Some (outs, ptr))"

definition buf_store :: "kcb \<Rightarrow> bytes \<Rightarrow> out_state \<Rightarrow> out_state option" where
  "buf_store k bs st =
     (case st of (outs, ptr) \<Rightarrow>
        if length ptr + length bs \<le> k_bufsize k then Some (outs, ptr @ bs) else None)"

definition emit_header :: "kcb \<Rightarrow> kseg \<Rightarrow> out_state \<Rightarrow> out_state option" where
  "emit_header k seg st = do {
     st \<leftarrow> flush_room k (sint IKCP_OVERHEAD) st;
     buf_store k (ikcp_encode_seg [] seg) st
   }"

section \<open>Flush\<close>

definition flush_template :: "kcb \<Rightarrow> kseg" where
  "flush_template k = seg_blank\<lparr>sg_conv := k_conv k, sg_cmd := IKCP_CMD_ACK, sg_frg := 0,
     sg_wnd := ikcp_wnd_unused k, sg_una := k_rcv_nxt k, sg_len := 0, sg_sn := 0, sg_ts := 0\<rparr>"

fun flush_acks :: "kcb \<Rightarrow> nat list \<Rightarrow> kseg \<Rightarrow> out_state \<Rightarrow> (kseg \<times> out_state) option" where
  "flush_acks k [] seg st = Some (seg, st)"
| "flush_acks k (i # is) seg st =
     (let (sn, ts) = ikcp_ack_get k i;
          seg = seg\<lparr>sg_sn := sn, sg_ts := ts\<rparr>
      in Option.bind (emit_header k seg st) (flush_acks k is seg))"

definition flush_probe :: "kcb \<Rightarrow> kcb" where
  "flush_probe k =
     (if k_rmt_wnd k = 0 then
        (if k_probe_wait k = 0 then
           k\<lparr>k_probe_wait := IKCP_PROBE_INIT, k_ts_probe := k_current k + IKCP_PROBE_INIT\<rparr>
         else if itimediff (k_current k) (k_ts_probe k) \<ge> 0 then
           let w = (if k_probe_wait k < IKCP_PROBE_INIT then IKCP_PROBE_INIT else k_probe_wait k);
               w = w + w div 2;
               w = (if w > IKCP_PROBE_LIMIT then IKCP_PROBE_LIMIT else w)
           in k\<lparr>k_probe_wait := w, k_ts_probe := k_current k + w, k_probe := k_probe k OR IKCP_ASK_SEND\<rparr>
         else k)
      else k\<lparr>k_ts_probe := 0, k_probe_wait := 0\<rparr>)"

definition flush_wins :: "kcb \<Rightarrow> kseg \<Rightarrow> out_state \<Rightarrow> out_state option" where
  "flush_wins k seg st = do {
     st \<leftarrow> (if k_probe k AND IKCP_ASK_SEND \<noteq> 0
           then emit_header k (seg\<lparr>sg_cmd := IKCP_CMD_WASK\<rparr>) st else Some st);
     (if k_probe k AND IKCP_ASK_TELL \<noteq> 0
      then emit_header k (seg\<lparr>sg_cmd := IKCP_CMD_WINS\<rparr>) st else Some st)
   }"

definition flush_cwnd :: "kcb \<Rightarrow> u32" where
  "flush_cwnd k =
     (let cwnd = imin (k_snd_wnd k) (k_rmt_wnd k)
      in if k_nocwnd k = 0 then imin (k_cwnd k) cwnd else cwnd)"

definition stage_segment :: "u32 \<Rightarrow> kseg \<Rightarrow> kseg list \<Rightarrow> kcb \<Rightarrow> kcb" where
  "stage_segment wnd newseg rest k =
     k\<lparr>k_snd_queue := rest,
       k_snd_buf := k_snd_buf k @
         [newseg\<lparr>sg_conv := k_conv k, sg_cmd := IKCP_CMD_PUSH, sg_wnd := wnd, sg_ts := k_current k,
                 sg_sn := k_snd_nxt k, sg_una := k_rcv_nxt k, sg_resendts := k_current k,
                 sg_rto := k_rx_rto k, sg_fastack := 0, sg_xmit := 0\<rparr>],
       k_nsnd_que := k_nsnd_que k - 1, k_nsnd_buf := k_nsnd_buf k + 1,
       k_snd_nxt := k_snd_nxt k + 1\<rparr>"

function flush_move :: "u32 \<Rightarrow> u32 \<Rightarrow> kcb \<Rightarrow> kcb" where
  "flush_move wnd cwnd k =
     (if itimediff (k_snd_nxt k) (k_snd_una k + cwnd) < 0 then
        (case k_snd_queue k of
           [] \<Rightarrow> k
         | newseg # rest \<Rightarrow> flush_move wnd cwnd (stage_segment wnd newseg rest k))
      else k)"
  by pat_completeness auto
termination by (relation "measure (\<lambda>(_, _, k). length (k_snd_queue k))") (auto simp: stage_segment_def)

declare flush_move.simps [simp del]

record flush_flags =
  fl_lost :: bool
  fl_change :: nat
  fl_xmit :: u32
  fl_state :: u32

text \<open>
  The decision for one segment: whether it is sent, its new timers, and what the flush as a
  whole notes.
\<close>

definition flush_decide :: "kcb \<Rightarrow> u32 \<Rightarrow> u32 \<Rightarrow> kseg \<Rightarrow> flush_flags \<Rightarrow> bool \<times> kseg \<times> flush_flags" where
  "flush_decide k resent rtomin s fl =
     (let current = k_current k in
      if sg_xmit s = 0 then
        (True, s\<lparr>sg_xmit := sg_xmit s + 1, sg_rto := k_rx_rto k,
                 sg_resendts := current + k_rx_rto k + rtomin\<rparr>, fl)
      else if itimediff current (sg_resendts s) \<ge> 0 then
        let rto = (if k_nodelay k = 0 then sg_rto s + k_rx_rto k
                   else sg_rto s + sdiv32 (k_rx_rto k) 2)
        in (True, s\<lparr>sg_xmit := sg_xmit s + 1, sg_rto := rto, sg_resendts := current + rto\<rparr>,
            fl\<lparr>fl_xmit := fl_xmit fl + 1, fl_lost := True\<rparr>)
      else if sg_fastack s \<ge> resent then
        (True, s\<lparr>sg_xmit := sg_xmit s + 1, sg_fastack := 0, sg_resendts := current + sg_rto s\<rparr>,
         fl\<lparr>fl_change := fl_change fl + 1\<rparr>)
      else (False, s, fl))"

definition flush_send :: "kcb \<Rightarrow> u32 \<Rightarrow> kseg \<Rightarrow> out_state \<Rightarrow> (kseg \<times> out_state) option" where
  "flush_send k wnd s st = do {
     let s = s\<lparr>sg_ts := k_current k, sg_wnd := wnd, sg_una := k_rcv_nxt k\<rparr>;
     st \<leftarrow> flush_room k (sint (IKCP_OVERHEAD + sg_len s)) st;
     st \<leftarrow> buf_store k (ikcp_encode_seg [] s) st;
     st \<leftarrow> (if sg_len s > 0 then buf_store k (take (unat (sg_len s)) (sg_data s)) st else Some st);
     Some (s, st)
   }"

fun flush_segs :: "kcb \<Rightarrow> u32 \<Rightarrow> u32 \<Rightarrow> u32 \<Rightarrow> kseg list \<Rightarrow> flush_flags \<Rightarrow> out_state \<Rightarrow>
    (kseg list \<times> flush_flags \<times> out_state) option" where
  "flush_segs k wnd resent rtomin [] fl st = Some ([], fl, st)"
| "flush_segs k wnd resent rtomin (s # ss) fl st =
     (let (needsend, s, fl) = flush_decide k resent rtomin s fl in
      if needsend then do {
        (s, st) \<leftarrow> flush_send k wnd s st;
        let fl = (if sg_xmit s \<ge> k_dead_link k then fl\<lparr>fl_state := -1\<rparr> else fl);
        (ss, fl, st) \<leftarrow> flush_segs k wnd resent rtomin ss fl st;
        Some (s # ss, fl, st)
      } else do {
        (ss, fl, st) \<leftarrow> flush_segs k wnd resent rtomin ss fl st;
        Some (s # ss, fl, st)
      })"

definition flush_ssthresh :: "u32 \<Rightarrow> u32 \<Rightarrow> flush_flags \<Rightarrow> kcb \<Rightarrow> kcb" where
  "flush_ssthresh cwnd resent fl k =
     (let k = (if fl_change fl \<noteq> 0 then
                 let inflight = k_snd_nxt k - k_snd_una k;
                     th = (if inflight div 2 < IKCP_THRESH_MIN then IKCP_THRESH_MIN else inflight div 2)
                 in k\<lparr>k_ssthresh := th, k_cwnd := th + resent, k_incr := (th + resent) * k_mss k\<rparr>
               else k);
          k = (if fl_lost fl then
                 let th = (if cwnd div 2 < IKCP_THRESH_MIN then IKCP_THRESH_MIN else cwnd div 2)
                 in k\<lparr>k_ssthresh := th, k_cwnd := 1, k_incr := k_mss k\<rparr>
               else k)
      in if k_cwnd k < 1 then k\<lparr>k_cwnd := 1, k_incr := k_mss k\<rparr> else k)"

definition flush_resent :: "kcb \<Rightarrow> u32" where
  "flush_resent k = (if k_fastresend k > 0 then word_of_int (k_fastresend k) else 0xffffffff)"

definition flush_rtomin :: "kcb \<Rightarrow> u32" where
  "flush_rtomin k = (if k_nodelay k = 0 then signed_drop_bit 3 (k_rx_rto k) else 0)"

definition ikcp_flush :: "kcb \<Rightarrow> (kcb \<times> bytes list) option" where
  "ikcp_flush k =
     (if k_updated k = 0 then Some (k, [])
      else do {
        let seg = flush_template k;
        (seg, st) \<leftarrow> flush_acks k [0 ..< k_ackcount k] seg ([], []);
        let k = k\<lparr>k_ackcount := 0\<rparr>;
        let k = flush_probe k;
        st \<leftarrow> flush_wins k seg st;
        let k = k\<lparr>k_probe := 0\<rparr>;
        let cwnd = flush_cwnd k;
        let k = flush_move (sg_wnd seg) cwnd k;
        let resent = flush_resent k;
        (ss, fl, st) \<leftarrow> flush_segs k (sg_wnd seg) resent (flush_rtomin k) (k_snd_buf k)
          \<lparr>fl_lost = False, fl_change = 0, fl_xmit = k_xmit k, fl_state = k_state k\<rparr> st;
        let k = k\<lparr>k_snd_buf := ss, k_xmit := fl_xmit fl, k_state := fl_state fl\<rparr>;
        outs \<leftarrow> (if length (snd st) > 0 then ikcp_output k (snd st) (fst st) else Some (fst st));
        Some (flush_ssthresh cwnd resent fl k, outs)
      })"

section \<open>Update and check\<close>

definition ikcp_update :: "kcb \<Rightarrow> u32 \<Rightarrow> (kcb \<times> bytes list) option" where
  "ikcp_update k current =
     (let k = k\<lparr>k_current := current\<rparr>;
          k = (if k_updated k = 0 then k\<lparr>k_updated := 1, k_ts_flush := current\<rparr> else k);
          slap = itimediff current (k_ts_flush k);
          (k, slap) = (if slap \<ge> 10000 \<or> slap < -10000 then (k\<lparr>k_ts_flush := current\<rparr>, 0) else (k, slap))
      in if slap \<ge> 0 then
           let k = k\<lparr>k_ts_flush := k_ts_flush k + k_interval k\<rparr>;
               k = (if itimediff current (k_ts_flush k) \<ge> 0
                    then k\<lparr>k_ts_flush := current + k_interval k\<rparr> else k)
           in ikcp_flush k
         else Some (k, []))"

fun check_packets :: "u32 \<Rightarrow> kseg list \<Rightarrow> int \<Rightarrow> int option" where
  "check_packets current [] tm_packet = Some tm_packet"
| "check_packets current (s # ss) tm_packet =
     (let diff = itimediff (sg_resendts s) current in
      if diff \<le> 0 then None
      else check_packets current ss (if diff < tm_packet then diff else tm_packet))"

definition ikcp_check :: "kcb \<Rightarrow> u32 \<Rightarrow> u32" where
  "ikcp_check k current =
     (if k_updated k = 0 then current
      else
        let ts_flush = (if itimediff current (k_ts_flush k) \<ge> 10000 \<or>
                           itimediff current (k_ts_flush k) < -10000
                        then current else k_ts_flush k) in
        if itimediff current ts_flush \<ge> 0 then current
        else
          let tm_flush = itimediff ts_flush current in
          case check_packets current (k_snd_buf k) 0x7fffffff of
            None \<Rightarrow> current
          | Some tm_packet \<Rightarrow>
              let minimal = word_of_int (if tm_packet < tm_flush then tm_packet else tm_flush);
                  minimal = (if minimal \<ge> k_interval k then k_interval k else minimal)
              in current + minimal)"

lemmas [kcp_defs] = ikcp_flush_def ikcp_update_def ikcp_check_def flush_template_def flush_probe_def
  flush_wins_def flush_cwnd_def flush_decide_def flush_send_def flush_room_def buf_store_def
  ikcp_output_def emit_header_def flush_ssthresh_def flush_resent_def flush_rtomin_def

section \<open>Output stays inside the datagram and the buffer\<close>

text \<open>
  \<open>out_ok m st\<close>: what lies in the buffer and every datagram sent so far fits \<open>m\<close> bytes, and
  what is there begins with a whole header.  \<open>emitted\<close> is everything written, in order.
\<close>

definition out_ok :: "nat \<Rightarrow> out_state \<Rightarrow> bool" where
  "out_ok m st \<longleftrightarrow> length (snd st) \<le> m \<and> (snd st = [] \<or> 24 \<le> length (snd st)) \<and>
     (\<forall>p \<in> set (fst st). 24 \<le> length p \<and> length p \<le> m)"

definition emitted :: "out_state \<Rightarrow> bytes" where
  "emitted st = concat (fst st) @ snd st"

definition seg_bytes :: "kseg \<Rightarrow> bytes" where
  "seg_bytes s = enc_header (header_of_seg s) @ sg_data s"

lemma out_ok_init [simp]: "out_ok m ([], [])" "emitted ([], []) = []"
  by (simp_all add: out_ok_def emitted_def)

lemma config_mtu:
  assumes "config_ok k"
  obtains m where "unat (k_mtu k) = m" "sint (k_mtu k) = int m" "50 \<le> m" "m < 2 ^ 28"
    "k_bufsize k = 3 * (m + 24)" "unat (k_mss k) = m - 24" "sint (k_mss k) = int m - 24"
proof -
  obtain m where m: "unat (k_mtu k) = m" by simp
  have b: "50 \<le> m" "m < 2 ^ 28" using assms m by (simp_all add: config_ok_def)
  have s: "sint (k_mtu k) = int m" using m b unfolding sint32_cases by simp
  have mss: "unat (k_mss k) = m - 24"
    using assms m b by (simp add: config_ok_def unat_sub32 IKCP_OVERHEAD_def)
  moreover have "sint (k_mss k) = int m - 24" using mss b unfolding sint32_cases by simp
  moreover have "k_bufsize k = 3 * (m + 24)" using assms m b buffer_size_eq by (simp add: config_ok_def)
  ultimately show ?thesis using that m s b by blast
qed

lemma flush_room_ok:
  assumes "k_output k" "out_ok m st" "sint (k_mtu k) = int m" "n \<le> m"
  shows "\<exists>st'. flush_room k (int n) st = Some st' \<and> out_ok m st' \<and> length (snd st') + n \<le> m \<and>
     emitted st' = emitted st"
proof -
  obtain outs ptr where st: "st = (outs, ptr)" by fastforce
  show ?thesis
  proof (cases "length ptr + n > m")
    case True
    then have "flush_room k (int n) st = Some (if ptr = [] then outs else outs @ [ptr], [])"
      using st assms(1,3) by (simp add: flush_room_def ikcp_output_def)
    then show ?thesis using assms st by (auto simp: out_ok_def emitted_def)
  next
    case False
    then have "flush_room k (int n) st = Some st" using st assms(3) by (simp add: flush_room_def)
    then show ?thesis using False assms(2) st by simp
  qed
qed

lemma buf_store_ok:
  assumes "out_ok m st" "length (snd st) + length bs \<le> m" "m \<le> k_bufsize k"
    "24 \<le> length (snd st) + length bs"
  shows "\<exists>st'. buf_store k bs st = Some st' \<and> out_ok m st' \<and> length (snd st') = length (snd st) + length bs \<and>
     emitted st' = emitted st @ bs"
  using assms by (cases st) (auto simp: buf_store_def out_ok_def emitted_def)

lemma emit_header_ok:
  assumes "config_ok k" "k_output k" "out_ok (unat (k_mtu k)) st"
  shows "\<exists>st'. emit_header k seg st = Some st' \<and> out_ok (unat (k_mtu k)) st' \<and>
     emitted st' = emitted st @ enc_header (header_of_seg seg)"
proof -
  obtain m where m: "unat (k_mtu k) = m" "sint (k_mtu k) = int m" "50 \<le> m" "k_bufsize k = 3 * (m + 24)"
    using config_mtu [OF assms(1)] by metis
  obtain st1 where st1: "flush_room k (int 24) st = Some st1" "out_ok m st1"
    "length (snd st1) + 24 \<le> m" "emitted st1 = emitted st"
    using flush_room_ok [OF assms(2), of m st 24] assms(3) m by auto
  have "length (ikcp_encode_seg [] seg) = 24" by (simp add: encode_seg_eq kcp_hdr.enc_width)
  then obtain st2 where "buf_store k (ikcp_encode_seg [] seg) st1 = Some st2" "out_ok m st2"
    "emitted st2 = emitted st1 @ ikcp_encode_seg [] seg"
    using buf_store_ok [of m st1 "ikcp_encode_seg [] seg" k] st1 m by auto
  then show ?thesis using st1 m by (simp add: emit_header_def IKCP_OVERHEAD_def encode_seg_eq)
qed

lemma flush_send_ok:
  assumes "config_ok k" "k_output k" "out_ok (unat (k_mtu k)) st" "seg_ok s" "sg_len s \<le> k_mss k"
  shows "\<exists>st'. flush_send k wnd s st =
      Some (s\<lparr>sg_ts := k_current k, sg_wnd := wnd, sg_una := k_rcv_nxt k\<rparr>, st') \<and>
    out_ok (unat (k_mtu k)) st' \<and>
    emitted st' = emitted st @ seg_bytes (s\<lparr>sg_ts := k_current k, sg_wnd := wnd, sg_una := k_rcv_nxt k\<rparr>)"
proof -
  obtain m where m: "unat (k_mtu k) = m" "sint (k_mtu k) = int m" "50 \<le> m" "m < 2 ^ 28"
    "k_bufsize k = 3 * (m + 24)" "unat (k_mss k) = m - 24" using config_mtu [OF assms(1)] by metis
  let ?s = "s\<lparr>sg_ts := k_current k, sg_wnd := wnd, sg_una := k_rcv_nxt k\<rparr>"
  obtain l where l: "unat (sg_len s) = l" "l + 24 \<le> m"
    using assms(5) m by (simp add: word_le_nat_alt)
  have "unat (IKCP_OVERHEAD + sg_len s) = 24 + l"
    using l m(4) by (subst unat_add_lem [THEN iffD1]) (simp_all add: IKCP_OVERHEAD_def)
  then have need: "sint (IKCP_OVERHEAD + sg_len s) = int (24 + l)" using l m(4) unfolding sint32_cases by simp
  obtain st1 where st1: "flush_room k (int (24 + l)) st = Some st1" "out_ok m st1"
    "length (snd st1) + (24 + l) \<le> m" "emitted st1 = emitted st"
    using flush_room_ok [OF assms(2), of m st "24 + l"] assms(3) m l by auto
  have hl: "length (ikcp_encode_seg [] ?s) = 24" by (simp add: encode_seg_eq kcp_hdr.enc_width)
  then obtain st2 where st2: "buf_store k (ikcp_encode_seg [] ?s) st1 = Some st2" "out_ok m st2"
    "length (snd st2) = length (snd st1) + 24" "emitted st2 = emitted st1 @ ikcp_encode_seg [] ?s"
    using buf_store_ok [of m st1 "ikcp_encode_seg [] ?s" k] st1 m by auto
  have dl: "length (sg_data s) = l" using assms(4) l by (simp add: seg_ok_def)
  then obtain st3 where st3: "buf_store k (sg_data s) st2 = Some st3" "out_ok m st3"
    "emitted st3 = emitted st2 @ sg_data s"
    using buf_store_ok [of m st2 "sg_data s" k] st1 st2 m by auto
  have last: "(if sg_len s > 0 then buf_store k (take (unat (sg_len s)) (sg_data s)) st2 else Some st2) = Some st3"
  proof (cases "sg_len s > 0")
    case True
    then show ?thesis using st3(1) dl l by simp
  next
    case False
    then have "sg_data s = []" using dl l by (simp add: word_less_nat_alt)
    then have "st3 = st2" using st3(1) by (cases st2) (auto simp: buf_store_def split: if_splits)
    then show ?thesis using False by simp
  qed
  have sel: "sg_len ?s = sg_len s" "sg_data ?s = sg_data s" by simp_all
  have "flush_send k wnd s st = Some (?s, st3)"
    unfolding flush_send_def Let_def
    by (simp only: sel need st1(1) st2(1) last Option.bind.bind_lunit)
  then show ?thesis using st1 st2 st3 m by (simp add: seg_bytes_def encode_seg_eq)
qed

section \<open>The phases of a flush\<close>

text \<open>The acknowledgement segments that a flush sends, in the order they were queued.\<close>

definition ack_bytes :: "kcb \<Rightarrow> bytes" where
  "ack_bytes k = concat (map (\<lambda>(sn, ts). enc_header (header_of_seg
     ((flush_template k)\<lparr>sg_sn := sn, sg_ts := ts\<rparr>))) (pending_acks k))"

lemma flush_acks_ok:
  assumes "config_ok k" "k_output k"
  shows "out_ok (unat (k_mtu k)) st \<Longrightarrow> \<exists>seg' st'. flush_acks k is seg st = Some (seg', st') \<and>
    out_ok (unat (k_mtu k)) st' \<and> seg' = seg\<lparr>sg_sn := sg_sn seg', sg_ts := sg_ts seg'\<rparr> \<and>
    emitted st' = emitted st @ concat (map (\<lambda>i. enc_header (header_of_seg
      (seg\<lparr>sg_sn := fst (ikcp_ack_get k i), sg_ts := snd (ikcp_ack_get k i)\<rparr>))) is)"
proof (induction "is" arbitrary: seg st)
  case Nil
  then show ?case by simp
next
  case (Cons i "is")
  obtain sn ts where g: "ikcp_ack_get k i = (sn, ts)" by fastforce
  let ?seg = "seg\<lparr>sg_sn := sn, sg_ts := ts\<rparr>"
  obtain st1 where st1: "emit_header k ?seg st = Some st1" "out_ok (unat (k_mtu k)) st1"
    "emitted st1 = emitted st @ enc_header (header_of_seg ?seg)"
    using emit_header_ok [OF assms Cons.prems] by blast
  obtain seg' st' where r: "flush_acks k is ?seg st1 = Some (seg', st')" "out_ok (unat (k_mtu k)) st'"
    "seg' = ?seg\<lparr>sg_sn := sg_sn seg', sg_ts := sg_ts seg'\<rparr>"
    "emitted st' = emitted st1 @ concat (map (\<lambda>i. enc_header (header_of_seg
      (?seg\<lparr>sg_sn := fst (ikcp_ack_get k i), sg_ts := snd (ikcp_ack_get k i)\<rparr>))) is)"
    using Cons.IH [OF st1(2), of ?seg] by blast
  have "seg' = seg\<lparr>sg_sn := sg_sn seg', sg_ts := sg_ts seg'\<rparr>"
    using arg_cong [OF r(3), of "\<lambda>x. x"] by simp
  then show ?case using st1 g r(1,2,4) by simp
qed

lemma flush_acks_bytes:
  assumes "k_ackcount k \<le> length (k_acklist k)"
  shows "concat (map (\<lambda>i. enc_header (header_of_seg ((flush_template k)
      \<lparr>sg_sn := fst (ikcp_ack_get k i), sg_ts := snd (ikcp_ack_get k i)\<rparr>))) [0 ..< k_ackcount k]) = ack_bytes k"
proof -
  have "pending_acks k = map (\<lambda>i. ikcp_ack_get k i) [0 ..< k_ackcount k]"
    using assms by (intro nth_equalityI) (simp_all add: pending_acks_def ikcp_ack_get_def)
  then show ?thesis by (simp add: ack_bytes_def o_def case_prod_beta)
qed

text \<open>A flush reports the window when asked for it, and asks for the peer's when it is shut.\<close>

definition probe_bytes :: "kcb \<Rightarrow> kseg \<Rightarrow> bytes" where
  "probe_bytes k seg =
     (if k_probe k AND IKCP_ASK_SEND \<noteq> 0 then enc_header (header_of_seg (seg\<lparr>sg_cmd := IKCP_CMD_WASK\<rparr>)) else []) @
     (if k_probe k AND IKCP_ASK_TELL \<noteq> 0 then enc_header (header_of_seg (seg\<lparr>sg_cmd := IKCP_CMD_WINS\<rparr>)) else [])"

lemma emit_if_ok:
  assumes "config_ok k" "k_output k" "out_ok (unat (k_mtu k)) st"
  shows "\<exists>st'. (if c then emit_header k seg st else Some st) = Some st' \<and> out_ok (unat (k_mtu k)) st' \<and>
     emitted st' = emitted st @ (if c then enc_header (header_of_seg seg) else [])"
  using emit_header_ok [OF assms, of seg] assms(3) by (cases c) auto

lemma flush_wins_ok:
  assumes "config_ok k" "k_output k" "out_ok (unat (k_mtu k)) st"
  shows "\<exists>st'. flush_wins k seg st = Some st' \<and> out_ok (unat (k_mtu k)) st' \<and>
     emitted st' = emitted st @ probe_bytes k seg"
proof -
  obtain st1 where st1: "(if k_probe k AND IKCP_ASK_SEND \<noteq> 0
      then emit_header k (seg\<lparr>sg_cmd := IKCP_CMD_WASK\<rparr>) st else Some st) = Some st1"
    "out_ok (unat (k_mtu k)) st1" "emitted st1 = emitted st @
      (if k_probe k AND IKCP_ASK_SEND \<noteq> 0 then enc_header (header_of_seg (seg\<lparr>sg_cmd := IKCP_CMD_WASK\<rparr>)) else [])"
    using emit_if_ok [OF assms, of _ "seg\<lparr>sg_cmd := IKCP_CMD_WASK\<rparr>"] by blast
  obtain st2 where "(if k_probe k AND IKCP_ASK_TELL \<noteq> 0
      then emit_header k (seg\<lparr>sg_cmd := IKCP_CMD_WINS\<rparr>) st1 else Some st1) = Some st2"
    "out_ok (unat (k_mtu k)) st2" "emitted st2 = emitted st1 @
      (if k_probe k AND IKCP_ASK_TELL \<noteq> 0 then enc_header (header_of_seg (seg\<lparr>sg_cmd := IKCP_CMD_WINS\<rparr>)) else [])"
    using emit_if_ok [OF assms(1,2) st1(2), of _ "seg\<lparr>sg_cmd := IKCP_CMD_WINS\<rparr>"] by blast
  then show ?thesis using st1 by (simp add: flush_wins_def probe_bytes_def)
qed

subsection \<open>Segments due\<close>

definition due :: "kcb \<Rightarrow> u32 \<Rightarrow> kseg \<Rightarrow> bool" where
  "due k resent s \<longleftrightarrow> sg_xmit s = 0 \<or> itimediff (k_current k) (sg_resendts s) \<ge> 0 \<or> sg_fastack s \<ge> resent"

lemma flush_decide_spec:
  assumes "flush_decide k resent rtomin s fl = (b, s', fl')"
  shows "b = due k resent s" "sg_sn s' = sg_sn s" "sg_len s' = sg_len s" "sg_data s' = sg_data s"
    "sg_frg s' = sg_frg s" "sg_conv s' = sg_conv s" "sg_cmd s' = sg_cmd s" "\<not> b \<Longrightarrow> s' = s"
  using assms by (auto simp: flush_decide_def due_def Let_def split: if_splits)

definition sent_segs :: "kcb \<Rightarrow> u32 \<Rightarrow> kseg list \<Rightarrow> kseg list \<Rightarrow> kseg list" where
  "sent_segs k resent before after = map snd (filter (\<lambda>(s, _). due k resent s) (zip before after))"

lemma flush_segs_ok:
  assumes "config_ok k" "k_output k"
  shows "out_ok (unat (k_mtu k)) st \<Longrightarrow> \<forall>s \<in> set ss. seg_ok s \<and> sg_len s \<le> k_mss k \<Longrightarrow>
    \<exists>ss' fl' st'. flush_segs k wnd resent rtomin ss fl st = Some (ss', fl', st') \<and>
      out_ok (unat (k_mtu k)) st' \<and> same_content ss' ss \<and>
      emitted st' = emitted st @ concat (map seg_bytes (sent_segs k resent ss ss'))"
proof (induction ss arbitrary: fl st)
  case Nil
  then show ?case by (simp add: same_content_def sent_segs_def)
next
  case (Cons s ss)
  obtain b s1 fl1 where d: "flush_decide k resent rtomin s fl = (b, s1, fl1)" by (metis prod_cases3)
  note ds = flush_decide_spec [OF d]
  show ?case
  proof (cases b)
    case True
    let ?s = "s1\<lparr>sg_ts := k_current k, sg_wnd := wnd, sg_una := k_rcv_nxt k\<rparr>"
    let ?fl = "if sg_xmit ?s \<ge> k_dead_link k then fl1\<lparr>fl_state := -1\<rparr> else fl1"
    have "seg_ok s1" "sg_len s1 \<le> k_mss k" using Cons.prems(2) ds by (simp_all add: seg_ok_def)
    then obtain st1 where st1: "flush_send k wnd s1 st = Some (?s, st1)" "out_ok (unat (k_mtu k)) st1"
      "emitted st1 = emitted st @ seg_bytes ?s"
      using flush_send_ok [OF assms Cons.prems(1)] by blast
    obtain ss' fl' st' where r: "flush_segs k wnd resent rtomin ss ?fl st1 = Some (ss', fl', st')"
      "out_ok (unat (k_mtu k)) st'" "same_content ss' ss"
      "emitted st' = emitted st1 @ concat (map seg_bytes (sent_segs k resent ss ss'))"
      using Cons.IH [OF st1(2), of ?fl] Cons.prems(2) by auto
    have "flush_segs k wnd resent rtomin (s # ss) fl st = Some (?s # ss', fl', st')"
      using d True st1(1) r(1) by (simp add: Let_def)
    moreover have "same_content (?s # ss') (s # ss)" using r(3) ds by (simp add: same_content_def)
    moreover have "emitted st' = emitted st @ concat (map seg_bytes (sent_segs k resent (s # ss) (?s # ss')))"
      using r(4) st1(3) ds(1) True by (simp add: sent_segs_def)
    ultimately show ?thesis using r(2) by blast
  next
    case False
    obtain ss' fl' st' where r: "flush_segs k wnd resent rtomin ss fl1 st = Some (ss', fl', st')"
      "out_ok (unat (k_mtu k)) st'" "same_content ss' ss"
      "emitted st' = emitted st @ concat (map seg_bytes (sent_segs k resent ss ss'))"
      using Cons.IH [OF Cons.prems(1), of fl1] Cons.prems(2) by auto
    have "flush_segs k wnd resent rtomin (s # ss) fl st = Some (s # ss', fl', st')"
      using d False ds(8) r(1) by (simp add: Let_def)
    moreover have "same_content (s # ss') (s # ss)" using r(3) by (simp add: same_content_def)
    moreover have "emitted st' = emitted st @ concat (map seg_bytes (sent_segs k resent (s # ss) (s # ss')))"
      using r(4) ds(1) False by (simp add: sent_segs_def)
    ultimately show ?thesis using r(2) by blast
  qed
qed

subsection \<open>The send window\<close>

lemma move_guard:
  assumes "snd_ok k" "unat cwnd < 2 ^ 31"
  shows "itimediff (k_snd_nxt k) (k_snd_una k + cwnd) < 0 \<longleftrightarrow> off (k_snd_una k) (k_snd_nxt k) < unat cwnd"
proof -
  obtain c where c: "unat cwnd = c" by simp
  then have "off (k_snd_una k) (k_snd_una k + cwnd) = c" by (simp add: off_def)
  then have "sint (k_snd_nxt k - (k_snd_una k + cwnd)) = int (off (k_snd_una k) (k_snd_nxt k)) - int c"
    using sint_diff_off [of "k_snd_una k" "k_snd_nxt k" "k_snd_una k + cwnd"] assms c by (simp add: snd_ok_def)
  then show ?thesis using c by simp
qed

lemma snd_buf_bound: "snd_ok k \<Longrightarrow> length (k_snd_buf k) \<le> off (k_snd_una k) (k_snd_nxt k)"
  using strict_sorted_below_length [of "map (\<lambda>s. off (k_snd_una k) (sg_sn s)) (k_snd_buf k)"]
  by (auto simp: snd_ok_def sorted_from_def)

lemma off_next: "off b s < 2 ^ 31 \<Longrightarrow> off b (s + 1) = off b s + 1"
proof -
  assume "off b s < 2 ^ 31"
  then have "unat (s - b + 1) = unat (s - b) + 1" by (intro unat_Suc32) (simp add: off_def)
  moreover have "s + 1 - b = s - b + 1" by simp
  ultimately show ?thesis by (simp only: off_def)
qed

lemma stage_segment_inv:
  assumes "kcp_inv k" "k_snd_queue k = seg # rest" "off (k_snd_una k) (k_snd_nxt k) < n" "n < 2 ^ 31"
  shows "kcp_inv (stage_segment wnd seg rest k)"
    "off (k_snd_una k) (k_snd_nxt (stage_segment wnd seg rest k)) = off (k_snd_una k) (k_snd_nxt k) + 1"
proof -
  let ?k = "stage_segment wnd seg rest k" and ?b = "k_snd_una k"
  have inv: "recv_inv k" "snd_ok k" "snd_fits k" using assms(1) by (simp_all add: kcp_inv_def)
  have d: "off ?b (k_snd_nxt k + 1) = off ?b (k_snd_nxt k) + 1" using assms(3,4) by (intro off_next) simp
  show nx: "off ?b (k_snd_nxt ?k) = off ?b (k_snd_nxt k) + 1" using d by (simp add: stage_segment_def)
  have "unat (k_nsnd_que k) = Suc (length rest)" using inv(1) assms(2) by (simp add: recv_inv_defs)
  then have nq: "unat (k_nsnd_que k - 1) = length rest" by (subst unat_minus_one) auto
  have nb: "unat (k_nsnd_buf k + 1) = unat (k_nsnd_buf k) + 1"
    using snd_buf_bound [OF inv(2)] assms(3,4) inv(1) by (intro unat_Suc32) (simp add: recv_inv_defs)
  have "recv_inv ?k" using inv(1) nq nb assms(2) by (auto simp: stage_segment_def recv_inv_defs seg_ok_def)
  moreover have "snd_ok ?k"
    using inv(2) d assms(3,4)
    by (auto simp: snd_ok_def stage_segment_def sorted_from_def sorted_wrt_append less_Suc_eq)
  moreover have "snd_fits ?k" using inv(3) assms(2) by (auto simp: snd_fits_def stage_segment_def)
  ultimately show "kcp_inv ?k" by (intro kcp_invI)
qed

text \<open>What staging leaves alone.\<close>

definition same_side :: "kcb \<Rightarrow> kcb \<Rightarrow> bool" where
  "same_side k k' \<longleftrightarrow> k' = k\<lparr>k_snd_queue := k_snd_queue k', k_snd_buf := k_snd_buf k',
     k_nsnd_que := k_nsnd_que k', k_nsnd_buf := k_nsnd_buf k', k_snd_nxt := k_snd_nxt k'\<rparr>"

lemma same_side_stage: "same_side (stage_segment wnd seg rest k) k' \<Longrightarrow> same_side k k'"
  unfolding same_side_def stage_segment_def by simp

lemma flush_move_inv:
  assumes "unat cwnd < 2 ^ 31"
  shows "kcp_inv k \<Longrightarrow> kcp_inv (flush_move wnd cwnd k) \<and> same_side k (flush_move wnd cwnd k) \<and>
    off (k_snd_una k) (k_snd_nxt (flush_move wnd cwnd k)) \<le> max (off (k_snd_una k) (k_snd_nxt k)) (unat cwnd) \<and>
    map sg_data (k_snd_buf (flush_move wnd cwnd k)) @ map sg_data (k_snd_queue (flush_move wnd cwnd k)) =
      map sg_data (k_snd_buf k) @ map sg_data (k_snd_queue k)"
  using assms
proof (induction wnd cwnd k rule: flush_move.induct)
  case (1 wnd cwnd k)
  have ok: "snd_ok k" using "1.prems"(1) by (simp add: kcp_inv_def)
  show ?case
  proof (cases "itimediff (k_snd_nxt k) (k_snd_una k + cwnd) < 0 \<and> k_snd_queue k \<noteq> []")
    case True
    then obtain seg rest where q: "k_snd_queue k = seg # rest" by (cases "k_snd_queue k") auto
    let ?k = "stage_segment wnd seg rest k"
    have lt: "off (k_snd_una k) (k_snd_nxt k) < unat cwnd" using True move_guard [OF ok "1.prems"(2)] by simp
    note st = stage_segment_inv [OF "1.prems"(1) q lt "1.prems"(2), of wnd]
    have go: "flush_move wnd cwnd k = flush_move wnd cwnd ?k"
      using True q by (subst flush_move.simps) simp
    have una: "k_snd_una ?k = k_snd_una k" by (simp add: stage_segment_def)
    note IH = "1.IH" [OF conjunct1 [OF True] q st(1) "1.prems"(2)]
    have "off (k_snd_una k) (k_snd_nxt (flush_move wnd cwnd ?k)) \<le> unat cwnd"
      using IH st(2) lt una by simp
    moreover have "same_side k (flush_move wnd cwnd ?k)" using IH same_side_stage by blast
    moreover have "map sg_data (k_snd_buf ?k) @ map sg_data (k_snd_queue ?k) =
        map sg_data (k_snd_buf k) @ map sg_data (k_snd_queue k)"
      using q by (simp add: stage_segment_def)
    ultimately show ?thesis unfolding go using IH by simp
  next
    case False
    then have "flush_move wnd cwnd k = k" by (subst flush_move.simps) (auto split: list.splits)
    then show ?thesis using "1.prems"(1) by (simp add: same_side_def)
  qed
qed

section \<open>Flush as a whole\<close>

lemma config_ok_cong:
  assumes "config_ok k" "k_mtu k' = k_mtu k" "k_mss k' = k_mss k" "k_bufsize k' = k_bufsize k"
    "k_rcv_wnd k' = k_rcv_wnd k" "k_interval k' = k_interval k" "k_rx_minrto k' = k_rx_minrto k"
  shows "config_ok k'"
  using assms by (simp add: config_ok_def)

lemma flush_probe_frame:
  "flush_probe k = k\<lparr>k_probe_wait := k_probe_wait (flush_probe k), k_ts_probe := k_ts_probe (flush_probe k),
     k_probe := k_probe (flush_probe k)\<rparr>"
  unfolding flush_probe_def Let_def by simp

lemma flush_ssthresh_inv:
  assumes "kcp_inv k" shows "kcp_inv (flush_ssthresh cwnd resent fl k)"
    and "1 \<le> k_cwnd (flush_ssthresh cwnd resent fl k)"
    and "k_snd_una (flush_ssthresh cwnd resent fl k) = k_snd_una k"
    and "k_snd_nxt (flush_ssthresh cwnd resent fl k) = k_snd_nxt k"
    and "k_snd_buf (flush_ssthresh cwnd resent fl k) = k_snd_buf k"
proof -
  show "kcp_inv (flush_ssthresh cwnd resent fl k)"
    by (rule kcp_inv_cong [OF assms]) (simp_all add: flush_ssthresh_def Let_def kcp_inv_acks [OF assms])
  show "1 \<le> k_cwnd (flush_ssthresh cwnd resent fl k)"
  proof -
    have "1 \<le> c" if "c \<noteq> 0" for c :: u32 using that by (simp add: word_le_nat_alt unat_gt_0 Suc_le_eq)
    then show ?thesis by (simp add: flush_ssthresh_def Let_def)
  qed
qed (simp_all add: flush_ssthresh_def Let_def)

text \<open>
  The states between the phases: acknowledgements cleared and probes decided, then the send
  window filled.
\<close>

definition flush_probed :: "kcb \<Rightarrow> kcb" where
  "flush_probed k = flush_probe (k\<lparr>k_ackcount := 0\<rparr>)"

definition flush_moved :: "kcb \<Rightarrow> kcb" where
  "flush_moved k = flush_move (ikcp_wnd_unused k) (flush_cwnd ((flush_probed k)\<lparr>k_probe := 0\<rparr>))
     ((flush_probed k)\<lparr>k_probe := 0\<rparr>)"

definition flush_bytes :: "kcb \<Rightarrow> kseg \<Rightarrow> kseg list \<Rightarrow> bytes" where
  "flush_bytes k seg ss' = ack_bytes k @ probe_bytes (flush_probed k) seg @
     concat (map seg_bytes (sent_segs (flush_moved k) (flush_resent (flush_moved k)) (k_snd_buf (flush_moved k)) ss'))"

lemma flush_cwnd_bound: "unat (flush_cwnd k) \<le> unat (k_rmt_wnd k) \<and> unat (flush_cwnd k) \<le> unat (k_snd_wnd k)"
  by (auto simp: flush_cwnd_def unat_imin Let_def)

lemma flush_moved_spec:
  assumes "kcp_inv k" "unat (k_rmt_wnd k) < 2 ^ 16"
  shows "kcp_inv (flush_moved k)" "same_side ((flush_probed k)\<lparr>k_probe := 0\<rparr>) (flush_moved k)"
    "off (k_snd_una k) (k_snd_nxt (flush_moved k)) \<le>
       max (off (k_snd_una k) (k_snd_nxt k)) (unat (flush_cwnd k))"
    "map sg_data (k_snd_buf (flush_moved k)) @ map sg_data (k_snd_queue (flush_moved k)) =
       map sg_data (k_snd_buf k) @ map sg_data (k_snd_queue k)"
proof -
  obtain w t p where pr: "flush_probed k = k\<lparr>k_ackcount := 0, k_probe_wait := w, k_ts_probe := t, k_probe := p\<rparr>"
    using that flush_probe_frame [of "k\<lparr>k_ackcount := 0\<rparr>"] unfolding flush_probed_def by blast
  let ?k = "(flush_probed k)\<lparr>k_probe := 0\<rparr>"
  have inv: "kcp_inv ?k" by (rule kcp_inv_cong [OF assms(1)]) (simp_all add: pr)
  have cw: "flush_cwnd ?k = flush_cwnd k" by (simp add: pr flush_cwnd_def Let_def)
  have "unat (flush_cwnd ?k) < 2 ^ 31" using flush_cwnd_bound [of ?k] assms(2) by (simp add: pr)
  note mv = flush_move_inv [OF this inv, of "ikcp_wnd_unused k"]
  show "kcp_inv (flush_moved k)" "same_side ?k (flush_moved k)" using mv by (simp_all add: flush_moved_def)
  show "off (k_snd_una k) (k_snd_nxt (flush_moved k)) \<le>
       max (off (k_snd_una k) (k_snd_nxt k)) (unat (flush_cwnd k))"
    using mv cw unfolding flush_moved_def by (simp add: pr)
  show "map sg_data (k_snd_buf (flush_moved k)) @ map sg_data (k_snd_queue (flush_moved k)) =
       map sg_data (k_snd_buf k) @ map sg_data (k_snd_queue k)"
    using mv unfolding flush_moved_def by (simp add: pr)
qed

lemma same_side_sel:
  assumes "same_side k k'"
  shows "k_mtu k' = k_mtu k" "k_mss k' = k_mss k" "k_bufsize k' = k_bufsize k" "k_output k' = k_output k"
    "k_rcv_wnd k' = k_rcv_wnd k" "k_interval k' = k_interval k" "k_rx_minrto k' = k_rx_minrto k"
    "k_snd_una k' = k_snd_una k" "k_current k' = k_current k" "k_rcv_nxt k' = k_rcv_nxt k"
    "k_rmt_wnd k' = k_rmt_wnd k" "k_rcv_queue k' = k_rcv_queue k" "k_rcv_buf k' = k_rcv_buf k"
  by (subst assms [unfolded same_side_def], simp)+

lemma flush_spec:
  assumes "kcp_inv k" "config_ok k" "k_output k" "unat (k_rmt_wnd k) < 2 ^ 16" "k_updated k \<noteq> 0"
  shows "\<exists>k' outs seg ss'. ikcp_flush k = Some (k', outs) \<and> kcp_inv k' \<and>
     (\<forall>p \<in> set outs. 24 \<le> length p \<and> length p \<le> unat (k_mtu k)) \<and>
     concat outs = flush_bytes k seg ss' \<and> seg = (flush_template k)\<lparr>sg_sn := sg_sn seg, sg_ts := sg_ts seg\<rparr> \<and>
     k_snd_buf k' = ss' \<and> same_content ss' (k_snd_buf (flush_moved k)) \<and> 1 \<le> k_cwnd k' \<and>
     off (k_snd_una k') (k_snd_nxt k') \<le> max (off (k_snd_una k) (k_snd_nxt k)) (unat (flush_cwnd k)) \<and>
     map sg_data (k_snd_buf k') @ map sg_data (k_snd_queue k') =
       map sg_data (k_snd_buf k) @ map sg_data (k_snd_queue k)"
proof -
  let ?k1 = "(flush_probed k)\<lparr>k_probe := 0\<rparr>" and ?m = "flush_moved k"
  let ?fl = "\<lparr>fl_lost = False, fl_change = 0, fl_xmit = k_xmit ?m, fl_state = k_state ?m\<rparr>"
  have pr: "flush_probed k = k\<lparr>k_ackcount := 0, k_probe_wait := k_probe_wait (flush_probed k),
      k_ts_probe := k_ts_probe (flush_probed k), k_probe := k_probe (flush_probed k)\<rparr>"
    using flush_probe_frame [of "k\<lparr>k_ackcount := 0\<rparr>"] unfolding flush_probed_def by simp
  note mv = flush_moved_spec [OF assms(1,4)]
  note sd = same_side_sel [OF mv(2)]
  have cfg1: "config_ok (flush_probed k)" "k_output (flush_probed k)" "k_mtu (flush_probed k) = k_mtu k"
    by (rule config_ok_cong [OF assms(2)]; subst pr; simp) (subst pr, simp add: assms(3), subst pr, simp)
  have cfg2: "config_ok ?m" "k_output ?m" "k_mtu ?m = k_mtu k"
    using config_ok_cong [OF cfg1(1), of ?m] sd cfg1(2,3) by simp_all
  obtain seg st1 where st1: "flush_acks k [0 ..< k_ackcount k] (flush_template k) ([], []) = Some (seg, st1)"
    "out_ok (unat (k_mtu k)) st1" "seg = (flush_template k)\<lparr>sg_sn := sg_sn seg, sg_ts := sg_ts seg\<rparr>"
    "emitted st1 = ack_bytes k"
    using flush_acks_ok [OF assms(2,3), of "([], [])" "[0 ..< k_ackcount k]" "flush_template k"]
      flush_acks_bytes [OF kcp_inv_acks [OF assms(1)]] by auto
  have wnd: "sg_wnd seg = ikcp_wnd_unused k" by (subst st1(3)) (simp add: flush_template_def)
  obtain st2 where st2: "flush_wins (flush_probed k) seg st1 = Some st2" "out_ok (unat (k_mtu k)) st2"
    "emitted st2 = emitted st1 @ probe_bytes (flush_probed k) seg"
    using flush_wins_ok [OF cfg1(1,2), of st1 seg] st1(2) cfg1(3) by auto
  have "\<forall>s \<in> set (k_snd_buf ?m). seg_ok s \<and> sg_len s \<le> k_mss ?m"
    using mv(1) by (simp add: kcp_inv_def recv_inv_defs snd_fits_def)
  then obtain ss' fl' st3 where st3: "flush_segs ?m (ikcp_wnd_unused k) (flush_resent ?m) (flush_rtomin ?m)
      (k_snd_buf ?m) ?fl st2 = Some (ss', fl', st3)" "out_ok (unat (k_mtu k)) st3"
    "same_content ss' (k_snd_buf ?m)"
    "emitted st3 = emitted st2 @ concat (map seg_bytes (sent_segs ?m (flush_resent ?m) (k_snd_buf ?m) ss'))"
    using flush_segs_ok [OF cfg2(1,2), of st2 "k_snd_buf ?m" "ikcp_wnd_unused k" "flush_resent ?m"
      "flush_rtomin ?m" ?fl] st2(2) cfg2(3) by auto
  let ?k3 = "?m\<lparr>k_snd_buf := ss', k_xmit := fl_xmit fl', k_state := fl_state fl'\<rparr>"
  let ?k4 = "flush_ssthresh (flush_cwnd ?k1) (flush_resent ?m) fl' ?k3"
  let ?outs = "if length (snd st3) > 0 then fst st3 @ [snd st3] else fst st3"
  have out: "snd st3 \<noteq> [] \<Longrightarrow> ikcp_output ?k3 (snd st3) (fst st3) = Some (fst st3 @ [snd st3])"
    using cfg2(2) by (simp add: ikcp_output_def)
  have "kcp_inv ?k3"
    by (rule kcp_inv_cong [OF same_content_inv [OF mv(1) st3(3)]]) (use kcp_inv_acks [OF mv(1)] in simp_all)
  note k4 = flush_ssthresh_inv [OF this, of "flush_cwnd ?k1" "flush_resent ?m" fl']
  have "flush_move (sg_wnd seg) (flush_cwnd ?k1) ?k1 = ?m" using wnd by (simp add: flush_moved_def)
  then have fl: "ikcp_flush k = Some (?k4, ?outs)"
    unfolding ikcp_flush_def Let_def using assms(5) st1(1) st2(1) st3(1) out wnd
    by (cases "snd st3 = []") (simp_all add: flush_probed_def [symmetric])
  have byt: "concat ?outs = flush_bytes k seg ss'"
    using st1(4) st2(3) st3(4) by (auto simp: emitted_def flush_bytes_def)
  have una: "k_snd_una ?k4 = k_snd_una k" using k4(3) sd(8) by simp (subst pr, simp)
  have nxt: "k_snd_nxt ?k4 = k_snd_nxt ?m" "k_snd_buf ?k4 = ss'" using k4(4,5) by simp_all
  have que: "k_snd_queue ?k4 = k_snd_queue ?m" by (simp add: flush_ssthresh_def Let_def)
  have dat: "map sg_data ss' = map sg_data (k_snd_buf ?m)" using st3(3) by (simp add: same_content_def)
  show ?thesis
  proof (intro exI conjI)
    show "ikcp_flush k = Some (?k4, ?outs)" by (rule fl)
    show "\<forall>p \<in> set ?outs. 24 \<le> length p \<and> length p \<le> unat (k_mtu k)"
      using st3(2) by (auto simp: out_ok_def)
    show "off (k_snd_una ?k4) (k_snd_nxt ?k4) \<le> max (off (k_snd_una k) (k_snd_nxt k)) (unat (flush_cwnd k))"
      using una nxt(1) mv(3) by simp
    show "map sg_data (k_snd_buf ?k4) @ map sg_data (k_snd_queue ?k4) =
       map sg_data (k_snd_buf k) @ map sg_data (k_snd_queue k)"
      using nxt(2) que dat mv(4) by simp
  qed (fact k4(1) byt st1(3) nxt(2) st3(3) k4(2))+
qed

lemma flush_idle: "k_updated k = 0 \<Longrightarrow> ikcp_flush k = Some (k, [])"
  by (simp add: ikcp_flush_def)

section \<open>The flush clock\<close>

text \<open>
  \<open>update_clock k t\<close>: the clock part of \<open>ikcp_update\<close>, and whether a flush follows.
\<close>

definition update_clock :: "kcb \<Rightarrow> u32 \<Rightarrow> kcb \<times> bool" where
  "update_clock k t =
     (let k = k\<lparr>k_current := t\<rparr>;
          k = (if k_updated k = 0 then k\<lparr>k_updated := 1, k_ts_flush := t\<rparr> else k);
          slap = itimediff t (k_ts_flush k);
          (k, slap) = (if slap \<ge> 10000 \<or> slap < -10000 then (k\<lparr>k_ts_flush := t\<rparr>, 0) else (k, slap))
      in if slap \<ge> 0 then
           let k = k\<lparr>k_ts_flush := k_ts_flush k + k_interval k\<rparr>
           in (if itimediff t (k_ts_flush k) \<ge> 0 then k\<lparr>k_ts_flush := t + k_interval k\<rparr> else k, True)
         else (k, False))"

lemma update_split:
  "ikcp_update k t = (if snd (update_clock k t) then ikcp_flush (fst (update_clock k t))
     else Some (fst (update_clock k t), []))"
  by (simp add: ikcp_update_def update_clock_def Let_def split: prod.splits)

lemma update_clock_frame:
  "fst (update_clock k t) = k\<lparr>k_current := t, k_updated := k_updated (fst (update_clock k t)),
     k_ts_flush := k_ts_flush (fst (update_clock k t))\<rparr>"
  unfolding update_clock_def Let_def by (simp split: prod.splits)

lemma update_clock_updated: "k_updated (fst (update_clock k t)) \<noteq> 0"
  by (simp add: update_clock_def Let_def split: prod.splits)

lemma update_inv [inv_intros]:
  assumes "kcp_inv k" "config_ok k" "k_output k" "unat (k_rmt_wnd k) < 2 ^ 16"
  shows "\<exists>k' outs. ikcp_update k t = Some (k', outs) \<and> kcp_inv k' \<and>
    (\<forall>p \<in> set outs. 24 \<le> length p \<and> length p \<le> unat (k_mtu k))"
proof -
  obtain u ts where fr: "fst (update_clock k t) = k\<lparr>k_current := t, k_updated := u, k_ts_flush := ts\<rparr>" "u \<noteq> 0"
    using update_clock_frame [of k t] update_clock_updated [of k t] by metis
  let ?k = "fst (update_clock k t)"
  have inv: "kcp_inv ?k" by (rule kcp_inv_cong [OF assms(1)]) (simp_all add: fr(1) kcp_inv_acks [OF assms(1)])
  have "config_ok ?k" by (rule config_ok_cong [OF assms(2)]) (simp_all add: fr(1))
  then obtain k' outs where "ikcp_flush ?k = Some (k', outs)" "kcp_inv k'"
    "\<forall>p \<in> set outs. 24 \<le> length p \<and> length p \<le> unat (k_mtu ?k)"
    using flush_spec [OF inv] fr assms(3,4) by auto
  then show ?thesis using inv fr(1) by (simp add: update_split)
qed

text \<open>\<open>ikcp_check\<close> never looks further ahead than one interval.\<close>

lemma check_packets_le: "check_packets t ss m = Some r \<Longrightarrow> r \<le> m \<and> (0 < m \<longrightarrow> 0 < r) \<and>
    (\<forall>s \<in> set ss. 0 < itimediff (sg_resendts s) t \<and> r \<le> itimediff (sg_resendts s) t)"
proof (induction ss arbitrary: m)
  case (Cons s ss)
  let ?d = "itimediff (sg_resendts s) t"
  have d: "0 < ?d" "check_packets t ss (if ?d < m then ?d else m) = Some r"
    using Cons.prems by (simp_all add: Let_def split: if_splits)
  show ?case using Cons.IH [OF d(2)] d(1) by (auto split: if_splits)
qed simp

text \<open>The answer is now, or a moment within one interval before which nothing is due.\<close>

lemma check_bounds:
  assumes "ikcp_check k t \<noteq> t" "unat (k_interval k) < 2 ^ 31"
  shows "off t (ikcp_check k t) \<le> unat (k_interval k)"
    and "int (off t (ikcp_check k t)) \<le> itimediff (k_ts_flush k) t"
    and "0 < itimediff (k_ts_flush k) t" "itimediff (k_ts_flush k) t \<le> 10000"
    and "\<forall>s \<in> set (k_snd_buf k). int (off t (ikcp_check k t)) \<le> itimediff (sg_resendts s) t"
    and "k_updated k \<noteq> 0"
proof -
  let ?tm = "itimediff (k_ts_flush k) t"
  have up: "k_updated k \<noteq> 0" and rg: "\<not> (itimediff t (k_ts_flush k) \<ge> 10000 \<or> itimediff t (k_ts_flush k) < -10000)"
    and neg: "itimediff t (k_ts_flush k) < 0"
    using assms(1) by (auto simp: ikcp_check_def Let_def split: if_splits)
  obtain r where r: "check_packets t (k_snd_buf k) 0x7fffffff = Some r"
    using assms(1) up rg neg by (auto simp: ikcp_check_def Let_def split: option.splits if_splits)
  note cp = check_packets_le [OF r]
  have tm: "?tm = - itimediff t (k_ts_flush k)"
  proof -
    let ?d = "t - k_ts_flush k"
    obtain n where n: "unat ?d = n" by simp
    have "k_ts_flush k - t = - ?d" by simp
    then have "unat (k_ts_flush k - t) = (2 ^ 32 - n) mod 2 ^ 32"
      using unat_sub32 [of 0 ?d] n by (cases "n = 0") (simp_all add: unat_eq_0)
    then show ?thesis using n unat32_less [of ?d] rg neg
      unfolding itimediff_sint sint32_cases by (auto split: if_splits)
  qed
  let ?m = "if r < ?tm then r else ?tm"
  have m: "0 < ?m" "?m \<le> 10000" "?m \<le> r" "?m \<le> ?tm" using cp rg neg tm by auto
  then have um: "unat (word_of_int ?m :: u32) = nat ?m" by (intro unat_word_of_int32) auto
  let ?min = "if word_of_int ?m \<ge> k_interval k then k_interval k else word_of_int ?m"
  have "ikcp_check k t = t + ?min"
    using up rg neg r by (simp only: ikcp_check_def Let_def if_False option.case not_le simp_thms) auto
  then have o: "off t (ikcp_check k t) = unat ?min" by (simp add: off_def)
  obtain n where n: "unat ?min = n" by simp
  have i: "n \<le> unat (k_interval k)" "int n \<le> ?m"
    using um n m(1) by (auto simp: word_le_nat_alt split: if_splits)
  show "off t (ikcp_check k t) \<le> unat (k_interval k)" unfolding o n by (rule i(1))
  show "int (off t (ikcp_check k t)) \<le> ?tm" unfolding o n using i(2) m(4) by linarith
  show "0 < ?tm" "?tm \<le> 10000" using rg neg tm by auto
  show "\<forall>s \<in> set (k_snd_buf k). int (off t (ikcp_check k t)) \<le> itimediff (sg_resendts s) t"
  proof
    fix s assume "s \<in> set (k_snd_buf k)"
    then have "r \<le> itimediff (sg_resendts s) t" using cp by blast
    then show "int (off t (ikcp_check k t)) \<le> itimediff (sg_resendts s) t"
      unfolding o n using i(2) m(3) by linarith
  qed
  show "k_updated k \<noteq> 0" by (rule up)
qed

end
