(* ===== verification/Kcp_Frame.thy ===== *)
theory Kcp_Frame
  imports Kcp_Flush
begin

text \<open>
  What the operations of the transport leave alone.  \<open>same_config k k'\<close> says that the fields set
  by the configuration calls are the same in both control blocks; every data operation of
  \<^verbatim>\<open>ikcp.c\<close> keeps them, so the sessions can rely on their set-up for ever.
\<close>

definition same_config :: "kcb \<Rightarrow> kcb \<Rightarrow> bool" where
  "same_config k k' \<longleftrightarrow> k_mtu k' = k_mtu k \<and> k_mss k' = k_mss k \<and> k_bufsize k' = k_bufsize k \<and>
     k_rcv_wnd k' = k_rcv_wnd k \<and> k_snd_wnd k' = k_snd_wnd k \<and> k_interval k' = k_interval k \<and>
     k_rx_minrto k' = k_rx_minrto k \<and> k_output k' = k_output k \<and> k_stream k' = k_stream k \<and>
     k_conv k' = k_conv k"

lemma same_config_refl [simp]: "same_config k k"
  by (simp add: same_config_def)

lemma same_config_trans [trans]: "same_config a b \<Longrightarrow> same_config b c \<Longrightarrow> same_config a c"
  by (simp add: same_config_def)

lemma same_config_ok: "same_config k k' \<Longrightarrow> config_ok k \<Longrightarrow> config_ok k'"
  by (rule config_ok_cong) (simp_all add: same_config_def)

section \<open>Sending and receiving\<close>

text \<open>The same with the peer's window, which only \<open>ikcp_input\<close> writes.\<close>

definition same_setup :: "kcb \<Rightarrow> kcb \<Rightarrow> bool" where
  "same_setup k k' \<longleftrightarrow> same_config k k' \<and> k_rmt_wnd k' = k_rmt_wnd k"

lemma same_setup_refl [simp]: "same_setup k k"
  by (simp add: same_setup_def)

lemma same_setup_trans [trans]: "same_setup a b \<Longrightarrow> same_setup b c \<Longrightarrow> same_setup a c"
  unfolding same_setup_def using same_config_trans by auto

text \<open>And the same with the receive side, which sending and acknowledging leave alone.\<close>

definition same_rest :: "kcb \<Rightarrow> kcb \<Rightarrow> bool" where
  "same_rest k k' \<longleftrightarrow> same_setup k k' \<and> k_rcv_queue k' = k_rcv_queue k \<and> k_rcv_buf k' = k_rcv_buf k"

lemma same_rest_refl [simp]: "same_rest k k"
  by (simp add: same_rest_def)

lemma same_rest_trans [trans]: "same_rest a b \<Longrightarrow> same_rest b c \<Longrightarrow> same_rest a c"
  unfolding same_rest_def using same_setup_trans by auto

lemmas same_defs = same_rest_def same_setup_def same_config_def

lemma fragment_loop_config: "fragment_loop malloc n b len k = Some k' \<Longrightarrow> same_rest k k'"
proof (induction n arbitrary: b len k)
  case (Suc n)
  obtain b' len' s where
    "fragment_loop malloc n b' len' (k\<lparr>k_snd_queue := k_snd_queue k @ [s], k_nsnd_que := k_nsnd_que k + 1\<rparr>) = Some k'"
    using Suc.prems unfolding fragment_loop.simps Let_def by (auto split: option.splits)
  from Suc.IH [OF this] show ?case by (simp add: same_defs)
qed simp

lemma send_fragments_config:
  assumes "send_fragments malloc b len k = Some (rc, k')" shows "same_rest k k'"
proof -
  have "k' = k \<or> (\<exists>n. fragment_loop malloc n b len k = Some k')"
    using assms unfolding send_fragments_def Let_def
    by (auto split: if_splits simp del: fragment_loop.simps)
  then show ?thesis using fragment_loop_config by auto
qed

lemma send_config: "ikcp_send malloc k b len = Some (rc, k') \<Longrightarrow> same_rest k k'"
proof -
  have st: "same_rest k k1" if "stream_extend malloc b len k = Some (k1, b', len')" for k1 b' len'
    using that by (auto simp: stream_extend_def Let_def same_defs
      split: if_splits option.splits)
  assume *: "ikcp_send malloc k b len = Some (rc, k')"
  show ?thesis
  proof (cases "k_mss k > 0 \<and> \<not> len < 0 \<and> k_stream k \<noteq> 0")
    case True
    then obtain k1 b' len' where k1: "stream_extend malloc b len k = Some (k1, b', len')"
      using * by (auto simp: ikcp_send_def split: option.splits)
    then have "(if len' \<le> 0 then Some (0, k1) else send_fragments malloc b' len' k1) = Some (rc, k')"
      using * True by (simp add: ikcp_send_def)
    then have "same_rest k1 k'" using send_fragments_config by (auto split: if_splits)
    then show ?thesis using st [OF k1] same_rest_trans by blast
  next
    case False
    then show ?thesis using * send_fragments_config by (auto simp: ikcp_send_def split: if_splits)
  qed
qed

lemma parse_data_config: "same_setup k (ikcp_parse_data k s)"
  using parse_data_shape [of k s] by (auto simp: same_setup_def same_config_def)

lemma move_available_config: "same_setup k (move_available k)"
  using move_available_shape [of k] by (auto simp: same_setup_def same_config_def)

lemma recv_config:
  assumes "segs_ok k" "ikcp_recv k len = Some (rc, out, k')"
  shows "same_setup k k'"
proof -
  have "k' = k \<or> (\<exists>r a. k' = recover_tell r (move_available a) \<and> (a = k \<or> a = pop_message k))"
    using assms(2) unfolding recv_cases [OF assms(1)] by (auto split: if_splits)
  moreover have "same_setup a (recover_tell r a)" for r a
    by (simp add: recover_tell_def same_setup_def same_config_def)
  moreover have "same_setup k (pop_message k)"
    by (simp add: pop_message_def same_setup_def same_config_def)
  ultimately show ?thesis using move_available_config same_setup_trans same_setup_refl by metis
qed

lemma recv_snd_side:
  assumes "segs_ok k" "ikcp_recv k len = Some (rc, out, k')"
  shows "k_snd_queue k' = k_snd_queue k \<and> k_snd_buf k' = k_snd_buf k \<and> k_snd_una k' = k_snd_una k \<and>
    k_snd_nxt k' = k_snd_nxt k \<and> k_mss k' = k_mss k \<and> k_current k' = k_current k"
proof -
  have m: "\<exists>rb nb rq nq rn. move_available a = a\<lparr>k_rcv_buf := rb, k_nrcv_buf := nb, k_rcv_queue := rq,
     k_nrcv_que := nq, k_rcv_nxt := rn\<rparr>" for a by (rule move_available_shape)
  have "k' = k \<or> (\<exists>r a. k' = recover_tell r (move_available a) \<and> (a = k \<or> a = pop_message k))"
    using assms(2) unfolding recv_cases [OF assms(1)] by (auto split: if_splits)
  then show ?thesis using m [of k] m [of "pop_message k"] by (auto simp: recover_tell_def pop_message_def)
qed

text \<open>
  The receive queue holds no more segments than the window and no segment of more than \<open>n\<close>
  bytes, when no more than \<open>n\<close> bytes arrive at a time.
\<close>

definition rcv_fits :: "nat \<Rightarrow> kcb \<Rightarrow> bool" where
  "rcv_fits n k \<longleftrightarrow> length (k_rcv_queue k) \<le> unat (k_rcv_wnd k) \<and>
     (\<forall>s \<in> set (k_rcv_queue k) \<union> set (k_rcv_buf k). length (sg_data s) \<le> n)"

lemma same_rest_fits: "same_rest k k' \<Longrightarrow> rcv_fits n k \<Longrightarrow> rcv_fits n k'"
  by (simp add: rcv_fits_def same_defs)

lemma move_available_fits:
  assumes "recv_inv k" "rcv_fits n k" shows "rcv_fits n (move_available k)"
proof -
  have "recv_inv (move_available k) \<and> rcv_fits n (move_available k)"
  proof (rule move_available_rule [of "\<lambda>k. recv_inv k \<and> rcv_fits n k"], goal_cases)
    case (2 k seg rest)
    then have "unat (k_nrcv_que k) = length (k_rcv_queue k)" by (simp add: recv_inv_def counters_ok_def)
    then have "length (k_rcv_queue k) < unat (k_rcv_wnd k)" using 2(4) by (simp add: word_less_nat_alt)
    then have "rcv_fits n (deliver seg rest k)" using 2 by (auto simp: rcv_fits_def deliver_def)
    then show ?case using 2 recv_inv_step by blast
  qed (simp add: assms)
  then show ?thesis ..
qed

lemma parse_data_fits:
  assumes "recv_inv k" "rcv_fits n k" "seg_ok s" "length (sg_data s) \<le> n"
  shows "rcv_fits n (ikcp_parse_data k s)"
proof -
  have ok: "rcv_ok k" using assms(1) by (simp add: recv_inv_def)
  show ?thesis
  proof (cases "off (k_rcv_nxt k) (sg_sn s) < unat (k_rcv_wnd k)")
    case True
    from ok True have "rcv_fits n (rcv_insert s k)"
    proof (cases rule: rcv_insert_cases)
      case (new rb)
      then show ?thesis using assms(2,4) set_of_add_mset [OF new(4)] by (auto simp: rcv_fits_def)
    qed (simp add: assms)
    then show ?thesis
      using True parse_data_eq [OF ok] move_available_fits rcv_insert_inv [OF assms(1,3) True] by simp
  qed (simp add: parse_data_eq [OF ok] assms)
qed

lemma recv_fits:
  assumes "recv_inv k" "ikcp_recv k len = Some (rc, out, k')" "rcv_fits n k"
  shows "rcv_fits n k'"
proof -
  have "segs_ok k" using assms(1) by (simp add: recv_inv_def)
  then have "k' = k \<or> (\<exists>r a. k' = recover_tell r (move_available a) \<and> (a = k \<or> a = pop_message k))"
    using assms(2) unfolding recv_cases [OF \<open>segs_ok k\<close>] by (auto split: if_splits)
  moreover have "rcv_fits n (recover_tell r a) = rcv_fits n a" for r a
    by (simp add: recover_tell_def rcv_fits_def)
  moreover have "rcv_fits n (pop_message k)"
    using assms(3) by (auto simp: pop_message_def rcv_fits_def dest: in_set_dropD)
  ultimately show ?thesis
    using assms(1,3) move_available_fits pop_message_inv [OF assms(1)] by metis
qed

section \<open>Input\<close>

text \<open>Acknowledgements leave the send queue alone, too.\<close>

definition same_ack :: "kcb \<Rightarrow> kcb \<Rightarrow> bool" where
  "same_ack k k' \<longleftrightarrow> same_rest k k' \<and> k_snd_queue k' = k_snd_queue k"

lemma same_ack_refl [simp]: "same_ack k k"
  by (simp add: same_ack_def)

lemma same_ack_trans [trans]: "same_ack a b \<Longrightarrow> same_ack b c \<Longrightarrow> same_ack a c"
  unfolding same_ack_def using same_rest_trans by auto

lemma same_ack_rest: "same_ack k k' \<Longrightarrow> same_rest k k'"
  by (simp add: same_ack_def)

lemmas same_ack_defs = same_ack_def same_defs

lemma shrink_config: "same_ack k (ikcp_shrink_buf k)"
  by (simp add: ikcp_shrink_buf_def same_ack_defs split: list.splits)

lemma parse_una_config: "same_ack k (ikcp_parse_una k u)"
  by (simp add: ikcp_parse_una_def same_ack_defs split: prod.splits)

lemma parse_ack_config: "same_ack k (ikcp_parse_ack k u)"
  by (simp add: ikcp_parse_ack_def same_ack_defs split: prod.splits)

lemma update_ack_config: "same_ack k (ikcp_update_ack k u)"
  by (simp add: ikcp_update_ack_def same_ack_defs Let_def)

lemma ack_push_config: "ikcp_ack_push malloc k sn ts = Some k' \<Longrightarrow> same_ack k k'"
  by (auto simp: ikcp_ack_push_def same_ack_defs Let_def split: if_splits)

lemma input_ack_config: "same_ack k (fst (input_ack k ts sn f m))"
proof -
  have "\<exists>a. fst (input_ack k ts sn f m) = ikcp_shrink_buf (ikcp_parse_ack a sn) \<and>
      (a = k \<or> (\<exists>r. a = ikcp_update_ack k r))"
    by (auto simp: input_ack_def Let_def)
  then show ?thesis using shrink_config parse_ack_config update_ack_config same_ack_trans by metis
qed

lemma input_push_parts:
  assumes "input_push malloc k h d = Some k'"
  shows "same_ack k k' \<or> (\<exists>k1 s. ikcp_ack_push malloc k (sh_sn h) (sh_ts h) = Some k1 \<and>
    k' = ikcp_parse_data k1 (seg_of_header h (take (unat (sh_len h)) d) s))"
proof (cases "itimediff (sh_sn h) (k_rcv_nxt k + k_rcv_wnd k) < 0")
  case True
  then obtain k1 where k1: "ikcp_ack_push malloc k (sh_sn h) (sh_ts h) = Some k1"
    using assms by (auto simp: input_push_def split: option.splits)
  then have "k' = k1 \<or> (\<exists>s. k' = ikcp_parse_data k1 (seg_of_header h (take (unat (sh_len h)) d) s))"
    using assms True unfolding input_push_def by (simp split: option.splits if_splits) blast+
  then show ?thesis using ack_push_config [OF k1] k1 by blast
qed (use assms in \<open>simp add: input_push_def\<close>)

lemma input_push_config:
  assumes "input_push malloc k h d = Some k'"
  shows "same_setup k k' \<and> k_snd_queue k' = k_snd_queue k"
proof -
  have "same_setup a (ikcp_parse_data a s) \<and> k_snd_queue (ikcp_parse_data a s) = k_snd_queue a" for a s
    using parse_data_shape [of a s] by (auto simp: same_setup_def same_config_def)
  then show ?thesis
    using input_push_parts [OF assms] ack_push_config same_setup_trans
    unfolding same_ack_def same_rest_def by metis
qed

lemma input_push_fits:
  assumes "input_push malloc k h d = Some k'" "\<forall>n. malloc n" "kcp_inv k" "rcv_fits n k"
    "length d \<le> n" "unat (sh_len h) \<le> length d"
  shows "rcv_fits n k'"
proof -
  have "rcv_fits n (ikcp_parse_data k1 (seg_of_header h (take (unat (sh_len h)) d) s))"
    if "ikcp_ack_push malloc k (sh_sn h) (sh_ts h) = Some k1" for k1 s
  proof (rule parse_data_fits)
    show "recv_inv k1" using ack_push_inv [OF assms(2,3), of "sh_sn h" "sh_ts h"] that by (auto simp: kcp_inv_def)
    show "rcv_fits n k1" by (rule same_rest_fits [OF same_ack_rest [OF ack_push_config [OF that]] assms(4)])
  qed (use assms in \<open>simp_all add: seg_ok_def seg_of_header_def\<close>)
  then show ?thesis using input_push_parts [OF assms(1)] same_rest_fits [OF same_ack_rest] assms(4) by blast
qed

lemma unat_wnd16: "unat (ucast (w :: u16) :: u32) < 2 ^ 16"
  using unat16_less [of w] by (simp add: unsigned_ucast_eq take_bit_nat_eq_self)

lemma input_cmd_branches:
  assumes "(if a then Some x else if b then map_option (\<lambda>k. (k, f, m)) y
      else if c then Some (z, f, m) else Some (w, f, m)) = Some (k', f', m')"
  shows "x = (k', f', m') \<or> y = Some k' \<or> z = k' \<or> w = k'"
  using assms by (auto split: if_split_asm)

text \<open>What one command segment keeps, and what a whole datagram keeps.\<close>

definition input_keeps :: "nat \<Rightarrow> kcb \<Rightarrow> kcb \<Rightarrow> bool" where
  "input_keeps n k k' \<longleftrightarrow> same_config k k' \<and> k_snd_queue k' = k_snd_queue k \<and>
     unat (k_rmt_wnd k') < 2 ^ 16 \<and> (rcv_fits n k \<longrightarrow> rcv_fits n k')"

lemma input_keeps_refl: "unat (k_rmt_wnd k) < 2 ^ 16 \<Longrightarrow> input_keeps n k k"
  by (simp add: input_keeps_def)

lemma input_keeps_trans: "input_keeps n a b \<Longrightarrow> input_keeps n b c \<Longrightarrow> input_keeps n a c"
  using same_config_trans [of a b c] by (simp add: input_keeps_def)

lemma same_ack_keeps: "input_keeps n a b \<Longrightarrow> same_ack b c \<Longrightarrow> input_keeps n a c"
  using same_rest_fits [of b c n] same_config_trans [of a b c]
  by (auto simp: input_keeps_def same_ack_def same_rest_def same_setup_def)

lemma una_part_keeps:
  "input_keeps n k (ikcp_shrink_buf (ikcp_parse_una (k\<lparr>k_rmt_wnd := ucast (w :: u16)\<rparr>) u))"
proof -
  let ?k = "k\<lparr>k_rmt_wnd := ucast w\<rparr>"
  have "same_ack ?k (ikcp_shrink_buf (ikcp_parse_una ?k u))"
    using shrink_config parse_una_config same_ack_trans by blast
  moreover have "input_keeps n k ?k"
    using unat_wnd16 [of w] by (simp add: input_keeps_def same_config_def rcv_fits_def)
  ultimately show ?thesis using same_ack_keeps by blast
qed

lemma input_cmd_keeps:
  assumes "input_cmd malloc k h d f m = Some (k', f', m')" "\<forall>n. malloc n" "kcp_inv k"
    "length d \<le> n" "unat (sh_len h) \<le> length d"
  shows "input_keeps n k k'"
proof -
  obtain K where K: "ikcp_shrink_buf (ikcp_parse_una (k\<lparr>k_rmt_wnd := ucast (sh_wnd h)\<rparr>) (sh_una h)) = K"
    by simp
  have "kcp_inv (k\<lparr>k_rmt_wnd := ucast (sh_wnd h)\<rparr>)"
    by (rule kcp_inv_cong [OF assms(3)]) (simp_all add: kcp_inv_acks assms(3))
  note una = parse_una_inv [OF this, of "sh_una h", unfolded K]
  have keep: "input_keeps n k K" using una_part_keeps unfolding K [symmetric] .
  have c: "(if ucast (sh_cmd h) = IKCP_CMD_ACK then Some (input_ack K (sh_ts h) (sh_sn h) f m)
      else if ucast (sh_cmd h) = IKCP_CMD_PUSH then map_option (\<lambda>k. (k, f, m)) (input_push malloc K h d)
      else if ucast (sh_cmd h) = IKCP_CMD_WASK then Some (K\<lparr>k_probe := k_probe K OR IKCP_ASK_TELL\<rparr>, f, m)
      else Some (K, f, m)) = Some (k', f', m')"
    using assms(1) unfolding input_cmd_def Let_def K .
  have p: "same_ack K (K\<lparr>k_probe := x\<rparr>)" for x by (simp add: same_ack_defs)
  have "input_ack K (sh_ts h) (sh_sn h) f m = (k', f', m') \<Longrightarrow> same_ack K k'"
    using input_ack_config [of K "sh_ts h" "sh_sn h" f m] by (simp only: fst_conv)
  then consider "same_ack K k'" | "input_push malloc K h d = Some k'"
    using input_cmd_branches [OF c] p same_ack_refl by blast
  then show ?thesis
  proof cases
    case 1
    then show ?thesis using keep same_ack_keeps by blast
  next
    case 2
    have "input_keeps n K k'"
      using input_push_config [OF 2] input_push_fits [OF 2 assms(2) una _ assms(4,5)] keep
      by (simp add: input_keeps_def same_setup_def)
    then show ?thesis using keep input_keeps_trans by blast
  qed
qed

lemma decode_length: "decode_seg_header data = Some (h, d) \<Longrightarrow> length d \<le> length data"
  by (drule kcp_hdr.dec_rest_length) simp

lemma input_loop_keeps:
  "\<lbrakk>input_loop malloc k data f m = Some r; \<forall>n. malloc n; kcp_inv k; length data \<le> n; unat (k_rmt_wnd k) < 2 ^ 16\<rbrakk>
   \<Longrightarrow> input_keeps n k (input_outcome r)"
proof (induction malloc k data f m rule: input_loop.induct)
  case (1 malloc k data f m)
  show ?case
  proof (cases "int (length data) < sint IKCP_OVERHEAD")
    case True
    then have "input_outcome r = k" using "1.prems"(1) by (subst (asm) input_loop.simps) (auto simp: input_outcome_def)
    then show ?thesis using input_keeps_refl "1.prems"(5) by simp
  next
    case False
    obtain h d where h: "decode_seg_header data = Some (h, d)"
      using "1.prems"(1) False by (subst (asm) input_loop.simps) (auto split: option.splits)
    let ?len = "int (length d) < c_long_of_u32 LONG_BITS (sh_len h) \<or> sint (sh_len h) < 0"
    let ?cmd = "ucast (sh_cmd h) \<notin> {IKCP_CMD_PUSH, IKCP_CMD_ACK, IKCP_CMD_WASK, IKCP_CMD_WINS}"
    show ?thesis
    proof (cases "sh_conv h \<noteq> k_conv k \<or> ?len \<or> ?cmd")
      case True
      then have "input_outcome r = k" using "1.prems"(1) False h
        by (subst (asm) input_loop.simps) (auto simp: input_outcome_def split: if_splits)
      then show ?thesis using input_keeps_refl "1.prems"(5) by simp
    next
      case ok: False
      then have len: "unat (sh_len h) \<le> length d" using input_len_check by blast
      have dn: "length d \<le> n" using decode_length [OF h] "1.prems"(4) by simp
      obtain k' f' m' where k': "input_cmd malloc k h d f m = Some (k', f', m')" "kcp_inv k'"
        using input_cmd_inv [OF "1.prems"(2,3) len] by blast
      note keep = input_cmd_keeps [OF k'(1) "1.prems"(2,3) dn len]
      have l: "input_loop malloc k' (drop (unat (sh_len h)) d) f' m' = Some r"
        using "1.prems"(1) False h ok k'(1) by (subst (asm) input_loop.simps) (simp split: if_splits)
      have "input_keeps n k' (input_outcome r)"
        using "1.IH" [OF False h refl _ _ _ k'(1) refl refl l "1.prems"(2) k'(2)] ok dn keep
        by (auto simp: input_keeps_def)
      then show ?thesis using keep input_keeps_trans by blast
    qed
  qed
qed

lemma input_keeps_spec:
  assumes "ikcp_input malloc k data = Some (rc, k')" "\<forall>n. malloc n" "kcp_inv k" "length data \<le> n"
    "unat (k_rmt_wnd k) < 2 ^ 16"
  shows "input_keeps n k k'"
proof -
  have cw: "same_ack a (input_cwnd u a)" for u a
    by (simp add: input_cwnd_def same_ack_defs Let_def)
  have fa: "same_ack a (ikcp_parse_fastack a u)" for u a
    by (simp add: ikcp_parse_fastack_def same_ack_defs)
  have "k' = k \<or> (\<exists>r. input_loop malloc k data False 0 = Some r \<and> same_ack (input_outcome r) k')"
  proof (cases "input_loop malloc k data False 0")
    case (Some r)
    show ?thesis
    proof (cases r)
      case (Inl e)
      then show ?thesis using assms(1) Some by (cases e) (auto simp: ikcp_input_def input_outcome_def split: if_splits)
    next
      case (Inr t)
      obtain k1 fl m where t: "t = (k1, fl, m)" by (cases t) auto
      let ?a = "if fl then ikcp_parse_fastack k1 m else k1"
      have "same_ack k1 ?a" using fa by simp
      then have "same_ack k1 (input_cwnd (k_snd_una k) ?a)" using cw same_ack_trans by blast
      then show ?thesis using assms(1) Some Inr t
        by (auto simp: ikcp_input_def input_outcome_def Let_def split: if_splits)
    qed
  qed (use assms(1) in \<open>auto simp: ikcp_input_def split: if_splits\<close>)
  then show ?thesis
    using input_loop_keeps [OF _ assms(2-5)] input_keeps_refl [OF assms(5)] same_ack_keeps by blast
qed

section \<open>Flush and update\<close>

lemma flush_move_side: "same_side k (flush_move w c k)"
proof (induction w c k rule: flush_move.induct)
  case (1 w c k)
  show ?case
  proof (cases "itimediff (k_snd_nxt k) (k_snd_una k + c) < 0 \<and> k_snd_queue k \<noteq> []")
    case True
    then obtain seg rest where q: "k_snd_queue k = seg # rest" by (cases "k_snd_queue k") auto
    then have "flush_move w c k = flush_move w c (stage_segment w seg rest k)"
      using True by (subst flush_move.simps) simp
    then show ?thesis using same_side_stage "1.IH" [OF conjunct1 [OF True] q] by simp
  next
    case False
    then have "flush_move w c k = k" by (subst flush_move.simps) (auto split: list.splits)
    then show ?thesis by (simp add: same_side_def)
  qed
qed

lemma same_side_config: "same_side k k' \<Longrightarrow> same_rest k k'"
  unfolding same_side_def by (drule sym, erule subst) (simp add: same_defs)

lemma flush_shape:
  assumes "ikcp_flush k = Some (k', outs)" "k_updated k \<noteq> 0"
  defines "p \<equiv> (flush_probe (k\<lparr>k_ackcount := 0\<rparr>))\<lparr>k_probe := 0\<rparr>"
  shows "\<exists>w c r fl ss. k' = flush_ssthresh c r fl
      ((flush_move w c p)\<lparr>k_snd_buf := ss, k_xmit := fl_xmit fl, k_state := fl_state fl\<rparr>)"
proof -
  obtain seg st1 where 1: "flush_acks k [0 ..< k_ackcount k] (flush_template k) ([], []) = Some (seg, st1)"
    using assms(1,2) by (auto simp: ikcp_flush_def bind_eq_Some_conv Let_def)
  obtain st2 where 2: "flush_wins (flush_probe (k\<lparr>k_ackcount := 0\<rparr>)) seg st1 = Some st2"
    using assms(1,2) 1 by (auto simp: ikcp_flush_def bind_eq_Some_conv Let_def)
  show ?thesis
    using assms(1,2) 1 2 unfolding ikcp_flush_def Let_def p_def
    by (simp add: bind_eq_Some_conv) blast
qed

lemma flush_config:
  assumes "ikcp_flush k = Some (k', outs)"
  shows "same_rest k k'"
proof (cases "k_updated k = 0")
  case False
  let ?p = "(flush_probe (k\<lparr>k_ackcount := 0\<rparr>))\<lparr>k_probe := 0\<rparr>"
  obtain w c r fl ss where k': "k' = flush_ssthresh c r fl
      ((flush_move w c ?p)\<lparr>k_snd_buf := ss, k_xmit := fl_xmit fl, k_state := fl_state fl\<rparr>)"
    using flush_shape [OF assms False] by blast
  have "same_rest k ?p"
  proof -
    obtain a b c where "flush_probe (k\<lparr>k_ackcount := 0\<rparr>) =
        k\<lparr>k_ackcount := 0, k_probe_wait := a, k_ts_probe := b, k_probe := c\<rparr>"
      using that flush_probe_frame [of "k\<lparr>k_ackcount := 0\<rparr>"] by blast
    then show ?thesis by (simp add: same_defs)
  qed
  also have "same_rest ?p (flush_move w c ?p)" by (rule same_side_config) (rule flush_move_side)
  also have "same_rest (flush_move w c ?p) k'"
    by (simp add: k' flush_ssthresh_def same_defs Let_def)
  finally show ?thesis .
qed (use assms in \<open>simp add: ikcp_flush_def\<close>)

lemma update_config:
  assumes "ikcp_update k t = Some (k', outs)"
  shows "same_rest k k'"
proof -
  obtain u ts where "fst (update_clock k t) = k\<lparr>k_current := t, k_updated := u, k_ts_flush := ts\<rparr>"
    using that update_clock_frame [of k t] by blast
  then have "same_rest k (fst (update_clock k t))" by (simp add: same_defs)
  then show ?thesis
    using assms flush_config same_rest_trans by (auto simp: update_split split: if_splits)
qed

text \<open>Only \<open>ikcp_send\<close> lengthens the send queue.\<close>

lemma flush_move_queue: "length (k_snd_queue (flush_move w c k)) \<le> length (k_snd_queue k)"
proof (induction w c k rule: flush_move.induct)
  case (1 w c k)
  show ?case
  proof (cases "itimediff (k_snd_nxt k) (k_snd_una k + c) < 0 \<and> k_snd_queue k \<noteq> []")
    case True
    then obtain seg rest where q: "k_snd_queue k = seg # rest" by (cases "k_snd_queue k") auto
    then have "flush_move w c k = flush_move w c (stage_segment w seg rest k)"
      using True by (subst flush_move.simps) simp
    moreover have "length (k_snd_queue (stage_segment w seg rest k)) \<le> length (k_snd_queue k)"
      using q by (simp add: stage_segment_def)
    ultimately show ?thesis using "1.IH" [OF conjunct1 [OF True] q] by simp
  next
    case False
    then have "flush_move w c k = k" by (subst flush_move.simps) (auto split: list.splits)
    then show ?thesis by simp
  qed
qed

lemma update_queue:
  assumes "ikcp_update k t = Some (k', outs)"
  shows "length (k_snd_queue k') \<le> length (k_snd_queue k)"
proof -
  have f: "length (k_snd_queue k2) \<le> length (k_snd_queue k1)" if fl: "ikcp_flush k1 = Some (k2, o2)" for k1 k2 o2
  proof (cases "k_updated k1 = 0")
    case False
    let ?p = "(flush_probe (k1\<lparr>k_ackcount := 0\<rparr>))\<lparr>k_probe := 0\<rparr>"
    obtain w c r fl' ss where k2: "k2 = flush_ssthresh c r fl'
        ((flush_move w c ?p)\<lparr>k_snd_buf := ss, k_xmit := fl_xmit fl', k_state := fl_state fl'\<rparr>)"
      using flush_shape [OF fl False] by blast
    obtain a b c' where "flush_probe (k1\<lparr>k_ackcount := 0\<rparr>) =
        k1\<lparr>k_ackcount := 0, k_probe_wait := a, k_ts_probe := b, k_probe := c'\<rparr>"
      using that flush_probe_frame [of "k1\<lparr>k_ackcount := 0\<rparr>"] by blast
    then have "k_snd_queue ?p = k_snd_queue k1" by simp
    then show ?thesis using flush_move_queue [of w c ?p] by (simp add: k2 flush_ssthresh_def Let_def)
  qed (use fl in \<open>simp add: ikcp_flush_def\<close>)
  obtain u ts where "fst (update_clock k t) = k\<lparr>k_current := t, k_updated := u, k_ts_flush := ts\<rparr>"
    using that update_clock_frame [of k t] by blast
  then have q: "k_snd_queue (fst (update_clock k t)) = k_snd_queue k" by simp
  show ?thesis
  proof (cases "snd (update_clock k t)")
    case True
    then have "ikcp_flush (fst (update_clock k t)) = Some (k', outs)" using assms by (simp add: update_split)
    from f [OF this] show ?thesis unfolding q .
  qed (use assms q in \<open>auto simp: update_split\<close>)
qed

end
