(* ===== verification/Kcp_Transport.thy ===== *)
theory Kcp_Transport
  imports Kcp_Frame
begin

text \<open>
  The transport as its two users see it.  \<open>transport_ok k\<close> is what a session and a client keep
  of their control block: the invariant, a valid configuration, an output callback, a peer
  window that came off the wire, message mode, and received segments no longer than a UDP
  datagram, in a queue so short that the size of a message stays in 31 bits.  Each call they make keeps it.
\<close>

definition MAX_DGRAM :: nat where "MAX_DGRAM = 65535"

definition transport_ok :: "kcb \<Rightarrow> bool" where
  "transport_ok k \<longleftrightarrow> kcp_inv k \<and> config_ok k \<and> k_output k \<and> unat (k_rmt_wnd k) < 2 ^ 16 \<and>
     k_stream k = 0 \<and> unat (k_rcv_wnd k) \<le> 2 ^ 15 \<and> rcv_fits MAX_DGRAM k"

lemma transportD:
  assumes "transport_ok k"
  shows "kcp_inv k" "config_ok k" "k_output k" "unat (k_rmt_wnd k) < 2 ^ 16" "k_stream k = 0"
    "unat (k_rcv_wnd k) \<le> 2 ^ 15" "rcv_fits MAX_DGRAM k"
  using assms by (simp_all add: transport_ok_def)

lemma config_mss: "config_ok k \<Longrightarrow> 0 < unat (k_mss k) \<and> unat (k_mss k) < 2 ^ 28 \<and> unat (k_mss k) + 24 = unat (k_mtu k)"
proof -
  assume c: "config_ok k"
  then have "IKCP_OVERHEAD \<le> k_mtu k" by (simp add: config_ok_def word_le_nat_alt IKCP_OVERHEAD_def)
  then have "unat (k_mss k) = unat (k_mtu k) - 24"
    using c by (simp add: config_ok_def unat_sub IKCP_OVERHEAD_def)
  then show ?thesis using c by (simp add: config_ok_def less_imp_diff_less)
qed

lemma same_rest_setup: "same_rest k k' \<Longrightarrow> same_setup k k'"
  by (simp add: same_rest_def)

lemma transport_setup:
  assumes "transport_ok k" "kcp_inv k'" "same_setup k k'" "rcv_fits MAX_DGRAM k'" shows "transport_ok k'"
proof -
  have s: "same_config k k'" "k_rmt_wnd k' = k_rmt_wnd k" using assms(3) by (simp_all add: same_setup_def)
  then show ?thesis using assms same_config_ok [OF s(1)] by (simp add: transport_ok_def same_config_def)
qed

lemma transport_rest:
  assumes "transport_ok k" "kcp_inv k'" "same_rest k k'" shows "transport_ok k'"
  using transport_setup [OF assms(1,2) same_rest_setup [OF assms(3)] same_rest_fits [OF assms(3)]] transportD(7) [OF assms(1)]
  by blast

text \<open>A message of a size that fits the windows is queued as a whole.\<close>

definition sendable :: "kcb \<Rightarrow> bytes \<Rightarrow> bool" where
  "sendable k b \<longleftrightarrow> length b < 2 ^ 31 \<and> length (k_snd_queue k) < 2 ^ 31 \<and>
     nfrags (unat (k_mss k)) (length b) < 128"

lemma small_sendable: "config_ok k \<Longrightarrow> length (k_snd_queue k) < 2 ^ 31 \<Longrightarrow> length b < 128 \<Longrightarrow> sendable k b"
proof -
  assume a: "config_ok k" "length (k_snd_queue k) < 2 ^ 31" "length b < 128"
  obtain m where m: "unat (k_mss k) = m" "0 < m" using config_mss [OF a(1)] by blast
  have "(length b + m - 1) div m \<le> length b"
  proof (cases "length b")
    case (Suc n)
    have "(n + m) div m = n div m + 1" using div_add_self2 [of m n] m(2) by blast
    then show ?thesis using Suc div_le_dividend [of n m] by simp
  qed (use m in simp)
  then have "nfrags m (length b) < 128" using a(3) unfolding nfrags_def by auto
  then show ?thesis using a m by (simp add: sendable_def)
qed

lemma transport_send:
  assumes "\<forall>n. malloc n" "transport_ok k" "length b < 2 ^ 31" "length (k_snd_queue k) < 2 ^ 31"
  shows "\<exists>rc k'. ikcp_send malloc k b (int (length b)) = Some (rc, k') \<and> transport_ok k' \<and>
    k_current k' = k_current k \<and> same_rest k k' \<and> length (k_snd_queue k') \<le> length (k_snd_queue k) + 127 \<and>
    (sendable k b \<longrightarrow> rc = 0 \<and> (\<exists>m. k_snd_queue k' = k_snd_queue k @ m \<and> whole_message m \<and> message_bytes m = b))"
proof -
  note t = transportD [OF assms(2)]
  have mss: "0 < unat (k_mss k)" "unat (k_mss k) < 2 ^ 31" using config_mss [OF t(2)] by simp_all
  let ?n = "nfrags (unat (k_mss k)) (length b)"
  note eq = send_message_mode [OF assms(1) mss assms(3) t(5)]
  show ?thesis
  proof (cases "?n \<ge> 128")
    case True
    then show ?thesis using eq assms(2) by (simp add: sendable_def)
  next
    case False
    let ?f = "frag_segs (unat (k_mss k)) False ?n b"
    let ?k = "k\<lparr>k_snd_queue := k_snd_queue k @ ?f, k_nsnd_que := k_nsnd_que k + of_nat ?n\<rparr>"
    have s: "ikcp_send malloc k b (int (length b)) = Some (0, ?k)" using eq False by (simp add: Let_def)
    have inv: "recv_inv k" "snd_ok k" "snd_fits k" using t(1) by (simp_all add: kcp_inv_def)
    then have "counters_ok k" "segs_ok k" by (simp_all add: recv_inv_def)
    from send_inv [OF assms(1) mss assms(3,4) this inv(3) s]
    have "counters_ok ?k" "segs_ok ?k" "snd_fits ?k" by blast+
    moreover have "snd_ok ?k" using inv(2) by (simp add: snd_ok_def)
    moreover have "rcv_ok ?k \<and> queue_inorder ?k" using inv(1) by (simp add: recv_inv_def rcv_ok_def queue_inorder_def)
    ultimately have k: "kcp_inv ?k" by (simp add: kcp_inv_def recv_inv_def)
    have cov: "length b \<le> ?n * unat (k_mss k)" "0 < ?n"
      using nfrags_covers [OF mss(1)] nfrags_pos [OF mss(1)] by blast+
    have w: "whole_message ?f" using cov assms(3) mss False by (intro frag_segs_whole) simp_all
    have len: "length ?f = ?n" by (rule length_frag_segs)
    have "transport_ok ?k" "same_rest k ?k"
      using transport_rest [OF assms(2) k send_config [OF s]] send_config [OF s] by blast+
    moreover have "length (k_snd_queue ?k) \<le> length (k_snd_queue k) + 127" using len False by simp
    moreover have "k_snd_queue ?k = k_snd_queue k @ ?f" "k_current ?k = k_current k" by simp_all
    ultimately show ?thesis
      using s w frag_segs_bytes [OF cov(1)] by blast
  qed
qed

lemma transport_update:
  assumes "transport_ok k"
  shows "\<exists>k' outs. ikcp_update k t = Some (k', outs) \<and> transport_ok k' \<and> same_rest k k' \<and>
    length (k_snd_queue k') \<le> length (k_snd_queue k) \<and> (\<forall>d \<in> set outs. 24 \<le> length d \<and> length d \<le> unat (k_mtu k))"
proof -
  obtain k' outs where u: "ikcp_update k t = Some (k', outs)" "kcp_inv k'"
    "\<forall>p \<in> set outs. 24 \<le> length p \<and> length p \<le> unat (k_mtu k)"
    using update_inv [OF transportD(1-4) [OF assms], of t] by blast
  then show ?thesis using update_config [OF u(1)] update_queue [OF u(1)] transport_rest [OF assms u(2)] by blast
qed

lemma transport_input:
  assumes "\<forall>n. malloc n" "transport_ok k" "length data \<le> MAX_DGRAM"
  shows "\<exists>rc k'. ikcp_input malloc k data = Some (rc, k') \<and> transport_ok k' \<and> same_config k k' \<and>
    k_snd_queue k' = k_snd_queue k"
proof -
  note t = transportD [OF assms(2)]
  obtain rc k' where i: "ikcp_input malloc k data = Some (rc, k')" "kcp_inv k'"
    using input_inv [OF assms(1) t(1), of data] by blast
  have "input_keeps MAX_DGRAM k k'" by (rule input_keeps_spec [OF i(1) assms(1) t(1) assms(3) t(4)])
  then have c: "same_config k k'" "unat (k_rmt_wnd k') < 2 ^ 16" "rcv_fits MAX_DGRAM k'" "k_snd_queue k' = k_snd_queue k"
    using t(7) by (simp_all add: input_keeps_def)
  have "config_ok k'" using same_config_ok [OF c(1) t(2)] .
  then show ?thesis using i c t by (auto simp: transport_ok_def same_config_def)
qed

lemma first_message_bound:
  "\<forall>s \<in> set q. unat (sg_len s) \<le> n \<Longrightarrow> total_len (first_message q) \<le> length q * n"
proof (induction q)
  case (Cons s q)
  have "total_len (first_message (s # q)) \<le> unat (sg_len s) + total_len (first_message q)"
    by (simp add: total_len_def)
  also have "\<dots> \<le> n + length q * n" using Cons by (intro add_mono) auto
  finally show ?case by simp
qed (simp add: total_len_def)

lemma first_message_set: "set (first_message q) \<subseteq> set q"
  by (induction q) auto

lemma peeksize_bytes:
  assumes "transport_ok k" "0 \<le> ikcp_peeksize k"
  shows "ikcp_peeksize k = int (length (message_bytes (first_message (k_rcv_queue k))))"
proof -
  let ?q = "k_rcv_queue k"
  have inv: "segs_ok k" using transportD(1) [OF assms(1)] by (simp add: kcp_inv_def recv_inv_def)
  then have ok: "\<forall>s \<in> set ?q. seg_ok s" by (simp add: segs_ok_def)
  have f: "length ?q \<le> 2 ^ 15" "\<forall>s \<in> set ?q. length (sg_data s) \<le> MAX_DGRAM"
    using transportD(6,7) [OF assms(1)] by (auto simp: rcv_fits_def)
  then have f: "length ?q \<le> 2 ^ 15" "\<forall>s \<in> set ?q. unat (sg_len s) \<le> MAX_DGRAM"
    using ok unfolding seg_ok_def by auto
  have "total_len (first_message ?q) \<le> length ?q * MAX_DGRAM" by (rule first_message_bound [OF f(2)])
  also have "\<dots> \<le> 2 ^ 15 * MAX_DGRAM" using f(1) by (rule mult_le_mono1)
  finally have b: "total_len (first_message ?q) < 2 ^ 31" by (simp add: MAX_DGRAM_def)
  have "ikcp_peeksize k = sint (of_nat (total_len (first_message ?q)) :: u32)"
  proof (cases "?q = []")
    case False
    then show ?thesis using assms(2) peeksize_merge [of k] peek_length_first [of 0 ?q] by simp
  qed (use assms(2) in \<open>simp add: ikcp_peeksize_def\<close>)
  also have "\<dots> = int (total_len (first_message ?q))"
    using b by (simp add: sint32_cases unat_of_nat take_bit_nat_eq_self)
  finally show ?thesis using total_len_bytes [of "first_message ?q"] ok first_message_set by (metis subsetD)
qed

text \<open>
  Receiving into a buffer of \<open>len\<close> bytes: a refusal changes nothing, and a success puts the
  first message of the queue, no longer than \<open>len\<close>, into the buffer.
\<close>

lemma transport_recv:
  assumes "transport_ok k" "0 \<le> len"
  shows "\<exists>rc out k'. ikcp_recv k len = Some (rc, out, k') \<and> transport_ok k' \<and> same_setup k k' \<and>
    k_snd_queue k' = k_snd_queue k \<and> (rc < 0 \<longrightarrow> rc \<in> {-1, -2, -3} \<and> out = [] \<and> k' = k) \<and>
    (0 \<le> rc \<longrightarrow> rc = int (length out) \<and> rc \<le> len \<and> out = message_bytes (first_message (k_rcv_queue k)))"
proof -
  note t = transportD [OF assms(1)]
  have inv: "recv_inv k" "snd_ok k" "snd_fits k" using t(1) by (simp_all add: kcp_inv_def)
  have s: "segs_ok k" using inv(1) by (simp add: recv_inv_def)
  obtain rc out k' where r: "ikcp_recv k len = Some (rc, out, k')"
    using recv_no_assert [of k len] by auto
  have "snd_ok k' \<and> snd_fits k'"
    using inv r recv_snd_side [OF s r] by (simp add: snd_ok_def snd_fits_def)
  then have k': "kcp_inv k'" using recv_inv_preserved [OF inv(1) r] by (simp add: kcp_inv_def)
  have "transport_ok k'"
    by (rule transport_setup [OF assms(1) k' recv_config [OF s r] recv_fits [OF inv(1) r t(7)]])
  moreover have "0 \<le> rc \<Longrightarrow> rc = ikcp_peeksize k \<and> rc \<le> len \<and> out = message_bytes (first_message (k_rcv_queue k))"
    "rc < 0 \<Longrightarrow> rc \<in> {-1, -2, -3} \<and> out = [] \<and> k' = k"
    using r assms(2) unfolding recv_cases [OF s] by (auto split: if_splits)
  ultimately show ?thesis using r recv_config [OF s r] recv_snd_side [OF s r] peeksize_bytes [OF assms(1)] by auto
qed

text \<open>A control block as the constructors set it up.\<close>

lemma create_kcp_inv: "ikcp_create malloc n conv = Some k \<Longrightarrow> kcp_inv k"
  by (auto simp: ikcp_create_def kcp_inv_def recv_inv_defs snd_ok_def snd_fits_def sorted_from_def
      ikcp_consts split: if_splits)

lemma empty_kcp_inv:
  assumes "k_snd_queue k = []" "k_snd_buf k = []" "k_rcv_queue k = []" "k_rcv_buf k = []"
    "k_nsnd_que k = 0" "k_nsnd_buf k = 0" "k_nrcv_que k = 0" "k_nrcv_buf k = 0" "k_ackcount k = 0"
    "k_snd_una k = k_snd_nxt k" "unat (k_rcv_wnd k) < 2 ^ 31"
  shows "kcp_inv k"
  using assms by (simp add: kcp_inv_def recv_inv_defs snd_ok_def snd_fits_def sorted_from_def)

lemma setmtu_sel:
  "k_snd_queue (snd (ikcp_setmtu malloc mtu k)) = k_snd_queue k" "k_snd_buf (snd (ikcp_setmtu malloc mtu k)) = k_snd_buf k"
  "k_rcv_queue (snd (ikcp_setmtu malloc mtu k)) = k_rcv_queue k" "k_rcv_buf (snd (ikcp_setmtu malloc mtu k)) = k_rcv_buf k"
  "k_nsnd_que (snd (ikcp_setmtu malloc mtu k)) = k_nsnd_que k" "k_nsnd_buf (snd (ikcp_setmtu malloc mtu k)) = k_nsnd_buf k"
  "k_nrcv_que (snd (ikcp_setmtu malloc mtu k)) = k_nrcv_que k" "k_nrcv_buf (snd (ikcp_setmtu malloc mtu k)) = k_nrcv_buf k"
  "k_ackcount (snd (ikcp_setmtu malloc mtu k)) = k_ackcount k" "k_snd_una (snd (ikcp_setmtu malloc mtu k)) = k_snd_una k"
  "k_snd_nxt (snd (ikcp_setmtu malloc mtu k)) = k_snd_nxt k" "k_rcv_wnd (snd (ikcp_setmtu malloc mtu k)) = k_rcv_wnd k"
  "k_rmt_wnd (snd (ikcp_setmtu malloc mtu k)) = k_rmt_wnd k" "k_stream (snd (ikcp_setmtu malloc mtu k)) = k_stream k"
  "k_conv (snd (ikcp_setmtu malloc mtu k)) = k_conv k"
  by (simp_all add: ikcp_setmtu_def)

text \<open>What the constructors of the session and of the client make of a new control block.\<close>

definition tuned :: "(nat \<Rightarrow> bool) \<Rightarrow> int \<Rightarrow> kcb \<Rightarrow> kcb" where
  "tuned malloc mtu k = (ikcp_setoutput True (snd (ikcp_wndsize 128 128 (snd (ikcp_nodelay 1 5 1 1
     (snd (ikcp_setmtu malloc mtu k)))))))\<lparr>k_rx_minrto := 10\<rparr>"

lemma tuned_transport:
  assumes "ikcp_create malloc n conv = Some k" "mtu < 2 ^ 15"
  shows "transport_ok (tuned malloc mtu k)" "k_conv (tuned malloc mtu k) = conv" "k_snd_queue (tuned malloc mtu k) = []"
    "k_mtu (tuned malloc mtu k) = k_mtu (snd (ikcp_setmtu malloc mtu k))"
proof -
  let ?m = "snd (ikcp_setmtu malloc mtu k)"
  let ?t = "ikcp_setoutput True (snd (ikcp_wndsize 128 128 (snd (ikcp_nodelay 1 5 1 1 ?m))))"
  have k: "k_snd_queue k = []" "k_snd_buf k = []" "k_rcv_queue k = []" "k_rcv_buf k = []"
    "k_nsnd_que k = 0" "k_nsnd_buf k = 0" "k_nrcv_que k = 0" "k_nrcv_buf k = 0" "k_ackcount k = 0"
    "k_snd_una k = k_snd_nxt k" "k_rmt_wnd k = 128" "k_stream k = 0" "k_conv k = conv"
    using assms(1) by (auto simp: ikcp_create_def IKCP_WND_RCV_def split: if_splits)
  have "config_ok ?m" using setmtu_config [OF create_ok(3) [OF assms(1)]] assms(2) by simp
  then have "config_ok (snd (ikcp_wndsize 128 128 (snd (ikcp_nodelay 1 5 1 1 ?m))))"
    using wndsize_config [OF nodelay_config] by simp
  then have c: "config_ok (tuned malloc mtu k)"
    by (simp add: tuned_def ikcp_setoutput_def config_ok_def IKCP_RTO_MAX_def)
  note d = tuned_def ikcp_setoutput_def ikcp_wndsize_def ikcp_nodelay_def Let_def
  have w: "k_rcv_wnd (tuned malloc mtu k) = 128" by (simp add: d imax_def IKCP_WND_RCV_def)
  have q: "k_rcv_queue (tuned malloc mtu k) = []" "k_rcv_buf (tuned malloc mtu k) = []"
    by (simp_all add: d setmtu_sel k)
  have "kcp_inv (tuned malloc mtu k)"
    by (rule empty_kcp_inv) (simp_all add: w, simp_all add: d setmtu_sel k)
  then show "transport_ok (tuned malloc mtu k)"
    using c w q by (simp add: transport_ok_def rcv_fits_def) (simp add: d setmtu_sel k)
  show "k_conv (tuned malloc mtu k) = conv" "k_snd_queue (tuned malloc mtu k) = []" "k_mtu (tuned malloc mtu k) = k_mtu ?m"
    by (simp_all add: d setmtu_sel k)
qed

end
