(* ===== verification/Kcp_Properties.thy ===== *)
theory Kcp_Properties
  imports Kcp_Transport
begin

text \<open>
  The properties of the KCP transport, each over the operations of \<^verbatim>\<open>ikcp.c\<close> as the
  theories \<open>Kcp_Base\<close> to \<open>Kcp_Flush\<close> model them, with their witnesses on the control block
  that \<open>ikcp_create\<close> returns.
\<close>

section \<open>Concrete control blocks\<close>

definition kcp_demo :: kcb where
  "kcp_demo = ikcp_setoutput True (the (ikcp_create (\<lambda>_. True) 512 7))"

definition seg_demo :: kseg where
  "seg_demo = seg_blank\<lparr>sg_conv := 7, sg_cmd := IKCP_CMD_PUSH, sg_len := 3, sg_data := [1, 2, 3]\<rparr>"

lemma demo_create: "ikcp_create (\<lambda>_. True) 512 7 = Some (kcp_demo\<lparr>k_output := False\<rparr>)"
  by (simp add: kcp_demo_def ikcp_create_def ikcp_setoutput_def)

lemma demo_inv: "kcp_inv kcp_demo"
  by (rule kcp_inv_cong [OF create_kcp_inv [OF demo_create]])
    (simp_all add: kcp_demo_def ikcp_create_def ikcp_setoutput_def)

lemma demo_config: "config_ok kcp_demo"
  by (rule config_ok_cong [OF create_ok(3) [OF demo_create]]) simp_all

lemmas demo_eval = kcp_demo_def ikcp_create_def ikcp_setoutput_def ikcp_consts

lemma demo_sel:
  "k_ackcount kcp_demo = 0" "k_rmt_wnd kcp_demo = 128" "k_snd_wnd kcp_demo = 32" "k_probe kcp_demo = 0"
  "k_nocwnd kcp_demo = 0" "k_snd_una kcp_demo = 0" "k_snd_nxt kcp_demo = 0" "k_snd_buf kcp_demo = []"
  "k_snd_queue kcp_demo = []" "k_fastresend kcp_demo = 0" "k_nodelay kcp_demo = 0" "k_output kcp_demo"
  "k_mss kcp_demo = 1376" "k_stream kcp_demo = 0" "k_nsnd_que kcp_demo = 0"
  by (simp_all add: demo_eval)

lemma kcp_inv_parts: "kcp_inv k \<Longrightarrow> recv_inv k \<and> counters_ok k \<and> segs_ok k \<and> snd_ok k \<and> snd_fits k"
  by (simp add: kcp_inv_def recv_inv_def)

section \<open>Safety of the two loops that face the network\<close>

text \<open>
  C1. Whatever bytes arrive, \<open>ikcp_input\<close> returns one of its four codes, dereferences nothing
  it should not and keeps the invariant of the control block: counters equal to queue lengths,
  both buffers sorted and inside their windows, the ordered queue without gaps, and every
  queued segment no longer than the maximum segment size.
\<close>

theorem kcp_input_safe:
  assumes "\<forall>n. malloc n" and "kcp_inv k"
  shows "\<exists>rc k'. ikcp_input malloc k data = Some (rc, k') \<and> kcp_inv k' \<and> rc \<in> {0, -1, -2, -3}"
  by (rule input_inv [OF assms])

theorem kcp_input_safe_witness:
  "\<exists>rc k'. ikcp_input (\<lambda>_. True) kcp_demo (seg_bytes seg_demo) = Some (rc, k') \<and> kcp_inv k' \<and>
     rc \<in> {0, -1, -2, -3}"
  using kcp_input_safe [of "\<lambda>_. True" kcp_demo "seg_bytes seg_demo"] demo_inv by simp

text \<open>
  C2. A flush of a well-formed control block never writes outside its buffer, hands every
  datagram to the output callback with a size between one segment header and the MTU, keeps the
  invariant, loses no queued data, and leaves no more segments in flight than the window
  allows (or than were there).
\<close>

theorem kcp_flush_safe:
  assumes "kcp_inv k" and "config_ok k" and "k_output k" and "unat (k_rmt_wnd k) < 2 ^ 16"
    and "k_updated k \<noteq> 0"
  shows "\<exists>k' outs. ikcp_flush k = Some (k', outs) \<and> kcp_inv k' \<and>
     (\<forall>p \<in> set outs. 24 \<le> length p \<and> length p \<le> unat (k_mtu k)) \<and>
     map sg_data (k_snd_buf k') @ map sg_data (k_snd_queue k') =
       map sg_data (k_snd_buf k) @ map sg_data (k_snd_queue k) \<and>
     off (k_snd_una k') (k_snd_nxt k') \<le> max (off (k_snd_una k) (k_snd_nxt k)) (unat (flush_cwnd k)) \<and>
     1 \<le> k_cwnd k'"
  using flush_spec [OF assms] by blast

theorem kcp_flush_safe_witness:
  "\<exists>k' outs. ikcp_flush (kcp_demo\<lparr>k_updated := 1\<rparr>) = Some (k', outs) \<and> kcp_inv k' \<and>
     (\<forall>p \<in> set outs. 24 \<le> length p \<and> length p \<le> 1400) \<and> 1 \<le> k_cwnd k'"
proof -
  have "kcp_inv (kcp_demo\<lparr>k_updated := 1\<rparr>)"
    by (rule kcp_inv_cong [OF demo_inv]) (simp_all add: kcp_inv_acks demo_inv)
  moreover have "config_ok (kcp_demo\<lparr>k_updated := 1\<rparr>)" by (rule config_ok_cong [OF demo_config]) simp_all
  moreover have "unat (k_mtu kcp_demo) = 1400" "unat (k_rmt_wnd kcp_demo) = 128" "k_output kcp_demo"
    by (simp_all add: demo_eval)
  ultimately show ?thesis using kcp_flush_safe [of "kcp_demo\<lparr>k_updated := 1\<rparr>"] by auto
qed

section \<open>Delivery\<close>

text \<open>
  C3. The reorder buffer implements its specification: accepting a segment into the sorted
  list and draining it is, on the abstract state (next serial number, ordered queue, map of
  pending segments), insertion of a segment not yet pending followed by delivery of every
  consecutive one the queue has room for.
\<close>

theorem kcp_reorder_refines:
  assumes "recv_inv k" and "seg_ok s"
  shows "recv_abs (ikcp_parse_data k s) = spec_accept s (recv_abs k) \<and> recv_inv (ikcp_parse_data k s)"
  using parse_data_refines [OF assms] parse_data_inv [OF assms] by blast

theorem kcp_reorder_refines_witness:
  "recv_abs (ikcp_parse_data kcp_demo (seg_demo\<lparr>sg_sn := 1\<rparr>)) =
     spec_accept (seg_demo\<lparr>sg_sn := 1\<rparr>) (recv_abs kcp_demo)"
proof -
  have "seg_ok (seg_demo\<lparr>sg_sn := 1\<rparr>)" by (simp add: seg_ok_def seg_demo_def)
  then show ?thesis using kcp_reorder_refines [of kcp_demo] demo_inv by (simp add: kcp_inv_parts)
qed

text \<open>
  C4. A message is read back as it was sent: when the fragments that \<open>ikcp_send\<close> queued in
  message mode arrive in order at the head of the peer's receive queue, \<open>ikcp_recv\<close> with a
  large enough buffer returns exactly the bytes sent, and their number.
\<close>

theorem kcp_message_roundtrip:
  assumes "\<forall>n. malloc n" "0 < unat (k_mss k)" "unat (k_mss k) < 2 ^ 31" "length b < 2 ^ 31"
    and "k_stream k = 0" "nfrags (unat (k_mss k)) (length b) < 128"
    and "counters_ok q" "segs_ok q" "map (\<lambda>s. (sg_frg s, sg_len s, sg_data s)) (k_rcv_queue q) =
      map (\<lambda>s. (sg_frg s, sg_len s, sg_data s)) m @ rest"
    and "ikcp_send malloc k b (int (length b)) = Some (rc, k')" "k_snd_queue k' = k_snd_queue k @ m"
    and "length b \<le> n"
  shows "\<exists>q'. ikcp_recv q (int n) = Some (int (length b), b, q')"
  by (rule send_recv_message [OF assms(1-6) assms(7-9) assms(10,11) assms(12)])

definition frag_demo :: kseg where
  "frag_demo = seg_blank\<lparr>sg_data := [1, 2, 3], sg_len := 3, sg_frg := 0\<rparr>"

definition queue_demo :: kcb where
  "queue_demo = kcp_demo\<lparr>k_rcv_queue := [frag_demo], k_nrcv_que := 1\<rparr>"

theorem kcp_message_roundtrip_witness:
  "\<exists>q'. ikcp_recv queue_demo 100 = Some (3, [1, 2, 3], q')"
proof -
  have mss: "unat (k_mss kcp_demo) = 1376" "k_stream kcp_demo = 0" by (simp_all add: demo_eval)
  have q: "counters_ok queue_demo" "segs_ok queue_demo"
    using kcp_inv_parts [OF demo_inv]
    by (auto simp: queue_demo_def counters_ok_def segs_ok_def seg_ok_def frag_demo_def)
  have rq: "k_rcv_queue kcp_demo = []" "k_snd_queue kcp_demo = []" by (simp_all add: demo_eval)
  let ?k' = "kcp_demo\<lparr>k_snd_queue := k_snd_queue kcp_demo @ [frag_demo], k_nsnd_que := k_nsnd_que kcp_demo + 1\<rparr>"
  have "ikcp_send (\<lambda>_. True) kcp_demo [1, 2, 3] (int (length [1, 2, 3 :: u8])) = Some (0, ?k')"
    using send_message_mode [of "\<lambda>_. True" kcp_demo "[1, 2, 3]"] mss
    by (simp add: nfrags_def Let_def frag_demo_def)
  then have "\<exists>q'. ikcp_recv queue_demo (int 100) = Some (int (length [1, 2, 3 :: u8]), [1, 2, 3], q')"
    using q mss by (intro kcp_message_roundtrip [of "\<lambda>_. True" kcp_demo "[1, 2, 3]" queue_demo "[frag_demo]" "[]" 0 ?k' 100])
      (simp_all add: nfrags_def queue_demo_def rq)
  then show ?thesis by simp
qed

text \<open>
  \<open>ikcp_recv\<close> is total: its assertion \<open>len == peeksize\<close> holds in every state, for every
  buffer size, peek or not; a refusal leaves the control block and the buffer untouched, and a
  success returns the first message of the queue, no longer than the buffer.
\<close>

theorem kcp_recv_total:
  assumes "segs_ok k"
  shows "\<exists>rc out k'. ikcp_recv k len = Some (rc, out, k') \<and>
     (rc < 0 \<longrightarrow> rc \<in> {-1, -2, -3} \<and> out = [] \<and> k' = k) \<and>
     (0 \<le> rc \<longrightarrow> rc \<le> \<bar>len\<bar> \<and> out = message_bytes (first_message (k_rcv_queue k)))"
  using recv_cases [OF assms, of len] by auto

theorem kcp_recv_total_witness:
  "\<exists>rc out k'. ikcp_recv queue_demo 2 = Some (rc, out, k') \<and> (rc < 0 \<longrightarrow> k' = queue_demo)"
proof -
  have "segs_ok queue_demo"
    using kcp_inv_parts [OF demo_inv] by (auto simp: queue_demo_def segs_ok_def seg_ok_def frag_demo_def)
  then show ?thesis using kcp_recv_total [of queue_demo 2] by blast
qed

section \<open>Acknowledgement\<close>

text \<open>
  A cumulative acknowledgement at or after the oldest unacknowledged segment removes
  exactly the segments before it: the early exit of the scan is exact because the buffer is
  in serial order, also across the wrap of the serial numbers.
\<close>

theorem kcp_una_exact:
  assumes "snd_ok k" and "off (k_snd_una k) una < 2 ^ 31"
  shows "k_snd_buf (ikcp_parse_una k una) =
     filter (\<lambda>s. off (k_snd_una k) una \<le> off (k_snd_una k) (sg_sn s)) (k_snd_buf k)"
  by (rule parse_una_filter [OF assms])

definition wrap_demo :: kcb where
  "wrap_demo = kcp_demo\<lparr>k_snd_una := 0xffffffff, k_snd_nxt := 2, k_nsnd_buf := 3,
     k_snd_buf := [seg_demo\<lparr>sg_sn := 0xffffffff\<rparr>, seg_demo\<lparr>sg_sn := 0\<rparr>, seg_demo\<lparr>sg_sn := 1\<rparr>]\<rparr>"

lemma wrap_demo_ok: "snd_ok wrap_demo"
  by (simp add: wrap_demo_def snd_ok_def sorted_from_def off_def)

theorem kcp_una_exact_witness:
  "k_snd_buf (ikcp_parse_una wrap_demo 1) = [seg_demo\<lparr>sg_sn := 1\<rparr>]"
  using kcp_una_exact [OF wrap_demo_ok, of 1] by (simp add: wrap_demo_def off_def)

text \<open>
  A selective acknowledgement removes exactly the segment it names, if it is in flight.\<close>

theorem kcp_ack_exact:
  assumes "snd_ok k"
  shows "k_snd_buf (ikcp_parse_ack k sn) = filter (\<lambda>s. sg_sn s \<noteq> sn) (k_snd_buf k)"
  by (rule parse_ack_filter [OF assms])

theorem kcp_ack_exact_witness:
  "k_snd_buf (ikcp_parse_ack wrap_demo 0) = [seg_demo\<lparr>sg_sn := 0xffffffff\<rparr>, seg_demo\<lparr>sg_sn := 1\<rparr>]"
  using kcp_ack_exact [OF wrap_demo_ok, of 0] by (simp add: wrap_demo_def)

text \<open>
  Acknowledgements to send are queued in arrival order; the array grows when it is full,
  to a capacity that holds them, and never beyond twice what is needed (or eight).
\<close>

theorem kcp_ack_push_appends:
  assumes "\<forall>n. malloc n" and "k_ackcount k \<le> length (k_acklist k)"
  shows "\<exists>k'. ikcp_ack_push malloc k sn ts = Some k' \<and> pending_acks k' = pending_acks k @ [(sn, ts)] \<and>
     k_ackcount k' \<le> length (k_acklist k') \<and>
     length (k_acklist k') \<le> max (length (k_acklist k)) (max 8 (2 * k_ackcount k'))"
proof -
  obtain al where al: "ikcp_ack_push malloc k sn ts = Some (k\<lparr>k_acklist := al, k_ackcount := Suc (k_ackcount k)\<rparr>)"
    using ack_push_spec [OF assms] by blast
  have "length al \<le> max (length (k_acklist k)) (max 8 (2 * Suc (k_ackcount k)))"
  proof (cases "k_ackcount k + 1 > length (k_acklist k)")
    case True
    let ?n = "ack_newblock (k_ackcount k + 1) 8"
    have "al = (take (k_ackcount k) (k_acklist k) @ replicate (?n - k_ackcount k) (0, 0))[k_ackcount k := (sn, ts)]"
      using al True assms(1) by (auto simp: ikcp_ack_push_def Let_def dest: arg_cong [where f = k_acklist])
    then have "length al = max (k_ackcount k) ?n" using True assms(2) by simp
    then show ?thesis using ack_newblock_le [of 8 "k_ackcount k + 1"] by (auto simp: max_def split: if_splits)
  next
    case False
    then have "al = (k_acklist k)[k_ackcount k := (sn, ts)]"
      using al by (auto simp: ikcp_ack_push_def dest: arg_cong [where f = k_acklist])
    then show ?thesis by simp
  qed
  then show ?thesis using al ack_push_pending [OF assms al] by simp
qed

theorem kcp_ack_push_appends_witness:
  "\<exists>k'. ikcp_ack_push (\<lambda>_. True) kcp_demo 5 9 = Some k' \<and> pending_acks k' = [(5, 9)]"
  using kcp_ack_push_appends [of "\<lambda>_. True" kcp_demo 5 9] by (auto simp: demo_eval pending_acks_def)

section \<open>The wire\<close>

text \<open>
  C38. Segment headers: what \<open>ikcp_encode_seg\<close> appends is 24 bytes that the decoding sequence of
  \<open>ikcp_input\<close> reads back field by field, whatever follows; and every header that decodes is
  the encoding of what was decoded.
\<close>

theorem kcp_header_roundtrip:
  "decode_seg_header (drop (length p) (ikcp_encode_seg p s) @ rest) = Some (header_of_seg s, rest) \<and>
   length (ikcp_encode_seg p s) = length p + 24 \<and>
   (\<forall>bs h r. decode_seg_header bs = Some (h, r) \<longrightarrow> bs = enc_header h @ r)"
  by (simp add: encode_seg_eq kcp_hdr.dec_enc kcp_hdr.enc_width) (blast dest: kcp_hdr.dec_Some)

theorem kcp_header_roundtrip_witness:
  "decode_seg_header (drop (length []) (ikcp_encode_seg [] seg_demo) @ [9]) = Some (header_of_seg seg_demo, [9]) \<and>
   enc_header (header_of_seg seg_demo) @ [9] = ikcp_encode_seg [] seg_demo @ [9]"
  using kcp_header_roundtrip [of "[]" seg_demo "[9]"] by (auto simp: encode_seg_eq)

section \<open>Time\<close>

text \<open>
  The schedule that \<open>ikcp_check\<close> gives is safe to sleep by: the moment it returns is at
  most one interval away, an \<open>ikcp_update\<close> strictly before it sends nothing and flushes
  nothing, and no segment in flight reaches its retransmission time before it.
\<close>

theorem kcp_check_schedule:
  assumes "ikcp_check k t \<noteq> t" and "unat (k_interval k) < 2 ^ 31"
    and "off t t' < off t (ikcp_check k t)"
  shows "off t (ikcp_check k t) \<le> unat (k_interval k) \<and>
     (\<exists>k'. ikcp_update k t' = Some (k', []) \<and> k_snd_buf k' = k_snd_buf k \<and> k_ts_flush k' = k_ts_flush k) \<and>
     (\<forall>s \<in> set (k_snd_buf k). itimediff t' (sg_resendts s) < 0)"
proof -
  note cb = check_bounds [OF assms(1,2)]
  let ?c = "off t (ikcp_check k t)"
  have small: "off t x < 2 ^ 31 \<and> itimediff t' x = int (off t t') - int (off t x)"
    if "int ?c \<le> itimediff x t" for x
  proof -
    have "0 \<le> sint (x - t)" using that by simp
    then have "off t x < 2 ^ 31" by (simp add: sint32_nonneg_iff off_def)
    moreover have "off t t' < 2 ^ 31" using assms(2,3) cb(1) by simp
    ultimately show ?thesis using sint_diff_off [of t t' x] by simp
  qed
  have pos: "itimediff x t = int (off t x)" if "off t x < 2 ^ 31" for x
    using sint_diff_off [of t x t] that by simp
  let ?d = "itimediff t' (k_ts_flush k)"
  have ts: "off t (k_ts_flush k) < 2 ^ 31" "?d = int (off t t') - int (off t (k_ts_flush k))"
    using small [OF cb(2)] by blast+
  have "int (off t t') < int (off t (k_ts_flush k))" using cb(2) assms(3) pos [OF ts(1)] by linarith
  then have neg: "?d < 0" "\<not> ?d < -10000" using ts(2) cb(4) pos [OF ts(1)] by linarith+
  then have "ikcp_update k t' = Some (k\<lparr>k_current := t'\<rparr>, [])"
    using cb(6) by (simp add: ikcp_update_def Let_def)
  moreover have "itimediff t' (sg_resendts s) < 0" if "s \<in> set (k_snd_buf k)" for s
  proof -
    have b: "int ?c \<le> itimediff (sg_resendts s) t" using cb(5) that by blast
    then show ?thesis using small [OF b] pos assms(3) by fastforce
  qed
  ultimately show ?thesis using cb(1) by simp
qed

definition clock_demo :: kcb where
  "clock_demo = kcp_demo\<lparr>k_updated := 1, k_ts_flush := 1050\<rparr>"

theorem kcp_check_schedule_witness:
  "ikcp_check clock_demo 1000 = 1050 \<and> (\<exists>k'. ikcp_update clock_demo 1049 = Some (k', []))"
proof -
  have c: "ikcp_check clock_demo 1000 = 1050"
    by (simp add: ikcp_check_def clock_demo_def demo_eval)
  then show ?thesis
    using kcp_check_schedule [of clock_demo 1000 1049] by (auto simp: off_def clock_demo_def demo_eval)
qed

text \<open>
  The retransmission timeout stays between the configured minimum and sixty seconds after
  every round-trip sample, whatever the sample and the current estimate, and the estimate
  itself never becomes zero once there is one, as long as no sum leaves the 32-bit range.
\<close>

theorem kcp_rto_bounds:
  assumes "k_rx_minrto k \<le> IKCP_RTO_MAX"
  shows "k_rx_minrto k \<le> k_rx_rto (ikcp_update_ack k rtt) \<and> k_rx_rto (ikcp_update_ack k rtt) \<le> IKCP_RTO_MAX \<and>
     (k_rx_srtt k \<noteq> 0 \<longrightarrow> 0 < sint (k_rx_srtt (ikcp_update_ack k rtt)))"
  using ibound_range [OF assms] by (auto simp: ikcp_update_ack_def Let_def)

theorem kcp_rto_bounds_witness:
  "100 \<le> k_rx_rto (ikcp_update_ack kcp_demo 70000) \<and> k_rx_rto (ikcp_update_ack kcp_demo 70000) \<le> 60000"
  using kcp_rto_bounds [of kcp_demo 70000] by (simp add: demo_eval)

text \<open>
  C39. \<open>_itimediff\<close> is a serial-number comparison only where \<open>long\<close> has 32 bits.  With a 64-bit
  \<open>long\<close> its result is never negative, so that every guard \<open>_itimediff(...) < 0\<close> is dead; at
  32 bits it is the signed difference inside half of the number space.
\<close>

theorem itimediff_width:
  "0 \<le> itimediff_w 64 a b \<and> itimediff_w 32 a b = sint (a - b) \<and>
   (a \<noteq> b \<and> unat (b - a) < 2 ^ 31 \<longrightarrow> itimediff_w 32 a b < 0)"
proof (intro conjI impI)
  assume *: "a \<noteq> b \<and> unat (b - a) < 2 ^ 31"
  obtain n where n: "unat (b - a) = n" by simp
  then have "0 < n" using * by (metis gr0I right_minus_eq unat_eq_0)
  moreover have "a - b = - (b - a)" by simp
  then have "unat (a - b) = 2 ^ 32 - n" using unat_sub32 [of 0 "b - a"] n \<open>0 < n\<close> by simp
  moreover have "n < 2 ^ 31" using * n by simp
  ultimately have "sint (a - b) < 0" unfolding sint32_neg_iff by simp
  then show "itimediff_w 32 a b < 0" by (simp add: itimediff_w_def c_long_of_u32_32)
qed (simp_all add: itimediff_w_def c_long_of_u32_32 c_long_of_u32_64_nonneg)

theorem itimediff_width_witness: "itimediff_w 32 (5 :: u32) 6 < 0 \<and> 0 \<le> itimediff_w 64 (5 :: u32) 6"
  using itimediff_width [of 5 6] by simp

section \<open>Sending and configuration\<close>

text \<open>
  \<open>ikcp_send\<close> in message mode cuts the message into the least number of fragments of at
  most \<open>mss\<close> bytes, appends them in order with countdown numbers, and refuses, changing
  nothing, exactly the messages that need 128 fragments or more.
\<close>

theorem kcp_send_fragments:
  assumes "\<forall>n. malloc n" "0 < unat (k_mss k)" "unat (k_mss k) < 2 ^ 31" "length b < 2 ^ 31"
    and "k_stream k = 0"
  shows "if nfrags (unat (k_mss k)) (length b) \<ge> 128
     then ikcp_send malloc k b (int (length b)) = Some (-2, k)
     else \<exists>k' m. ikcp_send malloc k b (int (length b)) = Some (0, k') \<and> k_snd_queue k' = k_snd_queue k @ m \<and>
       length m = nfrags (unat (k_mss k)) (length b) \<and> message_bytes m = b \<and> whole_message m \<and>
       (\<forall>s \<in> set m. unat (sg_len s) \<le> unat (k_mss k)) \<and>
       map (\<lambda>s. unat (sg_frg s)) m = rev [0 ..< length m]"
proof -
  let ?m = "unat (k_mss k)" and ?n = "nfrags (unat (k_mss k)) (length b)"
  note eq = send_message_mode [OF assms]
  have cov: "length b \<le> ?n * ?m" "0 < ?n" using nfrags_covers [OF assms(2)] nfrags_pos [OF assms(2)] by blast+
  show ?thesis
  proof (cases "?n \<ge> 128")
    case False
    let ?f = "frag_segs ?m False ?n b"
    have "whole_message ?f" using cov assms(3,4) False by (intro frag_segs_whole) simp_all
    moreover have "\<forall>s \<in> set ?f. unat (sg_len s) \<le> ?m" using frag_segs_ok [of ?m False ?n b] assms(3) by simp
    ultimately show ?thesis
      using eq False cov frag_segs_bytes [OF cov(1)] frag_segs_frg [of ?n ?m b] by (simp add: Let_def)
  qed (use eq in \<open>simp add: Let_def\<close>)
qed

theorem kcp_send_fragments_witness:
  "\<exists>k' m. ikcp_send (\<lambda>_. True) kcp_demo [1, 2, 3] (int (length [1, 2, 3 :: u8])) = Some (0, k') \<and>
     k_snd_queue k' = k_snd_queue kcp_demo @ m \<and> message_bytes m = [1, 2, 3]"
proof -
  have "unat (k_mss kcp_demo) = 1376" "k_stream kcp_demo = 0" by (simp_all add: demo_eval)
  then show ?thesis using kcp_send_fragments [of "\<lambda>_. True" kcp_demo "[1, 2, 3]"]
    by (simp add: nfrags_def) blast
qed

text \<open>C40. Sending, in message mode or in streaming mode, keeps counters, segments and sizes well formed.\<close>

theorem kcp_send_invariant:
  assumes "\<forall>n. malloc n" "0 < unat (k_mss k)" "unat (k_mss k) < 2 ^ 31" "length b < 2 ^ 31"
    and "length (k_snd_queue k) < 2 ^ 31" "counters_ok k" "segs_ok k" "snd_fits k"
    and "ikcp_send malloc k b (int (length b)) = Some (rc, k')"
  shows "counters_ok k' \<and> segs_ok k' \<and> snd_fits k'"
  by (rule send_inv [OF assms])

definition stream_demo :: kcb where
  "stream_demo = kcp_demo\<lparr>k_stream := 1, k_mtu := 50, k_mss := 26,
     k_snd_queue := [frag_demo], k_nsnd_que := 1\<rparr>"

lemma stream_demo_ok: "counters_ok stream_demo" "segs_ok stream_demo" "snd_fits stream_demo"
  using kcp_inv_parts [OF demo_inv]
  by (auto simp: stream_demo_def counters_ok_def segs_ok_def seg_ok_def snd_fits_def frag_demo_def demo_eval)

lemma stream_demo_sel: "k_mss stream_demo = 26" "k_stream stream_demo = 1" "k_snd_queue stream_demo = [frag_demo]"
  by (simp_all add: stream_demo_def)

theorem kcp_send_invariant_witness:
  "\<exists>k'. ikcp_send (\<lambda>_. True) stream_demo [4, 5] 2 = Some (0, k') \<and> counters_ok k' \<and> segs_ok k' \<and> snd_fits k'"
proof -
  obtain k' where "ikcp_send (\<lambda>_. True) stream_demo [4, 5] (int (length [4, 5 :: u8])) = Some (0, k')"
    by (simp add: ikcp_send_def stream_extend_def stream_demo_sel frag_demo_def Let_def ikcp_segment_new_def)
  then show ?thesis
    using kcp_send_invariant [of "\<lambda>_. True" stream_demo "[4, 5]" 0 k'] stream_demo_ok stream_demo_sel by simp
qed

text \<open>
  In streaming mode a refusal is not without effect: when the last queued segment has room
  and the rest of the message needs 128 fragments or more, \<open>ikcp_send\<close> returns \<open>-2\<close> although
  it has already queued the first bytes of the message.
\<close>

theorem kcp_stream_refusal_keeps_bytes:
  assumes "\<forall>n. malloc n" "0 < unat (k_mss k)" "unat (k_mss k) < 2 ^ 31" "length b < 2 ^ 31"
    and "segs_ok k" "snd_fits k" "counters_ok k" "k_stream k \<noteq> 0"
    and "128 \<le> nfrags (unat (k_mss k)) (length b - stream_room k)" "stream_room k < length b"
  shows "\<exists>k'. ikcp_send malloc k b (int (length b)) = Some (-2, k') \<and>
     message_bytes (k_snd_queue k') = message_bytes (k_snd_queue k) @ take (stream_room k) b"
proof -
  let ?r = "drop (stream_room k) b"
  obtain k1 where k1: "stream_extend malloc b (int (length b)) k = Some (k1, ?r, int (length ?r))"
    "message_bytes (k_snd_queue k1) = message_bytes (k_snd_queue k) @ take (stream_room k) b"
    "k_mss k1 = k_mss k"
    using stream_extend_spec [OF assms(1,3,4,5,6,7)] by blast
  have "send_fragments malloc ?r (int (length ?r)) k1 = Some (-2, k1)"
    using send_fragments_eq [of malloc k1 ?r] assms k1(3) by (simp add: Let_def)
  moreover have "\<not> int (length ?r) \<le> 0" using assms(10) by simp
  ultimately have "ikcp_send malloc k b (int (length b)) = Some (-2, k1)"
    using assms(2,8) k1(1) by (simp only: ikcp_send_def) (simp add: word_less_nat_alt)
  then show ?thesis using k1(2) by blast
qed

theorem kcp_stream_refusal_keeps_bytes_witness:
  "\<exists>k'. ikcp_send (\<lambda>_. True) stream_demo (replicate 4000 1) 4000 = Some (-2, k') \<and>
     message_bytes (k_snd_queue k') = [1, 2, 3] @ replicate 23 1"
proof -
  have "stream_room stream_demo = 23" "message_bytes (k_snd_queue stream_demo) = [1, 2, 3]"
    by (simp_all add: stream_room_def stream_demo_sel frag_demo_def message_bytes_def)
  then show ?thesis
    using kcp_stream_refusal_keeps_bytes [of "\<lambda>_. True" stream_demo "replicate 4000 1"]
      stream_demo_ok stream_demo_sel
    by (simp add: nfrags_def)
qed

text \<open>
  The configuration calls keep the configuration within its limits: the segment size
  follows the MTU and the buffer holds three datagrams, the receive window never shrinks
  below the largest message, the interval stays between 10 ms and 5 s.
\<close>

theorem kcp_configuration:
  assumes "config_ok k" and "mtu < 2 ^ 28" and "r < 2 ^ 31"
  shows "config_ok (snd (ikcp_setmtu malloc mtu k)) \<and> config_ok (snd (ikcp_interval i k)) \<and>
     config_ok (snd (ikcp_nodelay nd i rs nc k)) \<and> config_ok (snd (ikcp_wndsize s r k)) \<and>
     (fst (ikcp_setmtu malloc mtu k) = 0 \<longleftrightarrow> 50 \<le> mtu \<and> malloc (buffer_size (word_of_int mtu)))"
  using assms setmtu_config interval_config nodelay_config wndsize_config setmtu_result by blast

theorem kcp_configuration_witness:
  "config_ok (snd (ikcp_setmtu (\<lambda>_. True) 512 kcp_demo)) \<and> config_ok (snd (ikcp_wndsize 64 10 kcp_demo))"
  using kcp_configuration [OF demo_config, of 512 10 "\<lambda>_. True"] by simp

text \<open>
  \<open>ikcp_setmtu\<close> checks nothing that is already queued: a message sent under the default
  MTU and flushed after the MTU was lowered to 50 is written past the end of the new output
  buffer.
\<close>

theorem kcp_setmtu_overflow:
  "\<exists>k1 k2. ikcp_send (\<lambda>_. True) (kcp_demo\<lparr>k_updated := 1, k_cwnd := 1\<rparr>) (replicate 200 0) 200 = Some (0, k1) \<and>
     ikcp_setmtu (\<lambda>_. True) 50 k1 = (0, k2) \<and> ikcp_flush k2 = None"
proof -
  let ?k = "kcp_demo\<lparr>k_updated := 1, k_cwnd := 1\<rparr>"
  let ?s = "seg_blank\<lparr>sg_data := replicate 200 0, sg_len := 200, sg_frg := 0\<rparr>"
  let ?k1 = "?k\<lparr>k_snd_queue := [?s], k_nsnd_que := 1\<rparr>"
  let ?k2 = "?k1\<lparr>k_mtu := 50, k_mss := 26, k_bufsize := 222\<rparr>"
  have s: "ikcp_send (\<lambda>_. True) ?k (replicate 200 0) (int (length (replicate 200 (0::u8)))) = Some (0, ?k1)"
    by (subst send_message_mode) (simp_all add: demo_sel nfrags_def Let_def)
  have m: "ikcp_setmtu (\<lambda>_. True) 50 ?k1 = (0, ?k2)"
    by (simp add: ikcp_setmtu_def IKCP_OVERHEAD_def buffer_size_def)
  obtain k where k: "k = ?k2" by simp
  have sel: "k_updated k = 1" "k_ackcount k = 0" "k_rmt_wnd k = 128" "k_probe k = 0" "k_mtu k = 50"
    "k_snd_una k = 0" "k_snd_nxt k = 0" "k_snd_queue k = [?s]" "k_snd_buf k = []" "k_bufsize k = 222"
    "k_output k" "flush_cwnd k = 1"
    by (simp_all add: k demo_sel flush_cwnd_def imin_def Let_def)
  let ?p = "k\<lparr>k_ackcount := 0, k_ts_probe := 0, k_probe_wait := 0, k_probe := 0\<rparr>"
  have pr: "(flush_probe (k\<lparr>k_ackcount := 0\<rparr>))\<lparr>k_probe := 0\<rparr> = ?p" "k_probe (flush_probe (k\<lparr>k_ackcount := 0\<rparr>)) = 0"
    using sel by (simp_all add: flush_probe_def)
  have mv: "flush_move w 1 ?p = stage_segment w ?s [] ?p" for w
    by (subst flush_move.simps, simp add: sel, subst flush_move.simps, simp add: sel stage_segment_def)
  let ?m = "stage_segment (ikcp_wnd_unused k) ?s [] ?p"
  obtain t where t: "k_snd_buf ?m = [t]" "sg_xmit t = 0" "sg_len t = 200" "length (sg_data t) = 200"
    using sel by (simp add: stage_segment_def)
  have msel: "k_mtu ?m = 50" "k_bufsize ?m = 222" "k_output ?m" using sel by (simp_all add: stage_segment_def)
  have "flush_send ?m w u ([], []) = None" if "sg_len u = 200" "length (sg_data u) = 200" for w u
    using that msel by (simp add: flush_send_def Let_def flush_room_def ikcp_output_def buf_store_def IKCP_OVERHEAD_def encode_seg_eq kcp_hdr.enc_width)
  then have sg: "flush_segs ?m w r rt [t] fl ([], []) = None" for w r rt fl
    using t by (simp add: flush_decide_def Let_def)
  have cw: "flush_cwnd ?p = 1" using sel(12) by (auto simp: flush_cwnd_def Let_def)
  have "ikcp_flush k = None"
    unfolding ikcp_flush_def Let_def
    by (simp add: sel(1,2) flush_wins_def pr(2)) (simp add: pr(1) cw mv t(1) sg flush_template_def del: flush_segs.simps)
  then show ?thesis using s m k by auto
qed
end
