(* ===== verification/Packet_Reader.thy ===== *)
theory Packet_Reader
  imports Socket_Types Message_Buffer
begin

text \<open>
  The packet reassembly that \<^verbatim>\<open>KcpSession::ReadHandler\<close> and \<^verbatim>\<open>KcpClient::ReadHandler\<close> share
  line for line: received bytes move from the read buffer through the eight-byte header buffer
  into a packet buffer of the announced size, and every complete packet goes to the data
  handler.  The loop runs on the state of its owner, reached through \<open>get\<close> and \<open>put\<close>, because
  the handlers may reset the buffers while it runs.  Fuel counts the rounds; \<open>None\<close> is a copy
  outside a buffer or fuel that ran out, and the lemmas exclude both.
\<close>

section \<open>State\<close>

record packet_reader =
  pr_header :: message_buffer
  pr_packet :: message_buffer
  pr_read :: message_buffer

definition reader_new :: packet_reader where
  "reader_new = \<lparr>pr_header = mb_new sizeof_PacketHeader, pr_packet = mb_new_default,
     pr_read = mb_new RECV_BUFFER_SIZE\<rparr>"

definition reader_reset :: "packet_reader \<Rightarrow> packet_reader" where
  "reader_reset r = \<lparr>pr_header = mb_Reset (pr_header r), pr_packet = mb_Reset (pr_packet r),
     pr_read = mb_Reset (pr_read r)\<rparr>"

section \<open>The steps of the loop\<close>

definition current_header :: "packet_reader \<Rightarrow> packet_header option" where
  "current_header r = Option.bind (mb_read sizeof_PacketHeader (pr_header r)) header_of_bytes"

text \<open>\<open>ReadHeaderHandler\<close>: whether the header is accepted, and the packet buffer it sizes.\<close>

definition ReadHeaderHandler :: "packet_reader \<Rightarrow> (bool \<times> packet_reader) option" where
  "ReadHeaderHandler r =
     (case current_header r of
        None \<Rightarrow> None
      | Some h \<Rightarrow>
          if \<not> IsValidSize h \<or> \<not> IsValidOpcode h then Some (False, r)
          else Some (True, r\<lparr>pr_packet := mb_Resize (unat (ph_Size h)) (mb_Reset (pr_packet r))\<rparr>))"

text \<open>Both copies of the loop: as many bytes as are there and fit.\<close>

definition fill_from :: "message_buffer \<Rightarrow> message_buffer \<Rightarrow> (message_buffer \<times> message_buffer) option" where
  "fill_from src dst =
     (let n = min (mb_GetActiveSize src) (mb_GetRemainingSpace dst) in
      case Option.bind (mb_read n src) (\<lambda>xs. mb_Write xs dst) of
        None \<Rightarrow> None
      | Some dst' \<Rightarrow> Some (mb_ReadCompleted n src, dst'))"

text \<open>The flag says whether the loop body goes on.\<close>

definition read_header_part :: "packet_reader \<Rightarrow> (bool \<times> packet_reader) option" where
  "read_header_part r =
     (if mb_GetRemainingSpace (pr_header r) > 0 then
        (case fill_from (pr_read r) (pr_header r) of
           None \<Rightarrow> None
         | Some (rd, hb) \<Rightarrow>
             let r = r\<lparr>pr_read := rd, pr_header := hb\<rparr> in
             if mb_GetRemainingSpace hb > 0 then Some (False, r) else ReadHeaderHandler r)
      else Some (True, r))"

definition read_payload_part :: "packet_reader \<Rightarrow> (bool \<times> packet_reader) option" where
  "read_payload_part r =
     (if mb_GetRemainingSpace (pr_packet r) > 0 then
        (case fill_from (pr_read r) (pr_packet r) of
           None \<Rightarrow> None
         | Some (rd, pk) \<Rightarrow>
             let r = r\<lparr>pr_read := rd, pr_packet := pk\<rparr> in
             Some (\<not> mb_GetRemainingSpace pk > 0, r))
      else Some (True, r))"

text \<open>The packet that the data handler sees: the command and the bytes of the packet buffer.\<close>

definition current_packet :: "packet_reader \<Rightarrow> (packet_header \<times> bytes) option" where
  "current_packet r =
     (case current_header r of
        None \<Rightarrow> None
      | Some h \<Rightarrow> map_option (\<lambda>d. (h, d)) (mb_read (mb_GetActiveSize (pr_packet r)) (pr_packet r)))"

fun ReadHandler :: "('s \<Rightarrow> packet_reader) \<Rightarrow> (packet_reader \<Rightarrow> 's \<Rightarrow> 's) \<Rightarrow>
    (packet_header \<Rightarrow> bytes \<Rightarrow> 's \<Rightarrow> (read_result \<times> 's) option) \<Rightarrow> ('s \<Rightarrow> 's option) \<Rightarrow> nat \<Rightarrow> 's \<Rightarrow> 's option" where
  "ReadHandler get put on_data on_error 0 s = None"
| "ReadHandler get put on_data on_error (Suc fuel) s =
     (if \<not> mb_GetActiveSize (pr_read (get s)) > 0 then Some s
      else
        case read_header_part (get s) of
          None \<Rightarrow> None
        | Some (False, r) \<Rightarrow> Some (put r s)
        | Some (True, r) \<Rightarrow>
            (case read_payload_part r of
               None \<Rightarrow> None
             | Some (False, r) \<Rightarrow> Some (put r s)
             | Some (True, r) \<Rightarrow>
                 (case current_packet r of
                    None \<Rightarrow> None
                  | Some (h, d) \<Rightarrow>
                      (case on_data h d (put r s) of
                         None \<Rightarrow> None
                       | Some (res, s) \<Rightarrow>
                           let s = put ((get s)\<lparr>pr_header := mb_Reset (pr_header (get s))\<rparr>) s in
                           (case (if res \<noteq> RdOk \<and> res \<noteq> RdWaitingForQuery then on_error s else Some s) of
                              None \<Rightarrow> None
                            | Some s \<Rightarrow> ReadHandler get put on_data on_error fuel s)))))"

text \<open>Enough rounds: two per unread byte.\<close>

definition read_fuel :: "packet_reader \<Rightarrow> nat" where
  "read_fuel r = 2 * mb_GetActiveSize (pr_read r) + 2"

section \<open>Well-formed readers\<close>

definition reader_ok :: "packet_reader \<Rightarrow> bool" where
  "reader_ok r \<longleftrightarrow> mb_ok (pr_header r) \<and> mb_ok (pr_packet r) \<and> mb_ok (pr_read r) \<and>
     rpos (pr_header r) = 0 \<and> rpos (pr_packet r) = 0 \<and> length (storage (pr_header r)) = sizeof_PacketHeader"

lemma reader_ok_new: "reader_ok reader_new"
  by (simp add: reader_ok_def reader_new_def mb_ok_def mb_new_def mb_new_default_def
      sizeof_PacketHeader_def RECV_BUFFER_SIZE_def BUFFER_SIZE_def)

lemma reader_ok_reset: "reader_ok r \<Longrightarrow> reader_ok (reader_reset r)"
  by (simp add: reader_ok_def reader_reset_def mb_ok_def mb_Reset_def)

definition unread_bytes :: "packet_reader \<Rightarrow> bytes" where
  "unread_bytes r = mb_unread (pr_read r)"

lemma fill_from_spec:
  assumes "mb_ok src" "mb_ok dst"
  defines "n \<equiv> min (length (mb_unread src)) (mb_GetRemainingSpace dst)"
  shows "\<exists>src' dst'. fill_from src dst = Some (src', dst') \<and> mb_ok src' \<and> mb_ok dst' \<and>
    mb_unread src' = drop n (mb_unread src) \<and> mb_unread dst' = mb_unread dst @ take n (mb_unread src) \<and>
    mb_GetRemainingSpace dst' + n = mb_GetRemainingSpace dst \<and> rpos dst' = rpos dst \<and>
    length (storage dst') = length (storage dst)"
proof -
  have n: "min (mb_GetActiveSize src) (mb_GetRemainingSpace dst) = n"
    using assms(1) by (simp add: n_def mb_active_size)
  have le: "n \<le> length (mb_unread src)" by (simp add: n_def)
  let ?xs = "take n (mb_unread src)"
  have rd: "mb_read n src = Some ?xs" using assms(1) le by (rule mb_read_unread)
  have len: "length ?xs = n" using le by simp
  obtain dst' where d: "mb_Write ?xs dst = Some dst'" "mb_ok dst'" "mb_unread dst' = mb_unread dst @ ?xs"
    "wpos dst' = wpos dst + n" "rpos dst' = rpos dst" "length (storage dst') = length (storage dst)"
    using mb_Write_Some [OF assms(2), of ?xs] len by (metis min.cobounded2 n_def)
  have rem: "mb_GetRemainingSpace dst' + n = mb_GetRemainingSpace dst"
    using d assms(2) mb_okD(2) [OF d(2)] by (simp add: mb_remaining)
  have "fill_from src dst = Some (mb_ReadCompleted n src, dst')"
    using n rd d(1) by (simp add: fill_from_def)
  then show ?thesis using d rem mb_ReadCompleted_ok [OF assms(1) le] by blast
qed

lemma header_full_read:
  assumes "reader_ok r" "mb_GetRemainingSpace (pr_header r) = 0"
  shows "mb_read sizeof_PacketHeader (pr_header r) = Some (mb_unread (pr_header r))"
    "length (mb_unread (pr_header r)) = sizeof_PacketHeader"
proof -
  have ok: "mb_ok (pr_header r)" "rpos (pr_header r) = 0" "length (storage (pr_header r)) = sizeof_PacketHeader"
    using assms(1) by (simp_all add: reader_ok_def)
  then have "wpos (pr_header r) = sizeof_PacketHeader"
    using assms(2) mb_remaining [OF ok(1)] mb_okD(2) [OF ok(1)] by simp
  then show len: "length (mb_unread (pr_header r)) = sizeof_PacketHeader"
    using ok mb_length_unread by simp
  show "mb_read sizeof_PacketHeader (pr_header r) = Some (mb_unread (pr_header r))"
    using mb_read_unread [OF ok(1), of sizeof_PacketHeader] len by simp
qed

lemma current_header_full:
  assumes "reader_ok r" "mb_GetRemainingSpace (pr_header r) = 0"
  shows "\<exists>h. current_header r = Some h \<and> header_of_bytes (mb_unread (pr_header r)) = Some h"
  using header_full_read [OF assms] header_of_bytes_total [of "mb_unread (pr_header r)"]
  by (auto simp: current_header_def)

lemma resize_reset_ok:
  "n < 2 ^ 63 \<Longrightarrow> mb_ok (mb_Resize n (mb_Reset b)) \<and> mb_unread (mb_Resize n (mb_Reset b)) = [] \<and>
   rpos (mb_Resize n (mb_Reset b)) = 0 \<and> mb_GetRemainingSpace (mb_Resize n (mb_Reset b)) = n"
proof -
  assume n: "n < 2 ^ 63"
  then have ok: "mb_ok (mb_Resize n (mb_Reset b))" by (simp add: mb_ok_def mb_Resize_def mb_Reset_def)
  then show ?thesis by (simp add: mb_remaining) (simp add: mb_Resize_def mb_Reset_def mb_unread_def)
qed

section \<open>Specification: a parser of the byte stream\<close>

definition header_valid :: "packet_header \<Rightarrow> bool" where
  "header_valid h \<longleftrightarrow> IsValidSize h \<and> IsValidOpcode h"

text \<open>
  The complete packets at the front of a stream, the bytes after them, and whether parsing
  stopped for want of bytes (\<open>True\<close>) or at a malformed header (\<open>False\<close>).
\<close>

function parse_stream :: "bytes \<Rightarrow> (packet_header \<times> bytes) list \<times> bytes \<times> bool" where
  "parse_stream bs =
     (case header_of_bytes bs of
        None \<Rightarrow> ([], bs, True)
      | Some h \<Rightarrow>
          if \<not> header_valid h then ([], bs, False)
          else if length bs < sizeof_PacketHeader + unat (ph_Size h) then ([], bs, True)
          else let n = sizeof_PacketHeader + unat (ph_Size h);
                   (ps, r, ok) = parse_stream (drop n bs)
               in ((h, take (unat (ph_Size h)) (drop sizeof_PacketHeader bs)) # ps, r, ok))"
  by pat_completeness auto
termination by (relation "measure length") (auto simp: sizeof_PacketHeader_def)

declare parse_stream.simps [simp del]

lemma header_of_bytes_take:
  "sizeof_PacketHeader \<le> length bs \<Longrightarrow> header_of_bytes (take sizeof_PacketHeader bs) = header_of_bytes bs"
  by (simp add: header_of_bytes_def sizeof_PacketHeader_def drop_take)

lemma header_of_bytes_append:
  "length hb = sizeof_PacketHeader \<Longrightarrow> header_of_bytes (hb @ xs) = header_of_bytes hb"
  using header_of_bytes_take [of "hb @ xs"] by simp

lemma parse_short: "length bs < sizeof_PacketHeader \<Longrightarrow> parse_stream bs = ([], bs, True)"
  by (subst parse_stream.simps) (simp add: header_of_bytes_def)

lemma parse_invalid:
  "length hb = sizeof_PacketHeader \<Longrightarrow> header_of_bytes hb = Some h \<Longrightarrow> \<not> header_valid h \<Longrightarrow>
   parse_stream (hb @ xs) = ([], hb @ xs, False)"
  by (subst parse_stream.simps) (simp add: header_of_bytes_append)

lemma parse_partial:
  "length hb = sizeof_PacketHeader \<Longrightarrow> header_of_bytes hb = Some h \<Longrightarrow> header_valid h \<Longrightarrow>
   length q < unat (ph_Size h) \<Longrightarrow> parse_stream (hb @ q) = ([], hb @ q, True)"
  by (subst parse_stream.simps) (simp add: header_of_bytes_append)

lemma parse_packet:
  "length hb = sizeof_PacketHeader \<Longrightarrow> header_of_bytes hb = Some h \<Longrightarrow> header_valid h \<Longrightarrow>
   length q = unat (ph_Size h) \<Longrightarrow> parse_stream (hb @ q @ xs) =
     ((h, q) # fst (parse_stream xs), snd (parse_stream xs))"
  by (subst parse_stream.simps) (simp add: header_of_bytes_append Let_def split: prod.splits)

section \<open>Between two packets\<close>

text \<open>
  A reader that has seen no malformed header: the header buffer has room, or it holds a valid
  header and the packet buffer of the announced size still has room.
\<close>

definition mid_packet :: "packet_header \<Rightarrow> packet_reader \<Rightarrow> bool" where
  "mid_packet h r \<longleftrightarrow> reader_ok r \<and> mb_GetRemainingSpace (pr_header r) = 0 \<and>
     header_of_bytes (mb_unread (pr_header r)) = Some h \<and> header_valid h \<and>
     length (storage (pr_packet r)) = unat (ph_Size h)"

definition reader_clean :: "packet_reader \<Rightarrow> bool" where
  "reader_clean r \<longleftrightarrow> reader_ok r \<and> (mb_GetRemainingSpace (pr_header r) > 0 \<or>
     (\<exists>h. mid_packet h r \<and> mb_GetRemainingSpace (pr_packet r) > 0))"

definition pending_bytes :: "packet_reader \<Rightarrow> bytes" where
  "pending_bytes r = (if mb_GetRemainingSpace (pr_header r) > 0 then mb_unread (pr_header r)
     else mb_unread (pr_header r) @ mb_unread (pr_packet r))"

lemma remaining_unread:
  "mb_ok b \<Longrightarrow> rpos b = 0 \<Longrightarrow> mb_GetRemainingSpace b + length (mb_unread b) = length (storage b)"
  using mb_okD(2) [of b] by (simp add: mb_remaining mb_length_unread)

lemma payload_round:
  assumes "mid_packet h r"
  defines "q \<equiv> mb_unread (pr_packet r)" and "u \<equiv> unread_bytes r"
  defines "n \<equiv> unat (ph_Size h) - length q"
  shows "\<exists>r'. read_payload_part r = Some (n \<le> length u, r') \<and> mid_packet h r' \<and> pr_header r' = pr_header r \<and>
    mb_unread (pr_packet r') = q @ take n u \<and> unread_bytes r' = drop n u \<and>
    (mb_GetRemainingSpace (pr_packet r') > 0 \<longleftrightarrow> \<not> n \<le> length u)"
proof -
  have ok: "mb_ok (pr_packet r)" "mb_ok (pr_read r)" "rpos (pr_packet r) = 0"
    "length (storage (pr_packet r)) = unat (ph_Size h)"
    using assms(1) by (simp_all add: mid_packet_def reader_ok_def)
  have rem: "mb_GetRemainingSpace (pr_packet r) = n"
    using remaining_unread [OF ok(1,3)] ok(4) by (simp add: n_def q_def)
  show ?thesis
  proof (cases "n = 0")
    case True
    then show ?thesis using rem assms(1) by (simp add: read_payload_part_def q_def u_def)
  next
    case False
    obtain rd pk where f: "fill_from (pr_read r) (pr_packet r) = Some (rd, pk)" "mb_ok rd" "mb_ok pk"
      "mb_unread rd = drop (min (length u) n) u" "mb_unread pk = q @ take (min (length u) n) u"
      "mb_GetRemainingSpace pk + min (length u) n = n" "rpos pk = rpos (pr_packet r)"
      "length (storage pk) = length (storage (pr_packet r))"
      using fill_from_spec [OF ok(2,1)] rem by (auto simp: u_def q_def unread_bytes_def)
    let ?r = "r\<lparr>pr_read := rd, pr_packet := pk\<rparr>"
    have mid: "mid_packet h ?r"
      using assms(1) f(2,3,7,8) by (simp add: mid_packet_def reader_ok_def)
    have tk: "take (min (length u) n) u = take n u" "drop (min (length u) n) u = drop n u"
      by (auto simp: min_def)
    have "read_payload_part r = Some (\<not> mb_GetRemainingSpace pk > 0, ?r)"
      using False rem f(1) by (simp add: read_payload_part_def)
    moreover have "\<not> mb_GetRemainingSpace pk > 0 \<longleftrightarrow> n \<le> length u" using f(6) by (auto simp: min_def split: if_splits)
    ultimately show ?thesis using mid f(4,5) tk by (auto simp: unread_bytes_def)
  qed
qed

lemma mid_packet_current:
  assumes "mid_packet h r"
  shows "current_packet r = Some (h, mb_unread (pr_packet r))"
proof -
  have ok: "reader_ok r" "mb_GetRemainingSpace (pr_header r) = 0" "mb_ok (pr_packet r)"
    using assms by (simp_all add: mid_packet_def reader_ok_def)
  have "current_header r = Some h" using current_header_full [OF ok(1,2)] assms by (auto simp: mid_packet_def)
  moreover have "mb_read (mb_GetActiveSize (pr_packet r)) (pr_packet r) = Some (mb_unread (pr_packet r))"
    using mb_read_unread [OF ok(3), of "length (mb_unread (pr_packet r))"] mb_active_size [OF ok(3)] by simp
  ultimately show ?thesis by (simp add: current_packet_def)
qed

lemma header_round:
  assumes "reader_ok r" "mb_GetRemainingSpace (pr_header r) > 0"
  defines "p \<equiv> mb_unread (pr_header r)" and "u \<equiv> unread_bytes r"
  defines "n \<equiv> sizeof_PacketHeader - length p"
  shows "\<exists>b r'. read_header_part r = Some (b, r') \<and> reader_ok r' \<and>
    mb_unread (pr_header r') = p @ take n u \<and> unread_bytes r' = drop n u \<and>
    (mb_GetRemainingSpace (pr_header r') > 0 \<longleftrightarrow> length u < n) \<and>
    (length u < n \<longrightarrow> \<not> b) \<and>
    (n \<le> length u \<longrightarrow> (\<exists>h. header_of_bytes (p @ take n u) = Some h \<and> b = header_valid h \<and>
       (b \<longrightarrow> mid_packet h r' \<and> mb_unread (pr_packet r') = [])))"
proof -
  have ok: "mb_ok (pr_header r)" "mb_ok (pr_read r)" "rpos (pr_header r) = 0"
    "length (storage (pr_header r)) = sizeof_PacketHeader"
    using assms(1) by (simp_all add: reader_ok_def)
  have rem: "mb_GetRemainingSpace (pr_header r) = n"
    using remaining_unread [OF ok(1,3)] ok(4) by (simp add: n_def p_def)
  obtain rd hb where f: "fill_from (pr_read r) (pr_header r) = Some (rd, hb)" "mb_ok rd" "mb_ok hb"
    "mb_unread rd = drop (min (length u) n) u" "mb_unread hb = p @ take (min (length u) n) u"
    "mb_GetRemainingSpace hb + min (length u) n = n" "rpos hb = rpos (pr_header r)"
    "length (storage hb) = length (storage (pr_header r))"
    using fill_from_spec [OF ok(2,1)] rem by (auto simp: u_def p_def unread_bytes_def)
  let ?r = "r\<lparr>pr_read := rd, pr_header := hb\<rparr>"
  have rok: "reader_ok ?r" using assms(1) f(2,3,7,8) by (simp add: reader_ok_def)
  have tk: "take (min (length u) n) u = take n u" "drop (min (length u) n) u = drop n u"
    by (auto simp: min_def)
  have room: "mb_GetRemainingSpace hb > 0 \<longleftrightarrow> length u < n"
    using f(6) by (auto simp: min_def split: if_splits)
  show ?thesis
  proof (cases "length u < n")
    case True
    then have "read_header_part r = Some (False, ?r)"
      using assms(2) f(1) room by (simp add: read_header_part_def)
    then show ?thesis using rok True room f(4,5) tk by (auto simp: unread_bytes_def)
  next
    case False
    then have zero: "mb_GetRemainingSpace (pr_header ?r) = 0" using room by simp
    obtain h where h: "current_header ?r = Some h" "header_of_bytes (mb_unread hb) = Some h"
      using current_header_full [OF rok zero] by auto
    have eq: "read_header_part r = ReadHeaderHandler ?r"
      using assms(2) f(1) room False by (simp add: read_header_part_def)
    show ?thesis
    proof (cases "header_valid h")
      case no: False
      then have "ReadHeaderHandler ?r = Some (False, ?r)"
        using h(1) by (simp add: ReadHeaderHandler_def header_valid_def)
      then show ?thesis using eq rok False room f(4,5) tk h(2) no by (auto simp: unread_bytes_def)
    next
      case yes: True
      let ?pk = "mb_Resize (unat (ph_Size h)) (mb_Reset (pr_packet r))"
      let ?r2 = "?r\<lparr>pr_packet := ?pk\<rparr>"
      have sz: "unat (ph_Size h) < 2 ^ 63" using unat32_less [of "ph_Size h"] by simp
      have "ReadHeaderHandler ?r = Some (True, ?r2)"
        using h(1) yes by (simp add: ReadHeaderHandler_def header_valid_def)
      moreover have "reader_ok ?r2" using rok resize_reset_ok [OF sz] by (simp add: reader_ok_def)
      moreover have "mid_packet h ?r2"
        using calculation(2) zero h(2) yes by (simp add: mid_packet_def) (simp add: mb_Resize_def)
      ultimately show ?thesis using eq False room f(4,5) tk h(2) yes resize_reset_ok [OF sz]
        by (auto simp: unread_bytes_def)
    qed
  qed
qed

text \<open>Parsing more of a stream starts from what was left over.\<close>

lemma parse_append:
  "parse_stream a = (ps, r, True) \<Longrightarrow>
   parse_stream (a @ b) = (ps @ fst (parse_stream (r @ b)), snd (parse_stream (r @ b)))"
proof (induction a arbitrary: ps rule: parse_stream.induct)
  case (1 a)
  show ?case
  proof (cases "header_of_bytes a")
    case None
    then have "ps = []" "r = a" using "1.prems" by (subst (asm) parse_stream.simps, simp)+
    then show ?thesis by simp
  next
    case (Some h)
    have len: "sizeof_PacketHeader \<le> length a" using Some by (auto simp: header_of_bytes_def split: if_splits)
    have v: "header_valid h" using "1.prems" Some by (subst (asm) parse_stream.simps) (simp split: if_splits)
    let ?n = "sizeof_PacketHeader + unat (ph_Size h)"
    show ?thesis
    proof (cases "length a < ?n")
      case True
      then have "ps = []" "r = a" using "1.prems" Some v by (subst (asm) parse_stream.simps, simp)+
      then show ?thesis by simp
    next
      case False
      let ?hb = "take sizeof_PacketHeader a" and ?q = "take (unat (ph_Size h)) (drop sizeof_PacketHeader a)"
      let ?t = "drop ?n a"
      have a: "a = ?hb @ ?q @ ?t" by (metis append_take_drop_id drop_drop add.commute)
      have hb: "length ?hb = sizeof_PacketHeader" "header_of_bytes ?hb = Some h"
        using len Some header_of_bytes_take by auto
      have q: "length ?q = unat (ph_Size h)" using False by simp
      have pa: "parse_stream a = ((h, ?q) # fst (parse_stream ?t), snd (parse_stream ?t))"
        using parse_packet [OF hb v q, of ?t] a by simp
      then obtain qs where qs: "parse_stream ?t = (qs, r, True)" "ps = (h, ?q) # qs"
        using "1.prems" by (cases "parse_stream ?t") auto
      note IH = "1.IH" [OF Some _ False refl qs(1)]
      have "parse_stream (a @ b) = ((h, ?q) # fst (parse_stream (?t @ b)), snd (parse_stream (?t @ b)))"
        using parse_packet [OF hb v q, of "?t @ b"] a by (metis append.assoc)
      then show ?thesis using IH v qs(2) by simp
    qed
  qed
qed

section \<open>The interface of the owners, and what the loop does for them\<close>

text \<open>
  An owner reaches its reader by \<open>get\<close> and \<open>put\<close>; on the packets that satisfy \<open>quiet\<close> its
  handler changes the rest of its state by \<open>eff\<close> and leaves the reader alone, and reports an
  error only where the error handler does nothing.
\<close>

locale packet_sink =
  fixes get :: "'s \<Rightarrow> packet_reader"
    and put :: "packet_reader \<Rightarrow> 's \<Rightarrow> 's"
    and on_data :: "packet_header \<Rightarrow> bytes \<Rightarrow> 's \<Rightarrow> (read_result \<times> 's) option"
    and on_error :: "'s \<Rightarrow> 's option"
    and eff :: "packet_header \<Rightarrow> bytes \<Rightarrow> 's \<Rightarrow> 's"
    and quiet :: "packet_header \<Rightarrow> bytes \<Rightarrow> bool"
  assumes get_put: "get (put r s) = r"
    and put_put: "put r (put r' s) = put r s"
    and put_get: "put (get s) s = s"
    and quiet_data: "quiet h d \<Longrightarrow> \<exists>res. on_data h d s = Some (res, eff h d s) \<and>
      (res \<in> {RdOk, RdWaitingForQuery} \<or> (\<forall>t. on_error t = Some t))"
    and eff_put: "quiet h d \<Longrightarrow> eff h d (put r s) = put r (eff h d s)"
begin

lemma get_eff: "quiet h d \<Longrightarrow> get (eff h d s) = get s"
  using eff_put [of h d "get s" s] get_put put_get by metis

definition run :: "(packet_header \<times> bytes) list \<Rightarrow> 's \<Rightarrow> 's" where
  "run ps s = fold (\<lambda>(h, d). eff h d) ps s"

lemma run_put: "\<forall>(h, d) \<in> set ps. quiet h d \<Longrightarrow> run ps (put r s) = put r (run ps s)"
  by (induction ps arbitrary: s) (auto simp: run_def eff_put)

lemma dispatch_quiet:
  assumes "quiet h d" "read_header_part (get s) = Some (True, r1)" "read_payload_part r1 = Some (True, r2)"
    "current_packet r2 = Some (h, d)" "mb_GetActiveSize (pr_read (get s)) > 0"
  shows "ReadHandler get put on_data on_error (Suc fuel) s =
    ReadHandler get put on_data on_error fuel (put (r2\<lparr>pr_header := mb_Reset (pr_header r2)\<rparr>) (eff h d s))"
proof -
  obtain res where res: "on_data h d (put r2 s) = Some (res, eff h d (put r2 s))"
    "res \<in> {RdOk, RdWaitingForQuery} \<or> (\<forall>t. on_error t = Some t)"
    using quiet_data [OF assms(1)] by blast
  then show ?thesis using assms by (auto simp: get_put put_put eff_put get_eff Let_def)
qed

lemma clean_pending_parse:
  assumes "reader_clean r" shows "parse_stream (pending_bytes r) = ([], pending_bytes r, True)"
proof (cases "mb_GetRemainingSpace (pr_header r) > 0")
  case True
  then have "length (mb_unread (pr_header r)) < sizeof_PacketHeader"
    using assms remaining_unread [of "pr_header r"] by (simp add: reader_clean_def reader_ok_def)
  then show ?thesis using True by (simp add: pending_bytes_def parse_short)
next
  case False
  then obtain h where h: "mid_packet h r" "mb_GetRemainingSpace (pr_packet r) > 0"
    using assms by (auto simp: reader_clean_def)
  then have "length (mb_unread (pr_packet r)) < unat (ph_Size h)"
    using remaining_unread [of "pr_packet r"] by (simp add: mid_packet_def reader_ok_def)
  moreover have "length (mb_unread (pr_header r)) = sizeof_PacketHeader"
    using header_full_read [of r] h(1) by (simp add: mid_packet_def)
  ultimately show ?thesis
    using parse_partial [of "mb_unread (pr_header r)" h] h(1) False
    by (simp add: pending_bytes_def mid_packet_def)
qed

text \<open>From the header to the end of the packet: the payload half of a round.\<close>

lemma payload_half:
  assumes "mid_packet h r1" "read_header_part (get s) = Some (True, r1)" "length (unread_bytes (get s)) > 0"
    "reader_ok (get s)"
    "parse_stream (mb_unread (pr_header r1) @ mb_unread (pr_packet r1) @ unread_bytes r1) = (ps, rest, True)"
    "\<forall>(h, d) \<in> set ps. quiet h d"
    and IH: "\<And>s' ps'. length (unread_bytes (get s')) < length (unread_bytes (get s)) \<Longrightarrow>
      reader_clean (get s') \<Longrightarrow>
      parse_stream (pending_bytes (get s') @ unread_bytes (get s')) = (ps', rest, True) \<Longrightarrow>
      \<forall>(h, d) \<in> set ps'. quiet h d \<Longrightarrow>
      \<exists>r'. ReadHandler get put on_data on_error fuel s' = Some (put r' (run ps' s')) \<and>
        reader_clean r' \<and> unread_bytes r' = [] \<and> pending_bytes r' = rest"
    and room: "length (unread_bytes r1) < length (unread_bytes (get s)) \<or>
      length (unread_bytes r1) = length (unread_bytes (get s)) \<and> length (mb_unread (pr_packet r1)) < unat (ph_Size h)"
  shows "\<exists>r'. ReadHandler get put on_data on_error (Suc fuel) s = Some (put r' (run ps s)) \<and>
    reader_clean r' \<and> unread_bytes r' = [] \<and> pending_bytes r' = rest"
proof -
  let ?q = "mb_unread (pr_packet r1)" and ?u = "unread_bytes r1" and ?hb = "mb_unread (pr_header r1)"
  let ?n = "unat (ph_Size h) - length ?q"
  from payload_round [OF assms(1)] obtain r2 where R: "read_payload_part r1 = Some (?n \<le> length ?u, r2) \<and>
    mid_packet h r2 \<and> pr_header r2 = pr_header r1 \<and> mb_unread (pr_packet r2) = ?q @ take ?n ?u \<and>
    unread_bytes r2 = drop ?n ?u \<and> (mb_GetRemainingSpace (pr_packet r2) > 0 \<longleftrightarrow> \<not> ?n \<le> length ?u)" ..
  then have r2: "read_payload_part r1 = Some (?n \<le> length ?u, r2)" "mid_packet h r2"
    "pr_header r2 = pr_header r1" "mb_unread (pr_packet r2) = ?q @ take ?n ?u" "unread_bytes r2 = drop ?n ?u"
    "mb_GetRemainingSpace (pr_packet r2) > 0 \<longleftrightarrow> \<not> ?n \<le> length ?u"
    by blast+
  have act: "mb_GetActiveSize (pr_read (get s)) > 0"
    using assms(3,4) mb_active_size [of "pr_read (get s)"] by (simp add: unread_bytes_def reader_ok_def)
  have hb: "length ?hb = sizeof_PacketHeader" "header_of_bytes ?hb = Some h" "header_valid h"
    using header_full_read [of r1] assms(1) by (simp_all add: mid_packet_def)
  have zero: "mb_GetRemainingSpace (pr_header r2) = 0" using r2(2) by (simp add: mid_packet_def)
  have qle: "length ?q \<le> unat (ph_Size h)"
    using assms(1) remaining_unread [of "pr_packet r1"] by (simp add: mid_packet_def reader_ok_def)
  show ?thesis
  proof (cases "?n \<le> length ?u")
    case False
    have "ps = []" "rest = ?hb @ ?q @ ?u"
      using parse_partial [OF hb, of "?q @ ?u"] False qle assms(5) by auto
    moreover have "ReadHandler get put on_data on_error (Suc fuel) s = Some (put r2 s)"
      using act assms(2) r2(1) False by simp
    moreover have "reader_clean r2" using r2(2,6) False by (auto simp: reader_clean_def mid_packet_def)
    moreover have "pending_bytes r2 = ?hb @ ?q @ ?u" using zero r2(3,4) False by (simp add: pending_bytes_def)
    ultimately show ?thesis using r2(5) False by (auto simp: run_def)
  next
    case True
    let ?d = "?q @ take ?n ?u" and ?t = "drop ?n ?u"
    let ?r3 = "r2\<lparr>pr_header := mb_Reset (pr_header r2)\<rparr>"
    let ?s3 = "put ?r3 (eff h ?d s)"
    have dl: "length ?d = unat (ph_Size h)" using True qle by simp
    have "?hb @ ?q @ ?u = ?hb @ ?d @ ?t" by simp
    then have "((h, ?d) # fst (parse_stream ?t), snd (parse_stream ?t)) = (ps, rest, True)"
      using parse_packet [OF hb dl, of ?t] assms(5) by argo
    then obtain ps' where ps': "ps = (h, ?d) # ps'" "parse_stream ?t = (ps', rest, True)"
      by (metis Pair_inject prod.collapse)
    have qt: "quiet h ?d" "\<forall>(h, d) \<in> set ps'. quiet h d" using assms(6) ps'(1) by auto
    have step: "ReadHandler get put on_data on_error (Suc fuel) s = ReadHandler get put on_data on_error fuel ?s3"
      using dispatch_quiet [OF qt(1) assms(2) _ _ act] r2(1,4) mid_packet_current [OF r2(2)] True by simp
    have rm: "mb_GetRemainingSpace (mb_Reset (pr_header r2)) > 0"
      using r2(2) mb_remaining [of "mb_Reset (pr_header r2)"]
      by (simp add: mid_packet_def reader_ok_def) (simp add: mb_Reset_def sizeof_PacketHeader_def)
    have "reader_ok ?r3" using r2(2) by (simp add: mid_packet_def reader_ok_def) (simp add: mb_Reset_def)
    then have cl: "reader_clean ?r3" using rm by (simp add: reader_clean_def)
    have pd: "pending_bytes ?r3 = []" using rm by (simp add: pending_bytes_def)
    have un: "unread_bytes ?r3 = ?t" using r2(5) by (simp add: unread_bytes_def)
    have lt: "length ?t < length (unread_bytes (get s))" 
    proof -
      have "length ?t = length ?u - ?n" by simp
      then show ?thesis using room assms(3) by linarith
    qed
    have g3: "get ?s3 = ?r3" by (rule get_put)
    have "\<exists>r'. ReadHandler get put on_data on_error fuel ?s3 = Some (put r' (run ps' ?s3)) \<and>
        reader_clean r' \<and> unread_bytes r' = [] \<and> pending_bytes r' = rest"
    proof (rule IH)
      show "length (unread_bytes (get ?s3)) < length (unread_bytes (get s))" unfolding g3 un by (rule lt)
      show "reader_clean (get ?s3)" unfolding g3 by (rule cl)
      show "parse_stream (pending_bytes (get ?s3) @ unread_bytes (get ?s3)) = (ps', rest, True)"
        unfolding g3 un pd using ps'(2) by simp
      show "\<forall>(h, d) \<in> set ps'. quiet h d" by (rule qt(2))
    qed
    then obtain r' where r': "ReadHandler get put on_data on_error fuel ?s3 = Some (put r' (run ps' ?s3))"
      "reader_clean r'" "unread_bytes r' = []" "pending_bytes r' = rest" by blast
    have "put r' (run ps' ?s3) = put r' (run ps s)"
      using run_put [OF qt(2), of ?r3 "eff h ?d s"] put_put ps'(1) by (simp add: run_def)
    then show ?thesis using step r' by auto
  qed
qed

text \<open>The loop dispatches the packets of the stream, in order, and keeps what is incomplete.\<close>

theorem reads_stream:
  "reader_clean (get s) \<Longrightarrow> parse_stream (pending_bytes (get s) @ unread_bytes (get s)) = (ps, rest, True) \<Longrightarrow>
   \<forall>(h, d) \<in> set ps. quiet h d \<Longrightarrow> length (unread_bytes (get s)) < fuel \<Longrightarrow>
   \<exists>r'. ReadHandler get put on_data on_error fuel s = Some (put r' (run ps s)) \<and>
     reader_clean r' \<and> unread_bytes r' = [] \<and> pending_bytes r' = rest"
proof (induction "length (unread_bytes (get s))" arbitrary: s ps fuel rule: less_induct)
  case less
  obtain f where f: "fuel = Suc f" using less.prems(4) by (cases fuel) auto
  let ?r = "get s" and ?u = "unread_bytes (get s)"
  have ok: "reader_ok ?r" using less.prems(1) by (simp add: reader_clean_def)
  have IH': "\<exists>r'. ReadHandler get put on_data on_error f s' = Some (put r' (run ps' s')) \<and>
      reader_clean r' \<and> unread_bytes r' = [] \<and> pending_bytes r' = rest"
    if "length (unread_bytes (get s')) < length ?u" "reader_clean (get s')"
      "parse_stream (pending_bytes (get s') @ unread_bytes (get s')) = (ps', rest, True)"
      "\<forall>(h, d) \<in> set ps'. quiet h d" for s' ps'
    using less.hyps [OF that(1-4), of f] that(1) less.prems(4) f by simp
  show ?case
  proof (cases "?u = []")
    case True
    then have "mb_GetActiveSize (pr_read ?r) = 0"
      using ok mb_active_size [of "pr_read ?r"] by (simp add: unread_bytes_def reader_ok_def)
    then have "ReadHandler get put on_data on_error fuel s = Some (put ?r (run ps s))"
      using True f less.prems(2) clean_pending_parse [OF less.prems(1)] put_get by (simp add: run_def)
    moreover have "pending_bytes ?r = rest" using less.prems(2) True clean_pending_parse [OF less.prems(1)] by simp
    ultimately show ?thesis using less.prems(1) True by blast
  next
    case u: False
    then have upos: "length ?u > 0" by simp
    show ?thesis
    proof (cases "mb_GetRemainingSpace (pr_header ?r) > 0")
      case False
      then obtain h where h: "mid_packet h ?r" "mb_GetRemainingSpace (pr_packet ?r) > 0"
        using less.prems(1) by (auto simp: reader_clean_def)
      have hp: "read_header_part ?r = Some (True, ?r)" using False by (simp add: read_header_part_def)
      have pr: "parse_stream (mb_unread (pr_header ?r) @ mb_unread (pr_packet ?r) @ ?u) = (ps, rest, True)"
        using less.prems(2) False by (simp add: pending_bytes_def)
      have room: "length (mb_unread (pr_packet ?r)) < unat (ph_Size h)"
        using h remaining_unread [of "pr_packet ?r"] by (simp add: mid_packet_def reader_ok_def)
      show ?thesis unfolding f
        by (rule payload_half [OF h(1) hp upos ok pr less.prems(3) IH']) (use room in simp_all)
    next
      case True
      let ?p = "mb_unread (pr_header ?r)"
      let ?n = "sizeof_PacketHeader - length ?p"
      have plen: "length ?p < sizeof_PacketHeader"
        using True ok remaining_unread [of "pr_header ?r"] by (simp add: reader_ok_def)
      from header_round [OF ok True] obtain b r1 where R: "read_header_part ?r = Some (b, r1) \<and> reader_ok r1 \<and>
        mb_unread (pr_header r1) = ?p @ take ?n ?u \<and> unread_bytes r1 = drop ?n ?u \<and>
        (mb_GetRemainingSpace (pr_header r1) > 0 \<longleftrightarrow> length ?u < ?n) \<and> (length ?u < ?n \<longrightarrow> \<not> b) \<and>
        (?n \<le> length ?u \<longrightarrow> (\<exists>h. header_of_bytes (?p @ take ?n ?u) = Some h \<and> b = header_valid h \<and>
           (b \<longrightarrow> mid_packet h r1 \<and> mb_unread (pr_packet r1) = [])))" by (elim exE)
      then have r1: "read_header_part ?r = Some (b, r1)" "reader_ok r1"
        "mb_unread (pr_header r1) = ?p @ take ?n ?u" "unread_bytes r1 = drop ?n ?u"
        "mb_GetRemainingSpace (pr_header r1) > 0 \<longleftrightarrow> length ?u < ?n" "length ?u < ?n \<Longrightarrow> \<not> b"
        "?n \<le> length ?u \<Longrightarrow> \<exists>h. header_of_bytes (?p @ take ?n ?u) = Some h \<and> b = header_valid h \<and>
           (b \<longrightarrow> mid_packet h r1 \<and> mb_unread (pr_packet r1) = [])"
        by blast+
      have bs: "parse_stream (?p @ ?u) = (ps, rest, True)" using less.prems(2) True by (simp add: pending_bytes_def)
      have act: "mb_GetActiveSize (pr_read ?r) > 0"
        using upos ok mb_active_size [of "pr_read ?r"] by (simp add: unread_bytes_def reader_ok_def)
      show ?thesis
      proof (cases "length ?u < ?n")
        case short: True
        have "ps = []" "rest = ?p @ ?u" using parse_short [of "?p @ ?u"] short plen bs by simp_all
        moreover have "ReadHandler get put on_data on_error fuel s = Some (put r1 s)"
          using f act r1(1) r1(6) [OF short] by simp
        moreover have "reader_clean r1" using r1(2,5) short by (simp add: reader_clean_def)
        moreover have "pending_bytes r1 = ?p @ ?u" using r1(3,5) short by (simp add: pending_bytes_def)
        ultimately show ?thesis using r1(4) short by (auto simp: run_def)
      next
        case long: False
        then obtain h where h: "header_of_bytes (?p @ take ?n ?u) = Some h" "b = header_valid h"
          "b \<longrightarrow> mid_packet h r1 \<and> mb_unread (pr_packet r1) = []" using r1(7) by auto
        have hl: "length (?p @ take ?n ?u) = sizeof_PacketHeader" using long plen by simp
        have split: "?p @ ?u = (?p @ take ?n ?u) @ drop ?n ?u" by simp
        have v: "header_valid h"
        proof (rule ccontr)
          assume "\<not> header_valid h"
          then have "parse_stream ((?p @ take ?n ?u) @ drop ?n ?u) = ([], (?p @ take ?n ?u) @ drop ?n ?u, False)"
            by (rule parse_invalid [OF hl h(1)])
          then show False using bs unfolding split by simp
        qed
        then have mid: "mid_packet h r1" "mb_unread (pr_packet r1) = []" "read_header_part ?r = Some (True, r1)"
          using h r1(1) by simp_all
        have pr: "parse_stream (mb_unread (pr_header r1) @ mb_unread (pr_packet r1) @ unread_bytes r1) = (ps, rest, True)"
          using bs mid(2) r1(3,4) by simp
        have "0 < ?n" using plen by simp
        then have "length (unread_bytes r1) < length ?u" using r1(4) long upos by simp
        then show ?thesis unfolding f
          by (intro payload_half [OF mid(1,3) upos ok pr less.prems(3) IH']) simp_all
      qed
    qed
  qed
qed

end

section \<open>Totality for any owner\<close>

text \<open>
  Whatever arrives, malformed headers included, the loop ends within the fuel and keeps the
  owner's invariant \<open>inv\<close>, when the owner's handlers are total, keep \<open>inv\<close> and never put bytes
  back.  Two rounds per unread byte suffice: a round that consumes nothing dispatches a packet
  and empties the header buffer, so that the next one consumes.
\<close>

definition header_full :: "packet_reader \<Rightarrow> bool" where
  "header_full r \<longleftrightarrow> \<not> mb_GetRemainingSpace (pr_header r) > 0"

locale packet_owner =
  fixes get :: "'s \<Rightarrow> packet_reader"
    and put :: "packet_reader \<Rightarrow> 's \<Rightarrow> 's"
    and on_data :: "packet_header \<Rightarrow> bytes \<Rightarrow> 's \<Rightarrow> (read_result \<times> 's) option"
    and on_error :: "'s \<Rightarrow> 's option"
    and inv :: "'s \<Rightarrow> bool"
  assumes get_put: "get (put r s) = r"
    and inv_reader: "inv s \<Longrightarrow> reader_ok (get s)"
    and inv_put: "inv s \<Longrightarrow> reader_ok r \<Longrightarrow> inv (put r s)"
    and data_total: "inv s \<Longrightarrow> \<exists>res s'. on_data h d s = Some (res, s') \<and> inv s' \<and>
      length (unread_bytes (get s')) \<le> length (unread_bytes (get s))"
    and error_total: "inv s \<Longrightarrow> \<not> header_full (get s) \<Longrightarrow> \<exists>s'. on_error s = Some s' \<and> inv s' \<and>
      length (unread_bytes (get s')) \<le> length (unread_bytes (get s)) \<and> \<not> header_full (get s')"
begin

lemma header_reset_room:
  assumes "reader_ok r"
  shows "reader_ok (r\<lparr>pr_header := mb_Reset (pr_header r)\<rparr>)" "\<not> header_full (r\<lparr>pr_header := mb_Reset (pr_header r)\<rparr>)"
    "unread_bytes (r\<lparr>pr_header := mb_Reset (pr_header r)\<rparr>) = unread_bytes r"
proof -
  show ok: "reader_ok (r\<lparr>pr_header := mb_Reset (pr_header r)\<rparr>)"
    using assms by (simp add: reader_ok_def) (simp add: mb_Reset_def)
  have "mb_ok (mb_Reset (pr_header r))" using assms by (simp add: reader_ok_def)
  then show "\<not> header_full (r\<lparr>pr_header := mb_Reset (pr_header r)\<rparr>)"
    using assms by (simp add: header_full_def mb_remaining reader_ok_def sizeof_PacketHeader_def)
      (simp add: mb_Reset_def)
qed (simp add: unread_bytes_def)

text \<open>The two reading steps of a round are total and only consume.\<close>

lemma header_part_total:
  assumes "reader_ok r" "length (unread_bytes r) > 0"
  shows "\<exists>b r'. read_header_part r = Some (b, r') \<and> reader_ok r' \<and>
    length (unread_bytes r') \<le> length (unread_bytes r) \<and> (b \<longrightarrow> header_full r') \<and>
    (\<not> header_full r \<longrightarrow> length (unread_bytes r') < length (unread_bytes r))"
proof (cases "mb_GetRemainingSpace (pr_header r) > 0")
  case True
  let ?p = "mb_unread (pr_header r)" and ?u = "unread_bytes r"
  let ?n = "sizeof_PacketHeader - length ?p"
  have "0 < ?n"
    using True assms(1) remaining_unread [of "pr_header r"] by (simp add: reader_ok_def)
  then have lt: "length (drop ?n ?u) < length ?u" using assms(2) unfolding length_drop by linarith
  from header_round [OF assms(1) True] obtain b r' where R: "read_header_part r = Some (b, r') \<and> reader_ok r' \<and>
    mb_unread (pr_header r') = ?p @ take ?n ?u \<and> unread_bytes r' = drop ?n ?u \<and>
    (mb_GetRemainingSpace (pr_header r') > 0 \<longleftrightarrow> length ?u < ?n) \<and> (length ?u < ?n \<longrightarrow> \<not> b) \<and>
    (?n \<le> length ?u \<longrightarrow> (\<exists>h. header_of_bytes (?p @ take ?n ?u) = Some h \<and> b = header_valid h \<and>
       (b \<longrightarrow> mid_packet h r' \<and> mb_unread (pr_packet r') = [])))" by (elim exE)
  then have r': "read_header_part r = Some (b, r')" "reader_ok r'" "unread_bytes r' = drop ?n ?u"
    "mb_GetRemainingSpace (pr_header r') > 0 \<longleftrightarrow> length ?u < ?n" "length ?u < ?n \<longrightarrow> \<not> b" by blast+
  then have "b \<longrightarrow> header_full r'" by (auto simp: header_full_def)
  then show ?thesis using r' lt by auto
qed (use assms in \<open>auto simp: read_header_part_def header_full_def\<close>)

lemma payload_part_total:
  assumes "reader_ok r" "header_full r"
  shows "\<exists>b r'. read_payload_part r = Some (b, r') \<and> reader_ok r' \<and> header_full r' \<and>
    length (unread_bytes r') \<le> length (unread_bytes r) \<and> pr_header r' = pr_header r"
proof (cases "mb_GetRemainingSpace (pr_packet r) > 0")
  case True
  have ok: "mb_ok (pr_read r)" "mb_ok (pr_packet r)" using assms(1) by (simp_all add: reader_ok_def)
  obtain rd pk where f: "fill_from (pr_read r) (pr_packet r) = Some (rd, pk)" "mb_ok rd" "mb_ok pk"
    "mb_unread rd = drop (min (length (mb_unread (pr_read r))) (mb_GetRemainingSpace (pr_packet r))) (mb_unread (pr_read r))"
    "rpos pk = rpos (pr_packet r)"
    using fill_from_spec [OF ok] by blast
  then show ?thesis
    using True assms by (simp add: read_payload_part_def reader_ok_def header_full_def unread_bytes_def Let_def)
qed (use assms in \<open>auto simp: read_payload_part_def\<close>)

lemma current_total:
  assumes "reader_ok r" "header_full r"
  shows "\<exists>h d. current_packet r = Some (h, d)"
proof -
  have ok: "mb_ok (pr_packet r)" using assms(1) by (simp add: reader_ok_def)
  have "mb_read (mb_GetActiveSize (pr_packet r)) (pr_packet r) \<noteq> None"
    using mb_read_unread [OF ok, of "length (mb_unread (pr_packet r))"] mb_active_size [OF ok] by simp
  then show ?thesis
    using current_header_full [OF assms(1)] assms(2) by (auto simp: current_packet_def header_full_def)
qed

theorem reads_total:
  "inv s \<Longrightarrow> 2 * length (unread_bytes (get s)) + (if header_full (get s) then 1 else 0) < fuel \<Longrightarrow>
    \<exists>s'. ReadHandler get put on_data on_error fuel s = Some s' \<and> inv s'"
proof (induction fuel arbitrary: s)
  case (Suc fuel)
  let ?u = "length (unread_bytes (get s))"
  have ok: "reader_ok (get s)" using Suc.prems(1) by (rule inv_reader)
  have act: "mb_GetActiveSize (pr_read (get s)) = ?u"
    using ok mb_active_size by (simp add: unread_bytes_def reader_ok_def)
  show ?case
  proof (cases "?u > 0")
    case True
    obtain b r1 where r1: "read_header_part (get s) = Some (b, r1)" "reader_ok r1"
      "length (unread_bytes r1) \<le> ?u" "b \<Longrightarrow> header_full r1" "\<not> header_full (get s) \<Longrightarrow> length (unread_bytes r1) < ?u"
      using header_part_total [OF ok True] by blast
    show ?thesis
    proof (cases b)
      case False
      then show ?thesis using act True r1(1) inv_put [OF Suc.prems(1) r1(2)] by simp
    next
      case b: True
      obtain c r2 where r2: "read_payload_part r1 = Some (c, r2)" "reader_ok r2" "header_full r2"
        "length (unread_bytes r2) \<le> length (unread_bytes r1)"
        using payload_part_total [OF r1(2) r1(4) [OF b]] by blast
      note i2 = inv_put [OF Suc.prems(1) r2(2)]
      show ?thesis
      proof (cases c)
        case False
        then show ?thesis using act True r1(1) b r2(1) i2 by simp
      next
        case c: True
        obtain h d where hd: "current_packet r2 = Some (h, d)" using current_total [OF r2(2,3)] by blast
        obtain res s1 where s1: "on_data h d (put r2 s) = Some (res, s1)" "inv s1"
          "length (unread_bytes (get s1)) \<le> length (unread_bytes r2)"
          using data_total [OF i2, of h d] get_put by metis
        let ?r3 = "(get s1)\<lparr>pr_header := mb_Reset (pr_header (get s1))\<rparr>"
        note r3 = header_reset_room [OF inv_reader [OF s1(2)]]
        have i3: "inv (put ?r3 s1)" by (rule inv_put [OF s1(2) r3(1)])
        obtain s4 where s4: "(if res \<noteq> RdOk \<and> res \<noteq> RdWaitingForQuery then on_error (put ?r3 s1) else Some (put ?r3 s1)) = Some s4"
          "inv s4" "length (unread_bytes (get s4)) \<le> length (unread_bytes (get s1))" "\<not> header_full (get s4)"
          using error_total [OF i3] i3 r3(2,3) get_put by (cases "res \<noteq> RdOk \<and> res \<noteq> RdWaitingForQuery") fastforce+
        have "2 * length (unread_bytes (get s4)) + (if header_full (get s4) then 1 else 0) < fuel"
          using Suc.prems(2) s4(3,4) s1(3) r2(4) r1(3,5) by (cases "header_full (get s)") auto
        then have "\<exists>s'. ReadHandler get put on_data on_error fuel s4 = Some s' \<and> inv s'"
          by (rule Suc.IH [OF s4(2)])
        then show ?thesis using act True r1(1) b r2(1) c hd s1(1) s4(1) by (simp add: Let_def)
      qed
    qed
  qed (use act Suc.prems(1) in simp)
qed simp

end

end
