(* ===== verification/Kcp_Session.thy ===== *)
theory Kcp_Session
  imports Packet_Reader Kcp_Transport
begin

text \<open>
  \<^verbatim>\<open>Network/Socket/KcpSession.h/.cpp\<close>: the server side of one connection, as far as it
  touches only its own state.  An operation returns the session and the datagrams that KCP's
  output callback hands to the server, in order; \<open>Socket_Server\<close> puts them into its queue and
  holds the operations that call back into the server.  Where the code reads memory that
  nothing wrote, the bytes are part of the environment \<open>net_env\<close>: the padding of
  \<open>PacketHeader\<close> on the stack and what the output buffer of KCP holds behind a datagram.  The
  fields that the constructor leaves uninitialised are its argument \<open>ks_junk\<close>.  \<open>m_kcpMtx\<close> is
  not recursive: locking it while held is \<open>None\<close>.
\<close>

section \<open>State\<close>

record net_env =
  ne_malloc :: "nat \<Rightarrow> bool"
  ne_tail :: bytes
  ne_pad :: "u8 \<times> u8"

definition status_code :: "session_status \<Rightarrow> int" where
  "status_code st = (case st of Disconnected \<Rightarrow> 0 | Connecting \<Rightarrow> 1 | Connected \<Rightarrow> 2)"

record 'a kcp_session =
  ks_reader :: packet_reader
  ks_id :: session_id
  ks_kcp :: kcb
  ks_status :: int
  ks_tick :: u32
  ks_lastsend :: u64
  ks_needtime :: u64
  ks_needupdate :: bool
  ks_alive :: bool
  ks_locked :: bool
  ks_app :: 'a

record ks_junk =
  kj_status :: int
  kj_tick :: u32
  kj_lastsend :: u64
  kj_needtime :: u64

text \<open>The application's packet callback, if one is set; \<open>'a\<close> is the application's state.\<close>

type_synonym 'a data_handler = "(u16 \<Rightarrow> bytes \<Rightarrow> 'a \<Rightarrow> bool \<times> 'a) option"

type_synonym 'a session_result = "('a kcp_session \<times> bytes list) option"

definition SESSION_KEEP_ALIVE_TIME :: u32 where "SESSION_KEEP_ALIVE_TIME = 6000"
definition IKCP_OVERHEAD_LEN :: nat where "IKCP_OVERHEAD_LEN = 24"

definition SIZEOF_IKCPCB :: nat where "SIZEOF_IKCPCB = 288"

definition ks_new :: "net_env \<Rightarrow> ks_junk \<Rightarrow> int \<Rightarrow> u32 \<Rightarrow> sock_addr \<Rightarrow> 'a \<Rightarrow> 'a kcp_session option" where
  "ks_new env junk mtu conv addr app = do {
     k \<leftarrow> ikcp_create (ne_malloc env) SIZEOF_IKCPCB conv;
     let k = snd (ikcp_setmtu (ne_malloc env) mtu k);
     let k = snd (ikcp_nodelay 1 5 1 1 k);
     let k = snd (ikcp_wndsize 128 128 k);
     let k = ikcp_setoutput True k;
     let k = k\<lparr>k_rx_minrto := 10\<rparr>;
     Some \<lparr>ks_reader = reader_new, ks_id = \<lparr>sid_conv = conv, sid_addr = addr\<rparr>, ks_kcp = k,
       ks_status = kj_status junk, ks_tick = kj_tick junk, ks_lastsend = kj_lastsend junk,
       ks_needtime = kj_needtime junk, ks_needupdate = False, ks_alive = True, ks_locked = False,
       ks_app = app\<rparr>
   }"

definition ks_conv :: "'a kcp_session \<Rightarrow> u32" where
  "ks_conv s = sid_conv (ks_id s)"

definition ks_IsDead :: "'a kcp_session \<Rightarrow> bool" where
  "ks_IsDead s \<longleftrightarrow> \<not> ks_alive s \<and> ks_tick s \<ge> SESSION_KEEP_ALIVE_TIME"

definition ks_IsAlive :: "'a kcp_session \<Rightarrow> bool" where
  "ks_IsAlive s \<longleftrightarrow> ks_alive s"

definition ks_IsClosed :: "'a kcp_session \<Rightarrow> bool" where
  "ks_IsClosed s \<longleftrightarrow> ks_status s = status_code Disconnected"

definition ks_IsConnecting :: "'a kcp_session \<Rightarrow> bool" where
  "ks_IsConnecting s \<longleftrightarrow> ks_status s = status_code Connecting"

section \<open>Output\<close>

text \<open>
  \<open>fnWriteDgram\<close> reads the command of the first packet at offset 28, whether the datagram
  reaches that far or not, and clears the conversation number of a connection answer.
\<close>

definition ks_fnWriteDgram :: "net_env \<Rightarrow> bytes \<Rightarrow> bytes option" where
  "ks_fnWriteDgram env buf = do {
     cmd \<leftarrow> utils_decode32u (buf @ ne_tail env) (IKCP_OVERHEAD_LEN + 4);
     if cmd = ucast S2C_ACCEPT_ACT then utils_encode32u buf 0 0 else Some buf
   }"

fun write_dgrams :: "net_env \<Rightarrow> bytes list \<Rightarrow> bytes list option" where
  "write_dgrams env [] = Some []"
| "write_dgrams env (d # ds) = do {
     d' \<leftarrow> ks_fnWriteDgram env d;
     ds' \<leftarrow> write_dgrams env ds;
     Some (d' # ds')
   }"

definition ks_update_kcp :: "net_env \<Rightarrow> u32 \<Rightarrow> 'a kcp_session \<Rightarrow> 'a session_result" where
  "ks_update_kcp env current s = do {
     (k, outs) \<leftarrow> ikcp_update (ks_kcp s) current;
     ds \<leftarrow> write_dgrams env outs;
     Some (s\<lparr>ks_kcp := k\<rparr>, ds)
   }"

definition ks_Send :: "net_env \<Rightarrow> bytes \<Rightarrow> bool \<Rightarrow> 'a kcp_session \<Rightarrow> 'a session_result" where
  "ks_Send env buff immediately s =
     (if ks_locked s then None
      else do {
        (rc, k) \<leftarrow> ikcp_send (ne_malloc env) (ks_kcp s) buff (int (length buff));
        let s = s\<lparr>ks_kcp := k, ks_lastsend := ucast (k_current k)\<rparr>;
        if immediately then ks_update_kcp env (k_current k + k_interval k) s
        else Some (s\<lparr>ks_needupdate := True\<rparr>, [])
      })"

definition header_packet :: "net_env \<Rightarrow> u32 \<Rightarrow> u16 \<Rightarrow> bytes" where
  "header_packet env sz cmd = header_bytes (ne_pad env) \<lparr>ph_Size = sz, ph_Command = cmd\<rparr>"

definition ks_SendHeartBeat :: "net_env \<Rightarrow> 'a kcp_session \<Rightarrow> 'a session_result" where
  "ks_SendHeartBeat env s = ks_Send env (header_packet env 0 S2C_HEARTBEAT) False s"

section \<open>Connecting and disconnecting\<close>

definition ks_OnDisconnected :: "net_env \<Rightarrow> bool \<Rightarrow> 'a kcp_session \<Rightarrow> 'a session_result" where
  "ks_OnDisconnected env immediately s = do {
     (s, ds) \<leftarrow> (if ks_status s \<noteq> status_code Disconnected
                then ks_Send env (header_packet env 0 S2C_DISCONNECT) True
                       (s\<lparr>ks_status := status_code Disconnected\<rparr>)
                else Some (s, []));
     if immediately then Some (s, ds)
     else Some (s\<lparr>ks_alive := False, ks_tick := 0, ks_reader := reader_reset (ks_reader s)\<rparr>, ds)
   }"

definition accept_packet :: "net_env \<Rightarrow> u32 \<Rightarrow> bytes" where
  "accept_packet env conv = header_packet env 4 S2C_ACCEPT_ACT @ le32 conv"

definition ks_OnConnected :: "net_env \<Rightarrow> 'a kcp_session \<Rightarrow> 'a session_result" where
  "ks_OnConnected env s = do {
     (s, ds) \<leftarrow> ks_Send env (accept_packet env (ks_conv s)) True s;
     Some (s\<lparr>ks_alive := True, ks_status := status_code Connected\<rparr>, ds)
   }"

text \<open>The overload with a new address runs the first one under the lock that \<open>Send\<close> takes.\<close>

definition ks_OnConnected_addr :: "net_env \<Rightarrow> int \<Rightarrow> u32 \<Rightarrow> sock_addr \<Rightarrow> 'a kcp_session \<Rightarrow> 'a session_result" where
  "ks_OnConnected_addr env mtu conv addr s =
     (if ks_locked s then None
      else do {
        let s = s\<lparr>ks_id := \<lparr>sid_conv = conv, sid_addr = addr\<rparr>, ks_alive := True, ks_locked := True\<rparr>;
        k \<leftarrow> ikcp_create (ne_malloc env) SIZEOF_IKCPCB conv;
        let k = k\<lparr>k_mtu := word_of_int mtu\<rparr>;
        let k = snd (ikcp_nodelay 1 10 2 1 k);
        let k = snd (ikcp_wndsize 128 128 k);
        let k = snd (ikcp_setmtu (ne_malloc env) 512 k);
        let k = ikcp_setoutput True k;
        (s, ds) \<leftarrow> ks_OnConnected env (s\<lparr>ks_kcp := k\<rparr>);
        Some (s\<lparr>ks_locked := False\<rparr>, ds)
      })"

definition ks_ReadDataHandler :: "'a data_handler \<Rightarrow> packet_header \<Rightarrow> bytes \<Rightarrow> 'a kcp_session \<Rightarrow>
    read_result \<times> 'a kcp_session" where
  "ks_ReadDataHandler handler h payload s =
     (case handler of
        None \<Rightarrow> (RdError, s)
      | Some f \<Rightarrow>
          (let (ok, app) = f (ph_Command h) payload (ks_app s)
           in (if ok then RdOk else RdError, s\<lparr>ks_app := app\<rparr>)))"

section \<open>Invariant\<close>

text \<open>A session whose transport and reader are well formed and which nobody holds locked.\<close>

definition session_ok :: "'a kcp_session \<Rightarrow> bool" where
  "session_ok s \<longleftrightarrow> transport_ok (ks_kcp s) \<and> reader_ok (ks_reader s) \<and> \<not> ks_locked s"

text \<open>The environment that the sessions assume: memory, and 32 readable bytes behind a datagram.\<close>

definition env_ok :: "net_env \<Rightarrow> bool" where
  "env_ok env \<longleftrightarrow> (\<forall>n. ne_malloc env n) \<and> 32 \<le> length (ne_tail env)"

lemma write_dgram_total:
  assumes "env_ok env" "4 \<le> length d"
  shows "\<exists>d'. ks_fnWriteDgram env d = Some d' \<and> length d' = length d \<and> drop 4 d' = drop 4 d"
proof -
  have "peek 4 28 (d @ ne_tail env) \<noteq> None" using assms by (simp add: env_ok_def peek_def)
  then obtain xs where xs: "peek 4 28 (d @ ne_tail env) = Some xs" by blast
  then have "length xs = 4" by (rule length_peek)
  then obtain cmd where c: "of_le32 xs = Some cmd" by (simp add: of_le32_def)
  have "utils_encode32u d 0 0 = Some (le32 0 @ drop 4 d)"
    using assms(2) by (simp add: utils_encode32u_def poke_def)
  then show ?thesis using xs c assms(2)
    by (auto simp: ks_fnWriteDgram_def utils_decode32u_def IKCP_OVERHEAD_LEN_def)
qed

text \<open>Datagrams of a size that the transport may send.\<close>

definition dgrams_ok :: "kcb \<Rightarrow> bytes list \<Rightarrow> bool" where
  "dgrams_ok k ds \<longleftrightarrow> (\<forall>d \<in> set ds. 24 \<le> length d \<and> length d \<le> unat (k_mtu k))"

lemma write_dgrams_total:
  assumes "env_ok env" "dgrams_ok k ds"
  shows "\<exists>ds'. write_dgrams env ds = Some ds' \<and> dgrams_ok k ds' \<and> map (drop 4) ds' = map (drop 4) ds"
  using assms(2)
proof (induction ds)
  case (Cons d ds)
  then obtain d' where "ks_fnWriteDgram env d = Some d'" "length d' = length d" "drop 4 d' = drop 4 d"
    using write_dgram_total [OF assms(1), of d] by (auto simp: dgrams_ok_def)
  moreover obtain ds' where "write_dgrams env ds = Some ds'" "dgrams_ok k ds'" "map (drop 4) ds' = map (drop 4) ds"
    using Cons by (auto simp: dgrams_ok_def)
  ultimately show ?case using Cons.prems by (simp add: dgrams_ok_def)
qed (simp add: dgrams_ok_def)

text \<open>What a session keeps when only its transport works: id, status, reader and application.\<close>

definition same_session :: "'a kcp_session \<Rightarrow> 'a kcp_session \<Rightarrow> bool" where
  "same_session s s' \<longleftrightarrow> ks_reader s' = ks_reader s \<and> ks_id s' = ks_id s \<and> ks_app s' = ks_app s \<and>
     ks_tick s' = ks_tick s \<and> ks_alive s' = ks_alive s \<and> ks_status s' = ks_status s \<and>
     ks_locked s' = ks_locked s \<and> same_rest (ks_kcp s) (ks_kcp s')"

lemma same_session_refl [simp]: "same_session s s"
  by (simp add: same_session_def)

lemma same_session_trans: "same_session a b \<Longrightarrow> same_session b c \<Longrightarrow> same_session a c"
  unfolding same_session_def using same_rest_trans by metis

lemma same_rest_dgrams: "same_rest k k' \<Longrightarrow> dgrams_ok k' = dgrams_ok k"
  by (rule ext) (simp add: dgrams_ok_def same_defs)

text \<open>The number of segments waiting to enter the window: only \<open>Send\<close> raises it.\<close>

definition backlog :: "'a kcp_session \<Rightarrow> nat" where
  "backlog s = length (k_snd_queue (ks_kcp s))"

lemma update_kcp_ok:
  assumes "env_ok env" "session_ok s"
  shows "\<exists>s' ds. ks_update_kcp env t s = Some (s', ds) \<and> session_ok s' \<and> same_session s s' \<and>
    backlog s' \<le> backlog s \<and> dgrams_ok (ks_kcp s) ds"
proof -
  obtain k outs where u: "ikcp_update (ks_kcp s) t = Some (k, outs)" "transport_ok k" "same_rest (ks_kcp s) k"
    "length (k_snd_queue k) \<le> length (k_snd_queue (ks_kcp s))"
    "\<forall>d \<in> set outs. 24 \<le> length d \<and> length d \<le> unat (k_mtu (ks_kcp s))"
    using transport_update [of "ks_kcp s" t] assms(2) by (auto simp: session_ok_def)
  obtain ds where "write_dgrams env outs = Some ds" "dgrams_ok (ks_kcp s) ds"
    using write_dgrams_total [OF assms(1), of "ks_kcp s" outs] u(5) by (auto simp: dgrams_ok_def)
  then show ?thesis using u assms(2) by (simp add: ks_update_kcp_def session_ok_def same_session_def backlog_def)
qed

text \<open>\<open>Send\<close> with room in the queue: never blocked, never out of bounds, the session stays well formed.\<close>

definition queue_room :: "'a kcp_session \<Rightarrow> bool" where
  "queue_room s \<longleftrightarrow> backlog s < 2 ^ 31"

lemma ks_Send_ok:
  assumes "env_ok env" "session_ok s" "queue_room s" "length b < 2 ^ 31"
  shows "\<exists>s' ds. ks_Send env b im s = Some (s', ds) \<and> session_ok s' \<and> same_session s s' \<and>
    backlog s' \<le> backlog s + 127 \<and> dgrams_ok (ks_kcp s) ds \<and> (\<not> im \<longrightarrow> ds = [])"
proof -
  have e: "\<forall>n. ne_malloc env n" and t: "transport_ok (ks_kcp s)" and l: "\<not> ks_locked s"
    using assms by (simp_all add: env_ok_def session_ok_def)
  obtain rc k where k: "ikcp_send (ne_malloc env) (ks_kcp s) b (int (length b)) = Some (rc, k)"
    "transport_ok k" "same_rest (ks_kcp s) k" "length (k_snd_queue k) \<le> length (k_snd_queue (ks_kcp s)) + 127"
    using transport_send [OF e t assms(4)] assms(3) by (auto simp: queue_room_def backlog_def)
  let ?s = "s\<lparr>ks_kcp := k, ks_lastsend := ucast (k_current k)\<rparr>"
  have s: "session_ok ?s" "session_ok (?s\<lparr>ks_needupdate := True\<rparr>)" "same_session s ?s"
      "same_session s (?s\<lparr>ks_needupdate := True\<rparr>)"
    using assms(2) k by (simp_all add: session_ok_def same_session_def)
  show ?thesis
  proof (cases im)
    case True
    obtain s' ds where u: "ks_update_kcp env (k_current k + k_interval k) ?s = Some (s', ds)" "session_ok s'"
      "same_session ?s s'" "backlog s' \<le> backlog ?s" "dgrams_ok (ks_kcp ?s) ds"
      using update_kcp_ok [OF assms(1) s(1), of "k_current k + k_interval k"] by blast
    have "dgrams_ok (ks_kcp s) ds" using u(5) same_rest_dgrams [OF k(3)] by simp
    then show ?thesis
      using u k True l same_session_trans [OF s(3) u(3)] by (simp add: ks_Send_def backlog_def)
  qed (use s k l in \<open>simp add: ks_Send_def dgrams_ok_def backlog_def\<close>)
qed

lemma length_header_packet [simp]: "length (header_packet env sz cmd) = 8"
  by (simp add: header_packet_def sizeof_PacketHeader_def)

lemma length_accept_packet [simp]: "length (accept_packet env c) = 12"
  by (simp add: accept_packet_def)

lemma session_ok_field:
  "session_ok (s\<lparr>ks_status := st\<rparr>) = session_ok s" "session_ok (s\<lparr>ks_alive := al\<rparr>) = session_ok s"
  "session_ok (s\<lparr>ks_tick := t\<rparr>) = session_ok s"
  "queue_room (s\<lparr>ks_status := st\<rparr>) = queue_room s" "backlog (s\<lparr>ks_status := st\<rparr>) = backlog s"
  by (simp_all add: session_ok_def queue_room_def backlog_def)

lemma reader_reset_empty:
  assumes "reader_ok r" shows "\<not> header_full (reader_reset r)" "unread_bytes (reader_reset r) = []"
proof -
  have "mb_ok (mb_Reset (pr_header r))" using assms by (simp add: reader_ok_def)
  then show "\<not> header_full (reader_reset r)"
    using assms by (simp add: header_full_def reader_reset_def mb_remaining reader_ok_def sizeof_PacketHeader_def)
      (simp add: mb_Reset_def)
qed (simp add: reader_reset_def unread_bytes_def)

lemma ks_OnDisconnected_ok:
  assumes "env_ok env" "session_ok s" "queue_room s"
  shows "\<exists>s' ds. ks_OnDisconnected env im s = Some (s', ds) \<and> session_ok s' \<and> ks_IsClosed s' \<and>
    ks_id s' = ks_id s \<and> (\<not> im \<longrightarrow> \<not> ks_alive s' \<and> ks_tick s' = 0) \<and> dgrams_ok (ks_kcp s) ds \<and>
    (ks_IsClosed s \<longrightarrow> ds = []) \<and> backlog s' \<le> backlog s + 127 \<and>
    length (unread_bytes (ks_reader s')) \<le> length (unread_bytes (ks_reader s)) \<and>
    (\<not> header_full (ks_reader s) \<longrightarrow> \<not> header_full (ks_reader s'))"
proof -
  let ?d = "s\<lparr>ks_status := status_code Disconnected\<rparr>"
  have *: "\<exists>s' ds. (if ks_status s \<noteq> status_code Disconnected
       then ks_Send env (header_packet env 0 S2C_DISCONNECT) True ?d else Some (s, [])) = Some (s', ds) \<and>
     session_ok s' \<and> ks_IsClosed s' \<and> ks_id s' = ks_id s \<and> dgrams_ok (ks_kcp s) ds \<and> (ks_IsClosed s \<longrightarrow> ds = []) \<and>
     ks_reader s' = ks_reader s \<and> backlog s' \<le> backlog s + 127"
  proof (cases "ks_IsClosed s")
    case False
    have "session_ok ?d" "queue_room ?d" using assms(2,3) by (simp_all add: session_ok_field)
    from ks_Send_ok [OF assms(1) this, of "header_packet env 0 S2C_DISCONNECT" True] show ?thesis
      using False by (auto simp: same_session_def ks_IsClosed_def session_ok_field)
  qed (use assms in \<open>simp add: ks_IsClosed_def dgrams_ok_def\<close>)
  then obtain s' ds where r: "(if ks_status s \<noteq> status_code Disconnected
       then ks_Send env (header_packet env 0 S2C_DISCONNECT) True ?d else Some (s, [])) = Some (s', ds)"
     "session_ok s'" "ks_IsClosed s'" "ks_id s' = ks_id s" "dgrams_ok (ks_kcp s) ds" "ks_IsClosed s \<longrightarrow> ds = []"
     "ks_reader s' = ks_reader s" "backlog s' \<le> backlog s + 127" by blast
  have "\<not> header_full (reader_reset (ks_reader s))" "unread_bytes (reader_reset (ks_reader s)) = []"
    using assms(2) reader_reset_empty by (auto simp: session_ok_def)
  moreover have "session_ok (s'\<lparr>ks_alive := False, ks_tick := 0, ks_reader := reader_reset (ks_reader s')\<rparr>)"
    using r(2) reader_ok_reset by (simp add: session_ok_def)
  ultimately show ?thesis using r by (simp add: ks_OnDisconnected_def ks_IsClosed_def backlog_def)
qed

lemma ks_OnConnected_ok:
  assumes "env_ok env" "session_ok s" "queue_room s"
  shows "\<exists>s' ds. ks_OnConnected env s = Some (s', ds) \<and> session_ok s' \<and> ks_id s' = ks_id s \<and>
    ks_alive s' \<and> ks_status s' = status_code Connected \<and> ks_reader s' = ks_reader s \<and> backlog s' \<le> backlog s + 127 \<and>
    dgrams_ok (ks_kcp s) ds"
proof -
  from ks_Send_ok [OF assms, of "accept_packet env (ks_conv s)" True] obtain s' ds where
    "ks_Send env (accept_packet env (ks_conv s)) True s = Some (s', ds)" "session_ok s'" "same_session s s'"
    "backlog s' \<le> backlog s + 127" "dgrams_ok (ks_kcp s) ds" by auto
  then show ?thesis by (simp add: ks_OnConnected_def session_ok_field same_session_def backlog_def)
qed

lemma ks_new_tuned:
  "ks_new env junk mtu conv addr app = map_option (\<lambda>k. \<lparr>ks_reader = reader_new,
     ks_id = \<lparr>sid_conv = conv, sid_addr = addr\<rparr>, ks_kcp = tuned (ne_malloc env) mtu k,
     ks_status = kj_status junk, ks_tick = kj_tick junk, ks_lastsend = kj_lastsend junk,
     ks_needtime = kj_needtime junk, ks_needupdate = False, ks_alive = True, ks_locked = False,
     ks_app = app\<rparr>) (ikcp_create (ne_malloc env) SIZEOF_IKCPCB conv)"
  by (simp add: ks_new_def tuned_def Let_def map_option_case split: option.splits)

lemma session_new_ok:
  assumes "env_ok env" "mtu < 2 ^ 15"
  shows "\<exists>s. ks_new env junk mtu conv addr app = Some s \<and> session_ok s \<and> backlog s = 0 \<and>
    ks_id s = \<lparr>sid_conv = conv, sid_addr = addr\<rparr> \<and> ks_app s = app \<and> ks_alive s \<and>
    k_conv (ks_kcp s) = conv \<and> (50 \<le> mtu \<longrightarrow> unat (k_mtu (ks_kcp s)) = nat mtu)"
proof -
  obtain k where k: "ikcp_create (ne_malloc env) SIZEOF_IKCPCB conv = Some k"
    using assms(1) by (simp add: ikcp_create_def env_ok_def)
  note t = tuned_transport [OF k assms(2)]
  have "50 \<le> mtu \<longrightarrow> unat (k_mtu (tuned (ne_malloc env) mtu k)) = nat mtu"
    using assms unat_word_of_int32 [of mtu] unfolding t(4)
    by (simp add: ikcp_setmtu_def env_ok_def IKCP_OVERHEAD_def)
  then show ?thesis
    using t reader_ok_new by (simp add: ks_new_tuned k session_ok_def queue_room_def backlog_def)
qed

end
