(* ===== verification/Socket_Server.thy ===== *)
theory Socket_Server
  imports Kcp_Session Write_Queue
begin

text \<open>
  \<^verbatim>\<open>Network/Socket/SocketServer.h/.cpp\<close> and the operations of \<^verbatim>\<open>KcpSession.cpp\<close> that call
  back into the server.  The session objects live in a store from addresses to sessions, so
  that the two maps of the server share them as the \<open>shared_ptr\<close>s of the code do.
  \<open>_sessionLock\<close> is not recursive: locking it while held never returns, which is \<open>None\<close>, like
  a copy outside a buffer or the use of a freed object.  The application is the pair of
  callbacks of the environment; they see the state \<open>ks_app\<close> of the session they are called for.
\<close>

section \<open>State\<close>

record 'a server =
  sv_connected :: bool
  sv_notified :: nat
  sv_queue :: write_queue
  sv_read :: message_buffer
  sv_sessions :: "(u32 \<times> nat) list"
  sv_sleep :: "(u32 \<times> nat) list"
  sv_waiting :: "(sock_addr \<times> message_buffer) list"
  sv_conv :: u16
  sv_mtu :: int
  sv_id :: u16
  sv_objs :: "nat \<Rightarrow> 'a kcp_session"
  sv_next :: nat
  sv_slock :: bool

record 'a server_env =
  se_net :: net_env
  se_srt :: wb_sort
  se_junk :: ks_junk
  se_app0 :: 'a
  se_handler :: "'a data_handler"
  se_accept :: "(u32 \<Rightarrow> 'a \<Rightarrow> 'a) option"
  se_pack_pad :: "u8 \<times> u8"

definition ACCEPT_LEN :: nat where "ACCEPT_LEN = 12"

text \<open>The characters \<^verbatim>\<open>acpt\<close> after a connect header of size 4; the header's padding is the environment's.\<close>

definition accept_pack_data :: "u8 \<times> u8 \<Rightarrow> bytes" where
  "accept_pack_data pad = header_bytes pad \<lparr>ph_Size = 4, ph_Command = C2S_CONNECT\<rparr> @ [97, 99, 112, 116]"

definition sv_new :: "(nat \<Rightarrow> 'a kcp_session) \<Rightarrow> 'a server" where
  "sv_new store = \<lparr>sv_connected = False, sv_notified = 0, sv_queue = wq_new,
     sv_read = mb_Resize RECV_BUFFER_SIZE mb_new_default, sv_sessions = [], sv_sleep = [], sv_waiting = [],
     sv_conv = 0, sv_mtu = 512, sv_id = 0, sv_objs = store, sv_next = 0, sv_slock = False\<rparr>"

text \<open>\<open>StartUp\<close> with a bound socket that listens, and \<open>Stop\<close>.\<close>

definition sv_StartUp :: "'a server \<Rightarrow> 'a server" where
  "sv_StartUp sv = sv\<lparr>sv_connected := True, sv_notified := sv_notified sv + 1\<rparr>"

definition sv_Stop :: "'a server \<Rightarrow> 'a server" where
  "sv_Stop sv = sv\<lparr>sv_connected := False, sv_notified := sv_notified sv + 1\<rparr>"

definition sv_GetClientCount :: "'a server \<Rightarrow> nat" where
  "sv_GetClientCount sv = length (sv_sessions sv)"

section \<open>Sending\<close>

definition sv_Send :: "'a server_env \<Rightarrow> bytes \<Rightarrow> sock_addr \<Rightarrow> 'a server \<Rightarrow> (int \<times> 'a server) option" where
  "sv_Send env data addr sv =
     (if \<not> sv_connected sv then Some (-1, sv)
      else case wq_Push (se_srt env) data addr (sv_queue sv) of
        None \<Rightarrow> None
      | Some (True, q) \<Rightarrow> Some (int (length data), sv\<lparr>sv_queue := q, sv_notified := sv_notified sv + 1\<rparr>)
      | Some (False, q) \<Rightarrow> Some (-1, sv\<lparr>sv_queue := q\<rparr>))"

fun sv_send_all :: "'a server_env \<Rightarrow> bytes list \<Rightarrow> sock_addr \<Rightarrow> 'a server \<Rightarrow> 'a server option" where
  "sv_send_all env [] addr sv = Some sv"
| "sv_send_all env (d # ds) addr sv = do {
     (rc, sv) \<leftarrow> sv_Send env d addr sv;
     sv_send_all env ds addr sv
   }"

text \<open>An operation of session \<open>i\<close>; its output callback sends every datagram to the session's address.\<close>

definition on_session :: "'a server_env \<Rightarrow> nat \<Rightarrow> ('a kcp_session \<Rightarrow> 'a session_result) \<Rightarrow> 'a server \<Rightarrow> 'a server option" where
  "on_session env i f sv = do {
     (s, ds) \<leftarrow> f (sv_objs sv i);
     sv_send_all env ds (sid_addr (ks_id s)) (sv\<lparr>sv_objs := (sv_objs sv)(i := s)\<rparr>)
   }"

text \<open>
  \<open>SendDataHandler\<close> with the result \<open>(nbytes, nresult)\<close> that \<open>SendTo\<close> reports.  The bytes it
  hands to the socket are the second component of the result.
\<close>

definition mtu_size :: "int \<Rightarrow> nat" where
  "mtu_size mtu = (if mtu < 0 then nat (mtu + 2 ^ 64) else nat mtu)"

definition sv_SendDataHandler :: "'a server_env \<Rightarrow> int \<times> int \<Rightarrow> 'a server \<Rightarrow>
    ('a server \<times> (bytes \<times> sock_addr) option) option" where
  "sv_SendDataHandler env result sv =
     (if wq_GetActiveSize (sv_queue sv) > 0 then do {
        b \<leftarrow> wq_Front (sv_queue sv);
        let act = mb_GetActiveSize (wb_buffer b);
        out \<leftarrow> mb_read (if act > mtu_size (sv_mtu sv) then mtu_size (sv_mtu sv) else act) (wb_buffer b);
        if snd result = 0 then do {
          let b' = b\<lparr>wb_buffer := mb_ReadCompleted (nat (fst result)) (wb_buffer b)\<rparr>;
          let q = (sv_queue sv)\<lparr>writeList := b' # tl (writeList (sv_queue sv))\<rparr>;
          let q = (if mb_GetActiveSize (wb_buffer b') = 0 then snd (wq_Pop (se_srt env) q) else q);
          Some (sv\<lparr>sv_queue := q\<rparr>, Some (out, wb_addr b))
        }
        else Some (sv, Some (out, wb_addr b))
      }
      else Some (sv, None))"

section \<open>Looking sessions up\<close>

fun find_session :: "('a kcp_session \<Rightarrow> bool) \<Rightarrow> (nat \<Rightarrow> 'a kcp_session) \<Rightarrow> (u32 \<times> nat) list \<Rightarrow> (u32 \<times> nat) option" where
  "find_session P objs [] = None"
| "find_session P objs ((c, i) # m) = (if P (objs i) then Some (c, i) else find_session P objs m)"

definition has_addr :: "sock_addr \<Rightarrow> 'a kcp_session \<Rightarrow> bool" where
  "has_addr remote s \<longleftrightarrow> sock_addr_eq (sid_addr (ks_id s)) remote"

definition sv_ContainsRemote :: "sock_addr \<Rightarrow> u32 \<Rightarrow> 'a server \<Rightarrow> nat option option" where
  "sv_ContainsRemote remote conv sv =
     (if sv_slock sv then None
      else Some (map_option snd
        (find_session (\<lambda>s. has_addr remote s \<and> ks_conv s = conv) (sv_objs sv) (sv_sessions sv))))"

definition sv_GetSessionByRemote :: "sock_addr \<Rightarrow> 'a server \<Rightarrow> nat option option" where
  "sv_GetSessionByRemote remote sv =
     (if sv_slock sv then None
      else Some (map_option snd (find_session (has_addr remote) (sv_objs sv) (sv_sessions sv))))"

definition sv_GetSleepSessionByRemote :: "sock_addr \<Rightarrow> 'a server \<Rightarrow> nat option" where
  "sv_GetSleepSessionByRemote remote sv =
     map_option snd (find_session (has_addr remote) (sv_objs sv) (sv_sleep sv))"

fun sv_GetWaiting :: "sock_addr \<Rightarrow> (sock_addr \<times> message_buffer) list \<Rightarrow> message_buffer option" where
  "sv_GetWaiting remote [] = None"
| "sv_GetWaiting remote ((a, b) # m) = (if sock_addr_eq a remote then Some b else sv_GetWaiting remote m)"

fun set_waiting :: "sock_addr \<Rightarrow> message_buffer \<Rightarrow> (sock_addr \<times> message_buffer) list \<Rightarrow>
    (sock_addr \<times> message_buffer) list" where
  "set_waiting remote b' [] = []"
| "set_waiting remote b' ((a, b) # m) =
     (if sock_addr_eq a remote then (a, b') # m else (a, b) # set_waiting remote b' m)"

fun erase_waiting :: "sock_addr \<Rightarrow> (sock_addr \<times> message_buffer) list \<Rightarrow> (sock_addr \<times> message_buffer) list" where
  "erase_waiting remote [] = []"
| "erase_waiting remote ((a, b) # m) = (if sock_addr_eq a remote then m else (a, b) # erase_waiting remote m)"

fun erase_key :: "'k \<Rightarrow> ('k \<times> 'v) list \<Rightarrow> ('k \<times> 'v) list" where
  "erase_key k [] = []"
| "erase_key k ((k', v) # m) = (if k' = k then m else (k', v) # erase_key k m)"

section \<open>Closing sessions\<close>

definition sv_CloseSession_addr :: "'a server_env \<Rightarrow> sock_addr \<Rightarrow> 'a server \<Rightarrow> (bool \<times> 'a server) option" where
  "sv_CloseSession_addr env client sv =
     (if sv_slock sv then None
      else case find_session (has_addr client) (sv_objs sv) (sv_sessions sv) of
        None \<Rightarrow> Some (False, sv)
      | Some (c, i) \<Rightarrow> do {
          sv \<leftarrow> on_session env i (ks_OnDisconnected (se_net env) True) sv;
          Some (True, sv\<lparr>sv_sessions := erase_key c (sv_sessions sv)\<rparr>)
        })"

definition sv_CloseSession :: "'a server_env \<Rightarrow> u32 \<Rightarrow> bool \<Rightarrow> 'a server \<Rightarrow> (bool \<times> 'a server) option" where
  "sv_CloseSession env conv remove sv =
     (if sv_slock sv then None
      else case map_of (sv_sessions sv) conv of
        None \<Rightarrow> Some (False, sv)
      | Some i \<Rightarrow> do {
          sv \<leftarrow> on_session env i (ks_OnDisconnected (se_net env) remove) sv;
          let sv = (if \<not> remove then sv\<lparr>sv_sleep := map_insert (<) conv i (sv_sleep sv)\<rparr> else sv);
          Some (True, sv\<lparr>sv_sessions := erase_key conv (sv_sessions sv)\<rparr>)
        })"

text \<open>The text \<^verbatim>\<open>disconnected by Server\<close> with its terminating zero.\<close>

definition dead_text :: bytes where
  "dead_text = [100, 105, 115, 99, 111, 110, 110, 101, 99, 116, 101, 100, 32, 98, 121, 32,
     83, 101, 114, 118, 101, 114, 0]"

fun find_obj :: "nat \<Rightarrow> (u32 \<times> nat) list \<Rightarrow> u32 option" where
  "find_obj i [] = None"
| "find_obj i ((c, j) # m) = (if j = i then Some c else find_obj i m)"

definition sv_OnSessionDead :: "'a server_env \<Rightarrow> nat \<Rightarrow> 'a server \<Rightarrow> 'a server option" where
  "sv_OnSessionDead env i sv =
     (case find_obj i (sv_sleep sv) of
        None \<Rightarrow> Some sv
      | Some c \<Rightarrow> do {
          (rc, sv) \<leftarrow> sv_Send env dead_text (sid_addr (ks_id (sv_objs sv i))) sv;
          sv \<leftarrow> on_session env i (ks_OnDisconnected (se_net env) True) sv;
          Some (sv\<lparr>sv_sleep := erase_key c (sv_sleep sv)\<rparr>)
        })"

text \<open>\<open>KcpSession::Close\<close>, which the destructor runs, and \<open>KcpSession::Disconnect\<close>.\<close>

definition ks_Close :: "'a server_env \<Rightarrow> nat \<Rightarrow> 'a server \<Rightarrow> 'a server option" where
  "ks_Close env i sv =
     (if ks_status (sv_objs sv i) = status_code Disconnected then Some sv
      else map_option snd (sv_CloseSession env (ks_conv (sv_objs sv i)) False sv))"

definition ks_Disconnect :: "'a server_env \<Rightarrow> nat \<Rightarrow> 'a server \<Rightarrow> 'a server option" where
  "ks_Disconnect env i sv = do {
     sv \<leftarrow> on_session env i (ks_Send (se_net env) (header_packet (se_net env) 0 S2C_DISCONNECT) True) sv;
     let s = (sv_objs sv i)\<lparr>ks_status := status_code Disconnected\<rparr>;
     map_option snd (sv_CloseSession env (ks_conv s) True (sv\<lparr>sv_objs := (sv_objs sv)(i := s)\<rparr>))
   }"

section \<open>Receiving\<close>

definition get_reader :: "nat \<Rightarrow> 'a server \<Rightarrow> packet_reader" where
  "get_reader i sv = ks_reader (sv_objs sv i)"

definition put_reader :: "nat \<Rightarrow> packet_reader \<Rightarrow> 'a server \<Rightarrow> 'a server" where
  "put_reader i r sv = sv\<lparr>sv_objs := (sv_objs sv)(i := (sv_objs sv i)\<lparr>ks_reader := r\<rparr>)\<rparr>"

definition sv_on_data :: "'a server_env \<Rightarrow> nat \<Rightarrow> packet_header \<Rightarrow> bytes \<Rightarrow> 'a server \<Rightarrow>
    (read_result \<times> 'a server) option" where
  "sv_on_data env i h d sv =
     (let (res, s) = ks_ReadDataHandler (se_handler env) h d (sv_objs sv i)
      in Some (res, sv\<lparr>sv_objs := (sv_objs sv)(i := s)\<rparr>))"

definition sv_on_error :: "'a server_env \<Rightarrow> nat \<Rightarrow> 'a server \<Rightarrow> 'a server option" where
  "sv_on_error env i sv = map_option snd (sv_CloseSession env (ks_conv (sv_objs sv i)) False sv)"

definition ks_ReadHandler :: "'a server_env \<Rightarrow> nat \<Rightarrow> 'a server \<Rightarrow> 'a server option" where
  "ks_ReadHandler env i sv =
     ReadHandler (get_reader i) (put_reader i) (sv_on_data env i) (sv_on_error env i)
       (read_fuel (get_reader i sv)) sv"

definition reset_read :: "nat \<Rightarrow> 'a server \<Rightarrow> 'a server" where
  "reset_read i sv = put_reader i ((get_reader i sv)\<lparr>pr_read := mb_Reset (pr_read (get_reader i sv))\<rparr>) sv"

text \<open>
  \<open>OnReceive\<close>: \<open>ikcp_recv\<close> copies the message to the write pointer of the read buffer, as
  \<open>Write\<close> does.  \<open>pkt\<close> is the buffer with the datagram at its read pointer.
\<close>

definition ks_input_recv :: "net_env \<Rightarrow> bytes \<Rightarrow> 'a kcp_session \<Rightarrow> (int \<times> bytes \<times> 'a kcp_session) option" where
  "ks_input_recv net data s =
     (if ks_locked s then None
      else do {
        (rc, k) \<leftarrow> ikcp_input (ne_malloc net) (ks_kcp s) data;
        (n, out, k) \<leftarrow> ikcp_recv k (int (mb_GetRemainingSpace (pr_read (ks_reader s))));
        Some (n, out, s\<lparr>ks_kcp := k\<rparr>)
      })"

definition ks_OnReceive :: "'a server_env \<Rightarrow> nat \<Rightarrow> message_buffer \<Rightarrow> 'a server \<Rightarrow> 'a server option" where
  "ks_OnReceive env i pkt sv = do {
     hd4 \<leftarrow> mb_read 4 pkt;
     conv \<leftarrow> ikcp_getconv hd4;
     if conv AND 0xffff \<noteq> ucast (sv_id sv) then do {
       sv \<leftarrow> on_session env i
               (ks_Send (se_net env) (header_packet (se_net env) 0 S2C_CRITICAL_ERROR) True) sv;
       map_option snd (sv_CloseSession env (ks_conv (sv_objs sv i)) False sv)
     }
     else if ks_conv (sv_objs sv i) \<noteq> conv then
       map_option snd (sv_CloseSession env (ks_conv (sv_objs sv i)) False sv)
     else do {
       data \<leftarrow> mb_read (mb_GetActiveSize pkt) pkt;
       (n, out, s) \<leftarrow> ks_input_recv (se_net env) data (sv_objs sv i);
       let sv = sv\<lparr>sv_objs := (sv_objs sv)(i := s)\<rparr>;
       if n > 0 then do {
         rd \<leftarrow> mb_Write out (pr_read (get_reader i sv));
         sv \<leftarrow> ks_ReadHandler env i (put_reader i ((get_reader i sv)\<lparr>pr_read := rd\<rparr>) sv);
         Some (reset_read i sv)
       }
       else Some sv
     }
   }"

section \<open>Updating\<close>

text \<open>
  \<open>KcpSession::Update\<close>.  The second half receives to the read pointer of the read buffer, with
  its active size as the length.
\<close>

definition ks_update_due :: "u32 \<Rightarrow> 'a kcp_session \<Rightarrow> bool" where
  "ks_update_due current s \<longleftrightarrow> ks_needupdate s \<or> ks_needtime s \<le> ucast current"

definition ks_flush_due :: "net_env \<Rightarrow> u32 \<Rightarrow> 'a kcp_session \<Rightarrow> 'a session_result" where
  "ks_flush_due net current s =
     (if ks_update_due current s then
        (if ks_locked s then None
         else do {
           (s, ds) \<leftarrow> ks_update_kcp net current s;
           Some (s\<lparr>ks_needtime := ucast (ikcp_check (ks_kcp s) current), ks_needupdate := False\<rparr>, ds)
         })
      else Some (s, []))"

definition ks_recv_active :: "'a kcp_session \<Rightarrow> (int \<times> 'a kcp_session) option" where
  "ks_recv_active s =
     (if ks_locked s then None
      else do {
        let rb = pr_read (ks_reader s);
        (n, out, k) \<leftarrow> ikcp_recv (ks_kcp s) (int (mb_GetActiveSize rb));
        st \<leftarrow> poke out (rpos rb) (storage rb);
        Some (n, s\<lparr>ks_kcp := k, ks_reader := (ks_reader s)\<lparr>pr_read := rb\<lparr>storage := st\<rparr>\<rparr>\<rparr>)
      })"

definition ks_Update :: "'a server_env \<Rightarrow> nat \<Rightarrow> u32 \<Rightarrow> 'a server \<Rightarrow> 'a server option" where
  "ks_Update env i diff sv =
     (let s = sv_objs sv i in
      if \<not> ks_alive s then Some (sv\<lparr>sv_objs := (sv_objs sv)(i := s\<lparr>ks_tick := ks_tick s + diff\<rparr>)\<rparr>)
      else do {
        sv \<leftarrow> on_session env i (ks_flush_due (se_net env) (k_current (ks_kcp s) + diff)) sv;
        if ikcp_peeksize (ks_kcp (sv_objs sv i)) > 0 then do {
          (n, s) \<leftarrow> ks_recv_active (sv_objs sv i);
          let sv = sv\<lparr>sv_objs := (sv_objs sv)(i := s)\<rparr>;
          if n > 0 then do {
            let r = get_reader i sv;
            sv \<leftarrow> ks_ReadHandler env i (put_reader i (r\<lparr>pr_read := mb_ReadCompleted (nat n) (pr_read r)\<rparr>) sv);
            Some (reset_read i sv)
          }
          else Some sv
        }
        else Some sv
      })"

fun update_alive :: "'a server_env \<Rightarrow> u32 \<Rightarrow> (u32 \<times> nat) list \<Rightarrow> 'a server \<Rightarrow> 'a server option" where
  "update_alive env diff [] sv = Some sv"
| "update_alive env diff ((c, i) # m) sv = do {
     sv \<leftarrow> ks_Update env i diff sv;
     update_alive env diff m sv
   }"

text \<open>
  The loop over the sleeping sessions follows the iterator: the next entry is the first one
  with a greater key in the map as it is then.
\<close>

fun next_entry :: "u32 option \<Rightarrow> (u32 \<times> nat) list \<Rightarrow> (u32 \<times> nat) option" where
  "next_entry prev [] = None"
| "next_entry prev ((c, i) # m) =
     (if (case prev of None \<Rightarrow> True | Some l \<Rightarrow> l < c) then Some (c, i) else next_entry prev m)"

lemma next_entry_greater: "next_entry prev m = Some (c, i) \<Longrightarrow> prev = Some l \<Longrightarrow> l < c"
  by (induction prev m rule: next_entry.induct) (auto split: if_splits)

function update_sleep :: "'a server_env \<Rightarrow> u32 \<Rightarrow> u32 option \<Rightarrow> 'a server \<Rightarrow> 'a server option" where
  "update_sleep env diff prev sv =
     (case next_entry prev (sv_sleep sv) of
        None \<Rightarrow> Some sv
      | Some (c, i) \<Rightarrow>
          (case ks_Update env i diff sv of
             None \<Rightarrow> None
           | Some sv \<Rightarrow>
               update_sleep env diff (Some c)
                 (if ks_IsDead (sv_objs sv i) then sv\<lparr>sv_sleep := erase_key c (sv_sleep sv)\<rparr> else sv)))"
  by pat_completeness auto
termination
proof (relation "measure (\<lambda>(env, diff, prev, sv). case prev of None \<Rightarrow> 2 ^ 32 + 1 | Some l \<Rightarrow> 2 ^ 32 - unat l)", goal_cases)
  case (2 env diff prev sv x c i sv')
  then show ?case
    using next_entry_greater [of prev "sv_sleep sv" c i] unat32_less [of c]
    by (cases prev) (auto simp: word_less_nat_alt diff_less_mono2)
qed simp

declare update_sleep.simps [simp del]

definition sv_Update :: "'a server_env \<Rightarrow> u32 \<Rightarrow> 'a server \<Rightarrow> 'a server option" where
  "sv_Update env diff sv =
     (if sv_slock sv then None
      else do {
        sv \<leftarrow> update_alive env diff (sv_sessions sv) (sv\<lparr>sv_slock := True\<rparr>);
        update_sleep env diff None (sv\<lparr>sv_slock := False\<rparr>)
      })"

section \<open>Accepting\<close>

definition sv_AcceptPack :: "'a server_env \<Rightarrow> bytes \<Rightarrow> bool" where
  "sv_AcceptPack env buff \<longleftrightarrow> buff = take (length buff) (accept_pack_data (se_pack_pad env))"

definition new_conv :: "'a server \<Rightarrow> u32" where
  "new_conv sv = push_bit 16 (scast (sv_conv sv + 1)) + ucast (sv_id sv)"

definition sv_CreateSession :: "'a server_env \<Rightarrow> sock_addr \<Rightarrow> 'a server \<Rightarrow> (nat \<times> 'a server) option" where
  "sv_CreateSession env remote sv = do {
     let conv = new_conv sv;
     s \<leftarrow> ks_new (se_net env) (se_junk env) (sv_mtu sv) conv remote (se_app0 env);
     let i = sv_next sv;
     let sv = sv\<lparr>sv_conv := sv_conv sv + 1, sv_objs := (sv_objs sv)(i := s), sv_next := i + 1\<rparr>;
     if sv_slock sv then None
     else Some (i, sv\<lparr>sv_sessions := map_insert (<) conv i (sv_sessions sv)\<rparr>)
   }"

text \<open>
  The second branch keeps a pointer into the map node that it erases: the test after the
  erasure finds the entry gone, and reading it is undefined.
\<close>

definition sv_OnAccept :: "'a server_env \<Rightarrow> sock_addr \<Rightarrow> 'a server \<Rightarrow> (nat option \<times> 'a server) option" where
  "sv_OnAccept env remote sv = do {
     data \<leftarrow> mb_read (mb_GetActiveSize (sv_read sv)) (sv_read sv);
     case sv_GetWaiting remote (sv_waiting sv) of
       None \<Rightarrow> do {
         buff \<leftarrow> mb_Write data (mb_new (length data));
         if mb_GetActiveSize buff > ACCEPT_LEN then Some (None, sv)
         else if mb_GetActiveSize buff \<noteq> ACCEPT_LEN then
           Some (None, sv\<lparr>sv_waiting := map_insert sock_addr_less remote buff (sv_waiting sv)\<rparr>)
         else do {
           pack \<leftarrow> mb_read (mb_GetActiveSize buff) buff;
           if \<not> sv_AcceptPack env pack then Some (None, sv)
           else map_option (\<lambda>(i, sv). (Some i, sv)) (sv_CreateSession env remote sv)
         }
       }
     | Some b \<Rightarrow> do {
         b \<leftarrow> mb_Write data (mb_EnsureFreeSpace (length data) b);
         let sv = sv\<lparr>sv_waiting := erase_waiting remote (set_waiting remote b (sv_waiting sv))\<rparr>;
         msgBuffer \<leftarrow> sv_GetWaiting remote (sv_waiting sv);
         if mb_GetActiveSize msgBuffer \<noteq> ACCEPT_LEN then Some (None, sv)
         else do {
           pack \<leftarrow> mb_read (mb_GetActiveSize msgBuffer) msgBuffer;
           if \<not> sv_AcceptPack env pack then Some (None, sv)
           else map_option (\<lambda>(i, sv). (Some i, sv)) (sv_CreateSession env remote sv)
         }
       }
   }"

section \<open>The receive callback\<close>

text \<open>
  Without an application callback nobody keeps the new session but the map: when the insertion
  found its conversation number taken, the object dies with the handler and its destructor
  closes the session that the number belongs to.
\<close>

definition sv_accepted :: "'a server_env \<Rightarrow> nat \<Rightarrow> 'a server \<Rightarrow> 'a server option" where
  "sv_accepted env i sv = do {
     sv \<leftarrow> on_session env i (ks_OnConnected (se_net env)) sv;
     case se_accept env of
       Some f \<Rightarrow>
         (let s = sv_objs sv i
          in Some (sv\<lparr>sv_objs := (sv_objs sv)(i := s\<lparr>ks_app := f (ks_conv s) (ks_app s)\<rparr>)\<rparr>))
     | None \<Rightarrow> if find_obj i (sv_sessions sv) = None then ks_Close env i sv else Some sv
   }"

definition sv_ReadHandler :: "'a server_env \<Rightarrow> sock_addr \<Rightarrow> 'a server \<Rightarrow> 'a server option" where
  "sv_ReadHandler env remote sv =
     (if \<not> sv_connected sv then Some sv
      else do {
        session \<leftarrow> sv_GetSessionByRemote remote sv;
        case session of
          None \<Rightarrow> do {
            (session, sv) \<leftarrow> sv_OnAccept env remote sv;
            case session of
              None \<Rightarrow> Some sv
            | Some i \<Rightarrow> sv_accepted env i sv
          }
        | Some i \<Rightarrow> ks_OnReceive env i (sv_read sv) sv
      })"

text \<open>
  A datagram arrives: the socket writes it to the base of the read buffer, and
  \<open>ReadHandlerInternal\<close> runs with its size.
\<close>

definition sv_ReadHandlerInternal :: "'a server_env \<Rightarrow> sock_addr \<Rightarrow> int \<Rightarrow> 'a server \<Rightarrow> 'a server option" where
  "sv_ReadHandlerInternal env remote sz sv =
     (if sz \<le> 0 then Some sv
      else do {
        sv \<leftarrow> sv_ReadHandler env remote (sv\<lparr>sv_read := mb_WriteCompleted (nat sz) (sv_read sv)\<rparr>);
        Some (sv\<lparr>sv_read := mb_Reset (sv_read sv)\<rparr>)
      })"

definition sv_arrive :: "'a server_env \<Rightarrow> sock_addr \<Rightarrow> bytes \<Rightarrow> 'a server \<Rightarrow> 'a server option" where
  "sv_arrive env remote data sv = do {
     st \<leftarrow> poke data 0 (storage (sv_read sv));
     sv_ReadHandlerInternal env remote (int (length data)) (sv\<lparr>sv_read := (sv_read sv)\<lparr>storage := st\<rparr>\<rparr>)
   }"

end
