(* ===== verification/Server_Inv.thy ===== *)
theory Server_Inv
  imports Socket_Server
begin

text \<open>
  The invariant of \<open>Socket_Server\<close> and the proof that its operations keep it.  Both maps are
  sorted, every entry is filed under the conversation number of a well-formed, unlocked
  session object, the write queue is well formed and the read buffer has its fixed size.
  \<open>b\<close> bounds the segments that open sessions have waiting; sending raises it.
\<close>

section \<open>Invariant\<close>

definition senv_ok :: "'a server_env \<Rightarrow> bool" where
  "senv_ok env \<longleftrightarrow> env_ok (se_net env) \<and> std_sort wb_before (se_srt env)"

definition entry_ok :: "'a server \<Rightarrow> u32 \<times> nat \<Rightarrow> bool" where
  "entry_ok sv e \<longleftrightarrow> snd e < sv_next sv \<and> session_ok (sv_objs sv (snd e)) \<and> ks_conv (sv_objs sv (snd e)) = fst e"

definition sv_inv :: "nat \<Rightarrow> 'a server \<Rightarrow> bool" where
  "sv_inv b sv \<longleftrightarrow> wq_inv (sv_queue sv) \<and> map_sorted (<) (sv_sessions sv) \<and> map_sorted (<) (sv_sleep sv) \<and>
     (\<forall>e \<in> set (sv_sessions sv). entry_ok sv e \<and> backlog (sv_objs sv (snd e)) \<le> b) \<and>
     (\<forall>e \<in> set (sv_sleep sv). entry_ok sv e) \<and> sv_mtu sv < 2 ^ 15 \<and>
     mb_ok (sv_read sv) \<and> length (storage (sv_read sv)) = RECV_BUFFER_SIZE"

lemma sv_invD:
  assumes "sv_inv b sv"
  shows "wq_inv (sv_queue sv)" "map_sorted (<) (sv_sessions sv)" "map_sorted (<) (sv_sleep sv)"
    "e \<in> set (sv_sessions sv) \<Longrightarrow> entry_ok sv e" "e \<in> set (sv_sessions sv) \<Longrightarrow> backlog (sv_objs sv (snd e)) \<le> b"
    "e \<in> set (sv_sleep sv) \<Longrightarrow> entry_ok sv e"
    "sv_mtu sv < 2 ^ 15" "mb_ok (sv_read sv)" "length (storage (sv_read sv)) = RECV_BUFFER_SIZE"
  using assms by (auto simp: sv_inv_def)

lemma sv_inv_new: "sv_inv b (sv_new store)"
  by (simp add: sv_inv_def sv_new_def map_sorted_def RECV_BUFFER_SIZE_def mb_ok_def mb_Resize_def mb_new_default_def)

lemma sv_inv_mono: "sv_inv b sv \<Longrightarrow> b \<le> b' \<Longrightarrow> sv_inv b' sv"
  unfolding sv_inv_def by fastforce

section \<open>Maps\<close>

lemma map_sorted_distinct: "map_sorted (<) (m :: (u32 \<times> 'v) list) \<Longrightarrow> distinct (map fst m)"
  by (induction m) (auto simp: map_sorted_def)

lemma set_erase_key: "distinct (map fst m) \<Longrightarrow> set (erase_key k m) = {e \<in> set m. fst e \<noteq> k}"
  by (induction k m rule: erase_key.induct) force+

lemma erase_key_subset: "set (erase_key k m) \<subseteq> set m"
  by (induction k m rule: erase_key.induct) auto

lemma map_sorted_erase: "map_sorted lt m \<Longrightarrow> map_sorted lt (erase_key k m)"
proof (induction k m rule: erase_key.induct)
  case (2 k k' v m)
  then show ?case using erase_key_subset [of k m] by (auto simp: map_sorted_def)
qed simp

lemma set_map_insert: "set (map_insert lt k v m) \<subseteq> insert (k, v) (set m)"
  by (induction lt k v m rule: map_insert.induct) auto

lemma find_session_Some: "find_session P objs m = Some (c, i) \<Longrightarrow> (c, i) \<in> set m \<and> P (objs i)"
  by (induction P objs m rule: find_session.induct) (auto split: if_splits)

lemma find_session_None: "find_session P objs m = None \<longleftrightarrow> (\<forall>(c, i) \<in> set m. \<not> P (objs i))"
  by (induction P objs m rule: find_session.induct) auto

lemma entry_unique:
  assumes "sv_inv b sv" "(c, i) \<in> set (sv_sessions sv)" "(c', i) \<in> set (sv_sessions sv)"
  shows "c' = c"
  using sv_invD(4) [OF assms(1,2)] sv_invD(4) [OF assms(1,3)] by (simp add: entry_ok_def)

section \<open>Sending\<close>

lemma sv_Send_ok:
  assumes "senv_ok env" "wq_inv (sv_queue sv)" "length d < 2 ^ 63"
  shows "\<exists>rc q n. sv_Send env d addr sv = Some (rc, sv\<lparr>sv_queue := q, sv_notified := n\<rparr>) \<and> wq_inv q \<and>
    (rc = -1 \<or> rc = int (length d))"
proof (cases "sv_connected sv")
  case True
  have srt: "std_sort wb_before (se_srt env)" using assms(1) by (simp add: senv_ok_def)
  obtain r q where "wq_Push (se_srt env) d addr (sv_queue sv) = Some (r, q)" "wq_inv q"
    using wq_Push_inv [OF srt assms(2,3)] by metis
  then show ?thesis using True
    by (intro exI [of _ "if r then int (length d) else -1"] exI [of _ q]
        exI [of _ "if r then sv_notified sv + 1 else sv_notified sv"]) (simp add: sv_Send_def split: bool.splits)
next
  case False
  then show ?thesis using assms(2)
    by (auto simp: sv_Send_def intro!: exI [of _ "sv_queue sv"] exI [of _ "sv_notified sv"])
qed

lemma sv_send_all_ok:
  assumes "senv_ok env" "wq_inv (sv_queue sv)" "\<forall>d \<in> set ds. length d < 2 ^ 63"
  shows "\<exists>q n. sv_send_all env ds addr sv = Some (sv\<lparr>sv_queue := q, sv_notified := n\<rparr>) \<and> wq_inv q"
  using assms(2,3)
proof (induction ds arbitrary: sv)
  case Nil
  then show ?case by (auto intro!: exI [of _ "sv_queue sv"] exI [of _ "sv_notified sv"])
next
  case (Cons d ds)
  obtain rc q n where s: "sv_Send env d addr sv = Some (rc, sv\<lparr>sv_queue := q, sv_notified := n\<rparr>)" "wq_inv q"
    using sv_Send_ok [OF assms(1) Cons.prems(1), of d addr] Cons.prems(2) by auto
  let ?sv = "sv\<lparr>sv_queue := q, sv_notified := n\<rparr>"
  obtain q' n' where "sv_send_all env ds addr ?sv = Some (?sv\<lparr>sv_queue := q', sv_notified := n'\<rparr>)" "wq_inv q'"
    using Cons.IH [of ?sv] s(2) Cons.prems(2) by auto
  then show ?case using s(1) by (intro exI [of _ q'] exI [of _ n']) simp
qed

text \<open>An operation of an open session that keeps its identity.\<close>

lemma dgrams_small: "config_ok k \<Longrightarrow> dgrams_ok k ds \<Longrightarrow> \<forall>d \<in> set ds. length d < 2 ^ 63"
  by (fastforce simp: dgrams_ok_def config_ok_def)

lemma sv_inv_update:
  assumes "sv_inv b sv" "session_ok s" "ks_conv s = ks_conv (sv_objs sv i)" "backlog s \<le> b'" "b \<le> b'" "wq_inv q"
  shows "sv_inv b' (sv\<lparr>sv_objs := (sv_objs sv)(i := s), sv_queue := q, sv_notified := n\<rparr>)"
  using assms by (fastforce simp: sv_inv_def entry_ok_def)

lemma on_session_ok:
  assumes "senv_ok env" "sv_inv b sv" "config_ok (ks_kcp (sv_objs sv i))"
    and f: "f (sv_objs sv i) = Some (s, ds)" "session_ok s" "ks_id s = ks_id (sv_objs sv i)" "backlog s \<le> b'"
      "dgrams_ok (ks_kcp (sv_objs sv i)) ds"
    and "b \<le> b'"
  shows "\<exists>q n. on_session env i f sv = Some (sv\<lparr>sv_objs := (sv_objs sv)(i := s), sv_queue := q, sv_notified := n\<rparr>) \<and>
    wq_inv q \<and> sv_inv b' (sv\<lparr>sv_objs := (sv_objs sv)(i := s), sv_queue := q, sv_notified := n\<rparr>)"
proof -
  let ?sv = "sv\<lparr>sv_objs := (sv_objs sv)(i := s)\<rparr>"
  have "wq_inv (sv_queue ?sv)" using sv_invD(1) [OF assms(2)] by simp
  from sv_send_all_ok [OF assms(1) this dgrams_small [OF assms(3) f(5)], of "sid_addr (ks_id s)"]
  obtain q n where q: "sv_send_all env ds (sid_addr (ks_id s)) ?sv = Some (?sv\<lparr>sv_queue := q, sv_notified := n\<rparr>)" "wq_inv q"
    by blast
  have "ks_conv s = ks_conv (sv_objs sv i)" using f(3) by (simp add: ks_conv_def)
  from sv_inv_update [OF assms(2) f(2) this f(4) assms(9) q(2)] show ?thesis
    using q f(1) by (auto simp: on_session_def)
qed

section \<open>Closing\<close>

lemma session_config: "session_ok s \<Longrightarrow> config_ok (ks_kcp s)"
  by (simp add: session_ok_def transport_ok_def)

definition drop_entry :: "bool \<Rightarrow> u32 \<Rightarrow> nat \<Rightarrow> 'a server \<Rightarrow> 'a server" where
  "drop_entry rm conv i sv =
     (let sv = (if \<not> rm then sv\<lparr>sv_sleep := map_insert (<) conv i (sv_sleep sv)\<rparr> else sv)
      in sv\<lparr>sv_sessions := erase_key conv (sv_sessions sv)\<rparr>)"

lemma drop_entry_sel [simp]:
  "sv_objs (drop_entry rm conv i sv) = sv_objs sv" "sv_next (drop_entry rm conv i sv) = sv_next sv"
  "sv_queue (drop_entry rm conv i sv) = sv_queue sv" "sv_mtu (drop_entry rm conv i sv) = sv_mtu sv"
  "sv_read (drop_entry rm conv i sv) = sv_read sv" "sv_slock (drop_entry rm conv i sv) = sv_slock sv"
  "sv_waiting (drop_entry rm conv i sv) = sv_waiting sv" "sv_connected (drop_entry rm conv i sv) = sv_connected sv"
  "sv_id (drop_entry rm conv i sv) = sv_id sv" "sv_conv (drop_entry rm conv i sv) = sv_conv sv"
  "sv_sessions (drop_entry rm conv i sv) = erase_key conv (sv_sessions sv)"
  "sv_sleep (drop_entry rm conv i sv) = (if rm then sv_sleep sv else map_insert (<) conv i (sv_sleep sv))"
  by (simp_all add: drop_entry_def Let_def)

lemma entry_ok_cong:
  "sv_objs sv' = sv_objs sv \<Longrightarrow> sv_next sv' = sv_next sv \<Longrightarrow> entry_ok sv' e = entry_ok sv e"
  by (simp add: entry_ok_def)

lemma drop_entry_inv:
  assumes "sv_inv b' sv" "entry_ok sv (conv, i)"
    and "\<And>e. e \<in> set (sv_sessions sv) \<Longrightarrow> fst e \<noteq> conv \<Longrightarrow> backlog (sv_objs sv (snd e)) \<le> b"
  shows "sv_inv b (drop_entry rm conv i sv)"
proof -
  let ?sv = "drop_entry rm conv i sv"
  note D = sv_invD [OF assms(1)]
  have ok: "entry_ok ?sv e = entry_ok sv e" for e by (rule entry_ok_cong) simp_all
  have "\<forall>e \<in> set (sv_sessions ?sv). entry_ok ?sv e \<and> backlog (sv_objs ?sv (snd e)) \<le> b"
    using D(4) assms(3) set_erase_key [OF map_sorted_distinct [OF D(2)], of conv] by (simp add: ok)
  moreover have "\<forall>e \<in> set (sv_sleep ?sv). entry_ok ?sv e"
  proof -
    have "set (sv_sleep ?sv) \<subseteq> insert (conv, i) (set (sv_sleep sv))"
      using set_map_insert [of "(<)" conv i "sv_sleep sv"] by auto
    then show ?thesis using D(6) assms(2) unfolding ok by blast
  qed
  moreover have "map_sorted (<) (sv_sleep ?sv)" using D(3) conv_map.map_insert_sorted [OF D(3), of conv i] by simp
  moreover have "map_sorted (<) (sv_sessions ?sv)" using D(2) map_sorted_erase by simp
  ultimately show ?thesis using D(1,7-9) by (simp add: sv_inv_def)
qed

lemma CloseSession_alt:
  "sv_CloseSession env conv rm sv =
     (if sv_slock sv then None
      else case map_of (sv_sessions sv) conv of
        None \<Rightarrow> Some (False, sv)
      | Some i \<Rightarrow> map_option (\<lambda>sv. (True, drop_entry rm conv i sv))
          (on_session env i (ks_OnDisconnected (se_net env) rm) sv))"
  by (simp add: sv_CloseSession_def drop_entry_def Let_def map_option_case split: option.splits)

text \<open>
  Closing by number: total when the lock is free; the session leaves the open map and, unless
  it is removed, enters the sleeping one, closed and not alive.
\<close>

lemma CloseSession_ok:
  assumes "senv_ok env" "sv_inv b sv" "\<not> sv_slock sv" "b < 2 ^ 31"
  shows "\<exists>r sv'. sv_CloseSession env conv rm sv = Some (r, sv') \<and> sv_inv b sv' \<and> \<not> sv_slock sv' \<and>
    sv_next sv' = sv_next sv \<and> sv_waiting sv' = sv_waiting sv \<and> sv_read sv' = sv_read sv \<and>
    sv_connected sv' = sv_connected sv \<and> sv_id sv' = sv_id sv \<and> r = (conv \<in> fst ` set (sv_sessions sv)) \<and>
    sv_sessions sv' = erase_key conv (sv_sessions sv) \<and>
    (\<forall>j. ks_id (sv_objs sv' j) = ks_id (sv_objs sv j) \<and>
       length (unread_bytes (get_reader j sv')) \<le> length (unread_bytes (get_reader j sv)) \<and>
       (\<not> header_full (get_reader j sv) \<longrightarrow> \<not> header_full (get_reader j sv')) \<and>
       (session_ok (sv_objs sv j) \<longrightarrow> session_ok (sv_objs sv' j))) \<and>
    (\<forall>i. (conv, i) \<in> set (sv_sessions sv) \<longrightarrow> ks_IsClosed (sv_objs sv' i) \<and>
       (\<not> rm \<longrightarrow> \<not> ks_alive (sv_objs sv' i)))"
proof (cases "map_of (sv_sessions sv) conv")
  case None
  then have n: "conv \<notin> fst ` set (sv_sessions sv)" by (simp add: map_of_eq_None_iff)
  moreover have "erase_key conv m = m" if "conv \<notin> fst ` set m" for m :: "(u32 \<times> nat) list"
    using that by (induction conv m rule: erase_key.induct) auto
  moreover have "\<forall>i. (conv, i) \<notin> set (sv_sessions sv)" using n by force
  ultimately show ?thesis
    using assms None by (intro exI [of _ False] exI [of _ sv] conjI) (simp_all add: sv_CloseSession_def)
next
  case (Some i)
  note dist = map_sorted_distinct [OF sv_invD(2) [OF assms(2)]]
  have mem: "(conv, i) \<in> set (sv_sessions sv)" using Some by (rule map_of_SomeD)
  note e = sv_invD(4,5) [OF assms(2) mem]
  have s: "session_ok (sv_objs sv i)" using e(1) by (simp add: entry_ok_def)
  have "queue_room (sv_objs sv i)" using e(2) assms(4) by (simp add: queue_room_def)
  from ks_OnDisconnected_ok [OF _ s this, of "se_net env" rm] obtain s' ds where
    d: "ks_OnDisconnected (se_net env) rm (sv_objs sv i) = Some (s', ds)" "session_ok s'" "ks_IsClosed s'"
      "ks_id s' = ks_id (sv_objs sv i)" "\<not> rm \<Longrightarrow> \<not> ks_alive s'" "dgrams_ok (ks_kcp (sv_objs sv i)) ds"
      "backlog s' \<le> backlog (sv_objs sv i) + 127"
      "length (unread_bytes (ks_reader s')) \<le> length (unread_bytes (ks_reader (sv_objs sv i)))"
      "\<not> header_full (ks_reader (sv_objs sv i)) \<longrightarrow> \<not> header_full (ks_reader s')"
    using assms(1) by (auto simp: senv_ok_def)
  have bl: "backlog s' \<le> b + 127" using d(7) e(2) by simp
  obtain q n where "on_session env i (ks_OnDisconnected (se_net env) rm) sv =
      Some (sv\<lparr>sv_objs := (sv_objs sv)(i := s'), sv_queue := q, sv_notified := n\<rparr>)"
      "sv_inv (b + 127) (sv\<lparr>sv_objs := (sv_objs sv)(i := s'), sv_queue := q, sv_notified := n\<rparr>)"
    using on_session_ok [where f = "ks_OnDisconnected (se_net env) rm", OF assms(1,2) session_config [OF s] d(1,2,4) bl d(6)]
    by auto
  then obtain sv1 where sv1: "on_session env i (ks_OnDisconnected (se_net env) rm) sv = Some sv1"
    "sv_inv (b + 127) sv1" "sv_objs sv1 = (sv_objs sv)(i := s')" "sv_sessions sv1 = sv_sessions sv"
    "sv_next sv1 = sv_next sv" "sv_waiting sv1 = sv_waiting sv" "sv_read sv1 = sv_read sv"
    "sv_connected sv1 = sv_connected sv" "sv_id sv1 = sv_id sv" "sv_slock sv1 = sv_slock sv" by simp
  have r: "sv_CloseSession env conv rm sv = Some (True, drop_entry rm conv i sv1)"
    using assms(3) Some sv1(1) by (simp add: CloseSession_alt)
  have only: "j = i" if "(conv, j) \<in> set (sv_sessions sv)" for j
    using that dist Some by (metis map_of_is_SomeI option.inject)
  have other: "snd e' \<noteq> i" if "e' \<in> set (sv_sessions sv)" "fst e' \<noteq> conv" for e'
    using that entry_unique [OF assms(2) mem, of "fst e'"] by (cases e') auto
  have c: "ks_conv s' = conv" using e(1) d(4) by (simp add: entry_ok_def ks_conv_def)
  have inv: "sv_inv b (drop_entry rm conv i sv1)"
  proof (rule drop_entry_inv [OF sv1(2)])
    show "entry_ok sv1 (conv, i)" using e(1) d(2) c sv1(3,5) by (simp add: entry_ok_def)
    show "backlog (sv_objs sv1 (snd e')) \<le> b" if "e' \<in> set (sv_sessions sv1)" "fst e' \<noteq> conv" for e'
      using that other [of e'] sv_invD(5) [OF assms(2), of e'] sv1(3,4) by simp
  qed
  have objs: "\<forall>j. ks_id (sv_objs sv1 j) = ks_id (sv_objs sv j) \<and>
       length (unread_bytes (get_reader j sv1)) \<le> length (unread_bytes (get_reader j sv)) \<and>
       (\<not> header_full (get_reader j sv) \<longrightarrow> \<not> header_full (get_reader j sv1)) \<and>
       (session_ok (sv_objs sv j) \<longrightarrow> session_ok (sv_objs sv1 j))"
    using d(2,4,8,9) sv1(3) by (simp add: get_reader_def)
  have closed: "\<forall>j. (conv, j) \<in> set (sv_sessions sv) \<longrightarrow> ks_IsClosed (sv_objs sv1 j) \<and>
       (\<not> rm \<longrightarrow> \<not> ks_alive (sv_objs sv1 j))"
    using only d(3,5) sv1(3) by (metis fun_upd_same)
  have "conv \<in> fst ` set (sv_sessions sv)" using mem by force
  moreover have "get_reader j (drop_entry rm conv i sv1) = get_reader j sv1" for j by (simp add: get_reader_def)
  ultimately show ?thesis
    using assms(3) sv1(4-10) inv objs closed by (intro exI [of _ True] exI [of _ "drop_entry rm conv i sv1"] conjI r) simp_all
qed

section \<open>Receiving\<close>

text \<open>Nothing waits in the read buffer of a session between two operations.\<close>

definition idle_but :: "nat \<Rightarrow> 'a server \<Rightarrow> bool" where
  "idle_but i sv \<longleftrightarrow> (\<forall>e \<in> set (sv_sessions sv) \<union> set (sv_sleep sv).
     snd e \<noteq> i \<longrightarrow> unread_bytes (get_reader (snd e) sv) = [])"

definition sv_idle :: "'a server \<Rightarrow> bool" where
  "sv_idle sv \<longleftrightarrow> (\<forall>e \<in> set (sv_sessions sv) \<union> set (sv_sleep sv). unread_bytes (get_reader (snd e) sv) = [])"

definition server_ok :: "nat \<Rightarrow> 'a server \<Rightarrow> bool" where
  "server_ok b sv \<longleftrightarrow> sv_inv b sv \<and> sv_idle sv \<and> \<not> sv_slock sv"

definition handler_inv :: "'a server_env \<Rightarrow> nat \<Rightarrow> nat \<Rightarrow> 'a server \<Rightarrow> bool" where
  "handler_inv env b i sv \<longleftrightarrow> senv_ok env \<and> sv_inv b sv \<and> \<not> sv_slock sv \<and> b < 2 ^ 31 \<and>
     session_ok (sv_objs sv i) \<and> idle_but i sv"

lemma sv_inv_obj:
  assumes "sv_inv b sv" "session_ok s" "ks_id s = ks_id (sv_objs sv i)" "backlog s \<le> backlog (sv_objs sv i)"
  shows "sv_inv b (sv\<lparr>sv_objs := (sv_objs sv)(i := s)\<rparr>)"
  using assms unfolding sv_inv_def entry_ok_def ks_conv_def by (simp add: ball_Un) (metis le_trans)

lemma get_put_reader [simp]: "get_reader i (put_reader i r sv) = r"
  by (simp add: get_reader_def put_reader_def)

lemma put_reader_sel [simp]:
  "sv_sessions (put_reader i r sv) = sv_sessions sv" "sv_sleep (put_reader i r sv) = sv_sleep sv"
  "sv_slock (put_reader i r sv) = sv_slock sv" "j \<noteq> i \<Longrightarrow> get_reader j (put_reader i r sv) = get_reader j sv"
  by (simp_all add: put_reader_def get_reader_def)

lemma put_reader_inv:
  assumes "sv_inv b sv" "session_ok (sv_objs sv i)" "reader_ok r"
  shows "sv_inv b (put_reader i r sv)" "session_ok (sv_objs (put_reader i r sv) i)"
proof -
  have s: "session_ok ((sv_objs sv i)\<lparr>ks_reader := r\<rparr>)" using assms(2,3) by (simp add: session_ok_def)
  then show "sv_inv b (put_reader i r sv)"
    unfolding put_reader_def by (intro sv_inv_obj [OF assms(1)]) (simp_all add: backlog_def)
  show "session_ok (sv_objs (put_reader i r sv) i)" using s by (simp add: put_reader_def)
qed

lemma on_data_ok:
  assumes "handler_inv env b i sv"
  shows "\<exists>res sv'. sv_on_data env i h d sv = Some (res, sv') \<and> handler_inv env b i sv' \<and>
    get_reader i sv' = get_reader i sv"
proof -
  obtain res s where s: "ks_ReadDataHandler (se_handler env) h d (sv_objs sv i) = (res, s)" by fastforce
  then obtain app where app: "s = (sv_objs sv i)\<lparr>ks_app := app\<rparr>"
    by (cases "se_handler env") (auto simp: ks_ReadDataHandler_def split: prod.splits intro: that [of "ks_app (sv_objs sv i)"])
  let ?sv = "sv\<lparr>sv_objs := (sv_objs sv)(i := s)\<rparr>"
  have k: "session_ok s" "ks_id s = ks_id (sv_objs sv i)" "backlog s \<le> backlog (sv_objs sv i)" "ks_reader s = ks_reader (sv_objs sv i)"
    using assms by (simp_all add: app handler_inv_def session_ok_def backlog_def)
  have i: "sv_inv b ?sv" using sv_inv_obj [OF _ k(1-3)] assms by (simp add: handler_inv_def)
  have r: "get_reader j ?sv = get_reader j sv" for j using k(4) by (simp add: get_reader_def)
  have "handler_inv env b i ?sv" using i assms k(1) by (simp add: handler_inv_def idle_but_def r)
  then show ?thesis using s r by (simp add: sv_on_data_def)
qed

text \<open>The map of sleeping sessions only gains entries that were open.\<close>

lemma CloseSession_entries:
  assumes "sv_CloseSession env conv rm sv = Some (r, sv')" "distinct (map fst (sv_sessions sv))"
  shows "set (sv_sessions sv') \<union> set (sv_sleep sv') \<subseteq> set (sv_sessions sv) \<union> set (sv_sleep sv)"
proof (cases "map_of (sv_sessions sv) conv")
  case None
  then show ?thesis using assms by (auto simp: CloseSession_alt split: if_splits)
next
  case (Some i)
  then obtain sv1 where sv1: "on_session env i (ks_OnDisconnected (se_net env) rm) sv = Some sv1"
    "sv' = drop_entry rm conv i sv1"
    using assms(1) by (auto simp: CloseSession_alt split: if_splits)
  have maps: "sv_sessions sv2 = sv_sessions sv1 \<and> sv_sleep sv2 = sv_sleep sv1"
    if "sv_send_all env ds addr sv1 = Some sv2" for ds addr sv1 sv2
    using that
  proof (induction ds arbitrary: sv1)
    case (Cons d ds)
    obtain rc sv3 where "sv_Send env d addr sv1 = Some (rc, sv3)" "sv_send_all env ds addr sv3 = Some sv2"
      using Cons.prems by (auto simp: bind_eq_Some_conv)
    moreover from this have "sv_sessions sv3 = sv_sessions sv1 \<and> sv_sleep sv3 = sv_sleep sv1"
      by (auto simp: sv_Send_def split: if_splits option.splits prod.splits bool.splits)
    ultimately show ?case using Cons.IH by simp
  qed simp
  have "sv_sessions sv1 = sv_sessions sv" "sv_sleep sv1 = sv_sleep sv"
    using sv1(1) maps by (auto simp: on_session_def bind_eq_Some_conv)
  then show ?thesis
    using sv1(2) erase_key_subset [of conv "sv_sessions sv"] set_map_insert [of "(<)" conv i "sv_sleep sv"]
      map_of_SomeD [OF Some] by auto
qed

lemma on_error_ok:
  assumes "handler_inv env b i sv"
  shows "\<exists>sv'. sv_on_error env i sv = Some sv' \<and> handler_inv env b i sv' \<and>
    length (unread_bytes (get_reader i sv')) \<le> length (unread_bytes (get_reader i sv)) \<and>
    (\<not> header_full (get_reader i sv) \<longrightarrow> \<not> header_full (get_reader i sv'))"
proof -
  have h: "senv_ok env" "sv_inv b sv" "\<not> sv_slock sv" "b < 2 ^ 31" "session_ok (sv_objs sv i)" "idle_but i sv"
    using assms by (simp_all add: handler_inv_def)
  let ?c = "ks_conv (sv_objs sv i)"
  obtain r sv' where c: "sv_CloseSession env ?c False sv = Some (r, sv')" "sv_inv b sv'" "\<not> sv_slock sv'"
    "\<forall>j. length (unread_bytes (get_reader j sv')) \<le> length (unread_bytes (get_reader j sv)) \<and>
       (\<not> header_full (get_reader j sv) \<longrightarrow> \<not> header_full (get_reader j sv')) \<and>
       (session_ok (sv_objs sv j) \<longrightarrow> session_ok (sv_objs sv' j))"
    using CloseSession_ok [OF h(1-4), of ?c False] by blast
  have "idle_but i sv'"
    unfolding idle_but_def
  proof (intro ballI impI)
    fix e assume "e \<in> set (sv_sessions sv') \<union> set (sv_sleep sv')" "snd e \<noteq> i"
    then have "unread_bytes (get_reader (snd e) sv) = []"
      using CloseSession_entries [OF c(1) map_sorted_distinct [OF sv_invD(2) [OF h(2)]]] h(6)
      by (auto simp: idle_but_def)
    then show "unread_bytes (get_reader (snd e) sv') = []" using c(4) by (metis le_zero_eq length_0_conv)
  qed
  then have "handler_inv env b i sv'" using h c by (simp add: handler_inv_def)
  then show ?thesis using c(1,4) by (simp add: sv_on_error_def)
qed

interpretation session_owner: packet_owner "get_reader i" "put_reader i" "sv_on_data env i" "sv_on_error env i"
    "handler_inv env b i" for env :: "'a server_env" and b i
proof
  fix sv :: "'a server" and r h d
  show "get_reader i (put_reader i r sv) = r" by simp
  assume *: "handler_inv env b i sv"
  then show "reader_ok (get_reader i sv)" by (simp add: handler_inv_def session_ok_def get_reader_def)
  show "handler_inv env b i (put_reader i r sv)" if "reader_ok r"
    using * put_reader_inv [OF _ _ that, of b sv i] by (simp add: handler_inv_def idle_but_def)
  show "\<exists>res s'. sv_on_data env i h d sv = Some (res, s') \<and> handler_inv env b i s' \<and>
      length (unread_bytes (get_reader i s')) \<le> length (unread_bytes (get_reader i sv))"
    using on_data_ok [OF *, of h d] by auto
  show "\<exists>s'. sv_on_error env i sv = Some s' \<and> handler_inv env b i s' \<and>
      length (unread_bytes (get_reader i s')) \<le> length (unread_bytes (get_reader i sv)) \<and> \<not> header_full (get_reader i s')"
    if "\<not> header_full (get_reader i sv)"
    using on_error_ok [OF *] that by blast
qed

lemma ReadHandler_ok:
  assumes "handler_inv env b i sv"
  shows "\<exists>sv'. ks_ReadHandler env i sv = Some sv' \<and> handler_inv env b i sv'"
  unfolding ks_ReadHandler_def
proof (rule session_owner.reads_total [OF assms])
  have "mb_GetActiveSize (pr_read (get_reader i sv)) = length (unread_bytes (get_reader i sv))"
    using assms mb_active_size by (simp add: handler_inv_def session_ok_def reader_ok_def get_reader_def unread_bytes_def)
  then show "2 * length (unread_bytes (get_reader i sv)) + (if header_full (get_reader i sv) then 1 else 0)
      < read_fuel (get_reader i sv)"
    by (simp add: read_fuel_def)
qed

text \<open>After the handler the read buffer of the session is reset.\<close>

lemma reset_read_ok:
  assumes "handler_inv env b i sv"
  shows "server_ok b (reset_read i sv)"
proof -
  let ?r = "(get_reader i sv)\<lparr>pr_read := mb_Reset (pr_read (get_reader i sv))\<rparr>"
  have h: "sv_inv b sv" "\<not> sv_slock sv" "session_ok (sv_objs sv i)" "idle_but i sv"
    using assms by (simp_all add: handler_inv_def)
  have r: "reader_ok ?r" using h(3) by (simp add: session_ok_def reader_ok_def get_reader_def)
  have "unread_bytes ?r = []" by (simp add: unread_bytes_def)
  then have "unread_bytes (get_reader (snd e) (put_reader i ?r sv)) = []"
    if "e \<in> set (sv_sessions sv) \<union> set (sv_sleep sv)" for e
    using h(4) that by (cases "snd e = i") (simp_all add: idle_but_def)
  then have "sv_idle (put_reader i ?r sv)" by (simp add: sv_idle_def)
  then show ?thesis
    using put_reader_inv [OF h(1,3) r] h(2) by (simp add: server_ok_def reset_read_def)
qed

lemma input_recv_ok:
  assumes "env_ok net" "session_ok s" "length data \<le> MAX_DGRAM"
  shows "\<exists>n out s'. ks_input_recv net data s = Some (n, out, s') \<and> session_ok s' \<and> ks_id s' = ks_id s \<and>
    ks_reader s' = ks_reader s \<and> ks_app s' = ks_app s \<and> backlog s' = backlog s \<and>
    (0 < n \<longrightarrow> n = int (length out) \<and> length out \<le> mb_GetRemainingSpace (pr_read (ks_reader s)))"
proof -
  have t: "transport_ok (ks_kcp s)" "\<not> ks_locked s" "\<forall>n. ne_malloc net n"
    using assms by (simp_all add: session_ok_def env_ok_def)
  let ?len = "int (mb_GetRemainingSpace (pr_read (ks_reader s)))"
  obtain rc k1 where i: "ikcp_input (ne_malloc net) (ks_kcp s) data = Some (rc, k1)" "transport_ok k1"
    "k_snd_queue k1 = k_snd_queue (ks_kcp s)"
    using transport_input [OF t(3,1) assms(3)] by blast
  obtain n out k2 where r: "ikcp_recv k1 ?len = Some (n, out, k2)" "transport_ok k2" "k_snd_queue k2 = k_snd_queue k1"
    "0 \<le> n \<longrightarrow> n = int (length out) \<and> n \<le> ?len"
    using transport_recv [OF i(2), of ?len] by auto
  have l: "0 < n \<longrightarrow> n = int (length out) \<and> length out \<le> mb_GetRemainingSpace (pr_read (ks_reader s))"
    using r(4) by auto
  show ?thesis
    by (intro exI [of _ n] exI [of _ out] exI [of _ "s\<lparr>ks_kcp := k2\<rparr>"])
      (use i r(1-3) l t assms(2) in \<open>simp add: ks_input_recv_def session_ok_def backlog_def\<close>)
qed

lemma server_ok_mono: "server_ok b sv \<Longrightarrow> b \<le> b' \<Longrightarrow> server_ok b' sv"
  unfolding server_ok_def using sv_inv_mono by blast

lemma CloseSession_server_ok:
  assumes "senv_ok env" "server_ok b sv" "b < 2 ^ 31"
  shows "\<exists>r sv'. sv_CloseSession env conv rm sv = Some (r, sv') \<and> server_ok b sv' \<and>
    sv_sessions sv' = erase_key conv (sv_sessions sv) \<and> sv_waiting sv' = sv_waiting sv \<and>
    (\<forall>i. (conv, i) \<in> set (sv_sessions sv) \<longrightarrow> ks_IsClosed (sv_objs sv' i) \<and> (\<not> rm \<longrightarrow> \<not> ks_alive (sv_objs sv' i)))"
proof -
  have h: "sv_inv b sv" "sv_idle sv" "\<not> sv_slock sv" using assms(2) by (simp_all add: server_ok_def)
  obtain r sv' where c: "sv_CloseSession env conv rm sv = Some (r, sv')" "sv_inv b sv'" "\<not> sv_slock sv'"
    "sv_sessions sv' = erase_key conv (sv_sessions sv)" "sv_waiting sv' = sv_waiting sv"
    "\<forall>j. length (unread_bytes (get_reader j sv')) \<le> length (unread_bytes (get_reader j sv))"
    "\<forall>i. (conv, i) \<in> set (sv_sessions sv) \<longrightarrow> ks_IsClosed (sv_objs sv' i) \<and> (\<not> rm \<longrightarrow> \<not> ks_alive (sv_objs sv' i))"
    using CloseSession_ok [OF assms(1) h(1,3) assms(3), of conv rm] by blast
  have "sv_idle sv'"
    unfolding sv_idle_def
  proof (intro ballI)
    fix e assume "e \<in> set (sv_sessions sv') \<union> set (sv_sleep sv')"
    then have "unread_bytes (get_reader (snd e) sv) = []"
      using CloseSession_entries [OF c(1) map_sorted_distinct [OF sv_invD(2) [OF h(1)]]] h(2) by (auto simp: sv_idle_def)
    then show "unread_bytes (get_reader (snd e) sv') = []" using c(6) by (metis le_zero_eq length_0_conv)
  qed
  then show ?thesis using c by (auto simp: server_ok_def)
qed

text \<open>An operation of a session that keeps its reader.\<close>

lemma on_session_server_ok:
  assumes "senv_ok env" "server_ok b sv" "session_ok (sv_objs sv i)"
    and f: "f (sv_objs sv i) = Some (s, ds)" "session_ok s" "ks_id s = ks_id (sv_objs sv i)" "backlog s \<le> b'"
      "dgrams_ok (ks_kcp (sv_objs sv i)) ds" "ks_reader s = ks_reader (sv_objs sv i)"
    and "b \<le> b'"
  shows "\<exists>sv'. on_session env i f sv = Some sv' \<and> server_ok b' sv' \<and> sv_objs sv' = (sv_objs sv)(i := s) \<and>
    sv_sessions sv' = sv_sessions sv \<and> sv_sleep sv' = sv_sleep sv \<and> sv_waiting sv' = sv_waiting sv \<and>
    sv_read sv' = sv_read sv \<and> sv_id sv' = sv_id sv \<and> sv_next sv' = sv_next sv"
proof -
  have h: "sv_inv b sv" "sv_idle sv" "\<not> sv_slock sv" using assms(2) by (simp_all add: server_ok_def)
  obtain q n where q: "on_session env i f sv = Some (sv\<lparr>sv_objs := (sv_objs sv)(i := s), sv_queue := q, sv_notified := n\<rparr>)"
      "sv_inv b' (sv\<lparr>sv_objs := (sv_objs sv)(i := s), sv_queue := q, sv_notified := n\<rparr>)"
    using on_session_ok [where f = f, OF assms(1) h(1) session_config [OF assms(3)] f(1-5) assms(10)] by blast
  have "get_reader j (sv\<lparr>sv_objs := (sv_objs sv)(i := s), sv_queue := q, sv_notified := n\<rparr>) = get_reader j sv" for j
    using f(6) by (simp add: get_reader_def)
  then have "sv_idle (sv\<lparr>sv_objs := (sv_objs sv)(i := s), sv_queue := q, sv_notified := n\<rparr>)"
    using h(2) by (simp add: sv_idle_def)
  then show ?thesis using q h(3) by (simp add: server_ok_def)
qed

text \<open>\<open>Send\<close> of one small packet from an open session.\<close>

lemma send_packet_ok:
  assumes "senv_ok env" "server_ok b sv" "session_ok (sv_objs sv i)" "backlog (sv_objs sv i) \<le> b" "b < 2 ^ 31" "length p < 2 ^ 31"
  shows "\<exists>sv'. on_session env i (ks_Send (se_net env) p im) sv = Some sv' \<and> server_ok (b + 127) sv' \<and>
    same_session (sv_objs sv i) (sv_objs sv' i) \<and> sv_sessions sv' = sv_sessions sv \<and> sv_waiting sv' = sv_waiting sv"
proof -
  have "queue_room (sv_objs sv i)" using assms(4,5) by (simp add: queue_room_def)
  from ks_Send_ok [OF _ assms(3) this assms(6), of "se_net env" im] obtain s ds where
    s: "ks_Send (se_net env) p im (sv_objs sv i) = Some (s, ds)" "session_ok s" "same_session (sv_objs sv i) s"
      "backlog s \<le> backlog (sv_objs sv i) + 127" "dgrams_ok (ks_kcp (sv_objs sv i)) ds"
    using assms(1) by (auto simp: senv_ok_def)
  have i: "ks_id s = ks_id (sv_objs sv i)" "ks_reader s = ks_reader (sv_objs sv i)" using s(3) by (simp_all add: same_session_def)
  have bl: "backlog s \<le> b + 127" using s(4) assms(4) by simp
  obtain sv' where "on_session env i (ks_Send (se_net env) p im) sv = Some sv'" "server_ok (b + 127) sv'"
    "sv_objs sv' = (sv_objs sv)(i := s)" "sv_sessions sv' = sv_sessions sv" "sv_waiting sv' = sv_waiting sv"
    using on_session_server_ok [where f = "ks_Send (se_net env) p im", OF assms(1-3) s(1,2) i(1) bl s(5) i(2)] by auto
  then show ?thesis using s(3) by auto
qed

lemma close_after:
  assumes "senv_ok env" "server_ok b sv" "b < 2 ^ 31"
  shows "\<exists>sv'. map_option snd (sv_CloseSession env conv rm sv) = Some sv' \<and> server_ok b sv' \<and>
    sv_sessions sv' = erase_key conv (sv_sessions sv)"
  using CloseSession_server_ok [OF assms, of conv rm] by auto

text \<open>A datagram for an open session: any bytes at all.\<close>

lemma OnReceive_ok:
  assumes "senv_ok env" "server_ok b sv" "(c, i) \<in> set (sv_sessions sv)" "b + 127 < 2 ^ 31"
    and pkt: "mb_ok pkt" "rpos pkt = 0" "4 \<le> length (storage pkt)" "length (mb_unread pkt) \<le> MAX_DGRAM"
  shows "\<exists>sv'. ks_OnReceive env i pkt sv = Some sv' \<and> server_ok (b + 127) sv'"
proof -
  have h: "sv_inv b sv" "sv_idle sv" "\<not> sv_slock sv" using assms(2) by (simp_all add: server_ok_def)
  have e: "session_ok (sv_objs sv i)" "backlog (sv_objs sv i) \<le> b" "ks_conv (sv_objs sv i) = c" "i < sv_next sv"
    using sv_invD(4,5) [OF h(1) assms(3)] by (simp_all add: entry_ok_def)
  have net: "env_ok (se_net env)" using assms(1) by (simp add: senv_ok_def)
  obtain h4 where h4: "mb_read 4 pkt = Some h4" "length h4 = 4"
    using pkt(2,3) length_peek by (auto simp: mb_read_def peek_def)
  then obtain conv where conv: "ikcp_getconv h4 = Some conv"
    by (auto simp: ikcp_getconv_def ikcp_decode32u_def of_le32_def)
  have data: "mb_read (mb_GetActiveSize pkt) pkt = Some (mb_unread pkt)"
    using mb_read_unread [OF pkt(1), of "length (mb_unread pkt)"] mb_active_size [OF pkt(1)] by simp
  consider (server) "conv AND 0xffff \<noteq> ucast (sv_id sv)"
    | (conv) "conv AND 0xffff = ucast (sv_id sv)" "ks_conv (sv_objs sv i) \<noteq> conv"
    | (ok) "conv AND 0xffff = ucast (sv_id sv)" "ks_conv (sv_objs sv i) = conv" by blast
  then show ?thesis
  proof cases
    case server
    have b31: "b < 2 ^ 31" using assms(4) by simp
    obtain sv1 where "on_session env i
        (ks_Send (se_net env) (header_packet (se_net env) 0 S2C_CRITICAL_ERROR) True) sv = Some sv1"
      "server_ok (b + 127) sv1"
      using send_packet_ok [OF assms(1,2) e(1,2) b31, of "header_packet (se_net env) 0 S2C_CRITICAL_ERROR" True] by auto
    then show ?thesis using server h4 conv close_after [OF assms(1) _ assms(4), of sv1 "ks_conv (sv_objs sv1 i)" False]
      by (auto simp: ks_OnReceive_def)
  next
    case conv': conv
    obtain sv1 where "map_option snd (sv_CloseSession env c False sv) = Some sv1" "server_ok b sv1"
      using close_after [OF assms(1,2), of c False] assms(4) by auto
    then show ?thesis using conv' h4 conv e(3) server_ok_mono [of b sv1 "b + 127"] by (auto simp: ks_OnReceive_def)
  next
    case ok
    obtain n out s where s: "ks_input_recv (se_net env) (mb_unread pkt) (sv_objs sv i) = Some (n, out, s)" "session_ok s"
      "ks_id s = ks_id (sv_objs sv i)" "ks_reader s = ks_reader (sv_objs sv i)" "backlog s = backlog (sv_objs sv i)"
      "0 < n \<longrightarrow> n = int (length out) \<and> length out \<le> mb_GetRemainingSpace (pr_read (ks_reader (sv_objs sv i)))"
      using input_recv_ok [OF net e(1) pkt(4)] by blast
    let ?sv = "sv\<lparr>sv_objs := (sv_objs sv)(i := s)\<rparr>"
    have inv: "sv_inv b ?sv" by (rule sv_inv_obj [OF h(1) s(2,3)]) (simp add: s(5))
    have rd: "get_reader j ?sv = get_reader j sv" for j using s(4) by (simp add: get_reader_def)
    have idle: "sv_idle ?sv" using h(2) by (simp add: sv_idle_def rd)
    show ?thesis
    proof (cases "n > 0")
      case False
      have "server_ok b ?sv" using inv idle h(3) by (simp add: server_ok_def)
      moreover have "ks_OnReceive env i pkt sv = Some ?sv"
        using ok h4(1) conv data s(1) False by (simp add: ks_OnReceive_def)
      ultimately show ?thesis using server_ok_mono [of b ?sv "b + 127"] by auto
    next
      case True
      have rok: "reader_ok (get_reader i ?sv)" using s(2) by (simp add: session_ok_def get_reader_def)
      then have "mb_ok (pr_read (get_reader i ?sv))" by (simp add: reader_ok_def)
      moreover have "length out \<le> mb_GetRemainingSpace (pr_read (get_reader i ?sv))"
        using s(4,6) True by (simp add: get_reader_def)
      ultimately obtain rb where rb: "mb_Write out (pr_read (get_reader i ?sv)) = Some rb" "mb_ok rb"
        using mb_Write_Some by metis
      have rok': "reader_ok ((get_reader i ?sv)\<lparr>pr_read := rb\<rparr>)" using rok rb(2) by (simp add: reader_ok_def)
      have "session_ok (sv_objs ?sv i)" using s(2) by simp
      note put = put_reader_inv [OF inv this rok']
      let ?p = "put_reader i ((get_reader i ?sv)\<lparr>pr_read := rb\<rparr>) ?sv"
      have "handler_inv env b i ?p"
        using put assms(1,4) h(3) idle by (simp add: handler_inv_def idle_but_def sv_idle_def)
      then obtain sv1 where sv1: "ks_ReadHandler env i ?p = Some sv1" "handler_inv env b i sv1"
        using ReadHandler_ok by blast
      then have "ks_OnReceive env i pkt sv = Some (reset_read i sv1)"
        using ok h4(1) conv data s(1) True rb(1) by (simp add: ks_OnReceive_def)
      moreover have "server_ok (b + 127) (reset_read i sv1)"
        by (rule server_ok_mono [OF reset_read_ok [OF sv1(2)]]) simp
      ultimately show ?thesis by blast
    qed
  qed
qed

section \<open>Accepting\<close>

lemma CreateSession_ok:
  assumes "senv_ok env" "server_ok b sv"
  shows "\<exists>sv'. sv_CreateSession env remote sv = Some (sv_next sv, sv') \<and> server_ok b sv' \<and>
    session_ok (sv_objs sv' (sv_next sv)) \<and> backlog (sv_objs sv' (sv_next sv)) = 0 \<and>
    ks_id (sv_objs sv' (sv_next sv)) = \<lparr>sid_conv = new_conv sv, sid_addr = remote\<rparr> \<and>
    k_conv (ks_kcp (sv_objs sv' (sv_next sv))) = new_conv sv \<and>
    sv_sessions sv' = map_insert (<) (new_conv sv) (sv_next sv) (sv_sessions sv) \<and>
    sv_conv sv' = sv_conv sv + 1 \<and> sv_next sv' = sv_next sv + 1 \<and> sv_read sv' = sv_read sv"
proof -
  have h: "sv_inv b sv" "sv_idle sv" "\<not> sv_slock sv" using assms(2) by (simp_all add: server_ok_def)
  note D = sv_invD [OF h(1)]
  let ?i = "sv_next sv" and ?c = "new_conv sv"
  obtain s where s: "ks_new (se_net env) (se_junk env) (sv_mtu sv) ?c remote (se_app0 env) = Some s" "session_ok s"
    "backlog s = 0" "ks_id s = \<lparr>sid_conv = ?c, sid_addr = remote\<rparr>" "k_conv (ks_kcp s) = ?c"
    using session_new_ok [of "se_net env" "sv_mtu sv" "se_junk env" ?c remote "se_app0 env"] assms(1) D(7)
    by (auto simp: senv_ok_def)
  let ?sv = "sv\<lparr>sv_conv := sv_conv sv + 1, sv_objs := (sv_objs sv)(?i := s), sv_next := ?i + 1,
      sv_sessions := map_insert (<) ?c ?i (sv_sessions sv)\<rparr>"
  have r: "sv_CreateSession env remote sv = Some (?i, ?sv)"
    using s(1) h(3) by (simp add: sv_CreateSession_def Let_def)
  have lt: "snd e < ?i" if "e \<in> set (sv_sessions sv) \<union> set (sv_sleep sv)" for e
    using that D(4,6) unfolding entry_ok_def by blast
  have old: "entry_ok ?sv e" if "entry_ok sv e" for e
    using that by (simp add: entry_ok_def)
  have new: "entry_ok ?sv (?c, ?i)" using s(2,4) by (simp add: entry_ok_def ks_conv_def)
  have sub: "set (sv_sessions ?sv) \<subseteq> insert (?c, ?i) (set (sv_sessions sv))"
    using set_map_insert [of "(<)" ?c ?i "sv_sessions sv"] by simp
  have bl: "backlog (sv_objs ?sv (snd e)) \<le> b" if "e \<in> set (sv_sessions sv)" for e
    using D(5) [OF that] lt [of e] that by simp
  have "\<forall>e \<in> set (sv_sessions ?sv). entry_ok ?sv e \<and> backlog (sv_objs ?sv (snd e)) \<le> b"
  proof
    fix e assume "e \<in> set (sv_sessions ?sv)"
    then have "e = (?c, ?i) \<or> e \<in> set (sv_sessions sv)" using sub by blast
    moreover have "entry_ok ?sv (?c, ?i) \<and> backlog (sv_objs ?sv (snd (?c, ?i))) \<le> b" using new s(3) by simp
    ultimately show "entry_ok ?sv e \<and> backlog (sv_objs ?sv (snd e)) \<le> b" using old [OF D(4)] bl by blast
  qed
  moreover have "\<forall>e \<in> set (sv_sleep ?sv). entry_ok ?sv e" using old [OF D(6)] by simp
  moreover have "map_sorted (<) (sv_sessions ?sv)" using conv_map.map_insert_sorted [OF D(2), of ?c ?i] by simp
  ultimately have inv: "sv_inv b ?sv" using D(1,3,7-9) by (simp add: sv_inv_def)
  have un: "unread_bytes (ks_reader s) = []"
    using s(1) by (auto simp: ks_new_def Let_def bind_eq_Some_conv reader_new_def unread_bytes_def)
  have "unread_bytes (get_reader (snd e) ?sv) = []" if "e \<in> set (sv_sessions ?sv) \<union> set (sv_sleep ?sv)" for e
  proof (cases "snd e = ?i")
    case False
    then have "e \<in> set (sv_sessions sv) \<union> set (sv_sleep sv)" using that sub by auto
    then show ?thesis using False h(2) by (simp add: sv_idle_def get_reader_def)
  qed (use un in \<open>simp add: get_reader_def\<close>)
  then have "sv_idle ?sv" by (simp add: sv_idle_def)
  then have "server_ok b ?sv" using inv h(3) by (simp add: server_ok_def)
  then show ?thesis using r s by (intro exI [of _ ?sv]) simp
qed

text \<open>A first contact: the datagram is refused, kept as a fragment, or accepted.\<close>

lemma OnAccept_ok:
  assumes "senv_ok env" "server_ok b sv" "sv_GetWaiting remote (sv_waiting sv) = None"
  shows "if mb_unread (sv_read sv) = accept_pack_data (se_pack_pad env)
    then sv_OnAccept env remote sv = map_option (\<lambda>(i, sv). (Some i, sv)) (sv_CreateSession env remote sv)
    else if length (mb_unread (sv_read sv)) < ACCEPT_LEN
    then \<exists>buff. sv_OnAccept env remote sv = Some (None, sv\<lparr>sv_waiting := map_insert sock_addr_less remote buff (sv_waiting sv)\<rparr>) \<and>
      mb_unread buff = mb_unread (sv_read sv)
    else sv_OnAccept env remote sv = Some (None, sv)"
proof -
  let ?u = "mb_unread (sv_read sv)"
  have ok: "mb_ok (sv_read sv)" "length (storage (sv_read sv)) = RECV_BUFFER_SIZE"
    using assms(2) sv_invD(8,9) by (auto simp: server_ok_def)
  have len: "length ?u \<le> 4096" using mb_length_unread [OF ok(1)] mb_okD(2) [OF ok(1)] ok(2) by (simp add: RECV_BUFFER_SIZE_def)
  have rd: "mb_read (mb_GetActiveSize (sv_read sv)) (sv_read sv) = Some ?u"
    using mb_read_unread [OF ok(1), of "length ?u"] mb_active_size [OF ok(1)] by simp
  have new: "mb_ok (mb_new (length ?u))" "mb_GetRemainingSpace (mb_new (length ?u)) = length ?u"
    using len by (simp_all add: mb_remaining) (simp add: mb_new_def)
  obtain b' where b': "mb_Write ?u (mb_new (length ?u)) = Some b'" "mb_ok b'" "mb_unread b' = ?u"
    using mb_Write_Some [OF new(1), of ?u] new(2) by auto
  have b'': "mb_GetActiveSize b' = length ?u" "mb_read (length ?u) b' = Some ?u"
    using mb_active_size [OF b'(2)] mb_read_unread [OF b'(2), of "length ?u"] b'(3) by simp_all
  have pl: "length (accept_pack_data (se_pack_pad env)) = ACCEPT_LEN"
    by (simp add: accept_pack_data_def ACCEPT_LEN_def sizeof_PacketHeader_def)
  show ?thesis
    using rd assms(3) b'(1,3) b'' pl
    by (auto simp: sv_OnAccept_def sv_AcceptPack_def)
qed

lemma find_obj_mem: "find_obj i m = Some c \<Longrightarrow> (c, i) \<in> set m"
  by (induction i m rule: find_obj.induct) (auto split: if_splits)

lemma accepted_ok:
  assumes "senv_ok env" "server_ok b sv" "session_ok (sv_objs sv i)" "backlog (sv_objs sv i) = 0" "b + 127 < 2 ^ 31"
  shows "\<exists>sv'. sv_accepted env i sv = Some sv' \<and> server_ok (b + 127) sv'"
proof -
  have "queue_room (sv_objs sv i)" using assms(4) by (simp add: queue_room_def)
  from ks_OnConnected_ok [OF _ assms(3) this, of "se_net env"] obtain s ds where
    s: "ks_OnConnected (se_net env) (sv_objs sv i) = Some (s, ds)" "session_ok s" "ks_id s = ks_id (sv_objs sv i)"
      "ks_reader s = ks_reader (sv_objs sv i)" "backlog s \<le> 127" "dgrams_ok (ks_kcp (sv_objs sv i)) ds"
    using assms(1,4) by (auto simp: senv_ok_def)
  have bl: "backlog s \<le> b + 127" using s(5) by simp
  obtain sv1 where sv1: "on_session env i (ks_OnConnected (se_net env)) sv = Some sv1" "server_ok (b + 127) sv1"
    "sv_objs sv1 = (sv_objs sv)(i := s)"
    using on_session_server_ok [where f = "ks_OnConnected (se_net env)", OF assms(1-3) s(1-3) bl s(6,4)] by auto
  show ?thesis
  proof (cases "se_accept env")
    case (Some f)
    let ?s = "(sv_objs sv1 i)\<lparr>ks_app := f (ks_conv (sv_objs sv1 i)) (ks_app (sv_objs sv1 i))\<rparr>"
    let ?sv = "sv1\<lparr>sv_objs := (sv_objs sv1)(i := ?s)\<rparr>"
    have ok1: "sv_inv (b + 127) sv1" "sv_idle sv1" "\<not> sv_slock sv1" using sv1(2) by (simp_all add: server_ok_def)
    have "session_ok ?s" using s(2) sv1(3) by (simp add: session_ok_def)
    then have "sv_inv (b + 127) ?sv" by (rule sv_inv_obj [OF ok1(1)]) (simp_all add: backlog_def)
    moreover have "get_reader j ?sv = get_reader j sv1" for j by (simp add: get_reader_def)
    then have "sv_idle ?sv" using ok1(2) by (simp add: sv_idle_def)
    ultimately have "server_ok (b + 127) ?sv" using ok1(3) by (simp add: server_ok_def)
    then show ?thesis using Some sv1(1) by (simp add: sv_accepted_def Let_def)
  next
    case None
    show ?thesis
    proof (cases "find_obj i (sv_sessions sv1) = None \<and> ks_status (sv_objs sv1 i) \<noteq> status_code Disconnected")
      case True
      from close_after [OF assms(1) sv1(2) assms(5), of "ks_conv (sv_objs sv1 i)" False]
      show ?thesis using True None sv1(1) by (auto simp: sv_accepted_def ks_Close_def)
    next
      case False
      then have "sv_accepted env i sv = Some sv1" using None sv1(1) by (auto simp: sv_accepted_def ks_Close_def)
      then show ?thesis using sv1(2) by blast
    qed
  qed
qed

section \<open>Arrival\<close>

lemma server_ok_field:
  "server_ok b (sv\<lparr>sv_waiting := w\<rparr>) = server_ok b sv"
  "server_ok b (sv\<lparr>sv_read := r\<rparr>) \<longleftrightarrow> server_ok b sv \<and> mb_ok r \<and> length (storage r) = RECV_BUFFER_SIZE"
  if "mb_ok (sv_read sv)" "length (storage (sv_read sv)) = RECV_BUFFER_SIZE"
  using that by (auto simp: server_ok_def sv_inv_def sv_idle_def get_reader_def entry_ok_def)

lemma server_read:
  "server_ok b sv \<Longrightarrow> mb_ok (sv_read sv) \<and> length (storage (sv_read sv)) = RECV_BUFFER_SIZE"
  by (simp add: server_ok_def sv_inv_def)

text \<open>The read buffer with one datagram in it.\<close>

lemma arrive_buffer:
  assumes "mb_ok rd" "length (storage rd) = RECV_BUFFER_SIZE" "rpos rd = 0" "wpos rd = 0"
    "data \<noteq> []" "length data \<le> RECV_BUFFER_SIZE"
  shows "\<exists>st. poke data 0 (storage rd) = Some st \<and> (let p = mb_WriteCompleted (length data) (rd\<lparr>storage := st\<rparr>) in
    mb_ok p \<and> mb_unread p = data \<and> rpos p = 0 \<and> length (storage p) = RECV_BUFFER_SIZE)"
proof -
  have "poke data 0 (storage rd) = Some (data @ drop (length data) (storage rd))"
    using assms by (simp add: poke_def)
  then show ?thesis
    using assms by (auto simp: mb_ok_def mb_unread_def mb_WriteCompleted_def RECV_BUFFER_SIZE_def Let_def)
qed

lemma ReadHandler_arrive_ok:
  assumes "senv_ok env" "server_ok b sv" "b + 127 < 2 ^ 31" "sv_GetWaiting remote (sv_waiting sv) = None"
    "rpos (sv_read sv) = 0"
  shows "\<exists>sv'. sv_ReadHandler env remote sv = Some sv' \<and> server_ok (b + 127) sv'"
proof (cases "sv_connected sv")
  case True
  have lock: "\<not> sv_slock sv" using assms(2) by (simp add: server_ok_def)
  have rd: "mb_ok (sv_read sv)" "length (storage (sv_read sv)) = RECV_BUFFER_SIZE" using server_read [OF assms(2)] by simp_all
  show ?thesis
  proof (cases "find_session (has_addr remote) (sv_objs sv) (sv_sessions sv)")
    case (Some e)
    obtain c i where e: "e = (c, i)" by (cases e)
    have "(c, i) \<in> set (sv_sessions sv)" using find_session_Some Some e by fastforce
    moreover have "length (mb_unread (sv_read sv)) \<le> MAX_DGRAM"
      using mb_length_unread [OF rd(1)] mb_okD(2) [OF rd(1)] rd(2) by (simp add: RECV_BUFFER_SIZE_def MAX_DGRAM_def)
    ultimately show ?thesis
      using OnReceive_ok [OF assms(1,2) _ assms(3) rd(1) assms(5)] rd(2) True lock Some e
      by (simp add: sv_ReadHandler_def sv_GetSessionByRemote_def RECV_BUFFER_SIZE_def)
  next
    case None
    have r: "sv_ReadHandler env remote sv = do {
            (session, sv) \<leftarrow> sv_OnAccept env remote sv;
            case session of None \<Rightarrow> Some sv | Some i \<Rightarrow> sv_accepted env i sv }"
      using True lock None by (simp add: sv_ReadHandler_def sv_GetSessionByRemote_def)
    note acc = OnAccept_ok [OF assms(1,2,4)]
    show ?thesis
    proof (cases "mb_unread (sv_read sv) = accept_pack_data (se_pack_pad env)")
      case True
      obtain sv1 where sv1: "sv_CreateSession env remote sv = Some (sv_next sv, sv1)" "server_ok b sv1"
        "session_ok (sv_objs sv1 (sv_next sv))" "backlog (sv_objs sv1 (sv_next sv)) = 0"
        using CreateSession_ok [OF assms(1,2), of remote] by blast
      then show ?thesis using accepted_ok [OF assms(1) sv1(2-4) assms(3)] acc True by (simp add: r)
    next
      case False
      then obtain w where "sv_OnAccept env remote sv = Some (None, sv\<lparr>sv_waiting := w\<rparr>)"
      proof (cases "length (mb_unread (sv_read sv)) < ACCEPT_LEN")
        case True
        then show ?thesis using acc False that by auto
      next
        case l: False
        then show ?thesis using acc False that [of "sv_waiting sv"] by simp
      qed
      moreover have "server_ok (b + 127) (sv\<lparr>sv_waiting := w\<rparr>)"
        using server_ok_mono [OF assms(2), of "b + 127"] server_ok_field(1) [OF rd] by simp
      ultimately show ?thesis by (simp add: r)
    qed
  qed
next
  case False
  then show ?thesis using server_ok_mono [OF assms(2), of "b + 127"] by (simp add: sv_ReadHandler_def)
qed

section \<open>Updating\<close>

text \<open>
  What an update of one session does: it may flush its transport or count its ticks, and it
  changes nothing else.  In particular it delivers nothing, because it receives into the unread
  part of the read buffer, which is empty between two operations.
\<close>

definition only_flushed :: "'a server \<Rightarrow> 'a server \<Rightarrow> bool" where
  "only_flushed sv sv' \<longleftrightarrow> sv_sessions sv' = sv_sessions sv \<and> sv_waiting sv' = sv_waiting sv \<and>
     sv_slock sv' = sv_slock sv \<and> sv_next sv' = sv_next sv \<and> sv_read sv' = sv_read sv \<and>
     (\<forall>j. ks_app (sv_objs sv' j) = ks_app (sv_objs sv j) \<and> ks_id (sv_objs sv' j) = ks_id (sv_objs sv j) \<and>
        ks_alive (sv_objs sv' j) = ks_alive (sv_objs sv j) \<and> ks_status (sv_objs sv' j) = ks_status (sv_objs sv j) \<and>
        k_rcv_queue (ks_kcp (sv_objs sv' j)) = k_rcv_queue (ks_kcp (sv_objs sv j)) \<and>
        get_reader j sv' = get_reader j sv)"

lemma only_flushed_refl: "only_flushed sv sv"
  by (simp add: only_flushed_def)

lemma only_flushed_trans: "only_flushed a b \<Longrightarrow> only_flushed b c \<Longrightarrow> only_flushed a c"
  by (simp add: only_flushed_def)

lemma on_session_rel:
  assumes "senv_ok env" "sv_inv b sv" "config_ok (ks_kcp (sv_objs sv i))"
    and f: "f (sv_objs sv i) = Some (s, ds)" "session_ok s" "ks_id s = ks_id (sv_objs sv i)"
      "backlog s \<le> backlog (sv_objs sv i)" "dgrams_ok (ks_kcp (sv_objs sv i)) ds"
  shows "\<exists>q n. on_session env i f sv = Some (sv\<lparr>sv_objs := (sv_objs sv)(i := s), sv_queue := q, sv_notified := n\<rparr>) \<and>
    sv_inv b (sv\<lparr>sv_objs := (sv_objs sv)(i := s), sv_queue := q, sv_notified := n\<rparr>)"
proof -
  let ?sv = "sv\<lparr>sv_objs := (sv_objs sv)(i := s)\<rparr>"
  have inv: "sv_inv b ?sv" by (rule sv_inv_obj [OF assms(2) f(2-4)])
  have "wq_inv (sv_queue ?sv)" using sv_invD(1) [OF assms(2)] by simp
  from sv_send_all_ok [OF assms(1) this dgrams_small [OF assms(3) f(5)], of "sid_addr (ks_id s)"]
  obtain q n where q: "sv_send_all env ds (sid_addr (ks_id s)) ?sv = Some (?sv\<lparr>sv_queue := q, sv_notified := n\<rparr>)" "wq_inv q"
    by blast
  have "sv_inv b (?sv\<lparr>sv_queue := q, sv_notified := n\<rparr>)"
    using inv q(2) by (simp add: sv_inv_def entry_ok_def)
  then show ?thesis using q(1) f(1) by (auto simp: on_session_def)
qed

lemma flush_due_ok:
  assumes "env_ok net" "session_ok s"
  shows "\<exists>s' ds. ks_flush_due net t s = Some (s', ds) \<and> session_ok s' \<and> same_session s s' \<and> backlog s' \<le> backlog s \<and>
    dgrams_ok (ks_kcp s) ds"
proof (cases "ks_update_due t s")
  case True
  obtain s1 ds where u: "ks_update_kcp net t s = Some (s1, ds)" "session_ok s1" "same_session s s1" "backlog s1 \<le> backlog s"
    "dgrams_ok (ks_kcp s) ds"
    using update_kcp_ok [OF assms, of t] by blast
  let ?s = "s1\<lparr>ks_needtime := ucast (ikcp_check (ks_kcp s1) t), ks_needupdate := False\<rparr>"
  have "session_ok ?s" "same_session s ?s" "backlog ?s = backlog s1"
    using u(2,3) by (simp_all add: session_ok_def same_session_def backlog_def)
  moreover have "ks_flush_due net t s = Some (?s, ds)"
    using True u(1) assms(2) by (simp add: ks_flush_due_def session_ok_def)
  ultimately show ?thesis using u(4,5) by auto
qed (use assms in \<open>simp add: ks_flush_due_def dgrams_ok_def\<close>)

lemma recv_active_idle:
  assumes "session_ok s" "unread_bytes (ks_reader s) = []" "0 < ikcp_peeksize (ks_kcp s)"
  shows "\<exists>n. ks_recv_active s = Some (n, s) \<and> \<not> n > 0"
proof -
  let ?rb = "pr_read (ks_reader s)"
  have t: "transport_ok (ks_kcp s)" "\<not> ks_locked s" "mb_ok ?rb" using assms(1) by (simp_all add: session_ok_def reader_ok_def)
  have act: "mb_GetActiveSize ?rb = 0" using assms(2) mb_active_size [OF t(3)] by (simp add: unread_bytes_def)
  have sg: "segs_ok (ks_kcp s)" using transportD(1) [OF t(1)] by (simp add: kcp_inv_def recv_inv_def)
  have "ikcp_recv (ks_kcp s) 0 = Some (-3, [], ks_kcp s) \<or> ikcp_recv (ks_kcp s) 0 = Some (-1, [], ks_kcp s)"
    using assms(3) recv_cases [OF sg, of 0] by auto
  moreover have "poke [] (rpos ?rb) (storage ?rb) = Some (storage ?rb)"
    using mb_okD [OF t(3)] by (simp add: poke_def)
  ultimately show ?thesis using t(2) act by (auto simp: ks_recv_active_def Let_def)
qed

lemma ks_Update_ok:
  assumes "senv_ok env" "sv_inv b sv" "sv_idle sv" "e \<in> set (sv_sessions sv) \<union> set (sv_sleep sv)"
  shows "\<exists>sv'. ks_Update env (snd e) diff sv = Some sv' \<and> sv_inv b sv' \<and> sv_idle sv' \<and> only_flushed sv sv' \<and>
    sv_sleep sv' = sv_sleep sv \<and>
    ks_tick (sv_objs sv' (snd e)) = (if ks_alive (sv_objs sv (snd e)) then ks_tick (sv_objs sv (snd e))
      else ks_tick (sv_objs sv (snd e)) + diff) \<and>
    (\<forall>j. j \<noteq> snd e \<longrightarrow> sv_objs sv' j = sv_objs sv j)"
proof -
  let ?i = "snd e"
  let ?s = "sv_objs sv ?i"
  have ok: "session_ok ?s" using assms(4) sv_invD(4,6) [OF assms(2)] unfolding entry_ok_def by blast
  have un: "unread_bytes (ks_reader ?s) = []" using assms(3,4) by (auto simp: sv_idle_def get_reader_def)
  show ?thesis
  proof (cases "ks_alive ?s")
    case False
    let ?n = "?s\<lparr>ks_tick := ks_tick ?s + diff\<rparr>"
    let ?sv = "sv\<lparr>sv_objs := (sv_objs sv)(?i := ?n)\<rparr>"
    have "session_ok ?n" using ok by (simp add: session_ok_field)
    then have "sv_inv b ?sv" by (intro sv_inv_obj [OF assms(2)]) (simp_all add: backlog_def)
    moreover have fl: "only_flushed sv ?sv" by (simp add: only_flushed_def get_reader_def)
    moreover have "sv_idle ?sv" using assms(3) fl by (simp add: sv_idle_def only_flushed_def)
    ultimately show ?thesis using False by (intro exI [of _ ?sv]) (simp add: ks_Update_def Let_def)
  next
    case True
    have net: "env_ok (se_net env)" using assms(1) by (simp add: senv_ok_def)
    let ?f = "ks_flush_due (se_net env) (k_current (ks_kcp ?s) + diff)"
    obtain s ds where s: "?f ?s = Some (s, ds)" "session_ok s" "same_session ?s s" "backlog s \<le> backlog ?s"
      "dgrams_ok (ks_kcp ?s) ds"
      using flush_due_ok [OF net ok] by blast
    have id: "ks_id s = ks_id ?s" "ks_reader s = ks_reader ?s" using s(3) by (simp_all add: same_session_def)
    from on_session_rel [where f = ?f, OF assms(1,2) session_config [OF ok] s(1,2) id(1) s(4,5)] obtain q n where
      q: "on_session env ?i ?f sv = Some (sv\<lparr>sv_objs := (sv_objs sv)(?i := s), sv_queue := q, sv_notified := n\<rparr>)"
        "sv_inv b (sv\<lparr>sv_objs := (sv_objs sv)(?i := s), sv_queue := q, sv_notified := n\<rparr>)" by blast
    let ?sv = "sv\<lparr>sv_objs := (sv_objs sv)(?i := s), sv_queue := q, sv_notified := n\<rparr>"
    have fl: "only_flushed sv ?sv"
      using s(3) by (simp add: only_flushed_def get_reader_def same_session_def same_rest_def)
    have idle: "sv_idle ?sv" using assms(3) fl by (simp add: sv_idle_def only_flushed_def)
    have "ks_Update env ?i diff sv = Some ?sv"
    proof (cases "0 < ikcp_peeksize (ks_kcp s)")
      case True
      then obtain n where "ks_recv_active s = Some (n, s)" "\<not> n > 0"
        using recv_active_idle [OF s(2)] un id(2) by auto
      then show ?thesis using \<open>ks_alive ?s\<close> q(1) True by (simp add: ks_Update_def Let_def)
    qed (use \<open>ks_alive ?s\<close> q(1) in \<open>simp add: ks_Update_def Let_def\<close>)
    moreover have "ks_tick s = ks_tick ?s" using s(3) by (simp add: same_session_def)
    ultimately show ?thesis using q(2) fl idle True by (intro exI [of _ ?sv]) simp
  qed
qed

lemma update_alive_ok:
  assumes "senv_ok env"
  shows "sv_inv b sv \<Longrightarrow> sv_idle sv \<Longrightarrow> set m \<subseteq> set (sv_sessions sv) \<Longrightarrow>
    \<exists>sv'. update_alive env diff m sv = Some sv' \<and> sv_inv b sv' \<and> sv_idle sv' \<and> only_flushed sv sv' \<and> sv_sleep sv' = sv_sleep sv"
proof (induction m arbitrary: sv)
  case (Cons e m)
  obtain c i where e: "e = (c, i)" by (cases e)
  obtain sv1 where sv1: "ks_Update env i diff sv = Some sv1" "sv_inv b sv1" "sv_idle sv1" "only_flushed sv sv1"
    "sv_sleep sv1 = sv_sleep sv"
    using ks_Update_ok [OF assms Cons.prems(1,2), of e diff] Cons.prems(3) e by auto
  have "set m \<subseteq> set (sv_sessions sv1)" using Cons.prems(3) sv1(4) by (simp add: only_flushed_def)
  from Cons.IH [OF sv1(2,3) this] show ?case using e sv1(1,4,5) only_flushed_trans by fastforce
qed (simp add: only_flushed_refl)

lemma next_entry_mem: "next_entry l m = Some e \<Longrightarrow> e \<in> set m"
  by (induction l m rule: next_entry.induct) (auto split: if_splits)

lemma sleep_erase_inv:
  "sv_inv b sv \<Longrightarrow> sv_inv b (sv\<lparr>sv_sleep := erase_key c (sv_sleep sv)\<rparr>)"
  "sv_idle sv \<Longrightarrow> sv_idle (sv\<lparr>sv_sleep := erase_key c (sv_sleep sv)\<rparr>)"
  "only_flushed sv (sv\<lparr>sv_sleep := erase_key c (sv_sleep sv)\<rparr>)"
  using erase_key_subset [of c "sv_sleep sv"] map_sorted_erase [of "(<)" "sv_sleep sv" c]
  by (auto simp: sv_inv_def sv_idle_def only_flushed_def entry_ok_def get_reader_def)

lemma update_sleep_ok:
  assumes "senv_ok env"
  shows "sv_inv b sv \<Longrightarrow> sv_idle sv \<Longrightarrow> \<exists>sv'. update_sleep env diff prev sv = Some sv' \<and> sv_inv b sv' \<and>
    sv_idle sv' \<and> only_flushed sv sv' \<and> set (sv_sleep sv') \<subseteq> set (sv_sleep sv)"
  using assms
proof (induction env diff prev sv rule: update_sleep.induct)
  case (1 env diff prev sv)
  show ?case
  proof (cases "next_entry prev (sv_sleep sv)")
    case None
    then show ?thesis using "1.prems" only_flushed_refl by (subst update_sleep.simps) simp
  next
    case (Some e)
    obtain c i where e: "e = (c, i)" by (cases e)
    have "e \<in> set (sv_sessions sv) \<union> set (sv_sleep sv)" using next_entry_mem [OF Some] by simp
    from ks_Update_ok [OF "1.prems"(3,1,2) this, of diff] obtain sv1 where
      sv1: "ks_Update env i diff sv = Some sv1" "sv_inv b sv1" "sv_idle sv1" "only_flushed sv sv1" "sv_sleep sv1 = sv_sleep sv"
      using e by auto
    let ?sv = "if ks_IsDead (sv_objs sv1 i) then sv1\<lparr>sv_sleep := erase_key c (sv_sleep sv1)\<rparr> else sv1"
    have n: "sv_inv b ?sv" "sv_idle ?sv" "only_flushed sv1 ?sv" "set (sv_sleep ?sv) \<subseteq> set (sv_sleep sv)"
      using sleep_erase_inv(1) [of b sv1 c] sleep_erase_inv(2) [of sv1 c] sleep_erase_inv(3) [of sv1 c]
        sv1(2,3,5) only_flushed_refl erase_key_subset [of c "sv_sleep sv"] by auto
    have "update_sleep env diff prev sv = update_sleep env diff (Some c) ?sv"
      using Some e sv1(1) by (subst update_sleep.simps) simp
    moreover note "1.IH" [OF Some e [symmetric] sv1(1) n(1,2) "1.prems"(3)]
    moreover have "only_flushed sv ?sv" using sv1(4) n(3) only_flushed_trans by blast
    ultimately show ?thesis using n(4) only_flushed_trans by fastforce
  qed
qed

end
