(* ===== verification/Server_Properties.thy ===== *)
theory Server_Properties
  imports Server_Inv
begin

text \<open>
  The properties of the server and of its sessions, over the operations of \<open>Socket_Server\<close>,
  with their witnesses on a started server whose application records the packets it is given.
\<close>

section \<open>Concrete servers\<close>

type_synonym packet_log = "(u16 \<times> bytes) list"

definition demo_net :: net_env where
  "demo_net = \<lparr>ne_malloc = \<lambda>_. True, ne_tail = replicate 32 0, ne_pad = (0, 0)\<rparr>"

definition demo_junk :: ks_junk where
  "demo_junk = \<lparr>kj_status = 0, kj_tick = 0, kj_lastsend = 0, kj_needtime = 0\<rparr>"

definition demo_handler :: "packet_log data_handler" where
  "demo_handler = Some (\<lambda>cmd d log. (True, log @ [(cmd, d)]))"

definition demo_env :: "packet_log server_env" where
  "demo_env = \<lparr>se_net = demo_net, se_srt = wb_partition, se_junk = demo_junk, se_app0 = [], se_handler = demo_handler,
     se_accept = Some (\<lambda>_ log. log), se_pack_pad = (0, 0)\<rparr>"

definition demo_addr :: sock_addr where
  "demo_addr = \<lparr>sa_family = 2, sa_port = 9000, sa_addr = 1\<rparr>"

definition demo_session :: "packet_log kcp_session" where
  "demo_session = the (ks_new demo_net demo_junk 512 0x10000 demo_addr [])"

definition demo_server :: "packet_log server" where
  "demo_server = sv_StartUp (sv_new (\<lambda>_. demo_session))"

definition open_server :: "packet_log server" where
  "open_server = demo_server\<lparr>sv_sessions := [(0x10000, 0)], sv_next := 1, sv_conv := 1\<rparr>"

lemma demo_env_ok: "senv_ok demo_env"
  by (simp add: senv_ok_def demo_env_def env_ok_def demo_net_def wb_part.std_sort_axioms)

lemma demo_session_new:
  "\<exists>s. ks_new demo_net demo_junk 512 0x10000 demo_addr [] = Some s \<and> demo_session = s \<and> session_ok s \<and> backlog s = 0 \<and>
     ks_id s = \<lparr>sid_conv = 0x10000, sid_addr = demo_addr\<rparr> \<and> ks_reader s = reader_new"
proof -
  have net: "env_ok demo_net" by (simp add: env_ok_def demo_net_def)
  obtain s where s: "ks_new demo_net demo_junk 512 0x10000 demo_addr ([] :: packet_log) = Some s" "session_ok s" "backlog s = 0"
    "ks_id s = \<lparr>sid_conv = 0x10000, sid_addr = demo_addr\<rparr>"
    using session_new_ok [OF net, of 512 demo_junk "0x10000" demo_addr "[] :: packet_log"] by auto
  moreover have "ks_reader s = reader_new" using s(1) by (auto simp: ks_new_def Let_def bind_eq_Some_conv)
  ultimately show ?thesis by (auto simp: demo_session_def)
qed

lemma demo_server_ok: "server_ok 0 demo_server"
  using sv_inv_new [of 0 "\<lambda>_. demo_session"]
  by (simp add: server_ok_def demo_server_def sv_StartUp_def sv_inv_def sv_idle_def)
    (simp add: sv_new_def)

lemma open_server_ok: "server_ok 0 open_server"
proof -
  obtain s where s: "demo_session = s" "session_ok s" "backlog s = 0" "ks_id s = \<lparr>sid_conv = 0x10000, sid_addr = demo_addr\<rparr>"
    "ks_reader s = reader_new" using demo_session_new by blast
  have "unread_bytes reader_new = []" by (simp add: reader_new_def unread_bytes_def)
  then show ?thesis
    using demo_server_ok s
    by (simp add: server_ok_def open_server_def sv_inv_def sv_idle_def map_sorted_def entry_ok_def ks_conv_def get_reader_def)
      (simp add: demo_server_def sv_StartUp_def sv_new_def)
qed

lemma demo_server_sel:
  "sv_connected demo_server" "sv_sessions demo_server = []" "sv_waiting demo_server = []" "sv_next demo_server = 0"
  "rpos (sv_read demo_server) = 0" "wpos (sv_read demo_server) = 0" "sv_conv demo_server = 0" "sv_id demo_server = 0"
  "sv_sleep demo_server = []" "sv_objs demo_server = (\<lambda>_. demo_session)" "\<not> sv_slock demo_server"
  by (simp_all add: demo_server_def sv_StartUp_def sv_new_def mb_Resize_def mb_new_default_def)

lemma open_server_sel:
  "sv_connected open_server" "sv_sessions open_server = [(0x10000, 0)]" "sv_waiting open_server = []" "sv_next open_server = 1"
  "rpos (sv_read open_server) = 0" "wpos (sv_read open_server) = 0" "sv_id open_server = 0"
  "sv_objs open_server = (\<lambda>_. demo_session)" "\<not> sv_slock open_server"
  by (simp_all add: open_server_def demo_server_sel)

section \<open>Safety\<close>

lemma arrive_unfold:
  assumes "data \<noteq> []" "poke data 0 (storage (sv_read sv)) = Some st"
  shows "sv_arrive env remote data sv = map_option (\<lambda>sv. sv\<lparr>sv_read := mb_Reset (sv_read sv)\<rparr>)
    (sv_ReadHandler env remote (sv\<lparr>sv_read := mb_WriteCompleted (length data) ((sv_read sv)\<lparr>storage := st\<rparr>)\<rparr>))"
  using assms by (simp add: sv_arrive_def sv_ReadHandlerInternal_def map_option_case split: option.splits)



lemma slock_field: "sv_inv b (sv\<lparr>sv_slock := x\<rparr>) = sv_inv b sv" "sv_idle (sv\<lparr>sv_slock := x\<rparr>) = sv_idle sv"
  by (simp_all add: sv_inv_def sv_idle_def get_reader_def entry_ok_def)

text \<open>
  C6. An update of the server is total and keeps its invariant; sessions do not move between
  the maps except that dead sleepers are dropped.  It delivers nothing to the application: the
  receive branch of \<open>KcpSession::Update\<close> asks for the unread part of an empty read buffer, so a
  message that is ready stays in the transport until the next datagram arrives.
\<close>

theorem server_update_safe:
  assumes "senv_ok env" and "server_ok b sv"
  shows "\<exists>sv'. sv_Update env diff sv = Some sv' \<and> server_ok b sv' \<and> sv_sessions sv' = sv_sessions sv \<and>
    set (sv_sleep sv') \<subseteq> set (sv_sleep sv) \<and>
    (\<forall>i. ks_app (sv_objs sv' i) = ks_app (sv_objs sv i) \<and>
         k_rcv_queue (ks_kcp (sv_objs sv' i)) = k_rcv_queue (ks_kcp (sv_objs sv i)))"
proof -
  have h: "sv_inv b sv" "sv_idle sv" "\<not> sv_slock sv" using assms(2) by (simp_all add: server_ok_def)
  note l = slock_field
  obtain sv1 where sv1: "update_alive env diff (sv_sessions sv) (sv\<lparr>sv_slock := True\<rparr>) = Some sv1" "sv_inv b sv1" "sv_idle sv1"
    "only_flushed (sv\<lparr>sv_slock := True\<rparr>) sv1" "sv_sleep sv1 = sv_sleep sv"
    using update_alive_ok [OF assms(1) iffD2 [OF l(1) h(1)] iffD2 [OF l(2) h(2)], of "sv_sessions sv" True diff] by auto
  obtain sv2 where sv2: "update_sleep env diff None (sv1\<lparr>sv_slock := False\<rparr>) = Some sv2" "sv_inv b sv2" "sv_idle sv2"
    "only_flushed (sv1\<lparr>sv_slock := False\<rparr>) sv2" "set (sv_sleep sv2) \<subseteq> set (sv_sleep sv1)"
    using update_sleep_ok [OF assms(1) iffD2 [OF l(1) sv1(2)] iffD2 [OF l(2) sv1(3)], of diff None False] by auto
  have "sv_Update env diff sv = Some sv2" using h(3) sv1(1) sv2(1) by (simp add: sv_Update_def)
  then show ?thesis using sv1(4,5) sv2(2-5) by (simp add: server_ok_def only_flushed_def)
qed

theorem server_update_safe_witness:
  "\<exists>sv'. sv_Update demo_env 20 open_server = Some sv' \<and> server_ok 0 sv' \<and> sv_sessions sv' = [(0x10000, 0)]"
  using server_update_safe [OF demo_env_ok open_server_ok, of 20] by (simp add: open_server_sel) blast

section \<open>Accepting\<close>

text \<open>
  C10. A handshake that arrives in two datagrams reaches the branch of \<open>OnAccept\<close> that erases
  the waiting entry and then reads the buffer in it: with a fragment waiting, every further
  datagram from that address, before a session exists, is a use of freed memory.
\<close>

theorem server_fragment_use_after_free:
  assumes "sv_connected sv" and "find_session (has_addr remote) (sv_objs sv) (sv_sessions sv) = None"
    and "sv_GetWaiting remote (sv_waiting sv) = Some frag" and "map_sorted sock_addr_less (sv_waiting sv)"
    and "data \<noteq> []"
  shows "sv_arrive env remote data sv = None"
proof -
  have gone: "sv_GetWaiting remote (erase_waiting remote w) = None" if "map_sorted sock_addr_less w" for w
    using that
  proof (induction remote w rule: erase_waiting.induct)
    case (2 remote a b m)
    have n: "sv_GetWaiting remote m = None" if "sock_addr_eq a remote" "\<forall>x \<in> set (map fst m). sock_addr_less a x" for m :: "(sock_addr \<times> message_buffer) list"
      using that by (induction m) (auto simp: sock_addr_eq_def sock_addr_less_def)
    show ?case using 2 n by (auto simp: map_sorted_def)
  qed simp
  have keys: "map fst (set_waiting remote x w) = map fst w" for x w
    by (induction remote x w rule: set_waiting.induct) auto
  have "sv_OnAccept env remote sv' = None" if w: "sv_waiting sv' = sv_waiting sv" for sv'
  proof -
    have "map_sorted sock_addr_less (set_waiting remote x (sv_waiting sv))" for x
      using assms(4) by (simp add: map_sorted_def keys)
    then have "sv_GetWaiting remote (erase_waiting remote (set_waiting remote x (sv_waiting sv))) = None" for x
      by (rule gone)
    then show ?thesis using assms(3) w by (simp add: sv_OnAccept_def bind_eq_None_conv)
  qed
  then show ?thesis
    using assms(1,2,5)
    by (cases "sv_slock sv") (simp_all add: sv_arrive_def sv_ReadHandlerInternal_def sv_ReadHandler_def
        sv_GetSessionByRemote_def bind_eq_None_conv)
qed

theorem server_fragment_use_after_free_witness:
  "sv_arrive demo_env demo_addr [97, 99, 112, 116] (demo_server\<lparr>sv_waiting := [(demo_addr, mb_new 8)]\<rparr>) = None"
  by (rule server_fragment_use_after_free)
    (simp_all add: demo_server_sel demo_addr_def sock_addr_eq_def map_sorted_def)

lemma new_conv_parts:
  "new_conv sv AND 0xffff = ucast (sv_id sv)" "drop_bit 16 (new_conv sv) = ucast (sv_conv sv + 1)"
proof -
  let ?h = "push_bit 16 (scast (sv_conv sv + 1)) :: u32" and ?l = "ucast (sv_id sv) :: u32"
  have "?h AND ?l = 0"
    by (rule bit_word_eqI) (auto simp: bit_simps dest: bit_imp_le_length)
  then have s: "new_conv sv = ?h OR ?l" unfolding new_conv_def by (simp add: disjunctive_add_eq_or)
  have m: "(0xffff :: u32) = mask 16" by (simp add: mask_eq_exp_minus_1)
  show "new_conv sv AND 0xffff = ucast (sv_id sv)"
    unfolding s m by (rule bit_word_eqI) (auto simp: bit_simps dest: bit_imp_le_length)
  show "drop_bit 16 (new_conv sv) = ucast (sv_conv sv + 1)"
  proof (rule bit_word_eqI)
    fix n
    show "bit (drop_bit 16 (new_conv sv)) n = bit (ucast (sv_conv sv + 1) :: u32) n"
      unfolding s using bit_imp_le_length [of "sv_conv sv + 1" n] bit_imp_le_length [of "sv_id sv" "16 + n"]
      by (cases "n < 16") (auto simp: bit_simps)
  qed
qed

lemma map_of_insert_new:
  "k \<notin> fst ` set m \<Longrightarrow> map_of (map_insert (<) (k :: u32) v m) k = Some v"
proof (induction "(<) :: u32 \<Rightarrow> u32 \<Rightarrow> bool" k v m rule: map_insert.induct)
  case (2 k v k' v' m)
  then show ?case by (cases "k' < k"; cases "k < k'") auto
qed simp

lemma send_all_frame:
  "sv_send_all env ds addr sv = Some sv' \<Longrightarrow> sv_sessions sv' = sv_sessions sv \<and> sv_objs sv' = sv_objs sv \<and>
     sv_conv sv' = sv_conv sv \<and> sv_read sv' = sv_read sv"
proof (induction ds arbitrary: sv)
  case (Cons d ds)
  obtain rc sv3 where "sv_Send env d addr sv = Some (rc, sv3)" "sv_send_all env ds addr sv3 = Some sv'"
    using Cons.prems by (auto simp: bind_eq_Some_conv)
  moreover from this have "sv_sessions sv3 = sv_sessions sv \<and> sv_objs sv3 = sv_objs sv \<and> sv_conv sv3 = sv_conv sv \<and>
     sv_read sv3 = sv_read sv"
    by (auto simp: sv_Send_def split: if_splits option.splits prod.splits bool.splits)
  ultimately show ?case using Cons.IH by simp
qed simp

lemma find_obj_None: "find_obj i m = None \<Longrightarrow> (c, i) \<notin> set m"
  by (induction i m rule: find_obj.induct) (auto split: if_splits)

lemma accepted_connects:
  assumes "senv_ok env" "server_ok b sv" "session_ok (sv_objs sv i)" "backlog (sv_objs sv i) = 0"
    "ks_id (sv_objs sv i) = sid" "b + 127 < 2 ^ 31"
    and "map_of (sv_sessions sv) c = Some i"
  shows "\<exists>sv'. sv_accepted env i sv = Some sv' \<and> sv_sessions sv' = sv_sessions sv \<and> sv_conv sv' = sv_conv sv \<and>
    ks_id (sv_objs sv' i) = sid \<and> ks_status (sv_objs sv' i) = status_code Connected \<and> ks_IsAlive (sv_objs sv' i)"
proof -
  have "queue_room (sv_objs sv i)" using assms(4) by (simp add: queue_room_def)
  from ks_OnConnected_ok [OF _ assms(3) this, of "se_net env"] obtain s ds where
    s: "ks_OnConnected (se_net env) (sv_objs sv i) = Some (s, ds)" "ks_id s = sid" "ks_alive s" "ks_status s = status_code Connected"
    using assms(1,5) by (auto simp: senv_ok_def)
  obtain sv0 where a: "sv_accepted env i sv = Some sv0" using accepted_ok [OF assms(1-4,6)] by blast
  then obtain sv1 where sv1: "on_session env i (ks_OnConnected (se_net env)) sv = Some sv1"
    by (auto simp: sv_accepted_def bind_eq_Some_conv)
  then have f: "sv_sessions sv1 = sv_sessions sv" "sv_objs sv1 = (sv_objs sv)(i := s)" "sv_conv sv1 = sv_conv sv"
    using s(1) by (auto simp: on_session_def bind_eq_Some_conv dest: send_all_frame)
  have "find_obj i (sv_sessions sv1) \<noteq> None" using find_obj_None map_of_SomeD [OF assms(7)] f(1) by metis
  then show ?thesis
    using sv1 f s by (auto simp: sv_accepted_def ks_IsAlive_def ks_conv_def Let_def split: option.splits)
qed

text \<open>
  C8. The accept pack from a new address opens a session: it is filed under a new conversation
  number, with the server id in the low half and the incremented counter in the high half, and
  is connected and alive.  The number is new only while the counter has not come round: the
  hypothesis that it is unused is needed.
\<close>

theorem server_accepts:
  assumes "senv_ok env" and "server_ok b sv" and "b + 127 < 2 ^ 31" and "sv_connected sv"
    and "rpos (sv_read sv) = 0" "wpos (sv_read sv) = 0"
    and "find_session (has_addr remote) (sv_objs sv) (sv_sessions sv) = None"
    and "sv_GetWaiting remote (sv_waiting sv) = None" and "new_conv sv \<notin> fst ` set (sv_sessions sv)"
  shows "\<exists>sv' i. sv_arrive env remote (accept_pack_data (se_pack_pad env)) sv = Some sv' \<and>
    map_of (sv_sessions sv') (new_conv sv) = Some i \<and>
    ks_id (sv_objs sv' i) = \<lparr>sid_conv = new_conv sv, sid_addr = remote\<rparr> \<and>
    ks_status (sv_objs sv' i) = status_code Connected \<and> ks_IsAlive (sv_objs sv' i) \<and>
    new_conv sv AND 0xffff = ucast (sv_id sv) \<and> drop_bit 16 (new_conv sv) = ucast (sv_conv sv + 1) \<and>
    sv_conv sv' = sv_conv sv + 1"
proof -
  have h: "sv_inv b sv" "\<not> sv_slock sv" using assms(2) by (simp_all add: server_ok_def)
  note rd = server_read [OF assms(2)]
  let ?data = "accept_pack_data (se_pack_pad env)"
  have len: "?data \<noteq> []" "length ?data \<le> RECV_BUFFER_SIZE"
    by (simp_all add: accept_pack_data_def sizeof_PacketHeader_def RECV_BUFFER_SIZE_def)
  obtain st where st: "poke ?data 0 (storage (sv_read sv)) = Some st"
    "let p = mb_WriteCompleted (length ?data) ((sv_read sv)\<lparr>storage := st\<rparr>) in
     mb_ok p \<and> mb_unread p = ?data \<and> rpos p = 0 \<and> length (storage p) = RECV_BUFFER_SIZE"
    using arrive_buffer [OF _ _ assms(5,6) len] rd by blast
  obtain p where p: "p = mb_WriteCompleted (length ?data) ((sv_read sv)\<lparr>storage := st\<rparr>)" "mb_ok p" "mb_unread p = ?data"
    "length (storage p) = RECV_BUFFER_SIZE" using st(2) by (simp add: Let_def)
  obtain sv0 where sv0: "sv0 = sv\<lparr>sv_read := p\<rparr>" by simp
  have ok0: "server_ok b sv0" using server_ok_field(2) [of sv b p] rd p(2,4) assms(2) by (simp add: sv0)
  have sel: "new_conv sv0 = new_conv sv" "sv_next sv0 = sv_next sv" "sv_conv sv0 = sv_conv sv" by (simp_all add: sv0 new_conv_def)
  obtain sv1 where sv1: "sv_CreateSession env remote sv0 = Some (sv_next sv0, sv1)" "server_ok b sv1"
    "session_ok (sv_objs sv1 (sv_next sv0))" "backlog (sv_objs sv1 (sv_next sv0)) = 0"
    "ks_id (sv_objs sv1 (sv_next sv0)) = \<lparr>sid_conv = new_conv sv0, sid_addr = remote\<rparr>"
    "sv_sessions sv1 = map_insert (<) (new_conv sv0) (sv_next sv0) (sv_sessions sv0)" "sv_conv sv1 = sv_conv sv0 + 1"
    using CreateSession_ok [OF assms(1) ok0, of remote] by blast
  let ?i = "sv_next sv"
  have "sv_OnAccept env remote sv0 = Some (Some ?i, sv1)"
    using OnAccept_ok [OF assms(1) ok0, of remote] assms(8) p(3) sv1(1) sel(2) by (simp add: sv0)
  then have rh: "sv_ReadHandler env remote sv0 = sv_accepted env ?i sv1"
    using assms(4,7) h(2) by (simp add: sv_ReadHandler_def sv_GetSessionByRemote_def sv0)
  have map1: "map_of (sv_sessions sv1) (new_conv sv) = Some ?i"
    using map_of_insert_new [of "new_conv sv" "sv_sessions sv" ?i] assms(9) sv1(6) sel(1,2) by (simp add: sv0)
  have s1: "session_ok (sv_objs sv1 ?i)" "backlog (sv_objs sv1 ?i) = 0"
    "ks_id (sv_objs sv1 ?i) = \<lparr>sid_conv = new_conv sv, sid_addr = remote\<rparr>" using sv1(3-5) sel by simp_all
  obtain sv2 where sv2: "sv_accepted env ?i sv1 = Some sv2" "sv_sessions sv2 = sv_sessions sv1" "sv_conv sv2 = sv_conv sv1"
    "ks_id (sv_objs sv2 ?i) = \<lparr>sid_conv = new_conv sv, sid_addr = remote\<rparr>"
    "ks_status (sv_objs sv2 ?i) = status_code Connected" "ks_IsAlive (sv_objs sv2 ?i)"
    using accepted_connects [OF assms(1) sv1(2) s1 assms(3) map1] by blast
  have "sv_arrive env remote ?data sv = Some (sv2\<lparr>sv_read := mb_Reset (sv_read sv2)\<rparr>)"
    using arrive_unfold [OF len(1) st(1), of env remote] rh sv2(1) by (simp add: p(1) sv0)
  then show ?thesis
    using sv2 map1 sv1(7) sel(3) new_conv_parts [of sv] by (intro exI [of _ "sv2\<lparr>sv_read := mb_Reset (sv_read sv2)\<rparr>"] exI [of _ ?i]) simp
qed

theorem server_accepts_witness:
  "\<exists>sv' i. sv_arrive demo_env demo_addr (accept_pack_data (0, 0)) demo_server = Some sv' \<and>
     map_of (sv_sessions sv') 0x10000 = Some i \<and> ks_status (sv_objs sv' i) = status_code Connected"
proof -
  have c: "new_conv demo_server = 0x10000" by (simp add: new_conv_def demo_server_sel)
  show ?thesis
    using server_accepts [OF demo_env_ok demo_server_ok, of demo_addr]
    by (simp add: demo_server_sel c) (auto simp: demo_env_def)
qed

section \<open>Closing\<close>

text \<open>
  C9. A datagram whose conversation number names another server, or another conversation,
  closes the session of its address: the session leaves the map of open sessions, is
  disconnected and no longer alive.  Anyone who can send from the address can so close it.
\<close>

theorem server_wrong_conv_closes:
  assumes "senv_ok env" and "server_ok b sv" and "b + 127 < 2 ^ 31" and "sv_connected sv"
    and "rpos (sv_read sv) = 0" "wpos (sv_read sv) = 0"
    and "find_session (has_addr remote) (sv_objs sv) (sv_sessions sv) = Some (c, i)"
    and "4 \<le> length data" "length data \<le> RECV_BUFFER_SIZE"
    and "ikcp_getconv (take 4 data) = Some conv" and "conv AND 0xffff \<noteq> ucast (sv_id sv) \<or> conv \<noteq> c"
  shows "\<exists>sv'. sv_arrive env remote data sv = Some sv' \<and> c \<notin> fst ` set (sv_sessions sv') \<and>
    ks_IsClosed (sv_objs sv' i) \<and> \<not> ks_IsAlive (sv_objs sv' i)"
proof -
  have h: "sv_inv b sv" "\<not> sv_slock sv" using assms(2) by (simp_all add: server_ok_def)
  note rd = server_read [OF assms(2)]
  have mem: "(c, i) \<in> set (sv_sessions sv)" using find_session_Some [OF assms(7)] by simp
  have ne: "data \<noteq> []" using assms(8) by auto
  obtain st where st: "poke data 0 (storage (sv_read sv)) = Some st"
    "let p = mb_WriteCompleted (length data) ((sv_read sv)\<lparr>storage := st\<rparr>) in
     mb_ok p \<and> mb_unread p = data \<and> rpos p = 0 \<and> length (storage p) = RECV_BUFFER_SIZE"
    using arrive_buffer [OF _ _ assms(5,6) ne assms(9)] rd by blast
  obtain p where p: "p = mb_WriteCompleted (length data) ((sv_read sv)\<lparr>storage := st\<rparr>)" "mb_ok p" "mb_unread p = data"
    "length (storage p) = RECV_BUFFER_SIZE" using st(2) by (simp add: Let_def)
  obtain sv0 where sv0: "sv0 = sv\<lparr>sv_read := p\<rparr>" by simp
  have ok0: "server_ok b sv0" using server_ok_field(2) [of sv b p] rd p(2,4) assms(2) by (simp add: sv0)
  have e: "session_ok (sv_objs sv0 i)" "backlog (sv_objs sv0 i) \<le> b" "ks_conv (sv_objs sv0 i) = c"
    using sv_invD(4,5) [OF h(1) mem] by (simp_all add: entry_ok_def sv0)
  have mem0: "(c, i) \<in> set (sv_sessions sv0)" using mem by (simp add: sv0)
  have h4: "mb_read 4 p = Some (take 4 data)" using mb_read_unread [OF p(2), of 4] p(3) assms(8) by simp
  have b31: "b < 2 ^ 31" using assms(3) by simp
  have close: "\<exists>sv2. map_option snd (sv_CloseSession env c False sv1) = Some sv2 \<and> c \<notin> fst ` set (sv_sessions sv2) \<and>
      ks_IsClosed (sv_objs sv2 i) \<and> \<not> ks_IsAlive (sv_objs sv2 i)"
    if ok: "server_ok b' sv1" "b' < 2 ^ 31" and m: "(c, i) \<in> set (sv_sessions sv1)" for sv1 b'
  proof -
    have d: "distinct (map fst (sv_sessions sv1))" using ok(1) sv_invD(2) map_sorted_distinct by (auto simp: server_ok_def)
    have "c \<notin> fst ` set (erase_key c (sv_sessions sv1))" by (auto simp: set_erase_key [OF d])
    then show ?thesis using CloseSession_server_ok [OF assms(1) ok, of c False] m by (auto simp: ks_IsAlive_def)
  qed
  have "\<exists>sv2. ks_OnReceive env i p sv0 = Some sv2 \<and> c \<notin> fst ` set (sv_sessions sv2) \<and>
      ks_IsClosed (sv_objs sv2 i) \<and> \<not> ks_IsAlive (sv_objs sv2 i)"
  proof (cases "conv AND 0xffff \<noteq> ucast (sv_id sv)")
    case True
    obtain sv1 where sv1: "on_session env i
        (ks_Send (se_net env) (header_packet (se_net env) 0 S2C_CRITICAL_ERROR) True) sv0 = Some sv1"
      "server_ok (b + 127) sv1" "same_session (sv_objs sv0 i) (sv_objs sv1 i)" "sv_sessions sv1 = sv_sessions sv0"
      using send_packet_ok [OF assms(1) ok0 e(1,2) b31, of "header_packet (se_net env) 0 S2C_CRITICAL_ERROR" True] by auto
    have "ks_conv (sv_objs sv1 i) = c" using sv1(3) e(3) by (simp add: same_session_def ks_conv_def)
    then show ?thesis
      using True h4 assms(10) sv1(1) close [OF sv1(2) assms(3)] mem0 sv1(4) by (simp add: ks_OnReceive_def sv0)
  next
    case False
    then show ?thesis
      using h4 assms(10,11) close [OF ok0 b31 mem0] e(3) by (simp add: ks_OnReceive_def sv0)
  qed
  then obtain sv2 where sv2: "ks_OnReceive env i p sv0 = Some sv2" "c \<notin> fst ` set (sv_sessions sv2)"
      "ks_IsClosed (sv_objs sv2 i)" "\<not> ks_IsAlive (sv_objs sv2 i)" by blast
  have "sv_ReadHandler env remote sv0 = Some sv2"
    using assms(4,7) h(2) sv2(1) by (simp add: sv_ReadHandler_def sv_GetSessionByRemote_def sv0)
  then show ?thesis
    using arrive_unfold [OF ne st(1), of env remote] sv2 by (simp add: p(1) sv0)
qed

theorem server_wrong_conv_closes_witness:
  "\<exists>sv'. sv_arrive demo_env demo_addr [7, 0, 1, 0] open_server = Some sv' \<and> 0x10000 \<notin> fst ` set (sv_sessions sv')"
proof -
  obtain s where s: "demo_session = s" "ks_id s = \<lparr>sid_conv = 0x10000, sid_addr = demo_addr\<rparr>" using demo_session_new by blast
  have f: "find_session (has_addr demo_addr) (sv_objs open_server) (sv_sessions open_server) = Some (0x10000, 0)"
    using s by (simp add: open_server_sel has_addr_def sock_addr_eq_def)
  have c: "ikcp_getconv (take 4 [7, 0, 1, 0]) = Some 0x10007"
    by (simp add: ikcp_getconv_def ikcp_decode32u_def of_le32_def)
  have r: "rpos (sv_read open_server) = 0" "wpos (sv_read open_server) = 0" "sv_connected open_server" "sv_id open_server = 0"
    by (simp_all add: open_server_sel)
  have n: "(0x10007 :: u32) AND 0xffff \<noteq> ucast (0 :: u16) \<or> (0x10007 :: u32) \<noteq> 0x10000" by simp
  have l: "4 \<le> length [7 :: u8, 0, 1, 0]" "length [7 :: u8, 0, 1, 0] \<le> RECV_BUFFER_SIZE" by (simp_all add: RECV_BUFFER_SIZE_def)
  show ?thesis
    using server_wrong_conv_closes [OF demo_env_ok open_server_ok _ r(3,1,2) f l c] n r(4) by simp blast
qed

section \<open>Dispatch\<close>

definition sv_quiet :: "'a server_env \<Rightarrow> packet_header \<Rightarrow> bytes \<Rightarrow> bool" where
  "sv_quiet env h d \<longleftrightarrow> (case se_handler env of None \<Rightarrow> False | Some f \<Rightarrow> \<forall>a. fst (f (ph_Command h) d a))"

definition app_step :: "'a server_env \<Rightarrow> packet_header \<Rightarrow> bytes \<Rightarrow> 'a \<Rightarrow> 'a" where
  "app_step env h d a = (case se_handler env of None \<Rightarrow> a | Some f \<Rightarrow> snd (f (ph_Command h) d a))"

definition sv_eff :: "'a server_env \<Rightarrow> nat \<Rightarrow> packet_header \<Rightarrow> bytes \<Rightarrow> 'a server \<Rightarrow> 'a server" where
  "sv_eff env i h d sv =
     (let s = sv_objs sv i in sv\<lparr>sv_objs := (sv_objs sv)(i := s\<lparr>ks_app := app_step env h d (ks_app s)\<rparr>)\<rparr>)"

interpretation session_sink: packet_sink "get_reader i" "put_reader i" "sv_on_data env i" "sv_on_error env i"
    "sv_eff env i" "sv_quiet env" for env :: "'a server_env" and i
proof
  fix sv :: "'a server" and r r' h d
  show "get_reader i (put_reader i r sv) = r" by simp
  show "put_reader i r (put_reader i r' sv) = put_reader i r sv" by (simp add: put_reader_def)
  show "put_reader i (get_reader i sv) sv = sv" by (simp add: put_reader_def get_reader_def)
  show "sv_eff env i h d (put_reader i r sv) = put_reader i r (sv_eff env i h d sv)"
  proof -
    have e: "s\<lparr>ks_reader := r, ks_app := a\<rparr> = s\<lparr>ks_app := a, ks_reader := r\<rparr>" for s :: "'a kcp_session" and a
      by (cases s) simp
    show ?thesis by (simp add: sv_eff_def put_reader_def Let_def e)
  qed
  assume "sv_quiet env h d"
  then obtain f where f: "se_handler env = Some f" "\<forall>a. fst (f (ph_Command h) d a)"
    by (auto simp: sv_quiet_def split: option.splits)
  then show "\<exists>res. sv_on_data env i h d sv = Some (res, sv_eff env i h d sv) \<and>
      (res \<in> {RdOk, RdWaitingForQuery} \<or> (\<forall>t. sv_on_error env i t = Some t))"
    by (auto simp: sv_on_data_def ks_ReadDataHandler_def sv_eff_def app_step_def Let_def split: prod.splits)
      (metis fst_conv)
qed

text \<open>
  C7. Reassembly on the server: when the pending and the newly read bytes of a session are a
  sequence of well-formed packets and a rest, the handler gets exactly these packets in order,
  and exactly the rest stays pending, wherever the stream was cut into messages.
\<close>

theorem session_dispatches:
  assumes "reader_clean (get_reader i sv)"
    and "parse_stream (pending_bytes (get_reader i sv) @ unread_bytes (get_reader i sv)) = (ps, rest, True)"
    and "\<forall>(h, d) \<in> set ps. sv_quiet env h d"
  shows "\<exists>sv'. ks_ReadHandler env i sv = Some sv' \<and>
    ks_app (sv_objs sv' i) = fold (\<lambda>(h, d). app_step env h d) ps (ks_app (sv_objs sv i)) \<and>
    reader_clean (get_reader i sv') \<and> unread_bytes (get_reader i sv') = [] \<and> pending_bytes (get_reader i sv') = rest"
proof -
  have ok: "mb_ok (pr_read (get_reader i sv))" using assms(1) by (simp add: reader_clean_def reader_ok_def)
  have fuel: "length (unread_bytes (get_reader i sv)) < read_fuel (get_reader i sv)"
    using mb_active_size [OF ok] by (simp add: read_fuel_def unread_bytes_def)
  have app: "ks_app (sv_objs (session_sink.run env i ps sv) i) = fold (\<lambda>(h, d). app_step env h d) ps (ks_app (sv_objs sv i))" for sv
    unfolding session_sink.run_def by (induction ps arbitrary: sv) (auto simp: sv_eff_def Let_def)
  obtain r where "ks_ReadHandler env i sv = Some (put_reader i r (session_sink.run env i ps sv))" "reader_clean r"
    "unread_bytes r = []" "pending_bytes r = rest"
    using session_sink.reads_stream [OF assms fuel] by (auto simp: ks_ReadHandler_def)
  moreover have "ks_app (sv_objs (put_reader i r t) i) = ks_app (sv_objs t i)" for t :: "'a server" by (simp add: put_reader_def)
  ultimately show ?thesis using app by simp
qed

definition demo_packet :: packet_header where
  "demo_packet = \<lparr>ph_Size = 1, ph_Command = 9\<rparr>"

definition demo_reader :: packet_reader where
  "demo_reader = reader_new\<lparr>pr_read := \<lparr>wpos = 10, rpos = 0, storage = header_bytes (0, 0) demo_packet @ [5, 6]\<rparr>\<rparr>"

lemma demo_reader_facts:
  "reader_clean demo_reader" "pending_bytes demo_reader = []" "unread_bytes demo_reader = header_bytes (0, 0) demo_packet @ [5, 6]"
  "parse_stream (header_bytes (0, 0) demo_packet @ [5, 6]) = ([(demo_packet, [5])], [6], True)"
proof -
  have n: "mb_ok (mb_new sizeof_PacketHeader)" by (simp add: sizeof_PacketHeader_def)
  have room: "mb_GetRemainingSpace (pr_header demo_reader) > 0"
    using mb_remaining [OF n] by (simp add: demo_reader_def reader_new_def) (simp add: mb_new_def sizeof_PacketHeader_def)
  have "reader_ok demo_reader"
    using reader_ok_new by (simp add: reader_ok_def demo_reader_def) (simp add: mb_ok_def sizeof_PacketHeader_def)
  then show "reader_clean demo_reader" using room by (simp add: reader_clean_def)
  show "pending_bytes demo_reader = []"
    using room by (simp add: pending_bytes_def) (simp add: demo_reader_def reader_new_def mb_unread_def mb_new_def)
  show "unread_bytes demo_reader = header_bytes (0, 0) demo_packet @ [5, 6]"
    by (simp add: unread_bytes_def demo_reader_def mb_unread_def sizeof_PacketHeader_def)
  have "header_of_bytes (header_bytes (0, 0) demo_packet) = Some demo_packet"
    using header_roundtrip [of "(0, 0)" demo_packet "[]"] by simp
  moreover have "header_valid demo_packet" by (simp add: header_valid_def IsValidSize_def IsValidOpcode_def demo_packet_def)
  ultimately show "parse_stream (header_bytes (0, 0) demo_packet @ [5, 6]) = ([(demo_packet, [5])], [6], True)"
    using parse_packet [of "header_bytes (0, 0) demo_packet" demo_packet "[5]" "[6]"] parse_short [of "[6]"]
    by (simp add: sizeof_PacketHeader_def demo_packet_def)
qed

theorem session_dispatches_witness:
  "\<exists>sv'. ks_ReadHandler demo_env 0 (put_reader 0 demo_reader demo_server) = Some sv' \<and>
     ks_app (sv_objs sv' 0) = ks_app demo_session @ [(9, [5])] \<and> pending_bytes (get_reader 0 sv') = [6]"
proof -
  have g: "get_reader 0 (put_reader 0 demo_reader demo_server) = demo_reader" by simp
  have q: "\<forall>(h, d) \<in> set [(demo_packet, [5])]. sv_quiet demo_env h d"
    by (simp add: sv_quiet_def demo_env_def demo_handler_def)
  have a: "ks_app (sv_objs (put_reader 0 demo_reader demo_server) 0) = ks_app demo_session"
    by (simp add: put_reader_def demo_server_sel)
  have st: "app_step demo_env demo_packet [5] log = log @ [(9, [5])]" for log
    by (simp add: app_step_def demo_env_def demo_handler_def demo_packet_def)
  note f = demo_reader_facts
  show ?thesis
    using session_dispatches [of 0 "put_reader 0 demo_reader demo_server" "[(demo_packet, [5])]" "[6]" demo_env] f q
    unfolding g a by (auto simp: st)
qed

section \<open>The send queue\<close>

text \<open>
  Sending stalls: when the first datagram of the queue has been sent completely, \<open>Pop\<close>
  leaves its buffer, now inactive, at the front of the sorted pool, and the queue reports no
  active buffer although all the others still hold unsent datagrams; the send loop does
  nothing more until a \<open>Push\<close> reuses that buffer.
\<close>

theorem server_send_stalls:
  assumes "senv_ok env" and "wq_inv (sv_queue sv)" and "wq_GetActiveSize (sv_queue sv) > 0"
    and "writeList (sv_queue sv) = b # bs" and "mb_ok (wb_buffer b)"
    and "length (mb_unread (wb_buffer b)) \<le> mtu_size (sv_mtu sv)" and "nr = int (length (mb_unread (wb_buffer b)))"
  shows "\<exists>sv'. sv_SendDataHandler env (nr, 0) sv = Some (sv', Some (mb_unread (wb_buffer b), wb_addr b)) \<and>
    wq_GetActiveSize (sv_queue sv') = 0 \<and> mset (tl (writeList (sv_queue sv'))) = mset bs \<and> (\<forall>c \<in> set bs. wb_active c) \<and>
    sv_SendDataHandler env result sv' = Some (sv', None)"
proof -
  have srt: "std_sort wb_before (se_srt env)" using assms(1) by (simp add: senv_ok_def)
  let ?u = "mb_unread (wb_buffer b)"
  let ?b = "b\<lparr>wb_buffer := mb_ReadCompleted (nat nr) (wb_buffer b)\<rparr>"
  let ?q = "(sv_queue sv)\<lparr>writeList := ?b # bs\<rparr>"
  have act: "\<forall>c \<in> set (b # bs). wb_active c"
    using assms(2,3,4) by (auto simp: wq_inv_def wq_GetActiveSize_def split: if_splits)
  have rd: "mb_read (mb_GetActiveSize (wb_buffer b)) (wb_buffer b) = Some ?u"
    using mb_read_unread [OF assms(5), of "length ?u"] mb_active_size [OF assms(5)] by simp
  have rc: "mb_ok (mb_ReadCompleted (length ?u) (wb_buffer b))" "mb_unread (mb_ReadCompleted (length ?u) (wb_buffer b)) = []"
    using mb_ReadCompleted_ok [OF assms(5), of "length ?u"] by simp_all
  then have z: "mb_GetActiveSize (mb_ReadCompleted (length ?u) (wb_buffer b)) = 0" using mb_active_size by fastforce
  have "wq_inv ?q" using assms(2,4) act by (simp add: wq_inv_def)
  then obtain q' bs' where q': "wq_Pop (se_srt env) ?q = (True, q')" "writeList q' = ?b\<lparr>wb_active := False\<rparr> # bs'"
    "mset bs' = mset bs" "wq_GetActiveSize q' = 0"
    using wq_Pop_nonempty [OF srt, of ?q ?b bs] by auto
  have "sv_SendDataHandler env (nr, 0) sv = Some (sv\<lparr>sv_queue := q'\<rparr>, Some (?u, wb_addr b))"
    using assms(3,4,6,7) rd z q'(1) mb_active_size [OF assms(5)]
    by (simp add: sv_SendDataHandler_def wq_Front_def Let_def)
  then show ?thesis using q' act by (simp add: sv_SendDataHandler_def)
qed

definition full_buffer :: "bytes \<Rightarrow> write_buffer" where
  "full_buffer d = \<lparr>wb_buffer = \<lparr>wpos = length d, rpos = 0, storage = d\<rparr>, wb_addr = demo_addr, wb_active = True\<rparr>"

definition queued_server :: "packet_log server" where
  "queued_server = demo_server\<lparr>sv_queue := \<lparr>writeList = [full_buffer [1], full_buffer [2, 3]], activepos = 2\<rparr>\<rparr>"

theorem server_send_stalls_witness:
  "\<exists>sv'. sv_SendDataHandler demo_env (1, 0) queued_server = Some (sv', Some ([1], demo_addr)) \<and>
     mset (tl (writeList (sv_queue sv'))) = {#full_buffer [2, 3]#} \<and>
     sv_SendDataHandler demo_env (1, 0) sv' = Some (sv', None)"
proof -
  have q: "sv_queue queued_server = \<lparr>writeList = [full_buffer [1], full_buffer [2, 3]], activepos = 2\<rparr>"
    "sv_mtu queued_server = 512" by (simp_all add: queued_server_def demo_server_def sv_StartUp_def sv_new_def)
  have i: "wq_inv (sv_queue queued_server)" by (simp add: q wq_inv_def full_buffer_def MAX_WRITE_BUFFER_SIZE_def)
  have b: "mb_ok (wb_buffer (full_buffer [1]))" "mb_unread (wb_buffer (full_buffer [1])) = [1]" "wb_addr (full_buffer [1]) = demo_addr"
    by (simp_all add: full_buffer_def mb_ok_def mb_unread_def)
  show ?thesis
    using server_send_stalls [OF demo_env_ok i _ _ b(1), of "[full_buffer [2, 3]]" 1 "(1, 0)"] b q
    by (simp add: wq_GetActiveSize_def mtu_size_def) blast
qed

end
