(* ===== verification/C_Socket.thy ===== *)
theory C_Socket
  imports Socket_Types
begin

text \<open>
  \<^verbatim>\<open>Network/Socket/CSocket.h/.cpp\<close>: the wrapper around the operating system's sockets.  The
  system is not modelled: what a call to it returned, and the error code that it left, are
  arguments, and a loop that calls it takes the list of its answers.  A loop that needs more
  answers than the list has is \<open>None\<close>, as are a copy outside a buffer and a loop that never
  ends.  The model is the Windows branch of the code (\<open>SOCKET\<close> handles, Winsock error codes).
\<close>

section \<open>Handles, errors and addresses\<close>

type_synonym socket_handle = u64

definition INVALIDSOCKHANDLE :: socket_handle where "INVALIDSOCKHANDLE = - 1"

definition ISSOCKHANDLE :: "socket_handle \<Rightarrow> bool" where
  "ISSOCKHANDLE x \<longleftrightarrow> x \<noteq> INVALIDSOCKHANDLE"

definition IsValidSocketHandle :: "socket_handle \<Rightarrow> bool" where
  "IsValidSocketHandle h \<longleftrightarrow> ISSOCKHANDLE h"

definition WSAEWOULDBLOCK :: int where "WSAEWOULDBLOCK = 10035"
definition WSAETIMEDOUT :: int where "WSAETIMEDOUT = 10060"

definition ETRYAGAIN :: "int \<Rightarrow> bool" where
  "ETRYAGAIN x \<longleftrightarrow> x = WSAEWOULDBLOCK \<or> x = WSAETIMEDOUT"

definition GetSocketError :: "int \<Rightarrow> string" where
  "GetSocketError r = (if r = 1 then ''TIME_OUT'' else if r = -1 then ''SOCKET_ERROR'' else ''SUCCESS'')"

record sock_error =
  er_nbytes :: int
  er_nresult :: int

text \<open>\<open>sockaddr_in\<close> has the fields of \<open>SockAddr_t\<close>; \<open>htons\<close> swaps the bytes of the port.\<close>

definition htons :: "u16 \<Rightarrow> u16" where
  "htons p = (push_bit 8 p) OR (drop_bit 8 p)"

definition AF_INET :: u16 where "AF_INET = 2"

definition GetAddressFrom :: "(string \<Rightarrow> u32) \<Rightarrow> string option \<Rightarrow> int \<Rightarrow> sock_addr" where
  "GetAddressFrom inet_addr ip port =
     \<lparr>sa_family = AF_INET, sa_port = htons (word_of_int port),
      sa_addr = (case ip of Some s \<Rightarrow> inet_addr s | None \<Rightarrow> 0)\<rparr>"

definition toSockAddr_in :: "sock_addr \<Rightarrow> sock_addr \<Rightarrow> sock_addr" where
  "toSockAddr_in a target = target\<lparr>sa_addr := sa_addr a, sa_port := sa_port a, sa_family := sa_family a\<rparr>"

section \<open>Sending and receiving\<close>

text \<open>An answer of the system: the value returned and the error code left.\<close>

type_synonym os_answer = "int \<times> int"

definition SocketSend :: "bool \<Rightarrow> int \<Rightarrow> os_answer \<Rightarrow> sock_error" where
  "SocketSend ptr nbytes ans =
     (if \<not> ptr \<or> nbytes < 1 then \<lparr>er_nbytes = 0, er_nresult = 0\<rparr>
      else if fst ans > 0 then \<lparr>er_nbytes = fst ans, er_nresult = (if fst ans = nbytes then 0 else 1)\<rparr>
      else if fst ans = 0 then \<lparr>er_nbytes = 0, er_nresult = -1\<rparr>
      else \<lparr>er_nbytes = fst ans, er_nresult = (if ETRYAGAIN (snd ans) then 1 else -1)\<rparr>)"

definition SocketRecv :: "bool \<Rightarrow> int \<Rightarrow> os_answer \<Rightarrow> sock_error" where
  "SocketRecv ptr nbytes ans =
     (if \<not> ptr \<or> nbytes < 1 then \<lparr>er_nbytes = 0, er_nresult = 0\<rparr>
      else if fst ans > 0 then \<lparr>er_nbytes = fst ans, er_nresult = 0\<rparr>
      else if fst ans = 0 then \<lparr>er_nbytes = 0, er_nresult = -1\<rparr>
      else \<lparr>er_nbytes = fst ans, er_nresult = (if ETRYAGAIN (snd ans) then 1 else -1)\<rparr>)"

text \<open>
  The retrying loops.  An answer carries the milliseconds since the start, which the code
  compares, unsigned, with the limit.  \<open>SocketTrySend\<close> also returns the bytes that it put on
  the wire: each accepted count is a piece of the buffer at the offset sent so far.
\<close>

fun try_send_loop :: "bytes \<Rightarrow> int \<Rightarrow> int \<Rightarrow> int \<Rightarrow> (os_answer \<times> u32) list \<Rightarrow> (sock_error \<times> bytes) option" where
  "try_send_loop data sent left ms [] = None"
| "try_send_loop data sent left ms (((n, err), span) # answers) =
     (let late = span > word_of_int ms in
      if n > 0 then
        case peek (nat n) (nat sent) data of
          None \<Rightarrow> None
        | Some piece \<Rightarrow>
            (if sent + n \<ge> left - n then Some (\<lparr>er_nbytes = sent + n, er_nresult = 0\<rparr>, piece)
             else if late then Some (\<lparr>er_nbytes = sent + n, er_nresult = 1\<rparr>, piece)
             else map_option (\<lambda>(e, w). (e, piece @ w)) (try_send_loop data (sent + n) (left - n) ms answers))
      else if n = 0 then Some (\<lparr>er_nbytes = sent, er_nresult = -2\<rparr>, [])
      else if \<not> ETRYAGAIN err then Some (\<lparr>er_nbytes = sent, er_nresult = -1\<rparr>, [])
      else if late then Some (\<lparr>er_nbytes = sent, er_nresult = 1\<rparr>, [])
      else try_send_loop data sent left ms answers)"

definition SocketTrySend :: "bytes \<Rightarrow> int \<Rightarrow> (os_answer \<times> u32) list \<Rightarrow> (sock_error \<times> bytes) option" where
  "SocketTrySend data ms answers =
     (if data = [] then Some (\<lparr>er_nbytes = 0, er_nresult = 0\<rparr>, [])
      else try_send_loop data 0 (int (length data)) ms answers)"

fun try_recv_loop :: "int \<Rightarrow> (os_answer \<times> u32) list \<Rightarrow> sock_error option" where
  "try_recv_loop ms [] = None"
| "try_recv_loop ms (((n, err), span) # answers) =
     (if n > 0 then Some \<lparr>er_nbytes = n, er_nresult = 0\<rparr>
      else if n = 0 then Some \<lparr>er_nbytes = 0, er_nresult = -1\<rparr>
      else if ETRYAGAIN err then
        (if span > word_of_int ms then Some \<lparr>er_nbytes = n, er_nresult = 1\<rparr> else try_recv_loop ms answers)
      else Some \<lparr>er_nbytes = n, er_nresult = -1\<rparr>)"

definition SocketTryRecv :: "bool \<Rightarrow> int \<Rightarrow> int \<Rightarrow> (os_answer \<times> u32) list \<Rightarrow> sock_error option" where
  "SocketTryRecv ptr nbytes ms answers =
     (if \<not> ptr \<or> nbytes < 1 then Some \<lparr>er_nbytes = 0, er_nresult = 0\<rparr>
      else if ms > 2 then try_recv_loop ms answers
      else case answers of [] \<Rightarrow> None | (ans, span) # _ \<Rightarrow> Some (SocketRecv ptr nbytes ans))"

text \<open>The answers are the results of \<open>select\<close> and of the \<open>recv\<close> that follows when it is positive.\<close>

fun SocketClearRecvBuffer :: "(int \<times> int) list \<Rightarrow> nat option" where
  "SocketClearRecvBuffer [] = None"
| "SocketClearRecvBuffer ((sel, n) # answers) =
     (if \<not> sel > 0 then Some 0
      else if n > 0 then map_option (\<lambda>k. nat n + k) (SocketClearRecvBuffer answers)
      else Some (nat n))"

section \<open>The socket object\<close>

datatype sock_type = SOCKET_TCP | SOCKET_UDP
datatype sync_mode = SOCKET_SYNC | SOCKET_ASYNC

text \<open>\<open>so_tasks\<close> counts the tasks \<open>SelectThread\<close> handed to the thread manager.\<close>

record csocket =
  so_recvcb :: bool
  so_readbuf :: "nat option"
  so_handle :: socket_handle
  so_addr :: sock_addr
  so_sendaddr :: sock_addr
  so_remote :: sock_addr
  so_type :: sock_type
  so_mode :: sync_mode
  so_connected :: bool
  so_isserver :: bool
  so_tasks :: nat

definition SocketClose :: "socket_handle \<Rightarrow> socket_handle" where
  "SocketClose h = (if ISSOCKHANDLE h then INVALIDSOCKHANDLE else h)"

definition SocketConnect :: "int \<Rightarrow> socket_handle \<Rightarrow> int" where
  "SocketConnect ret h = (if ISSOCKHANDLE h then ret else -1)"

definition so_Reopen :: "socket_handle \<Rightarrow> bool \<Rightarrow> csocket \<Rightarrow> csocket" where
  "so_Reopen opened force s =
     (let s = (if ISSOCKHANDLE (so_handle s) \<and> force then s\<lparr>so_handle := SocketClose (so_handle s)\<rparr> else s)
      in if \<not> ISSOCKHANDLE (so_handle s) then s\<lparr>so_handle := opened\<rparr> else s)"

text \<open>The constructor leaves the read buffer, two addresses and the mode as they were in memory.\<close>

definition so_new :: "socket_handle \<Rightarrow> csocket \<Rightarrow> sock_type \<Rightarrow> csocket" where
  "so_new opened junk tp = so_Reopen opened False
     (junk\<lparr>so_connected := False, so_isserver := False, so_type := tp, so_handle := INVALIDSOCKHANDLE,
       so_recvcb := False, so_addr := \<lparr>sa_family = 0, sa_port = 0, sa_addr = 0\<rparr>, so_tasks := 0\<rparr>)"

definition so_Close :: "csocket \<Rightarrow> csocket" where
  "so_Close s = s\<lparr>so_connected := False, so_handle := SocketClose (so_handle s)\<rparr>"

definition so_Connect :: "int \<Rightarrow> csocket \<Rightarrow> csocket" where
  "so_Connect ret s =
     (if so_isserver s then s
      else if SocketConnect ret (so_handle s) = 0 \<and> \<not> so_connected s then
        (if so_mode s = SOCKET_ASYNC then s\<lparr>so_isserver := False, so_connected := True, so_tasks := so_tasks s + 1\<rparr>
         else s\<lparr>so_isserver := False, so_connected := True\<rparr>)
      else s\<lparr>so_isserver := False\<rparr>)"

definition so_SetAddress :: "(string \<Rightarrow> u32) \<Rightarrow> string option \<Rightarrow> int \<Rightarrow> csocket \<Rightarrow> csocket" where
  "so_SetAddress inet_addr ip port s = s\<lparr>so_addr := GetAddressFrom inet_addr ip port\<rparr>"

definition so_StartListen :: "int \<Rightarrow> csocket \<Rightarrow> int \<times> csocket" where
  "so_StartListen ret s =
     (let err = (if so_type s = SOCKET_TCP then ret else 0) in
      if err = 0 \<and> \<not> so_connected s
      then (err, s\<lparr>so_isserver := True, so_connected := True, so_tasks := so_tasks s + 1\<rparr>)
      else (err, s\<lparr>so_isserver := True\<rparr>))"

definition udp_result :: "int \<Rightarrow> sock_error" where
  "udp_result ret = \<lparr>er_nbytes = ret, er_nresult = (if ret > 0 then 0 else -1)\<rparr>"

definition so_Send :: "bool \<Rightarrow> int \<Rightarrow> os_answer \<Rightarrow> csocket \<Rightarrow> sock_error" where
  "so_Send ptr nbytes ans s =
     (if so_type s = SOCKET_TCP then SocketSend ptr nbytes ans else udp_result (fst ans))"

definition so_SendTo :: "bool \<Rightarrow> int \<Rightarrow> sock_addr \<Rightarrow> os_answer \<Rightarrow> csocket \<Rightarrow> sock_error \<times> csocket" where
  "so_SendTo ptr nbytes target ans s =
     (if so_type s = SOCKET_TCP then (SocketSend ptr nbytes ans, s)
      else (udp_result (fst ans), s\<lparr>so_sendaddr := toSockAddr_in target (so_sendaddr s)\<rparr>))"

text \<open>On a datagram socket \<open>nbytes\<close> keeps its uninitialised value when nothing came.\<close>

definition so_Recv :: "bool \<Rightarrow> int \<Rightarrow> os_answer \<Rightarrow> int \<Rightarrow> sock_addr \<Rightarrow> csocket \<Rightarrow> sock_error \<times> csocket" where
  "so_Recv ptr nbytes ans junk from s =
     (if so_type s = SOCKET_TCP then (SocketRecv ptr nbytes ans, s)
      else if fst ans > 0 then (\<lparr>er_nbytes = fst ans, er_nresult = 0\<rparr>, s\<lparr>so_addr := from\<rparr>)
      else (\<lparr>er_nbytes = junk, er_nresult = fst ans\<rparr>, s))"

definition so_TrySend :: "bytes \<Rightarrow> int \<Rightarrow> (os_answer \<times> u32) list \<Rightarrow> csocket \<Rightarrow> sock_error option" where
  "so_TrySend data ms answers s =
     (if so_type s = SOCKET_TCP then map_option fst (SocketTrySend data ms answers)
      else case answers of [] \<Rightarrow> None | (ans, span) # _ \<Rightarrow> Some (udp_result (fst ans)))"

definition so_TryRecv :: "bool \<Rightarrow> int \<Rightarrow> int \<Rightarrow> (os_answer \<times> u32) list \<Rightarrow> int \<Rightarrow> sock_addr \<Rightarrow> csocket \<Rightarrow>
    (sock_error \<times> csocket) option" where
  "so_TryRecv ptr nbytes ms answers junk from s =
     (if so_type s = SOCKET_TCP then map_option (\<lambda>e. (e, s)) (SocketTryRecv ptr nbytes ms answers)
      else case answers of
        [] \<Rightarrow> None
      | (ans, span) # _ \<Rightarrow>
          (if fst ans > 0 then Some (\<lparr>er_nbytes = fst ans, er_nresult = 0\<rparr>, s\<lparr>so_addr := from\<rparr>)
           else Some (\<lparr>er_nbytes = junk, er_nresult = fst ans\<rparr>, s)))"

definition so_IsSockAddr :: "sock_addr \<Rightarrow> csocket \<Rightarrow> bool" where
  "so_IsSockAddr a s \<longleftrightarrow> sa_addr a = sa_addr (so_remote s) \<and> sa_port a = sa_port (so_remote s)"

section \<open>The receive thread\<close>

text \<open>
  One round of \<open>SelectThread\<close>, on what the system answers in it: whether the socket was closed
  while \<open>select\<close> slept, the result of \<open>select\<close>, which handles are readable, and the results of
  the receiving calls.  The call of the receive callback is the second component.
\<close>

record select_answers =
  sa_closed :: bool
  sa_select :: int
  sa_ready :: "socket_handle \<Rightarrow> bool"
  sa_recv :: "socket_handle \<Rightarrow> os_answer"
  sa_from :: sock_addr
  sa_accept :: int

definition RESET_ERROR :: int where "RESET_ERROR = 10054"

text \<open>An invalid handle in the list is logged, and the iterator stays where it is.\<close>

fun listeners_round :: "select_answers \<Rightarrow> socket_handle list \<Rightarrow> socket_handle list option" where
  "listeners_round ans [] = Some []"
| "listeners_round ans (h # hs) =
     (if \<not> ISSOCKHANDLE h then None
      else if \<not> sa_ready ans h then map_option (\<lambda>r. h # r) (listeners_round ans hs)
      else
        let (n, err) = sa_recv ans h in
        if n > 0 then map_option (\<lambda>r. h # r) (listeners_round ans hs)
        else if n < 0 then
          (if err = RESET_ERROR then listeners_round ans hs
           else map_option (\<lambda>r. h # r) (listeners_round ans hs))
        else listeners_round ans hs)"

type_synonym receive_call = "int option"

definition server_receive :: "select_answers \<Rightarrow> csocket \<Rightarrow> socket_handle list \<Rightarrow>
    csocket \<times> socket_handle list \<times> receive_call" where
  "server_receive ans s ls =
     (if so_type s = SOCKET_TCP then
        (if sa_accept ans > 0 then (s, ls @ [word_of_int (sa_accept ans)], None) else (s, ls, None))
      else
        let n = fst (sa_recv ans (so_handle s));
            s = s\<lparr>so_remote := (if n > 0 then sa_from ans else \<lparr>sa_family = 0, sa_port = 0, sa_addr = 0\<rparr>)\<rparr>
        in (s, ls, if n > 0 \<and> so_recvcb s then Some n else None))"

text \<open>The flag says whether the thread goes on.\<close>

definition client_receive :: "select_answers \<Rightarrow> csocket \<Rightarrow> bool \<times> csocket \<times> receive_call" where
  "client_receive ans s =
     (let (n, err) = sa_recv ans (so_handle s);
          s' = (if so_type s = SOCKET_UDP \<and> n > 0 then s\<lparr>so_addr := sa_from ans\<rparr> else s)
      in if n > 0 then (True, s', if so_recvcb s then Some n else None)
         else if n < 0 \<and> err = RESET_ERROR then (False, so_Close s', None)
         else (True, s', None))"

datatype select_result =
  Stopped csocket receive_call
| Running csocket "socket_handle list" receive_call

definition select_round :: "select_answers \<Rightarrow> csocket \<Rightarrow> socket_handle list \<Rightarrow> select_result option" where
  "select_round ans s ls =
     (if \<not> so_connected s then Some (Stopped (s\<lparr>so_readbuf := None\<rparr>) None)
      else if sa_closed ans then Some (Stopped (s\<lparr>so_connected := False, so_readbuf := None\<rparr>) None)
      else if sa_select ans \<le> 0 then Some (Running s ls None)
      else
        let (go, s, ls, call) =
          (if sa_ready ans (so_handle s) then
             (if so_isserver s then (case server_receive ans s ls of (s, ls, call) \<Rightarrow> (True, s, ls, call))
              else (case client_receive ans s of (go, s, call) \<Rightarrow> (go, s, ls, call)))
           else (True, s, ls, None))
        in if \<not> go then Some (Stopped s call)
           else if so_isserver s \<and> so_type s \<noteq> SOCKET_UDP then
             map_option (\<lambda>ls. Running s ls call) (listeners_round ans ls)
           else Some (Running s ls call))"

text \<open>What the thread reaches from its start, and that it always gets through a round.\<close>

inductive select_reach :: "csocket \<Rightarrow> csocket \<times> socket_handle list \<Rightarrow> bool" for s0 where
  start: "select_reach s0 (s0, [])"
| round: "select_reach s0 (s, ls) \<Longrightarrow> sa_accept ans < 2 ^ 31 \<Longrightarrow> select_round ans s ls = Some (Running s' ls' call) \<Longrightarrow>
    select_reach s0 (s', ls')"

inductive_cases select_reachE: "select_reach s0 (s, ls)"

lemma accepted_handle: "0 < fd \<Longrightarrow> fd < 2 ^ 31 \<Longrightarrow> ISSOCKHANDLE (word_of_int fd)"
proof -
  assume a: "0 < fd" "fd < 2 ^ 31"
  then have "uint (word_of_int fd :: u64) = fd" by (simp add: uint_word_of_int mod_pos_pos_trivial)
  moreover have "uint (- 1 :: u64) = 2 ^ 64 - 1" by (simp add: uint_word_ariths)
  ultimately have "uint (word_of_int fd :: u64) \<noteq> uint (- 1 :: u64)" using a(2) by simp
  then show ?thesis unfolding ISSOCKHANDLE_def INVALIDSOCKHANDLE_def by metis
qed

lemma listeners_round_total:
  "\<forall>h \<in> set ls. ISSOCKHANDLE h \<Longrightarrow> \<exists>r. listeners_round ans ls = Some r \<and> set r \<subseteq> set ls"
proof (induction ls)
  case (Cons h hs)
  then obtain r where "listeners_round ans hs = Some r" "set r \<subseteq> set hs" by auto
  then show ?case using Cons.prems by (cases "sa_recv ans h") auto
qed simp

lemma select_listeners_valid:
  assumes "\<forall>h \<in> set ls. ISSOCKHANDLE h" and "sa_accept ans < 2 ^ 31"
  shows "\<exists>r. select_round ans s ls = Some r \<and> (\<forall>s' ls' c. r = Running s' ls' c \<longrightarrow> (\<forall>h \<in> set ls'. ISSOCKHANDLE h))"
proof -
  let ?r = "if sa_ready ans (so_handle s) then
             (if so_isserver s then (case server_receive ans s ls of (s, ls, call) \<Rightarrow> (True, s, ls, call))
              else (case client_receive ans s of (go, s, call) \<Rightarrow> (go, s, ls, call)))
           else (True, s, ls, None)"
  obtain go s1 ls1 c where r: "?r = (go, s1, ls1, c)" by (cases ?r) auto
  have v: "\<forall>h \<in> set ls1. ISSOCKHANDLE h"
    using r assms accepted_handle by (auto simp: server_receive_def Let_def split: if_splits prod.splits)
  obtain ls2 where "listeners_round ans ls1 = Some ls2" "set ls2 \<subseteq> set ls1"
    using listeners_round_total [OF v] by blast
  then show ?thesis using r v assms(1) by (auto simp: select_round_def Let_def)
qed


definition demo_csocket :: csocket where
  "demo_csocket = \<lparr>so_recvcb = True, so_readbuf = None, so_handle = 100, so_addr = sock_addr_new,
     so_sendaddr = sock_addr_new, so_remote = sock_addr_new, so_type = SOCKET_TCP, so_mode = SOCKET_ASYNC,
     so_connected = True, so_isserver = True, so_tasks = 1\<rparr>"

definition demo_answers :: select_answers where
  "demo_answers = \<lparr>sa_closed = False, sa_select = 1, sa_ready = (\<lambda>h. h = 100), sa_recv = (\<lambda>h. (0, 0)),
     sa_from = sock_addr_new, sa_accept = 104\<rparr>"


section \<open>The retrying send\<close>

lemma try_send_prefix:
  assumes "try_send_loop data sent left ms answers = Some (e, w)" "0 \<le> sent" "left = int (length data) - sent"
  shows "w = take (length w) (drop (nat sent) data) \<and> er_nbytes e = sent + int (length w) \<and>
    length w \<le> length data - nat sent \<and> (er_nresult e = 0 \<longrightarrow> int (length data) \<le> 2 * er_nbytes e)"
  using assms
proof (induction data sent left ms answers arbitrary: e w rule: try_send_loop.induct)
  case (2 data sent left ms n err span answers)
  show ?case
  proof (cases "n > 0")
    case n: True
    obtain piece where p: "peek (nat n) (nat sent) data = Some piece"
      using "2.prems"(1) n by (auto simp: Let_def split: option.splits)
    then have pc: "piece = take (nat n) (drop (nat sent) data)" "length piece = nat n" "nat sent + nat n \<le> length data"
      by (auto simp: peek_def split: if_splits)
    show ?thesis
    proof (cases "sent + n \<ge> left - n \<or> word_of_int ms < span")
      case True
      then show ?thesis using 2 n p pc by (auto simp: Let_def split: if_splits)
    next
      case False
      obtain e' w' where r: "try_send_loop data (sent + n) (left - n) ms answers = Some (e', w')" "e = e'" "w = piece @ w'"
        using "2.prems"(1) n p False by (auto simp: Let_def)
      have ih: "w' = take (length w') (drop (nat (sent + n)) data)" "er_nbytes e' = sent + n + int (length w')"
        "length w' \<le> length data - nat (sent + n)" "er_nresult e' = 0 \<longrightarrow> int (length data) \<le> 2 * er_nbytes e'"
        using "2.IH"(1) [OF refl n p _ _ r(1)] False n "2.prems" by auto
      have at: "nat (sent + n) = nat sent + nat n" using n "2.prems"(2) by simp
      have "length w = nat n + length w'" using r(3) pc(2) by simp
      moreover have "piece @ w' = take (nat n + length w') (drop (nat sent) data)"
        using ih(1) pc(1) unfolding at by (simp add: take_add add.commute)
      moreover have "nat n + length w' \<le> length data - nat sent" using ih(3) pc(3) unfolding at by linarith
      ultimately show ?thesis using r(2,3) ih(2,4) n by simp
    qed
  next
    case False
    show ?thesis
    proof (cases "n \<noteq> 0 \<and> ETRYAGAIN err \<and> \<not> word_of_int ms < span")
      case True
      then have "try_send_loop data sent left ms answers = Some (e, w)" using "2.prems"(1) False by (simp add: Let_def)
      with "2.IH"(2) [OF refl False, of e w] True "2.prems"(2,3) show ?thesis by blast
    next
      case nr: False
      then show ?thesis using "2.prems" False by (auto simp: Let_def split: if_splits)
    qed
  qed
qed simp

text \<open>
  \<open>SocketTrySend\<close> puts a prefix of the buffer on the wire and reports its length, on every
  way out of the loop.  But it reports success as soon as it has sent half: the loop compares
  the bytes sent with the bytes left, so when the system takes half of the buffer the other
  half is never sent.
\<close>

theorem try_send_stops_at_half:
  "(\<forall>e w. SocketTrySend data ms answers = Some (e, w) \<longrightarrow> w = take (nat (er_nbytes e)) data \<and> 0 \<le> er_nbytes e \<and>
      er_nbytes e \<le> int (length data) \<and> (er_nresult e = 0 \<longrightarrow> int (length data) \<le> 2 * er_nbytes e)) \<and>
   (0 < m \<longrightarrow> length data = 2 * m \<longrightarrow>
      SocketTrySend data ms (((int m, err), span) # rest) = Some (\<lparr>er_nbytes = int m, er_nresult = 0\<rparr>, take m data))"
proof (intro conjI allI impI, goal_cases)
  case (1 e w) then show ?case
    using try_send_prefix [of data 0 "int (length data)" ms answers e w] by (auto simp: SocketTrySend_def split: if_splits)
next
  case (2 e w) then show ?case
    using try_send_prefix [of data 0 "int (length data)" ms answers e w] by (auto simp: SocketTrySend_def split: if_splits)
next
  case (3 e w) then show ?case
    using try_send_prefix [of data 0 "int (length data)" ms answers e w] by (auto simp: SocketTrySend_def split: if_splits)
next
  case (4 e w) then show ?case
    using try_send_prefix [of data 0 "int (length data)" ms answers e w] by (auto simp: SocketTrySend_def split: if_splits)
next
  case 5 then show ?case by (auto simp: SocketTrySend_def peek_def)
qed

theorem try_send_stops_at_half_witness:
  "SocketTrySend [1, 2, 3, 4] 1000 [((2, 0), 0), ((2, 0), 1)] = Some (\<lparr>er_nbytes = 2, er_nresult = 0\<rparr>, [1, 2])"
  using try_send_stops_at_half [of "[1, 2, 3, 4]" 1000 "[]" 2 0 0 "[((2, 0), 1)]"] by simp

end
