(* ===== verification/Kcp_Client.thy ===== *)
theory Kcp_Client
  imports Kcp_Session C_Socket
begin

text \<open>
  \<^verbatim>\<open>Network/Socket/KcpClient.h/.cpp\<close>: the client side of one connection.  The datagrams that an
  operation hands to the socket are returned in order.  The result of \<open>connect\<close> and the memory
  are the environment; the callbacks of the application see the state \<open>cl_app\<close>.  \<open>None\<close> is a
  read outside a buffer, a signed overflow, or a lock taken twice.
\<close>

section \<open>State\<close>

datatype client_response = CR_CONNECT_SUCCESS | CR_CONNECT_FAIL | CR_DISCONNECTED

record client_env =
  ce_net :: net_env
  ce_connect :: int

record 'a kcp_client =
  cl_handler :: "'a data_handler"
  cl_response :: "(client_response \<Rightarrow> 'a \<Rightarrow> 'a) option"
  cl_reader :: packet_reader
  cl_remote :: sock_addr
  cl_id :: session_id
  cl_kcp :: kcb
  cl_sock :: csocket
  cl_status :: int
  cl_tick :: int
  cl_lastsend :: u64
  cl_needtime :: u64
  cl_needupdate :: bool
  cl_alive :: bool
  cl_sid :: u16
  cl_recv :: bool
  cl_timeout :: u16
  cl_retries :: u16
  cl_timeouttick :: u32
  cl_locked :: bool
  cl_app :: 'a

type_synonym 'a client_result = "('a kcp_client \<times> bytes list) option"

definition reconnectInterval :: int where "reconnectInterval = 1000"
definition CLIENT_TIMEOUT_MS :: u32 where "CLIENT_TIMEOUT_MS = 18 * 1000"

text \<open>\<open>junk\<close> holds what was in memory: the constructor does not set every field.\<close>

definition cl_new :: "client_env \<Rightarrow> csocket \<Rightarrow> 'a kcp_client \<Rightarrow> u16 \<Rightarrow> 'a kcp_client option" where
  "cl_new env sock junk sid = do {
     k \<leftarrow> ikcp_create (ne_malloc (ce_net env)) SIZEOF_IKCPCB (0 + scast sid);
     let k = snd (ikcp_setmtu (ne_malloc (ce_net env)) 512 k);
     let k = snd (ikcp_nodelay 1 5 1 1 k);
     let k = snd (ikcp_wndsize 128 128 k);
     let k = ikcp_setoutput True k;
     let k = k\<lparr>k_rx_minrto := 10\<rparr>;
     Some (junk\<lparr>cl_sid := sid, cl_recv := False, cl_reader := reader_new, cl_timeout := 6000, cl_retries := 0,
       cl_handler := None, cl_response := None, cl_kcp := k, cl_locked := False,
       cl_sock := sock\<lparr>so_recvcb := True, so_mode := SOCKET_ASYNC\<rparr>\<rparr>)
   }"

definition cl_SetAddress :: "(string \<Rightarrow> u32) \<Rightarrow> string option \<Rightarrow> int \<Rightarrow> 'a kcp_client \<Rightarrow> 'a kcp_client" where
  "cl_SetAddress inet_addr ip port c =
     (let s = so_SetAddress inet_addr ip port (cl_sock c) in c\<lparr>cl_sock := s, cl_remote := so_addr s\<rparr>)"

definition cl_IsClosed :: "'a kcp_client \<Rightarrow> bool" where
  "cl_IsClosed c \<longleftrightarrow> cl_status c = status_code Disconnected"

definition cl_IsConnecting :: "'a kcp_client \<Rightarrow> bool" where
  "cl_IsConnecting c \<longleftrightarrow> cl_status c = status_code Connecting"

definition cl_IsConnected :: "'a kcp_client \<Rightarrow> bool" where
  "cl_IsConnected c \<longleftrightarrow> cl_status c = status_code Connected"

definition cl_GetClientId :: "'a kcp_client \<Rightarrow> u32" where
  "cl_GetClientId c = sid_conv (cl_id c)"

section \<open>Output\<close>

definition cl_Close :: "'a kcp_client \<Rightarrow> 'a kcp_client" where
  "cl_Close c = c\<lparr>cl_sock := (if so_connected (cl_sock c) then so_Close (cl_sock c) else cl_sock c),
     cl_recv := False, cl_alive := False, cl_handler := None, cl_response := None\<rparr>"

definition cl_fnWriteDgram :: "bytes \<Rightarrow> 'a kcp_client \<Rightarrow> 'a client_result" where
  "cl_fnWriteDgram buf c = do {
     conv \<leftarrow> utils_decode32u buf 0;
     if conv = 0 then Some (cl_Close c, []) else Some (c, [buf])
   }"

fun cl_write_dgrams :: "bytes list \<Rightarrow> 'a kcp_client \<Rightarrow> 'a client_result" where
  "cl_write_dgrams [] c = Some (c, [])"
| "cl_write_dgrams (d # ds) c = do {
     (c, w) \<leftarrow> cl_fnWriteDgram d c;
     (c, ws) \<leftarrow> cl_write_dgrams ds c;
     Some (c, w @ ws)
   }"

definition cl_update_kcp :: "u32 \<Rightarrow> 'a kcp_client \<Rightarrow> 'a client_result" where
  "cl_update_kcp current c = do {
     (k, outs) \<leftarrow> ikcp_update (cl_kcp c) current;
     cl_write_dgrams outs (c\<lparr>cl_kcp := k\<rparr>)
   }"

text \<open>\<open>Send\<close> reads four bytes at offset 4 of the packet, only to look at the command.\<close>

definition cl_Send :: "client_env \<Rightarrow> bytes \<Rightarrow> bool \<Rightarrow> 'a kcp_client \<Rightarrow> 'a client_result" where
  "cl_Send env buff immediately c =
     (if cl_status c \<noteq> status_code Connected \<and> cl_status c \<noteq> status_code Connecting then Some (c, [])
      else do {
        cmd \<leftarrow> utils_decode32u buff 4;
        if cl_locked c then None
        else do {
          (rc, k) \<leftarrow> ikcp_send (ne_malloc (ce_net env)) (cl_kcp c) buff (int (length buff));
          let c = c\<lparr>cl_kcp := k, cl_lastsend := ucast (k_current k)\<rparr>;
          if immediately then cl_update_kcp (k_current k + k_interval k) c
          else Some (c\<lparr>cl_needupdate := True\<rparr>, [])
        }
      })"

definition cl_SendHeartBeat :: "client_env \<Rightarrow> 'a kcp_client \<Rightarrow> 'a client_result" where
  "cl_SendHeartBeat env c = cl_Send env (header_packet (ce_net env) 0 C2S_HEARTBEAT) False c"

text \<open>The connect packet: the header of size 4 and the characters \<^verbatim>\<open>acpt\<close>.\<close>

definition connect_pack :: "net_env \<Rightarrow> bytes" where
  "connect_pack env = header_packet env 4 C2S_CONNECT @ [97, 99, 112, 116]"

definition cl_Connect :: "client_env \<Rightarrow> 'a kcp_client \<Rightarrow> 'a client_result" where
  "cl_Connect env c = do {
     let c = c\<lparr>cl_sock := so_Connect (ce_connect env) (cl_sock c)\<rparr>;
     if cl_locked c then None
     else do {
       (c, ds) \<leftarrow> cl_fnWriteDgram (connect_pack (ce_net env)) c;
       Some (c\<lparr>cl_status := status_code Connecting\<rparr>, ds)
     }
   }"

section \<open>Connection state\<close>

definition cl_OnResponse :: "client_response \<Rightarrow> 'a kcp_client \<Rightarrow> 'a kcp_client" where
  "cl_OnResponse r c = (case cl_response c of None \<Rightarrow> c | Some f \<Rightarrow> c\<lparr>cl_app := f r (cl_app c)\<rparr>)"

definition cl_OnConnected :: "bool \<Rightarrow> 'a kcp_client \<Rightarrow> 'a kcp_client" where
  "cl_OnConnected success c =
     (let st = (if success then status_code Connected else status_code Disconnected)
      in cl_OnResponse (if success then CR_CONNECT_SUCCESS else CR_CONNECT_FAIL)
           (c\<lparr>cl_status := st, cl_alive := (st = status_code Connected)\<rparr>))"

definition cl_OnDisconnected :: "'a kcp_client \<Rightarrow> 'a kcp_client" where
  "cl_OnDisconnected c = cl_OnResponse CR_DISCONNECTED
     (c\<lparr>cl_alive := False, cl_tick := 0, cl_reader := reader_reset (cl_reader c),
        cl_status := status_code Disconnected, cl_sock := so_Close (cl_sock c)\<rparr>)"

definition cl_OnConnectFailed :: "'a kcp_client \<Rightarrow> 'a kcp_client" where
  "cl_OnConnectFailed c = cl_OnResponse CR_CONNECT_FAIL
     (c\<lparr>cl_reader := reader_reset (cl_reader c), cl_status := status_code Disconnected, cl_alive := False\<rparr>)"

section \<open>Receiving\<close>

definition cl_put :: "packet_reader \<Rightarrow> 'a kcp_client \<Rightarrow> 'a kcp_client" where
  "cl_put r c = c\<lparr>cl_reader := r\<rparr>"

definition cl_accept :: "bytes \<Rightarrow> 'a kcp_client \<Rightarrow> 'a kcp_client option" where
  "cl_accept payload c = do {
     conv \<leftarrow> utils_decode32u payload 0;
     let c = (if conv > 0
              then c\<lparr>cl_id := \<lparr>sid_conv = conv, sid_addr = cl_remote c\<rparr>, cl_kcp := (cl_kcp c)\<lparr>k_conv := conv\<rparr>\<rparr>
              else c);
     Some (cl_OnConnected (conv > 0) c)
   }"

definition cl_ReadDataHandler :: "packet_header \<Rightarrow> bytes \<Rightarrow> 'a kcp_client \<Rightarrow> (read_result \<times> 'a kcp_client) option" where
  "cl_ReadDataHandler h payload c =
     (let cmd = ph_Command h in
      if cmd = S2C_ACCEPT_ACT then map_option (\<lambda>c. (RdOk, c)) (cl_accept payload c)
      else if cmd = S2C_DISCONNECT then Some (RdOk, cl_OnDisconnected c)
      else if cmd = S2C_HEARTBEAT then Some (RdOk, c\<lparr>cl_timeouttick := 0\<rparr>)
      else if cmd = S2C_CRITICAL_ERROR then Some (RdError, c)
      else case cl_handler c of
        None \<Rightarrow> Some (RdError, c)
      | Some f \<Rightarrow>
          (let (ok, app) = f cmd payload (cl_app c)
           in Some (if ok then RdOk else RdError, c\<lparr>cl_app := app\<rparr>)))"

text \<open>The client ignores a handler's error.\<close>

definition cl_on_error :: "'a kcp_client \<Rightarrow> 'a kcp_client option" where
  "cl_on_error c = Some c"

definition cl_ReadHandler :: "'a kcp_client \<Rightarrow> 'a kcp_client option" where
  "cl_ReadHandler c =
     ReadHandler cl_reader cl_put cl_ReadDataHandler cl_on_error (read_fuel (cl_reader c)) c"

definition cl_OnReceive :: "client_env \<Rightarrow> bytes \<Rightarrow> 'a kcp_client \<Rightarrow> 'a kcp_client option" where
  "cl_OnReceive env data c =
     (if cl_locked c then None
      else do {
        (rc, k) \<leftarrow> ikcp_input (ne_malloc (ce_net env)) (cl_kcp c) data;
        (n, out, k) \<leftarrow> ikcp_recv k (int (mb_GetRemainingSpace (pr_read (cl_reader c))));
        let c = c\<lparr>cl_kcp := k\<rparr>;
        if n > 0 then do {
          rd \<leftarrow> mb_Write out (pr_read (cl_reader c));
          cl_ReadHandler (c\<lparr>cl_reader := (cl_reader c)\<lparr>pr_read := rd\<rparr>\<rparr>)
        }
        else Some c
      })"

definition cl_ReadHandlerInternal :: "client_env \<Rightarrow> int \<Rightarrow> bytes \<Rightarrow> 'a kcp_client \<Rightarrow> 'a kcp_client option" where
  "cl_ReadHandlerInternal env sz buffer c =
     (if sz \<le> 0 then Some c else Option.bind (peek (nat sz) 0 buffer) (\<lambda>data. cl_OnReceive env data c))"

section \<open>Updating\<close>

definition add_int32 :: "int \<Rightarrow> int \<Rightarrow> int option" where
  "add_int32 a b = (if - (2 ^ 31) \<le> a + b \<and> a + b < 2 ^ 31 then Some (a + b) else None)"

definition cl_retry :: "client_env \<Rightarrow> 'a kcp_client \<Rightarrow> 'a client_result" where
  "cl_retry env c =
     (let c = c\<lparr>cl_tick := 0, cl_retries := cl_retries c + 1\<rparr> in
      if sint (cl_timeout c) > 0 \<and> sint (cl_retries c) \<ge> sint (cl_timeout c) div reconnectInterval
      then Some (cl_OnConnectFailed c, [])
      else cl_Connect env c)"

definition cl_flush_due :: "u32 \<Rightarrow> 'a kcp_client \<Rightarrow> 'a client_result" where
  "cl_flush_due current c =
     (if cl_needupdate c \<or> cl_needtime c \<le> ucast current then
        (if cl_locked c then None
         else do {
           (c, ds) \<leftarrow> cl_update_kcp current c;
           Some (c\<lparr>cl_needtime := ucast (ikcp_check (cl_kcp c) current), cl_needupdate := False\<rparr>, ds)
         })
      else Some (c, []))"

definition cl_Update :: "client_env \<Rightarrow> int \<Rightarrow> 'a kcp_client \<Rightarrow> 'a client_result" where
  "cl_Update env diff c =
     (if \<not> cl_alive c then
        (if cl_status c = status_code Connecting then do {
           t \<leftarrow> add_int32 (cl_tick c) diff;
           let c = c\<lparr>cl_tick := t\<rparr>;
           if t \<ge> reconnectInterval then cl_retry env c else Some (c, [])
         }
         else Some (c, []))
      else do {
        t \<leftarrow> add_int32 (cl_tick c) diff;
        let c = c\<lparr>cl_tick := t, cl_timeouttick := cl_timeouttick c + word_of_int diff\<rparr>;
        if cl_timeouttick c \<ge> CLIENT_TIMEOUT_MS then Some (cl_Close c, [])
        else do {
          (c, ds) \<leftarrow> (if t > HEART_BEAT_INTERVAL then cl_SendHeartBeat env (c\<lparr>cl_tick := 0\<rparr>) else Some (c, []));
          (c, ds') \<leftarrow> cl_flush_due (k_current (cl_kcp c) + word_of_int diff) c;
          Some (c, ds @ ds')
        }
      })"

end
