(* ===== verification/Client_Inv.thy ===== *)
theory Client_Inv
  imports Kcp_Client
begin

text \<open>
  The invariant of the client, its preservation by every operation, and what the application
  sees of a byte stream: the client as a sink of packets.
\<close>

section \<open>Invariant\<close>

definition client_ok :: "'a kcp_client \<Rightarrow> bool" where
  "client_ok c \<longleftrightarrow> transport_ok (cl_kcp c) \<and> reader_ok (cl_reader c) \<and> \<not> cl_locked c"

definition cl_backlog :: "'a kcp_client \<Rightarrow> nat" where
  "cl_backlog c = length (k_snd_queue (cl_kcp c))"

definition cl_env_ok :: "client_env \<Rightarrow> bool" where
  "cl_env_ok env \<longleftrightarrow> (\<forall>n. ne_malloc (ce_net env) n)"

lemma cl_Close_sel [simp]:
  "cl_kcp (cl_Close c) = cl_kcp c" "cl_reader (cl_Close c) = cl_reader c" "cl_locked (cl_Close c) = cl_locked c"
  "cl_status (cl_Close c) = cl_status c" "\<not> cl_alive (cl_Close c)" "cl_Close (cl_Close c) = cl_Close c"
  by (simp_all add: cl_Close_def so_Close_def)

lemma cl_OnResponse_sel [simp]:
  "cl_kcp (cl_OnResponse r c) = cl_kcp c" "cl_reader (cl_OnResponse r c) = cl_reader c"
  "cl_locked (cl_OnResponse r c) = cl_locked c" "cl_status (cl_OnResponse r c) = cl_status c"
  "cl_alive (cl_OnResponse r c) = cl_alive c" "cl_tick (cl_OnResponse r c) = cl_tick c"
  "cl_retries (cl_OnResponse r c) = cl_retries c" "cl_timeout (cl_OnResponse r c) = cl_timeout c"
  "cl_response (cl_OnResponse r c) = cl_response c" "cl_id (cl_OnResponse r c) = cl_id c"
  "cl_app (cl_OnResponse r c) = (case cl_response c of None \<Rightarrow> cl_app c | Some f \<Rightarrow> f r (cl_app c))"
  by (simp_all add: cl_OnResponse_def split: option.splits)

lemma client_ok_fields:
  "client_ok (c\<lparr>cl_status := st\<rparr>) = client_ok c" "client_ok (c\<lparr>cl_tick := t\<rparr>) = client_ok c"
  "client_ok (c\<lparr>cl_sock := s\<rparr>) = client_ok c" "client_ok (c\<lparr>cl_lastsend := u\<rparr>) = client_ok c"
  "client_ok (c\<lparr>cl_retries := n\<rparr>) = client_ok c" "client_ok (c\<lparr>cl_timeouttick := m\<rparr>) = client_ok c"
  "client_ok (c\<lparr>cl_needtime := u\<rparr>) = client_ok c" "client_ok (c\<lparr>cl_needupdate := b\<rparr>) = client_ok c"
  "client_ok (cl_Close c) = client_ok c" "client_ok (cl_OnResponse r c) = client_ok c"
  by (simp_all add: client_ok_def)

text \<open>Handing datagrams to the socket changes nothing, or closes the client.\<close>

definition maybe_closed :: "'a kcp_client \<Rightarrow> 'a kcp_client \<Rightarrow> bool" where
  "maybe_closed c c' \<longleftrightarrow> c' = c \<or> c' = cl_Close c"

lemma cl_fnWriteDgram_total:
  assumes "4 \<le> length d"
  shows "\<exists>c' ds. cl_fnWriteDgram d c = Some (c', ds) \<and> maybe_closed c c' \<and> set ds \<subseteq> {d} \<and>
    (\<forall>x \<in> set ds. utils_decode32u x 0 \<noteq> Some 0)"
proof -
  have "peek 4 0 d = Some (take 4 d)" "length (take 4 d) = 4" using assms by (simp_all add: peek_def)
  then obtain v where "utils_decode32u d 0 = Some v" by (auto simp: utils_decode32u_def of_le32_def)
  then show ?thesis by (auto simp: cl_fnWriteDgram_def maybe_closed_def)
qed

lemma cl_write_dgrams_total:
  assumes "\<forall>d \<in> set ds. 4 \<le> length d"
  shows "\<exists>c' ws. cl_write_dgrams ds c = Some (c', ws) \<and> maybe_closed c c' \<and> set ws \<subseteq> set ds \<and>
    (\<forall>x \<in> set ws. utils_decode32u x 0 \<noteq> Some 0)"
  using assms
proof (induction ds arbitrary: c)
  case (Cons d ds)
  obtain c1 w where w: "cl_fnWriteDgram d c = Some (c1, w)" "maybe_closed c c1" "set w \<subseteq> {d}"
    "\<forall>x \<in> set w. utils_decode32u x 0 \<noteq> Some 0"
    using cl_fnWriteDgram_total [of d c] Cons.prems by auto
  obtain c2 ws where ws: "cl_write_dgrams ds c1 = Some (c2, ws)" "maybe_closed c1 c2" "set ws \<subseteq> set ds"
    "\<forall>x \<in> set ws. utils_decode32u x 0 \<noteq> Some 0"
    using Cons.IH [of c1] Cons.prems by auto
  have "maybe_closed c c2" using w(2) ws(2) by (auto simp: maybe_closed_def)
  then show ?case using w ws by auto
qed (simp add: maybe_closed_def)

lemma cl_update_kcp_ok:
  assumes "client_ok c"
  shows "\<exists>c' ds. cl_update_kcp t c = Some (c', ds) \<and> client_ok c' \<and> cl_backlog c' \<le> cl_backlog c \<and>
    k_mtu (cl_kcp c') = k_mtu (cl_kcp c) \<and> cl_status c' = cl_status c \<and>
    (\<forall>d \<in> set ds. length d \<le> unat (k_mtu (cl_kcp c)) \<and> utils_decode32u d 0 \<noteq> Some 0)"
proof -
  obtain k outs where u: "ikcp_update (cl_kcp c) t = Some (k, outs)" "transport_ok k" "same_rest (cl_kcp c) k"
    "length (k_snd_queue k) \<le> length (k_snd_queue (cl_kcp c))"
    "\<forall>d \<in> set outs. 24 \<le> length d \<and> length d \<le> unat (k_mtu (cl_kcp c))"
    using transport_update [of "cl_kcp c" t] assms by (auto simp: client_ok_def)
  obtain c' ds where w: "cl_write_dgrams outs (c\<lparr>cl_kcp := k\<rparr>) = Some (c', ds)" "maybe_closed (c\<lparr>cl_kcp := k\<rparr>) c'"
    "set ds \<subseteq> set outs" "\<forall>x \<in> set ds. utils_decode32u x 0 \<noteq> Some 0"
    using cl_write_dgrams_total [of outs "c\<lparr>cl_kcp := k\<rparr>"] u(5) by fastforce
  have c: "cl_kcp c' = k" "cl_reader c' = cl_reader c" "cl_locked c' = cl_locked c" "cl_status c' = cl_status c"
    using w(2) by (auto simp: maybe_closed_def)
  have "k_mtu k = k_mtu (cl_kcp c)" using u(3) by (simp add: same_defs)
  then show ?thesis using u w c assms by (auto simp: cl_update_kcp_def client_ok_def cl_backlog_def)
qed

lemma cl_Send_ok:
  assumes "cl_env_ok env" "client_ok c" "cl_backlog c < 2 ^ 31" "8 \<le> length b" "length b < 2 ^ 31"
  shows "\<exists>c' ds. cl_Send env b im c = Some (c', ds) \<and> client_ok c' \<and> cl_backlog c' \<le> cl_backlog c + 127 \<and>
    k_mtu (cl_kcp c') = k_mtu (cl_kcp c) \<and> cl_status c' = cl_status c \<and>
    (\<forall>d \<in> set ds. length d \<le> unat (k_mtu (cl_kcp c)) \<and> utils_decode32u d 0 \<noteq> Some 0)"
proof -
  have "peek 4 4 b \<noteq> None" using assms(4) by (simp add: peek_def)
  then obtain xs where "peek 4 4 b = Some xs" by blast
  then obtain cmd where cmd: "utils_decode32u b 4 = Some cmd"
    using length_peek [of 4 4 b xs] by (auto simp: utils_decode32u_def of_le32_def)
  have t: "transport_ok (cl_kcp c)" "\<not> cl_locked c" using assms(2) by (simp_all add: client_ok_def)
  have malloc: "\<forall>n. ne_malloc (ce_net env) n" using assms(1) by (simp add: cl_env_ok_def)
  obtain rc k where k: "ikcp_send (ne_malloc (ce_net env)) (cl_kcp c) b (int (length b)) = Some (rc, k)"
    "transport_ok k" "same_rest (cl_kcp c) k" "length (k_snd_queue k) \<le> length (k_snd_queue (cl_kcp c)) + 127"
    using transport_send [OF malloc t(1) assms(5)] assms(3) by (auto simp: cl_backlog_def)
  let ?c = "c\<lparr>cl_kcp := k, cl_lastsend := ucast (k_current k)\<rparr>"
  have ok: "client_ok ?c" "client_ok (?c\<lparr>cl_needupdate := True\<rparr>)" using assms(2) k(2) by (simp_all add: client_ok_def)
  have mtu: "k_mtu k = k_mtu (cl_kcp c)" using k(3) by (simp add: same_defs)
  obtain c' ds where "cl_update_kcp (k_current k + k_interval k) ?c = Some (c', ds)" "client_ok c'"
    "cl_backlog c' \<le> cl_backlog ?c" "k_mtu (cl_kcp c') = k_mtu (cl_kcp ?c)" "cl_status c' = cl_status ?c"
    "\<forall>d \<in> set ds. length d \<le> unat (k_mtu (cl_kcp ?c)) \<and> utils_decode32u d 0 \<noteq> Some 0"
    using cl_update_kcp_ok [OF ok(1), of "k_current k + k_interval k"] by blast
  then show ?thesis
    using assms(2) k t cmd ok mtu by (cases im) (auto simp: cl_Send_def cl_backlog_def)
qed

lemma connect_pack_conv: "utils_decode32u (connect_pack env) 0 = Some 4"
proof -
  have "peek 4 0 (connect_pack env) = Some (le32 4)"
    by (simp add: peek_def connect_pack_def header_packet_def header_bytes_def)
  then show ?thesis by (simp add: utils_decode32u_def)
qed

lemma cl_Connect_eq:
  "\<not> cl_locked c \<Longrightarrow> cl_Connect env c = Some (c\<lparr>cl_sock := so_Connect (ce_connect env) (cl_sock c),
     cl_status := status_code Connecting\<rparr>, [connect_pack (ce_net env)])"
  by (simp add: cl_Connect_def cl_fnWriteDgram_def connect_pack_conv)

lemma cl_flush_due_ok:
  assumes "client_ok c"
  shows "\<exists>c' ds. cl_flush_due t c = Some (c', ds) \<and> client_ok c' \<and> cl_backlog c' \<le> cl_backlog c \<and>
    k_mtu (cl_kcp c') = k_mtu (cl_kcp c) \<and>
    (\<forall>d \<in> set ds. length d \<le> unat (k_mtu (cl_kcp c)) \<and> utils_decode32u d 0 \<noteq> Some 0)"
proof (cases "cl_needupdate c \<or> cl_needtime c \<le> ucast t")
  case True
  obtain c' ds where u: "cl_update_kcp t c = Some (c', ds)" "client_ok c'" "cl_backlog c' \<le> cl_backlog c"
    "k_mtu (cl_kcp c') = k_mtu (cl_kcp c)"
    "\<forall>d \<in> set ds. length d \<le> unat (k_mtu (cl_kcp c)) \<and> utils_decode32u d 0 \<noteq> Some 0"
    using cl_update_kcp_ok [OF assms, of t] by blast
  then show ?thesis using True assms by (simp add: cl_flush_due_def client_ok_fields cl_backlog_def) (simp add: client_ok_def)
qed (use assms in \<open>simp add: cl_flush_due_def\<close>)

lemma cl_retry_ok:
  assumes "client_ok c"
  shows "\<exists>c' ds. cl_retry env c = Some (c', ds) \<and> client_ok c' \<and> cl_backlog c' = cl_backlog c \<and>
    k_mtu (cl_kcp c') = k_mtu (cl_kcp c) \<and> set ds \<subseteq> {connect_pack (ce_net env)}"
proof -
  have "\<not> cl_locked c" "reader_ok (reader_reset (cl_reader c))" using assms reader_ok_reset by (simp_all add: client_ok_def)
  then show ?thesis using assms
    by (auto simp: cl_retry_def cl_Connect_eq client_ok_def cl_OnConnectFailed_def cl_backlog_def Let_def)
qed

text \<open>The handlers of the client, on every packet that they do not read beyond.\<close>

definition cl_readable :: "packet_header \<Rightarrow> bytes \<Rightarrow> bool" where
  "cl_readable h d \<longleftrightarrow> (ph_Command h = S2C_ACCEPT_ACT \<longrightarrow> 4 \<le> length d)"

lemma transport_conv: "transport_ok (k\<lparr>k_conv := v\<rparr>) = transport_ok k"
  by (simp add: transport_ok_def kcp_inv_def config_ok_def rcv_fits_def recv_inv_defs snd_ok_def snd_fits_def)

section \<open>The first message\<close>

text \<open>A datagram of one unfragmented segment with the serial number that is due delivers its payload.\<close>

lemma window_word:
  assumes "128 \<le> unat (w :: u32)" "unat w < 2 ^ 31"
  shows "sint (- w) < 0"
proof -
  have "unat (0 - w) = 2 ^ 32 - unat w" using assms unat_sub32 [of 0 w] by simp
  then show ?thesis using assms by (simp add: sint32_neg_iff)
qed

lemma ack_push_rcv:
  assumes "\<forall>n. malloc n"
  shows "\<exists>k'. ikcp_ack_push malloc k sn ts = Some k' \<and> k_rcv_nxt k' = k_rcv_nxt k \<and> k_rcv_wnd k' = k_rcv_wnd k \<and>
    k_rcv_queue k' = k_rcv_queue k \<and> k_rcv_buf k' = k_rcv_buf k \<and> k_nrcv_que k' = k_nrcv_que k"
  using assms by (simp add: ikcp_ack_push_def Let_def)

lemma input_single_push:
  assumes malloc: "\<forall>n. malloc n" and k: "transport_ok k" "k_rcv_queue k = []" "k_rcv_buf k = []"
    and h: "sh_conv h = k_conv k" "sh_cmd h = 81" "sh_frg h = 0" "sh_sn h = k_rcv_nxt k" "unat (sh_len h) = length data"
    and d: "length data < 2 ^ 31"
  shows "\<exists>k' seg. ikcp_input malloc k (enc_header h @ data) = Some (0, k') \<and> k_rcv_queue k' = [seg] \<and>
    sg_frg seg = 0 \<and> sg_data seg = data \<and> sg_len seg = sh_len h"
proof -
  note t = transportD [OF k(1)]
  have wnd: "128 \<le> unat (k_rcv_wnd k)" "unat (k_rcv_wnd k) < 2 ^ 31" using t(2) by (simp_all add: config_ok_def)
  have q: "k_nrcv_que k = 0"
    using t(1) k(2) by (simp add: kcp_inv_def recv_inv_defs unat_eq_zero)
  have len: "sint (sh_len h) = int (length data)" using h(5) d by (simp add: sint32_cases)
  let ?k1 = "ikcp_shrink_buf (ikcp_parse_una (k\<lparr>k_rmt_wnd := ucast (sh_wnd h)\<rparr>) (sh_una h))"
  have k1: "k_rcv_nxt ?k1 = k_rcv_nxt k" "k_rcv_wnd ?k1 = k_rcv_wnd k" "k_rcv_queue ?k1 = []" "k_rcv_buf ?k1 = []"
    "k_nrcv_que ?k1 = 0"
    using k q by (simp_all add: ikcp_shrink_buf_def ikcp_parse_una_def split: list.splits prod.splits)
  obtain k2 where k2: "ikcp_ack_push malloc ?k1 (sh_sn h) (sh_ts h) = Some k2"
    "k_rcv_nxt k2 = k_rcv_nxt k" "k_rcv_wnd k2 = k_rcv_wnd k" "k_rcv_queue k2 = []" "k_rcv_buf k2 = []" "k_nrcv_que k2 = 0"
    using ack_push_rcv [OF malloc, of ?k1] k1 by auto
  let ?seg = "seg_of_header h data seg_blank"
  have sn: "sg_sn ?seg = k_rcv_nxt k" by (simp add: seg_of_header_def h)
  let ?k3 = "k2\<lparr>k_rcv_buf := [?seg], k_nrcv_buf := k_nrcv_buf k2 + 1\<rparr>"
  have "move_available ?k3 = move_available (deliver ?seg [] ?k3)"
    using k2 sn wnd by (intro move_available_go) (simp_all add: word_less_nat_alt)
  also have "\<dots> = deliver ?seg [] ?k3" by (rule move_available_stop) (simp add: deliver_def)
  finally have mv: "move_available ?k3 = deliver ?seg [] ?k3" .
  have w: "sint (- k_rcv_wnd k) < 0" by (rule window_word [OF wnd])
  have pd: "ikcp_parse_data k2 ?seg = deliver ?seg [] ?k3"
    using k2 sn w mv by (simp add: ikcp_parse_data_def Let_def)
  have push: "input_push malloc ?k1 h data = Some (deliver ?seg [] ?k3)"
    using k1 k2 w pd malloc h by (simp add: input_push_def ikcp_segment_new_def)
  have cmd: "input_cmd malloc k h data False 0 = Some (deliver ?seg [] ?k3, False, 0)"
    using push h(2) by (simp add: input_cmd_def Let_def IKCP_CMD_PUSH_def IKCP_CMD_ACK_def)
  have loop: "input_loop malloc k (enc_header h @ data) False 0 = Some (Inr (deliver ?seg [] ?k3, False, 0))"
    using cmd h len by (subst input_loop.simps)
      (simp add: kcp_hdr.dec_enc kcp_hdr.enc_width IKCP_OVERHEAD_def LONG_BITS_def c_long_of_u32_32 IKCP_CMD_PUSH_def
        input_loop.simps [of malloc _ "[]"])
  have "ikcp_input malloc k (enc_header h @ data) = Some (0, input_cwnd (k_snd_una k) (deliver ?seg [] ?k3))"
    by (simp add: ikcp_input_def loop kcp_hdr.enc_width IKCP_OVERHEAD_def)
  moreover have "k_rcv_queue (input_cwnd (k_snd_una k) (deliver ?seg [] ?k3)) = [?seg]"
    using k2 by (simp add: input_cwnd_def deliver_def Let_def)
  moreover have "sg_frg ?seg = 0" "sg_data ?seg = data" "sg_len ?seg = sh_len h" by (simp_all add: seg_of_header_def h)
  ultimately show ?thesis by blast
qed

lemma recv_single:
  assumes "transport_ok k" "k_rcv_queue k = [seg]" "sg_frg seg = 0" "sint (sg_len seg) = int (length (sg_data seg))"
    and "int (length (sg_data seg)) \<le> len"
  shows "\<exists>k'. ikcp_recv k len = Some (int (length (sg_data seg)), sg_data seg, k') \<and> transport_ok k' \<and>
    k_conv k' = k_conv k"
proof -
  have l: "0 \<le> len" using assms(5) by linarith
  obtain rc out k' where r: "ikcp_recv k len = Some (rc, out, k')" "transport_ok k'" "same_setup k k'"
    "rc < 0 \<longrightarrow> rc \<in> {-1, -2, -3} \<and> out = [] \<and> k' = k"
    "0 \<le> rc \<longrightarrow> rc = int (length out) \<and> out = message_bytes (first_message (k_rcv_queue k))"
    using transport_recv [OF assms(1) l] by blast
  have "ikcp_peeksize k = int (length (sg_data seg))" using assms by (simp add: ikcp_peeksize_def)
  then have nn: "rc \<noteq> -1" "rc \<noteq> -2" "rc \<noteq> -3"
    using r(1) assms l by (auto simp: ikcp_recv_def Let_def split: if_splits prod.splits)
  then have rc: "0 \<le> rc" using r(4) by fastforce
  have "message_bytes (first_message [seg]) = sg_data seg" using assms(3) by (simp add: message_bytes_def)
  moreover have "k_conv k' = k_conv k" using r(3) by (simp add: same_setup_def same_config_def)
  ultimately show ?thesis using r rc assms(2) by simp
qed

end
