(* ===== verification/Client_Properties.thy ===== *)
theory Client_Properties
  imports Client_Inv
begin

text \<open>The properties of the client, each with a concrete instance.\<close>

section \<open>The client as a sink of packets\<close>

definition cl_quiet :: "packet_header \<Rightarrow> bytes \<Rightarrow> bool" where
  "cl_quiet h d \<longleftrightarrow> cl_readable h d \<and> ph_Command h \<noteq> S2C_DISCONNECT"

definition cl_eff :: "packet_header \<Rightarrow> bytes \<Rightarrow> 'a kcp_client \<Rightarrow> 'a kcp_client" where
  "cl_eff h d c = snd (the (cl_ReadDataHandler h d c))"

lemma payload_conv: "4 \<le> length d \<Longrightarrow> \<exists>v. utils_decode32u d 0 = Some v"
  by (auto simp: utils_decode32u_def peek_def of_le32_def)

lemma data_handler_put:
  "cl_ReadDataHandler h d (cl_put r c) = map_option (\<lambda>(res, c'). (res, cl_put r c')) (cl_ReadDataHandler h d c)"
  if "ph_Command h \<noteq> S2C_DISCONNECT"
  using that
  by (cases c; cases "utils_decode32u d 0"; cases "cl_handler c"; cases "cl_response c")
    (simp_all add: cl_ReadDataHandler_def cl_accept_def cl_put_def cl_OnConnected_def cl_OnResponse_def Let_def
      split: prod.splits)

lemma quiet_handled: "cl_quiet h d \<Longrightarrow> \<exists>res c'. cl_ReadDataHandler h d c = Some (res, c')"
  using payload_conv [of d]
  by (auto simp: cl_quiet_def cl_readable_def cl_ReadDataHandler_def cl_accept_def Let_def split: option.splits prod.splits)

interpretation client_sink: packet_sink cl_reader cl_put cl_ReadDataHandler cl_on_error cl_eff cl_quiet
proof
  fix c :: "'a kcp_client" and r r' h d
  show "cl_reader (cl_put r c) = r" by (simp add: cl_put_def)
  show "cl_put r (cl_put r' c) = cl_put r c" by (simp add: cl_put_def)
  show "cl_put (cl_reader c) c = c" by (simp add: cl_put_def)
  assume q: "cl_quiet h d"
  obtain res c' where h: "cl_ReadDataHandler h d c = Some (res, c')" using quiet_handled [OF q] by blast
  then show "\<exists>res. cl_ReadDataHandler h d c = Some (res, cl_eff h d c) \<and>
      (res \<in> {RdOk, RdWaitingForQuery} \<or> (\<forall>t. cl_on_error t = Some t))"
    by (simp add: cl_eff_def cl_on_error_def)
  show "cl_eff h d (cl_put r c) = cl_put r (cl_eff h d c)"
    using q h data_handler_put [of h d r c] by (simp add: cl_eff_def cl_quiet_def)
qed

lemma client_reads:
  assumes "reader_clean (cl_reader c)"
    and "parse_stream (pending_bytes (cl_reader c) @ unread_bytes (cl_reader c)) = (ps, rest, True)"
    and "\<forall>(h, d) \<in> set ps. cl_quiet h d"
  shows "\<exists>r. cl_ReadHandler c = Some (cl_put r (fold (\<lambda>(h, d) c. snd (the (cl_ReadDataHandler h d c))) ps c)) \<and>
    reader_clean r \<and> unread_bytes r = [] \<and> pending_bytes r = rest"
proof -
  have "mb_ok (pr_read (cl_reader c))" using assms(1) by (simp add: reader_clean_def reader_ok_def)
  then have fuel: "length (unread_bytes (cl_reader c)) < read_fuel (cl_reader c)"
    using mb_active_size by (simp add: read_fuel_def unread_bytes_def)
  have "client_sink.run ps c = fold (\<lambda>(h, d) c. snd (the (cl_ReadDataHandler h d c))) ps c"
    unfolding client_sink.run_def by (simp add: cl_eff_def [abs_def])
  then show ?thesis using client_sink.reads_stream [OF assms fuel] by (simp add: cl_ReadHandler_def)
qed

text \<open>
  C11. Reassembly on the client: when the pending and the newly read bytes are a sequence of
  well-formed packets and a rest, each packet is handled once and in order, and exactly the
  rest stays pending, as long as no packet is a disconnect and every connection answer carries
  its four bytes.
\<close>

theorem client_dispatches:
  assumes "reader_clean (cl_reader c)"
    and "parse_stream (pending_bytes (cl_reader c) @ unread_bytes (cl_reader c)) = (ps, rest, True)"
    and "\<forall>(h, d) \<in> set ps. cl_quiet h d"
  shows "\<exists>r. cl_ReadHandler c = Some (cl_put r (fold (\<lambda>(h, d) c. snd (the (cl_ReadDataHandler h d c))) ps c)) \<and>
    reader_clean r \<and> unread_bytes r = [] \<and> pending_bytes r = rest"
  using assms by (rule client_reads)

section \<open>Updating\<close>

text \<open>
  C12. An update of the client is total unless the tick overflows an \<^verbatim>\<open>int\<close>: the transport and
  the reader stay well formed, and every datagram is the connect packet or one of at most the
  MTU whose conversation number is not zero.
\<close>

theorem client_update_safe:
  assumes "cl_env_ok env" and "client_ok c" and "cl_backlog c < 2 ^ 31"
    and "- (2 ^ 31) \<le> cl_tick c + diff" "cl_tick c + diff < 2 ^ 31"
  shows "\<exists>c' ds. cl_Update env diff c = Some (c', ds) \<and> client_ok c' \<and> cl_backlog c' \<le> cl_backlog c + 127 \<and>
    (\<forall>d \<in> set ds. d = connect_pack (ce_net env) \<or>
       length d \<le> unat (k_mtu (cl_kcp c)) \<and> utils_decode32u d 0 \<noteq> Some 0)"
proof -
  have add: "add_int32 (cl_tick c) diff = Some (cl_tick c + diff)" using assms(4,5) by (simp add: add_int32_def)
  note f = client_ok_fields
  consider "\<not> cl_alive c" "cl_tick c + diff \<ge> reconnectInterval" "cl_status c = status_code Connecting"
    | "\<not> cl_alive c" "\<not> (cl_status c = status_code Connecting \<and> cl_tick c + diff \<ge> reconnectInterval)" | "cl_alive c" by blast
  then show ?thesis
  proof cases
    case 1
    have ok: "client_ok (c\<lparr>cl_tick := cl_tick c + diff\<rparr>)" using assms(2) by (simp add: f)
    obtain c' ds where "cl_retry env (c\<lparr>cl_tick := cl_tick c + diff\<rparr>) = Some (c', ds)" "client_ok c'"
      "cl_backlog c' = cl_backlog (c\<lparr>cl_tick := cl_tick c + diff\<rparr>)" "set ds \<subseteq> {connect_pack (ce_net env)}"
      using cl_retry_ok [OF ok, of env] by blast
    then show ?thesis using 1 add by (auto simp: cl_Update_def cl_backlog_def)
  next
    case 2
    then show ?thesis using assms(2) add by (simp add: cl_Update_def cl_backlog_def f)
  next
    case 3
    let ?c = "c\<lparr>cl_tick := cl_tick c + diff, cl_timeouttick := cl_timeouttick c + word_of_int diff\<rparr>"
    have ok: "client_ok ?c" "client_ok (?c\<lparr>cl_tick := 0\<rparr>)" using assms(2) by (simp_all add: f)
    have bl: "cl_backlog (?c\<lparr>cl_tick := 0\<rparr>) < 2 ^ 31" using assms(3) by (simp add: cl_backlog_def)
    show ?thesis
    proof (cases "cl_timeouttick ?c \<ge> CLIENT_TIMEOUT_MS")
      case True
      then show ?thesis using 3 add ok by (simp add: cl_Update_def cl_backlog_def f)
    next
      case False
      let ?s = "if cl_tick c + diff > HEART_BEAT_INTERVAL then cl_SendHeartBeat env (?c\<lparr>cl_tick := 0\<rparr>) else Some (?c, [])"
      have "\<exists>c1 ds. ?s = Some (c1, ds) \<and> client_ok c1 \<and> cl_backlog c1 \<le> cl_backlog c + 127 \<and>
          k_mtu (cl_kcp c1) = k_mtu (cl_kcp c) \<and>
          (\<forall>d \<in> set ds. length d \<le> unat (k_mtu (cl_kcp c)) \<and> utils_decode32u d 0 \<noteq> Some 0)"
        using cl_Send_ok [OF assms(1) ok(2) bl, of "header_packet (ce_net env) 0 C2S_HEARTBEAT" False] ok(1)
        by (auto simp: cl_SendHeartBeat_def cl_backlog_def)
      then obtain c1 ds where s: "?s = Some (c1, ds)" "client_ok c1" "cl_backlog c1 \<le> cl_backlog c + 127"
          "k_mtu (cl_kcp c1) = k_mtu (cl_kcp c)"
          "\<forall>d \<in> set ds. length d \<le> unat (k_mtu (cl_kcp c)) \<and> utils_decode32u d 0 \<noteq> Some 0" by blast
      obtain c2 ds2 where u: "cl_flush_due (k_current (cl_kcp c1) + word_of_int diff) c1 = Some (c2, ds2)" "client_ok c2"
          "cl_backlog c2 \<le> cl_backlog c1"
          "\<forall>d \<in> set ds2. length d \<le> unat (k_mtu (cl_kcp c1)) \<and> utils_decode32u d 0 \<noteq> Some 0"
        using cl_flush_due_ok [OF s(2)] by blast
      have "cl_Update env diff c = Some (c2, ds @ ds2)"
        using 3 add False s(1) u(1) by (simp add: cl_Update_def Let_def)
      then show ?thesis using s u by auto
    qed
  qed
qed

section \<open>Connecting\<close>

fun cl_updates :: "client_env \<Rightarrow> int list \<Rightarrow> 'a kcp_client \<Rightarrow> 'a client_result" where
  "cl_updates env [] c = Some (c, [])"
| "cl_updates env (d # ds) c = do {
     (c, out) \<leftarrow> cl_Update env d c;
     (c, outs) \<leftarrow> cl_updates env ds c;
     Some (c, out @ outs)
   }"

lemma sint_small16: "n < 2 ^ 15 \<Longrightarrow> sint (of_nat n :: u16) = int n"
  by (simp add: signed_of_nat signed_take_bit_int_eq_self)

definition gave_up :: "'a kcp_client \<Rightarrow> 'a kcp_client \<Rightarrow> bool" where
  "gave_up c c' \<longleftrightarrow> cl_IsClosed c' \<and> \<not> cl_alive c' \<and> cl_timeout c' = cl_timeout c \<and> cl_locked c' = cl_locked c \<and>
     cl_tick c' = 0 \<and> cl_app c' = (case cl_response c of None \<Rightarrow> cl_app c | Some f \<Rightarrow> f CR_CONNECT_FAIL (cl_app c))"

lemma failed_gave_up:
  assumes "\<not> cl_alive c" "\<not> cl_locked c" "cl_status c = status_code Connecting" "cl_tick c = 0"
    and "sint (cl_timeout c) = 1000 * int n" "0 < n" "1000 \<le> d" "d < 2 ^ 31" and "int n \<le> sint (cl_retries c + 1)"
  shows "\<exists>c'. cl_Update env d c = Some (c', []) \<and> gave_up c c' \<and> cl_retries c' = cl_retries c + 1"
  using assms by (simp add: cl_Update_def add_int32_def cl_retry_def reconnectInterval_def cl_OnConnectFailed_def
      gave_up_def cl_IsClosed_def Let_def) (simp add: cl_OnResponse_def split: option.splits)


section \<open>The handshake\<close>

lemma accept_packet_conv: "utils_decode32u (drop 8 (accept_packet env v)) 0 = Some v"
  by (simp add: accept_packet_def utils_decode32u_def peek_def)

lemma parse_accept:
  "parse_stream (accept_packet env v) = ([(\<lparr>ph_Size = 4, ph_Command = S2C_ACCEPT_ACT\<rparr>, le32 v)], [], True)"
proof -
  let ?h = "\<lparr>ph_Size = 4, ph_Command = S2C_ACCEPT_ACT\<rparr>"
  have "header_of_bytes (header_packet env 4 S2C_ACCEPT_ACT) = Some ?h"
    using header_roundtrip [of "ne_pad env" ?h "[]"] by (simp add: header_packet_def)
  moreover have "header_valid ?h" by (simp add: header_valid_def IsValidSize_def IsValidOpcode_def S2C_ACCEPT_ACT_def)
  ultimately show ?thesis
    using parse_packet [of "header_packet env 4 S2C_ACCEPT_ACT" ?h "le32 v" "[]"] parse_short [of "[]"]
    by (simp add: accept_packet_def sizeof_PacketHeader_def)
qed

text \<open>What a fresh client has: an idle transport and an empty reader.\<close>

definition client_fresh :: "'a kcp_client \<Rightarrow> bool" where
  "client_fresh c \<longleftrightarrow> client_ok c \<and> k_rcv_queue (cl_kcp c) = [] \<and> k_rcv_buf (cl_kcp c) = [] \<and>
     k_rcv_nxt (cl_kcp c) = 0 \<and> cl_reader c = reader_new"

lemma reader_new_sel:
  "reader_clean (reader_new\<lparr>pr_read := rd\<rparr>)" "pending_bytes (reader_new\<lparr>pr_read := rd\<rparr>) = []"
  "mb_GetRemainingSpace (pr_read reader_new) = 4096" if "mb_ok rd"
proof -
  have r: "mb_GetRemainingSpace (mb_new sizeof_PacketHeader) > 0"
    by (simp add: mb_GetRemainingSpace_def mb_new_def size_sub_def sizeof_PacketHeader_def)
  show "reader_clean (reader_new\<lparr>pr_read := rd\<rparr>)" "pending_bytes (reader_new\<lparr>pr_read := rd\<rparr>) = []"
    using that r reader_ok_new by (simp_all add: reader_clean_def pending_bytes_def reader_ok_def)
      (simp_all add: reader_new_def mb_unread_def mb_new_def)
  show "mb_GetRemainingSpace (pr_read reader_new) = 4096"
    by (simp add: reader_new_def mb_GetRemainingSpace_def mb_new_def size_sub_def RECV_BUFFER_SIZE_def)
qed

text \<open>
  The handshake completes: the server's answer, a first segment whose conversation number
  the server has cleared and that carries the number of the new conversation, makes a fresh
  client of server 0 a connected one that uses this number and reports success once.
\<close>

theorem client_handshake:
  assumes "cl_env_ok env" and "client_fresh c" and "k_conv (cl_kcp c) = 0" and "v \<noteq> 0"
    and "sh_conv h = 0" "sh_cmd h = 81" "sh_frg h = 0" "sh_sn h = 0" "sh_len h = 12"
  shows "\<exists>c'. cl_OnReceive env (enc_header h @ accept_packet net v) c = Some c' \<and> cl_IsConnected c' \<and> cl_alive c' \<and>
    k_conv (cl_kcp c') = v \<and> cl_GetClientId c' = v \<and>
    cl_app c' = (case cl_response c of None \<Rightarrow> cl_app c | Some f \<Rightarrow> f CR_CONNECT_SUCCESS (cl_app c))"
proof -
  let ?d = "accept_packet net v" and ?malloc = "ne_malloc (ce_net env)"
  have malloc: "\<forall>n. ?malloc n" using assms(1) by (simp add: cl_env_ok_def)
  have f: "client_ok c" "k_rcv_queue (cl_kcp c) = []" "k_rcv_buf (cl_kcp c) = []" "k_rcv_nxt (cl_kcp c) = 0"
    "cl_reader c = reader_new" using assms(2) by (simp_all add: client_fresh_def)
  then have t: "transport_ok (cl_kcp c)" "\<not> cl_locked c" by (simp_all add: client_ok_def)
  obtain k1 seg where i: "ikcp_input ?malloc (cl_kcp c) (enc_header h @ ?d) = Some (0, k1)" "k_rcv_queue k1 = [seg]"
    "sg_frg seg = 0" "sg_data seg = ?d" "sg_len seg = sh_len h"
    using input_single_push [OF malloc t(1) f(2,3), of h ?d] assms(3-9) f(4) by auto
  have "length (enc_header h @ ?d) \<le> MAX_DGRAM" by (simp add: kcp_hdr.enc_width MAX_DGRAM_def)
  then have k1: "transport_ok k1" using transport_input [OF malloc t(1)] i(1) by fastforce
  have ln: "sint (sg_len seg) = int (length (sg_data seg))" using i(4,5) assms(9) by simp
  have rem: "mb_GetRemainingSpace (pr_read (cl_reader c)) = 4096"
    using reader_new_sel(3) [of "mb_new 0"] f(5) by simp
  obtain k2 where r: "ikcp_recv k1 4096 = Some (12, ?d, k2)" "transport_ok k2"
    using recv_single [OF k1 i(2,3) ln, of 4096] i(4) by auto
  have ok: "mb_ok (pr_read reader_new)" "mb_unread (pr_read reader_new) = []"
    using reader_ok_new by (simp_all add: reader_ok_def) (simp add: reader_new_def mb_new_def mb_unread_def)
  have room: "length ?d \<le> mb_GetRemainingSpace (pr_read reader_new)" using rem f(5) by simp
  obtain rd where w: "mb_Write ?d (pr_read reader_new) = Some rd" "mb_ok rd" "mb_unread rd = ?d"
    using mb_Write_Some [OF ok(1) room] ok(2) by auto
  let ?c = "c\<lparr>cl_kcp := k2, cl_reader := reader_new\<lparr>pr_read := rd\<rparr>\<rparr>"
  let ?h = "\<lparr>ph_Size = 4, ph_Command = S2C_ACCEPT_ACT\<rparr>"
  have e: "cl_OnReceive env (enc_header h @ ?d) c = cl_ReadHandler ?c"
    using t(2) i(1) r(1) rem w(1) f(5) by (simp add: cl_OnReceive_def)
  have "parse_stream (pending_bytes (cl_reader ?c) @ unread_bytes (cl_reader ?c)) = ([(?h, le32 v)], [], True)"
    using parse_accept reader_new_sel(2) [OF w(2)] w(3) by (simp add: unread_bytes_def)
  moreover have "\<forall>(h, d) \<in> set [(?h, le32 v)]. cl_quiet h d"
    by (simp add: cl_quiet_def cl_readable_def opcode_defs)
  moreover have "reader_clean (cl_reader ?c)" using reader_new_sel(1) [OF w(2)] by simp
  ultimately obtain r' where rh: "cl_ReadHandler ?c = Some (cl_put r' (snd (the (cl_ReadDataHandler ?h (le32 v) ?c))))"
    using client_reads [of ?c "[(?h, le32 v)]" "[]"] by auto
  have dec: "utils_decode32u (le32 v) 0 = Some v" by (simp add: utils_decode32u_def peek_def)
  have v: "0 < v" using assms(4) by (simp add: word_gt_0)
  have "cl_OnReceive env (enc_header h @ ?d) c = Some (cl_put r' (cl_OnConnected True
    (?c\<lparr>cl_id := \<lparr>sid_conv = v, sid_addr = cl_remote c\<rparr>, cl_kcp := k2\<lparr>k_conv := v\<rparr>\<rparr>)))"
    unfolding e rh using v by (simp add: cl_ReadDataHandler_def cl_accept_def dec)
  then show ?thesis
    by (cases "cl_response c") (simp_all add: cl_put_def cl_OnConnected_def cl_IsConnected_def cl_GetClientId_def)
qed

text \<open>
  Only clients of server 0 connect: the answer to a connect packet carries the conversation
  number 0, which the transport of a client of any other server refuses; the datagram changes
  nothing.
\<close>

theorem client_foreign_server:
  assumes "\<not> cl_locked c" and "k_rcv_queue (cl_kcp c) = []" and "k_conv (cl_kcp c) \<noteq> 0"
    and "sh_conv h = 0"
  shows "cl_OnReceive env (enc_header h @ data) c = Some c"
proof -
  have "ikcp_input malloc (cl_kcp c) (enc_header h @ data) = Some (-1, cl_kcp c)" for malloc
    using assms(3,4) by (simp add: ikcp_input_def kcp_hdr.enc_width kcp_hdr.dec_enc IKCP_OVERHEAD_def
        input_loop.simps [of malloc "cl_kcp c"])
  then show ?thesis using assms(1,2) by (simp add: cl_OnReceive_def ikcp_recv_def)
qed

section \<open>The read buffer\<close>

fun cl_receives :: "client_env \<Rightarrow> bytes list \<Rightarrow> 'a kcp_client \<Rightarrow> 'a kcp_client option" where
  "cl_receives env [] c = Some c"
| "cl_receives env (d # ds) c = Option.bind (cl_OnReceive env d c) (cl_receives env ds)"

text \<open>
  The client goes deaf: \<open>OnReceive\<close> never resets the read buffer, so when 4096 bytes have
  gone through it, no space remains; from then on no datagram reaches the application or the
  connection state, heartbeats and disconnects included.
\<close>

theorem client_goes_deaf:
  assumes "cl_env_ok env" and "client_ok c" and "mb_GetRemainingSpace (pr_read (cl_reader c)) = 0"
    and "\<forall>d \<in> set ds. length d \<le> MAX_DGRAM"
  shows "\<exists>k. cl_receives env ds c = Some (c\<lparr>cl_kcp := k\<rparr>) \<and> transport_ok k"
  using assms(2-4)
proof (induction ds arbitrary: c)
  case Nil
  then show ?case by (auto simp: client_ok_def intro!: exI [of _ "cl_kcp c"])
next
  case (Cons d ds)
  have malloc: "\<forall>n. ne_malloc (ce_net env) n" using assms(1) by (simp add: cl_env_ok_def)
  have t: "transport_ok (cl_kcp c)" "\<not> cl_locked c" using Cons.prems(1) by (simp_all add: client_ok_def)
  obtain rc k1 where i: "ikcp_input (ne_malloc (ce_net env)) (cl_kcp c) d = Some (rc, k1)" "transport_ok k1"
    using transport_input [OF malloc t(1), of d] Cons.prems(3) by auto
  obtain n out k2 where r: "ikcp_recv k1 0 = Some (n, out, k2)" "transport_ok k2" "0 \<le> n \<longrightarrow> n \<le> 0"
    using transport_recv [OF i(2), of 0] by auto
  let ?c = "c\<lparr>cl_kcp := k2\<rparr>"
  have "\<not> 0 < n" using r(3) by linarith
  then have "cl_OnReceive env d c = Some ?c" using t i r Cons.prems(2) by (simp add: cl_OnReceive_def)
  moreover have "\<exists>k. cl_receives env ds ?c = Some (?c\<lparr>cl_kcp := k\<rparr>) \<and> transport_ok k"
    using Cons.prems r(2) by (intro Cons.IH) (simp_all add: client_ok_def)
  ultimately show ?case by auto
qed

section \<open>Concrete instances\<close>

definition demo_sock :: csocket where
  "demo_sock = \<lparr>so_recvcb = False, so_readbuf = None, so_handle = 100, so_addr = sock_addr_new,
     so_sendaddr = sock_addr_new, so_remote = sock_addr_new, so_type = SOCKET_UDP, so_mode = SOCKET_ASYNC,
     so_connected = False, so_isserver = False, so_tasks = 0\<rparr>"

definition demo_cenv :: client_env where
  "demo_cenv = \<lparr>ce_net = \<lparr>ne_malloc = \<lambda>_. True, ne_tail = [], ne_pad = (0, 0)\<rparr>, ce_connect = 0\<rparr>"

definition demo_memory :: "nat list kcp_client" where
  "demo_memory = \<lparr>cl_handler = None, cl_response = None, cl_reader = reader_new, cl_remote = sock_addr_new,
     cl_id = \<lparr>sid_conv = 0, sid_addr = sock_addr_new\<rparr>, cl_kcp = the (ikcp_create (\<lambda>_. True) 288 0), cl_sock = demo_sock,
     cl_status = 0, cl_tick = 0, cl_lastsend = 0, cl_needtime = 0, cl_needupdate = False, cl_alive = False,
     cl_sid = 0, cl_recv = False, cl_timeout = 0, cl_retries = 0, cl_timeouttick = 0, cl_locked = False, cl_app = []\<rparr>"

lemma cl_new_ok:
  assumes "cl_env_ok env"
  shows "\<exists>c. cl_new env sock junk sid = Some c \<and> client_fresh c \<and> k_conv (cl_kcp c) = scast sid \<and> cl_backlog c = 0 \<and>
    cl_timeout c = 6000 \<and> cl_retries c = 0 \<and> cl_response c = None \<and> cl_alive c = cl_alive junk \<and>
    cl_status c = cl_status junk \<and> cl_tick c = cl_tick junk \<and> cl_app c = cl_app junk"
proof -
  obtain k where k: "ikcp_create (ne_malloc (ce_net env)) SIZEOF_IKCPCB (scast sid) = Some k"
    using assms by (simp add: ikcp_create_def cl_env_ok_def)
  let ?k = "tuned (ne_malloc (ce_net env)) 512 k"
  have e: "k_rcv_queue k = []" "k_rcv_buf k = []" "k_rcv_nxt k = 0"
    using k by (auto simp: ikcp_create_def split: if_splits)
  have q: "k_rcv_queue ?k = []" "k_rcv_buf ?k = []" "k_rcv_nxt ?k = 0"
    by (simp_all add: tuned_def ikcp_setoutput_def ikcp_wndsize_def ikcp_nodelay_def Let_def setmtu_sel e)
      (simp add: ikcp_setmtu_def e)
  note t = tuned_transport [OF k, of 512]
  have new: "cl_new env sock junk sid = Some (junk\<lparr>cl_sid := sid, cl_recv := False, cl_reader := reader_new, cl_timeout := 6000,
       cl_retries := 0, cl_handler := None, cl_response := None, cl_kcp := ?k, cl_locked := False,
       cl_sock := sock\<lparr>so_recvcb := True, so_mode := SOCKET_ASYNC\<rparr>\<rparr>)"
    using k by (simp add: cl_new_def tuned_def Let_def)
  then show ?thesis using t q reader_ok_new by (simp add: client_fresh_def client_ok_def cl_backlog_def)
qed

definition demo_client :: "nat list kcp_client" where
  "demo_client = (the (cl_new demo_cenv demo_sock demo_memory 0))\<lparr>cl_response := Some (\<lambda>r log. log @ [if r = CR_CONNECT_SUCCESS then 1 else 0]),
     cl_status := status_code Connecting\<rparr>"

lemma demo_cenv_ok: "cl_env_ok demo_cenv"
  by (simp add: cl_env_ok_def demo_cenv_def)

lemma demo_client_facts:
  "client_fresh demo_client" "k_conv (cl_kcp demo_client) = 0" "cl_backlog demo_client = 0" "\<not> cl_alive demo_client"
  "\<not> cl_locked demo_client" "cl_status demo_client = status_code Connecting" "cl_tick demo_client = 0"
  "cl_timeout demo_client = 6000" "cl_retries demo_client = 0" "cl_app demo_client = []" "client_ok demo_client"
  "cl_response demo_client = Some (\<lambda>r log. log @ [if r = CR_CONNECT_SUCCESS then 1 else 0])"
proof -
  obtain c where c: "cl_new demo_cenv demo_sock demo_memory 0 = Some c" "client_fresh c" "k_conv (cl_kcp c) = 0" "cl_backlog c = 0"
    "cl_timeout c = 6000" "cl_retries c = 0" "cl_alive c = cl_alive demo_memory" "cl_tick c = cl_tick demo_memory"
    "cl_app c = cl_app demo_memory"
    using cl_new_ok [OF demo_cenv_ok, of demo_sock demo_memory 0] by auto
  then show "client_fresh demo_client" "k_conv (cl_kcp demo_client) = 0" "cl_backlog demo_client = 0" "\<not> cl_alive demo_client"
    "\<not> cl_locked demo_client" "cl_status demo_client = status_code Connecting" "cl_tick demo_client = 0"
    "cl_timeout demo_client = 6000" "cl_retries demo_client = 0" "cl_app demo_client = []" "client_ok demo_client"
    "cl_response demo_client = Some (\<lambda>r log. log @ [if r = CR_CONNECT_SUCCESS then 1 else 0])"
    using reader_ok_new by (simp_all add: demo_client_def client_fresh_def client_ok_def cl_backlog_def) (simp_all add: demo_memory_def)
qed

lemma sint_6000: "sint (6000 :: u16) = 1000 * int 6"
  using sint_small16 [of 6000] by simp


theorem client_update_safe_witness:
  "\<exists>c' ds. cl_Update demo_cenv 20 demo_client = Some (c', ds) \<and> client_ok c'"
  using client_update_safe [OF demo_cenv_ok demo_client_facts(11), of 20] demo_client_facts by auto

definition demo_answer :: seg_header where
  "demo_answer = \<lparr>sh_conv = 0, sh_cmd = 81, sh_frg = 0, sh_wnd = 128, sh_ts = 10, sh_sn = 0, sh_una = 0, sh_len = 12\<rparr>"

theorem client_handshake_witness:
  "\<exists>c'. cl_OnReceive demo_cenv (enc_header demo_answer @ accept_packet (ce_net demo_cenv) 0x10000) demo_client = Some c' \<and>
     cl_GetClientId c' = 0x10000 \<and> cl_app c' = [1]"
  using client_handshake [OF demo_cenv_ok demo_client_facts(1,2), where v = "0x10000" and h = demo_answer and net = "ce_net demo_cenv"] demo_client_facts
  by (auto simp: demo_answer_def)

theorem client_foreign_server_witness:
  "cl_OnReceive demo_cenv (enc_header demo_answer @ [1, 2]) (the (cl_new demo_cenv demo_sock demo_memory 1)) =
     Some (the (cl_new demo_cenv demo_sock demo_memory 1))"
proof -
  obtain c where c: "cl_new demo_cenv demo_sock demo_memory 1 = Some c" "client_fresh c" "k_conv (cl_kcp c) = 1"
    using cl_new_ok [OF demo_cenv_ok, of demo_sock demo_memory 1] by auto
  then show ?thesis
    by (simp, intro client_foreign_server) (simp_all add: client_fresh_def client_ok_def demo_answer_def)
qed

definition full_client :: "nat list kcp_client" where
  "full_client = demo_client\<lparr>cl_reader := reader_new\<lparr>pr_read := \<lparr>wpos = 4096, rpos = 4096, storage = replicate 4096 0\<rparr>\<rparr>\<rparr>"

theorem client_goes_deaf_witness:
  "\<exists>k. cl_receives demo_cenv [[1, 2, 3], enc_header demo_answer @ accept_packet (ce_net demo_cenv) 0x10000] full_client =
     Some (full_client\<lparr>cl_kcp := k\<rparr>)"
proof -
  have "client_ok full_client"
    using demo_client_facts(11) reader_ok_new by (simp add: full_client_def client_ok_def reader_ok_def mb_ok_def)
  moreover have "mb_GetRemainingSpace (pr_read (cl_reader full_client)) = 0"
    by (simp add: full_client_def mb_GetRemainingSpace_def size_sub_def)
  ultimately show ?thesis
    using client_goes_deaf [OF demo_cenv_ok, of full_client "[[1, 2, 3], enc_header demo_answer @ accept_packet (ce_net demo_cenv) 0x10000]"]
    by (auto simp del: cl_receives.simps simp: MAX_DGRAM_def kcp_hdr.enc_width)
qed

theorem client_dispatches_witness:
  "\<exists>r. cl_ReadHandler (demo_client\<lparr>cl_reader := reader_new\<lparr>pr_read :=
       \<lparr>wpos = 12, rpos = 0, storage = accept_packet (ce_net demo_cenv) 7\<rparr>\<rparr>\<rparr>) = Some r \<and> cl_GetClientId r = 7"
proof -
  let ?rd = "\<lparr>wpos = 12, rpos = 0, storage = accept_packet (ce_net demo_cenv) 7\<rparr>"
  let ?c = "demo_client\<lparr>cl_reader := reader_new\<lparr>pr_read := ?rd\<rparr>\<rparr>"
  let ?h = "\<lparr>ph_Size = 4, ph_Command = S2C_ACCEPT_ACT\<rparr>"
  have ok: "mb_ok ?rd" "mb_unread ?rd = accept_packet (ce_net demo_cenv) 7" by (simp_all add: mb_ok_def mb_unread_def)
  have p: "parse_stream (pending_bytes (cl_reader ?c) @ unread_bytes (cl_reader ?c)) = ([(?h, le32 7)], [], True)"
    using parse_accept reader_new_sel(2) [OF ok(1)] ok(2) by (simp add: unread_bytes_def)
  have q: "\<forall>(h, d) \<in> set [(?h, le32 7)]. cl_quiet h d" by (simp add: cl_quiet_def cl_readable_def opcode_defs)
  have dec: "utils_decode32u (le32 7) 0 = Some 7" by (simp add: utils_decode32u_def peek_def)
  show ?thesis
    using client_dispatches [OF _ p q] reader_new_sel(1) [OF ok(1)]
    by (auto simp: cl_ReadDataHandler_def cl_accept_def dec cl_put_def cl_GetClientId_def cl_OnConnected_def)
qed

end
