(* ===== verification/Priority_List.thy ===== *)
theory Priority_List
  imports Prelude
begin

text \<open>
  \<^verbatim>\<open>Utinities/PriorityList.h\<close>: a singly linked list that keeps its elements by falling
  priority.  The nodes live in a store, because what the code does to the \<open>next\<close> pointers of
  a node that is in the list already is the point: a node is an address, its fields are
  \<open>pnode\<close>, and \<open>nullptr\<close> is \<open>None\<close>.  The loops follow the pointers, so they are partial:
  a walk on a cyclic list is \<open>None\<close>.
\<close>

section \<open>State\<close>

record pnode =
  pn_data :: nat
  pn_next :: "nat option"
  pn_priority :: int

record priority_list =
  pl_nodes :: "nat \<Rightarrow> pnode"
  pl_head :: "nat option"
  pl_wpos :: int
  pl_new :: nat

definition pl_empty :: priority_list where
  "pl_empty = \<lparr>pl_nodes = (\<lambda>_. \<lparr>pn_data = 0, pn_next = None, pn_priority = 0\<rparr>), pl_head = None, pl_wpos = 0, pl_new = 0\<rparr>"

section \<open>Adding\<close>

text \<open>\<open>a->insertAfter(b)\<close> reads \<open>a\<close>'s old successor.\<close>

definition insertAfter :: "nat \<Rightarrow> nat \<Rightarrow> (nat \<Rightarrow> pnode) \<Rightarrow> nat \<Rightarrow> pnode" where
  "insertAfter a b H =
     (let H = H(b := (H b)\<lparr>pn_next := pn_next (H a)\<rparr>) in H(a := (H a)\<lparr>pn_next := Some b\<rparr>))"

partial_function (option) add_walk :: "(nat \<Rightarrow> pnode) \<Rightarrow> int \<Rightarrow> nat option \<Rightarrow> nat \<Rightarrow> (nat option \<times> nat option) option" where
  "add_walk H p prev node =
     (if pn_priority (H node) \<ge> p then
        (case pn_next (H node) of
           None \<Rightarrow> Some (Some node, None)
         | Some n \<Rightarrow> add_walk H p (Some node) n)
      else Some (prev, Some node))"

text \<open>The second branch puts the element before the node where the walk stopped, the head.\<close>

definition pl_add_node :: "nat \<Rightarrow> priority_list \<Rightarrow> priority_list option" where
  "pl_add_node el l =
     (case pl_head l of
        None \<Rightarrow> Some (l\<lparr>pl_head := Some el, pl_wpos := pl_wpos l + 1\<rparr>)
      | Some h \<Rightarrow>
          (case add_walk (pl_nodes l) (pn_priority (pl_nodes l el)) None h of
             None \<Rightarrow> None
           | Some (Some prev, node) \<Rightarrow>
               Some (l\<lparr>pl_nodes := insertAfter prev el (pl_nodes l), pl_wpos := pl_wpos l + 1\<rparr>)
           | Some (None, Some node) \<Rightarrow>
               Some (l\<lparr>pl_head := Some el, pl_nodes := insertAfter el node (pl_nodes l), pl_wpos := pl_wpos l + 1\<rparr>)
           | Some (None, None) \<Rightarrow>
               Some (l\<lparr>pl_head := Some el, pl_wpos := pl_wpos l + 1\<rparr>)))"

definition pl_add :: "nat \<Rightarrow> int \<Rightarrow> priority_list \<Rightarrow> priority_list option" where
  "pl_add data priority l =
     pl_add_node (pl_new l)
       (l\<lparr>pl_nodes := (pl_nodes l)(pl_new l := \<lparr>pn_data = data, pn_next = None, pn_priority = priority\<rparr>),
          pl_new := pl_new l + 1\<rparr>)"

section \<open>Removing and searching\<close>

text \<open>The walk to a node that satisfies \<open>P\<close>: the node before it and the node, if there is one.\<close>

partial_function (option) find_walk :: "(nat \<Rightarrow> pnode) \<Rightarrow> (nat \<Rightarrow> bool) \<Rightarrow> nat option \<Rightarrow> nat option \<Rightarrow> (nat option \<times> nat option) option" where
  "find_walk H P prev node =
     (if node = None then Some (prev, None)
      else if P (the node) then Some (prev, node)
      else find_walk H P node (pn_next (H (the node))))"

text \<open>
  \<open>erase\<close> of the node \<open>p\<close>; a node that is not in the list is deleted as well, and counted.
  The walk leaves its loop with the last node as \<open>prev\<close>, whose successor is overwritten.
\<close>

definition pl_erase :: "nat \<Rightarrow> priority_list \<Rightarrow> (nat option \<times> priority_list) option" where
  "pl_erase p l =
     (case pl_head l of
        None \<Rightarrow> None
      | Some h \<Rightarrow>
          (case find_walk (pl_nodes l) (\<lambda>n. n = p) None (Some h) of
             None \<Rightarrow> None
           | Some (prev, node) \<Rightarrow>
               let next = pn_next (pl_nodes l p);
                   l = (case prev of
                          Some q \<Rightarrow> l\<lparr>pl_nodes := (pl_nodes l)(q := (pl_nodes l q)\<lparr>pn_next := next\<rparr>)\<rparr>
                        | None \<Rightarrow> (if node \<noteq> None then l\<lparr>pl_head := next\<rparr> else l))
               in Some (next, l\<lparr>pl_wpos := pl_wpos l - 1\<rparr>)))"

definition pl_ResetPriority :: "nat \<Rightarrow> int \<Rightarrow> priority_list \<Rightarrow> (bool \<times> priority_list) option" where
  "pl_ResetPriority data priority l =
     (if pl_wpos l \<le> 0 then Some (False, l)
      else case find_walk (pl_nodes l) (\<lambda>n. pn_data (pl_nodes l n) = data) None (pl_head l) of
        None \<Rightarrow> None
      | Some (prev, None) \<Rightarrow> Some (False, l)
      | Some (prev, Some n) \<Rightarrow>
          (if pn_priority (pl_nodes l n) = priority then Some (True, l)
           else
             let H = (pl_nodes l)(n := (pl_nodes l n)\<lparr>pn_priority := priority\<rparr>);
                 l = (if Some n = pl_head l then l\<lparr>pl_nodes := H, pl_head := pn_next (H n)\<rparr>
                      else case prev of
                        None \<Rightarrow> l\<lparr>pl_nodes := H\<rparr>
                      | Some q \<Rightarrow> l\<lparr>pl_nodes := H(q := (H q)\<lparr>pn_next := pn_next (H n)\<rparr>)\<rparr>)
             in map_option (\<lambda>l. (True, l)) (pl_add_node n (l\<lparr>pl_wpos := pl_wpos l - 1\<rparr>))))"

definition pl_remove :: "nat \<Rightarrow> priority_list \<Rightarrow> (bool \<times> priority_list) option" where
  "pl_remove data l =
     (if pl_wpos l \<le> 0 then Some (False, l)
      else case pl_head l of
        None \<Rightarrow> None
      | Some h \<Rightarrow>
          (case find_walk (pl_nodes l) (\<lambda>n. pn_data (pl_nodes l n) = data) None (Some h) of
             None \<Rightarrow> None
           | Some (prev, None) \<Rightarrow> Some (False, l)
           | Some (prev, Some n) \<Rightarrow>
               let next = pn_next (pl_nodes l n);
                   l = (case prev of
                          None \<Rightarrow> l\<lparr>pl_head := next\<rparr>
                        | Some q \<Rightarrow> l\<lparr>pl_nodes := (pl_nodes l)(q := (pl_nodes l q)\<lparr>pn_next := next\<rparr>)\<rparr>)
               in Some (True, l\<lparr>pl_wpos := pl_wpos l - 1\<rparr>)))"

partial_function (option) clear_walk :: "(nat \<Rightarrow> pnode) \<Rightarrow> nat option \<Rightarrow> nat list \<Rightarrow> nat list option" where
  "clear_walk H head freed =
     (if head = None then Some freed else clear_walk H (pn_next (H (the head))) (freed @ [the head]))"

definition pl_clear :: "priority_list \<Rightarrow> (nat list \<times> priority_list) option" where
  "pl_clear l = map_option (\<lambda>freed. (freed, l\<lparr>pl_head := None, pl_wpos := 0\<rparr>)) (clear_walk (pl_nodes l) (pl_head l) [])"

fun index_walk :: "(nat \<Rightarrow> pnode) \<Rightarrow> nat \<Rightarrow> nat \<Rightarrow> nat option" where
  "index_walk H 0 node = Some (pn_data (H node))"
| "index_walk H (Suc i) node = (case pn_next (H node) of None \<Rightarrow> None | Some n \<Rightarrow> index_walk H i n)"

text \<open>\<open>GetAtIndex\<close> returns a null pointer, the inner \<open>None\<close>, out of range; a null head in range is undefined.\<close>

definition pl_GetAtIndex :: "int \<Rightarrow> priority_list \<Rightarrow> nat option option" where
  "pl_GetAtIndex index l =
     (if 0 \<le> index \<and> index < pl_wpos l then
        (case pl_head l of None \<Rightarrow> None | Some h \<Rightarrow> Some (index_walk (pl_nodes l) (nat index) h))
      else Some None)"

definition pl_size :: "priority_list \<Rightarrow> int" where
  "pl_size l = pl_wpos l"

text \<open>A loop over the list with its iterators: the data of the nodes, in order.\<close>

partial_function (option) iterate :: "(nat \<Rightarrow> pnode) \<Rightarrow> nat option \<Rightarrow> nat list \<Rightarrow> nat list option" where
  "iterate H node seen =
     (if node = None then Some seen
      else iterate H (pn_next (H (the node))) (seen @ [pn_data (H (the node))]))"

definition pl_iterate :: "priority_list \<Rightarrow> nat list option" where
  "pl_iterate l = iterate (pl_nodes l) (pl_head l) []"

section \<open>Paths\<close>

text \<open>The nodes from pointer \<open>p\<close> up to pointer \<open>q\<close>; a path ends at the null pointer.\<close>

fun seg :: "(nat \<Rightarrow> pnode) \<Rightarrow> nat option \<Rightarrow> nat list \<Rightarrow> nat option \<Rightarrow> bool" where
  "seg H p [] q = (p = q)"
| "seg H p (n # ns) q = (p = Some n \<and> seg H (pn_next (H n)) ns q)"

abbreviation path :: "(nat \<Rightarrow> pnode) \<Rightarrow> nat option \<Rightarrow> nat list \<Rightarrow> bool" where
  "path H p ns \<equiv> seg H p ns None"

lemma seg_append: "seg H p (xs @ ys) q \<longleftrightarrow> (\<exists>r. seg H p xs r \<and> seg H r ys q)"
  by (induction xs arbitrary: p) auto

lemma seg_upd [simp]: "x \<notin> set ns \<Longrightarrow> seg (H(x := v)) p ns q = seg H p ns q"
  by (induction ns arbitrary: p) auto

lemma seg_same: "(\<And>n. n \<in> set ns \<Longrightarrow> pn_next (H' n) = pn_next (H n)) \<Longrightarrow> seg H' p ns q = seg H p ns q"
  by (induction ns arbitrary: p) auto

lemma path_unique: "path H p xs \<Longrightarrow> path H p ys \<Longrightarrow> xs = ys"
proof (induction xs arbitrary: p ys)
  case Nil then show ?case by (cases ys) auto
next
  case (Cons x xs) then show ?case by (cases ys) auto
qed

lemma path_distinct: "path H p ns \<Longrightarrow> distinct ns"
proof (induction ns arbitrary: p)
  case (Cons n ns)
  have "n \<notin> set ns"
  proof
    assume "n \<in> set ns"
    then obtain us vs where s: "ns = us @ n # vs" by (auto simp: in_set_conv_decomp)
    have "path H (Some n) (n # vs)" using Cons.prems s by (auto simp: seg_append)
    moreover have "path H (Some n) (n # ns)" using Cons.prems by auto
    ultimately have "vs = ns" using path_unique by blast
    then show False using s by (metis append_Cons append_same_eq append_Nil append_assoc list.distinct(1) append_is_Nil_conv)
  qed
  then show ?case using Cons by auto
qed simp

lemma iterate_path: "path H p ns \<Longrightarrow> iterate H p seen = Some (seen @ map (\<lambda>n. pn_data (H n)) ns)"
  by (induction ns arbitrary: p seen) (auto simp: iterate.simps)

lemma clear_path: "path H p ns \<Longrightarrow> clear_walk H p freed = Some (freed @ ns)"
  by (induction ns arbitrary: p freed) (auto simp: clear_walk.simps)

text \<open>A loop over the list that ends has followed a path.\<close>

lemma iterate_ends:
  assumes "iterate H p seen = Some r" shows "\<exists>ns. path H p ns"
proof (rule iterate.raw_induct [OF _ assms, of "\<lambda>H p seen r. \<exists>ns. path H p ns"])
  fix it H p seen r
  assume IH: "\<And>H p seen r. it H p seen = Some r \<Longrightarrow> \<exists>ns. path H p ns"
    and r: "(if p = None then Some seen else it H (pn_next (H (the p))) (seen @ [pn_data (H (the p))])) = Some r"
  show "\<exists>ns. path H p ns"
  proof (cases p)
    case (Some n)
    then have "it H (pn_next (H n)) (seen @ [pn_data (H n)]) = Some r" using r by simp
    then obtain ns where "path H (pn_next (H n)) ns" using IH by blast
    then have "path H p (n # ns)" using Some by simp
    then show ?thesis by blast
  next
    case None
    then have "path H p []" by simp
    then show ?thesis by blast
  qed
qed

lemma find_hit:
  "seg H p us (Some n) \<Longrightarrow> \<forall>a \<in> set us. \<not> P a \<Longrightarrow> P n \<Longrightarrow>
    find_walk H P prev p = Some (if us = [] then prev else Some (last us), Some n)"
  by (induction us arbitrary: p prev) (auto simp: find_walk.simps)

lemma find_miss:
  "path H p ns \<Longrightarrow> \<forall>a \<in> set ns. \<not> P a \<Longrightarrow>
    find_walk H P prev p = Some (if ns = [] then prev else Some (last ns), None)"
  by (induction ns arbitrary: p prev) (auto simp: find_walk.simps)

text \<open>The walk of \<open>add\<close>: past every node of at least the priority.\<close>

lemma add_walk_path:
  "path H (Some n) (us @ vs) \<Longrightarrow> us @ vs \<noteq> [] \<Longrightarrow> \<forall>a \<in> set us. pn_priority (H a) \<ge> p \<Longrightarrow>
    (vs \<noteq> [] \<longrightarrow> pn_priority (H (hd vs)) < p) \<Longrightarrow>
    add_walk H p prev n = Some (if us = [] then prev else Some (last us), if vs = [] then None else Some (hd vs))"
proof (induction us arbitrary: n prev)
  case Nil
  then show ?case by (cases vs) (auto simp: add_walk.simps)
next
  case (Cons a us)
  then have a: "a = n" "pn_priority (H n) \<ge> p" "path H (pn_next (H n)) (us @ vs)" by auto
  show ?case
  proof (cases "us @ vs")
    case Nil
    then show ?thesis using a by (simp add: add_walk.simps)
  next
    case (Cons m ms)
    then have "pn_next (H n) = Some m" using a(3) by auto
    then show ?thesis using Cons.IH [of m "Some n"] Cons.prems a Cons by (simp add: add_walk.simps)
  qed
qed

section \<open>Well-formed lists\<close>

text \<open>The nodes of a list in order, with the count and the allocation that belong to them.\<close>

definition pl_ok :: "priority_list \<Rightarrow> nat list \<Rightarrow> bool" where
  "pl_ok l ns \<longleftrightarrow> path (pl_nodes l) (pl_head l) ns \<and> pl_wpos l = int (length ns) \<and> (\<forall>n \<in> set ns. n < pl_new l) \<and>
     sorted_wrt (\<lambda>a b. pn_priority (pl_nodes l a) \<ge> pn_priority (pl_nodes l b)) ns"

lemma pl_ok_empty: "pl_ok pl_empty []"
  by (simp add: pl_ok_def pl_empty_def)

lemma pl_ok_iterate: "pl_ok l ns \<Longrightarrow> pl_iterate l = Some (map (\<lambda>n. pn_data (pl_nodes l n)) ns)"
  using iterate_path [of "pl_nodes l" "pl_head l" ns "[]"] by (simp add: pl_ok_def pl_iterate_def)

lemma pl_ok_head: "pl_ok l (n # ns) \<Longrightarrow> pl_head l = Some n"
  by (simp add: pl_ok_def)

text \<open>Insertion after the node where the walk stopped.\<close>

lemma insert_after_path:
  assumes "path H p (us @ x # vs)" "el \<notin> set (us @ x # vs)"
  shows "path (insertAfter x el H) p (us @ x # el # vs)"
proof -
  have d: "distinct (us @ x # vs)" using assms(1) by (rule path_distinct)
  obtain r where r: "seg H p us (Some x)" "pn_next (H x) = r" "path H r vs"
    using assms(1) by (auto simp: seg_append)
  have "seg (insertAfter x el H) p us (Some x)" "path (insertAfter x el H) r vs"
    using r d assms(2) by (auto simp: insertAfter_def Let_def)
  then show ?thesis using r(2) d assms(2) by (auto simp: seg_append insertAfter_def Let_def)
qed

lemma insertAfter_sel [simp]:
  "pn_data (insertAfter a b H n) = pn_data (H n)" "pn_priority (insertAfter a b H n) = pn_priority (H n)"
  by (simp_all add: insertAfter_def Let_def)

lemma pl_add_node_sorted:
  assumes "pl_ok l (us @ vs)" "el \<notin> set (us @ vs)" "el < pl_new l"
    and "us \<noteq> [] \<or> us @ vs = []" "\<forall>a \<in> set us. pn_priority (pl_nodes l a) \<ge> pn_priority (pl_nodes l el)"
    and "\<forall>b \<in> set vs. pn_priority (pl_nodes l b) < pn_priority (pl_nodes l el)"
    and "us @ vs = [] \<Longrightarrow> pn_next (pl_nodes l el) = None"
  shows "\<exists>l'. pl_add_node el l = Some l' \<and> pl_ok l' (us @ el # vs) \<and> pl_new l' = pl_new l \<and>
    (\<forall>n. pn_data (pl_nodes l' n) = pn_data (pl_nodes l n) \<and> pn_priority (pl_nodes l' n) = pn_priority (pl_nodes l n))"
proof (cases "us = []")
  case True
  then have "us @ vs = []" using assms(4) by simp
  then show ?thesis using assms(1,3,7) by (simp add: pl_add_node_def pl_ok_def)
next
  case False
  then obtain ws x where us: "us = ws @ [x]" by (cases us rule: rev_cases) auto
  obtain h where h: "pl_head l = Some h" using assms(1) False by (cases us) (auto simp: pl_ok_def)
  have p: "path (pl_nodes l) (Some h) (us @ vs)" using assms(1) h by (simp add: pl_ok_def)
  have w: "add_walk (pl_nodes l) (pn_priority (pl_nodes l el)) None h = Some (Some x, if vs = [] then None else Some (hd vs))"
    using add_walk_path [OF p _ assms(5)] assms(6) us by (cases vs) auto
  have p': "path (insertAfter x el (pl_nodes l)) (pl_head l) (us @ el # vs)"
    using insert_after_path [of "pl_nodes l" "Some h" ws x vs el] p us h assms(2) by simp
  have "sorted_wrt (\<lambda>a b. pn_priority (pl_nodes l a) \<ge> pn_priority (pl_nodes l b)) (us @ el # vs)"
    using assms(1,5,6) by (auto simp: pl_ok_def sorted_wrt_append less_imp_le)
  then show ?thesis using h w p' assms(1,3) us
    by (simp add: pl_add_node_def) (auto simp: pl_ok_def)
qed

section \<open>Properties\<close>

lemma fresh_node_new: "pl_ok l ns \<Longrightarrow> pl_new l \<notin> set ns"
  by (auto simp: pl_ok_def)

lemma fresh_node_ok:
  fixes nd
  assumes "pl_ok l ns"
  defines "l' \<equiv> l\<lparr>pl_nodes := (pl_nodes l)(pl_new l := nd), pl_new := pl_new l + 1\<rparr>"
  shows "pl_ok l' ns" "\<forall>n \<in> set ns. pl_nodes l' n = pl_nodes l n"
proof -
  note n = fresh_node_new [OF assms(1)]
  then show e: "\<forall>n \<in> set ns. pl_nodes l' n = pl_nodes l n" by (auto simp: l'_def)
  have "sorted_wrt (\<lambda>a b. pn_priority (pl_nodes l' a) \<ge> pn_priority (pl_nodes l' b)) ns"
    using assms(1) e by (auto simp: pl_ok_def intro: sorted_wrt_mono_rel [rotated])
  then show "pl_ok l' ns" using assms(1) n by (auto simp: pl_ok_def l'_def)
qed


lemma add_head_drops:
  assumes "pl_ok l (h # ns)" and "pn_priority (pl_nodes l h) < p"
  shows "\<exists>l'. pl_add d p l = Some l' \<and> pl_iterate l' = Some [d, pn_data (pl_nodes l h)] \<and>
    pl_size l' = int (length ns) + 2"
proof -
  note f = fresh_node_ok(1) [OF assms(1), of "\<lparr>pn_data = d, pn_next = None, pn_priority = p\<rparr>"] fresh_node_new [OF assms(1)]
  have w: "add_walk ((pl_nodes l)(pl_new l := \<lparr>pn_data = d, pn_next = None, pn_priority = p\<rparr>)) p None h = Some (None, Some h)"
    using f(2) assms(2) by (simp add: add_walk.simps)
  have hd: "pl_head l = Some h" using assms(1) by (rule pl_ok_head)
  let ?K = "insertAfter (pl_new l) h ((pl_nodes l)(pl_new l := \<lparr>pn_data = d, pn_next = None, pn_priority = p\<rparr>))"
  have "path ?K (Some (pl_new l)) [pl_new l, h]" using f(2) by (simp add: insertAfter_def Let_def)
  then have "iterate ?K (Some (pl_new l)) [] = Some [d, pn_data (pl_nodes l h)]"
    using f(2) iterate_path [of ?K "Some (pl_new l)" "[pl_new l, h]" "[]"] by simp
  then show ?thesis using w hd f(2) assms(1)
    by (simp add: pl_add_def pl_add_node_def pl_iterate_def pl_size_def) (simp add: pl_ok_def)
qed

text \<open>
  An element of a higher priority than the head takes the rest of the list with it: the
  successor of the old head is overwritten with that of the new node, a null pointer, so all
  that is left are the new element and the old head, while the count says otherwise.
\<close>

theorem priority_add_head_drops:
  assumes "pl_ok l (h # ns)" and "pn_priority (pl_nodes l h) < p"
  shows "\<exists>l'. pl_add d p l = Some l' \<and> pl_iterate l' = Some [d, pn_data (pl_nodes l h)] \<and>
    pl_size l' = int (length ns) + 2"
  using assms by (rule add_head_drops)

text \<open>
  A new priority that keeps the head at the head of a list of two or more ties the list into
  a loop: \<open>ResetPriority\<close> reports success, the second node is its own successor from then on,
  and a loop over the list never ends.
\<close>

theorem priority_reset_cycle:
  assumes "pl_ok l (a # b # ns)" and "pn_data (pl_nodes l a) = d" and "p \<noteq> pn_priority (pl_nodes l a)"
    and "p > pn_priority (pl_nodes l b)"
  shows "\<exists>l'. pl_ResetPriority d p l = Some (True, l') \<and> pn_next (pl_nodes l' b) = Some b \<and> pl_iterate l' = None"
proof -
  let ?H = "(pl_nodes l)(a := (pl_nodes l a)\<lparr>pn_priority := p\<rparr>)"
  have pth: "path (pl_nodes l) (Some a) (a # b # ns)" and hd: "pl_head l = Some a" and n: "pl_wpos l > 0"
    using assms(1) by (auto simp: pl_ok_def)
  have ab: "a \<noteq> b" using path_distinct [OF pth] by simp
  have nx: "pn_next (pl_nodes l a) = Some b" using pth by simp
  have fw: "find_walk (pl_nodes l) (\<lambda>n. pn_data (pl_nodes l n) = d) None (Some a) = Some (None, Some a)"
    using assms(2) by (simp add: find_walk.simps)
  have w: "add_walk ?H p None b = Some (None, Some b)" using assms(4) ab by (simp add: add_walk.simps)
  let ?K = "insertAfter a b ?H"
  let ?l = "l\<lparr>pl_nodes := ?K, pl_head := Some a, pl_wpos := pl_wpos l\<rparr>"
  have res: "pl_ResetPriority d p l = Some (True, ?l)"
    using n fw hd assms(3) nx w by (cases l) (simp add: pl_ResetPriority_def pl_add_node_def)
  obtain K where K: "K = ?K" by simp
  have k: "pn_next (K b) = Some b" "pn_next (K a) = Some b" using ab nx by (simp_all add: K insertAfter_def Let_def)
  have no: "\<not> path K (Some b) ns" for ns by (induction ns) (auto simp: k)
  have "\<not> path K (Some a) ns" for ns using no by (cases ns) (auto simp: k)
  then have "iterate K (Some a) [] = None" using iterate_ends [of K "Some a" "[]"] by (cases "iterate K (Some a) []") auto
  then show ?thesis using res k(1) by (simp add: pl_iterate_def K)
qed

definition demo_list :: priority_list where
  "demo_list = \<lparr>pl_nodes = (\<lambda>_. \<lparr>pn_data = 0, pn_next = None, pn_priority = 0\<rparr>)
     (0 := \<lparr>pn_data = 10, pn_next = Some 1, pn_priority = 5\<rparr>, 1 := \<lparr>pn_data = 11, pn_next = None, pn_priority = 2\<rparr>),
     pl_head = Some 0, pl_wpos = 2, pl_new = 2\<rparr>"

lemma demo_list_ok: "pl_ok demo_list [0, 1]"
  by (simp add: pl_ok_def demo_list_def)


theorem priority_add_head_drops_witness:
  "\<exists>l'. pl_add 12 9 demo_list = Some l' \<and> pl_iterate l' = Some [12, 10] \<and> pl_size l' = 3"
  using priority_add_head_drops [OF demo_list_ok, of 9 12] by (simp add: demo_list_def)

theorem priority_reset_cycle_witness:
  "\<exists>l'. pl_ResetPriority 10 3 demo_list = Some (True, l') \<and> pl_iterate l' = None"
  using priority_reset_cycle [OF demo_list_ok, of 10 3] by (auto simp: demo_list_def)

end
