(* ===== verification/Ecs_Component.thy ===== *)
theory Ecs_Component
  imports Prelude
begin

text \<open>
  \<^verbatim>\<open>ECS/IComponent.h\<close>, the components \<^verbatim>\<open>TimeComponents.h\<close>, \<^verbatim>\<open>StatusComponent.h\<close> and
  \<^verbatim>\<open>MovementComponent.h\<close>: an id and a word of flags (bit 0 dirty, bit 1 invalid, upper half
  catalog).  A derived class is an extension of the record, so what is defined on \<open>icomponent\<close>
  serves all of them.  \<open>elem_ops\<close> is what the storage needs of a component type: its copy
  constructor, its default constructor and its size.
\<close>

record icomponent =
  cm_id :: u32
  cm_flags :: u32

datatype component_catalog = MOVEMENT | STATUS | INTERVAL_TIMER

definition catalog_code :: "component_catalog \<Rightarrow> u16" where
  "catalog_code c = (case c of MOVEMENT \<Rightarrow> 0 | STATUS \<Rightarrow> 1 | INTERVAL_TIMER \<Rightarrow> 2)"

definition cm_IsDirty :: "'z icomponent_scheme \<Rightarrow> bool" where
  "cm_IsDirty c \<longleftrightarrow> cm_flags c AND 0x1 \<noteq> 0"

definition cm_GetCatalog :: "'z icomponent_scheme \<Rightarrow> u16" where
  "cm_GetCatalog c = ucast (drop_bit 16 (cm_flags c) AND 0x0000ffff)"

definition cm_SetInvalid :: "bool \<Rightarrow> 'z icomponent_scheme \<Rightarrow> 'z icomponent_scheme" where
  "cm_SetInvalid invalid c =
     (if invalid then c\<lparr>cm_flags := cm_flags c OR 0x2\<rparr> else c\<lparr>cm_flags := cm_flags c AND 0xfffffffd\<rparr>)"

definition cm_GetInvalid :: "'z icomponent_scheme \<Rightarrow> bool" where
  "cm_GetInvalid c \<longleftrightarrow> cm_flags c AND 0x00000002 \<noteq> 0"

definition cm_eq :: "'z icomponent_scheme \<Rightarrow> 'z icomponent_scheme \<Rightarrow> bool" where
  "cm_eq a b \<longleftrightarrow> cm_id a = cm_id b"

definition cm_SetDirty :: "bool \<Rightarrow> 'z icomponent_scheme \<Rightarrow> 'z icomponent_scheme" where
  "cm_SetDirty dirty c =
     (if dirty then c\<lparr>cm_flags := cm_flags c OR 1\<rparr> else c\<lparr>cm_flags := cm_flags c AND 0xfffffffe\<rparr>)"

text \<open>The catalog is only ever or-ed into the flags.\<close>

definition cm_SetCatalog :: "component_catalog \<Rightarrow> 'z icomponent_scheme \<Rightarrow> 'z icomponent_scheme" where
  "cm_SetCatalog cat c =
     c\<lparr>cm_flags := cm_flags c OR (push_bit 16 (ucast (catalog_code cat)) AND 0xffff0000)\<rparr>"

text \<open>The constructor and the copy constructor of the base: \<open>target\<close> is the memory they run on.\<close>

definition cm_init :: "u32 \<Rightarrow> 'z icomponent_scheme \<Rightarrow> 'z icomponent_scheme" where
  "cm_init i target = target\<lparr>cm_id := i, cm_flags := 1\<rparr>"

definition cm_copy :: "'z icomponent_scheme \<Rightarrow> 'z icomponent_scheme \<Rightarrow> 'z icomponent_scheme" where
  "cm_copy copy target = target\<lparr>cm_id := cm_id copy, cm_flags := cm_flags copy\<rparr>"

section \<open>The component types\<close>

type_synonym movement_component = icomponent

record status_component = icomponent +
  sc_status :: u32

record interval_timer = icomponent +
  it_interval :: int
  it_current :: int

definition movement_new :: "u32 \<Rightarrow> movement_component" where
  "movement_new i = cm_SetCatalog MOVEMENT \<lparr>cm_id = i, cm_flags = 1\<rparr>"

definition movement_copy :: "movement_component \<Rightarrow> movement_component" where
  "movement_copy c = cm_copy c \<lparr>cm_id = 0, cm_flags = 0\<rparr>"

text \<open>Neither constructor of a status component initialises its status.\<close>

definition status_new :: "u32 \<Rightarrow> u32 \<Rightarrow> status_component" where
  "status_new junk i = cm_SetCatalog STATUS (cm_init i \<lparr>cm_id = 0, cm_flags = 0, sc_status = junk\<rparr>)"

definition status_copy :: "u32 \<Rightarrow> status_component \<Rightarrow> status_component" where
  "status_copy junk c = cm_copy c \<lparr>cm_id = 0, cm_flags = 0, sc_status = junk\<rparr>"

definition timer_new :: "u32 \<Rightarrow> interval_timer" where
  "timer_new i = cm_SetCatalog INTERVAL_TIMER
     (cm_init i \<lparr>cm_id = 0, cm_flags = 0, it_interval = 0, it_current = 0\<rparr>)"

definition timer_new_default :: "int \<Rightarrow> int \<Rightarrow> interval_timer" where
  "timer_new_default junk1 junk2 = cm_SetCatalog INTERVAL_TIMER
     (cm_init 0 \<lparr>cm_id = 0, cm_flags = 0, it_interval = junk1, it_current = junk2\<rparr>)"

definition timer_copy :: "interval_timer \<Rightarrow> interval_timer" where
  "timer_copy it = cm_SetCatalog INTERVAL_TIMER
     (cm_copy it \<lparr>cm_id = 0, cm_flags = 0, it_interval = it_interval it, it_current = it_current it\<rparr>)"

definition timer_Passed :: "interval_timer \<Rightarrow> bool" where
  "timer_Passed t \<longleftrightarrow> it_current t \<ge> it_interval t"

text \<open>\<open>%\<close> by a zero interval is undefined.\<close>

definition timer_Reset :: "interval_timer \<Rightarrow> interval_timer option" where
  "timer_Reset t =
     (if it_current t \<ge> it_interval t then
        (if it_interval t = 0 then None
         else Some (cm_SetDirty True (t\<lparr>it_current := it_current t smod it_interval t\<rparr>)))
      else Some (cm_SetDirty True t))"

section \<open>The flags are independent\<close>

lemma flag_bits:
  "(v OR 2) AND 2 \<noteq> (0 :: u32)" "(v AND 0xfffffffd) AND 2 = (0 :: u32)"
  "(v OR 2) AND 1 = v AND (1 :: u32)" "(v AND 0xfffffffd) AND 1 = v AND (1 :: u32)"
  "(v OR 1) AND 2 = v AND (2 :: u32)" "(v AND 0xfffffffe) AND 2 = v AND (2 :: u32)"
  "(v OR 1) AND 1 \<noteq> (0 :: u32)" "(v AND 0xfffffffe) AND 1 = (0 :: u32)"
  by (simp_all add: bit.conj_disj_distrib2 and.assoc)

lemma invalid_simps [simp]:
  "cm_GetInvalid (cm_SetInvalid b c) = b" "cm_IsDirty (cm_SetInvalid b c) = cm_IsDirty c" "cm_id (cm_SetInvalid b c) = cm_id c"
  "cm_GetInvalid (cm_SetDirty d c) = cm_GetInvalid c" "cm_IsDirty (cm_SetDirty d c) = d" "cm_id (cm_SetDirty d c) = cm_id c"
  by (auto simp: cm_GetInvalid_def cm_SetInvalid_def cm_IsDirty_def cm_SetDirty_def flag_bits)

lemma catalog_simps [simp]:
  "cm_GetInvalid (cm_SetCatalog cat c) = cm_GetInvalid c" "cm_id (cm_SetCatalog cat c) = cm_id c"
  "cm_IsDirty (cm_SetCatalog cat c) = cm_IsDirty c"
proof -
  have "(push_bit 16 w AND 0xffff0000) AND 2 = (0 :: u32)" "(push_bit 16 w AND 0xffff0000) AND 1 = (0 :: u32)" for w
    by (simp_all add: and.assoc)
  then show "cm_GetInvalid (cm_SetCatalog cat c) = cm_GetInvalid c" "cm_IsDirty (cm_SetCatalog cat c) = cm_IsDirty c"
    by (simp_all add: cm_GetInvalid_def cm_IsDirty_def cm_SetCatalog_def bit.conj_disj_distrib2)
qed (simp add: cm_SetCatalog_def)

section \<open>What the storage needs\<close>

record 'a elem_ops =
  eo_copy :: "'a \<Rightarrow> 'a"
  eo_fresh :: 'a
  eo_size :: nat

text \<open>A copy has the id and the validity of its original.\<close>

locale component_type =
  fixes ops :: "'z icomponent_scheme elem_ops"
  assumes copy_id: "cm_id (eo_copy ops c) = cm_id c"
    and copy_invalid: "cm_GetInvalid (eo_copy ops c) = cm_GetInvalid c"
    and size_pos: "0 < eo_size ops"

definition movement_ops :: "movement_component elem_ops" where
  "movement_ops = \<lparr>eo_copy = movement_copy, eo_fresh = movement_new 0, eo_size = 8\<rparr>"

definition status_ops :: "u32 \<Rightarrow> status_component elem_ops" where
  "status_ops junk = \<lparr>eo_copy = status_copy junk, eo_fresh = status_new junk 0, eo_size = 12\<rparr>"

definition timer_ops :: "int \<Rightarrow> int \<Rightarrow> interval_timer elem_ops" where
  "timer_ops j1 j2 = \<lparr>eo_copy = timer_copy, eo_fresh = timer_new_default j1 j2, eo_size = 24\<rparr>"

lemmas component_defs = movement_ops_def movement_copy_def movement_new_def status_ops_def status_copy_def status_new_def
  timer_ops_def timer_copy_def timer_new_default_def cm_copy_def cm_init_def

interpretation movement: component_type movement_ops
  by unfold_locales (simp_all add: component_defs cm_GetInvalid_def)

interpretation status: component_type "status_ops junk" for junk
  by unfold_locales (simp_all add: component_defs cm_GetInvalid_def)

interpretation timer: component_type "timer_ops j1 j2" for j1 j2
  by unfold_locales (simp_all add: component_defs, simp add: cm_GetInvalid_def)

end
