(* ===== verification/Stable_Array.thy ===== *)
theory Stable_Array
  imports Ecs_Component
begin

text \<open>
  \<^verbatim>\<open>ECS/StableArray.h\<close>: an array of components whose elements keep their addresses.  A removed
  element is marked invalid and its position goes on the stack \<open>st_free\<close>, from which \<open>Add\<close>
  takes the next place.  The address of an element is the block of memory \<open>st_block\<close> and its
  index; allocating storage takes a new block.  \<open>None\<close> is an access outside the elements, the
  failed assertion of \<open>resize\<close>, or an assignment to an element whose destructor ran.
  Memory does not run out.  The growth factors are the decimal fractions of the source
  (\<open>1.2f\<close> is the \<^verbatim>\<open>float\<close> 5033165 / 2 ^ 22); products below \<open>2 ^ 53\<close> are exact in \<^verbatim>\<open>double\<close>.
\<close>

section \<open>State\<close>

record 'a stable_array =
  st_data :: "'a list"
  st_block :: nat
  st_free :: "nat list"
  st_alloc :: nat
  st_dirty :: bool

definition MIN_ELEMENTS :: nat where "MIN_ELEMENTS = 32"
definition MIN_BYTES :: nat where "MIN_BYTES = 32"

abbreviation st_num :: "'a stable_array \<Rightarrow> nat" where
  "st_num a \<equiv> length (st_data a)"

section \<open>Operations\<close>

text \<open>\<open>realloc\<close> with the elements that the resized array keeps; the old block is freed.\<close>

definition sa_realloc :: "'a elem_ops \<Rightarrow> nat \<Rightarrow> 'a stable_array \<Rightarrow> 'a stable_array" where
  "sa_realloc ops oldNum a =
     a\<lparr>st_dirty := True, st_free := [], st_block := st_block a + 1,
       st_data := map (eo_copy ops) (take (min oldNum (st_alloc a)) (st_data a))\<rparr>"

definition min_size :: "'a elem_ops \<Rightarrow> nat" where
  "min_size ops = max MIN_ELEMENTS (MIN_BYTES div eo_size ops)"

definition grow_alloc :: "'a elem_ops \<Rightarrow> nat \<Rightarrow> nat \<Rightarrow> nat" where
  "grow_alloc ops num alloc =
     (if num < min_size ops then min_size ops
      else
        let bytes = alloc * eo_size ops;
            grown = (if bytes > 10000000 then alloc * 5033165 div 4194304
                     else if bytes > 400000 then alloc * 3 div 2
                     else if bytes > 64000 then alloc * 2
                     else alloc * 3)
        in max (num - alloc + grown) (min_size ops))"

definition sa_resize :: "'a elem_ops \<Rightarrow> nat \<Rightarrow> bool \<Rightarrow> 'a stable_array \<Rightarrow> 'a stable_array option" where
  "sa_resize ops n shrink a =
     (if \<not> n < 0xFFFFFFFF then None
      else if st_num a = n then Some a
      else
        let oldNum = st_num a;
            a = (if oldNum > n then a\<lparr>st_dirty := True, st_data := take n (st_data a)\<rparr> else a);
            a = (if n > st_alloc a then
                   (if st_alloc a = 0 then sa_realloc ops oldNum (a\<lparr>st_alloc := n\<rparr>)
                    else sa_realloc ops oldNum (a\<lparr>st_alloc := grow_alloc ops n (st_alloc a)\<rparr>))
                 else if n \<le> st_alloc a div 3 \<and> shrink \<and> n > min_size ops
                 then sa_realloc ops (min n oldNum) a
                 else a)
        in Some (a\<lparr>st_data := st_data a @ replicate (n - oldNum) (eo_fresh ops)\<rparr>))"

definition sa_init :: "'a elem_ops \<Rightarrow> nat \<Rightarrow> 'a stable_array \<Rightarrow> 'a stable_array option" where
  "sa_init ops n a =
     (let a = a\<lparr>st_data := [], st_alloc := 0\<rparr> in if n > 0 then sa_resize ops n True a else Some a)"

text \<open>The constructors; the flag \<open>dirty\<close> starts as it was in memory.\<close>

definition sa_new :: "'a elem_ops \<Rightarrow> bool \<Rightarrow> 'a stable_array" where
  "sa_new ops junk = \<lparr>st_data = [], st_block = 0, st_free = [], st_alloc = 0, st_dirty = junk\<rparr>"

definition sa_assign_data :: "'a list \<Rightarrow> 'a stable_array \<Rightarrow> 'a stable_array" where
  "sa_assign_data xs a = a\<lparr>st_data := xs @ drop (length xs) (st_data a)\<rparr>"

definition sa_new_copy :: "'a elem_ops \<Rightarrow> bool \<Rightarrow> 'a stable_array \<Rightarrow> 'a stable_array option" where
  "sa_new_copy ops junk other =
     map_option (sa_assign_data (st_data other)) (sa_init ops (st_num other) (sa_new ops junk))"

definition sa_new_single :: "'a elem_ops \<Rightarrow> bool \<Rightarrow> 'a \<Rightarrow> 'a stable_array option" where
  "sa_new_single ops junk v0 = map_option (sa_assign_data [v0]) (sa_init ops 1 (sa_new ops junk))"

definition sa_assign :: "'a elem_ops \<Rightarrow> 'a list \<Rightarrow> 'a stable_array \<Rightarrow> 'a stable_array option" where
  "sa_assign ops other a = map_option (sa_assign_data other) (sa_resize ops (length other) True a)"

text \<open>\<open>swap\<close> exchanges the storage, and neither the free positions nor the dirty flags.\<close>

definition sa_swap :: "'a stable_array \<Rightarrow> 'a stable_array \<Rightarrow> 'a stable_array \<times> 'a stable_array" where
  "sa_swap a b =
     (a\<lparr>st_data := st_data b, st_block := st_block b, st_alloc := st_alloc b\<rparr>,
      b\<lparr>st_data := st_data a, st_block := st_block a, st_alloc := st_alloc a\<rparr>)"

definition sa_clear :: "'a elem_ops \<Rightarrow> bool \<Rightarrow> 'a stable_array \<Rightarrow> 'a stable_array option" where
  "sa_clear ops shrink a = sa_resize ops 0 shrink a"

text \<open>\<open>size\<close> narrows a \<^verbatim>\<open>size_t\<close> difference to an \<^verbatim>\<open>int\<close>.\<close>

definition sa_size :: "'a stable_array \<Rightarrow> int" where
  "sa_size a = sint (word_of_int (int (st_num a) - int (length (st_free a))) :: u32)"

definition sa_flush :: "'a stable_array \<Rightarrow> 'a stable_array" where
  "sa_flush a = a\<lparr>st_dirty := False\<rparr>"

fun contains_below :: "'z icomponent_scheme \<Rightarrow> 'z icomponent_scheme list \<Rightarrow> nat \<Rightarrow> bool option" where
  "contains_below e xs 0 = Some False"
| "contains_below e [] (Suc n) = None"
| "contains_below e (x # xs) (Suc n) = (if cm_eq x e then Some True else contains_below e xs n)"

definition sa_contains :: "'z icomponent_scheme \<Rightarrow> 'z icomponent_scheme stable_array \<Rightarrow> bool option" where
  "sa_contains e a = contains_below e (st_data a) (nat (sa_size a))"

text \<open>\<open>find\<close> returns the index of the element, or that of \<open>end()\<close>.\<close>

fun sa_find :: "'z icomponent_scheme \<Rightarrow> 'z icomponent_scheme list \<Rightarrow> nat" where
  "sa_find e [] = 0"
| "sa_find e (x # xs) = (if cm_eq x e then 0 else Suc (sa_find e xs))"

fun sa_remove :: "nat \<Rightarrow> nat \<Rightarrow> 'z icomponent_scheme stable_array \<Rightarrow> 'z icomponent_scheme stable_array option" where
  "sa_remove pos 0 a = Some a"
| "sa_remove pos (Suc cnt) a =
     (if \<not> pos < st_num a then None
      else if \<not> cm_GetInvalid (st_data a ! pos) then
        sa_remove (Suc pos) cnt
          (a\<lparr>st_data := (st_data a)[pos := cm_SetInvalid True (st_data a ! pos)], st_free := st_free a @ [pos]\<rparr>)
      else sa_remove (Suc pos) cnt a)"

text \<open>
  \<open>Add\<close> returns the index of the new element.  \<open>inside\<close> tells whether the argument is itself an
  element of the array; it is copied first then when the array has to grow.
\<close>

definition sa_Add :: "'a elem_ops \<Rightarrow> bool \<Rightarrow> 'a \<Rightarrow> 'a stable_array \<Rightarrow> (nat \<times> 'a stable_array) option" where
  "sa_Add ops inside v a =
     (if length (st_free a) > 0 then
        let pos = last (st_free a); a = a\<lparr>st_free := butlast (st_free a)\<rparr> in
        (if pos < st_num a then Some (pos, a\<lparr>st_data := (st_data a)[pos := v]\<rparr>) else None)
      else if st_num a < st_alloc a then Some (st_num a, a\<lparr>st_data := st_data a @ [eo_copy ops v]\<rparr>)
      else
        let v = (if inside then eo_copy ops v else v); num = st_num a in
        map_option (\<lambda>a. (num, a\<lparr>st_data := (st_data a)[num := v]\<rparr>)) (sa_resize ops (num + 1) False a))"

section \<open>Invariant\<close>

text \<open>The stack of free positions holds every invalid element once and nothing else.\<close>

definition stable_inv :: "'z icomponent_scheme stable_array \<Rightarrow> bool" where
  "stable_inv a \<longleftrightarrow> distinct (st_free a) \<and> st_num a \<le> st_alloc a \<and>
     set (st_free a) = {i. i < st_num a \<and> cm_GetInvalid (st_data a ! i)}"

definition valid_elems :: "'z icomponent_scheme stable_array \<Rightarrow> 'z icomponent_scheme list" where
  "valid_elems a = filter (\<lambda>c. \<not> cm_GetInvalid c) (st_data a)"

lemma stable_inv_new: "stable_inv (sa_new ops junk)"
  by (simp add: stable_inv_def sa_new_def)

lemma stable_inv_alloc: "stable_inv a \<Longrightarrow> st_num a \<le> st_alloc a"
  by (simp add: stable_inv_def)

lemma count_invalid:
  assumes "stable_inv a" shows "length (valid_elems a) + length (st_free a) = st_num a"
proof -
  have "length (st_free a) = card {i. i < st_num a \<and> cm_GetInvalid (st_data a ! i)}"
    using assms distinct_card [of "st_free a"] by (simp add: stable_inv_def)
  also have "\<dots> = length (filter cm_GetInvalid (st_data a))" by (simp add: length_filter_conv_card)
  finally show ?thesis using sum_length_filter_compl [of cm_GetInvalid "st_data a"] by (simp add: valid_elems_def)
qed

lemma grow_alloc_ge:
  assumes "alloc < n" shows "n \<le> grow_alloc ops n alloc"
proof (cases "n < min_size ops")
  case False
  have "alloc \<le> alloc * 5033165 div 4194304" by (simp add: less_eq_div_iff_mult_less_eq)
  moreover have "alloc \<le> alloc * 3 div 2" by simp
  ultimately show ?thesis using False assms by (auto simp: grow_alloc_def Let_def)
qed (simp add: grow_alloc_def)

text \<open>Growing by one: the elements stay at their indices, in a new block, and the array is dirty.\<close>

lemma resize_grow:
  assumes "st_num a = st_alloc a" "st_free a = []" "st_num a + 1 < 0xFFFFFFFF"
  shows "\<exists>m. sa_resize ops (st_num a + 1) False a = Some (a\<lparr>st_dirty := True, st_block := st_block a + 1, st_alloc := m,
      st_data := map (eo_copy ops) (st_data a) @ [eo_fresh ops]\<rparr>) \<and> st_num a + 1 \<le> m"
proof -
  have g: "st_num a + 1 \<le> grow_alloc ops (st_num a + 1) (st_alloc a)" using grow_alloc_ge [of "st_alloc a" "st_num a + 1" ops] assms(1) by simp
  show ?thesis
  proof (cases "st_alloc a = 0")
    case True
    then show ?thesis using assms by (cases a) (simp add: sa_resize_def sa_realloc_def Let_def)
  next
    case False
    then show ?thesis using assms g
      by (intro exI [of _ "grow_alloc ops (st_num a + 1) (st_alloc a)"], cases a)
        (simp add: sa_resize_def sa_realloc_def Let_def)
  qed
qed

section \<open>Add and remove keep the invariant\<close>

context component_type
begin

lemma valid_of_copy: "filter (\<lambda>c. \<not> cm_GetInvalid c) (map (eo_copy ops) xs) = map (eo_copy ops) (filter (\<lambda>c. \<not> cm_GetInvalid c) xs)"
  by (induction xs) (simp_all add: copy_invalid)

lemma ids_of_copy: "map cm_id (map (eo_copy ops) xs) = map cm_id xs"
  by (simp add: copy_id)

end

lemma invalid_nth_Cons:
  "{i. i < length (x # xs) \<and> P ((x # xs) ! i)} = (if P x then {0} else {}) \<union> Suc ` {i. i < length xs \<and> P (xs ! i)}"
proof (intro equalityI subsetI)
  fix i assume "i \<in> {i. i < length (x # xs) \<and> P ((x # xs) ! i)}"
  then show "i \<in> (if P x then {0} else {}) \<union> Suc ` {i. i < length xs \<and> P (xs ! i)}"
    by (cases i) auto
qed (auto split: if_splits)

text \<open>One removed element.\<close>

definition invalidate :: "nat \<Rightarrow> 'z icomponent_scheme stable_array \<Rightarrow> 'z icomponent_scheme stable_array" where
  "invalidate pos a = a\<lparr>st_data := (st_data a)[pos := cm_SetInvalid True (st_data a ! pos)], st_free := st_free a @ [pos]\<rparr>"

lemma remove_one: "pos < st_num a \<Longrightarrow> sa_remove pos 1 a = Some (if cm_GetInvalid (st_data a ! pos) then a else invalidate pos a)"
  by (simp add: invalidate_def)

lemma invalidate_inv:
  assumes "stable_inv a" "pos < st_num a" "\<not> cm_GetInvalid (st_data a ! pos)"
  shows "stable_inv (invalidate pos a)"
  using assms by (auto simp: stable_inv_def invalidate_def nth_list_update)

definition invalidated :: "nat set \<Rightarrow> 'z icomponent_scheme list \<Rightarrow> 'z icomponent_scheme list \<Rightarrow> bool" where
  "invalidated R xs ys \<longleftrightarrow> length ys = length xs \<and>
     (\<forall>i < length xs. (i \<notin> R \<longrightarrow> ys ! i = xs ! i) \<and> cm_id (ys ! i) = cm_id (xs ! i) \<and>
        (cm_GetInvalid (ys ! i) \<longleftrightarrow> cm_GetInvalid (xs ! i) \<or> i \<in> R))"

lemma remove_inv:
  "stable_inv a \<Longrightarrow> pos + cnt \<le> st_num a \<Longrightarrow> \<exists>a'. sa_remove pos cnt a = Some a' \<and> stable_inv a' \<and>
    st_block a' = st_block a \<and> st_dirty a' = st_dirty a \<and> st_alloc a' = st_alloc a \<and>
    invalidated {pos..<pos + cnt} (st_data a) (st_data a')"
proof (induction cnt arbitrary: pos a)
  case 0
  then show ?case by (simp add: invalidated_def)
next
  case (Suc cnt)
  show ?case
  proof (cases "cm_GetInvalid (st_data a ! pos)")
    case True
    obtain a' where a': "sa_remove (Suc pos) cnt a = Some a'" "stable_inv a'" "st_block a' = st_block a" "st_dirty a' = st_dirty a"
      "st_alloc a' = st_alloc a" "invalidated {Suc pos..<Suc pos + cnt} (st_data a) (st_data a')"
      using Suc.IH [of a "Suc pos"] Suc.prems by auto
    have "invalidated {pos..<pos + Suc cnt} (st_data a) (st_data a')"
      unfolding invalidated_def
    proof (intro conjI allI impI)
      show "length (st_data a') = st_num a" using a'(6) by (simp add: invalidated_def)
      fix i assume i: "i < st_num a"
      have set: "i \<in> {pos..<pos + Suc cnt} \<longleftrightarrow> i = pos \<or> i \<in> {Suc pos..<Suc pos + cnt}" by auto
      show "i \<notin> {pos..<pos + Suc cnt} \<Longrightarrow> st_data a' ! i = st_data a ! i" "cm_id (st_data a' ! i) = cm_id (st_data a ! i)"
        "cm_GetInvalid (st_data a' ! i) \<longleftrightarrow> cm_GetInvalid (st_data a ! i) \<or> i \<in> {pos..<pos + Suc cnt}"
        using a'(6) i True unfolding set by (auto simp: invalidated_def)
    qed
    then show ?thesis using a' Suc.prems True by auto
  next
    case False
    let ?b = "invalidate pos a"
    have "stable_inv ?b" "Suc pos + cnt \<le> st_num ?b" using invalidate_inv [OF Suc.prems(1)] Suc.prems False
      by (simp_all add: invalidate_def)
    then obtain a' where a': "sa_remove (Suc pos) cnt ?b = Some a'" "stable_inv a'"
      "st_block a' = st_block ?b" "st_dirty a' = st_dirty ?b" "st_alloc a' = st_alloc ?b"
      "invalidated {Suc pos..<Suc pos + cnt} (st_data ?b) (st_data a')"
      using Suc.IH by blast
    have d: "st_data ?b ! i = (if i = pos then cm_SetInvalid True (st_data a ! i) else st_data a ! i)" if "i < st_num a" for i
      using that by (simp add: invalidate_def nth_list_update)
    have "sa_remove pos (Suc cnt) a = Some a'" using a'(1) Suc.prems False by (simp add: invalidate_def)
    moreover have "invalidated {pos..<pos + Suc cnt} (st_data a) (st_data a')"
      unfolding invalidated_def
    proof (intro conjI allI impI)
      show "length (st_data a') = st_num a" using a'(6) by (simp add: invalidated_def invalidate_def)
      fix i assume i: "i < st_num a"
      have set: "i \<in> {pos..<pos + Suc cnt} \<longleftrightarrow> i = pos \<or> i \<in> {Suc pos..<Suc pos + cnt}" by auto
      have i': "i < st_num ?b" using i by (simp add: invalidate_def)
      show "i \<notin> {pos..<pos + Suc cnt} \<Longrightarrow> st_data a' ! i = st_data a ! i" "cm_id (st_data a' ! i) = cm_id (st_data a ! i)"
        "cm_GetInvalid (st_data a' ! i) \<longleftrightarrow> cm_GetInvalid (st_data a ! i) \<or> i \<in> {pos..<pos + Suc cnt}"
        using a'(6) d [OF i] i' unfolding set by (auto simp: invalidated_def split: if_splits)
    qed
    ultimately show ?thesis using a'(2-5) by (simp add: invalidate_def)
  qed
qed

text \<open>
  What \<open>Add\<close> promises: one more valid element, at the index returned; every other valid element
  keeps its index, and its address too unless the array is dirty, and then it is a copy.
\<close>

definition added :: "'z icomponent_scheme elem_ops \<Rightarrow> 'z icomponent_scheme \<Rightarrow> nat \<Rightarrow>
    'z icomponent_scheme stable_array \<Rightarrow> 'z icomponent_scheme stable_array \<Rightarrow> bool" where
  "added ops v pos a a' \<longleftrightarrow> pos < st_num a' \<and> (st_data a' ! pos = v \<or> st_data a' ! pos = eo_copy ops v) \<and>
     (pos < st_num a \<longrightarrow> cm_GetInvalid (st_data a ! pos)) \<and>
     (\<forall>i < st_num a. i \<noteq> pos \<longrightarrow> st_data a' ! i = st_data a ! i \<and> st_block a' = st_block a \<or>
        st_data a' ! i = eo_copy ops (st_data a ! i) \<and> st_dirty a') \<and>
     (\<not> st_dirty a' \<longrightarrow> st_block a' = st_block a) \<and> st_num a \<le> st_num a' \<and> (\<forall>i < st_num a'. i \<noteq> pos \<longrightarrow> i < st_num a)"

lemma Add_inv:
  assumes ops: "component_type ops" and inv: "stable_inv a" and v: "\<not> cm_GetInvalid v" and room: "st_num a + 1 < 0xFFFFFFFF"
  shows "\<exists>pos a'. sa_Add ops inside v a = Some (pos, a') \<and> stable_inv a' \<and> added ops v pos a a'"
proof -
  note c = component_type.copy_invalid [OF ops]
  consider (free) "st_free a \<noteq> []" | (place) "st_free a = []" "st_num a < st_alloc a" | (grow) "st_free a = []" "st_num a = st_alloc a"
    using stable_inv_alloc [OF inv] by (cases "st_free a") (auto simp: le_less)
  then show ?thesis
  proof cases
    case free
    then obtain fs p where f: "st_free a = fs @ [p]" by (cases "st_free a" rule: rev_cases) auto
    have i: "distinct (fs @ [p])" "set (fs @ [p]) = {i. i < st_num a \<and> cm_GetInvalid (st_data a ! i)}" "st_num a \<le> st_alloc a"
      using inv f by (simp_all add: stable_inv_def)
    then have p: "p < st_num a" "cm_GetInvalid (st_data a ! p)" by auto
    have "set fs = {i. i < st_num a \<and> cm_GetInvalid (st_data a ! i)} - {p}" using i by auto
    then have "stable_inv (a\<lparr>st_free := fs, st_data := (st_data a)[p := v]\<rparr>)"
      using i p v by (auto simp: stable_inv_def nth_list_update)
    then show ?thesis using f p by (simp add: sa_Add_def added_def)
  next
    case place
    have "stable_inv (a\<lparr>st_data := st_data a @ [eo_copy ops v]\<rparr>)"
      using inv place v c by (auto simp: stable_inv_def nth_append less_Suc_eq)
    then show ?thesis using place by (simp add: sa_Add_def added_def nth_append)
  next
    case grow
    obtain m where m: "sa_resize ops (st_num a + 1) False a = Some (a\<lparr>st_dirty := True, st_block := st_block a + 1, st_alloc := m,
      st_data := map (eo_copy ops) (st_data a) @ [eo_fresh ops]\<rparr>)" "st_num a + 1 \<le> m"
      using resize_grow [OF grow(2,1) room] by blast
    have none: "\<not> cm_GetInvalid (st_data a ! i)" if "i < st_num a" for i using inv grow(1) that by (auto simp: stable_inv_def)
    obtain w where w: "w = (if inside then eo_copy ops v else v)" by simp
    then have nw: "\<not> cm_GetInvalid w" "w = v \<or> w = eo_copy ops v" using v c by auto
    have "stable_inv (a\<lparr>st_dirty := True, st_block := st_block a + 1, st_alloc := m, st_data := map (eo_copy ops) (st_data a) @ [w]\<rparr>)"
      using m(2) grow(1) none c nw(1) by (auto simp: stable_inv_def nth_append less_Suc_eq)
    moreover have upd: "(map (eo_copy ops) (st_data a) @ [z])[st_alloc a := x] = map (eo_copy ops) (st_data a) @ [x]" for z x
      using grow(2) list_update_length [of "map (eo_copy ops) (st_data a)" z "[]" x] by simp
    moreover have "sa_Add ops inside v a = Some (st_num a, a\<lparr>st_dirty := True, st_block := st_block a + 1, st_alloc := m,
        st_data := map (eo_copy ops) (st_data a) @ [w]\<rparr>)"
      using grow(1) m(1) upd less_irrefl [of "st_num a"] grow(2) by (simp add: sa_Add_def Let_def w)
    ultimately show ?thesis using nw(2) by (simp add: added_def nth_append)
  qed
qed

section \<open>Properties\<close>

lemma stable_add_facts:
  assumes "component_type ops" and "stable_inv a" and "\<not> cm_GetInvalid v" and "st_num a + 1 < 0xFFFFFFFF"
  shows "\<exists>pos a'. sa_Add ops inside v a = Some (pos, a') \<and> stable_inv a' \<and> pos < st_num a' \<and>
    cm_id (st_data a' ! pos) = cm_id v \<and> \<not> cm_GetInvalid (st_data a' ! pos) \<and>
    (\<forall>i < st_num a. \<not> cm_GetInvalid (st_data a ! i) \<longrightarrow> i \<noteq> pos \<and> i < st_num a' \<and>
       cm_id (st_data a' ! i) = cm_id (st_data a ! i) \<and> \<not> cm_GetInvalid (st_data a' ! i) \<and>
       (\<not> st_dirty a' \<longrightarrow> st_data a' ! i = st_data a ! i)) \<and>
    (\<not> st_dirty a' \<longrightarrow> st_block a' = st_block a)"
proof -
  note copy = component_type.copy_id [OF assms(1)] component_type.copy_invalid [OF assms(1)]
  obtain pos a' where a': "sa_Add ops inside v a = Some (pos, a')" "stable_inv a'" "added ops v pos a a'"
    using Add_inv [OF assms] by blast
  have "i \<noteq> pos \<and> i < st_num a' \<and> cm_id (st_data a' ! i) = cm_id (st_data a ! i) \<and> \<not> cm_GetInvalid (st_data a' ! i) \<and>
       (\<not> st_dirty a' \<longrightarrow> st_data a' ! i = st_data a ! i)" if i: "i < st_num a" "\<not> cm_GetInvalid (st_data a ! i)" for i
  proof -
    have "i \<noteq> pos" using a'(3) i by (auto simp: added_def)
    then show ?thesis using a'(3) i copy by (auto simp: added_def)
  qed
  moreover have "cm_id (st_data a' ! pos) = cm_id v" "\<not> cm_GetInvalid (st_data a' ! pos)"
    using a'(3) assms(3) copy by (auto simp: added_def)
  ultimately show ?thesis using a' by (auto simp: added_def)
qed

text \<open>
  C31. The array is stable: starting from its invariant, \<open>Add\<close> puts the component at a place of
  its own and reports its index, every other valid component stays at its index, and no
  component changes its address unless the array is dirty afterwards.
\<close>

theorem stable_add:
  assumes "component_type ops" and "stable_inv a" and "\<not> cm_GetInvalid v" and "st_num a + 1 < 0xFFFFFFFF"
  shows "\<exists>pos a'. sa_Add ops inside v a = Some (pos, a') \<and> stable_inv a' \<and> pos < st_num a' \<and>
    cm_id (st_data a' ! pos) = cm_id v \<and> \<not> cm_GetInvalid (st_data a' ! pos) \<and>
    (\<forall>i < st_num a. \<not> cm_GetInvalid (st_data a ! i) \<longrightarrow> i \<noteq> pos \<and> i < st_num a' \<and>
       cm_id (st_data a' ! i) = cm_id (st_data a ! i) \<and> \<not> cm_GetInvalid (st_data a' ! i) \<and>
       (\<not> st_dirty a' \<longrightarrow> st_data a' ! i = st_data a ! i)) \<and>
    (\<not> st_dirty a' \<longrightarrow> st_block a' = st_block a)"
  using assms by (rule stable_add_facts)

lemma sint_in_range: "- (2 ^ 31) \<le> k \<Longrightarrow> k < 2 ^ 31 \<Longrightarrow> sint (word_of_int k :: u32) = k"
  by (simp add: signed_of_int signed_take_bit_int_eq_self)

lemma small_size: "length (st_free a) \<le> st_num a \<Longrightarrow> st_num a < 2 ^ 31 \<Longrightarrow> sa_size a = int (st_num a - length (st_free a))"
  unfolding sa_size_def by (subst sint_in_range) (auto simp: of_nat_diff)

lemma contains_below_none:
  "n \<le> length xs \<Longrightarrow> \<forall>x \<in> set (take n xs). \<not> cm_eq x e \<Longrightarrow> contains_below e xs n = Some False"
proof (induction xs arbitrary: n)
  case (Cons x xs)
  then show ?case by (cases n) auto
qed simp

text \<open>
  \<open>contains\<close> looks at as many elements from the front as there are valid ones: after a
  removal it does not find the valid components behind that point.
\<close>

theorem stable_contains_misses:
  assumes "stable_inv a" and "i < st_num a" and "\<not> cm_GetInvalid (st_data a ! i)"
    and "st_num a \<le> i + length (st_free a)" and "distinct (map cm_id (st_data a))" and "st_num a < 2 ^ 31"
  shows "sa_contains (st_data a ! i) a = Some False \<and> st_data a ! i \<in> set (valid_elems a)"
proof -
  have le: "length (st_free a) \<le> st_num a" using count_invalid [OF assms(1)] by simp
  have "\<not> cm_eq x (st_data a ! i)" if x: "x \<in> set (take (st_num a - length (st_free a)) (st_data a))" for x
  proof -
    obtain j where "j < st_num a - length (st_free a)" "x = st_data a ! j" using x by (auto simp: in_set_conv_nth)
    then show ?thesis using assms(2,4,5) by (auto simp: cm_eq_def distinct_conv_nth)
  qed
  then have "contains_below (st_data a ! i) (st_data a) (st_num a - length (st_free a)) = Some False"
    by (intro contains_below_none) auto
  then show ?thesis using assms(2,3) small_size [OF le assms(6)] by (simp add: sa_contains_def valid_elems_def)
qed

text \<open>
  \<open>clear\<close> forgets the elements and keeps their free positions: the next \<open>Add\<close> assigns to an
  element that no longer exists, and \<open>size\<close> is negative until then.
\<close>

theorem stable_clear_stale:
  assumes "stable_inv a" and "st_free a \<noteq> []" and "st_num a < 2 ^ 31"
  shows "\<exists>a'. sa_clear ops shrink a = Some a' \<and> sa_size a' < 0 \<and> sa_Add ops inside v a' = None"
proof -
  have le: "length (st_free a) \<le> st_num a" using count_invalid [OF assms(1)] by simp
  have num: "st_num a \<noteq> 0" using le assms(2) by auto
  let ?a = "a\<lparr>st_dirty := True, st_data := []\<rparr>"
  have "sa_clear ops shrink a = Some ?a" using num by (simp add: sa_clear_def sa_resize_def Let_def)
  moreover have "sa_size ?a = - int (length (st_free a))"
    using le assms(3) unfolding sa_size_def by (subst sint_in_range) auto
  moreover have "sa_Add ops inside v ?a = None" using assms(2) by (simp add: sa_Add_def)
  ultimately show ?thesis using assms(2) by simp
qed

definition demo_array :: "movement_component stable_array" where
  "demo_array = \<lparr>st_data = [\<lparr>cm_id = 1, cm_flags = 3\<rparr>, \<lparr>cm_id = 2, cm_flags = 1\<rparr>], st_block = 1, st_free = [0],
     st_alloc = 2, st_dirty = False\<rparr>"

lemma demo_array_inv: "stable_inv demo_array"
proof -
  have "{i. i < 2 \<and> cm_GetInvalid ([\<lparr>cm_id = 1, cm_flags = 3\<rparr>, \<lparr>cm_id = 2, cm_flags = 1\<rparr>] ! i)} = {0 :: nat}"
    by (auto simp: less_2_cases_iff cm_GetInvalid_def)
  then show ?thesis by (simp add: stable_inv_def demo_array_def numeral_2_eq_2 [symmetric])
qed

theorem stable_add_witness:
  "\<exists>pos a'. sa_Add movement_ops False (movement_new 7) demo_array = Some (pos, a') \<and> stable_inv a' \<and>
     cm_id (st_data a' ! 1) = 2"
proof -
  have "\<not> cm_GetInvalid (movement_new 7)" by (simp add: movement_new_def) (simp add: cm_GetInvalid_def)
  moreover have "\<not> cm_GetInvalid (st_data demo_array ! 1)" "st_num demo_array = 2" "cm_id (st_data demo_array ! 1) = 2"
    by (simp_all add: demo_array_def cm_GetInvalid_def)
  ultimately show ?thesis
    using stable_add [OF movement.component_type_axioms demo_array_inv, of "movement_new 7" False] by fastforce
qed

theorem stable_contains_misses_witness:
  "sa_contains \<lparr>cm_id = 2, cm_flags = 1\<rparr> demo_array = Some False"
  using stable_contains_misses [OF demo_array_inv, of 1] by (simp add: demo_array_def cm_GetInvalid_def)

theorem stable_clear_stale_witness:
  "\<exists>a'. sa_clear movement_ops True demo_array = Some a' \<and> sa_Add movement_ops False (movement_new 7) a' = None"
  using stable_clear_stale [OF demo_array_inv, of movement_ops True False "movement_new 7"] by (auto simp: demo_array_def)

end
