(* ===== verification/Ecs_System.thy ===== *)
theory Ecs_System
  imports Stable_Array Priority_List
begin

text \<open>
  \<^verbatim>\<open>ECS/ISystem.h\<close> and \<^verbatim>\<open>ECS/SystemContainer.h/.cpp\<close> with the systems \<^verbatim>\<open>MovementSystem\<close>,
  \<^verbatim>\<open>StatusSystem\<close> and \<^verbatim>\<open>Sys_Timers\<close>.  A system stores components in a stable array and tells the
  owner of a component, through a callback registered under the component's id, where the
  component is.  Callbacks are numbers; the calls a system makes are returned as a list, with a
  component's address as a block and an index, or a null pointer.  The macro
  \<^verbatim>\<open>STABLE_TEST\<close> is an argument; the code defines it as 1.
\<close>

section \<open>One system\<close>

record 'a ecs_system =
  sy_data :: "'a stable_array"
  sy_events :: "u32 \<rightharpoonup> nat"

record change_event =
  ev_call :: nat
  ev_com :: "(nat \<times> nat) option"
  ev_id :: u32
  ev_catalog :: u16

definition sy_new :: "'a elem_ops \<Rightarrow> bool \<Rightarrow> 'a ecs_system" where
  "sy_new ops junk = \<lparr>sy_data = sa_new ops junk, sy_events = Map.empty\<rparr>"

definition sy_RegisterComponentChangeEvent :: "nat \<Rightarrow> u32 \<Rightarrow> 'a ecs_system \<Rightarrow> 'a ecs_system" where
  "sy_RegisterComponentChangeEvent call i s = s\<lparr>sy_events := (sy_events s)(i \<mapsto> call)\<rparr>"

definition sy_UnRegisterComponentChangeEvent :: "u32 \<Rightarrow> 'a ecs_system \<Rightarrow> 'a ecs_system" where
  "sy_UnRegisterComponentChangeEvent i s = s\<lparr>sy_events := (sy_events s)(i := None)\<rparr>"

text \<open>The event of the component at index \<open>n\<close>, and the loop over the components from there.\<close>

definition notify :: "(u32 \<rightharpoonup> nat) \<Rightarrow> u32 \<Rightarrow> (nat \<times> nat) option \<Rightarrow> u16 \<Rightarrow> change_event list" where
  "notify events i com cat =
     (case events i of None \<Rightarrow> [] | Some f \<Rightarrow> [\<lparr>ev_call = f, ev_com = com, ev_id = i, ev_catalog = cat\<rparr>])"

fun notify_from :: "(u32 \<rightharpoonup> nat) \<Rightarrow> nat \<Rightarrow> nat \<Rightarrow> 'z icomponent_scheme list \<Rightarrow> change_event list" where
  "notify_from events block n [] = []"
| "notify_from events block n (c # cs) =
     (if cm_GetInvalid c then [] else notify events (cm_id c) (Some (block, n)) (cm_GetCatalog c)) @
     notify_from events block (Suc n) cs"

definition notify_all :: "'z icomponent_scheme ecs_system \<Rightarrow> change_event list" where
  "notify_all s = notify_from (sy_events s) (st_block (sy_data s)) 0 (st_data (sy_data s))"

definition sy_RegisterComponent :: "bool \<Rightarrow> 'z icomponent_scheme elem_ops \<Rightarrow> 'z icomponent_scheme \<Rightarrow>
    'z icomponent_scheme ecs_system \<Rightarrow> (change_event list \<times> 'z icomponent_scheme ecs_system) option" where
  "sy_RegisterComponent stable_test ops com s =
     (case sa_Add ops False com (sy_data s) of
        None \<Rightarrow> None
      | Some (pos, a) \<Rightarrow>
          let s = s\<lparr>sy_data := a\<rparr> in
          (if st_dirty a then Some (notify_all s, s\<lparr>sy_data := sa_flush a\<rparr>)
           else Some (notify (sy_events s) (cm_id com) (Some (st_block a, pos)) (cm_GetCatalog com) @
                      (if stable_test then notify_all s else []), s)))"

fun find_valid :: "u32 \<Rightarrow> nat \<Rightarrow> 'z icomponent_scheme list \<Rightarrow> nat option" where
  "find_valid i n [] = None"
| "find_valid i n (c # cs) = (if \<not> cm_GetInvalid c \<and> cm_id c = i then Some n else find_valid i (Suc n) cs)"

definition sy_UnRegisterComponent :: "bool \<Rightarrow> u32 \<Rightarrow> 'z icomponent_scheme ecs_system \<Rightarrow>
    (change_event list \<times> 'z icomponent_scheme ecs_system) option" where
  "sy_UnRegisterComponent stable_test i s =
     (case find_valid i 0 (st_data (sy_data s)) of
        None \<Rightarrow> Some ([], s)
      | Some n \<Rightarrow>
          (case sa_remove n 1 (sy_data s) of
             None \<Rightarrow> None
           | Some a \<Rightarrow>
               let s' = s\<lparr>sy_data := a\<rparr> in
               Some (notify (sy_events s) i None (cm_GetCatalog (st_data (sy_data s) ! n)) @
                     (if stable_test then notify_all s' else []), s')))"

text \<open>\<open>OnUpdate\<close> of the three systems, on every element of the array, valid or not.\<close>

definition flush_component :: "'z icomponent_scheme \<Rightarrow> 'z icomponent_scheme" where
  "flush_component c = cm_SetDirty False c"

definition flush_dirty :: "'z icomponent_scheme ecs_system \<Rightarrow> 'z icomponent_scheme ecs_system" where
  "flush_dirty s = s\<lparr>sy_data := (sy_data s)\<lparr>st_data :=
     map (\<lambda>c. if cm_IsDirty c then flush_component c else c) (st_data (sy_data s))\<rparr>\<rparr>"

definition timer_tick :: "int \<Rightarrow> interval_timer \<Rightarrow> interval_timer" where
  "timer_tick diff t =
     (if cm_IsDirty t then
        let t = t\<lparr>it_current := it_current t + diff\<rparr> in (if timer_Passed t then flush_component t else t)
      else t)"

definition timers_update :: "int \<Rightarrow> interval_timer ecs_system \<Rightarrow> interval_timer ecs_system" where
  "timers_update diff s = s\<lparr>sy_data := (sy_data s)\<lparr>st_data := map (timer_tick diff) (st_data (sy_data s))\<rparr>\<rparr>"

section \<open>The container\<close>

datatype system_body =
  MovementSys "movement_component ecs_system"
| StatusSys "status_component ecs_system"
| TimerSys "interval_timer ecs_system"

record isystem =
  is_priority :: int
  is_enabled :: bool
  is_body :: system_body

record system_container =
  ct_list :: priority_list
  ct_systems :: "nat \<Rightarrow> isystem"
  ct_next :: nat

fun body_catalog :: "system_body \<Rightarrow> component_catalog" where
  "body_catalog (MovementSys s) = MOVEMENT"
| "body_catalog (StatusSys s) = STATUS"
| "body_catalog (TimerSys s) = INTERVAL_TIMER"

fun body_update :: "int \<Rightarrow> system_body \<Rightarrow> system_body" where
  "body_update diff (MovementSys s) = MovementSys (flush_dirty s)"
| "body_update diff (StatusSys s) = StatusSys (flush_dirty s)"
| "body_update diff (TimerSys s) = TimerSys (timers_update diff s)"

definition ct_new :: "(nat \<Rightarrow> isystem) \<Rightarrow> system_container" where
  "ct_new memory = \<lparr>ct_list = pl_empty, ct_systems = memory, ct_next = 0\<rparr>"

text \<open>The loop over the list that stops at the system of a catalog.\<close>

definition ct_find :: "component_catalog \<Rightarrow> system_container \<Rightarrow> nat option option" where
  "ct_find cat c =
     (case find_walk (pl_nodes (ct_list c))
             (\<lambda>n. body_catalog (is_body (ct_systems c (pn_data (pl_nodes (ct_list c) n)))) = cat)
             None (pl_head (ct_list c)) of
        None \<Rightarrow> None
      | Some (prev, node) \<Rightarrow> Some (map_option (\<lambda>n. pn_data (pl_nodes (ct_list c) n)) node))"

definition new_body :: "bool \<Rightarrow> component_catalog \<Rightarrow> system_body" where
  "new_body junk cat =
     (case cat of
        MOVEMENT \<Rightarrow> MovementSys (sy_new movement_ops junk)
      | STATUS \<Rightarrow> StatusSys (sy_new (status_ops 0) junk)
      | INTERVAL_TIMER \<Rightarrow> TimerSys (sy_new (timer_ops 0 0) junk))"

definition ct_AddSystem :: "bool \<Rightarrow> component_catalog \<Rightarrow> int \<Rightarrow> system_container \<Rightarrow> (bool \<times> system_container) option" where
  "ct_AddSystem junk cat priority c =
     (case ct_find cat c of
        None \<Rightarrow> None
      | Some (Some s) \<Rightarrow> Some (False, c)
      | Some None \<Rightarrow>
          let i = ct_next c;
              sys = \<lparr>is_priority = priority, is_enabled = True, is_body = new_body junk cat\<rparr>
          in map_option (\<lambda>l. (True, c\<lparr>ct_list := l, ct_systems := (ct_systems c)(i := sys), ct_next := i + 1\<rparr>))
               (pl_add i priority (ct_list c)))"

definition update_system :: "int \<Rightarrow> nat \<Rightarrow> system_container \<Rightarrow> system_container" where
  "update_system diff i c =
     (let s = ct_systems c i in
      if is_enabled s then c\<lparr>ct_systems := (ct_systems c)(i := s\<lparr>is_body := body_update diff (is_body s)\<rparr>)\<rparr> else c)"

definition ct_OnUpdate :: "int \<Rightarrow> system_container \<Rightarrow> system_container option" where
  "ct_OnUpdate diff c = map_option (\<lambda>is. fold (update_system diff) is c) (pl_iterate (ct_list c))"

definition ct_SetPriority :: "component_catalog \<Rightarrow> int \<Rightarrow> system_container \<Rightarrow> system_container option" where
  "ct_SetPriority cat priority c =
     (case ct_find cat c of
        None \<Rightarrow> None
      | Some None \<Rightarrow> Some c
      | Some (Some i) \<Rightarrow>
          (case pl_ResetPriority i priority (ct_list c) of
             None \<Rightarrow> None
           | Some (ok, l) \<Rightarrow>
               Some (if ok then c\<lparr>ct_list := l, ct_systems := (ct_systems c)(i := (ct_systems c i)\<lparr>is_priority := priority\<rparr>)\<rparr>
                     else c\<lparr>ct_list := l\<rparr>)))"

definition put_body :: "nat \<Rightarrow> system_body \<Rightarrow> system_container \<Rightarrow> system_container" where
  "put_body i b c = c\<lparr>ct_systems := (ct_systems c)(i := (ct_systems c i)\<lparr>is_body := b\<rparr>)\<rparr>"

text \<open>Timers have no case in the switch: they stay registered, and the loop goes on to the end of the list.\<close>

definition ct_UnRegisterComponent :: "u32 \<Rightarrow> component_catalog \<Rightarrow> system_container \<Rightarrow>
    (change_event list \<times> system_container) option" where
  "ct_UnRegisterComponent i cat c =
     (case ct_find cat c of
        None \<Rightarrow> None
      | Some None \<Rightarrow> Some ([], c)
      | Some (Some j) \<Rightarrow>
          (case is_body (ct_systems c j) of
             MovementSys s \<Rightarrow> map_option (\<lambda>(evs, s). (evs, put_body j (MovementSys s) c)) (sy_UnRegisterComponent True i s)
           | StatusSys s \<Rightarrow> map_option (\<lambda>(evs, s). (evs, put_body j (StatusSys s) c)) (sy_UnRegisterComponent True i s)
           | TimerSys s \<Rightarrow> map_option (\<lambda>_. ([], c)) (pl_iterate (ct_list c))))"

text \<open>\<open>RegisterComponent\<close> for the three component types; the cast to the system's type succeeds for its own catalog.\<close>

definition ct_register :: "component_catalog \<Rightarrow> (system_body \<Rightarrow> (change_event list \<times> system_body) option) \<Rightarrow>
    system_container \<Rightarrow> (change_event list \<times> system_container) option" where
  "ct_register cat reg c =
     (case ct_find cat c of
        None \<Rightarrow> None
      | Some None \<Rightarrow> Some ([], c)
      | Some (Some j) \<Rightarrow> map_option (\<lambda>(evs, b). (evs, put_body j b c)) (reg (is_body (ct_systems c j))))"

fun register_movement :: "movement_component \<Rightarrow> system_body \<Rightarrow> (change_event list \<times> system_body) option" where
  "register_movement com (MovementSys s) =
     map_option (\<lambda>(evs, s). (evs, MovementSys s)) (sy_RegisterComponent True movement_ops com s)"
| "register_movement com b = Some ([], b)"

fun register_status :: "u32 \<Rightarrow> status_component \<Rightarrow> system_body \<Rightarrow> (change_event list \<times> system_body) option" where
  "register_status junk com (StatusSys s) =
     map_option (\<lambda>(evs, s). (evs, StatusSys s)) (sy_RegisterComponent True (status_ops junk) com s)"
| "register_status junk com b = Some ([], b)"

fun register_timer :: "int \<Rightarrow> int \<Rightarrow> interval_timer \<Rightarrow> system_body \<Rightarrow> (change_event list \<times> system_body) option" where
  "register_timer j1 j2 com (TimerSys s) =
     map_option (\<lambda>(evs, s). (evs, TimerSys s)) (sy_RegisterComponent True (timer_ops j1 j2) com s)"
| "register_timer j1 j2 com b = Some ([], b)"

text \<open>The callbacks go to the system of the catalog.\<close>

fun body_on_change :: "nat \<Rightarrow> u32 \<Rightarrow> system_body \<Rightarrow> system_body" where
  "body_on_change call i (MovementSys s) = MovementSys (sy_RegisterComponentChangeEvent call i s)"
| "body_on_change call i (StatusSys s) = StatusSys (sy_RegisterComponentChangeEvent call i s)"
| "body_on_change call i (TimerSys s) = TimerSys (sy_RegisterComponentChangeEvent call i s)"

fun body_no_change :: "u32 \<Rightarrow> system_body \<Rightarrow> system_body" where
  "body_no_change i (MovementSys s) = MovementSys (sy_UnRegisterComponentChangeEvent i s)"
| "body_no_change i (StatusSys s) = StatusSys (sy_UnRegisterComponentChangeEvent i s)"
| "body_no_change i (TimerSys s) = TimerSys (sy_UnRegisterComponentChangeEvent i s)"

definition ct_RegisterComponentChangeEvent :: "nat \<Rightarrow> u32 \<Rightarrow> component_catalog \<Rightarrow> system_container \<Rightarrow> system_container option" where
  "ct_RegisterComponentChangeEvent call i cat c =
     map_option (\<lambda>s. case s of None \<Rightarrow> c | Some j \<Rightarrow> put_body j (body_on_change call i (is_body (ct_systems c j))) c) (ct_find cat c)"

definition ct_UnRegisterComponentChangeEvent :: "u32 \<Rightarrow> component_catalog \<Rightarrow> system_container \<Rightarrow> system_container option" where
  "ct_UnRegisterComponentChangeEvent i cat c =
     map_option (\<lambda>s. case s of None \<Rightarrow> c | Some j \<Rightarrow> put_body j (body_no_change i (is_body (ct_systems c j))) c) (ct_find cat c)"

text \<open>The destructor deletes the systems and erases the nodes one by one.\<close>

partial_function (option) destroy_walk :: "nat option \<Rightarrow> priority_list \<Rightarrow> nat list \<Rightarrow> (nat list \<times> priority_list) option" where
  "destroy_walk node l deleted =
     (if node = None then Some (deleted, l)
      else Option.bind (pl_erase (the node) l)
             (\<lambda>(next, l'). destroy_walk next l' (deleted @ [pn_data (pl_nodes l (the node))])))"

definition ct_destroy :: "system_container \<Rightarrow> (nat list \<times> priority_list) option" where
  "ct_destroy c = destroy_walk (pl_head (ct_list c)) (ct_list c) []"

section \<open>What the owners know\<close>

text \<open>The owner keeps the last address it was told for an id.\<close>

definition told :: "change_event list \<Rightarrow> (u32 \<rightharpoonup> nat \<times> nat) \<Rightarrow> (u32 \<rightharpoonup> nat \<times> nat)" where
  "told evs v = fold (\<lambda>e v. v(ev_id e := ev_com e)) evs v"

text \<open>Every valid component whose owner is registered is known at its address.\<close>

definition known :: "(u32 \<rightharpoonup> nat \<times> nat) \<Rightarrow> 'z icomponent_scheme ecs_system \<Rightarrow> bool" where
  "known v s \<longleftrightarrow> (\<forall>i < st_num (sy_data s). \<not> cm_GetInvalid (st_data (sy_data s) ! i) \<longrightarrow>
     sy_events s (cm_id (st_data (sy_data s) ! i)) \<noteq> None \<longrightarrow>
     v (cm_id (st_data (sy_data s) ! i)) = Some (st_block (sy_data s), i))"

definition unique_ids :: "'z icomponent_scheme list \<Rightarrow> bool" where
  "unique_ids xs \<longleftrightarrow> (\<forall>i < length xs. \<forall>j < length xs. \<not> cm_GetInvalid (xs ! i) \<longrightarrow> \<not> cm_GetInvalid (xs ! j) \<longrightarrow>
     cm_id (xs ! i) = cm_id (xs ! j) \<longrightarrow> i = j)"

lemma told_append: "told (e1 @ e2) v = told e2 (told e1 v)"
  by (simp add: told_def)

lemma told_other: "\<forall>e \<in> set evs. ev_id e \<noteq> i \<Longrightarrow> told evs v i = v i"
  by (induction evs arbitrary: v) (auto simp: told_def)

lemma notify_ids: "e \<in> set (notify_from events b n xs) \<Longrightarrow> \<exists>c \<in> set xs. \<not> cm_GetInvalid c \<and> ev_id e = cm_id c"
  by (induction events b n xs rule: notify_from.induct) (auto simp: notify_def split: option.splits if_splits)

lemma unique_ids_Cons:
  "unique_ids (x # xs) \<Longrightarrow> unique_ids xs \<and> (\<not> cm_GetInvalid x \<longrightarrow> (\<forall>c \<in> set xs. \<not> cm_GetInvalid c \<longrightarrow> cm_id c \<noteq> cm_id x))"
proof -
  assume u: "unique_ids (x # xs)"
  have "unique_ids xs" unfolding unique_ids_def
  proof (intro allI impI)
    fix i j assume "i < length xs" "j < length xs" "\<not> cm_GetInvalid (xs ! i)" "\<not> cm_GetInvalid (xs ! j)" "cm_id (xs ! i) = cm_id (xs ! j)"
    then show "i = j" using u [unfolded unique_ids_def, rule_format, of "Suc i" "Suc j"] by simp
  qed
  moreover have "cm_id c \<noteq> cm_id x" if c: "\<not> cm_GetInvalid x" "c \<in> set xs" "\<not> cm_GetInvalid c" for c
  proof -
    obtain i where "i < length xs" "c = xs ! i" using c(2) by (auto simp: in_set_conv_nth)
    then show ?thesis using u [unfolded unique_ids_def, rule_format, of "Suc i" 0] c by auto
  qed
  ultimately show ?thesis by blast
qed

lemma told_notify_from:
  "unique_ids xs \<Longrightarrow> i < length xs \<Longrightarrow> \<not> cm_GetInvalid (xs ! i) \<Longrightarrow> events (cm_id (xs ! i)) \<noteq> None \<Longrightarrow>
    told (notify_from events b n xs) v (cm_id (xs ! i)) = Some (b, n + i)"
proof (induction events b n xs arbitrary: i v rule: notify_from.induct)
  case (2 events b n c cs)
  note u = unique_ids_Cons [OF "2.prems"(1)]
  show ?case
  proof (cases i)
    case 0
    then have c: "\<not> cm_GetInvalid c" "events (cm_id c) \<noteq> None" using "2.prems" by simp_all
    then have "\<forall>e \<in> set (notify_from events b (Suc n) cs). ev_id e \<noteq> cm_id c"
      using notify_ids [of _ events b "Suc n" cs] u by fastforce
    then show ?thesis using c 0 told_other
      by (auto simp: told_append notify_def) (simp add: told_def)
  next
    case (Suc j)
    then show ?thesis using "2.IH" [of j] "2.prems" u by (simp add: told_append)
  qed
qed simp

lemma known_notify_all:
  assumes "unique_ids (st_data (sy_data s))" shows "known (told (notify_all s) v) s"
  unfolding known_def notify_all_def using told_notify_from [OF assms, of _ "sy_events s" "st_block (sy_data s)" 0 v] by simp

section \<open>Owners stay informed\<close>

text \<open>A change of the array after which the owner of one component is told, or everyone is.\<close>

lemma told_notify: "told (notify events i com cat) v = (if events i = None then v else v(i := com))"
  by (simp add: told_def notify_def split: option.splits)

lemma find_valid_Some:
  "find_valid i n xs = Some m \<Longrightarrow> n \<le> m \<and> m - n < length xs \<and> \<not> cm_GetInvalid (xs ! (m - n)) \<and> cm_id (xs ! (m - n)) = i"
proof (induction i n xs rule: find_valid.induct)
  case (2 i n c cs)
  show ?case
  proof (cases "\<not> cm_GetInvalid c \<and> cm_id c = i")
    case False
    then have "Suc n \<le> m \<and> m - Suc n < length cs \<and> \<not> cm_GetInvalid (cs ! (m - Suc n)) \<and> cm_id (cs ! (m - Suc n)) = i"
      using 2 by (auto split: if_splits)
    moreover from this have "m - n = Suc (m - Suc n)" by linarith
    ultimately show ?thesis by simp
  qed (use 2 in auto)
qed simp

lemma register_known:
  assumes ops: "component_type ops" and inv: "stable_inv (sy_data s)" "unique_ids (st_data (sy_data s))"
    and com: "\<not> cm_GetInvalid com" "\<forall>c \<in> set (valid_elems (sy_data s)). cm_id c \<noteq> cm_id com"
    and room: "st_num (sy_data s) + 1 < 0xFFFFFFFF" and v: "known v s"
  shows "\<exists>evs s'. sy_RegisterComponent test ops com s = Some (evs, s') \<and> stable_inv (sy_data s') \<and>
    unique_ids (st_data (sy_data s')) \<and> known (told evs v) s'"
proof -
  let ?a = "sy_data s"
  note copy = component_type.copy_id [OF ops] component_type.copy_invalid [OF ops]
  obtain pos a' where a': "sa_Add ops False com ?a = Some (pos, a')" "stable_inv a'" "added ops com pos ?a a'"
    using Add_inv [OF ops inv(1) com(1) room] by blast
  have at: "cm_id (st_data a' ! pos) = cm_id com" using a'(3) copy by (auto simp: added_def)
  have old: "j < st_num ?a \<and> \<not> cm_GetInvalid (st_data ?a ! j) \<and> cm_id (st_data a' ! j) = cm_id (st_data ?a ! j) \<and>
      cm_id (st_data a' ! j) \<noteq> cm_id com"
    if j: "j < st_num a'" "j \<noteq> pos" "\<not> cm_GetInvalid (st_data a' ! j)" for j
  proof -
    have o: "j < st_num ?a" "cm_id (st_data a' ! j) = cm_id (st_data ?a ! j)" "\<not> cm_GetInvalid (st_data ?a ! j)"
      using a'(3) j copy by (auto simp: added_def)
    then have "st_data ?a ! j \<in> set (valid_elems ?a)" by (simp add: valid_elems_def)
    then show ?thesis using com(2) o by auto
  qed
  have uni: "unique_ids (st_data a')" unfolding unique_ids_def
  proof (intro allI impI)
    fix i j assume ij: "i < st_num a'" "j < st_num a'" "\<not> cm_GetInvalid (st_data a' ! i)" "\<not> cm_GetInvalid (st_data a' ! j)"
      "cm_id (st_data a' ! i) = cm_id (st_data a' ! j)"
    show "i = j"
    proof (cases "i = pos \<or> j = pos")
      case True then show ?thesis using old ij at by metis
    next
      case False
      then show ?thesis using old [of i] old [of j] ij inv(2) [unfolded unique_ids_def, rule_format, of i j] by auto
    qed
  qed
  show ?thesis
  proof (cases "st_dirty a'")
    case True
    have "known (told (notify_all (s\<lparr>sy_data := a'\<rparr>)) v) (s\<lparr>sy_data := a'\<rparr>)" using uni by (intro known_notify_all) simp
    then show ?thesis using a' uni True
      by (simp add: sy_RegisterComponent_def known_def sa_flush_def stable_inv_def)
  next
    case False
    let ?s = "s\<lparr>sy_data := a'\<rparr>" and ?n = "notify (sy_events s) (cm_id com) (Some (st_block a', pos)) (cm_GetCatalog com)"
    have blk: "st_block a' = st_block ?a" using a'(3) False by (simp add: added_def)
    have k: "known (told ?n v) ?s" unfolding known_def
    proof (intro allI impI)
      fix i assume i: "i < st_num (sy_data ?s)" "\<not> cm_GetInvalid (st_data (sy_data ?s) ! i)"
        "sy_events ?s (cm_id (st_data (sy_data ?s) ! i)) \<noteq> None"
      show "told ?n v (cm_id (st_data (sy_data ?s) ! i)) = Some (st_block (sy_data ?s), i)"
      proof (cases "i = pos")
        case False
        then show ?thesis using old [of i] i v blk by (auto simp: told_notify known_def)
      qed (use i at in \<open>auto simp: told_notify\<close>)
    qed
    have "known (told (?n @ (if test then notify_all ?s else [])) v) ?s"
      using k known_notify_all [of ?s] uni by (cases test) (simp_all add: told_append)
    moreover have "sy_RegisterComponent test ops com s = Some (?n @ (if test then notify_all ?s else []), ?s)"
      using a'(1) False by (simp add: sy_RegisterComponent_def Let_def)
    moreover have "stable_inv (sy_data ?s)" "unique_ids (st_data (sy_data ?s))" using a'(2) uni by simp_all
    ultimately show ?thesis by blast
  qed
qed

lemma unregister_known:
  assumes inv: "stable_inv (sy_data s)" "unique_ids (st_data (sy_data s))" and v: "known v s"
  shows "\<exists>evs s'. sy_UnRegisterComponent test i s = Some (evs, s') \<and> stable_inv (sy_data s') \<and>
    unique_ids (st_data (sy_data s')) \<and> known (told evs v) s' \<and>
    (\<forall>c \<in> set (valid_elems (sy_data s')). cm_id c \<noteq> i) \<and>
    ((\<exists>c \<in> set (valid_elems (sy_data s)). cm_id c = i) \<longrightarrow> sy_events s i \<noteq> None \<longrightarrow> told evs v i = None)"
proof (cases "find_valid i 0 (st_data (sy_data s))")
  case None
  have none: "find_valid i n xs = None \<Longrightarrow> \<forall>c \<in> set xs. \<not> cm_GetInvalid c \<longrightarrow> cm_id c \<noteq> i" for n and xs :: "'a icomponent_scheme list"
    by (induction xs arbitrary: n) (auto split: if_splits)
  then show ?thesis using None assms none [OF None]
    by (auto simp: sy_UnRegisterComponent_def told_def valid_elems_def)
next
  case (Some n)
  let ?a = "sy_data s"
  have n: "n < st_num ?a" "\<not> cm_GetInvalid (st_data ?a ! n)" "cm_id (st_data ?a ! n) = i"
    using find_valid_Some [OF Some] by simp_all
  obtain a' where a': "sa_remove n 1 ?a = Some a'" "stable_inv a'" "st_block a' = st_block ?a"
    "invalidated {n..<n + 1} (st_data ?a) (st_data a')"
    using remove_inv [OF inv(1), of n 1] n(1) by auto
  have len: "st_num a' = st_num ?a" using a'(4) by (simp add: invalidated_def)
  have old: "j \<noteq> n \<and> st_data a' ! j = st_data ?a ! j \<and> \<not> cm_GetInvalid (st_data ?a ! j) \<and> cm_id (st_data ?a ! j) \<noteq> i"
    if j: "j < st_num ?a" "\<not> cm_GetInvalid (st_data a' ! j)" for j
  proof -
    have o: "j \<noteq> n" "st_data a' ! j = st_data ?a ! j" "\<not> cm_GetInvalid (st_data ?a ! j)"
      using a'(4) j by (auto simp: invalidated_def)
    then show ?thesis using inv(2) [unfolded unique_ids_def, rule_format, of j n] n j(1) by auto
  qed
  have uni: "unique_ids (st_data a')" unfolding unique_ids_def len
  proof (intro allI impI)
    fix p q assume "p < st_num ?a" "q < st_num ?a" "\<not> cm_GetInvalid (st_data a' ! p)" "\<not> cm_GetInvalid (st_data a' ! q)"
      "cm_id (st_data a' ! p) = cm_id (st_data a' ! q)"
    then show "p = q" using old [of p] old [of q] inv(2) [unfolded unique_ids_def, rule_format, of p q] by auto
  qed
  let ?s = "s\<lparr>sy_data := a'\<rparr>" and ?n = "notify (sy_events s) i None (cm_GetCatalog (st_data ?a ! n))"
  have k: "known (told ?n v) ?s" unfolding known_def
  proof (intro allI impI)
    fix j assume j: "j < st_num (sy_data ?s)" "\<not> cm_GetInvalid (st_data (sy_data ?s) ! j)"
      "sy_events ?s (cm_id (st_data (sy_data ?s) ! j)) \<noteq> None"
    then show "told ?n v (cm_id (st_data (sy_data ?s) ! j)) = Some (st_block (sy_data ?s), j)"
      using old [of j] v a'(3) len by (auto simp: told_notify known_def)
  qed
  have "known (told (?n @ (if test then notify_all ?s else [])) v) ?s"
    using k known_notify_all [of ?s] uni by (cases test) (simp_all add: told_append)
  moreover have gone: "cm_id c \<noteq> i" if c: "c \<in> set (st_data a')" "\<not> cm_GetInvalid c" for c
  proof -
    obtain j where "j < st_num a'" "c = st_data a' ! j" using c(1) by (auto simp: in_set_conv_nth)
    then show ?thesis using old [of j] c(2) len by simp
  qed
  moreover have "\<forall>e \<in> set (notify_all ?s). ev_id e \<noteq> i"
    using gone notify_ids by (fastforce simp: notify_all_def)
  then have "sy_events s i \<noteq> None \<longrightarrow> told (?n @ (if test then notify_all ?s else [])) v i = None"
    using told_other [of "notify_all ?s" i] by (cases test) (auto simp: told_append told_notify)
  moreover have "sy_UnRegisterComponent test i s = Some (?n @ (if test then notify_all ?s else []), ?s)"
    using a'(1) Some by (simp add: sy_UnRegisterComponent_def Let_def del: sa_remove.simps)
  moreover have "stable_inv (sy_data ?s)" "unique_ids (st_data (sy_data ?s))" using a'(2) uni by simp_all
  moreover have "\<forall>c \<in> set (valid_elems (sy_data ?s)). cm_id c \<noteq> i" using gone by (simp add: valid_elems_def)
  ultimately show ?thesis by blast
qed

text \<open>
  C30. Owners stay informed, with and without the test macro: when every owner knows the address of
  its component, it still does after a component has been registered, even when the storage
  moved, and after one has been unregistered; the owner of the removed one has been told.
\<close>

theorem ecs_owners_informed:
  assumes "component_type ops" and "stable_inv (sy_data s)" and "unique_ids (st_data (sy_data s))" and "known v s"
    and "st_num (sy_data s) + 1 < 0xFFFFFFFF"
  shows "(\<not> cm_GetInvalid com \<longrightarrow> (\<forall>c \<in> set (valid_elems (sy_data s)). cm_id c \<noteq> cm_id com) \<longrightarrow>
      (\<exists>evs s'. sy_RegisterComponent test ops com s = Some (evs, s') \<and> stable_inv (sy_data s') \<and>
         unique_ids (st_data (sy_data s')) \<and> known (told evs v) s')) \<and>
    (\<exists>evs s'. sy_UnRegisterComponent test i s = Some (evs, s') \<and> stable_inv (sy_data s') \<and>
       unique_ids (st_data (sy_data s')) \<and> known (told evs v) s' \<and>
       (\<forall>c \<in> set (valid_elems (sy_data s')). cm_id c \<noteq> i) \<and>
       ((\<exists>c \<in> set (valid_elems (sy_data s)). cm_id c = i) \<longrightarrow> sy_events s i \<noteq> None \<longrightarrow> told evs v i = None))"
  using register_known [OF assms(1-3) _ _ assms(5,4)] unregister_known [OF assms(2-4)] by blast

definition demo_system :: "movement_component ecs_system" where
  "demo_system = \<lparr>sy_data = demo_array, sy_events = [2 \<mapsto> 5, 7 \<mapsto> 6]\<rparr>"

theorem ecs_owners_informed_witness:
  "\<exists>evs s'. sy_RegisterComponent True movement_ops (movement_new 7) demo_system = Some (evs, s') \<and> known (told evs [2 \<mapsto> (1, 1)]) s'"
proof -
  have d: "stable_inv (sy_data demo_system)" "st_num (sy_data demo_system) = 2" using demo_array_inv by (simp_all add: demo_system_def demo_array_def)
  have u: "unique_ids (st_data (sy_data demo_system))"
    by (auto simp: unique_ids_def demo_system_def demo_array_def less_Suc_eq cm_GetInvalid_def)
  have k: "known [2 \<mapsto> (1, 1)] demo_system"
    by (auto simp: known_def demo_system_def demo_array_def less_Suc_eq cm_GetInvalid_def)
  have "\<not> cm_GetInvalid (movement_new 7)" by (simp add: movement_new_def) (simp add: cm_GetInvalid_def)
  moreover have "\<forall>c \<in> set (valid_elems (sy_data demo_system)). cm_id c \<noteq> cm_id (movement_new 7)"
    by (simp add: valid_elems_def demo_system_def demo_array_def movement_new_def)
  ultimately show ?thesis
    using ecs_owners_informed [OF movement.component_type_axioms d(1) u k, of "movement_new 7" True 0] d(2) by auto
qed

section \<open>Updating the systems\<close>

lemma ct_find_none:
  assumes "pl_ok (ct_list c) ns" and "\<forall>n \<in> set ns. body_catalog (is_body (ct_systems c (pn_data (pl_nodes (ct_list c) n)))) \<noteq> cat"
  shows "ct_find cat c = Some None"
  using assms find_miss [of "pl_nodes (ct_list c)" "pl_head (ct_list c)" ns] by (simp add: ct_find_def pl_ok_def)

lemma update_other: "j \<noteq> i \<Longrightarrow> ct_systems (update_system diff i c) j = ct_systems c j"
  by (simp add: update_system_def Let_def)

lemma fold_update_other: "j \<notin> set is \<Longrightarrow> ct_systems (fold (update_system diff) is c) j = ct_systems c j"
  by (induction "is" arbitrary: c) (simp_all add: update_other)

text \<open>
  Adding a system of a higher priority than all others disables those: \<open>AddSystem\<close> reports
  success, and \<open>OnUpdate\<close> from then on changes only the new system and the one that was first.
\<close>

theorem container_update_skips:
  assumes "pl_ok (ct_list c) (h # ns)" and "pn_priority (pl_nodes (ct_list c) h) < p"
    and "\<forall>n \<in> set (h # ns). body_catalog (is_body (ct_systems c (pn_data (pl_nodes (ct_list c) n)))) \<noteq> cat"
  shows "\<exists>c' c''. ct_AddSystem junk cat p c = Some (True, c') \<and> ct_OnUpdate diff c' = Some c'' \<and>
    (\<forall>i. i \<noteq> ct_next c \<longrightarrow> i \<noteq> pn_data (pl_nodes (ct_list c) h) \<longrightarrow> ct_systems c'' i = ct_systems c i)"
proof -
  obtain l where l: "pl_add (ct_next c) p (ct_list c) = Some l" "pl_iterate l = Some [ct_next c, pn_data (pl_nodes (ct_list c) h)]"
    using add_head_drops [OF assms(1,2)] by blast
  let ?c = "c\<lparr>ct_list := l, ct_systems := (ct_systems c)(ct_next c := \<lparr>is_priority = p, is_enabled = True, is_body = new_body junk cat\<rparr>),
      ct_next := ct_next c + 1\<rparr>"
  have "ct_AddSystem junk cat p c = Some (True, ?c)"
    using ct_find_none [OF assms(1,3)] l(1) by (simp add: ct_AddSystem_def Let_def)
  moreover have "ct_OnUpdate diff ?c = Some (fold (update_system diff) [ct_next c, pn_data (pl_nodes (ct_list c) h)] ?c)"
    using l(2) by (simp add: ct_OnUpdate_def)
  moreover have "\<forall>i. i \<noteq> ct_next c \<longrightarrow> i \<noteq> pn_data (pl_nodes (ct_list c) h) \<longrightarrow>
      ct_systems (fold (update_system diff) [ct_next c, pn_data (pl_nodes (ct_list c) h)] ?c) i = ct_systems c i"
    by (simp add: update_other)
  ultimately show ?thesis by blast
qed

definition demo_container :: system_container where
  "demo_container = \<lparr>ct_list = demo_list, ct_systems = (\<lambda>i. \<lparr>is_priority = 0, is_enabled = True, is_body =
     (if i = 10 then new_body False MOVEMENT else new_body False STATUS)\<rparr>), ct_next = 12\<rparr>"

theorem container_update_skips_witness:
  "\<exists>c' c''. ct_AddSystem False INTERVAL_TIMER 9 demo_container = Some (True, c') \<and> ct_OnUpdate 30 c' = Some c'' \<and>
     ct_systems c'' 11 = ct_systems demo_container 11"
proof -
  have "ct_list demo_container = demo_list" "ct_next demo_container = 12" "pn_priority (pl_nodes demo_list 0) < 9"
    "pn_data (pl_nodes demo_list 0) = 10" by (simp_all add: demo_container_def demo_list_def)
  moreover have "body_catalog (is_body (ct_systems demo_container i)) \<noteq> INTERVAL_TIMER" for i
    by (simp add: demo_container_def new_body_def)
  ultimately show ?thesis
    using container_update_skips [of demo_container 0 "[1]" 9 INTERVAL_TIMER False 30] demo_list_ok by fastforce
qed

end
