(* ===== verification/Work_Queues.thy ===== *)
theory Work_Queues
  imports Prelude
begin

text \<open>
  \<^verbatim>\<open>Utinities/LockedQueue.h\<close> and \<^verbatim>\<open>Utinities/ProducerConsumerQueue.h\<close>: queues under a mutex.  Every
  operation holds the mutex from its first access to its last, so it is one step; threads
  interleave whole operations.  \<open>lq_held\<close> is the mutex that \<open>lock\<close>, or \<open>peek\<close> without \<open>autoUnlock\<close>,
  leaves locked: an operation of the same thread that locks it again is \<open>None\<close>, as are \<open>front\<close>
  and \<open>pop_front\<close> of an empty queue.
\<close>

section \<open>The contract\<close>

datatype 'a queue_op = Put 'a | Get

text \<open>A sequence of operations, in the order in which the threads got the mutex, and what was got.\<close>

fun run_queue :: "('a \<Rightarrow> 'q \<Rightarrow> 'q option) \<Rightarrow> ('q \<Rightarrow> ('a option \<times> 'q) option) \<Rightarrow> 'a queue_op list \<Rightarrow> 'q \<Rightarrow>
    ('a list \<times> 'q) option" where
  "run_queue put get [] q = Some ([], q)"
| "run_queue put get (Put x # ops) q = Option.bind (put x q) (run_queue put get ops)"
| "run_queue put get (Get # ops) q =
     Option.bind (get q) (\<lambda>(r, q). map_option (\<lambda>(outs, q). ((case r of None \<Rightarrow> [] | Some x \<Rightarrow> [x]) @ outs, q))
       (run_queue put get ops q))"

fun puts_of :: "'a queue_op list \<Rightarrow> 'a list" where
  "puts_of [] = []"
| "puts_of (Put x # ops) = x # puts_of ops"
| "puts_of (Get # ops) = puts_of ops"

locale fifo =
  fixes put :: "'a \<Rightarrow> 'q \<Rightarrow> 'q option" and get :: "'q \<Rightarrow> ('a option \<times> 'q) option"
    and items :: "'q \<Rightarrow> 'a list" and ok :: "'q \<Rightarrow> bool"
  assumes put_law: "ok q \<Longrightarrow> \<exists>q'. put x q = Some q' \<and> ok q' \<and> items q' = items q @ [x]"
    and get_nil: "ok q \<Longrightarrow> items q = [] \<Longrightarrow> get q = Some (None, q)"
    and get_cons: "ok q \<Longrightarrow> items q = x # xs \<Longrightarrow> \<exists>q'. get q = Some (Some x, q') \<and> ok q' \<and> items q' = xs"
begin

lemma run_fifo:
  "ok q \<Longrightarrow> \<exists>outs q'. run_queue put get ops q = Some (outs, q') \<and> ok q' \<and> outs @ items q' = items q @ puts_of ops"
proof (induction ops arbitrary: q rule: puts_of.induct)
  case (2 x ops)
  obtain q' where q': "put x q = Some q'" "ok q'" "items q' = items q @ [x]" using put_law [OF "2.prems"] by blast
  then show ?case using "2.IH" [OF q'(2)] by auto
next
  case (3 ops)
  show ?case
  proof (cases "items q")
    case Nil
    then show ?thesis using get_nil [OF "3.prems"] "3.IH" [OF "3.prems"] by auto
  next
    case (Cons x xs)
    then obtain q' where q': "get q = Some (Some x, q')" "ok q'" "items q' = xs" using get_cons [OF "3.prems"] by blast
    then show ?thesis using "3.IH" [OF q'(2)] Cons by auto
  qed
qed simp

lemma get_none: "ok q \<Longrightarrow> get q = Some (None, q') \<Longrightarrow> items q = []"
  using get_cons [of q] by (cases "items q") auto

end

section \<open>LockedQueue\<close>

record 'a locked_queue =
  lq_items :: "'a list"
  lq_canceled :: bool
  lq_held :: bool

definition lq_new :: "'a locked_queue" where
  "lq_new = \<lparr>lq_items = [], lq_canceled = False, lq_held = False\<rparr>"

definition lq_lock :: "'a locked_queue \<Rightarrow> 'a locked_queue option" where
  "lq_lock q = (if lq_held q then None else Some (q\<lparr>lq_held := True\<rparr>))"

definition lq_unlock :: "'a locked_queue \<Rightarrow> 'a locked_queue option" where
  "lq_unlock q = (if lq_held q then Some (q\<lparr>lq_held := False\<rparr>) else None)"

definition lq_add :: "'a \<Rightarrow> 'a locked_queue \<Rightarrow> 'a locked_queue option" where
  "lq_add item q = Option.bind (lq_lock q) (\<lambda>q. lq_unlock (q\<lparr>lq_items := lq_items q @ [item]\<rparr>))"

definition lq_readd :: "'a list \<Rightarrow> 'a locked_queue \<Rightarrow> 'a locked_queue option" where
  "lq_readd xs q = (if lq_held q then None else Some (q\<lparr>lq_items := xs @ lq_items q\<rparr>))"

definition lq_next :: "'a locked_queue \<Rightarrow> ('a option \<times> 'a locked_queue) option" where
  "lq_next q =
     (if lq_held q then None
      else case lq_items q of
        [] \<Rightarrow> Some (None, q)
      | x # xs \<Rightarrow> Some (Some x, q\<lparr>lq_items := xs\<rparr>))"

text \<open>With a checker: the first item is returned to the caller, and stays when the check fails.\<close>

definition lq_next_checked :: "('a \<Rightarrow> bool) \<Rightarrow> 'a locked_queue \<Rightarrow> (bool \<times> 'a option \<times> 'a locked_queue) option" where
  "lq_next_checked check q =
     (if lq_held q then None
      else case lq_items q of
        [] \<Rightarrow> Some (False, None, q)
      | x # xs \<Rightarrow> if \<not> check x then Some (False, Some x, q) else Some (True, Some x, q\<lparr>lq_items := xs\<rparr>))"

definition lq_peek :: "bool \<Rightarrow> 'a locked_queue \<Rightarrow> ('a \<times> 'a locked_queue) option" where
  "lq_peek autoUnlock q =
     Option.bind (lq_lock q) (\<lambda>q. case lq_items q of
       [] \<Rightarrow> None
     | x # xs \<Rightarrow> if autoUnlock then map_option (Pair x) (lq_unlock q) else Some (x, q))"

definition lq_cancel :: "'a locked_queue \<Rightarrow> 'a locked_queue option" where
  "lq_cancel q = (if lq_held q then None else Some (q\<lparr>lq_canceled := True\<rparr>))"

definition lq_cancelled :: "'a locked_queue \<Rightarrow> bool option" where
  "lq_cancelled q = (if lq_held q then None else Some (lq_canceled q))"

definition lq_pop_front :: "'a locked_queue \<Rightarrow> 'a locked_queue option" where
  "lq_pop_front q = (if lq_held q \<or> lq_items q = [] then None else Some (q\<lparr>lq_items := tl (lq_items q)\<rparr>))"

definition lq_empty :: "'a locked_queue \<Rightarrow> bool option" where
  "lq_empty q = (if lq_held q then None else Some (lq_items q = []))"

section \<open>ProducerConsumerQueue\<close>

record 'a pc_queue =
  pq_items :: "'a list"
  pq_shutdown :: bool

definition pq_new :: "'a pc_queue" where
  "pq_new = \<lparr>pq_items = [], pq_shutdown = False\<rparr>"

definition pq_Push :: "'a \<Rightarrow> 'a pc_queue \<Rightarrow> 'a pc_queue option" where
  "pq_Push v q = Some (q\<lparr>pq_items := pq_items q @ [v]\<rparr>)"

definition pq_Empty :: "'a pc_queue \<Rightarrow> bool" where
  "pq_Empty q \<longleftrightarrow> pq_items q = []"

definition pq_Pop :: "'a pc_queue \<Rightarrow> ('a option \<times> 'a pc_queue) option" where
  "pq_Pop q =
     Some (if pq_items q = [] \<or> pq_shutdown q then (None, q)
           else (Some (hd (pq_items q)), q\<lparr>pq_items := tl (pq_items q)\<rparr>))"

text \<open>\<open>None\<close> is a call that waits for the next notification.\<close>

definition pq_WaitAndPop :: "'a pc_queue \<Rightarrow> ('a option \<times> 'a pc_queue) option" where
  "pq_WaitAndPop q = (if pq_items q = [] \<and> \<not> pq_shutdown q then None else pq_Pop q)"

text \<open>\<open>Cancel\<close>, with the objects it deletes.\<close>

definition pq_Cancel :: "'a pc_queue \<Rightarrow> 'a list \<times> 'a pc_queue" where
  "pq_Cancel q = (pq_items q, q\<lparr>pq_items := [], pq_shutdown := True\<rparr>)"

section \<open>Both are queues\<close>

interpretation locked: fifo lq_add lq_next lq_items "\<lambda>q. \<not> lq_held q"
  by unfold_locales (auto simp: lq_add_def lq_lock_def lq_unlock_def lq_next_def)

interpretation pc: fifo pq_Push pq_Pop pq_items "\<lambda>q. \<not> pq_shutdown q"
  by unfold_locales (auto simp: pq_Push_def pq_Pop_def)

lemma waiting_ends: "pq_WaitAndPop (the (pq_Push v q)) \<noteq> None" "pq_WaitAndPop (snd (pq_Cancel q)) \<noteq> None"
  by (simp_all add: pq_WaitAndPop_def pq_Push_def pq_Cancel_def pq_Pop_def)

text \<open>
  C36. Both queues refine a list: in whatever order the threads get the mutex, no operation fails, and
  what has been got, followed by what is left, is what was there, followed by what has been put, as
  long as nobody keeps the mutex of the one or cancels the other.
\<close>

theorem queues_fifo:
  assumes "\<not> lq_held q" and "\<not> pq_shutdown p"
  shows "(\<exists>outs q'. run_queue lq_add lq_next ops q = Some (outs, q') \<and> \<not> lq_held q' \<and>
      outs @ lq_items q' = lq_items q @ puts_of ops) \<and>
    (\<exists>outs p'. run_queue pq_Push pq_Pop ops p = Some (outs, p') \<and> \<not> pq_shutdown p' \<and>
      outs @ pq_items p' = pq_items p @ puts_of ops)"
  using locked.run_fifo [OF assms(1)] pc.run_fifo [OF assms(2)] by blast

theorem queues_fifo_witness:
  "\<exists>outs q'. run_queue lq_add lq_next [Put (3 :: nat), Get, Put 2, Get, Get] lq_new = Some (outs, q') \<and>
     outs @ lq_items q' = [3, 2]"
proof -
  have "\<not> lq_held (lq_new :: nat locked_queue)" "\<not> pq_shutdown (pq_new :: nat pc_queue)" "lq_items (lq_new :: nat locked_queue) = []"
    by (simp_all add: lq_new_def pq_new_def)
  then show ?thesis using queues_fifo [of "lq_new :: nat locked_queue" pq_new "[Put 3, Get, Put 2, Get, Get]"] by auto
qed

end
