(* ===== verification/Mpsc_Queue.thy ===== *)
theory Mpsc_Queue
  imports Prelude
begin

text \<open>
  \<^verbatim>\<open>Utinities/MPSCQueue.h\<close>: the lock-free queue with many producers and one consumer.  Every access
  to shared memory is a step of its own, and the steps of the threads interleave in any order.
  Nodes are addresses; \<open>mq_next\<close> and \<open>mq_data\<close> are their fields, \<open>mq_freed\<close> the nodes that were
  deleted.  \<open>mq_bad\<close> is set by a step that touches a deleted node.  \<open>mq_in\<close> and \<open>mq_out\<close> record the
  history: the values in the order in which the producers exchanged the head, and the values
  that \<open>Dequeue\<close> returned.
\<close>

section \<open>State and steps\<close>

datatype producer = PIdle | PNew nat | PLink nat nat
datatype consumer = CIdle | CRead nat | CTake nat nat | CFree nat

record 'a mpsc =
  mq_data :: "nat \<Rightarrow> 'a"
  mq_next :: "nat \<Rightarrow> nat option"
  mq_head :: nat
  mq_tail :: nat
  mq_new :: nat
  mq_freed :: "nat set"
  mq_prod :: "nat \<Rightarrow> producer"
  mq_cons :: consumer
  mq_bad :: bool
  mq_in :: "'a list"
  mq_out :: "'a list"

text \<open>The constructor; the data of the first node is never initialised.\<close>

definition mq_init :: "(nat \<Rightarrow> 'a) \<Rightarrow> 'a mpsc" where
  "mq_init junk = \<lparr>mq_data = junk, mq_next = (\<lambda>_. None), mq_head = 0, mq_tail = 0, mq_new = 1, mq_freed = {},
     mq_prod = (\<lambda>_. PIdle), mq_cons = CIdle, mq_bad = False, mq_in = [], mq_out = []\<rparr>"

text \<open>\<open>Enqueue\<close>: the new node, the exchange of the head, and the link from the previous head.\<close>

definition enq_new :: "nat \<Rightarrow> 'a \<Rightarrow> 'a mpsc \<Rightarrow> 'a mpsc" where
  "enq_new p x s = s\<lparr>mq_data := (mq_data s)(mq_new s := x), mq_next := (mq_next s)(mq_new s := None),
     mq_new := mq_new s + 1, mq_prod := (mq_prod s)(p := PNew (mq_new s))\<rparr>"

definition enq_exchange :: "nat \<Rightarrow> nat \<Rightarrow> 'a mpsc \<Rightarrow> 'a mpsc" where
  "enq_exchange p n s = s\<lparr>mq_head := n, mq_prod := (mq_prod s)(p := PLink (mq_head s) n),
     mq_in := mq_in s @ [mq_data s n]\<rparr>"

definition enq_link :: "nat \<Rightarrow> nat \<Rightarrow> nat \<Rightarrow> 'a mpsc \<Rightarrow> 'a mpsc" where
  "enq_link p prev n s = s\<lparr>mq_next := (mq_next s)(prev := Some n), mq_prod := (mq_prod s)(p := PIdle),
     mq_bad := (mq_bad s \<or> prev \<in> mq_freed s)\<rparr>"

text \<open>
  \<open>Dequeue\<close>: the load of the tail, the load of its successor (a null pointer ends the call with
  \<open>false\<close>), the data and the new tail, and the deletion of the old one.
\<close>

definition deq_tail :: "'a mpsc \<Rightarrow> 'a mpsc" where
  "deq_tail s = s\<lparr>mq_cons := CRead (mq_tail s)\<rparr>"

definition deq_next :: "nat \<Rightarrow> 'a mpsc \<Rightarrow> 'a mpsc" where
  "deq_next t s = s\<lparr>mq_cons := (case mq_next s t of None \<Rightarrow> CIdle | Some n \<Rightarrow> CTake t n),
     mq_bad := (mq_bad s \<or> t \<in> mq_freed s)\<rparr>"

definition deq_take :: "nat \<Rightarrow> nat \<Rightarrow> 'a mpsc \<Rightarrow> 'a mpsc" where
  "deq_take t n s = s\<lparr>mq_out := mq_out s @ [mq_data s n], mq_tail := n, mq_cons := CFree t,
     mq_bad := (mq_bad s \<or> n \<in> mq_freed s)\<rparr>"

definition deq_free :: "nat \<Rightarrow> 'a mpsc \<Rightarrow> 'a mpsc" where
  "deq_free t s = s\<lparr>mq_freed := insert t (mq_freed s), mq_cons := CIdle, mq_bad := (mq_bad s \<or> t \<in> mq_freed s)\<rparr>"

inductive mq_step :: "'a mpsc \<Rightarrow> 'a mpsc \<Rightarrow> bool" where
  new: "mq_prod s p = PIdle \<Longrightarrow> mq_step s (enq_new p x s)"
| exchange: "mq_prod s p = PNew n \<Longrightarrow> mq_step s (enq_exchange p n s)"
| link: "mq_prod s p = PLink prev n \<Longrightarrow> mq_step s (enq_link p prev n s)"
| tail: "mq_cons s = CIdle \<Longrightarrow> mq_step s (deq_tail s)"
| "next": "mq_cons s = CRead t \<Longrightarrow> mq_step s (deq_next t s)"
| take: "mq_cons s = CTake t n \<Longrightarrow> mq_step s (deq_take t n s)"
| free: "mq_cons s = CFree t \<Longrightarrow> mq_step s (deq_free t s)"

inductive mq_reach :: "'a mpsc \<Rightarrow> bool" where
  init: "mq_reach (mq_init junk)"
| step: "mq_reach s \<Longrightarrow> mq_step s s' \<Longrightarrow> mq_reach s'"

inductive_cases mq_stepE: "mq_step s s'"

text \<open>The destructor, when no other thread uses the queue: the nodes it deletes, in order.\<close>

partial_function (option) mq_drain :: "(nat \<Rightarrow> nat option) \<Rightarrow> nat \<Rightarrow> nat list \<Rightarrow> nat list option" where
  "mq_drain next t freed = (if next t = None then Some (freed @ [t]) else mq_drain next (the (next t)) (freed @ [t]))"

definition mq_destroy :: "'a mpsc \<Rightarrow> nat list option" where
  "mq_destroy s = mq_drain (mq_next s) (mq_tail s) []"

section \<open>Invariant\<close>

text \<open>
  \<open>chain s ns\<close>: the nodes from the tail to the head in the order of the exchanges.  Neighbours are
  linked, or a producer is about to link them.
\<close>

definition linked :: "'a mpsc \<Rightarrow> nat list \<Rightarrow> bool" where
  "linked s ns \<longleftrightarrow> (\<forall>i. Suc i < length ns \<longrightarrow> mq_next s (ns ! i) = Some (ns ! Suc i) \<or>
     mq_next s (ns ! i) = None \<and> (\<exists>p. mq_prod s p = PLink (ns ! i) (ns ! Suc i)))"

definition pending :: "'a mpsc \<Rightarrow> nat list \<Rightarrow> bool" where
  "pending s ns \<longleftrightarrow> (\<forall>p a b. mq_prod s p = PLink a b \<longrightarrow> mq_next s a = None \<and>
     (\<exists>i. Suc i < length ns \<and> a = ns ! i \<and> b = ns ! Suc i) \<and> (\<forall>q a'. mq_prod s q = PLink a' b \<longrightarrow> q = p))"

definition fresh_nodes :: "'a mpsc \<Rightarrow> nat list \<Rightarrow> bool" where
  "fresh_nodes s ns \<longleftrightarrow> (\<forall>p n. mq_prod s p = PNew n \<longrightarrow> n < mq_new s \<and> n \<notin> set ns \<and> n \<notin> mq_freed s \<and>
     mq_next s n = None \<and> mq_cons s \<noteq> CFree n \<and> (\<forall>q. mq_prod s q = PNew n \<longrightarrow> q = p))"

definition consumer_ok :: "'a mpsc \<Rightarrow> nat list \<Rightarrow> bool" where
  "consumer_ok s ns \<longleftrightarrow> (case mq_cons s of
     CIdle \<Rightarrow> True
   | CRead t \<Rightarrow> t = mq_tail s
   | CTake t n \<Rightarrow> t = mq_tail s \<and> mq_next s t = Some n
   | CFree t \<Rightarrow> t \<notin> set ns \<and> t \<notin> mq_freed s \<and> t < mq_new s)"

definition mq_inv :: "'a mpsc \<Rightarrow> nat list \<Rightarrow> bool" where
  "mq_inv s ns \<longleftrightarrow> ns \<noteq> [] \<and> hd ns = mq_tail s \<and> last ns = mq_head s \<and> distinct ns \<and> mq_next s (mq_head s) = None \<and>
     (\<forall>n \<in> set ns. n < mq_new s \<and> n \<notin> mq_freed s) \<and> (\<forall>n \<in> mq_freed s. n < mq_new s) \<and>
     linked s ns \<and> pending s ns \<and> fresh_nodes s ns \<and> consumer_ok s ns \<and>
     \<not> mq_bad s \<and> mq_in s = mq_out s @ map (mq_data s) (tl ns)"

lemmas mq_inv_defs = mq_inv_def linked_def pending_def fresh_nodes_def consumer_ok_def

lemma mq_inv_init: "mq_inv (mq_init junk) [0]"
  by (simp add: mq_inv_defs mq_init_def)

lemma mq_invD:
  assumes "mq_inv s ns"
  shows "ns \<noteq> []" "hd ns = mq_tail s" "last ns = mq_head s" "distinct ns" "mq_next s (mq_head s) = None"
    "n \<in> set ns \<Longrightarrow> n < mq_new s" "n \<in> set ns \<Longrightarrow> n \<notin> mq_freed s" "n \<in> mq_freed s \<Longrightarrow> n < mq_new s"
    "linked s ns" "pending s ns" "fresh_nodes s ns" "consumer_ok s ns" "\<not> mq_bad s"
    "mq_in s = mq_out s @ map (mq_data s) (tl ns)" "mq_tail s \<in> set ns" "mq_head s \<in> set ns"
  using assms hd_in_set [of ns] last_in_set [of ns] by (auto simp: mq_inv_def)

lemma linkedD:
  "linked s ns \<Longrightarrow> Suc i < length ns \<Longrightarrow> mq_next s (ns ! i) = Some (ns ! Suc i) \<or>
     mq_next s (ns ! i) = None \<and> (\<exists>p. mq_prod s p = PLink (ns ! i) (ns ! Suc i))"
  by (auto simp: linked_def)

lemma pendingD:
  assumes "pending s ns" "mq_prod s p = PLink a b"
  shows "mq_next s a = None" "\<exists>i. Suc i < length ns \<and> a = ns ! i \<and> b = ns ! Suc i" "mq_prod s q = PLink a' b \<Longrightarrow> q = p"
  using assms unfolding pending_def by blast+

lemma pending_in: "pending s ns \<Longrightarrow> mq_prod s p = PLink a b \<Longrightarrow> a \<in> set ns \<and> b \<in> set ns"
  using pendingD(2) by fastforce

lemma freshD:
  assumes "fresh_nodes s ns" "mq_prod s p = PNew n"
  shows "n < mq_new s" "n \<notin> set ns" "n \<notin> mq_freed s" "mq_next s n = None" "mq_cons s \<noteq> CFree n" "mq_prod s q = PNew n \<Longrightarrow> q = p"
  using assms unfolding fresh_nodes_def by blast+

section \<open>Every step keeps the invariant\<close>

lemma enq_new_inv:
  assumes inv: "mq_inv s ns" and p: "mq_prod s p = PIdle"
  shows "mq_inv (enq_new p x s) ns"
proof -
  note D = mq_invD [OF inv]
  have n: "mq_new s \<notin> set ns" "mq_new s \<notin> mq_freed s" using D(6,8) by blast+
  have neq: "ns ! i \<noteq> mq_new s" if "i < length ns" for i using n(1) that nth_mem by metis
  have "linked (enq_new p x s) ns" unfolding linked_def
  proof (intro allI impI)
    fix i assume i: "Suc i < length ns"
    have "\<exists>q. q \<noteq> p \<and> mq_prod s q = PLink (ns ! i) (ns ! Suc i)" if "mq_prod s q = PLink (ns ! i) (ns ! Suc i)" for q
      using that p by (metis producer.distinct(3))
    then show "mq_next (enq_new p x s) (ns ! i) = Some (ns ! Suc i) \<or> mq_next (enq_new p x s) (ns ! i) = None \<and>
        (\<exists>q. mq_prod (enq_new p x s) q = PLink (ns ! i) (ns ! Suc i))"
      using linkedD [OF D(9) i] neq [of i] i by (auto simp: enq_new_def)
  qed
  moreover have "pending (enq_new p x s) ns"
    using D(10) pending_in [OF D(10)] n(1) unfolding pending_def enq_new_def by simp
  moreover have "fresh_nodes (enq_new p x s) ns"
  proof -
    have "mq_cons s \<noteq> CFree (mq_new s)" using D(12) by (auto simp: consumer_ok_def)
    moreover have "m \<noteq> mq_new s" if "mq_prod s q = PNew m" for q m using freshD(1) [OF D(11) that] by simp
    ultimately show ?thesis using D(11) n unfolding fresh_nodes_def enq_new_def
      by (auto simp: less_SucI)
  qed
  moreover have "consumer_ok (enq_new p x s) ns"
    using D(12,15) n(1) by (auto simp: consumer_ok_def enq_new_def split: consumer.splits)
  moreover have "map ((mq_data s)(mq_new s := x)) (tl ns) = map (mq_data s) (tl ns)"
    using n(1) list.set_sel(2) [OF D(1)] by (auto intro!: map_cong)
  ultimately show ?thesis using D n unfolding mq_inv_def by (auto simp: enq_new_def less_SucI)
qed

lemma enq_exchange_inv:
  assumes inv: "mq_inv s ns" and p: "mq_prod s p = PNew n"
  shows "mq_inv (enq_exchange p n s) (ns @ [n])"
proof -
  note D = mq_invD [OF inv]
  note F = freshD [OF D(11) p]
  let ?s = "enq_exchange p n s"
  have lst: "ns ! (length ns - 1) = mq_head s" using D(1,3) by (simp add: last_conv_nth)
  have keep: "\<exists>q. mq_prod ?s q = PLink a b" if q: "mq_prod s q = PLink a b" for q a b
  proof -
    have "q \<noteq> p" using p q by auto
    then have "mq_prod ?s q = PLink a b" using q by (simp add: enq_exchange_def)
    then show ?thesis by blast
  qed
  have "linked ?s (ns @ [n])" unfolding linked_def
  proof (intro allI impI)
    fix i assume i: "Suc i < length (ns @ [n])"
    show "mq_next ?s ((ns @ [n]) ! i) = Some ((ns @ [n]) ! Suc i) \<or> mq_next ?s ((ns @ [n]) ! i) = None \<and>
        (\<exists>q. mq_prod ?s q = PLink ((ns @ [n]) ! i) ((ns @ [n]) ! Suc i))"
    proof (cases "Suc i < length ns")
      case True
      then have at: "(ns @ [n]) ! i = ns ! i" "(ns @ [n]) ! Suc i = ns ! Suc i" by (simp_all add: nth_append)
      have "mq_next ?s = mq_next s" by (simp add: enq_exchange_def)
      then show ?thesis using linkedD [OF D(9) True] keep unfolding at by metis
    next
      case False
      then have "i = length ns - 1" using i by simp
      then show ?thesis using lst D(1,5) by (auto simp: enq_exchange_def nth_append)
    qed
  qed
  moreover have "pending ?s (ns @ [n])" unfolding pending_def
  proof (intro allI impI)
    fix q a b assume q: "mq_prod ?s q = PLink a b"
    show "mq_next ?s a = None \<and> (\<exists>i. Suc i < length (ns @ [n]) \<and> a = (ns @ [n]) ! i \<and> b = (ns @ [n]) ! Suc i) \<and>
        (\<forall>r a'. mq_prod ?s r = PLink a' b \<longrightarrow> r = q)"
    proof (cases "q = p")
      case True
      then have ab: "a = mq_head s" "b = n" using q by (auto simp: enq_exchange_def)
      moreover have "\<exists>i. Suc i < length (ns @ [n]) \<and> a = (ns @ [n]) ! i \<and> b = (ns @ [n]) ! Suc i"
        using ab lst D(1) by (intro exI [of _ "length ns - 1"]) (simp add: nth_append)
      moreover have "r = q" if "mq_prod ?s r = PLink a' b" for r a'
        using that pending_in [OF D(10), of r a' n] F(2) True ab(2) by (auto simp: enq_exchange_def split: if_splits)
      moreover have "mq_next ?s a = None" using ab D(5) by (simp add: enq_exchange_def)
      ultimately show ?thesis using True by blast
    next
      case False
      then have q': "mq_prod s q = PLink a b" using q by (simp add: enq_exchange_def)
      note P = pendingD [OF D(10) q']
      have "b \<noteq> n" using pending_in [OF D(10) q'] F(2) by blast
      moreover obtain i where "Suc i < length ns" "a = ns ! i" "b = ns ! Suc i" using P(2) by blast
      then have "\<exists>i. Suc i < length (ns @ [n]) \<and> a = (ns @ [n]) ! i \<and> b = (ns @ [n]) ! Suc i"
        by (intro exI [of _ i]) (simp add: nth_append)
      ultimately show ?thesis using P(1,3) by (auto simp: enq_exchange_def split: if_splits)
    qed
  qed
  moreover have "fresh_nodes ?s (ns @ [n])"
    using D(11) F(6) unfolding fresh_nodes_def by (auto simp: enq_exchange_def split: if_splits)
  moreover have "consumer_ok ?s (ns @ [n])"
    using D(12) F(5) by (auto simp: consumer_ok_def enq_exchange_def split: consumer.splits)
  ultimately show ?thesis using D F unfolding mq_inv_def by (auto simp: enq_exchange_def)
qed

lemma enq_link_inv:
  assumes inv: "mq_inv s ns" and p: "mq_prod s p = PLink a b"
  shows "mq_inv (enq_link p a b s) ns"
proof -
  note D = mq_invD [OF inv]
  note P = pendingD [OF D(10) p]
  let ?s = "enq_link p a b s"
  obtain i where i: "Suc i < length ns" "a = ns ! i" "b = ns ! Suc i" using P(2) by blast
  have only: "a' = a \<longleftrightarrow> q = p" if q: "mq_prod s q = PLink a' b'" for q a' b'
  proof
    assume "a' = a"
    obtain j where "Suc j < length ns" "a' = ns ! j" "b' = ns ! Suc j" using pendingD(2) [OF D(10) q] by blast
    then have "b' = b" using i \<open>a' = a\<close> D(4) by (metis Suc_lessD nth_eq_iff_index_eq)
    then show "q = p" using P(3) q by blast
  qed (use p q in simp)
  have "a \<noteq> mq_head s"
  proof
    assume "a = mq_head s"
    then have "ns ! i = ns ! (length ns - 1)" using i D(1,3) by (simp add: last_conv_nth)
    then show False using i(1) D(4) by (simp add: nth_eq_iff_index_eq)
  qed
  moreover have "linked ?s ns" unfolding linked_def
  proof (intro allI impI)
    fix j assume j: "Suc j < length ns"
    show "mq_next ?s (ns ! j) = Some (ns ! Suc j) \<or> mq_next ?s (ns ! j) = None \<and>
        (\<exists>q. mq_prod ?s q = PLink (ns ! j) (ns ! Suc j))"
    proof (cases "j = i")
      case True
      then show ?thesis using i by (simp add: enq_link_def)
    next
      case False
      then have "ns ! j \<noteq> a" using i j D(4) by (simp add: nth_eq_iff_index_eq)
      then show ?thesis using linkedD [OF D(9) j] only by (auto simp: enq_link_def)
    qed
  qed
  moreover have "pending ?s ns"
    using D(10) only unfolding pending_def by (auto simp: enq_link_def split: if_splits)
  moreover have "fresh_nodes ?s ns"
    using D(11) pending_in [OF D(10) p] unfolding fresh_nodes_def by (auto simp: enq_link_def split: if_splits)
  moreover have "consumer_ok ?s ns"
    using D(12) P(1) by (auto simp: consumer_ok_def enq_link_def split: consumer.splits)
  moreover have "a \<notin> mq_freed s" using D(7) pending_in [OF D(10) p] by blast
  ultimately show ?thesis using D unfolding mq_inv_def by (auto simp: enq_link_def)
qed

text \<open>The consumer's steps.\<close>

lemma same_shared:
  assumes "linked s ns" "pending s ns" "fresh_nodes s ns"
    and "mq_next s' = mq_next s" "mq_prod s' = mq_prod s" "mq_freed s' = mq_freed s" "mq_new s' = mq_new s"
    and "\<forall>t. mq_cons s' \<noteq> CFree t"
  shows "linked s' ns" "pending s' ns" "fresh_nodes s' ns"
  using assms by (auto simp: linked_def pending_def fresh_nodes_def)

lemma deq_tail_inv: "mq_inv s ns \<Longrightarrow> mq_inv (deq_tail s) ns"
  using same_shared [of s ns "deq_tail s"] by (simp add: mq_inv_def deq_tail_def consumer_ok_def)

lemma deq_next_inv:
  assumes inv: "mq_inv s ns" and c: "mq_cons s = CRead t"
  shows "mq_inv (deq_next t s) ns"
proof -
  note D = mq_invD [OF inv]
  have t: "t = mq_tail s" "t \<notin> mq_freed s" using D(7,12,15) c by (auto simp: consumer_ok_def)
  have "linked (deq_next t s) ns" "pending (deq_next t s) ns" "fresh_nodes (deq_next t s) ns"
    by (rule same_shared [OF D(9-11)]; simp add: deq_next_def split: option.split)+
  then show ?thesis using D t unfolding mq_inv_def by (auto simp: deq_next_def consumer_ok_def split: option.splits)
qed

lemma deq_take_inv:
  assumes inv: "mq_inv s ns" and c: "mq_cons s = CTake t n"
  shows "mq_inv (deq_take t n s) (tl ns) \<and> (\<exists>ms. ns = t # n # ms)"
proof -
  note D = mq_invD [OF inv]
  have t: "t = mq_tail s" "mq_next s t = Some n" using D(12) c by (auto simp: consumer_ok_def)
  obtain ms where ns: "ns = t # n # ms"
  proof (cases ns)
    case (Cons a as)
    then have a: "a = t" using D(2) t by simp
    then have "as \<noteq> []" using D(3,5) t(2) Cons by (cases as) auto
    then obtain b bs where as: "as = b # bs" by (cases as) auto
    then have "b = n" using linkedD [OF D(9), of 0] Cons a t(2) by auto
    then show ?thesis using that Cons a as by simp
  qed (use D(1) in simp)
  let ?s = "deq_take t n s"
  have ix: "\<exists>i. Suc i < length (n # ms) \<and> a = (n # ms) ! i \<and> b = (n # ms) ! Suc i"
    if p: "mq_prod s p = PLink a b" for p a b
  proof -
    obtain i where i: "Suc i < length ns" "a = ns ! i" "b = ns ! Suc i" using pendingD(2) [OF D(10) p] by blast
    have "i \<noteq> 0" using pendingD(1) [OF D(10) p] i(2) t(2) ns by (cases i) auto
    then show ?thesis using i ns by (cases i) auto
  qed
  have "linked ?s (n # ms)" unfolding linked_def
  proof (intro allI impI)
    fix i assume "Suc i < length (n # ms)"
    then show "mq_next ?s ((n # ms) ! i) = Some ((n # ms) ! Suc i) \<or> mq_next ?s ((n # ms) ! i) = None \<and>
        (\<exists>q. mq_prod ?s q = PLink ((n # ms) ! i) ((n # ms) ! Suc i))"
      using linkedD [OF D(9), of "Suc i"] ns by (simp add: deq_take_def)
  qed
  moreover have "pending ?s (n # ms)" using D(10) ix unfolding pending_def by (simp add: deq_take_def)
  moreover have "fresh_nodes ?s (n # ms)" using D(11) ns unfolding fresh_nodes_def by (auto simp: deq_take_def)
  moreover have "consumer_ok ?s (n # ms)" using D(4,6,7) ns by (auto simp: consumer_ok_def deq_take_def)
  ultimately have "mq_inv ?s (n # ms)" using D ns unfolding mq_inv_def by (auto simp: deq_take_def)
  then show ?thesis using ns by simp
qed

lemma deq_free_inv:
  assumes inv: "mq_inv s ns" and c: "mq_cons s = CFree t"
  shows "mq_inv (deq_free t s) ns"
proof -
  note D = mq_invD [OF inv]
  have t: "t \<notin> set ns" "t \<notin> mq_freed s" "t < mq_new s" using D(12) c by (auto simp: consumer_ok_def)
  have "fresh_nodes (deq_free t s) ns" using D(11) c unfolding fresh_nodes_def by (auto simp: deq_free_def)
  moreover have "linked (deq_free t s) ns" "pending (deq_free t s) ns"
    using D(9,10) by (simp_all add: linked_def pending_def deq_free_def)
  ultimately show ?thesis using D t unfolding mq_inv_def by (auto simp: deq_free_def consumer_ok_def)
qed

lemma mq_step_inv: "mq_inv s ns \<Longrightarrow> mq_step s s' \<Longrightarrow> \<exists>ns'. mq_inv s' ns'"
  by (erule mq_stepE)
    (use enq_new_inv enq_exchange_inv enq_link_inv deq_tail_inv deq_next_inv deq_take_inv deq_free_inv in \<open>fast | metis\<close>)+

lemma mq_reach_inv: "mq_reach s \<Longrightarrow> \<exists>ns. mq_inv s ns"
  by (induction rule: mq_reach.induct) (use mq_inv_init mq_step_inv in blast)+

section \<open>Properties\<close>

text \<open>The producers that have exchanged the head and not yet linked their node.\<close>

definition in_flight :: "'a mpsc \<Rightarrow> bool" where
  "in_flight s \<longleftrightarrow> (\<exists>p a b. mq_prod s p = PLink a b)"

lemma mpsc_facts:
  assumes "mq_reach s"
  shows "\<not> mq_bad s" "\<exists>rest. mq_in s = mq_out s @ rest"
    "mq_cons s = CRead t \<Longrightarrow> \<not> in_flight s \<Longrightarrow> mq_next s t = None \<Longrightarrow> mq_in s = mq_out s"
    "mq_cons s = CTake t n \<Longrightarrow> \<exists>rest. mq_in s = mq_out s @ mq_data s n # rest"
proof -
  obtain ns where inv: "mq_inv s ns" using mq_reach_inv [OF assms] by blast
  note D = mq_invD [OF inv]
  show "\<not> mq_bad s" "\<exists>rest. mq_in s = mq_out s @ rest" using D by auto
  show "\<exists>rest. mq_in s = mq_out s @ mq_data s n # rest" if "mq_cons s = CTake t n"
    using deq_take_inv [OF inv that] D(14) by auto
  show "mq_in s = mq_out s" if c: "mq_cons s = CRead t" "\<not> in_flight s" "mq_next s t = None"
  proof (cases ns)
    case (Cons a as)
    have "a = t" using Cons D(2,12) c(1) by (simp add: consumer_ok_def)
    then have "as = []" using linkedD [OF D(9), of 0] Cons c(2,3) by (cases as) (auto simp: in_flight_def)
    then show ?thesis using D(14) Cons by simp
  qed (use D(1) in simp)
qed

text \<open>
  C33. The lock-free queue is a queue: whatever the interleaving, no step touches a deleted node,
  \<open>Dequeue\<close> returns the values in the order in which the producers exchanged the head, each once,
  and it returns \<open>false\<close> only when every value has been returned or a producer is between its
  exchange and its link.
\<close>

theorem mpsc_linearizable:
  assumes "mq_reach s"
  shows "\<not> mq_bad s \<and> (\<exists>rest. mq_in s = mq_out s @ rest) \<and>
    (\<forall>t n. mq_cons s = CTake t n \<longrightarrow> (\<exists>rest. mq_in s = mq_out s @ mq_data s n # rest)) \<and>
    (\<forall>t. mq_cons s = CRead t \<longrightarrow> \<not> in_flight s \<longrightarrow> mq_next s t = None \<longrightarrow> mq_in s = mq_out s)"
  using mpsc_facts [OF assms] by blast

text \<open>The destructor of a queue at rest deletes every node that is left.\<close>

lemma mq_drain_chain:
  "ns \<noteq> [] \<Longrightarrow> (\<forall>i. Suc i < length ns \<longrightarrow> next (ns ! i) = Some (ns ! Suc i)) \<Longrightarrow> next (last ns) = None \<Longrightarrow>
    mq_drain next (hd ns) freed = Some (freed @ ns)"
proof (induction ns arbitrary: freed)
  case (Cons a as)
  show ?case
  proof (cases as)
    case Nil
    then show ?thesis using Cons.prems(3) by (simp add: mq_drain.simps)
  next
    case (Cons b bs)
    then have "next a = Some b" using Cons.prems(2) [rule_format, of 0] by simp
    moreover have "mq_drain next (hd as) (freed @ [a]) = Some ((freed @ [a]) @ as)"
      using Cons Cons.prems(2) [rule_format, of "Suc i" for i] Cons.prems(3) by (intro Cons.IH) auto
    ultimately show ?thesis using Cons by (subst mq_drain.simps) simp
  qed
qed simp

lemma mq_destroy_frees:
  assumes "mq_inv s ns" and "\<not> in_flight s"
  shows "mq_destroy s = Some ns"
proof -
  note D = mq_invD [OF assms(1)]
  have "\<forall>i. Suc i < length ns \<longrightarrow> mq_next s (ns ! i) = Some (ns ! Suc i)"
    using linkedD [OF D(9)] assms(2) unfolding in_flight_def by blast
  then show ?thesis using mq_drain_chain [of ns "mq_next s" "[]"] D(1,2,3,5) by (simp add: mq_destroy_def)
qed

definition mq_demo :: "char mpsc" where
  "mq_demo = deq_tail (enq_exchange 0 1 (enq_new 0 CHR ''a'' (mq_init (\<lambda>_. CHR ''z''))))"

theorem mpsc_linearizable_witness:
  "\<not> mq_bad mq_demo \<and> mq_in mq_demo = [CHR ''a''] \<and> mq_out mq_demo = []"
proof -
  let ?s = "mq_init (\<lambda>_. CHR ''z'')"
  have 1: "mq_reach (enq_new 0 CHR ''a'' ?s)"
    by (rule mq_reach.step [OF mq_reach.init mq_step.new]) (simp add: mq_init_def)
  have 2: "mq_reach (enq_exchange 0 1 (enq_new 0 CHR ''a'' ?s))"
    by (rule mq_reach.step [OF 1 mq_step.exchange]) (simp add: mq_init_def enq_new_def)
  have "mq_reach mq_demo" unfolding mq_demo_def
    by (rule mq_reach.step [OF 2 mq_step.tail]) (simp add: mq_init_def enq_new_def enq_exchange_def)
  then have "\<not> mq_bad mq_demo" using mpsc_linearizable by blast
  then show ?thesis by (simp add: mq_demo_def mq_init_def enq_new_def enq_exchange_def deq_tail_def)
qed

end
