(* ===== verification/Thread_Pool.thy ===== *)
theory Thread_Pool
  imports Prelude
begin

text \<open>
  \<^verbatim>\<open>Threading/ThreadPool.h/.cpp\<close> and \<^verbatim>\<open>ThreadManager.h/.cpp\<close>: workers that take tasks from a queue
  under a mutex and a condition variable.  What a thread does while it holds the mutex is one
  step; a notification is a step of its own, because the notifier has released the mutex.  A
  sleeping worker may also wake up for no reason.  Tasks are values of type \<open>'t\<close>; \<open>tp_in\<close> and
  \<open>tp_ran\<close> are the history of tasks accepted and taken.
\<close>

section \<open>State and steps\<close>

text \<open>A worker is about to look at the queue, asleep on the condition, in a task, or has returned.\<close>

datatype 't worker = Looking | Asleep | Running 't | Exited

record 't pool =
  tp_size :: nat
  tp_worker :: "nat \<Rightarrow> 't worker"
  tp_tasks :: "'t list"
  tp_stop :: bool
  tp_notify :: nat
  tp_notify_all :: bool
  tp_in :: "'t list"
  tp_ran :: "'t list"

definition tp_new :: "nat \<Rightarrow> 't pool" where
  "tp_new threads = \<lparr>tp_size = threads, tp_worker = (\<lambda>_. Looking), tp_tasks = [], tp_stop = False, tp_notify = 0,
     tp_notify_all = False, tp_in = [], tp_ran = []\<rparr>"

definition tp_Predicate :: "'t pool \<Rightarrow> bool" where
  "tp_Predicate s \<longleftrightarrow> tp_stop s \<or> tp_tasks s \<noteq> []"

text \<open>\<open>enqueue\<close> on a stopped pool throws; otherwise it owes one notification.\<close>

datatype enqueue_error = EnqueueOnStopped

definition tp_enqueue :: "'t \<Rightarrow> 't pool \<Rightarrow> enqueue_error + 't pool" where
  "tp_enqueue t s =
     (if tp_stop s then Inl EnqueueOnStopped
      else Inr (s\<lparr>tp_tasks := tp_tasks s @ [t], tp_in := tp_in s @ [t], tp_notify := tp_notify s + 1\<rparr>))"

text \<open>One pass of a worker that holds the mutex.\<close>

definition set_worker :: "nat \<Rightarrow> 't worker \<Rightarrow> 't pool \<Rightarrow> 't pool" where
  "set_worker i w s = s\<lparr>tp_worker := (tp_worker s)(i := w)\<rparr>"

definition tp_look :: "nat \<Rightarrow> 't pool \<Rightarrow> 't pool" where
  "tp_look i s =
     (if \<not> tp_Predicate s then set_worker i Asleep s
      else if tp_stop s \<and> tp_tasks s = [] then set_worker i Exited s
      else set_worker i (Running (hd (tp_tasks s)))
             (s\<lparr>tp_tasks := tl (tp_tasks s), tp_ran := tp_ran s @ [hd (tp_tasks s)]\<rparr>))"

definition wake :: "'t worker \<Rightarrow> 't worker" where
  "wake w = (if w = Asleep then Looking else w)"

text \<open>The first half of the destructor, before it joins the workers.\<close>

definition tp_shutdown :: "'t pool \<Rightarrow> 't pool" where
  "tp_shutdown s = s\<lparr>tp_stop := True, tp_notify_all := True\<rparr>"

text \<open>The steps of the pool itself, and those of its users.\<close>

inductive work_step :: "'t pool \<Rightarrow> 't pool \<Rightarrow> bool" where
  look: "i < tp_size s \<Longrightarrow> tp_worker s i = Looking \<Longrightarrow> work_step s (tp_look i s)"
| finish: "i < tp_size s \<Longrightarrow> tp_worker s i = Running t \<Longrightarrow> work_step s (set_worker i Looking s)"
| notify: "tp_notify s > 0 \<Longrightarrow> i < tp_size s \<Longrightarrow> tp_worker s i = Asleep \<Longrightarrow>
    work_step s (set_worker i Looking (s\<lparr>tp_notify := tp_notify s - 1\<rparr>))"
| notify_lost: "tp_notify s > 0 \<Longrightarrow> \<forall>i < tp_size s. tp_worker s i \<noteq> Asleep \<Longrightarrow>
    work_step s (s\<lparr>tp_notify := tp_notify s - 1\<rparr>)"
| notify_all: "tp_notify_all s \<Longrightarrow>
    work_step s (s\<lparr>tp_notify_all := False, tp_worker := (\<lambda>i. wake (tp_worker s i))\<rparr>)"
| spurious: "i < tp_size s \<Longrightarrow> tp_worker s i = Asleep \<Longrightarrow> work_step s (set_worker i Looking s)"

inductive pool_step :: "'t pool \<Rightarrow> 't pool \<Rightarrow> bool" where
  work: "work_step s s' \<Longrightarrow> pool_step s s'"
| enqueue: "tp_enqueue t s = Inr s' \<Longrightarrow> pool_step s s'"
| shutdown: "pool_step s (tp_shutdown s)"

inductive pool_reach :: "nat \<Rightarrow> 't pool \<Rightarrow> bool" for n where
  init: "pool_reach n (tp_new n)"
| step: "pool_reach n s \<Longrightarrow> pool_step s s' \<Longrightarrow> pool_reach n s'"

inductive_cases work_stepE: "work_step s s'"
inductive_cases pool_stepE: "pool_step s s'"

text \<open>\<open>AddTask\<close> catches the exception; \<open>GetInstance\<close> makes the pool on first use; \<open>SetThreadCount\<close> counts before that.\<close>

record 't thread_manager =
  tm_instance :: "'t pool option"
  tm_default :: u32

definition default_thread_pool_size :: u32 where "default_thread_pool_size = 4"

definition tm_start :: "'t thread_manager" where
  "tm_start = \<lparr>tm_instance = None, tm_default = default_thread_pool_size\<rparr>"

definition tm_AddTask :: "'t \<Rightarrow> 't pool \<Rightarrow> 't pool" where
  "tm_AddTask t s = (case tp_enqueue t s of Inl e \<Rightarrow> s | Inr s' \<Rightarrow> s')"

definition tm_GetInstance :: "'t thread_manager \<Rightarrow> 't pool \<times> 't thread_manager" where
  "tm_GetInstance m =
     (case tm_instance m of
        Some p \<Rightarrow> (p, m)
      | None \<Rightarrow> (let p = tp_new (unat (tm_default m)) in (p, m\<lparr>tm_instance := Some p\<rparr>)))"

definition tm_SetThreadCount :: "u32 \<Rightarrow> 't thread_manager \<Rightarrow> 't thread_manager" where
  "tm_SetThreadCount n m = m\<lparr>tm_default := n\<rparr>"

section \<open>Invariant\<close>

definition looking :: "'t pool \<Rightarrow> nat" where
  "looking s = card {i. i < tp_size s \<and> tp_worker s i = Looking}"

definition some_asleep :: "'t pool \<Rightarrow> bool" where
  "some_asleep s \<longleftrightarrow> (\<exists>i < tp_size s. tp_worker s i = Asleep)"

text \<open>
  Tasks are taken in order; no task is forgotten while a worker sleeps, because a notification is
  owed or another worker is about to look for each of them; and nobody returns before the queue of
  a stopped pool is empty.
\<close>

definition pool_inv :: "'t pool \<Rightarrow> bool" where
  "pool_inv s \<longleftrightarrow> tp_in s = tp_ran s @ tp_tasks s \<and>
     (some_asleep s \<longrightarrow> length (tp_tasks s) \<le> tp_notify s + looking s) \<and>
     ((\<exists>i < tp_size s. tp_worker s i = Exited) \<longrightarrow> tp_stop s \<and> tp_tasks s = []) \<and>
     (tp_stop s \<and> some_asleep s \<longrightarrow> tp_notify_all s)"

lemma looking_set_worker:
  assumes "i < tp_size s"
  shows "looking (set_worker i w s) =
    (if w = Looking then (if tp_worker s i = Looking then looking s else looking s + 1)
     else if tp_worker s i = Looking then looking s - 1 else looking s)"
proof -
  let ?L = "{j. j < tp_size s \<and> tp_worker s j = Looking}"
  have f: "finite ?L" by simp
  have "{j. j < tp_size (set_worker i w s) \<and> tp_worker (set_worker i w s) j = Looking} =
    (if w = Looking then insert i ?L else ?L - {i})" using assms by (auto simp: set_worker_def)
  then show ?thesis using assms f by (auto simp: looking_def card_insert_if)
qed

lemma looking_pos: "i < tp_size s \<Longrightarrow> tp_worker s i = Looking \<Longrightarrow> 0 < looking s"
  by (auto simp: looking_def card_gt_0_iff)

lemma looking_same: "tp_size s' = tp_size s \<Longrightarrow> tp_worker s' = tp_worker s \<Longrightarrow> looking s' = looking s"
  by (simp add: looking_def)

lemma asleep_set_worker: "some_asleep (set_worker i w s) \<Longrightarrow> w \<noteq> Asleep \<Longrightarrow> some_asleep s"
  by (auto simp: some_asleep_def set_worker_def split: if_splits)

lemma set_worker_sel [simp]:
  "tp_size (set_worker i w s) = tp_size s" "tp_tasks (set_worker i w s) = tp_tasks s" "tp_stop (set_worker i w s) = tp_stop s"
  "tp_notify (set_worker i w s) = tp_notify s" "tp_notify_all (set_worker i w s) = tp_notify_all s"
  "tp_in (set_worker i w s) = tp_in s" "tp_ran (set_worker i w s) = tp_ran s"
  "tp_worker (set_worker i w s) = (tp_worker s)(i := w)"
  by (simp_all add: set_worker_def)

lemma pool_inv_new: "pool_inv (tp_new n)"
  by (simp add: pool_inv_def tp_new_def some_asleep_def)

lemma look_inv:
  assumes inv: "pool_inv s" and i: "i < tp_size s" "tp_worker s i = Looking"
  shows "pool_inv (tp_look i s)"
proof -
  consider (sleep) "\<not> tp_Predicate s" | (exit) "tp_stop s" "tp_tasks s = []" | (take) "tp_tasks s \<noteq> []"
    by (auto simp: tp_Predicate_def)
  then show ?thesis
  proof cases
    case sleep
    then have "tp_tasks s = []" "\<not> tp_stop s" by (auto simp: tp_Predicate_def)
    then show ?thesis using inv sleep by (auto simp: tp_look_def pool_inv_def split: if_splits)
  next
    case exit
    then have e: "tp_look i s = set_worker i Exited s" by (simp add: tp_look_def tp_Predicate_def)
    show ?thesis using inv exit asleep_set_worker [of i Exited s] unfolding e by (auto simp: pool_inv_def)
  next
    case take
    let ?t = "s\<lparr>tp_tasks := tl (tp_tasks s), tp_ran := tp_ran s @ [hd (tp_tasks s)]\<rparr>"
    let ?s = "set_worker i (Running (hd (tp_tasks s))) ?t"
    have e: "tp_look i s = ?s" using take by (simp add: tp_look_def tp_Predicate_def)
    have l: "looking ?s = looking s - 1"
      using looking_set_worker [of i ?t "Running (hd (tp_tasks s))"] i looking_same [of ?t s] by simp
    have a: "some_asleep ?s \<Longrightarrow> some_asleep s"
      using asleep_set_worker [of i "Running (hd (tp_tasks s))" ?t] by (simp add: some_asleep_def)
    have none: "\<not> (\<exists>j < tp_size s. tp_worker s j = Exited)" using inv take by (auto simp: pool_inv_def)
    show ?thesis unfolding e pool_inv_def
    proof (intro conjI impI)
      show "tp_in ?s = tp_ran ?s @ tp_tasks ?s" using inv take by (simp add: pool_inv_def)
      show "length (tp_tasks ?s) \<le> tp_notify ?s + looking ?s" if "some_asleep ?s"
        using inv a [OF that] l looking_pos [OF i] take unfolding pool_inv_def by (cases "tp_tasks s") auto
      show "tp_stop ?s" "tp_tasks ?s = []" if "\<exists>j < tp_size ?s. tp_worker ?s j = Exited"
        using that none by (auto split: if_splits)
      show "tp_notify_all ?s" if "tp_stop ?s \<and> some_asleep ?s" using inv a that by (auto simp: pool_inv_def)
    qed
  qed
qed

text \<open>A worker that is asleep or in a task looks again.\<close>

lemma look_again_inv:
  assumes inv: "pool_inv s" and i: "i < tp_size s" "tp_worker s i \<noteq> Looking" and n: "tp_notify s - 1 \<le> n"
    and m: "tp_worker s i = Asleep \<or> n = tp_notify s"
  shows "pool_inv (set_worker i Looking (s\<lparr>tp_notify := n\<rparr>))"
proof -
  let ?t = "s\<lparr>tp_notify := n\<rparr>" let ?s = "set_worker i Looking ?t"
  have l: "looking ?s = looking s + 1" using looking_set_worker [of i ?t Looking] i looking_same [of ?t s] by simp
  have a: "some_asleep ?s \<Longrightarrow> some_asleep s" using asleep_set_worker [of i Looking ?t] by (simp add: some_asleep_def)
  show ?thesis unfolding pool_inv_def
  proof (intro conjI impI)
    show "length (tp_tasks ?s) \<le> tp_notify ?s + looking ?s" if "some_asleep ?s"
      using inv a [OF that] l n unfolding pool_inv_def by auto
    show "tp_stop ?s" "tp_tasks ?s = []" if "\<exists>j < tp_size ?s. tp_worker ?s j = Exited"
      using that inv by (auto simp: pool_inv_def split: if_splits)
  qed (use inv a in \<open>auto simp: pool_inv_def\<close>)
qed

lemma notify_lost_inv:
  "pool_inv s \<Longrightarrow> \<forall>i < tp_size s. tp_worker s i \<noteq> Asleep \<Longrightarrow> pool_inv (s\<lparr>tp_notify := n\<rparr>)"
  by (auto simp: pool_inv_def some_asleep_def)

lemma notify_all_inv:
  "pool_inv s \<Longrightarrow> pool_inv (s\<lparr>tp_notify_all := False, tp_worker := (\<lambda>i. wake (tp_worker s i))\<rparr>)"
  by (auto simp: pool_inv_def some_asleep_def wake_def split: if_splits)

lemma work_step_inv:
  assumes "pool_inv s" and "work_step s s'"
  shows "pool_inv s'"
  using assms(2)
proof (cases rule: work_step.cases)
  case (look i)
  then show ?thesis using look_inv assms(1) by simp
next
  case (finish i t)
  then show ?thesis using look_again_inv [of s i "tp_notify s"] assms(1) by simp
next
  case (notify i)
  then show ?thesis using look_again_inv [of s i "tp_notify s - 1"] assms(1) by simp
next
  case notify_lost
  then show ?thesis using notify_lost_inv assms(1) by simp
next
  case notify_all
  then show ?thesis using notify_all_inv assms(1) by simp
next
  case (spurious i)
  then show ?thesis using look_again_inv [of s i "tp_notify s"] assms(1) by simp
qed

lemma enqueue_inv: "pool_inv s \<Longrightarrow> tp_enqueue t s = Inr s' \<Longrightarrow> pool_inv s'"
  by (auto simp: tp_enqueue_def pool_inv_def some_asleep_def looking_def split: if_splits)

lemma shutdown_inv: "pool_inv s \<Longrightarrow> pool_inv (tp_shutdown s)"
  by (auto simp: tp_shutdown_def pool_inv_def some_asleep_def looking_def)

lemma pool_reach_inv: "pool_reach n s \<Longrightarrow> pool_inv s"
  by (induction rule: pool_reach.induct)
    (auto simp: pool_inv_new elim!: pool_stepE intro: work_step_inv enqueue_inv shutdown_inv)

section \<open>No task is forgotten\<close>

lemma pool_not_stuck:
  assumes "pool_inv s" and "tp_tasks s \<noteq> []" and "0 < tp_size s"
  shows "(\<exists>i < tp_size s. tp_worker s i = Looking \<or> (\<exists>t. tp_worker s i = Running t)) \<or> 0 < tp_notify s"
proof (cases "some_asleep s")
  case True
  then have "0 < tp_notify s + looking s" using assms(1,2) unfolding pool_inv_def by (cases "tp_tasks s") auto
  then have "0 < tp_notify s \<or> (\<exists>i < tp_size s. tp_worker s i = Looking)"
    by (auto simp: looking_def card_gt_0_iff)
  then show ?thesis by auto
next
  case False
  have "tp_worker s 0 \<noteq> Exited" using assms unfolding pool_inv_def by blast
  then show ?thesis using False assms(3) by (cases "tp_worker s 0") (auto simp: some_asleep_def)
qed

text \<open>
  C34. No task is lost or run twice, and no wake-up is lost: in every reachable state the tasks taken
  are the first of those accepted, in order, the others wait in the queue, and as long as one
  waits and the pool has a worker, some worker looks at the queue, is in a task after which it will
  look, or is about to be woken.
\<close>

theorem pool_keeps_tasks:
  assumes "pool_reach n s"
  shows "tp_in s = tp_ran s @ tp_tasks s \<and>
    (tp_tasks s \<noteq> [] \<longrightarrow> 0 < tp_size s \<longrightarrow>
       (\<exists>i < tp_size s. tp_worker s i = Looking \<or> (\<exists>t. tp_worker s i = Running t)) \<or> 0 < tp_notify s)"
proof -
  have inv: "pool_inv s" using assms by (rule pool_reach_inv)
  then have "tp_in s = tp_ran s @ tp_tasks s" by (simp add: pool_inv_def)
  then show ?thesis using pool_not_stuck [OF inv] by blast
qed

section \<open>Shutdown\<close>

text \<open>What is left to do after the shutdown.\<close>

definition worker_work :: "'t worker \<Rightarrow> nat" where
  "worker_work w = (case w of Exited \<Rightarrow> 0 | Looking \<Rightarrow> 1 | Running t \<Rightarrow> 2 | Asleep \<Rightarrow> 2)"

definition pool_work :: "'t pool \<Rightarrow> nat" where
  "pool_work s = 2 * length (tp_tasks s) + (\<Sum>i < tp_size s. worker_work (tp_worker s i)) + tp_notify s +
     (if tp_notify_all s then 1 else 0)"

lemma work_set_worker:
  assumes "i < tp_size s"
  shows "(\<Sum>j < tp_size s. worker_work (((tp_worker s)(i := w)) j)) + worker_work (tp_worker s i) =
    (\<Sum>j < tp_size s. worker_work (tp_worker s j)) + worker_work w"
proof -
  have i: "i \<in> {..<tp_size s}" using assms by simp
  have "(\<Sum>j \<in> {..<tp_size s} - {i}. worker_work (((tp_worker s)(i := w)) j)) =
      (\<Sum>j \<in> {..<tp_size s} - {i}. worker_work (tp_worker s j))" by (rule sum.cong) auto
  then show ?thesis
    using sum.remove [OF _ i, of "\<lambda>j. worker_work (((tp_worker s)(i := w)) j)"] sum.remove [OF _ i, of "\<lambda>j. worker_work (tp_worker s j)"]
    by simp
qed

lemma wake_work: "(\<Sum>i < m. worker_work (wake (f i))) \<le> (\<Sum>i < m. worker_work (f i))"
  by (rule sum_mono) (auto simp: wake_def worker_work_def split: worker.splits)

lemma work_decreases:
  assumes "work_step s s'" and "tp_stop s"
  shows "pool_work s' < pool_work s \<and> tp_stop s' \<and> tp_in s' = tp_in s \<and> tp_size s' = tp_size s"
  using assms(1)
proof (cases rule: work_step.cases)
  case (look i)
  show ?thesis
  proof (cases "tp_tasks s")
    case Nil
    then show ?thesis using look assms(2) work_set_worker [of i s Exited]
      by (simp add: tp_look_def tp_Predicate_def pool_work_def worker_work_def)
  next
    case (Cons t ts)
    then show ?thesis using look assms(2) work_set_worker [of i s "Running t"]
      by (simp add: tp_look_def tp_Predicate_def pool_work_def worker_work_def)
  qed
next
  case (finish i t)
  then show ?thesis using assms(2) work_set_worker [of i s Looking] by (simp add: pool_work_def worker_work_def)
next
  case (notify i)
  then show ?thesis using assms(2) work_set_worker [of i s Looking] by (simp add: pool_work_def worker_work_def)
next
  case notify_lost
  then show ?thesis using assms(2) by (simp add: pool_work_def)
next
  case notify_all
  then show ?thesis using assms(2) wake_work [of "tp_worker s" "tp_size s"] by (simp add: pool_work_def)
next
  case (spurious i)
  then show ?thesis using assms(2) work_set_worker [of i s Looking] by (simp add: pool_work_def worker_work_def)
qed

inductive work_steps :: "nat \<Rightarrow> 't pool \<Rightarrow> 't pool \<Rightarrow> bool" where
  none: "work_steps 0 s s"
| more: "work_step s s' \<Longrightarrow> work_steps k s' s'' \<Longrightarrow> work_steps (Suc k) s s''"

lemma work_steps_facts:
  "work_steps k s s' \<Longrightarrow> pool_inv s \<Longrightarrow> tp_stop s \<Longrightarrow>
    k + pool_work s' \<le> pool_work s \<and> pool_inv s' \<and> tp_stop s' \<and> tp_in s' = tp_in s \<and> tp_size s' = tp_size s"
proof (induction rule: work_steps.induct)
  case (more s s' k s'')
  then show ?case using work_decreases [OF more.hyps(1) more.prems(2)] work_step_inv by fastforce
qed simp

lemma stuck_done:
  assumes "pool_inv s" and "tp_stop s" and "\<nexists>s'. work_step s s'" and "0 < tp_size s"
  shows "(\<forall>i < tp_size s. tp_worker s i = Exited) \<and> tp_tasks s = []"
proof -
  have "tp_worker s i = Exited" if i: "i < tp_size s" for i
  proof (cases "tp_worker s i")
    case Looking then show ?thesis using work_step.look [OF i] assms(3) by blast
  next
    case Asleep then show ?thesis using work_step.spurious [OF i] assms(3) by blast
  next
    case (Running t) then show ?thesis using work_step.finish [OF i] assms(3) by blast
  qed
  then show ?thesis using assms(1,4) unfolding pool_inv_def by blast
qed


theorem pool_keeps_tasks_witness:
  "tp_in (tm_AddTask (5 :: nat) (tp_new 2)) = [5] \<and> tp_tasks (tm_AddTask (5 :: nat) (tp_new 2)) = [5]"
proof -
  have "tp_enqueue (5 :: nat) (tp_new 2) = Inr (tm_AddTask 5 (tp_new 2))" by (simp add: tp_enqueue_def tm_AddTask_def tp_new_def)
  then have "pool_reach 2 (tm_AddTask (5 :: nat) (tp_new 2))"
    by (rule pool_reach.step [OF pool_reach.init pool_step.enqueue])
  then show ?thesis using pool_keeps_tasks [of 2 "tm_AddTask (5 :: nat) (tp_new 2)"]
    by (simp add: tm_AddTask_def tp_enqueue_def tp_new_def)
qed

text \<open>A pool of one worker that is shut down while a task waits.\<close>

definition demo_pool :: "nat pool" where
  "demo_pool = tm_AddTask 5 (tp_new 1)"

definition demo_end :: "nat pool" where
  "demo_end = set_worker 0 Looking (tp_look 0 (tp_shutdown demo_pool))"


end
