(* ===== verification/Game_Time.thy ===== *)
theory Game_Time
  imports Prelude
begin

text \<open>
  \<^verbatim>\<open>Utinities/Timer.h\<close>, \<^verbatim>\<open>game/Time/GameTime.cpp\<close> and \<^verbatim>\<open>game/Time/UpdateTime.h/.cpp\<close>: the clock in
  milliseconds, the timers and the statistics of the server loop.  The clock is an argument of what
  reads it.  A signed sum that does not fit its type is \<open>None\<close>; \<^verbatim>\<open>time_t\<close> has 64 bits.
\<close>

section \<open>Clock and timers\<close>

definition getMSTimeDiff :: "u32 \<Rightarrow> u32 \<Rightarrow> u32" where
  "getMSTimeDiff oldMSTime newMSTime =
     (if oldMSTime > newMSTime then (0xFFFFFFFF - oldMSTime) + newMSTime else newMSTime - oldMSTime)"

record interval_clock =
  ic_interval :: int
  ic_current :: int

definition ic_new :: interval_clock where
  "ic_new = \<lparr>ic_interval = 0, ic_current = 0\<rparr>"

definition ic_Update :: "int \<Rightarrow> interval_clock \<Rightarrow> interval_clock option" where
  "ic_Update diff t = map_option (\<lambda>c. t\<lparr>ic_current := (if c < 0 then 0 else c)\<rparr>) (fits 64 (ic_current t + diff))"

definition ic_Passed :: "interval_clock \<Rightarrow> bool" where
  "ic_Passed t \<longleftrightarrow> ic_current t \<ge> ic_interval t"

definition ic_Reset :: "interval_clock \<Rightarrow> interval_clock option" where
  "ic_Reset t =
     (if ic_current t \<ge> ic_interval t then
        (if ic_interval t = 0 then None else Some (t\<lparr>ic_current := ic_current t smod ic_interval t\<rparr>))
      else Some t)"

text \<open>\<open>TimeTracker\<close> and \<open>TimeTrackerSmall\<close> differ in the width of the time that is left.\<close>

definition tt_Update :: "nat \<Rightarrow> int \<Rightarrow> int \<Rightarrow> int option" where
  "tt_Update w diff expiry = fits w (expiry - diff)"

definition tt_Passed :: "int \<Rightarrow> bool" where
  "tt_Passed expiry \<longleftrightarrow> expiry \<le> 0"

definition tt_Reset :: "int \<Rightarrow> int" where
  "tt_Reset interval = interval"

text \<open>The arithmetic of \<open>PeriodicTimer::Update\<close> mixes signed and unsigned, so it is modular.\<close>

record periodic_timer =
  pt_period :: u32
  pt_expire :: u32

definition pt_SetPeriodic :: "u32 \<Rightarrow> u32 \<Rightarrow> periodic_timer \<Rightarrow> periodic_timer" where
  "pt_SetPeriodic period start_time t = t\<lparr>pt_expire := start_time, pt_period := period\<rparr>"

definition pt_Update :: "u32 \<Rightarrow> periodic_timer \<Rightarrow> bool \<times> periodic_timer" where
  "pt_Update diff t =
     (let t = t\<lparr>pt_expire := pt_expire t - diff\<rparr> in
      if sint (pt_expire t) > 0 then (False, t)
      else (True, t\<lparr>pt_expire := pt_expire t + (if sint (pt_period t) > sint diff then pt_period t else diff)\<rparr>))"

definition pt_TUpdate :: "int \<Rightarrow> periodic_timer \<Rightarrow> periodic_timer option" where
  "pt_TUpdate diff t = map_option (\<lambda>e. t\<lparr>pt_expire := word_of_int e\<rparr>) (fits 32 (sint (pt_expire t) - diff))"

definition pt_TPassed :: "periodic_timer \<Rightarrow> bool" where
  "pt_TPassed t \<longleftrightarrow> sint (pt_expire t) \<le> 0"

definition pt_TReset :: "int \<Rightarrow> int \<Rightarrow> periodic_timer \<Rightarrow> periodic_timer option" where
  "pt_TReset diff period t =
     map_option (\<lambda>e. t\<lparr>pt_expire := word_of_int e\<rparr>)
       (fits 32 (sint (pt_expire t) + (if period > diff then period else diff)))"

text \<open>The game clock: the seconds and milliseconds of the last \<open>UpdateGameTimers\<close>.\<close>

record game_clock =
  gc_start :: int
  gc_time :: int
  gc_ms :: u32

definition gc_UpdateGameTimers :: "int \<Rightarrow> u32 \<Rightarrow> game_clock \<Rightarrow> game_clock" where
  "gc_UpdateGameTimers now ms g = g\<lparr>gc_time := now, gc_ms := ms\<rparr>"

definition gc_GetUptime :: "game_clock \<Rightarrow> u32" where
  "gc_GetUptime g = word_of_int (gc_time g - gc_start g)"

section \<open>Statistics of the update times\<close>

definition AVG_DIFF_COUNT :: nat where "AVG_DIFF_COUNT = 500"

record update_time =
  ut_table :: "u32 list"
  ut_average :: u32
  ut_total :: u32
  ut_index :: u32
  ut_max :: u32
  ut_max_last :: u32
  ut_max_current :: u32
  ut_recorded :: u32

definition ut_new :: update_time where
  "ut_new = \<lparr>ut_table = replicate AVG_DIFF_COUNT 0, ut_average = 0, ut_total = 0, ut_index = 0, ut_max = 0,
     ut_max_last = 0, ut_max_current = 0, ut_recorded = 0\<rparr>"

text \<open>The sums wrap around; dividing by a sum of zero is undefined.\<close>

definition ut_GetTimeWeightedAverage :: "update_time \<Rightarrow> u32 option" where
  "ut_GetTimeWeightedAverage t =
     (let sm = fold (\<lambda>d s. s + d * d) (ut_table t) 0; w = fold (\<lambda>d s. s + d) (ut_table t) 0
      in if w = 0 then None else Some (sm div w))"

definition ut_GetMaxOfCurrentTable :: "update_time \<Rightarrow> u32" where
  "ut_GetMaxOfCurrentTable t = max (ut_max_current t) (ut_max_last t)"

definition ut_GetLast :: "update_time \<Rightarrow> u32 option" where
  "ut_GetLast t =
     (let i = (if ut_index t \<noteq> 0 then unat (ut_index t - 1) else length (ut_table t) - 1)
      in if i < length (ut_table t) then Some (ut_table t ! i) else None)"

definition ut_bump :: "u32 \<Rightarrow> update_time \<Rightarrow> update_time" where
  "ut_bump diff t =
     (let t = (if diff > ut_max t then t\<lparr>ut_max := diff\<rparr> else t)
      in if diff > ut_max_current t then t\<lparr>ut_max_current := diff\<rparr> else t)"

definition ut_advance :: "update_time \<Rightarrow> update_time" where
  "ut_advance t =
     (let t = t\<lparr>ut_index := ut_index t + 1\<rparr> in
      if unat (ut_index t) \<ge> length (ut_table t)
      then t\<lparr>ut_index := 0, ut_max_last := ut_max_current t, ut_max_current := 0\<rparr> else t)"

definition ut_set_average :: "update_time \<Rightarrow> update_time" where
  "ut_set_average t =
     (if ut_table t ! (length (ut_table t) - 1) \<noteq> 0 then t\<lparr>ut_average := ut_total t div of_nat (length (ut_table t))\<rparr>
      else if ut_index t \<noteq> 0 then t\<lparr>ut_average := ut_total t div ut_index t\<rparr>
      else t)"

definition ut_UpdateWithDiff :: "u32 \<Rightarrow> update_time \<Rightarrow> update_time option" where
  "ut_UpdateWithDiff diff t =
     (let i = unat (ut_index t) in
      if \<not> i < length (ut_table t) then None
      else Some (ut_set_average (ut_advance (ut_bump diff
             (t\<lparr>ut_total := ut_total t - ut_table t ! i + diff, ut_table := (ut_table t)[i := diff]\<rparr>)))))"

text \<open>The flag says whether a line is logged.\<close>

definition ut_RecordReset :: "u32 \<Rightarrow> update_time \<Rightarrow> update_time" where
  "ut_RecordReset now t = t\<lparr>ut_recorded := now\<rparr>"

definition ut_RecordDuration :: "u32 \<Rightarrow> u32 \<Rightarrow> update_time \<Rightarrow> bool \<times> update_time" where
  "ut_RecordDuration now minUpdateTime t = (getMSTimeDiff (ut_recorded t) now > minUpdateTime, t\<lparr>ut_recorded := now\<rparr>)"

record world_update_time =
  wt_base :: update_time
  wt_interval :: u32
  wt_min :: u32
  wt_last :: u32

definition wt_new :: world_update_time where
  "wt_new = \<lparr>wt_base = ut_new, wt_interval = 0, wt_min = 0, wt_last = 0\<rparr>"

definition wt_LoadFromConfig :: "world_update_time \<Rightarrow> world_update_time" where
  "wt_LoadFromConfig w = w\<lparr>wt_interval := 60000, wt_min := 10\<rparr>"

definition wt_SetRecordUpdateTimeInterval :: "u32 \<Rightarrow> world_update_time \<Rightarrow> world_update_time" where
  "wt_SetRecordUpdateTimeInterval t w = w\<lparr>wt_interval := t\<rparr>"

definition wt_RecordUpdateTime :: "u32 \<Rightarrow> u32 \<Rightarrow> world_update_time \<Rightarrow> bool \<times> world_update_time" where
  "wt_RecordUpdateTime gameTimeMs diff w =
     (if wt_interval w > 0 \<and> diff > wt_min w \<and> getMSTimeDiff (wt_last w) gameTimeMs > wt_interval w
      then (True, w\<lparr>wt_last := gameTimeMs\<rparr>) else (False, w))"

definition wt_RecordUpdateTimeDuration :: "u32 \<Rightarrow> world_update_time \<Rightarrow> bool \<times> world_update_time" where
  "wt_RecordUpdateTimeDuration now w =
     (let (logged, b) = ut_RecordDuration now (wt_min w) (wt_base w) in (logged, w\<lparr>wt_base := b\<rparr>))"

section \<open>Time differences\<close>

text \<open>When the clock has wrapped around, the difference is one too small.\<close>

lemma ms_diff: "getMSTimeDiff a b = (if a > b then b - a - 1 else b - a)"
  by (simp add: getMSTimeDiff_def)

lemma interval_reset_bounds:
  "0 \<le> ic_current t \<Longrightarrow> 0 < ic_interval t \<Longrightarrow> \<exists>t'. ic_Reset t = Some t' \<and> 0 \<le> ic_current t' \<and> ic_current t' < ic_interval t"
  by (auto simp: ic_Reset_def smod_int_alt_def)

section \<open>The ring of the last update times\<close>

text \<open>The table from the oldest entry to the newest.\<close>

definition ring :: "update_time \<Rightarrow> u32 list" where
  "ring t = drop (unat (ut_index t)) (ut_table t) @ take (unat (ut_index t)) (ut_table t)"

definition ut_ok :: "update_time \<Rightarrow> bool" where
  "ut_ok t \<longleftrightarrow> length (ut_table t) = AVG_DIFF_COUNT \<and> unat (ut_index t) < AVG_DIFF_COUNT \<and> ut_total t = sum_list (ut_table t)"

lemma ut_ok_new: "ut_ok ut_new"
  by (simp add: ut_ok_def ut_new_def AVG_DIFF_COUNT_def sum_list_replicate)

lemma sum_list_ring: "sum_list (ring t) = sum_list (ut_table t)"
  using sum_list.append [of "take (unat (ut_index t)) (ut_table t)" "drop (unat (ut_index t)) (ut_table t)"]
  by (simp add: ring_def add.commute)

lemma sum_list_upd_word: "i < length xs \<Longrightarrow> sum_list (xs[i := x]) = sum_list xs - xs ! i + (x :: u32)"
  by (induction xs arbitrary: i) (auto split: nat.splits)

lemma rotate_upd:
  assumes "i < length xs"
  shows "drop (Suc i) (xs[i := x]) @ take (Suc i) (xs[i := x]) = tl (drop i xs @ take i xs) @ [x]"
  using assms by (simp add: take_Suc_conv_app_nth drop_Suc tl_drop [symmetric]) (simp add: drop_Suc [symmetric] Cons_nth_drop_Suc [symmetric])

lemma ring_nth_last:
  assumes "ut_ok t"
  shows "ut_table t ! 499 = ring t ! (499 - unat (ut_index t))"
proof -
  have i: "unat (ut_index t) < 500" "length (ut_table t) = 500" using assms by (simp_all add: ut_ok_def AVG_DIFF_COUNT_def)
  then have "499 - unat (ut_index t) < 500 - unat (ut_index t)" by linarith
  then show ?thesis using i by (simp add: ring_def nth_append)
qed

definition average_of :: "update_time \<Rightarrow> u32 option" where
  "average_of t = (if ut_table t ! 499 \<noteq> 0 then Some (ut_total t div 500)
     else if ut_index t \<noteq> 0 then Some (ut_total t div ut_index t) else None)"

lemma bump_sel:
  "ut_table (ut_bump d t) = ut_table t" "ut_total (ut_bump d t) = ut_total t" "ut_index (ut_bump d t) = ut_index t"
  "ut_max (ut_bump d t) = max (ut_max t) d"
  by (auto simp: ut_bump_def Let_def max_def)

lemma advance_sel:
  "ut_table (ut_advance t) = ut_table t" "ut_total (ut_advance t) = ut_total t" "ut_max (ut_advance t) = ut_max t"
  "ut_index (ut_advance t) = (if unat (ut_index t + 1) < length (ut_table t) then ut_index t + 1 else 0)"
  by (simp_all add: ut_advance_def Let_def)

lemma set_average_sel:
  "ut_table (ut_set_average t) = ut_table t" "ut_total (ut_set_average t) = ut_total t" "ut_max (ut_set_average t) = ut_max t"
  "ut_index (ut_set_average t) = ut_index t"
  by (simp_all add: ut_set_average_def)

lemmas update_sel = bump_sel advance_sel set_average_sel

lemma set_average: "length (ut_table t) = 500 \<Longrightarrow> average_of (ut_set_average t) = Some a \<Longrightarrow> ut_average (ut_set_average t) = a"
  by (auto simp: average_of_def set_average_sel split: if_splits) (simp_all add: ut_set_average_def)

lemma update_step:
  assumes ok: "ut_ok t"
  shows "\<exists>t'. ut_UpdateWithDiff d t = Some t' \<and> ut_ok t' \<and> ring t' = tl (ring t) @ [d] \<and>
    unat (ut_index t') = (unat (ut_index t) + 1) mod AVG_DIFF_COUNT \<and> ut_max t' = max (ut_max t) d \<and>
    (\<forall>a. average_of t' = Some a \<longrightarrow> ut_average t' = a)"
proof -
  let ?i = "unat (ut_index t)"
  have len: "length (ut_table t) = 500" and i: "?i < 500" and tot: "ut_total t = sum_list (ut_table t)"
    using ok by (simp_all add: ut_ok_def AVG_DIFF_COUNT_def)
  have suc: "unat (ut_index t + 1) = ?i + 1" using i by (simp add: unat_word_ariths)
  have tab: "sum_list ((ut_table t)[?i := d]) = ut_total t - ut_table t ! ?i + d" using sum_list_upd_word [of ?i "ut_table t" d] i len tot by simp
  have rot: "drop (Suc ?i) ((ut_table t)[?i := d]) @ take (Suc ?i) ((ut_table t)[?i := d]) = tl (ring t) @ [d]"
    using rotate_upd [of ?i "ut_table t" d] i len by (simp add: ring_def)
  obtain u where u: "u = ut_advance (ut_bump d (t\<lparr>ut_total := ut_total t - ut_table t ! ?i + d, ut_table := (ut_table t)[?i := d]\<rparr>))"
    by simp
  obtain t' where t': "ut_UpdateWithDiff d t = Some t'" "t' = ut_set_average u" using i len u by (simp add: ut_UpdateWithDiff_def Let_def)
  have "length (ut_table u) = 500" using u len by (simp add: update_sel)
  then have av: "\<forall>a. average_of t' = Some a \<longrightarrow> ut_average t' = a" using set_average [of u] t'(2) by blast
  have f: "ut_table t' = (ut_table t)[?i := d]" "ut_total t' = ut_total t - ut_table t ! ?i + d" "ut_max t' = max (ut_max t) d"
    "ut_index t' = (if ?i + 1 < 500 then ut_index t + 1 else 0)"
    using t'(2) u len suc by (simp_all add: update_sel)
  have "ring t' = tl (ring t) @ [d]"
  proof (cases "?i + 1 < 500")
    case True
    then show ?thesis using f(1,4) rot suc by (simp add: ring_def)
  next
    case False
    then have "Suc ?i = 500" using i by simp
    then show ?thesis using f(1,4) rot len False by (simp add: ring_def)
  qed
  moreover have "unat (ut_index t') = (?i + 1) mod 500" using f(4) suc i by (auto simp: mod_if)
  moreover have "ut_ok t'" using f(1,2,4) len tab suc by (simp add: ut_ok_def AVG_DIFF_COUNT_def)
  ultimately show ?thesis using t'(1) f(3) av by (auto simp: AVG_DIFF_COUNT_def)
qed

fun ut_updates :: "u32 list \<Rightarrow> update_time \<Rightarrow> update_time option" where
  "ut_updates [] t = Some t"
| "ut_updates (d # ds) t = Option.bind (ut_UpdateWithDiff d t) (ut_updates ds)"

lemma ut_updates_snoc: "ut_updates (ds @ [d]) t = Option.bind (ut_updates ds t) (ut_UpdateWithDiff d)"
  by (induction ds arbitrary: t) (auto split: bind_splits)

lemma updates_facts:
  "\<exists>t. ut_updates ds ut_new = Some t \<and> ut_ok t \<and> ring t = drop (length ds) (replicate AVG_DIFF_COUNT 0 @ ds) \<and>
     unat (ut_index t) = length ds mod AVG_DIFF_COUNT \<and> ut_max t = fold max ds 0 \<and>
     (ds \<noteq> [] \<longrightarrow> (\<forall>a. average_of t = Some a \<longrightarrow> ut_average t = a))"
proof (induction ds rule: rev_induct)
  case Nil
  then show ?case using ut_ok_new by (simp add: ring_def ut_new_def)
next
  case (snoc d ds)
  then obtain t where t: "ut_updates ds ut_new = Some t" "ut_ok t" "ring t = drop (length ds) (replicate AVG_DIFF_COUNT 0 @ ds)"
    "unat (ut_index t) = length ds mod AVG_DIFF_COUNT" "ut_max t = fold max ds 0" by blast
  obtain t' where t': "ut_UpdateWithDiff d t = Some t'" "ut_ok t'" "ring t' = tl (ring t) @ [d]"
    "unat (ut_index t') = (unat (ut_index t) + 1) mod AVG_DIFF_COUNT" "ut_max t' = max (ut_max t) d"
    "\<forall>a. average_of t' = Some a \<longrightarrow> ut_average t' = a" using update_step [OF t(2), of d] by blast
  have "ring t' = drop (length (ds @ [d])) (replicate AVG_DIFF_COUNT 0 @ ds @ [d])"
  proof -
    obtain zs :: "u32 list" where zs: "replicate AVG_DIFF_COUNT 0 = zs" "length zs = 500" by (simp add: AVG_DIFF_COUNT_def)
    have "tl (drop (length ds) (zs @ ds)) = drop (Suc (length ds)) (zs @ ds)" by (simp only: drop_Suc tl_drop)
    then show ?thesis using t'(3) t(3) zs by simp
  qed
  then show ?case using t t' by (auto simp: ut_updates_snoc mod_Suc_eq max.commute)
qed

text \<open>The last entries of the history, and their sum as a number.\<close>

definition recent :: "u32 list \<Rightarrow> u32 list" where
  "recent ds = drop (length ds - AVG_DIFF_COUNT) ds"

definition total_of :: "u32 list \<Rightarrow> nat" where
  "total_of ds = sum_list (map unat ds)"

lemma unat_sum_list: "total_of ds < 2 ^ 32 \<Longrightarrow> unat (sum_list ds) = total_of ds"
proof (induction ds)
  case (Cons d ds)
  then show ?case by (simp add: total_of_def unat_word_ariths)
qed (simp add: total_of_def)

lemma ring_total:
  assumes "ring t = drop (length ds) (replicate AVG_DIFF_COUNT 0 @ ds)" "ut_ok t" "total_of (recent ds) < 2 ^ 32"
  shows "unat (ut_total t) = total_of (recent ds)"
proof -
  have "ut_total t = sum_list (ring t)" using assms(2) sum_list_ring [of t] by (simp add: ut_ok_def)
  also have "\<dots> = sum_list (recent ds)" using assms(1) by (simp add: recent_def sum_list_replicate)
  finally show ?thesis using unat_sum_list [OF assms(3)] by simp
qed

lemma slot_499:
  assumes "ring t = drop (length ds) (replicate AVG_DIFF_COUNT 0 @ ds)" "ut_ok t" "unat (ut_index t) = length ds mod AVG_DIFF_COUNT"
  shows "ut_table t ! 499 = (if length ds < AVG_DIFF_COUNT then 0 else ds ! (length ds - length ds mod AVG_DIFF_COUNT - 1))"
proof -
  let ?n = "length ds"
  have "?n mod 500 \<le> 499" using mod_less_divisor [of 500 ?n] by linarith
  moreover have "?n mod 500 \<le> ?n" by simp
  ultimately show ?thesis using ring_nth_last [OF assms(2)] assms(1,3)
    by (auto simp: AVG_DIFF_COUNT_def nth_append algebra_simps)
qed

text \<open>
  The statistics of the update times: after any updates the largest is known; the average is that
  of the last 500 updates, or of all when there are fewer, if no update took zero milliseconds;
  but when the update in the last slot of the table took zero, the sum of all 500 is divided by the
  index of the next slot.
\<close>

theorem update_time_average:
  assumes "ds \<noteq> []" and "total_of (recent ds) < 2 ^ 32"
  shows "\<exists>t. ut_updates ds ut_new = Some t \<and> ut_max t = fold max ds 0 \<and>
    (0 \<notin> set ds \<longrightarrow> unat (ut_average t) = total_of (recent ds) div length (recent ds)) \<and>
    (AVG_DIFF_COUNT < length ds \<longrightarrow> length ds mod AVG_DIFF_COUNT \<noteq> 0 \<longrightarrow> ds ! (length ds - length ds mod AVG_DIFF_COUNT - 1) = 0 \<longrightarrow>
       unat (ut_average t) = total_of (recent ds) div (length ds mod AVG_DIFF_COUNT))"
proof -
  obtain t where t: "ut_updates ds ut_new = Some t" "ut_ok t" "ring t = drop (length ds) (replicate AVG_DIFF_COUNT 0 @ ds)"
    "unat (ut_index t) = length ds mod AVG_DIFF_COUNT" "ut_max t = fold max ds 0" "\<forall>a. average_of t = Some a \<longrightarrow> ut_average t = a"
    using updates_facts [of ds] assms(1) by blast
  note tot = ring_total [OF t(3,2) assms(2)] and slot = slot_499 [OF t(3,2,4)]
  have idx: "ut_index t \<noteq> 0 \<longleftrightarrow> length ds mod AVG_DIFF_COUNT \<noteq> 0" using t(4) by (metis unat_eq_zero)
  have pos: "unat (ut_average t) = total_of (recent ds) div length (recent ds)" if z: "0 \<notin> set ds"
  proof (cases "length ds < AVG_DIFF_COUNT")
    case True
    then have "average_of t = Some (ut_total t div ut_index t)" using slot idx assms(1) by (simp add: average_of_def)
    then show ?thesis using t(4,6) tot True by (simp add: unat_div recent_def)
  next
    case False
    have "length ds mod AVG_DIFF_COUNT < AVG_DIFF_COUNT" by (simp add: AVG_DIFF_COUNT_def)
    then have "length ds - length ds mod AVG_DIFF_COUNT - 1 < length ds" using False by linarith
    then have "ut_table t ! 499 \<noteq> 0" using slot z False by (metis nth_mem)
    then have "average_of t = Some (ut_total t div 500)" by (simp add: average_of_def)
    then show ?thesis using t(6) tot False by (simp add: unat_div recent_def AVG_DIFF_COUNT_def)
  qed
  have "unat (ut_average t) = total_of (recent ds) div (length ds mod AVG_DIFF_COUNT)"
    if z: "AVG_DIFF_COUNT < length ds" "length ds mod AVG_DIFF_COUNT \<noteq> 0" "ds ! (length ds - length ds mod AVG_DIFF_COUNT - 1) = 0"
  proof -
    have "average_of t = Some (ut_total t div ut_index t)" using slot idx z by (simp add: average_of_def)
    then show ?thesis using t(4,6) tot by (simp add: unat_div)
  qed
  then show ?thesis using t(1,5) pos by blast
qed

theorem update_time_average_witness:
  "\<exists>t. ut_updates [10, 20, 60] ut_new = Some t \<and> ut_max t = 60 \<and> unat (ut_average t) = 30"
  using update_time_average [of "[10, 20, 60]"] by (auto simp: recent_def total_of_def AVG_DIFF_COUNT_def max_def)

end
