(* ===== verification/World_Session.thy ===== *)
theory World_Session
  imports Server_Inv Ecs_System
begin

text \<open>
  \<^verbatim>\<open>server/WorldSession/WorldSession.h/.cpp\<close>: the game's side of one connection.  A session closes
  its socket when the client has been silent for too long, and uses two interval timers, components
  of the world's timer system, which it reaches through raw pointers: the system tells the session
  where they are.  Session objects live in the store \<open>gm_objs\<close>; a destroyed one is \<open>None\<close>, and so is
  the outcome of reaching it, or of following a pointer into a block that the system has left.
  The callbacks of a registration run inside it and write only what the system does not read there,
  so they are applied, in order, to its result.  \<open>gm_time\<close> is \<open>GameTime::GetGameTime()\<close>; seconds
  since 1970 plus a small constant fit a 64-bit \<^verbatim>\<open>time_t\<close>.
\<close>

section \<open>State\<close>

record world_session =
  ws_sock :: nat
  ws_id :: u32
  ws_timeout :: int
  ws_inqueue :: bool
  ws_container :: bool
  ws_timer :: "(nat \<times> nat) option"
  ws_timerid :: u32
  ws_hb :: "(nat \<times> nat) option"
  ws_hbid :: u32

text \<open>What sessions and world share: sockets, session objects, components, the id counter, the clock.\<close>

record 'a game =
  gm_server :: "'a server"
  gm_objs :: "nat \<rightharpoonup> world_session"
  gm_ecs :: system_container
  gm_compid :: u32
  gm_time :: int

definition WORLD_SESSION_UPDATE_INTERVAL :: int where "WORLD_SESSION_UPDATE_INTERVAL = 50"
definition WORLD_SESSION_TIMEOUT :: int where "WORLD_SESSION_TIMEOUT = 18"

text \<open>The constructor leaves both timer ids uninitialised; they are its last arguments.\<close>

definition ws_new :: "u32 \<Rightarrow> nat \<Rightarrow> int \<Rightarrow> u32 \<Rightarrow> u32 \<Rightarrow> world_session" where
  "ws_new i sock now j1 j2 = \<lparr>ws_sock = sock, ws_id = i, ws_timeout = now + WORLD_SESSION_TIMEOUT, ws_inqueue = False,
     ws_container = False, ws_timer = None, ws_timerid = j1, ws_hb = None, ws_hbid = j2\<rparr>"

definition ws_SetInQueue :: "bool \<Rightarrow> world_session \<Rightarrow> world_session" where
  "ws_SetInQueue state s = s\<lparr>ws_inqueue := state\<rparr>"

definition ws_PlayerLoading :: "world_session \<Rightarrow> bool" where
  "ws_PlayerLoading s = False"

definition ws_ResetTimeOutTime :: "int \<Rightarrow> world_session \<Rightarrow> world_session" where
  "ws_ResetTimeOutTime now s = s\<lparr>ws_timeout := now + 30000\<rparr>"

definition ws_IsConnectionIdle :: "int \<Rightarrow> world_session \<Rightarrow> bool" where
  "ws_IsConnectionIdle now s \<longleftrightarrow> ws_timeout s < now \<and> \<not> ws_inqueue s"

definition ws_OnReceivePacket :: "int \<Rightarrow> u16 \<Rightarrow> world_session \<Rightarrow> world_session" where
  "ws_OnReceivePacket now cmd s = (if cmd = C2S_HEARTBEAT then s\<lparr>ws_timeout := now + WORLD_SESSION_TIMEOUT\<rparr> else s)"

section \<open>Timers behind pointers\<close>

definition timer_system :: "system_container \<Rightarrow> (nat \<times> interval_timer ecs_system) option" where
  "timer_system c =
     (case ct_find INTERVAL_TIMER c of
        Some (Some j) \<Rightarrow> (case is_body (ct_systems c j) of TimerSys s \<Rightarrow> Some (j, s) | _ \<Rightarrow> None)
      | _ \<Rightarrow> None)"

definition timer_at :: "nat \<times> nat \<Rightarrow> system_container \<Rightarrow> interval_timer option" where
  "timer_at p c =
     (case timer_system c of
        None \<Rightarrow> None
      | Some (j, s) \<Rightarrow>
          if fst p = st_block (sy_data s) \<and> snd p < st_num (sy_data s) then Some (st_data (sy_data s) ! snd p) else None)"

definition sy_write :: "nat \<Rightarrow> 'a \<Rightarrow> 'a ecs_system \<Rightarrow> 'a ecs_system" where
  "sy_write n t s = s\<lparr>sy_data := (sy_data s)\<lparr>st_data := (st_data (sy_data s))[n := t]\<rparr>\<rparr>"

definition timer_put :: "nat \<times> nat \<Rightarrow> interval_timer \<Rightarrow> system_container \<Rightarrow> system_container" where
  "timer_put p t c =
     (case timer_system c of None \<Rightarrow> c | Some (j, s) \<Rightarrow> put_body j (TimerSys (sy_write (snd p) t s)) c)"

definition set_interval :: "(nat \<times> nat) option \<Rightarrow> int \<Rightarrow> system_container \<Rightarrow> system_container option" where
  "set_interval com ival c =
     (case com of
        None \<Rightarrow> Some c
      | Some p \<Rightarrow> map_option (\<lambda>t. timer_put p (t\<lparr>it_interval := ival\<rparr>) c) (timer_at p c))"

definition put_session :: "nat \<Rightarrow> world_session \<Rightarrow> ('a, 'z) game_scheme \<Rightarrow> ('a, 'z) game_scheme" where
  "put_session x s w = w\<lparr>gm_objs := (gm_objs w)(x \<mapsto> s)\<rparr>"

definition ws_OnComponentChangeEvent :: "change_event \<Rightarrow> ('a, 'z) game_scheme \<Rightarrow> ('a, 'z) game_scheme option" where
  "ws_OnComponentChangeEvent e w = do {
     s \<leftarrow> gm_objs w (ev_call e);
     if ev_catalog e = catalog_code INTERVAL_TIMER then
       (if ev_id e = ws_timerid s then do {
          c \<leftarrow> set_interval (ev_com e) WORLD_SESSION_UPDATE_INTERVAL (gm_ecs w);
          Some (put_session (ev_call e) (s\<lparr>ws_timer := ev_com e\<rparr>) (w\<lparr>gm_ecs := c\<rparr>))
        }
        else if ev_id e = ws_hbid s then do {
          c \<leftarrow> set_interval (ev_com e) HEART_BEAT_INTERVAL (gm_ecs w);
          Some (put_session (ev_call e) (s\<lparr>ws_hb := ev_com e\<rparr>) (w\<lparr>gm_ecs := c\<rparr>))
        }
        else Some w)
     else Some w
   }"

fun deliver :: "change_event list \<Rightarrow> ('a, 'z) game_scheme \<Rightarrow> ('a, 'z) game_scheme option" where
  "deliver [] w = Some w"
| "deliver (e # es) w = Option.bind (ws_OnComponentChangeEvent e w) (deliver es)"

section \<open>Operations\<close>

definition GetComponentID :: "('a, 'z) game_scheme \<Rightarrow> u32 \<times> ('a, 'z) game_scheme" where
  "GetComponentID w = (gm_compid w, w\<lparr>gm_compid := gm_compid w + 1\<rparr>)"

text \<open>The values that the default constructor of a timer leaves in its fields are arguments.\<close>

definition ws_register_timer :: "int \<times> int \<Rightarrow> nat \<Rightarrow> u32 \<Rightarrow> ('a, 'z) game_scheme \<Rightarrow> ('a, 'z) game_scheme option" where
  "ws_register_timer junk x i w = do {
     c \<leftarrow> ct_RegisterComponentChangeEvent x i INTERVAL_TIMER (gm_ecs w);
     (evs, c) \<leftarrow> ct_register INTERVAL_TIMER (register_timer (fst junk) (snd junk) (timer_new i)) c;
     deliver evs (w\<lparr>gm_ecs := c\<rparr>)
   }"

definition ws_Initilize :: "int \<times> int \<Rightarrow> nat \<Rightarrow> ('a, 'z) game_scheme \<Rightarrow> ('a, 'z) game_scheme option" where
  "ws_Initilize junk x w = do {
     s \<leftarrow> gm_objs w x;
     let (i, w) = GetComponentID w;
     w \<leftarrow> ws_register_timer junk x i (put_session x (s\<lparr>ws_container := True, ws_timerid := i\<rparr>) w);
     s \<leftarrow> gm_objs w x;
     let (i, w) = GetComponentID w;
     ws_register_timer junk x i (put_session x (s\<lparr>ws_hbid := i\<rparr>) w)
   }"

definition ws_KickPlayer :: "'a server_env \<Rightarrow> nat \<Rightarrow> ('a, 'z) game_scheme \<Rightarrow> ('a, 'z) game_scheme option" where
  "ws_KickPlayer env x w = do {
     s \<leftarrow> gm_objs w x;
     sv \<leftarrow> ks_Close env (ws_sock s) (gm_server w);
     Some (w\<lparr>gm_server := sv\<rparr>)
   }"

definition reset_timer :: "nat \<times> nat \<Rightarrow> system_container \<Rightarrow> system_container option" where
  "reset_timer p c = do { t \<leftarrow> timer_at p c; t' \<leftarrow> timer_Reset t; Some (timer_put p t' c) }"

definition ws_beat :: "'a server_env \<Rightarrow> world_session \<Rightarrow> ('a, 'z) game_scheme \<Rightarrow> ('a, 'z) game_scheme option" where
  "ws_beat env s w =
     (case ws_hb s of
        None \<Rightarrow> Some w
      | Some p \<Rightarrow> do {
          t \<leftarrow> timer_at p (gm_ecs w);
          if timer_Passed t then do {
            c \<leftarrow> reset_timer p (gm_ecs w);
            sv \<leftarrow> on_session env (ws_sock s) (ks_SendHeartBeat (se_net env)) (gm_server w);
            Some (w\<lparr>gm_ecs := c, gm_server := sv\<rparr>)
          }
          else Some w
        })"

definition ws_Update :: "'a server_env \<Rightarrow> nat \<Rightarrow> ('a, 'z) game_scheme \<Rightarrow> (bool \<times> ('a, 'z) game_scheme) option" where
  "ws_Update env x w = do {
     s \<leftarrow> gm_objs w x;
     if ws_IsConnectionIdle (gm_time w) s \<or> \<not> ks_IsAlive (sv_objs (gm_server w) (ws_sock s))
     then map_option (Pair False) (ws_KickPlayer env x w)
     else case ws_timer s of
       None \<Rightarrow> map_option (Pair True) (ws_beat env s w)
     | Some p \<Rightarrow> do {
         t \<leftarrow> timer_at p (gm_ecs w);
         if \<not> timer_Passed t then Some (True, w)
         else do {
           c \<leftarrow> reset_timer p (gm_ecs w);
           map_option (Pair True) (ws_beat env s (w\<lparr>gm_ecs := c\<rparr>))
         }
       }
   }"

text \<open>The destructor.  Its second \<open>Close\<close>, by the socket's own destructor, changes nothing (\<open>close_twice\<close>).\<close>

definition ws_drop_timer :: "(nat \<times> nat) option \<Rightarrow> ('a, 'z) game_scheme \<Rightarrow> ('a, 'z) game_scheme option" where
  "ws_drop_timer com w =
     (case com of
        None \<Rightarrow> Some w
      | Some p \<Rightarrow> do {
          t \<leftarrow> timer_at p (gm_ecs w);
          c \<leftarrow> ct_UnRegisterComponentChangeEvent (cm_id t) INTERVAL_TIMER (gm_ecs w);
          (evs, c) \<leftarrow> ct_UnRegisterComponent (cm_id t) INTERVAL_TIMER c;
          deliver evs (w\<lparr>gm_ecs := c\<rparr>)
        })"

text \<open>Both timers; what the first event has changed in the session is read again.\<close>

definition ws_drop_timers :: "nat \<Rightarrow> ('a, 'z) game_scheme \<Rightarrow> ('a, 'z) game_scheme option" where
  "ws_drop_timers x w = do {
     s \<leftarrow> gm_objs w x;
     w \<leftarrow> (if ws_container s then ws_drop_timer (ws_timer s) w else Some w);
     s \<leftarrow> gm_objs w x;
     if ws_container s then ws_drop_timer (ws_hb s) w else Some w
   }"

definition ws_destroy :: "'a server_env \<Rightarrow> nat \<Rightarrow> ('a, 'z) game_scheme \<Rightarrow> ('a, 'z) game_scheme option" where
  "ws_destroy env x w = do {
     w \<leftarrow> ws_KickPlayer env x w;
     w \<leftarrow> ws_drop_timers x w;
     Some (w\<lparr>gm_objs := (gm_objs w)(x := None)\<rparr>)
   }"

end
