(* ===== verification/Session_Timers.thy ===== *)
theory Session_Timers
  imports World_Session
begin

text \<open>
  The pointers of the sessions into the storage of the timer system: what registering, moving,
  updating and unregistering timers does to them.
\<close>

section \<open>The timer system inside the container\<close>

lemma ct_find_put:
  assumes "body_catalog b = body_catalog (is_body (ct_systems c j))"
  shows "ct_find cat (put_body j b c) = ct_find cat c"
proof -
  have "(\<lambda>n. body_catalog (is_body (ct_systems (put_body j b c) (pn_data (pl_nodes (ct_list c) n)))) = cat) =
      (\<lambda>n. body_catalog (is_body (ct_systems c (pn_data (pl_nodes (ct_list c) n)))) = cat)"
    using assms by (auto simp: put_body_def)
  moreover have "ct_list (put_body j b c) = ct_list c" by (simp add: put_body_def)
  ultimately show ?thesis by (simp only: ct_find_def)
qed

lemma timer_systemD:
  assumes "timer_system c = Some (j, s)"
  shows "ct_find INTERVAL_TIMER c = Some (Some j)" "is_body (ct_systems c j) = TimerSys s"
  using assms by (auto simp: timer_system_def split: option.splits system_body.splits)

lemma timer_system_put:
  assumes "timer_system c = Some (j, s)"
  shows "timer_system (put_body j (TimerSys s') c) = Some (j, s')"
  using timer_systemD [OF assms] ct_find_put [of "TimerSys s'" c j INTERVAL_TIMER]
  by (simp add: timer_system_def) (simp add: put_body_def)

lemma put_body_sel [simp]:
  "ct_list (put_body j b c) = ct_list c" "ct_next (put_body j b c) = ct_next c"
  "is_enabled (ct_systems (put_body j b c) i) = is_enabled (ct_systems c i)"
  by (simp_all add: put_body_def)

text \<open>The world's container: the timer system is the only one, and enabled.\<close>

definition only_timers :: "system_container \<Rightarrow> interval_timer ecs_system \<Rightarrow> bool" where
  "only_timers c s \<longleftrightarrow> (\<exists>j. timer_system c = Some (j, s) \<and> pl_iterate (ct_list c) = Some [j] \<and> is_enabled (ct_systems c j))"

lemma only_timers_system: "only_timers c s \<Longrightarrow> \<exists>j. timer_system c = Some (j, s)"
  by (auto simp: only_timers_def)

lemma only_timers_fun: "only_timers c s \<Longrightarrow> only_timers c s' \<Longrightarrow> s = s'"
  by (auto simp: only_timers_def)

lemma only_timers_put:
  assumes "only_timers c s" "timer_system c = Some (j, s0)"
  shows "only_timers (put_body j (TimerSys s') c) s'"
  using assms timer_system_put [OF assms(2), of s'] by (auto simp: only_timers_def)

lemma timer_at_alt:
  assumes "only_timers c s"
  shows "timer_at p c = (if fst p = st_block (sy_data s) \<and> snd p < st_num (sy_data s) then Some (st_data (sy_data s) ! snd p) else None)"
  using assms by (auto simp: timer_at_def only_timers_def)

lemma timer_put_only: "only_timers c s \<Longrightarrow> only_timers (timer_put p t c) (sy_write (snd p) t s)"
  using only_timers_put by (fastforce simp: timer_put_def only_timers_def)

lemma sy_write_sel [simp]:
  "st_data (sy_data (sy_write n t s)) = (st_data (sy_data s))[n := t]" "st_block (sy_data (sy_write n t s)) = st_block (sy_data s)"
  "st_free (sy_data (sy_write n t s)) = st_free (sy_data s)" "st_alloc (sy_data (sy_write n t s)) = st_alloc (sy_data s)"
  "sy_events (sy_write n t s) = sy_events s"
  by (simp_all add: sy_write_def)

section \<open>What the sessions know\<close>

text \<open>The flags of a timer: its catalog, valid, dirty or not.\<close>

definition timer_elem :: "interval_timer \<Rightarrow> bool" where
  "timer_elem c \<longleftrightarrow> cm_flags c = 0x20000 \<or> cm_flags c = 0x20001"

lemma timer_elem_simps:
  assumes "timer_elem c"
  shows "\<not> cm_GetInvalid c" "cm_GetCatalog c = catalog_code INTERVAL_TIMER" "timer_elem (cm_SetDirty d c)" "timer_elem (timer_copy c)"
  using assms by (auto simp: timer_elem_def cm_GetInvalid_def cm_GetCatalog_def catalog_code_def cm_SetDirty_def timer_copy_def
      cm_SetCatalog_def cm_copy_def)

lemma timer_elem_fields [simp]:
  "timer_elem (c\<lparr>it_interval := v\<rparr>) = timer_elem c" "timer_elem (c\<lparr>it_current := v\<rparr>) = timer_elem c"
  by (simp_all add: timer_elem_def)

lemma timer_new_elem: "timer_elem (timer_new i)" "cm_id (timer_new i) = i"
  by (simp_all add: timer_elem_def timer_new_def cm_SetCatalog_def cm_init_def catalog_code_def)

definition timer_ids :: "interval_timer ecs_system \<Rightarrow> u32 list" where
  "timer_ids s = map cm_id (st_data (sy_data s))"

definition own_ptr :: "world_session \<Rightarrow> u32 \<Rightarrow> (nat \<times> nat) option" where
  "own_ptr t i = (if i = ws_timerid t then ws_timer t else ws_hb t)"

definition interval_of :: "world_session \<Rightarrow> u32 \<Rightarrow> int" where
  "interval_of t i = (if i = ws_timerid t then WORLD_SESSION_UPDATE_INTERVAL else HEART_BEAT_INTERVAL)"

text \<open>A session that the world has not initialised has no timer; the others' are registered for them.\<close>

definition listed :: "interval_timer ecs_system \<Rightarrow> nat \<Rightarrow> world_session \<Rightarrow> bool" where
  "listed s x t \<longleftrightarrow> (ws_timer t \<noteq> None \<longrightarrow> sy_events s (ws_timerid t) = Some x) \<and>
     (ws_hb t \<noteq> None \<longrightarrow> sy_events s (ws_hbid t) = Some x \<and> ws_hbid t \<noteq> ws_timerid t) \<and>
     (\<not> ws_container t \<longrightarrow> ws_timer t = None \<and> ws_hb t = None \<and> (\<forall>i. sy_events s i \<noteq> Some x))"

definition timers_listed :: "(nat \<rightharpoonup> world_session) \<Rightarrow> interval_timer ecs_system \<Rightarrow> bool" where
  "timers_listed m s \<longleftrightarrow> stable_inv (sy_data s) \<and> (\<forall>c \<in> set (st_data (sy_data s)). timer_elem c) \<and> distinct (timer_ids s) \<and>
     (\<forall>i x. sy_events s i = Some x \<longrightarrow> i \<in> set (timer_ids s) \<and> (\<exists>t. m x = Some t \<and> (i = ws_timerid t \<or> i = ws_hbid t))) \<and>
     (\<forall>x t. m x = Some t \<longrightarrow> listed s x t)"

definition told_at :: "(nat \<rightharpoonup> world_session) \<Rightarrow> interval_timer ecs_system \<Rightarrow> nat \<Rightarrow> bool" where
  "told_at m s k \<longleftrightarrow> (\<forall>x t. sy_events s (timer_ids s ! k) = Some x \<longrightarrow> m x = Some t \<longrightarrow>
     own_ptr t (timer_ids s ! k) = Some (st_block (sy_data s), k) \<and>
     it_interval (st_data (sy_data s) ! k) = interval_of t (timer_ids s ! k))"

text \<open>Every pointer of a session leads to the timer with the session's id, with the session's interval.\<close>

definition timers_ok :: "('a, 'z) game_scheme \<Rightarrow> bool" where
  "timers_ok w \<longleftrightarrow> (\<exists>s. only_timers (gm_ecs w) s \<and> timers_listed (gm_objs w) s \<and>
     (\<forall>k < st_num (sy_data s). told_at (gm_objs w) s k) \<and> (\<forall>i \<in> set (timer_ids s). i < gm_compid w))"

lemma length_timer_ids [simp]: "length (timer_ids s) = st_num (sy_data s)"
  by (simp add: timer_ids_def)

definition points :: "interval_timer ecs_system \<Rightarrow> nat \<times> nat \<Rightarrow> u32 \<Rightarrow> int \<Rightarrow> bool" where
  "points s p i v \<longleftrightarrow> fst p = st_block (sy_data s) \<and> snd p < st_num (sy_data s) \<and>
     cm_id (st_data (sy_data s) ! snd p) = i \<and> it_interval (st_data (sy_data s) ! snd p) = v"

lemma told_points:
  assumes "timers_listed m s" "\<forall>k < st_num (sy_data s). told_at m s k" "m x = Some t" "sy_events s i = Some x" "own_ptr t i = Some p"
  shows "points s p i (interval_of t i)"
proof -
  have "i \<in> set (timer_ids s)" using assms(1,4) by (simp add: timers_listed_def)
  then obtain k where k: "k < st_num (sy_data s)" "timer_ids s ! k = i" by (auto simp: in_set_conv_nth)
  then have "own_ptr t i = Some (st_block (sy_data s), k)" "it_interval (st_data (sy_data s) ! k) = interval_of t i"
    using assms(2-4) by (auto simp: told_at_def)
  then show ?thesis using k assms(5) by (auto simp: points_def timer_ids_def)
qed

lemma session_points:
  assumes "timers_listed m s" "\<forall>k < st_num (sy_data s). told_at m s k" "m x = Some t"
  shows "ws_timer t = Some p \<Longrightarrow> points s p (ws_timerid t) WORLD_SESSION_UPDATE_INTERVAL"
    and "ws_hb t = Some p \<Longrightarrow> points s p (ws_hbid t) HEART_BEAT_INTERVAL"
proof -
  have l: "listed s x t" using assms(1,3) by (simp add: timers_listed_def)
  show "points s p (ws_timerid t) WORLD_SESSION_UPDATE_INTERVAL" if "ws_timer t = Some p"
    using told_points [OF assms, of "ws_timerid t" p] l that by (simp add: listed_def own_ptr_def interval_of_def)
  show "points s p (ws_hbid t) HEART_BEAT_INTERVAL" if "ws_hb t = Some p"
    using told_points [OF assms, of "ws_hbid t" p] l that by (simp add: listed_def own_ptr_def interval_of_def)
qed

section \<open>Delivering the events of the system\<close>

lemma stable_no_invalid:
  assumes "\<forall>c \<in> set (st_data a). timer_elem c"
  shows "stable_inv a \<longleftrightarrow> st_free a = [] \<and> st_num a \<le> st_alloc a"
proof -
  have "{i. i < st_num a \<and> cm_GetInvalid (st_data a ! i)} = {}" using assms timer_elem_simps(1) nth_mem by blast
  then show ?thesis by (auto simp only: stable_inv_def set_empty distinct.simps)
qed

definition same_storage :: "interval_timer ecs_system \<Rightarrow> interval_timer ecs_system \<Rightarrow> bool" where
  "same_storage s s' \<longleftrightarrow> timer_ids s' = timer_ids s \<and> st_block (sy_data s') = st_block (sy_data s) \<and>
     sy_events s' = sy_events s \<and> st_dirty (sy_data s') = st_dirty (sy_data s)"

text \<open>The sessions apart from their pointers.\<close>

definition no_ptrs :: "world_session \<Rightarrow> world_session" where
  "no_ptrs t = t\<lparr>ws_timer := None, ws_hb := None\<rparr>"

definition repointed :: "(nat \<rightharpoonup> world_session) \<Rightarrow> (nat \<rightharpoonup> world_session) \<Rightarrow> bool" where
  "repointed m m' \<longleftrightarrow> (\<forall>x. map_option no_ptrs (m' x) = map_option no_ptrs (m x))"

lemma repointed_refl [simp]: "repointed m m"
  by (simp add: repointed_def)

lemma repointed_trans: "repointed a b \<Longrightarrow> repointed b c \<Longrightarrow> repointed a c"
  by (simp add: repointed_def)

lemma repointed_one:
  "m x = Some t \<Longrightarrow> repointed m (m(x \<mapsto> t\<lparr>ws_timer := p\<rparr>))" "m x = Some t \<Longrightarrow> repointed m (m(x \<mapsto> t\<lparr>ws_hb := p\<rparr>))"
  by (simp_all add: repointed_def no_ptrs_def)

lemma no_ptrs_eqD:
  assumes "no_ptrs a = no_ptrs b"
  shows "ws_timerid a = ws_timerid b" "ws_hbid a = ws_hbid b" "ws_container a = ws_container b" "ws_sock a = ws_sock b"
    "ws_id a = ws_id b" "ws_timeout a = ws_timeout b" "ws_inqueue a = ws_inqueue b"
  using assms by (cases a; cases b; simp add: no_ptrs_def)+

lemma repointedD:
  assumes "repointed m m'"
  shows "m x = Some t \<Longrightarrow> \<exists>t'. m' x = Some t' \<and> no_ptrs t' = no_ptrs t" "m' x = Some t' \<Longrightarrow> \<exists>t. m x = Some t \<and> no_ptrs t' = no_ptrs t"
    "m' x = None \<longleftrightarrow> m x = None"
proof -
  have e: "map_option no_ptrs (m' x) = map_option no_ptrs (m x)" using assms by (simp add: repointed_def)
  then show "m x = Some t \<Longrightarrow> \<exists>t'. m' x = Some t' \<and> no_ptrs t' = no_ptrs t" "m' x = Some t' \<Longrightarrow> \<exists>t. m x = Some t \<and> no_ptrs t' = no_ptrs t"
    "m' x = None \<longleftrightarrow> m x = None"
    by (cases "m x"; cases "m' x"; simp)+
qed

lemma same_storage_refl [simp]: "same_storage s s"
  by (simp add: same_storage_def)

lemma same_storage_trans: "same_storage a b \<Longrightarrow> same_storage b c \<Longrightarrow> same_storage a c"
  by (simp add: same_storage_def)

lemma set_interval_at:
  assumes "only_timers c s" "k < st_num (sy_data s)"
  shows "\<exists>c'. set_interval (Some (st_block (sy_data s), k)) v c = Some c' \<and>
    only_timers c' (sy_write k ((st_data (sy_data s) ! k)\<lparr>it_interval := v\<rparr>) s)"
  using assms timer_put_only [OF assms(1), of "(st_block (sy_data s), k)"] by (simp add: set_interval_def timer_at_alt)

lemma write_interval:
  assumes "k < st_num (sy_data s)"
  shows "same_storage s (sy_write k ((st_data (sy_data s) ! k)\<lparr>it_interval := v\<rparr>) s)"
proof -
  let ?d = "st_data (sy_data s)"
  have "(map cm_id ?d)[k := cm_id (?d ! k)] = map cm_id ?d" using assms list_update_id [of "map cm_id ?d" k] by simp
  then show ?thesis by (simp add: same_storage_def timer_ids_def map_update) (simp add: sy_write_def)
qed

lemma listed_write:
  assumes "timers_listed m s" "k < st_num (sy_data s)" "repointed m m'"
    and "\<And>x t. m' x = Some t \<Longrightarrow> listed s x t"
  shows "timers_listed m' (sy_write k ((st_data (sy_data s) ! k)\<lparr>it_interval := v\<rparr>) s)"
proof -
  let ?s = "sy_write k ((st_data (sy_data s) ! k)\<lparr>it_interval := v\<rparr>) s"
  have same: "timer_ids ?s = timer_ids s" "sy_events ?s = sy_events s" using write_interval [OF assms(2)] by (simp_all add: same_storage_def)
  have elem: "\<forall>c \<in> set (st_data (sy_data ?s)). timer_elem c"
    using assms(1,2) set_update_subset_insert [of "st_data (sy_data s)" k] by (fastforce simp: timers_listed_def)
  have "\<exists>t. m' x = Some t \<and> (i = ws_timerid t \<or> i = ws_hbid t)" if e: "sy_events s i = Some x" for i x
  proof -
    obtain t where "m x = Some t" "i = ws_timerid t \<or> i = ws_hbid t" using e assms(1) unfolding timers_listed_def by blast
    then show ?thesis using repointedD(1) [OF assms(3), of x t] no_ptrs_eqD(1,2) by metis
  qed
  moreover have "stable_inv (sy_data ?s)"
    using assms(1) stable_no_invalid [of "sy_data s"] stable_no_invalid [OF elem] by (simp add: timers_listed_def)
  moreover have "listed ?s x t" if "m' x = Some t" for x t using assms(4) [OF that] by (simp add: listed_def)
  ultimately show ?thesis using assms(1) elem same by (auto simp: timers_listed_def)
qed

text \<open>One event: the owner of the component at \<open>k\<close> is told, and nothing else changes.\<close>

definition event_at :: "interval_timer ecs_system \<Rightarrow> nat \<Rightarrow> nat \<Rightarrow> change_event" where
  "event_at s x k = \<lparr>ev_call = x, ev_com = Some (st_block (sy_data s), k), ev_id = timer_ids s ! k,
     ev_catalog = cm_GetCatalog (st_data (sy_data s) ! k)\<rparr>"

lemma event_told:
  assumes c: "only_timers (gm_ecs w) s" and l: "timers_listed (gm_objs w) s" and k: "k < st_num (sy_data s)"
    and e: "sy_events s (timer_ids s ! k) = Some x"
  shows "\<exists>m c s'. ws_OnComponentChangeEvent (event_at s x k) w = Some (w\<lparr>gm_objs := m, gm_ecs := c\<rparr>) \<and> only_timers c s' \<and>
    same_storage s s' \<and> repointed (gm_objs w) m \<and> timers_listed m s' \<and> told_at m s' k \<and>
    (\<forall>n < st_num (sy_data s). n \<noteq> k \<longrightarrow> told_at (gm_objs w) s n \<longrightarrow> told_at m s' n)"
proof -
  let ?i = "timer_ids s ! k"
  obtain t where t: "gm_objs w x = Some t" "?i = ws_timerid t \<or> ?i = ws_hbid t" using l e unfolding timers_listed_def by blast
  have own: "listed s x t" using l t(1) by (simp add: timers_listed_def)
  let ?t = "if ?i = ws_timerid t then t\<lparr>ws_timer := Some (st_block (sy_data s), k)\<rparr> else t\<lparr>ws_hb := Some (st_block (sy_data s), k)\<rparr>"
  let ?m = "(gm_objs w)(x \<mapsto> ?t)" and ?v = "interval_of t ?i"
  let ?s = "sy_write k ((st_data (sy_data s) ! k)\<lparr>it_interval := ?v\<rparr>) s"
  obtain c' where c': "set_interval (Some (st_block (sy_data s), k)) ?v (gm_ecs w) = Some c'" "only_timers c' ?s"
    using set_interval_at [OF c k] by blast
  have "timer_elem (st_data (sy_data s) ! k)" using l k by (simp add: timers_listed_def)
  then have cat: "cm_GetCatalog (st_data (sy_data s) ! k) = catalog_code INTERVAL_TIMER" by (rule timer_elem_simps)
  have step: "ws_OnComponentChangeEvent (event_at s x k) w = Some (w\<lparr>gm_objs := ?m, gm_ecs := c'\<rparr>)"
    using t c'(1) by (auto simp: ws_OnComponentChangeEvent_def event_at_def cat put_session_def interval_of_def)
  have same: "same_storage s ?s" by (rule write_interval [OF k])
  have re: "repointed (gm_objs w) ?m" using repointed_one [of "gm_objs w" x t] t(1) by simp
  have "ws_container t" using own e by (auto simp: listed_def)
  then have "listed s x ?t" using own e t(2) by (auto simp: listed_def)
  then have ls: "timers_listed ?m ?s"
    using l by (intro listed_write [OF l k re]) (auto simp: timers_listed_def split: if_splits)
  have "told_at ?m ?s k" using e k same by (auto simp: told_at_def same_storage_def own_ptr_def interval_of_def)
  moreover have "told_at ?m ?s n" if n: "n < st_num (sy_data s)" "n \<noteq> k" "told_at (gm_objs w) s n" for n
  proof -
    have ne: "timer_ids s ! n \<noteq> ?i" using l k n(1,2) by (simp add: timers_listed_def nth_eq_iff_index_eq)
    show ?thesis unfolding told_at_def
    proof (intro allI impI)
      fix y u assume y: "sy_events ?s (timer_ids ?s ! n) = Some y" "?m y = Some u"
      then have ev: "sy_events s (timer_ids s ! n) = Some y" using same by (simp add: same_storage_def)
      have i: "y = x \<Longrightarrow> timer_ids s ! n = ws_timerid t \<or> timer_ids s ! n = ws_hbid t"
        using l ev t(1) unfolding timers_listed_def by (metis option.inject)
      obtain u0 where u0: "gm_objs w y = Some u0" "own_ptr u (timer_ids s ! n) = own_ptr u0 (timer_ids s ! n)"
        "interval_of u (timer_ids s ! n) = interval_of u0 (timer_ids s ! n)"
        using y(2) t(2) ne i by (cases "y = x"; cases "?i = ws_timerid t") (auto simp: own_ptr_def interval_of_def t(1))
      then show "own_ptr u (timer_ids ?s ! n) = Some (st_block (sy_data ?s), n) \<and>
          it_interval (st_data (sy_data ?s) ! n) = interval_of u (timer_ids ?s ! n)"
        using n ev same by (simp add: told_at_def same_storage_def)
    qed
  qed
  ultimately show ?thesis using step c'(2) same re ls by blast
qed

text \<open>All components are announced: afterwards every owner knows where its timers are.\<close>

lemma notify_from_ids:
  assumes "\<forall>c \<in> set cs. timer_elem c" "\<forall>c \<in> set ds. timer_elem c" "map cm_id cs = map cm_id ds"
  shows "notify_from ev b n cs = notify_from ev b n ds"
  using assms
proof (induction cs arbitrary: ds n)
  case (Cons c cs)
  then obtain d ds' where d: "ds = d # ds'" "cm_id d = cm_id c" "map cm_id cs = map cm_id ds'" by (cases ds) auto
  then have "timer_elem c" "timer_elem d" using Cons.prems by simp_all
  then show ?case using Cons.IH [of ds' "Suc n"] Cons.prems d timer_elem_simps(1,2) by simp
qed simp

lemma same_storage_num: "same_storage s s' \<Longrightarrow> st_num (sy_data s') = st_num (sy_data s)"
  by (metis length_timer_ids same_storage_def)

lemma deliver_notify_from:
  assumes "only_timers (gm_ecs w) s" "timers_listed (gm_objs w) s"
  shows "\<exists>m c s'. deliver (notify_from (sy_events s) (st_block (sy_data s)) n (drop n (st_data (sy_data s)))) w = Some (w\<lparr>gm_objs := m, gm_ecs := c\<rparr>) \<and>
    only_timers c s' \<and> same_storage s s' \<and> repointed (gm_objs w) m \<and> timers_listed m s' \<and>
    (\<forall>k < st_num (sy_data s). n \<le> k \<or> told_at (gm_objs w) s k \<longrightarrow> told_at m s' k)"
  using assms
proof (induction "st_num (sy_data s) - n" arbitrary: n s w)
  case 0
  then show ?case by (intro exI [of _ "gm_objs w"] exI [of _ "gm_ecs w"] exI [of _ s]) auto
next
  case (Suc d)
  let ?xs = "st_data (sy_data s)" and ?b = "st_block (sy_data s)"
  have n: "n < length ?xs" using Suc.hyps(2) by linarith
  have dr: "drop n ?xs = ?xs ! n # drop (Suc n) ?xs" using n by (rule Cons_nth_drop_Suc [symmetric])
  have elems: "\<forall>c \<in> set ?xs. timer_elem c" using Suc.prems(2) by (simp add: timers_listed_def)
  have el: "timer_elem (?xs ! n)" using elems n by simp
  have id: "timer_ids s ! n = cm_id (?xs ! n)" using n by (simp add: timer_ids_def)
  show ?case
  proof (cases "sy_events s (timer_ids s ! n)")
    case None
    have "d = st_num (sy_data s) - Suc n" using Suc.hyps(2) by linarith
    from Suc.hyps(1) [OF this Suc.prems] obtain m c s' where
      r: "deliver (notify_from (sy_events s) ?b (Suc n) (drop (Suc n) ?xs)) w = Some (w\<lparr>gm_objs := m, gm_ecs := c\<rparr>)"
      "only_timers c s'" "same_storage s s'" "repointed (gm_objs w) m" "timers_listed m s'"
      "\<forall>k < st_num (sy_data s). Suc n \<le> k \<or> told_at (gm_objs w) s k \<longrightarrow> told_at m s' k" by blast
    have "told_at m s' n" using None r(3) by (simp add: told_at_def same_storage_def)
    then have t: "\<forall>k < st_num (sy_data s). n \<le> k \<or> told_at (gm_objs w) s k \<longrightarrow> told_at m s' k"
      using r(6) by (auto simp: not_less_eq_eq [symmetric])
    have "notify_from (sy_events s) ?b n (drop n ?xs) = notify_from (sy_events s) ?b (Suc n) (drop (Suc n) ?xs)"
      using None id timer_elem_simps(1) [OF el] by (simp add: dr notify_def)
    then have "deliver (notify_from (sy_events s) ?b n (drop n ?xs)) w = Some (w\<lparr>gm_objs := m, gm_ecs := c\<rparr>)" using r(1) by simp
    then show ?thesis using r(2-5) t by (intro exI conjI) assumption+
  next
    case (Some x)
    obtain m c s1 where a: "ws_OnComponentChangeEvent (event_at s x n) w = Some (w\<lparr>gm_objs := m, gm_ecs := c\<rparr>)" "only_timers c s1"
      "same_storage s s1" "repointed (gm_objs w) m" "timers_listed m s1" "told_at m s1 n"
      "\<forall>k < st_num (sy_data s). k \<noteq> n \<longrightarrow> told_at (gm_objs w) s k \<longrightarrow> told_at m s1 k"
      using event_told [OF Suc.prems n Some] by blast
    let ?w = "w\<lparr>gm_objs := m, gm_ecs := c\<rparr>"
    have "d = st_num (sy_data s1) - Suc n" using Suc.hyps(2) same_storage_num [OF a(3)] by linarith
    from Suc.hyps(1) [OF this, of ?w] obtain m' c' s' where
      r: "deliver (notify_from (sy_events s1) (st_block (sy_data s1)) (Suc n) (drop (Suc n) (st_data (sy_data s1)))) ?w =
          Some (w\<lparr>gm_objs := m', gm_ecs := c'\<rparr>)"
      "only_timers c' s'" "same_storage s1 s'" "repointed m m'" "timers_listed m' s'"
      "\<forall>k < st_num (sy_data s1). Suc n \<le> k \<or> told_at m s1 k \<longrightarrow> told_at m' s' k" using a(2,5) by auto
    have told: "told_at m' s' k" if k: "k < st_num (sy_data s)" "n \<le> k \<or> told_at (gm_objs w) s k" for k
    proof -
      have "Suc n \<le> k \<or> told_at m s1 k" using k a(6,7) by (cases "k = n") (auto simp: not_less_eq_eq)
      then show ?thesis using r(6) k(1) same_storage_num [OF a(3)] by auto
    qed
    have fin: "same_storage s s'" "repointed (gm_objs w) m'" "\<forall>k < st_num (sy_data s). n \<le> k \<or> told_at (gm_objs w) s k \<longrightarrow> told_at m' s' k"
      using same_storage_trans [OF a(3) r(3)] repointed_trans [OF a(4) r(4)] told by simp_all
    have "notify_from (sy_events s1) (st_block (sy_data s1)) (Suc n) (drop (Suc n) (st_data (sy_data s1))) =
        notify_from (sy_events s) ?b (Suc n) (drop (Suc n) ?xs)"
    proof -
      have "map cm_id (drop (Suc n) (st_data (sy_data s1))) = map cm_id (drop (Suc n) ?xs)"
        using a(3) by (simp add: same_storage_def timer_ids_def drop_map [symmetric])
      moreover have "\<forall>c \<in> set (st_data (sy_data s1)). timer_elem c" using a(5) by (simp add: timers_listed_def)
      moreover have "sy_events s1 = sy_events s" "st_block (sy_data s1) = ?b" using a(3) by (simp_all add: same_storage_def)
      ultimately show ?thesis using elems by (simp only:) (intro notify_from_ids ballI; blast dest: in_set_dropD)
    qed
    moreover have "notify_from (sy_events s) ?b n (drop n ?xs) = event_at s x n # notify_from (sy_events s) ?b (Suc n) (drop (Suc n) ?xs)"
      using Some id timer_elem_simps(1) [OF el] by (simp add: dr notify_def event_at_def)
    ultimately have "deliver (notify_from (sy_events s) ?b n (drop n ?xs)) w = Some (w\<lparr>gm_objs := m', gm_ecs := c'\<rparr>)"
      using a(1) r(1) by simp
    then show ?thesis using r(2,5) fin by (intro exI conjI) assumption+
  qed
qed

lemma deliver_notify_all:
  assumes "only_timers (gm_ecs w) s" "timers_listed (gm_objs w) s"
  shows "\<exists>m c s'. deliver (notify_all s) w = Some (w\<lparr>gm_objs := m, gm_ecs := c\<rparr>) \<and> only_timers c s' \<and> same_storage s s' \<and>
    repointed (gm_objs w) m \<and> timers_listed m s' \<and> (\<forall>k < st_num (sy_data s). told_at m s' k)"
  using deliver_notify_from [OF assms, of 0] by (simp add: notify_all_def)

lemma deliver_append: "deliver (es @ fs) w = Option.bind (deliver es w) (deliver fs)"
  by (induction es w rule: deliver.induct) (auto split: bind_splits)

section \<open>Registering\<close>

lemma add_timer:
  assumes "st_free a = []" "st_num a \<le> st_alloc a" "\<forall>c \<in> set (st_data a). timer_elem c" "st_num a + 1 < 0xFFFFFFFF"
  shows "\<exists>a'. sa_Add (timer_ops j1 j2) False (timer_new i) a = Some (st_num a, a') \<and> map cm_id (st_data a') = map cm_id (st_data a) @ [i] \<and>
    (\<forall>c \<in> set (st_data a'). timer_elem c) \<and> st_free a' = [] \<and> st_num a' \<le> st_alloc a'"
proof (cases "st_num a < st_alloc a")
  case True
  have "eo_copy (timer_ops j1 j2) (timer_new i) = timer_copy (timer_new i)" by (simp add: timer_ops_def)
  moreover have "cm_id (timer_copy (timer_new i)) = i" using timer.copy_id [of j1 j2 "timer_new i"] timer_new_elem by (simp add: timer_ops_def)
  ultimately show ?thesis using assms True timer_elem_simps(4) [OF timer_new_elem(1)] by (simp add: sa_Add_def)
next
  case False
  then have eq: "st_num a = st_alloc a" using assms(2) by simp
  from resize_grow [OF this assms(1,4), of "timer_ops j1 j2"] obtain k where k:
    "sa_resize (timer_ops j1 j2) (st_num a + 1) False a = Some (a\<lparr>st_dirty := True, st_block := st_block a + 1, st_alloc := k,
      st_data := map timer_copy (st_data a) @ [eo_fresh (timer_ops j1 j2)]\<rparr>)" "st_num a + 1 \<le> k"
    by (auto simp: timer_ops_def)
  have "map (cm_id \<circ> timer_copy) (st_data a) = map cm_id (st_data a)"
    using timer.copy_id by (simp add: timer_ops_def comp_def)
  moreover have "(map timer_copy (st_data a) @ [eo_fresh (timer_ops j1 j2)])[st_num a := timer_new i] = map timer_copy (st_data a) @ [timer_new i]"
    by (simp add: list_update_append)
  ultimately show ?thesis using k eq assms(1,3) timer_elem_simps(4) timer_new_elem by (simp add: sa_Add_def)
qed

lemma only_timers_event:
  assumes "only_timers c s"
  shows "\<exists>c'. ct_RegisterComponentChangeEvent x i INTERVAL_TIMER c = Some c' \<and> only_timers c' (s\<lparr>sy_events := (sy_events s)(i \<mapsto> x)\<rparr>)"
    and "\<exists>c'. ct_UnRegisterComponentChangeEvent i INTERVAL_TIMER c = Some c' \<and> only_timers c' (s\<lparr>sy_events := (sy_events s)(i := None)\<rparr>)"
proof -
  obtain j where j: "timer_system c = Some (j, s)" using assms only_timers_system by blast
  note d = timer_systemD [OF j]
  show "\<exists>c'. ct_RegisterComponentChangeEvent x i INTERVAL_TIMER c = Some c' \<and> only_timers c' (s\<lparr>sy_events := (sy_events s)(i \<mapsto> x)\<rparr>)"
    using d only_timers_put [OF assms j] by (simp add: ct_RegisterComponentChangeEvent_def sy_RegisterComponentChangeEvent_def)
  show "\<exists>c'. ct_UnRegisterComponentChangeEvent i INTERVAL_TIMER c = Some c' \<and> only_timers c' (s\<lparr>sy_events := (sy_events s)(i := None)\<rparr>)"
    using d only_timers_put [OF assms j] by (simp add: ct_UnRegisterComponentChangeEvent_def sy_UnRegisterComponentChangeEvent_def)
qed

text \<open>The timer system with one more timer, before anybody has been told.\<close>

lemma register_added:
  assumes s: "only_timers c s" and st: "stable_inv (sy_data s)" "\<forall>c \<in> set (st_data (sy_data s)). timer_elem c"
    and room: "st_num (sy_data s) + 1 < 0xFFFFFFFF" and e: "sy_events s i = Some x"
  shows "\<exists>c' s' pre. ct_register INTERVAL_TIMER (register_timer j1 j2 (timer_new i)) c = Some (pre @ notify_all s', c') \<and>
    only_timers c' s' \<and> timer_ids s' = timer_ids s @ [i] \<and> sy_events s' = sy_events s \<and> stable_inv (sy_data s') \<and>
    (\<forall>c \<in> set (st_data (sy_data s')). timer_elem c) \<and> (pre = [] \<or> pre = [event_at s' x (st_num (sy_data s))])"
proof -
  let ?a = "sy_data s"
  obtain j where j: "timer_system c = Some (j, s)" using s only_timers_system by blast
  note d = timer_systemD [OF j]
  have f: "st_free ?a = []" "st_num ?a \<le> st_alloc ?a" using st stable_no_invalid by auto
  obtain a where a: "sa_Add (timer_ops j1 j2) False (timer_new i) ?a = Some (st_num ?a, a)" "map cm_id (st_data a) = map cm_id (st_data ?a) @ [i]"
    "\<forall>c \<in> set (st_data a). timer_elem c" "st_free a = []" "st_num a \<le> st_alloc a"
    using add_timer [OF f st(2) room] by blast
  have inv: "stable_inv a" "stable_inv (sa_flush a)" using a(3-5) stable_no_invalid by (simp_all add: sa_flush_def stable_no_invalid)
  have num: "st_num a = Suc (st_num ?a)" using arg_cong [OF a(2), of length] by simp
  let ?s = "s\<lparr>sy_data := a\<rparr>" and ?f = "s\<lparr>sy_data := sa_flush a\<rparr>"
  have ids: "timer_ids ?s = timer_ids s @ [i]" "timer_ids ?f = timer_ids s @ [i]" using a(2) by (simp_all add: timer_ids_def sa_flush_def)
  have "timer_elem (st_data a ! st_num ?a)" using a(3) num by simp
  then have ev: "notify (sy_events s) i (Some (st_block a, st_num ?a)) (cm_GetCatalog (timer_new i)) = [event_at ?s x (st_num ?a)]"
    using e ids(1) timer_elem_simps(2) [OF timer_new_elem(1), of i] timer_elem_simps(2) [of "st_data a ! st_num ?a"]
    by (simp add: notify_def event_at_def nth_append)
  have all: "notify_all ?f = notify_all ?s" by (simp add: notify_all_def sa_flush_def)
  show ?thesis
  proof (cases "st_dirty a")
    case True
    then have "sy_RegisterComponent True (timer_ops j1 j2) (timer_new i) s = Some (notify_all ?f, ?f)"
      using a(1) all by (simp add: sy_RegisterComponent_def Let_def)
    then have "ct_register INTERVAL_TIMER (register_timer j1 j2 (timer_new i)) c = Some ([] @ notify_all ?f, put_body j (TimerSys ?f) c)"
      using d by (simp add: ct_register_def)
    moreover have "\<forall>c \<in> set (st_data (sy_data ?f)). timer_elem c" using a(3) by (simp add: sa_flush_def)
    moreover note only_timers_put [OF s j, of ?f] ids(2) inv(2)
    ultimately show ?thesis by fastforce
  next
    case False
    then have "sy_RegisterComponent True (timer_ops j1 j2) (timer_new i) s = Some ([event_at ?s x (st_num ?a)] @ notify_all ?s, ?s)"
      using a(1) ev by (simp add: sy_RegisterComponent_def Let_def timer_new_elem)
    then have "ct_register INTERVAL_TIMER (register_timer j1 j2 (timer_new i)) c =
        Some ([event_at ?s x (st_num ?a)] @ notify_all ?s, put_body j (TimerSys ?s) c)"
      using d by (simp add: ct_register_def)
    moreover have "\<forall>c \<in> set (st_data (sy_data ?s)). timer_elem c" using a(3) by simp
    moreover note only_timers_put [OF s j, of ?s] ids(1) inv(1)
    ultimately show ?thesis by fastforce
  qed
qed

lemma register_timer_ok:
  assumes s: "only_timers (gm_ecs w) s" and l: "timers_listed (gm_objs w) s" and t: "gm_objs w x = Some t" "ws_container t"
    and i: "i \<notin> set (timer_ids s)" "i = ws_timerid t \<and> ws_timer t = None \<or> i = ws_hbid t \<and> i \<noteq> ws_timerid t \<and> ws_hb t = None"
    and room: "st_num (sy_data s) + 1 < 0xFFFFFFFF"
  shows "\<exists>m c s'. ws_register_timer junk x i w = Some (w\<lparr>gm_objs := m, gm_ecs := c\<rparr>) \<and> only_timers c s' \<and> repointed (gm_objs w) m \<and>
    timers_listed m s' \<and> (\<forall>k < st_num (sy_data s'). told_at m s' k) \<and> timer_ids s' = timer_ids s @ [i] \<and> sy_events s' = (sy_events s)(i \<mapsto> x)"
proof -
  let ?e = "s\<lparr>sy_events := (sy_events s)(i \<mapsto> x)\<rparr>"
  obtain c1 where c1: "ct_RegisterComponentChangeEvent x i INTERVAL_TIMER (gm_ecs w) = Some c1" "only_timers c1 ?e"
    using only_timers_event(1) [OF s] by blast
  have st: "stable_inv (sy_data s)" "\<forall>c \<in> set (st_data (sy_data s)). timer_elem c" "distinct (timer_ids s)"
    and ev: "\<And>k y. sy_events s k = Some y \<Longrightarrow> k \<in> set (timer_ids s) \<and> (\<exists>t. gm_objs w y = Some t \<and> (k = ws_timerid t \<or> k = ws_hbid t))"
    and ls: "\<And>y t. gm_objs w y = Some t \<Longrightarrow> listed s y t"
    using l unfolding timers_listed_def by blast+
  have "stable_inv (sy_data ?e)" "\<forall>c \<in> set (st_data (sy_data ?e)). timer_elem c" "st_num (sy_data ?e) + 1 < 0xFFFFFFFF"
    "sy_events ?e i = Some x" using st room by simp_all
  from register_added [OF c1(2) this, of "fst junk" "snd junk"] obtain c2 s2 pre where
    r: "ct_register INTERVAL_TIMER (register_timer (fst junk) (snd junk) (timer_new i)) c1 = Some (pre @ notify_all s2, c2)"
      "only_timers c2 s2" "timer_ids s2 = timer_ids s @ [i]" "sy_events s2 = (sy_events s)(i \<mapsto> x)" "stable_inv (sy_data s2)"
      "\<forall>c \<in> set (st_data (sy_data s2)). timer_elem c" "pre = [] \<or> pre = [event_at s2 x (st_num (sy_data s))]"
    by (auto simp: timer_ids_def)
  let ?w = "w\<lparr>gm_ecs := c2\<rparr>"
  have listed2: "listed s2 y u" if u: "gm_objs w y = Some u" for y u
  proof -
    have "ws_timer u \<noteq> None \<Longrightarrow> ws_timerid u \<noteq> i" "ws_hb u \<noteq> None \<Longrightarrow> ws_hbid u \<noteq> i"
      using ls [OF u] ev i(1) by (auto simp: listed_def)
    moreover have "\<not> ws_container u \<Longrightarrow> y \<noteq> x" using t u by auto
    ultimately show ?thesis using ls [OF u] r(4) by (auto simp: listed_def)
  qed
  have l2: "timers_listed (gm_objs ?w) s2"
    unfolding timers_listed_def
  proof (intro conjI allI impI)
    show "distinct (timer_ids s2)" using st(3) i(1) r(3) by simp
    show "\<exists>t. gm_objs ?w y = Some t \<and> (k = ws_timerid t \<or> k = ws_hbid t)" if "sy_events s2 k = Some y" for k y
      using that r(4) ev t i(2) by (auto split: if_splits)
  qed (use r(3-6) ev listed2 in \<open>auto split: if_splits\<close>)
  have num: "st_num (sy_data s2) = Suc (st_num (sy_data s))" using arg_cong [OF r(3), of length] by simp
  have last: "timer_ids s2 ! st_num (sy_data s) = i" using r(3) by (simp add: nth_append)
  obtain m3 c3 s3 where d: "deliver pre ?w = Some (w\<lparr>gm_objs := m3, gm_ecs := c3\<rparr>)" "only_timers c3 s3" "same_storage s2 s3"
    "repointed (gm_objs w) m3" "timers_listed m3 s3"
  proof (cases "pre = []")
    case True
    then show thesis using that [of c2 "gm_objs w" s2] r(2) l2 by simp
  next
    case False
    then have "pre = [event_at s2 x (st_num (sy_data s))]" using r(7) by blast
    moreover have "only_timers (gm_ecs ?w) s2" "st_num (sy_data s) < st_num (sy_data s2)"
      "sy_events s2 (timer_ids s2 ! st_num (sy_data s)) = Some x" using r(2,4) num last by simp_all
    from event_told [OF this(1) l2 this(2,3)] obtain m c s' where
      "ws_OnComponentChangeEvent (event_at s2 x (st_num (sy_data s))) ?w = Some (?w\<lparr>gm_objs := m, gm_ecs := c\<rparr>)"
      "only_timers c s'" "same_storage s2 s'" "repointed (gm_objs ?w) m" "timers_listed m s'" by blast
    ultimately show thesis using that [of c m s'] by simp
  qed
  have all: "notify_all s2 = notify_all s3"
  proof -
    have "map cm_id (st_data (sy_data s2)) = map cm_id (st_data (sy_data s3))" "\<forall>c \<in> set (st_data (sy_data s3)). timer_elem c"
      using d(3,5) by (simp_all add: same_storage_def timer_ids_def timers_listed_def)
    then show ?thesis using notify_from_ids [OF r(6)] d(3) by (simp add: notify_all_def same_storage_def)
  qed
  obtain m c s' where f: "deliver (notify_all s3) (w\<lparr>gm_objs := m3, gm_ecs := c3\<rparr>) = Some (w\<lparr>gm_objs := m, gm_ecs := c\<rparr>)"
    "only_timers c s'" "same_storage s3 s'" "repointed m3 m" "timers_listed m s'" "\<forall>k < st_num (sy_data s3). told_at m s' k"
    using deliver_notify_all [of "w\<lparr>gm_objs := m3, gm_ecs := c3\<rparr>" s3] d(2,5) by auto
  have "ws_register_timer junk x i w = Some (w\<lparr>gm_objs := m, gm_ecs := c\<rparr>)"
    using c1(1) r(1) d(1) f(1) by (simp add: ws_register_timer_def deliver_append all)
  moreover have "repointed (gm_objs w) m" using d(4) f(4) repointed_trans by blast
  moreover have "timer_ids s' = timer_ids s @ [i]" "sy_events s' = (sy_events s)(i \<mapsto> x)" using d(3) f(3) r(3,4) by (simp_all add: same_storage_def)
  moreover have "\<forall>k < st_num (sy_data s'). told_at m s' k" using f(6) same_storage_num [OF f(3)] by simp
  ultimately show ?thesis using f(2,5) by blast
qed

section \<open>The operations keep the pointers right\<close>

lemma ids_below:
  assumes "distinct xs" "\<forall>i \<in> set xs. i < (c :: u32)"
  shows "length xs \<le> unat c"
proof -
  have "unat ` set xs \<subseteq> {..<unat c}" using assms(2) by (auto simp: word_less_nat_alt)
  then have "card (unat ` set xs) \<le> unat c" using card_mono [of "{..<unat c}"] by fastforce
  moreover have "inj_on unat (set xs)" using word_unat_eq_iff by (auto intro!: inj_onI)
  ultimately show ?thesis using assms(1) by (simp add: card_image distinct_card)
qed

lemma timers_listed_upd:
  assumes "timers_listed m s" "m x = Some t" "listed s x t'" "\<And>k. sy_events s k = Some x \<Longrightarrow> k = ws_timerid t' \<or> k = ws_hbid t'"
  shows "timers_listed (m(x \<mapsto> t')) s"
  using assms unfolding timers_listed_def by (auto split: if_splits)

text \<open>Changing what has nothing to do with the timers.\<close>

definition same_timers :: "world_session \<Rightarrow> world_session \<Rightarrow> bool" where
  "same_timers t t' \<longleftrightarrow> ws_timer t' = ws_timer t \<and> ws_timerid t' = ws_timerid t \<and> ws_hb t' = ws_hb t \<and> ws_hbid t' = ws_hbid t \<and>
     ws_container t' = ws_container t"

lemma timers_ok_upd:
  assumes "timers_ok w" "gm_objs w x = Some t" "same_timers t t'"
  shows "timers_ok (put_session x t' w)"
proof -
  obtain s where s: "only_timers (gm_ecs w) s" "timers_listed (gm_objs w) s" "\<forall>k < st_num (sy_data s). told_at (gm_objs w) s k"
    "\<forall>i \<in> set (timer_ids s). i < gm_compid w" using assms(1) unfolding timers_ok_def by blast
  have l: "listed s x t" using s(2) assms(2) unfolding timers_listed_def by blast
  then have l': "listed s x t'" using assms(3) by (simp add: listed_def same_timers_def)
  have "\<And>k. sy_events s k = Some x \<Longrightarrow> k = ws_timerid t' \<or> k = ws_hbid t'"
    using s(2) assms(2,3) unfolding timers_listed_def same_timers_def by (metis option.inject)
  from timers_listed_upd [OF s(2) assms(2) l' this] have "timers_listed ((gm_objs w)(x \<mapsto> t')) s" .
  moreover have "told_at ((gm_objs w)(x \<mapsto> t')) s k" if "k < st_num (sy_data s)" for k
    using s(3) that assms(2,3) by (auto simp: told_at_def same_timers_def own_ptr_def interval_of_def)
  ultimately show ?thesis using s(1,4) by (auto simp: timers_ok_def put_session_def)
qed

lemma next_id:
  fixes c :: u32
  assumes "c < 0xFFFFFFFE"
  shows "c < c + 1" "unat c + 2 < 0xFFFFFFFF + 1" "unat (c + 1) = unat c + 1"
proof -
  have u: "unat c < 0xFFFFFFFE" using assms by (simp add: word_less_nat_alt)
  then show a: "unat (c + 1) = unat c + 1" by (simp add: unat_word_ariths)
  show "c < c + 1" unfolding word_less_nat_alt a by simp
  show "unat c + 2 < 0xFFFFFFFF + 1" using u by linarith
qed

text \<open>A session gets the next id for one of its timers.\<close>

lemma register_next:
  assumes s: "only_timers (gm_ecs w) s" and l: "timers_listed ((gm_objs w)(x \<mapsto> t)) s" and below: "\<forall>i \<in> set (timer_ids s). i < gm_compid w"
    and t: "ws_container t" and room: "gm_compid w < 0xFFFFFFFE"
    and i: "gm_compid w = ws_timerid t \<and> ws_timer t = None \<or> gm_compid w = ws_hbid t \<and> gm_compid w \<noteq> ws_timerid t \<and> ws_hb t = None"
  shows "\<exists>m c s'. ws_register_timer junk x (gm_compid w) (put_session x t (w\<lparr>gm_compid := gm_compid w + 1\<rparr>)) =
      Some (w\<lparr>gm_objs := m, gm_ecs := c, gm_compid := gm_compid w + 1\<rparr>) \<and> only_timers c s' \<and>
    (\<forall>y. y \<noteq> x \<longrightarrow> map_option no_ptrs (m y) = map_option no_ptrs (gm_objs w y)) \<and>
    (\<exists>t'. m x = Some t' \<and> no_ptrs t' = no_ptrs t) \<and> timers_listed m s' \<and> (\<forall>k < st_num (sy_data s'). told_at m s' k) \<and>
    (\<forall>i \<in> set (timer_ids s'). i < gm_compid w + 1) \<and> sy_events s' = (sy_events s)(gm_compid w \<mapsto> x)"
proof -
  let ?w = "put_session x t (w\<lparr>gm_compid := gm_compid w + 1\<rparr>)"
  have dist: "distinct (timer_ids s)" using l by (simp add: timers_listed_def)
  have "st_num (sy_data s) \<le> unat (gm_compid w)" using ids_below [OF dist below] by simp
  then have num: "st_num (sy_data s) + 1 < 0xFFFFFFFF" using next_id(2) [OF room] by linarith
  have w: "only_timers (gm_ecs ?w) s" "timers_listed (gm_objs ?w) s" "gm_objs ?w x = Some t" using s l by (simp_all add: put_session_def)
  have new: "gm_compid w \<notin> set (timer_ids s)" using below by auto
  obtain m c s' where r: "ws_register_timer junk x (gm_compid w) ?w = Some (?w\<lparr>gm_objs := m, gm_ecs := c\<rparr>)" "only_timers c s'"
    "repointed (gm_objs ?w) m" "timers_listed m s'" "\<forall>k < st_num (sy_data s'). told_at m s' k" "timer_ids s' = timer_ids s @ [gm_compid w]"
    "sy_events s' = (sy_events s)(gm_compid w \<mapsto> x)"
    using register_timer_ok [OF w t new i num, of junk] by blast
  have "?w\<lparr>gm_objs := m, gm_ecs := c\<rparr> = w\<lparr>gm_objs := m, gm_ecs := c, gm_compid := gm_compid w + 1\<rparr>" by (simp add: put_session_def)
  then have run: "ws_register_timer junk x (gm_compid w) ?w = Some (w\<lparr>gm_objs := m, gm_ecs := c, gm_compid := gm_compid w + 1\<rparr>)"
    using r(1) by simp
  have "\<forall>y. y \<noteq> x \<longrightarrow> map_option no_ptrs (m y) = map_option no_ptrs (gm_objs w y)" using r(3) by (simp add: repointed_def put_session_def)
  moreover have "\<exists>t'. m x = Some t' \<and> no_ptrs t' = no_ptrs t" using repointedD(1) [OF r(3) w(3)] by blast
  moreover have "\<forall>i \<in> set (timer_ids s'). i < gm_compid w + 1" using below r(6) next_id(1) [OF room] by (auto intro: less_trans)
  ultimately show ?thesis using run r(2,4,5,7) by blast
qed

lemma told_own:
  assumes "timers_listed m s" "\<forall>k < st_num (sy_data s). told_at m s k" "m x = Some t" "sy_events s i = Some x"
  shows "own_ptr t i \<noteq> None"
proof -
  have "i \<in> set (timer_ids s)" using assms(1,4) by (simp add: timers_listed_def)
  then obtain k where "k < st_num (sy_data s)" "timer_ids s ! k = i" by (auto simp: in_set_conv_nth)
  then show ?thesis using assms(2-4) by (auto simp: told_at_def)
qed

definition same_player :: "world_session \<Rightarrow> world_session \<Rightarrow> bool" where
  "same_player t t' \<longleftrightarrow> ws_sock t' = ws_sock t \<and> ws_id t' = ws_id t \<and> ws_timeout t' = ws_timeout t \<and> ws_inqueue t' = ws_inqueue t"

lemma Initilize_ok:
  assumes ok: "timers_ok w" and t: "gm_objs w x = Some t" "\<not> ws_container t" and room: "gm_compid w < 0xFFFFFFF0"
  shows "\<exists>m c. ws_Initilize junk x w = Some (w\<lparr>gm_objs := m, gm_ecs := c, gm_compid := gm_compid w + 2\<rparr>) \<and>
    timers_ok (w\<lparr>gm_objs := m, gm_ecs := c, gm_compid := gm_compid w + 2\<rparr>) \<and>
    (\<forall>y. y \<noteq> x \<longrightarrow> map_option no_ptrs (m y) = map_option no_ptrs (gm_objs w y)) \<and>
    (\<exists>t'. m x = Some t' \<and> ws_container t' \<and> ws_timer t' \<noteq> None \<and> ws_hb t' \<noteq> None \<and> same_player t t')"
proof -
  obtain i where i: "i = gm_compid w" by simp
  have room1: "gm_compid w < 0xFFFFFFFE" and room2: "gm_compid w + 1 < 0xFFFFFFFE"
    using room next_id(3) [of "gm_compid w"] by (simp_all add: word_less_nat_alt)
  obtain s where s: "only_timers (gm_ecs w) s" "timers_listed (gm_objs w) s" "\<forall>i \<in> set (timer_ids s). i < gm_compid w"
    using ok unfolding timers_ok_def by blast
  have none: "ws_timer t = None" "ws_hb t = None" "\<And>k. sy_events s k \<noteq> Some x"
    using s(2) t unfolding timers_listed_def listed_def by blast+
  obtain t1 where t1: "t1 = t\<lparr>ws_container := True, ws_timerid := i\<rparr>" by simp
  have l1: "timers_listed ((gm_objs w)(x \<mapsto> t1)) s"
    by (rule timers_listed_upd [OF s(2) t(1)]) (simp_all add: listed_def t1 none)
  have c1: "ws_container t1" "gm_compid w = ws_timerid t1 \<and> ws_timer t1 = None \<or> gm_compid w = ws_hbid t1 \<and> gm_compid w \<noteq> ws_timerid t1 \<and> ws_hb t1 = None"
    using none by (simp_all add: t1 i)
  obtain m2 c2 s2 t2 where r: "ws_register_timer junk x (gm_compid w) (put_session x t1 (w\<lparr>gm_compid := gm_compid w + 1\<rparr>)) =
      Some (w\<lparr>gm_objs := m2, gm_ecs := c2, gm_compid := gm_compid w + 1\<rparr>)" "only_timers c2 s2"
    "\<forall>y. y \<noteq> x \<longrightarrow> map_option no_ptrs (m2 y) = map_option no_ptrs (gm_objs w y)" "m2 x = Some t2" "no_ptrs t2 = no_ptrs t1"
    "timers_listed m2 s2" "\<forall>i \<in> set (timer_ids s2). i < gm_compid w + 1" "sy_events s2 = (sy_events s)(gm_compid w \<mapsto> x)"
    using register_next [OF s(1) l1 s(3) c1(1) room1 c1(2), of junk] by blast
  have f2: "ws_timerid t2 = i" "ws_container t2" "same_player t t2" using no_ptrs_eqD [OF r(5)] by (simp_all add: t1 same_player_def)
  have ls2: "listed s2 x t2" using r(4,6) unfolding timers_listed_def by blast
  have ev2: "sy_events s2 k = Some x \<Longrightarrow> k = i" for k using r(8) none(3) i by (simp split: if_splits)
  then have hb2: "ws_hb t2 = None" using ls2 f2 unfolding listed_def by blast
  have ne: "i + 1 \<noteq> i" by simp
  obtain t3 w2 where t3: "t3 = t2\<lparr>ws_hbid := i + 1\<rparr>" and w2: "w2 = w\<lparr>gm_objs := m2, gm_ecs := c2, gm_compid := gm_compid w + 1\<rparr>" by simp
  have l3: "timers_listed ((gm_objs w2)(x \<mapsto> t3)) s2"
    using timers_listed_upd [OF r(6,4), of t3] ls2 hb2 ev2 f2(1) by (simp add: w2 t3 listed_def)
  have c3: "ws_container t3" "gm_compid w2 = ws_timerid t3 \<and> ws_timer t3 = None \<or> gm_compid w2 = ws_hbid t3 \<and> gm_compid w2 \<noteq> ws_timerid t3 \<and> ws_hb t3 = None"
    using hb2 f2 ne by (simp_all add: t3 w2 i)
  have s2: "only_timers (gm_ecs w2) s2" "\<forall>i \<in> set (timer_ids s2). i < gm_compid w2" "gm_compid w2 < 0xFFFFFFFE"
    using r(2,7) room2 by (simp_all add: w2)
  obtain m c s' t' where q: "ws_register_timer junk x (gm_compid w2) (put_session x t3 (w2\<lparr>gm_compid := gm_compid w2 + 1\<rparr>)) =
      Some (w2\<lparr>gm_objs := m, gm_ecs := c, gm_compid := gm_compid w2 + 1\<rparr>)" "only_timers c s'"
    "\<forall>y. y \<noteq> x \<longrightarrow> map_option no_ptrs (m y) = map_option no_ptrs (gm_objs w2 y)" "m x = Some t'" "no_ptrs t' = no_ptrs t3"
    "timers_listed m s'" "\<forall>k < st_num (sy_data s'). told_at m s' k" "\<forall>i \<in> set (timer_ids s'). i < gm_compid w2 + 1"
    "sy_events s' = (sy_events s2)(gm_compid w2 \<mapsto> x)"
    using register_next [OF s2(1) l3 s2(2) c3(1) s2(3) c3(2), of junk] by blast
  obtain w' where w': "w' = w\<lparr>gm_objs := m, gm_ecs := c, gm_compid := gm_compid w + 2\<rparr>" by simp
  have two: "gm_compid w2 + 1 = gm_compid w + 2" by (simp add: w2)
  have last: "w2\<lparr>gm_objs := m, gm_ecs := c, gm_compid := gm_compid w2 + 1\<rparr> = w'" unfolding two by (simp add: w2 w')
  have "ws_Initilize junk x w = Some w'"
    using t(1) r(1,4) q(1) unfolding last
    by (simp add: ws_Initilize_def GetComponentID_def t1 t3 w2 i)
  moreover have "timers_ok w'" unfolding timers_ok_def using q(2,6-8) two by (intro exI [of _ s']) (simp add: w')
  moreover have "\<forall>y. y \<noteq> x \<longrightarrow> map_option no_ptrs (m y) = map_option no_ptrs (gm_objs w y)" using q(3) r(3) by (simp add: w2)
  moreover have f: "ws_timerid t' = i" "ws_hbid t' = i + 1" "ws_container t'" "same_player t t'"
    using no_ptrs_eqD [OF q(5)] f2 by (simp_all add: t3 same_player_def)
  have "sy_events s' i = Some x" "sy_events s' (i + 1) = Some x" using q(9) r(8) by (simp_all add: w2 i)
  then have "own_ptr t' i \<noteq> None" "own_ptr t' (i + 1) \<noteq> None" using told_own [OF q(6,7,4)] by blast+
  then have "ws_timer t' \<noteq> None" "ws_hb t' \<noteq> None" using f ne by (simp_all add: own_ptr_def)
  ultimately show ?thesis using q(4) f(3,4) unfolding w' by blast
qed

text \<open>Storage whose timers have moved on in time only.\<close>

lemma timers_ok_storage:
  assumes l: "timers_listed m s" and t: "\<forall>k < st_num (sy_data s). told_at m s k"
    and same: "same_storage s s'" "stable_inv (sy_data s')" "\<forall>c \<in> set (st_data (sy_data s')). timer_elem c"
      "map it_interval (st_data (sy_data s')) = map it_interval (st_data (sy_data s))"
  shows "timers_listed m s' \<and> (\<forall>k < st_num (sy_data s'). told_at m s' k)"
proof -
  have n: "st_num (sy_data s') = st_num (sy_data s)" by (rule same_storage_num [OF same(1)])
  have "it_interval (st_data (sy_data s') ! k) = it_interval (st_data (sy_data s) ! k)" if "k < st_num (sy_data s)" for k
    using same(4) that n by (metis nth_map)
  then have "\<forall>k < st_num (sy_data s'). told_at m s' k" using t same(1) n by (simp add: told_at_def same_storage_def)
  moreover have "timers_listed m s'" using l same(1-3) unfolding timers_listed_def listed_def same_storage_def by simp
  ultimately show ?thesis by blast
qed

lemma reset_timer_ok:
  assumes s: "only_timers c s" and l: "timers_listed m s" and t: "\<forall>k < st_num (sy_data s). told_at m s k"
    and p: "points s p i v" "v \<noteq> 0"
  shows "\<exists>c' s'. reset_timer p c = Some c' \<and> only_timers c' s' \<and> timers_listed m s' \<and> (\<forall>k < st_num (sy_data s'). told_at m s' k) \<and>
    same_storage s s'"
proof -
  let ?tm = "st_data (sy_data s) ! snd p"
  have q: "fst p = st_block (sy_data s)" "snd p < st_num (sy_data s)" "it_interval ?tm \<noteq> 0" using p by (auto simp: points_def)
  obtain tm where tm: "timer_Reset ?tm = Some tm" "it_interval tm = it_interval ?tm" "cm_id tm = cm_id ?tm" "timer_elem ?tm \<Longrightarrow> timer_elem tm"
  proof (cases "timer_Passed ?tm")
    case True
    then show thesis using q(3) that [of "cm_SetDirty True (?tm\<lparr>it_current := it_current ?tm smod it_interval ?tm\<rparr>)"] timer_elem_simps(3)
      by (simp add: timer_Reset_def timer_Passed_def) (simp add: cm_SetDirty_def)
  next
    case False
    then show thesis using that [of "cm_SetDirty True ?tm"] timer_elem_simps(3)
      by (simp add: timer_Reset_def timer_Passed_def) (simp add: cm_SetDirty_def)
  qed
  let ?s = "sy_write (snd p) tm s" and ?xs = "st_data (sy_data s)"
  have el: "\<forall>c \<in> set ?xs. timer_elem c" using l by (simp add: timers_listed_def)
  then have el': "\<forall>c \<in> set (st_data (sy_data ?s)). timer_elem c"
    using tm(4) q(2) set_update_subset_insert [of ?xs "snd p" tm] by fastforce
  have id: "map cm_id (?xs[snd p := tm]) = map cm_id ?xs" "map it_interval (?xs[snd p := tm]) = map it_interval ?xs"
    using tm(2,3) q(2) list_update_id [of "map cm_id ?xs" "snd p"] list_update_id [of "map it_interval ?xs" "snd p"] by (simp_all add: map_update)
  have same: "same_storage s ?s" using id(1) by (simp add: same_storage_def timer_ids_def) (simp add: sy_write_def)
  have "stable_inv (sy_data ?s)" using l stable_no_invalid [OF el] stable_no_invalid [OF el'] by (simp add: timers_listed_def)
  from timers_ok_storage [OF l t same this el'] id(2)
  have "timers_listed m ?s" "\<forall>k < st_num (sy_data ?s). told_at m ?s k" by simp_all
  moreover have "reset_timer p c = Some (timer_put p tm c)" using tm(1) q(1,2) by (simp add: reset_timer_def timer_at_alt [OF s])
  ultimately show ?thesis using timer_put_only [OF s, of p tm] same by blast
qed

lemma timer_tick_same: "cm_id (timer_tick d c) = cm_id c" "it_interval (timer_tick d c) = it_interval c" "timer_elem c \<Longrightarrow> timer_elem (timer_tick d c)"
proof -
  show "cm_id (timer_tick d c) = cm_id c" by (simp add: timer_tick_def Let_def flush_component_def)
  show "it_interval (timer_tick d c) = it_interval c" by (simp add: timer_tick_def Let_def flush_component_def) (simp add: cm_SetDirty_def)
  show "timer_elem c \<Longrightarrow> timer_elem (timer_tick d c)" using timer_elem_simps(3) by (simp add: timer_tick_def Let_def flush_component_def)
qed

lemma OnUpdate_timers:
  assumes "only_timers c s"
  shows "\<exists>c'. ct_OnUpdate d c = Some c' \<and> only_timers c' (timers_update d s)"
proof -
  obtain j where j: "timer_system c = Some (j, s)" "pl_iterate (ct_list c) = Some [j]" "is_enabled (ct_systems c j)"
    using assms unfolding only_timers_def by blast
  have "update_system d j c = put_body j (TimerSys (timers_update d s)) c"
    using timer_systemD(2) [OF j(1)] j(3) by (simp add: update_system_def put_body_def)
  then show ?thesis using j(2) only_timers_put [OF assms j(1)] by (simp add: ct_OnUpdate_def)
qed

lemma OnUpdate_ok:
  assumes "timers_ok w"
  shows "\<exists>c. ct_OnUpdate d (gm_ecs w) = Some c \<and> timers_ok (w\<lparr>gm_ecs := c\<rparr>)"
proof -
  obtain s where s: "only_timers (gm_ecs w) s" "timers_listed (gm_objs w) s" "\<forall>k < st_num (sy_data s). told_at (gm_objs w) s k"
    "\<forall>i \<in> set (timer_ids s). i < gm_compid w" using assms unfolding timers_ok_def by blast
  obtain c where c: "ct_OnUpdate d (gm_ecs w) = Some c" "only_timers c (timers_update d s)" using OnUpdate_timers [OF s(1)] by blast
  have el: "\<forall>c \<in> set (st_data (sy_data s)). timer_elem c" using s(2) by (simp add: timers_listed_def)
  then have el': "\<forall>c \<in> set (st_data (sy_data (timers_update d s))). timer_elem c" using timer_tick_same(3) by (simp add: timers_update_def)
  have same: "same_storage s (timers_update d s)"
    by (simp add: same_storage_def timer_ids_def timers_update_def timer_tick_same comp_def)
  have "stable_inv (sy_data (timers_update d s))"
    using s(2) stable_no_invalid [OF el] stable_no_invalid [OF el'] by (simp add: timers_listed_def) (simp add: timers_update_def)
  from timers_ok_storage [OF s(2,3) same this el'] have "timers_listed (gm_objs w) (timers_update d s) \<and>
      (\<forall>k < st_num (sy_data (timers_update d s)). told_at (gm_objs w) (timers_update d s) k)"
    by (simp add: timers_update_def timer_tick_same comp_def)
  moreover have "timer_ids (timers_update d s) = timer_ids s" using same by (simp add: same_storage_def)
  ultimately have "timers_ok (w\<lparr>gm_ecs := c\<rparr>)" unfolding timers_ok_def using c(2) s(4) by (intro exI [of _ "timers_update d s"]) simp
  then show ?thesis using c(1) by blast
qed

section \<open>Destroying a session\<close>

lemma drop_timer_ok:
  assumes s: "only_timers (gm_ecs w) s" and p: "points s p i v"
  shows "\<exists>c. ws_drop_timer (Some p) w = Some (w\<lparr>gm_ecs := c\<rparr>) \<and> only_timers c (s\<lparr>sy_events := (sy_events s)(i := None)\<rparr>)"
proof -
  have at: "timer_at p (gm_ecs w) = Some (st_data (sy_data s) ! snd p)" "cm_id (st_data (sy_data s) ! snd p) = i"
    using p by (simp_all add: timer_at_alt [OF s] points_def)
  obtain c where c: "ct_UnRegisterComponentChangeEvent i INTERVAL_TIMER (gm_ecs w) = Some c"
    "only_timers c (s\<lparr>sy_events := (sy_events s)(i := None)\<rparr>)" using only_timers_event(2) [OF s] by blast
  obtain j where j: "timer_system c = Some (j, s\<lparr>sy_events := (sy_events s)(i := None)\<rparr>)" "pl_iterate (ct_list c) = Some [j]"
    using c(2) unfolding only_timers_def by blast
  have "ct_UnRegisterComponent i INTERVAL_TIMER c = Some ([], c)"
    using timer_systemD [OF j(1)] j(2) by (simp add: ct_UnRegisterComponent_def)
  then have "ws_drop_timer (Some p) w = Some (w\<lparr>gm_ecs := c\<rparr>)" using at c(1) by (simp add: ws_drop_timer_def)
  then show ?thesis using c(2) by blast
qed

text \<open>The events that are left when the callbacks of a session have been unregistered.\<close>

definition dropped :: "world_session \<Rightarrow> (u32 \<rightharpoonup> nat) \<Rightarrow> (u32 \<rightharpoonup> nat)" where
  "dropped t ev k = (if ws_timer t \<noteq> None \<and> k = ws_timerid t \<or> ws_hb t \<noteq> None \<and> k = ws_hbid t then None else ev k)"

lemma drop_both:
  assumes s: "only_timers (gm_ecs w) s" and p: "\<And>p. ws_timer t = Some p \<Longrightarrow> points s p (ws_timerid t) v"
    "\<And>p. ws_hb t = Some p \<Longrightarrow> points s p (ws_hbid t) u"
    and t: "gm_objs w x = Some t" "ws_container t"
  shows "\<exists>c. ws_drop_timers x w = Some (w\<lparr>gm_ecs := c\<rparr>) \<and>
    only_timers c (s\<lparr>sy_events := dropped t (sy_events s)\<rparr>)"
proof -
  obtain e1 where e1: "e1 = (if ws_timer t = None then sy_events s else (sy_events s)(ws_timerid t := None))" by simp
  obtain c1 where c1: "ws_drop_timer (ws_timer t) w = Some (w\<lparr>gm_ecs := c1\<rparr>)" "only_timers c1 (s\<lparr>sy_events := e1\<rparr>)"
  proof (cases "ws_timer t")
    case None
    then show thesis using that [of "gm_ecs w"] s by (simp add: ws_drop_timer_def e1)
  next
    case (Some q)
    then show thesis using that drop_timer_ok [OF s p(1) [OF Some]] e1 by auto
  qed
  show ?thesis
  proof (cases "ws_hb t")
    case None
    then have "dropped t (sy_events s) = e1" by (auto simp: dropped_def e1)
    then have "ws_drop_timers x w = Some (w\<lparr>gm_ecs := c1\<rparr>)" using c1(1) None t by (simp add: ws_drop_timers_def) (simp add: ws_drop_timer_def)
    then show ?thesis using c1(2) \<open>dropped t (sy_events s) = e1\<close> by auto
  next
    case (Some q)
    have q: "points (s\<lparr>sy_events := e1\<rparr>) q (ws_hbid t) u" using p(2) [OF Some] by (simp add: points_def)
    have "only_timers (gm_ecs (w\<lparr>gm_ecs := c1\<rparr>)) (s\<lparr>sy_events := e1\<rparr>)" using c1(2) by simp
    from drop_timer_ok [OF this q] obtain c where c: "ws_drop_timer (Some q) (w\<lparr>gm_ecs := c1\<rparr>) = Some (w\<lparr>gm_ecs := c\<rparr>)"
      "only_timers c (s\<lparr>sy_events := e1(ws_hbid t := None)\<rparr>)" by auto
    have "dropped t (sy_events s) = e1(ws_hbid t := None)" using Some by (auto simp: dropped_def e1)
    moreover have "ws_drop_timers x w = Some (w\<lparr>gm_ecs := c\<rparr>)" using c1(1) c(1) Some t by (simp add: ws_drop_timers_def)
    ultimately show ?thesis using c(2) by auto
  qed
qed

lemma dropped_listed:
  assumes l: "timers_listed m s" and t: "\<forall>k < st_num (sy_data s). told_at m s k" and x: "m x = Some t"
  shows "timers_listed (m(x := None)) (s\<lparr>sy_events := dropped t (sy_events s)\<rparr>) \<and>
    (\<forall>k < st_num (sy_data s). told_at (m(x := None)) (s\<lparr>sy_events := dropped t (sy_events s)\<rparr>) k)"
proof -
  obtain e where e: "e = dropped t (sy_events s)" by simp
  obtain s' where s': "s' = s\<lparr>sy_events := e\<rparr>" by simp
  have ls: "listed s x t" using l x unfolding timers_listed_def by blast
  have sub: "e k = Some y \<Longrightarrow> sy_events s k = Some y" for k y by (simp add: e dropped_def split: if_splits)
  have keep: "e k = Some y" if "sy_events s k = Some y" "y \<noteq> x" for k y
    using that ls by (auto simp: e dropped_def listed_def)
  have gone: "e k \<noteq> Some x" for k
  proof
    assume k: "e k = Some x"
    have "k = ws_timerid t \<or> k = ws_hbid t" using l x sub [OF k] unfolding timers_listed_def by (metis option.inject)
    then show False using k told_own [OF l t x sub [OF k]] by (auto simp: own_ptr_def e dropped_def split: if_splits)
  qed
  have ids: "timer_ids s' = timer_ids s" "sy_data s' = sy_data s" "sy_events s' = e" by (simp_all add: s' timer_ids_def)
  have "timers_listed (m(x := None)) s'"
    unfolding timers_listed_def ids
  proof (intro conjI allI impI)
    show "stable_inv (sy_data s)" "\<forall>c \<in> set (st_data (sy_data s)). timer_elem c" "distinct (timer_ids s)"
      using l by (simp_all add: timers_listed_def)
    show "k \<in> set (timer_ids s)" if "e k = Some y" for k y using sub [OF that] l by (simp add: timers_listed_def)
    show "\<exists>u. (m(x := None)) y = Some u \<and> (k = ws_timerid u \<or> k = ws_hbid u)" if k: "e k = Some y" for k y
    proof -
      have "y \<noteq> x" using k gone by auto
      then show ?thesis using sub [OF k] l by (simp add: timers_listed_def)
    qed
    show "listed s' y u" if u: "(m(x := None)) y = Some u" for y u
    proof -
      have y: "y \<noteq> x" "listed s y u" using u l by (auto simp: timers_listed_def split: if_splits)
      then have "ws_timer u \<noteq> None \<longrightarrow> e (ws_timerid u) = Some y" "ws_hb u \<noteq> None \<longrightarrow> e (ws_hbid u) = Some y"
        using keep by (auto simp: listed_def)
      then show ?thesis using y(2) sub unfolding listed_def ids by blast
    qed
  qed
  moreover have "told_at (m(x := None)) s' k" if "k < st_num (sy_data s)" for k
    using t that sub unfolding told_at_def ids by (metis fun_upd_apply option.distinct(1))
  ultimately show ?thesis using s' e by blast
qed

text \<open>The session is gone, its two timers are not.\<close>

lemma drop_timers_ok:
  assumes ok: "timers_ok w" and t: "gm_objs w x = Some t"
  shows "\<exists>c. ws_drop_timers x w = Some (w\<lparr>gm_ecs := c\<rparr>) \<and>
    timers_ok (w\<lparr>gm_ecs := c, gm_objs := (gm_objs w)(x := None)\<rparr>) \<and>
    (\<exists>s s'. only_timers (gm_ecs w) s \<and> only_timers c s' \<and> sy_data s' = sy_data s)"
proof -
  obtain s where s: "only_timers (gm_ecs w) s" "timers_listed (gm_objs w) s" "\<forall>k < st_num (sy_data s). told_at (gm_objs w) s k"
    "\<forall>i \<in> set (timer_ids s). i < gm_compid w" using ok unfolding timers_ok_def by blast
  have l: "listed s x t" using s(2) t unfolding timers_listed_def by blast
  obtain s' where s': "s' = s\<lparr>sy_events := dropped t (sy_events s)\<rparr>" by simp
  obtain c where c: "ws_drop_timers x w = Some (w\<lparr>gm_ecs := c\<rparr>)"
    "only_timers c s'"
  proof (cases "ws_container t")
    case True
    then show thesis using that drop_both [OF s(1) session_points [OF s(2,3) t] t True] s' by auto
  next
    case False
    then have "dropped t (sy_events s) = sy_events s" using l by (auto simp: listed_def dropped_def)
    then show thesis using that [of "gm_ecs w"] False s(1) s' t by (simp add: ws_drop_timers_def)
  qed
  have d: "timers_listed ((gm_objs w)(x := None)) s'" "\<forall>k < st_num (sy_data s). told_at ((gm_objs w)(x := None)) s' k"
    using dropped_listed [OF s(2,3) t] s' by blast+
  have same: "timer_ids s' = timer_ids s" "sy_data s' = sy_data s" by (simp_all add: s' timer_ids_def)
  have "timers_ok (w\<lparr>gm_ecs := c, gm_objs := (gm_objs w)(x := None)\<rparr>)"
    unfolding timers_ok_def using c(2) d s(4) same by (intro exI [of _ s']) simp
  then show ?thesis using c s(1) same(2) by blast
qed

end
