(* ===== verification/World.thy ===== *)
theory World
  imports World_Session Work_Queues
begin

text \<open>
  \<^verbatim>\<open>server/World/World.h/.cpp\<close>: the sessions of the players in the game, those that wait for a free
  place, and those that the network has accepted since the last update.  A \<open>shared_ptr\<close> is the
  number of its object; when the last reference goes (\<open>wd_release\<close>), the object is destroyed there.
  \<open>held\<close> are the references of the local variables of the running operation.  The order in which an
  \<open>unordered_map\<close> is traversed may change with every insertion: it is a function of the environment.
  Logging, the empty \<open>SendAuthWaitQue\<close>, \<open>InitializeSession\<close> and \<open>MapManager::Update\<close>, and the population
  figure that \<open>AddSession_\<close> computes and drops, have no effect.  The fields that the constructor does not
  initialise are its argument.
\<close>

section \<open>State\<close>

record 'a world = "'a game" +
  wd_next :: nat
  wd_sessions :: "(u32 \<times> nat) list"
  wd_disconnects :: "(u32 \<times> int) list"
  wd_add :: "nat locked_queue"
  wd_queue :: "nat list"
  wd_limit :: u32
  wd_maxactive :: u32
  wd_maxqueued :: u32

record 'a world_env =
  we_srv :: "'a server_env"
  we_order :: "(u32 \<times> nat) list \<Rightarrow> (u32 \<times> nat) list"
  we_dorder :: "(u32 \<times> int) list \<Rightarrow> (u32 \<times> int) list"
  we_junk :: "int \<times> int"

definition wd_new :: "bool \<Rightarrow> (nat \<Rightarrow> isystem) \<Rightarrow> u32 \<Rightarrow> u32 \<Rightarrow> u32 \<Rightarrow> 'a server \<Rightarrow> u32 \<Rightarrow> int \<Rightarrow> 'a world option" where
  "wd_new dirty memory limit active queued sv compid now = do {
     (ok, c) \<leftarrow> ct_AddSystem dirty INTERVAL_TIMER 0 (ct_new memory);
     Some \<lparr>gm_server = sv, gm_objs = Map.empty, gm_ecs = c, gm_compid = compid, gm_time = now, wd_next = 0, wd_sessions = [],
       wd_disconnects = [], wd_add = lq_new, wd_queue = [], wd_limit = limit, wd_maxactive = active, wd_maxqueued = queued\<rparr>
   }"

section \<open>References\<close>

definition wd_refs :: "nat list \<Rightarrow> 'a world \<Rightarrow> nat set" where
  "wd_refs held w = set held \<union> snd ` set (wd_sessions w) \<union> set (wd_queue w) \<union> set (lq_items (wd_add w))"

definition wd_release :: "'a world_env \<Rightarrow> nat list \<Rightarrow> nat \<Rightarrow> 'a world \<Rightarrow> 'a world option" where
  "wd_release env held x w = (if x \<in> wd_refs held w then Some w else ws_destroy (we_srv env) x w)"

section \<open>Counting\<close>

definition wd_GetActiveAndQueuedSessionCount :: "'a world \<Rightarrow> u32" where
  "wd_GetActiveAndQueuedSessionCount w = of_nat (length (wd_sessions w))"

definition wd_GetActiveSessionCount :: "'a world \<Rightarrow> u32" where
  "wd_GetActiveSessionCount w = word_of_int (int (length (wd_sessions w)) - int (length (wd_queue w)))"

definition wd_GetQueuedSessionCount :: "'a world \<Rightarrow> u32" where
  "wd_GetQueuedSessionCount w = of_nat (length (wd_queue w))"

definition wd_UpdateMaxSessionCounters :: "'a world \<Rightarrow> 'a world" where
  "wd_UpdateMaxSessionCounters w = w\<lparr>wd_maxactive := max (wd_maxactive w) (wd_GetActiveSessionCount w),
     wd_maxqueued := max (wd_maxqueued w) (wd_GetQueuedSessionCount w)\<rparr>"

section \<open>Coming and going\<close>

definition wd_FindSession :: "u32 \<Rightarrow> 'a world \<Rightarrow> nat option" where
  "wd_FindSession i w = map_of (wd_sessions w) i"

definition wd_AddSession :: "nat \<Rightarrow> 'a world \<Rightarrow> 'a world option" where
  "wd_AddSession x w = map_option (\<lambda>q. w\<lparr>wd_add := q\<rparr>) (lq_add x (wd_add w))"

text \<open>The accept handler of the main loop: a new session for the socket, to be added by the next update.\<close>

definition wd_accept :: "u32 \<Rightarrow> nat \<Rightarrow> u32 \<times> u32 \<Rightarrow> 'a world \<Rightarrow> 'a world option" where
  "wd_accept i sock junk w =
     wd_AddSession (wd_next w)
       (put_session (wd_next w) (ws_new i sock (gm_time w) (fst junk) (snd junk)) (w\<lparr>wd_next := wd_next w + 1\<rparr>))"

definition wd_RemoveSession :: "'a world_env \<Rightarrow> u32 \<Rightarrow> 'a world \<Rightarrow> (bool \<times> 'a world) option" where
  "wd_RemoveSession env i w =
     (case map_of (wd_sessions w) i of
        None \<Rightarrow> Some (True, w)
      | Some x \<Rightarrow> do {
          s \<leftarrow> gm_objs w x;
          if ws_PlayerLoading s then Some (False, w) else map_option (Pair True) (ws_KickPlayer (we_srv env) x w)
        })"

definition wd_AddQueuedPlayer :: "nat \<Rightarrow> 'a world \<Rightarrow> 'a world option" where
  "wd_AddQueuedPlayer x w = do {
     s \<leftarrow> gm_objs w x;
     Some ((put_session x (ws_SetInQueue True s) w)\<lparr>wd_queue := wd_queue w @ [x]\<rparr>)
   }"

text \<open>The player leaves the queue; then the first in the queue is let in when there is a place.\<close>

definition wd_unqueue :: "nat \<Rightarrow> 'a world \<Rightarrow> 'a world option" where
  "wd_unqueue x w =
     (if x \<in> set (wd_queue w) then do {
        s \<leftarrow> gm_objs w x;
        Some ((put_session x (ws_ResetTimeOutTime (gm_time w) (ws_SetInQueue False s)) w)\<lparr>wd_queue := remove1 x (wd_queue w)\<rparr>)
      }
      else Some w)"

definition wd_admit :: "'a world_env \<Rightarrow> nat list \<Rightarrow> u32 \<Rightarrow> 'a world \<Rightarrow> 'a world option" where
  "wd_admit env held sessions w =
     (if wd_limit w = 0 \<or> sessions < wd_limit w then
        (case wd_queue w of [] \<Rightarrow> Some w | p # q \<Rightarrow> wd_release env held p (w\<lparr>wd_queue := q\<rparr>))
      else Some w)"

definition wd_RemoveQueuedPlayer :: "'a world_env \<Rightarrow> nat list \<Rightarrow> nat \<Rightarrow> 'a world \<Rightarrow> (bool \<times> 'a world) option" where
  "wd_RemoveQueuedPlayer env held x w = do {
     let sessions = wd_GetActiveSessionCount w;
     let found = x \<in> set (wd_queue w);
     w \<leftarrow> wd_unqueue x w;
     let sessions = (if \<not> found \<and> sessions \<noteq> 0 then sessions - 1 else sessions);
     w \<leftarrow> wd_admit env held sessions w;
     Some (found, w)
   }"

text \<open>The search for a recent disconnect, which erases the entries that are not recent on its way.\<close>

fun scan_disconnects :: "int \<Rightarrow> u32 \<Rightarrow> (u32 \<times> int) list \<Rightarrow> bool \<times> (u32 \<times> int) list" where
  "scan_disconnects now i [] = (False, [])"
| "scan_disconnects now i ((k, t) # m) =
     (if t - now < 1000 then
        (if k = i then (True, (k, t) # m) else let (r, m') = scan_disconnects now i m in (r, (k, t) # m'))
      else scan_disconnects now i m)"

definition wd_HasRecentlyDisconnected :: "u32 \<Rightarrow> 'a world \<Rightarrow> bool \<times> 'a world" where
  "wd_HasRecentlyDisconnected i w =
     (let (r, m) = scan_disconnects (gm_time w) i (wd_disconnects w) in (r, w\<lparr>wd_disconnects := m\<rparr>))"

fun assign_key :: "'k \<Rightarrow> 'v \<Rightarrow> ('k \<times> 'v) list \<Rightarrow> ('k \<times> 'v) list" where
  "assign_key k v [] = []"
| "assign_key k v ((k', v') # m) = (if k' = k then (k, v) # m else (k', v') # assign_key k v m)"

definition map_assign :: "(('k \<times> 'v) list \<Rightarrow> ('k \<times> 'v) list) \<Rightarrow> 'k \<Rightarrow> 'v \<Rightarrow> ('k \<times> 'v) list \<Rightarrow> ('k \<times> 'v) list" where
  "map_assign order k v m = (if map_of m k = None then order ((k, v) # m) else assign_key k v m)"

text \<open>The end of \<open>AddSession_\<close>: into the queue when the limit is reached.\<close>

definition wd_place :: "nat \<Rightarrow> u32 \<Rightarrow> 'a world \<Rightarrow> 'a world option" where
  "wd_place x i w =
     (let sessions = wd_GetActiveAndQueuedSessionCount w - 1;
          (recent, w) = (if wd_limit w > 0 \<and> sessions \<ge> wd_limit w then wd_HasRecentlyDisconnected i w else (True, w))
      in if \<not> recent then map_option wd_UpdateMaxSessionCounters (wd_AddQueuedPlayer x w)
         else Some (wd_UpdateMaxSessionCounters w))"

definition wd_kick_old :: "'a world_env \<Rightarrow> nat option \<Rightarrow> 'a world \<Rightarrow> 'a world option" where
  "wd_kick_old env old w = (case old of None \<Rightarrow> Some w | Some y \<Rightarrow> ws_KickPlayer (we_srv env) y w)"

definition wd_release_old :: "'a world_env \<Rightarrow> nat list \<Rightarrow> nat option \<Rightarrow> 'a world \<Rightarrow> 'a world option" where
  "wd_release_old env held old w = (case old of None \<Rightarrow> Some w | Some y \<Rightarrow> wd_release env held y w)"

definition wd_AddSession_impl :: "'a world_env \<Rightarrow> nat \<Rightarrow> 'a world \<Rightarrow> 'a world option" where
  "wd_AddSession_impl env x w = do {
     s \<leftarrow> gm_objs w x;
     (ok, w) \<leftarrow> wd_RemoveSession env (ws_id s) w;
     if \<not> ok then ws_KickPlayer (we_srv env) x w
     else do {
       let old = wd_FindSession (ws_id s) w;
       w \<leftarrow> wd_kick_old env old w;
       w \<leftarrow> wd_release_old env [x] old (w\<lparr>wd_sessions := map_assign (we_order env) (ws_id s) x (wd_sessions w)\<rparr>);
       w \<leftarrow> ws_Initilize (we_junk env) x w;
       wd_place x (ws_id s) w
     }
   }"

section \<open>Updating\<close>

text \<open>The variable \<open>sess\<close> of \<open>UpdateSessions\<close> keeps the last session added until the function ends.\<close>

partial_function (option) add_pending :: "'a world_env \<Rightarrow> nat option \<Rightarrow> 'a world \<Rightarrow> (nat option \<times> 'a world) option" where
  "add_pending env sess w =
     Option.bind (lq_next (wd_add w)) (\<lambda>(r, q).
       case r of
         None \<Rightarrow> Some (sess, w\<lparr>wd_add := q\<rparr>)
       | Some x \<Rightarrow>
           Option.bind (wd_release_old env [x] sess (w\<lparr>wd_add := q\<rparr>)) (\<lambda>w.
           Option.bind (wd_AddSession_impl env x w) (add_pending env (Some x))))"

definition wd_depart :: "'a world_env \<Rightarrow> nat list \<Rightarrow> u32 \<Rightarrow> nat \<Rightarrow> 'a world \<Rightarrow> 'a world option" where
  "wd_depart env held i x w = do {
     (found, w) \<leftarrow> wd_RemoveQueuedPlayer env (x # held) x w;
     s \<leftarrow> gm_objs w x;
     let w = (if \<not> found then w\<lparr>wd_disconnects := map_assign (we_dorder env) (ws_id s) (gm_time w) (wd_disconnects w)\<rparr> else w);
     (found, w) \<leftarrow> wd_RemoveQueuedPlayer env (x # held) x w;
     wd_release env held x (w\<lparr>wd_sessions := erase_key i (wd_sessions w)\<rparr>)
   }"

fun update_sessions :: "'a world_env \<Rightarrow> nat list \<Rightarrow> (u32 \<times> nat) list \<Rightarrow> 'a world \<Rightarrow> 'a world option" where
  "update_sessions env held [] w = Some w"
| "update_sessions env held ((i, x) # m) w = do {
     (ok, w) \<leftarrow> ws_Update (we_srv env) x w;
     w \<leftarrow> (if ok then Some w else wd_depart env held i x w);
     update_sessions env held m w
   }"

definition held_by :: "nat option \<Rightarrow> nat list" where
  "held_by sess = (case sess of None \<Rightarrow> [] | Some x \<Rightarrow> [x])"

definition wd_UpdateSessions :: "'a world_env \<Rightarrow> 'a world \<Rightarrow> 'a world option" where
  "wd_UpdateSessions env w = do {
     (sess, w) \<leftarrow> add_pending env None w;
     w \<leftarrow> update_sessions env (held_by sess) (wd_sessions w) w;
     wd_release_old env [] sess w
   }"

definition wd_Update :: "'a world_env \<Rightarrow> u32 \<Rightarrow> 'a world \<Rightarrow> 'a world option" where
  "wd_Update env diff w = do {
     w \<leftarrow> wd_UpdateSessions env w;
     c \<leftarrow> ct_OnUpdate (sint diff) (gm_ecs w);
     Some (w\<lparr>gm_ecs := c\<rparr>)
   }"

section \<open>Shutting down\<close>

fun kick_all :: "'a world_env \<Rightarrow> (u32 \<times> nat) list \<Rightarrow> 'a world \<Rightarrow> 'a world option" where
  "kick_all env [] w = Some w"
| "kick_all env ((i, x) # m) w = Option.bind (ws_KickPlayer (we_srv env) x w) (kick_all env m)"

fun drop_queue :: "'a world_env \<Rightarrow> nat list \<Rightarrow> 'a world \<Rightarrow> 'a world option" where
  "drop_queue env [] w = Some w"
| "drop_queue env (x # q) w = Option.bind (wd_release env [] x (w\<lparr>wd_queue := q\<rparr>)) (drop_queue env q)"

fun drop_sessions :: "'a world_env \<Rightarrow> (u32 \<times> nat) list \<Rightarrow> 'a world \<Rightarrow> 'a world option" where
  "drop_sessions env [] w = Some w"
| "drop_sessions env ((i, x) # m) w = Option.bind (wd_release env [] x (w\<lparr>wd_sessions := m\<rparr>)) (drop_sessions env m)"

definition wd_OnServerShutDown :: "'a world_env \<Rightarrow> 'a world \<Rightarrow> 'a world option" where
  "wd_OnServerShutDown env w = do {
     w \<leftarrow> kick_all env (wd_sessions w) w;
     let w = w\<lparr>wd_disconnects := []\<rparr>;
     w \<leftarrow> drop_queue env (wd_queue w) w;
     drop_sessions env (wd_sessions w) w
   }"

end
