(* ===== verification/World_Inv.thy ===== *)
theory World_Inv
  imports World Session_Timers
begin

text \<open>
  The invariant of the world and that its operations keep it: every reference reaches a live
  session and every live session is referenced, every timer pointer is right, and a socket that is
  alive is one of the server's.  So no operation reaches freed memory or blocks.
\<close>

section \<open>Closing a socket\<close>

lemma Send_objs: "sv_Send env d addr sv = Some (rc, sv') \<Longrightarrow> sv_objs sv' = sv_objs sv \<and> sv_sessions sv' = sv_sessions sv"
  by (auto simp: sv_Send_def split: if_splits option.splits bool.splits)

lemma send_all_objs: "sv_send_all env ds addr sv = Some sv' \<Longrightarrow> sv_objs sv' = sv_objs sv \<and> sv_sessions sv' = sv_sessions sv"
proof (induction ds arbitrary: sv)
  case (Cons d ds)
  then obtain rc sv1 where s1: "sv_Send env d addr sv = Some (rc, sv1)" "sv_send_all env ds addr sv1 = Some sv'"
    by (auto simp: bind_eq_Some_conv)
  then show ?case using Cons.IH [OF s1(2)] Send_objs [OF s1(1)] by simp
qed simp

lemma on_session_frame:
  assumes "on_session env i f sv = Some sv'"
  shows "j \<noteq> i \<Longrightarrow> sv_objs sv' j = sv_objs sv j" and "sv_sessions sv' = sv_sessions sv"
proof -
  obtain s ds where "sv_send_all env ds (sid_addr (ks_id s)) (sv\<lparr>sv_objs := (sv_objs sv)(i := s)\<rparr>) = Some sv'"
    using assms by (auto simp: on_session_def bind_eq_Some_conv)
  from send_all_objs [OF this] show "j \<noteq> i \<Longrightarrow> sv_objs sv' j = sv_objs sv j" "sv_sessions sv' = sv_sessions sv" by simp_all
qed

lemma close_frame:
  assumes "sv_CloseSession env conv rm sv = Some (r, sv')" "(conv, j) \<notin> set (sv_sessions sv)"
  shows "sv_objs sv' j = sv_objs sv j"
proof (cases "map_of (sv_sessions sv) conv")
  case None
  then show ?thesis using assms(1) by (auto simp: CloseSession_alt split: if_splits)
next
  case (Some i)
  then have "j \<noteq> i" using assms(2) map_of_SomeD by fastforce
  then show ?thesis using assms(1) Some on_session_frame(1) by (fastforce simp: CloseSession_alt split: if_splits)
qed

text \<open>Closing twice is closing once: what the destructor of the socket does after that of the session.\<close>

lemma erase_key_other: "k \<notin> fst ` set m \<Longrightarrow> erase_key k m = m"
  by (induction k m rule: erase_key.induct) auto

lemma erase_key_gone: "distinct (map fst m) \<Longrightarrow> k \<notin> fst ` set (erase_key k m)"
  using set_erase_key [of m k] by auto

lemma close_twice:
  assumes "senv_ok env" "server_ok b sv" "b < 2 ^ 31" "ks_Close env i sv = Some sv'"
  shows "ks_Close env i sv' = Some sv'"
proof (cases "ks_status (sv_objs sv i) = status_code Disconnected")
  case False
  let ?c = "ks_conv (sv_objs sv i)"
  have h: "sv_inv b sv" "\<not> sv_slock sv" using assms(2) by (simp_all add: server_ok_def)
  obtain r where r: "sv_CloseSession env ?c False sv = Some (r, sv')" using assms(4) False by (auto simp: ks_Close_def)
  from CloseSession_ok [OF assms(1) h assms(3), of ?c False] r have
    c: "\<not> sv_slock sv'" "sv_sessions sv' = erase_key ?c (sv_sessions sv)" "\<forall>j. ks_id (sv_objs sv' j) = ks_id (sv_objs sv j)" by auto
  have "map_of (sv_sessions sv') ?c = None"
    using erase_key_gone [OF map_sorted_distinct [OF sv_invD(2) [OF h(1)]]] by (simp add: c(2) map_of_eq_None_iff)
  moreover have "ks_conv (sv_objs sv' i) = ?c" using c(3) by (simp add: ks_conv_def)
  ultimately show ?thesis using c(1) by (simp add: ks_Close_def sv_CloseSession_def)
qed (use assms in \<open>simp add: ks_Close_def\<close>)

section \<open>The game of one session\<close>

text \<open>A socket that is alive is one of the server's sessions.\<close>

definition online :: "(nat \<rightharpoonup> world_session) \<Rightarrow> 'a server \<Rightarrow> bool" where
  "online m sv \<longleftrightarrow> (\<forall>x s. m x = Some s \<longrightarrow> ks_alive (sv_objs sv (ws_sock s)) \<longrightarrow>
     (ks_conv (sv_objs sv (ws_sock s)), ws_sock s) \<in> set (sv_sessions sv))"

definition game_ok :: "nat \<Rightarrow> ('a, 'z) game_scheme \<Rightarrow> bool" where
  "game_ok b w \<longleftrightarrow> timers_ok w \<and> server_ok b (gm_server w) \<and> online (gm_objs w) (gm_server w)"

lemma Close_ok:
  assumes "senv_ok env" "server_ok b sv" "b < 2 ^ 31"
  shows "\<exists>sv'. ks_Close env i sv = Some sv' \<and> server_ok b sv' \<and> (online m sv \<longrightarrow> online m sv')"
proof (cases "ks_status (sv_objs sv i) = status_code Disconnected")
  case False
  let ?c = "ks_conv (sv_objs sv i)"
  obtain r sv' where r: "sv_CloseSession env ?c False sv = Some (r, sv')" "server_ok b sv'"
    "sv_sessions sv' = erase_key ?c (sv_sessions sv)" "\<forall>i. (?c, i) \<in> set (sv_sessions sv) \<longrightarrow> \<not> ks_alive (sv_objs sv' i)"
    using CloseSession_server_ok [OF assms, of ?c False] by blast
  have h: "sv_inv b sv" using assms(2) by (simp add: server_ok_def)
  have "online m sv'" if o: "online m sv"
    unfolding online_def
  proof (intro allI impI)
    fix x s assume x: "m x = Some s" "ks_alive (sv_objs sv' (ws_sock s))"
    let ?j = "ws_sock s"
    have n: "(?c, ?j) \<notin> set (sv_sessions sv)" using r(4) x(2) by blast
    then have e: "sv_objs sv' ?j = sv_objs sv ?j" using close_frame [OF r(1)] by simp
    then have "(ks_conv (sv_objs sv ?j), ?j) \<in> set (sv_sessions sv)" using o x by (simp add: online_def)
    moreover from this have "ks_conv (sv_objs sv ?j) \<noteq> ?c" using n by metis
    ultimately show "(ks_conv (sv_objs sv' ?j), ?j) \<in> set (sv_sessions sv')"
      unfolding e r(3) set_erase_key [OF map_sorted_distinct [OF sv_invD(2) [OF h]]] by simp
  qed
  moreover have "ks_Close env i sv = Some sv'" using r(1) False by (simp add: ks_Close_def)
  ultimately show ?thesis using r(2) by blast
qed (use assms in \<open>simp add: ks_Close_def\<close>)

lemma KickPlayer_ok:
  assumes "senv_ok env" "game_ok b w" "b < 2 ^ 31" "gm_objs w x = Some s"
  shows "\<exists>sv. ws_KickPlayer env x w = Some (w\<lparr>gm_server := sv\<rparr>) \<and> game_ok b (w\<lparr>gm_server := sv\<rparr>)"
proof -
  have g: "timers_ok w" "server_ok b (gm_server w)" "online (gm_objs w) (gm_server w)" using assms(2) by (simp_all add: game_ok_def)
  obtain sv where "ks_Close env (ws_sock s) (gm_server w) = Some sv" "server_ok b sv" "online (gm_objs w) sv"
    using Close_ok [OF assms(1) g(2) assms(3), of "ws_sock s" "gm_objs w"] g(3) by blast
  moreover from this have "game_ok b (w\<lparr>gm_server := sv\<rparr>)" using g(1) by (simp add: game_ok_def timers_ok_def)
  moreover from calculation(1) have "ws_KickPlayer env x w = Some (w\<lparr>gm_server := sv\<rparr>)" using assms(4) by (simp add: ws_KickPlayer_def)
  ultimately show ?thesis by blast
qed

lemma online_remove: "online m sv \<Longrightarrow> online (m(x := None)) sv"
  by (simp add: online_def)

lemma destroy_ok:
  assumes "senv_ok env" "game_ok b w" "b < 2 ^ 31" "gm_objs w x = Some s"
  shows "\<exists>sv c. ws_destroy env x w = Some (w\<lparr>gm_server := sv, gm_ecs := c, gm_objs := (gm_objs w)(x := None)\<rparr>) \<and>
    game_ok b (w\<lparr>gm_server := sv, gm_ecs := c, gm_objs := (gm_objs w)(x := None)\<rparr>)"
proof -
  obtain sv where k: "ws_KickPlayer env x w = Some (w\<lparr>gm_server := sv\<rparr>)" "game_ok b (w\<lparr>gm_server := sv\<rparr>)"
    using KickPlayer_ok [OF assms] by blast
  let ?w = "w\<lparr>gm_server := sv\<rparr>"
  have t: "timers_ok ?w" "gm_objs ?w x = Some s" using k(2) assms(4) by (simp_all add: game_ok_def)
  obtain c where c: "ws_drop_timers x ?w = Some (?w\<lparr>gm_ecs := c\<rparr>)"
    "timers_ok (?w\<lparr>gm_ecs := c, gm_objs := (gm_objs ?w)(x := None)\<rparr>)"
    using drop_timers_ok [OF t] by blast
  have "ws_destroy env x w = Some (w\<lparr>gm_server := sv, gm_ecs := c, gm_objs := (gm_objs w)(x := None)\<rparr>)"
    using k(1) c(1) assms(4) by (simp add: ws_destroy_def)
  moreover have "game_ok b (w\<lparr>gm_server := sv, gm_ecs := c, gm_objs := (gm_objs w)(x := None)\<rparr>)"
    using k(2) c(2) online_remove [of "gm_objs w" sv x] by (simp add: game_ok_def)
  ultimately show ?thesis by blast
qed

text \<open>An update of one session.  It sends one packet at most.\<close>

lemma timers_ok_move:
  assumes "only_timers c s" "timers_listed (gm_objs w) s" "\<forall>k < st_num (sy_data s). told_at (gm_objs w) s k"
    "\<forall>i \<in> set (timer_ids s). i < gm_compid w"
  shows "timers_ok (w\<lparr>gm_ecs := c\<rparr>)"
  unfolding timers_ok_def using assms by (intro exI [of _ s]) simp

lemma timer_points:
  assumes "timers_ok w" "gm_objs w x = Some t" "ws_timer t = Some p \<and> v = WORLD_SESSION_UPDATE_INTERVAL \<or> ws_hb t = Some p \<and> v = HEART_BEAT_INTERVAL"
  shows "\<exists>tm c. timer_at p (gm_ecs w) = Some tm \<and> it_interval tm = v \<and> reset_timer p (gm_ecs w) = Some c \<and> timers_ok (w\<lparr>gm_ecs := c\<rparr>)"
proof -
  obtain s where s: "only_timers (gm_ecs w) s" "timers_listed (gm_objs w) s" "\<forall>k < st_num (sy_data s). told_at (gm_objs w) s k"
    "\<forall>i \<in> set (timer_ids s). i < gm_compid w" using assms(1) unfolding timers_ok_def by blast
  obtain i where p: "points s p i v" using assms(3) session_points [OF s(2,3) assms(2)] by blast
  have "v \<noteq> 0" using assms(3) by (auto simp: WORLD_SESSION_UPDATE_INTERVAL_def HEART_BEAT_INTERVAL_def)
  from reset_timer_ok [OF s(1-3) p this] obtain c s' where c: "reset_timer p (gm_ecs w) = Some c" "only_timers c s'"
    "timers_listed (gm_objs w) s'" "\<forall>k < st_num (sy_data s'). told_at (gm_objs w) s' k" "same_storage s s'" by blast
  have "timers_ok (w\<lparr>gm_ecs := c\<rparr>)" using c(2-5) s(4) by (intro timers_ok_move [of c s']) (simp_all add: same_storage_def)
  then show ?thesis using c(1) p by (auto simp: timer_at_alt [OF s(1)] points_def)
qed

lemma SendHeartBeat_ok:
  assumes "senv_ok env" "server_ok b sv" "b < 2 ^ 31" "online m sv" "m x = Some s" "ks_alive (sv_objs sv (ws_sock s))"
  shows "\<exists>sv'. on_session env (ws_sock s) (ks_SendHeartBeat (se_net env)) sv = Some sv' \<and> server_ok (b + 127) sv' \<and> online m sv'"
proof -
  let ?i = "ws_sock s" and ?p = "header_packet (se_net env) 0 S2C_HEARTBEAT"
  have mem: "(ks_conv (sv_objs sv ?i), ?i) \<in> set (sv_sessions sv)" using assms(4-6) by (simp add: online_def)
  have inv: "sv_inv b sv" using assms(2) by (simp add: server_ok_def)
  have e: "session_ok (sv_objs sv ?i)" "backlog (sv_objs sv ?i) \<le> b" using sv_invD(4,5) [OF inv mem] by (simp_all add: entry_ok_def)
  have "length ?p < 2 ^ 31" by simp
  from send_packet_ok [OF assms(1,2) e assms(3) this, of False] obtain sv' where
    r: "on_session env ?i (ks_Send (se_net env) ?p False) sv = Some sv'" "server_ok (b + 127) sv'"
      "same_session (sv_objs sv ?i) (sv_objs sv' ?i)" "sv_sessions sv' = sv_sessions sv" by blast
  have same: "ks_id (sv_objs sv' j) = ks_id (sv_objs sv j) \<and> ks_alive (sv_objs sv' j) = ks_alive (sv_objs sv j)" for j
    using r(3) on_session_frame(1) [OF r(1), of j] by (cases "j = ?i") (simp_all add: same_session_def)
  have "online m sv'" using assms(4) same r(4) by (simp add: online_def ks_conv_def)
  moreover have "on_session env ?i (ks_SendHeartBeat (se_net env)) sv = Some sv'"
    using r(1) by (simp add: on_session_def ks_SendHeartBeat_def)
  ultimately show ?thesis using r(2) by blast
qed

lemma beat_ok:
  assumes "senv_ok env" "game_ok b w" "b < 2 ^ 31" "gm_objs w x = Some s" "ks_alive (sv_objs (gm_server w) (ws_sock s))"
  shows "\<exists>sv c. ws_beat env s w = Some (w\<lparr>gm_server := sv, gm_ecs := c\<rparr>) \<and> game_ok (b + 127) (w\<lparr>gm_server := sv, gm_ecs := c\<rparr>)"
proof -
  have g: "timers_ok w" "server_ok b (gm_server w)" "online (gm_objs w) (gm_server w)" using assms(2) by (simp_all add: game_ok_def)
  have mono: "game_ok (b + 127) w" using g server_ok_mono [of b "gm_server w" "b + 127"] by (simp add: game_ok_def)
  have idle: "\<exists>sv c. Some w = Some (w\<lparr>gm_server := sv, gm_ecs := c\<rparr>) \<and> game_ok (b + 127) (w\<lparr>gm_server := sv, gm_ecs := c\<rparr>)"
    using mono by (intro exI [of _ "gm_server w"] exI [of _ "gm_ecs w"]) simp
  show ?thesis
  proof (cases "ws_hb s")
    case None
    then show ?thesis using idle by (simp add: ws_beat_def)
  next
    case (Some p)
    then obtain tm c where p: "timer_at p (gm_ecs w) = Some tm" "reset_timer p (gm_ecs w) = Some c" "timers_ok (w\<lparr>gm_ecs := c\<rparr>)"
      using timer_points [OF g(1) assms(4), of p HEART_BEAT_INTERVAL] by blast
    show ?thesis
    proof (cases "timer_Passed tm")
      case False
      then show ?thesis using Some p(1) idle by (simp add: ws_beat_def)
    next
      case True
      obtain sv where sv: "on_session env (ws_sock s) (ks_SendHeartBeat (se_net env)) (gm_server w) = Some sv" "server_ok (b + 127) sv"
        "online (gm_objs w) sv" using SendHeartBeat_ok [OF assms(1) g(2) assms(3) g(3) assms(4,5)] by blast
      have "ws_beat env s w = Some (w\<lparr>gm_server := sv, gm_ecs := c\<rparr>)" using Some p(1,2) sv(1) True by (simp add: ws_beat_def)
      moreover have "game_ok (b + 127) (w\<lparr>gm_server := sv, gm_ecs := c\<rparr>)" using sv(2,3) p(3) by (simp add: game_ok_def timers_ok_def)
      ultimately show ?thesis by blast
    qed
  qed
qed

lemma ws_Update_ok:
  assumes "senv_ok env" "game_ok b w" "b < 2 ^ 31" "gm_objs w x = Some s"
  shows "\<exists>sv c. ws_Update env x w = Some (\<not> ws_IsConnectionIdle (gm_time w) s \<and> ks_IsAlive (sv_objs (gm_server w) (ws_sock s)),
      w\<lparr>gm_server := sv, gm_ecs := c\<rparr>) \<and> game_ok (b + 127) (w\<lparr>gm_server := sv, gm_ecs := c\<rparr>)"
proof (cases "ws_IsConnectionIdle (gm_time w) s \<or> \<not> ks_IsAlive (sv_objs (gm_server w) (ws_sock s))")
  case True
  obtain sv where k: "ws_KickPlayer env x w = Some (w\<lparr>gm_server := sv\<rparr>)" "game_ok b (w\<lparr>gm_server := sv\<rparr>)"
    using KickPlayer_ok [OF assms] by blast
  have "game_ok (b + 127) (w\<lparr>gm_server := sv, gm_ecs := gm_ecs w\<rparr>)"
    using k(2) server_ok_mono [of b sv "b + 127"] by (simp add: game_ok_def timers_ok_def)
  moreover have "ws_Update env x w = Some (False, w\<lparr>gm_server := sv, gm_ecs := gm_ecs w\<rparr>)"
    using True k(1) assms(4) by (simp add: ws_Update_def)
  moreover have no: "(\<not> ws_IsConnectionIdle (gm_time w) s \<and> ks_IsAlive (sv_objs (gm_server w) (ws_sock s))) = False" using True by blast
  ultimately show ?thesis unfolding no by blast
next
  case False
  then have go: "\<not> ws_IsConnectionIdle (gm_time w) s" "ks_alive (sv_objs (gm_server w) (ws_sock s))" by (simp_all add: ks_IsAlive_def)
  have upd: "ws_Update env x w = (case ws_timer s of None \<Rightarrow> map_option (Pair True) (ws_beat env s w)
     | Some p \<Rightarrow> do {
         t \<leftarrow> timer_at p (gm_ecs w);
         if \<not> timer_Passed t then Some (True, w)
         else do { c \<leftarrow> reset_timer p (gm_ecs w); map_option (Pair True) (ws_beat env s (w\<lparr>gm_ecs := c\<rparr>)) } })"
    using go assms(4) by (simp add: ws_Update_def ks_IsAlive_def)
  have "\<exists>sv c. ws_Update env x w = Some (True, w\<lparr>gm_server := sv, gm_ecs := c\<rparr>) \<and> game_ok (b + 127) (w\<lparr>gm_server := sv, gm_ecs := c\<rparr>)"
  proof (cases "ws_timer s")
    case None
    then show ?thesis using beat_ok [OF assms go(2)] by (auto simp: upd)
  next
    case (Some p)
    have g: "timers_ok w" "server_ok b (gm_server w)" "online (gm_objs w) (gm_server w)" using assms(2) by (simp_all add: game_ok_def)
    obtain tm c where p: "timer_at p (gm_ecs w) = Some tm" "reset_timer p (gm_ecs w) = Some c" "timers_ok (w\<lparr>gm_ecs := c\<rparr>)"
      using timer_points [OF g(1) assms(4), of p WORLD_SESSION_UPDATE_INTERVAL] Some by blast
    show ?thesis
    proof (cases "timer_Passed tm")
      case False
      then have "ws_Update env x w = Some (True, w\<lparr>gm_server := gm_server w, gm_ecs := gm_ecs w\<rparr>)" using Some p(1) by (simp add: upd)
      moreover have "game_ok (b + 127) w" using g server_ok_mono [of b "gm_server w" "b + 127"] by (simp add: game_ok_def)
      then have "game_ok (b + 127) (w\<lparr>gm_server := gm_server w, gm_ecs := gm_ecs w\<rparr>)" by simp
      ultimately show ?thesis by blast
    next
      case True
      let ?w = "w\<lparr>gm_ecs := c\<rparr>"
      have "game_ok b ?w" "gm_objs ?w x = Some s" "ks_alive (sv_objs (gm_server ?w) (ws_sock s))"
        using p(3) g(2,3) assms(4) go(2) by (simp_all add: game_ok_def)
      from beat_ok [OF assms(1) this(1) assms(3) this(2,3)] obtain sv c' where
        r: "ws_beat env s ?w = Some (?w\<lparr>gm_server := sv, gm_ecs := c'\<rparr>)" "game_ok (b + 127) (?w\<lparr>gm_server := sv, gm_ecs := c'\<rparr>)" by blast
      have "?w\<lparr>gm_server := sv, gm_ecs := c'\<rparr> = w\<lparr>gm_server := sv, gm_ecs := c'\<rparr>" by simp
      then show ?thesis using r Some p(1,2) True by (auto simp: upd)
    qed
  qed
  then show ?thesis using False by simp
qed

section \<open>The world\<close>

text \<open>What holds at every moment, and that exactly the objects with a reference are alive.\<close>

definition world_rest :: "nat \<Rightarrow> 'a world \<Rightarrow> bool" where
  "world_rest b w \<longleftrightarrow> game_ok b w \<and> (\<forall>x \<in> dom (gm_objs w). x < wd_next w) \<and> \<not> lq_held (wd_add w) \<and>
     distinct (map fst (wd_sessions w)) \<and> (\<forall>(i, x) \<in> set (wd_sessions w). \<exists>s. gm_objs w x = Some s \<and> ws_id s = i) \<and>
     distinct (lq_items (wd_add w)) \<and> (\<forall>x \<in> set (lq_items (wd_add w)). \<exists>s. gm_objs w x = Some s \<and> \<not> ws_container s)"

definition world_inv :: "nat \<Rightarrow> nat list \<Rightarrow> 'a world \<Rightarrow> bool" where
  "world_inv b held w \<longleftrightarrow> world_rest b w \<and> dom (gm_objs w) = wd_refs held w"

text \<open>What stays when only sockets, timers and the heap of sessions change; the clock and the limit always stay.\<close>

definition same_tables :: "'a world \<Rightarrow> 'a world \<Rightarrow> bool" where
  "same_tables w w' \<longleftrightarrow> wd_sessions w' = wd_sessions w \<and> wd_queue w' = wd_queue w \<and> wd_add w' = wd_add w \<and>
     wd_disconnects w' = wd_disconnects w \<and> wd_limit w' = wd_limit w \<and> wd_next w' = wd_next w \<and> gm_time w' = gm_time w \<and>
     gm_compid w' = gm_compid w"

lemma same_tables_refl [simp]: "same_tables w w"
  by (simp add: same_tables_def)

lemma same_tables_trans: "same_tables a b \<Longrightarrow> same_tables b c \<Longrightarrow> same_tables a c"
  by (simp add: same_tables_def)

lemma refs_same: "same_tables w w' \<Longrightarrow> wd_refs held w' = wd_refs held w"
  by (simp add: wd_refs_def same_tables_def)

lemma world_rest_same:
  assumes "world_rest b w" "game_ok b' w'" "same_tables w w'" "gm_objs w' = gm_objs w"
  shows "world_rest b' w'"
  using assms by (simp add: world_rest_def same_tables_def)

lemma world_inv_held: "x \<in> wd_refs held w \<Longrightarrow> world_inv b (x # held) w \<longleftrightarrow> world_inv b held w"
  by (auto simp: world_inv_def wd_refs_def)

lemma game_ok_mono: "game_ok b w \<Longrightarrow> b \<le> b' \<Longrightarrow> game_ok b' w"
  using server_ok_mono by (auto simp: game_ok_def)

lemma world_rest_mono: "world_rest b w \<Longrightarrow> b \<le> b' \<Longrightarrow> world_rest b' w"
  using game_ok_mono by (auto simp: world_rest_def)

lemma world_inv_mono: "world_inv b held w \<Longrightarrow> b \<le> b' \<Longrightarrow> world_inv b' held w"
  using world_rest_mono by (auto simp: world_inv_def)

text \<open>Dropping a reference.\<close>

lemma release_ok:
  assumes env: "senv_ok (we_srv env)" and w: "world_rest b w" "b < 2 ^ 31" and x: "dom (gm_objs w) = insert x (wd_refs held w)"
  shows "\<exists>w'. wd_release env held x w = Some w' \<and> world_inv b held w' \<and> same_tables w w' \<and>
    (\<forall>y \<in> wd_refs held w. gm_objs w' y = gm_objs w y) \<and> wd_maxactive w' = wd_maxactive w \<and> wd_maxqueued w' = wd_maxqueued w"
proof (cases "x \<in> wd_refs held w")
  case True
  then have "world_inv b held w" using w(1) x by (simp add: world_inv_def insert_absorb)
  then show ?thesis using True by (simp add: wd_release_def)
next
  case False
  obtain s where s: "gm_objs w x = Some s" using x by auto
  have g: "game_ok b w" using w(1) by (simp add: world_rest_def)
  obtain sv c where d: "ws_destroy (we_srv env) x w = Some (w\<lparr>gm_server := sv, gm_ecs := c, gm_objs := (gm_objs w)(x := None)\<rparr>)"
    "game_ok b (w\<lparr>gm_server := sv, gm_ecs := c, gm_objs := (gm_objs w)(x := None)\<rparr>)"
    using destroy_ok [OF env g w(2) s] by blast
  obtain w' where w': "w' = w\<lparr>gm_server := sv, gm_ecs := c, gm_objs := (gm_objs w)(x := None)\<rparr>" by simp
  have same: "same_tables w w'" by (simp add: w' same_tables_def)
  have sel: "gm_objs w' = (gm_objs w)(x := None)" "wd_sessions w' = wd_sessions w" "wd_add w' = wd_add w" "wd_next w' = wd_next w"
    by (simp_all add: w')
  have "game_ok b w'" using d(2) by (simp add: w')
  moreover have "\<forall>(i, y) \<in> set (wd_sessions w). \<exists>s. gm_objs w' y = Some s \<and> ws_id s = i"
    "\<forall>y \<in> set (lq_items (wd_add w)). \<exists>s. gm_objs w' y = Some s \<and> \<not> ws_container s"
    using w(1) False unfolding world_rest_def wd_refs_def sel(1) by force+
  ultimately have "world_rest b w'" using w(1) unfolding world_rest_def sel(2-4) by (simp add: sel(1))
  moreover have "dom (gm_objs w') = wd_refs held w'" using x False refs_same [OF same, of held] by (auto simp: w')
  moreover have "wd_release env held x w = Some w'" using False d(1) by (simp add: wd_release_def w')
  moreover have "\<forall>y \<in> wd_refs held w. gm_objs w' y = gm_objs w y" using False by (auto simp: w')
  moreover have "wd_maxactive w' = wd_maxactive w" "wd_maxqueued w' = wd_maxqueued w" by (simp_all add: w')
  ultimately show ?thesis using same unfolding world_inv_def by blast
qed

text \<open>Changing a session in what does not concern timers and sockets.\<close>

lemma put_session_sel [simp]:
  "gm_objs (put_session x s w) = (gm_objs w)(x \<mapsto> s)" "gm_server (put_session x s w) = gm_server w" "gm_time (put_session x s w) = gm_time w"
  "gm_compid (put_session x s w) = gm_compid w" "gm_ecs (put_session x s w) = gm_ecs w"
  by (simp_all add: put_session_def)

lemma put_session_tables: "same_tables w (put_session x s (w :: 'a world))"
  by (simp add: put_session_def same_tables_def)

lemma put_session_rest:
  assumes "world_rest b w" "gm_objs w x = Some s" "same_timers s s'" "ws_sock s' = ws_sock s" "ws_id s' = ws_id s"
  shows "world_rest b (put_session x s' w)"
proof -
  have g: "game_ok b w" using assms(1) by (simp add: world_rest_def)
  have "online ((gm_objs w)(x \<mapsto> s')) (gm_server w)" using g assms(2,4) by (auto simp: game_ok_def online_def)
  then have "game_ok b (put_session x s' w)" using g timers_ok_upd [OF _ assms(2,3)] by (simp add: game_ok_def)
  moreover have "wd_sessions (put_session x s' w) = wd_sessions w" "wd_add (put_session x s' w) = wd_add w" "wd_next (put_session x s' w) = wd_next w"
    by (simp_all add: put_session_def)
  moreover have "ws_container s' = ws_container s" using assms(3) by (simp add: same_timers_def)
  ultimately show ?thesis using assms(1,2,5) unfolding world_rest_def by auto
qed

section \<open>Leaving\<close>

definition same_but_queue :: "'a world \<Rightarrow> 'a world \<Rightarrow> bool" where
  "same_but_queue w w' \<longleftrightarrow> same_tables w (w'\<lparr>wd_queue := wd_queue w\<rparr>)"

lemma same_but_queueD:
  assumes "same_but_queue w w'"
  shows "wd_sessions w' = wd_sessions w" "wd_add w' = wd_add w" "wd_disconnects w' = wd_disconnects w" "wd_limit w' = wd_limit w"
    "wd_next w' = wd_next w" "gm_time w' = gm_time w" "gm_compid w' = gm_compid w"
  using assms by (simp_all add: same_but_queue_def same_tables_def)

lemma same_but_queue_trans: "same_but_queue a b \<Longrightarrow> same_but_queue b c \<Longrightarrow> same_but_queue a c"
  by (simp add: same_but_queue_def same_tables_def)

lemma world_rest_queue: "world_rest b (w\<lparr>wd_queue := q\<rparr>) = world_rest b w"
  by (simp add: world_rest_def game_ok_def timers_ok_def)

text \<open>Whether a place is free, and the queue after a departure.\<close>

definition place_free :: "nat \<Rightarrow> 'a world \<Rightarrow> bool" where
  "place_free x w \<longleftrightarrow> (let n = wd_GetActiveSessionCount w; n = (if x \<notin> set (wd_queue w) \<and> n \<noteq> 0 then n - 1 else n)
     in wd_limit w = 0 \<or> n < wd_limit w)"

definition queue_after :: "nat \<Rightarrow> 'a world \<Rightarrow> nat list" where
  "queue_after x w = (let q = remove1 x (wd_queue w) in if place_free x w then tl q else q)"

definition unqueued :: "int \<Rightarrow> bool \<Rightarrow> world_session \<Rightarrow> world_session" where
  "unqueued now found s = (if found then ws_ResetTimeOutTime now (ws_SetInQueue False s) else s)"

lemma unqueued_same: "same_timers s (unqueued now f s)" "ws_sock (unqueued now f s) = ws_sock s" "ws_id (unqueued now f s) = ws_id s"
  by (simp_all add: unqueued_def same_timers_def ws_ResetTimeOutTime_def ws_SetInQueue_def)

lemma RemoveQueued_ok:
  assumes env: "senv_ok (we_srv env)" and inv: "world_inv b held w" "b < 2 ^ 31" and x: "x \<in> set held" "gm_objs w x = Some s"
  shows "\<exists>w'. wd_RemoveQueuedPlayer env held x w = Some (x \<in> set (wd_queue w), w') \<and> world_inv b held w' \<and> same_but_queue w w' \<and>
    wd_queue w' = queue_after x w \<and> gm_objs w' x = Some (unqueued (gm_time w) (x \<in> set (wd_queue w)) s) \<and>
    (\<forall>y \<in> dom (gm_objs w'). y \<noteq> x \<longrightarrow> gm_objs w' y = gm_objs w y)"
proof -
  let ?f = "x \<in> set (wd_queue w)"
  obtain w1 where w1: "w1 = (if ?f then (put_session x (unqueued (gm_time w) True s) w)\<lparr>wd_queue := remove1 x (wd_queue w)\<rparr> else w)" by simp
  have u: "wd_unqueue x w = Some w1" using x(2) by (simp add: wd_unqueue_def w1 unqueued_def)
  have r: "world_rest b w" and d: "dom (gm_objs w) = wd_refs held w" using inv(1) by (simp_all add: world_inv_def)
  have r1: "world_rest b w1" using r put_session_rest [OF r x(2), of "unqueued (gm_time w) True s"] unqueued_same
    by (simp add: w1 world_rest_queue)
  have q1: "wd_queue w1 = remove1 x (wd_queue w)" by (simp add: w1 put_session_def remove1_idem)
  have sb1: "same_but_queue w w1" by (simp add: w1 same_but_queue_def same_tables_def put_session_def)
  have o1: "gm_objs w1 = (gm_objs w)(x \<mapsto> unqueued (gm_time w) ?f s)" using x(2) by (auto simp: w1 unqueued_def)
  have "set (wd_queue w) \<subseteq> insert x (set (remove1 x (wd_queue w)))" using set_remove1_subset in_set_remove1 by fastforce
  then have "wd_refs held w1 = wd_refs held w" using same_but_queueD(1,2) [OF sb1] x(1) set_remove1_subset [of x "wd_queue w"]
    by (auto simp: wd_refs_def q1)
  then have d1: "dom (gm_objs w1) = wd_refs held w1" using d x by (auto simp: o1)
  obtain n where n: "n = (if x \<notin> set (wd_queue w) \<and> wd_GetActiveSessionCount w \<noteq> 0 then wd_GetActiveSessionCount w - 1 else wd_GetActiveSessionCount w)"
    by simp
  have free: "place_free x w \<longleftrightarrow> wd_limit w1 = 0 \<or> n < wd_limit w1"
    using same_but_queueD(4) [OF sb1] by (simp add: place_free_def Let_def n)
  have run: "wd_RemoveQueuedPlayer env held x w = map_option (Pair ?f) (wd_admit env held n w1)"
    using u by (cases "wd_admit env held n w1") (simp_all add: wd_RemoveQueuedPlayer_def Let_def n)
  show ?thesis
  proof (cases "place_free x w \<and> wd_queue w1 \<noteq> []")
    case False
    then have "wd_admit env held n w1 = Some w1" using free by (auto simp: wd_admit_def split: list.splits)
    moreover have "queue_after x w = wd_queue w1" using False q1 by (auto simp: queue_after_def Let_def)
    ultimately show ?thesis using run r1 d1 sb1 o1 by (simp add: world_inv_def)
  next
    case True
    then obtain p q where q: "wd_queue w1 = p # q" by (cases "wd_queue w1") auto
    let ?w = "w1\<lparr>wd_queue := q\<rparr>"
    have "dom (gm_objs ?w) = insert p (wd_refs held ?w)" using d1 q by (auto simp: wd_refs_def)
    moreover have "world_rest b ?w" using r1 by (simp add: world_rest_queue)
    ultimately obtain w' where w': "wd_release env held p ?w = Some w'" "world_inv b held w'" "same_tables ?w w'"
      "\<forall>y \<in> wd_refs held ?w. gm_objs w' y = gm_objs ?w y"
      using release_ok [OF env _ inv(2), of ?w p held] by blast
    have "wd_admit env held n w1 = Some w'" using True free q w'(1) by (simp add: wd_admit_def)
    moreover have "wd_queue w' = queue_after x w" using w'(3) True q q1 by (simp add: queue_after_def Let_def same_tables_def)
    moreover have "same_but_queue w w'" using sb1 w'(3) by (simp add: same_but_queue_def same_tables_def)
    moreover have "\<forall>y \<in> dom (gm_objs w'). gm_objs w' y = gm_objs w1 y"
      using w'(2,3,4) refs_same [OF w'(3)] by (simp add: world_inv_def)
    moreover have "x \<in> dom (gm_objs w')" using w'(2) x(1) by (simp add: world_inv_def wd_refs_def)
    ultimately show ?thesis using run w'(2) by (simp add: o1)
  qed
qed

text \<open>A session that its update reports as over.\<close>

lemma world_rest_disconnects: "world_rest b (w\<lparr>wd_disconnects := m\<rparr>) = world_rest b w"
  by (simp add: world_rest_def game_ok_def timers_ok_def)

lemma erase_key_distinct: "distinct (map fst m) \<Longrightarrow> distinct (map fst (erase_key k m))"
proof (induction k m rule: erase_key.induct)
  case (2 k k' v m)
  then show ?case using erase_key_subset [of k m] by auto
qed simp

lemma world_rest_erase:
  assumes "world_rest b w" shows "world_rest b (w\<lparr>wd_sessions := erase_key i (wd_sessions w)\<rparr>)"
proof -
  have "\<forall>e \<in> set (erase_key i (wd_sessions w)). e \<in> set (wd_sessions w)" using erase_key_subset [of i "wd_sessions w"] by blast
  moreover have "distinct (map fst (erase_key i (wd_sessions w)))" using assms erase_key_distinct [of "wd_sessions w" i] by (simp add: world_rest_def)
  moreover have "game_ok b (w\<lparr>wd_sessions := erase_key i (wd_sessions w)\<rparr>) = game_ok b w" by (simp add: game_ok_def timers_ok_def)
  ultimately show ?thesis using assms by (simp add: world_rest_def)
qed

lemma depart_ok:
  assumes env: "senv_ok (we_srv env)" and inv: "world_inv b held w" "b < 2 ^ 31" and x: "(i, x) \<in> set (wd_sessions w)"
  shows "\<exists>w'. wd_depart env held i x w = Some w' \<and> world_inv b held w' \<and> wd_sessions w' = erase_key i (wd_sessions w) \<and>
    wd_queue w' = queue_after x (w\<lparr>wd_queue := queue_after x w\<rparr>) \<and> wd_add w' = wd_add w \<and> wd_limit w' = wd_limit w \<and>
    wd_next w' = wd_next w \<and> gm_time w' = gm_time w \<and> gm_compid w' = gm_compid w \<and>
    wd_disconnects w' = (if x \<in> set (wd_queue w) then wd_disconnects w else map_assign (we_dorder env) i (gm_time w) (wd_disconnects w)) \<and>
    (\<forall>y \<in> dom (gm_objs w'). y \<noteq> x \<longrightarrow> gm_objs w' y = gm_objs w y)"
proof -
  have xr: "x \<in> wd_refs held w" using x by (force simp: wd_refs_def)
  then have inv0: "world_inv b (x # held) w" using inv(1) world_inv_held by blast
  obtain s where s: "gm_objs w x = Some s" "ws_id s = i" using inv(1) x by (auto simp: world_inv_def world_rest_def)
  obtain w1 where w1: "wd_RemoveQueuedPlayer env (x # held) x w = Some (x \<in> set (wd_queue w), w1)" "world_inv b (x # held) w1"
    "same_but_queue w w1" "wd_queue w1 = queue_after x w" "gm_objs w1 x = Some (unqueued (gm_time w) (x \<in> set (wd_queue w)) s)"
    "\<forall>y \<in> dom (gm_objs w1). y \<noteq> x \<longrightarrow> gm_objs w1 y = gm_objs w y"
    using RemoveQueued_ok [OF env inv0 inv(2) _ s(1)] by auto
  note f1 = same_but_queueD [OF w1(3)]
  obtain w2 where w2: "w2 = (if x \<in> set (wd_queue w) then w1 else w1\<lparr>wd_disconnects := map_assign (we_dorder env) i (gm_time w) (wd_disconnects w)\<rparr>)" by simp
  have f2: "wd_sessions w2 = wd_sessions w" "wd_queue w2 = queue_after x w" "gm_objs w2 = gm_objs w1" "gm_time w2 = gm_time w"
    "wd_add w2 = wd_add w" "wd_limit w2 = wd_limit w" "wd_next w2 = wd_next w" "gm_compid w2 = gm_compid w"
    using f1 w1(4) by (simp_all add: w2)
  have inv2: "world_inv b (x # held) w2" using w1(2) by (simp add: w2 world_inv_def world_rest_disconnects wd_refs_def)
  obtain s2 where s2: "gm_objs w2 x = Some s2" using w1(5) f2(3) by simp
  obtain w3 r where w3: "wd_RemoveQueuedPlayer env (x # held) x w2 = Some (r, w3)" "world_inv b (x # held) w3"
    "same_but_queue w2 w3" "wd_queue w3 = queue_after x w2" "\<forall>y \<in> dom (gm_objs w3). y \<noteq> x \<longrightarrow> gm_objs w3 y = gm_objs w2 y"
    using RemoveQueued_ok [OF env inv2 inv(2) _ s2] by auto
  note f3 = same_but_queueD [OF w3(3)]
  let ?w = "w3\<lparr>wd_sessions := erase_key i (wd_sessions w3)\<rparr>"
  have dist: "distinct (map fst (wd_sessions w))" using inv(1) by (simp add: world_inv_def world_rest_def)
  have "snd ` set (wd_sessions w) \<subseteq> insert x (snd ` set (erase_key i (wd_sessions w)))"
  proof
    fix y assume "y \<in> snd ` set (wd_sessions w)"
    then obtain k where k: "(k, y) \<in> set (wd_sessions w)" by auto
    show "y \<in> insert x (snd ` set (erase_key i (wd_sessions w)))"
    proof (cases "k = i")
      case True
      then show ?thesis using k x dist by (metis insertI1 map_of_is_SomeI option.inject)
    next
      case False
      then show ?thesis using k set_erase_key [OF dist, of i] by force
    qed
  qed
  then have "wd_refs (x # held) w3 = insert x (wd_refs held ?w)"
    using erase_key_subset [of i "wd_sessions w"] f3(1) f2(1) by (auto simp: wd_refs_def)
  then have "dom (gm_objs ?w) = insert x (wd_refs held ?w)" using w3(2) by (simp add: world_inv_def)
  moreover have "world_rest b ?w" using w3(2) world_rest_erase [of b w3 i] by (simp add: world_inv_def)
  ultimately obtain w' where w': "wd_release env held x ?w = Some w'" "world_inv b held w'" "same_tables ?w w'"
    "\<forall>y \<in> wd_refs held ?w. gm_objs w' y = gm_objs ?w y"
    using release_ok [OF env _ inv(2), of ?w x held] by blast
  have "ws_id (unqueued (gm_time w) (x \<in> set (wd_queue w)) s) = i" using s(2) unqueued_same(3) by simp
  then have run: "wd_depart env held i x w = Some w'"
    using w1(1,5) w3(1) w'(1) f1 by (cases "x \<in> set (wd_queue w)") (simp_all add: wd_depart_def w2)
  have q: "queue_after x w2 = queue_after x (w\<lparr>wd_queue := queue_after x w\<rparr>)"
    using f2 by (simp add: queue_after_def place_free_def wd_GetActiveSessionCount_def)
  have o: "gm_objs w' y = gm_objs w y" if y: "y \<in> dom (gm_objs w')" "y \<noteq> x" for y
  proof -
    have "y \<in> wd_refs held ?w" using y w'(2) refs_same [OF w'(3)] by (simp add: world_inv_def)
    then have "gm_objs w' y = gm_objs w3 y" using w'(4) by simp
    then show ?thesis using y w3(5) w1(6) f2(3) by (metis domIff)
  qed
  have "wd_sessions w' = erase_key i (wd_sessions w)" "wd_queue w' = queue_after x (w\<lparr>wd_queue := queue_after x w\<rparr>)"
    "wd_add w' = wd_add w" "wd_limit w' = wd_limit w" "wd_next w' = wd_next w" "gm_time w' = gm_time w" "gm_compid w' = gm_compid w"
    "wd_disconnects w' = wd_disconnects w2"
    using w'(3) f3 f2 w3(4) q by (simp_all add: same_tables_def)
  moreover have "wd_disconnects w2 = (if x \<in> set (wd_queue w) then wd_disconnects w else map_assign (we_dorder env) i (gm_time w) (wd_disconnects w))"
    using f1(3) by (simp add: w2)
  ultimately show ?thesis using run w'(2) o by (intro exI [of _ w'] conjI) auto
qed

section \<open>Updating all sessions\<close>

lemma ws_Update_world:
  assumes env: "senv_ok (we_srv env)" and inv: "world_inv b held w" "b < 2 ^ 31" and s: "gm_objs w x = Some s"
  shows "\<exists>w'. ws_Update (we_srv env) x w = Some (\<not> ws_IsConnectionIdle (gm_time w) s \<and> ks_IsAlive (sv_objs (gm_server w) (ws_sock s)), w') \<and>
    world_inv (b + 127) held w' \<and> same_tables w w' \<and> gm_objs w' = gm_objs w"
proof -
  have r: "world_rest b w" "dom (gm_objs w) = wd_refs held w" using inv(1) by (simp_all add: world_inv_def)
  have g: "game_ok b w" using r(1) by (simp add: world_rest_def)
  obtain sv c where u: "ws_Update (we_srv env) x w = Some (\<not> ws_IsConnectionIdle (gm_time w) s \<and> ks_IsAlive (sv_objs (gm_server w) (ws_sock s)),
      w\<lparr>gm_server := sv, gm_ecs := c\<rparr>)" "game_ok (b + 127) (w\<lparr>gm_server := sv, gm_ecs := c\<rparr>)"
    using ws_Update_ok [OF env g inv(2) s] by blast
  obtain w' where w': "w' = w\<lparr>gm_server := sv, gm_ecs := c\<rparr>" by simp
  have same: "same_tables w w'" "gm_objs w' = gm_objs w" by (simp_all add: w' same_tables_def)
  have "world_rest (b + 127) w'" using world_rest_same [OF r(1) _ same, of "b + 127"] u(2) w' by simp
  then have "world_inv (b + 127) held w'" using r(2) same refs_same [OF same(1), of held] by (simp add: world_inv_def)
  then show ?thesis using u(1) same w' by blast
qed

lemma update_sessions_ok:
  assumes env: "senv_ok (we_srv env)"
  shows "world_inv b held w \<Longrightarrow> b + 127 * length m < 2 ^ 31 \<Longrightarrow> set m \<subseteq> set (wd_sessions w) \<Longrightarrow> distinct (map fst m) \<Longrightarrow>
    \<exists>w'. update_sessions env held m w = Some w' \<and> world_inv (b + 127 * length m) held w' \<and> wd_add w' = wd_add w \<and>
      wd_limit w' = wd_limit w \<and> gm_time w' = gm_time w \<and> gm_compid w' = gm_compid w \<and> wd_next w' = wd_next w \<and>
      set (wd_sessions w') \<subseteq> set (wd_sessions w) \<and>
      (\<forall>(i, x) \<in> set m. \<forall>s. gm_objs w x = Some s \<longrightarrow> ws_IsConnectionIdle (gm_time w) s \<longrightarrow> i \<notin> fst ` set (wd_sessions w'))"
proof (induction m arbitrary: b w)
  case (Cons e m)
  obtain i x where e: "e = (i, x)" by (cases e)
  have mem: "(i, x) \<in> set (wd_sessions w)" using Cons.prems(3) e by simp
  obtain s where s: "gm_objs w x = Some s" using Cons.prems(1) mem by (auto simp: world_inv_def world_rest_def)
  have b: "b < 2 ^ 31" "b + 127 < 2 ^ 31" using Cons.prems(2) by simp_all
  obtain ok w1 where w1: "ws_Update (we_srv env) x w = Some (ok, w1)" "world_inv (b + 127) held w1" "same_tables w w1" "gm_objs w1 = gm_objs w"
    "ok \<Longrightarrow> \<not> ws_IsConnectionIdle (gm_time w) s"
    using ws_Update_world [OF env Cons.prems(1) b(1) s] by blast
  obtain w2 where w2: "(if ok then Some w1 else wd_depart env held i x w1) = Some w2" "world_inv (b + 127) held w2"
    "set m \<subseteq> set (wd_sessions w2)" "wd_add w2 = wd_add w" "wd_limit w2 = wd_limit w" "gm_time w2 = gm_time w" "gm_compid w2 = gm_compid w"
    "wd_next w2 = wd_next w" "set (wd_sessions w2) \<subseteq> set (wd_sessions w)" "ok \<or> i \<notin> fst ` set (wd_sessions w2)"
    "\<forall>y \<in> dom (gm_objs w2). y \<noteq> x \<longrightarrow> gm_objs w2 y = gm_objs w y"
  proof (cases ok)
    case True
    then show thesis using that [of w1] w1(2-4) Cons.prems(3) by (simp add: same_tables_def)
  next
    case False
    have "(i, x) \<in> set (wd_sessions w1)" using mem w1(3) by (simp add: same_tables_def)
    from depart_ok [OF env w1(2) b(2) this] obtain w' where w': "wd_depart env held i x w1 = Some w'" "world_inv (b + 127) held w'"
      "wd_sessions w' = erase_key i (wd_sessions w1)" "wd_add w' = wd_add w1" "wd_limit w' = wd_limit w1" "wd_next w' = wd_next w1"
      "gm_time w' = gm_time w1" "gm_compid w' = gm_compid w1" "\<forall>y \<in> dom (gm_objs w'). y \<noteq> x \<longrightarrow> gm_objs w' y = gm_objs w1 y" by blast
    have d: "distinct (map fst (wd_sessions w))" using Cons.prems(1) by (simp add: world_inv_def world_rest_def)
    have "set m \<subseteq> set (erase_key i (wd_sessions w))"
      using Cons.prems(3,4) e by (auto simp: set_erase_key [OF d])
    moreover have "set (erase_key i (wd_sessions w)) \<subseteq> set (wd_sessions w)" "i \<notin> fst ` set (erase_key i (wd_sessions w))"
      using erase_key_subset [of i "wd_sessions w"] erase_key_gone [OF d, of i] by simp_all
    ultimately show thesis using that [of w'] w' w1(3,4) False by (simp add: same_tables_def)
  qed
  have "b + 127 + 127 * length m < 2 ^ 31" "distinct (map fst m)" using Cons.prems(2,4) by simp_all
  from Cons.IH [OF w2(2) this(1) w2(3) this(2)] obtain w' where
    w': "update_sessions env held m w2 = Some w'" "world_inv (b + 127 + 127 * length m) held w'" "wd_add w' = wd_add w2"
      "wd_limit w' = wd_limit w2" "gm_time w' = gm_time w2" "gm_compid w' = gm_compid w2" "wd_next w' = wd_next w2"
      "set (wd_sessions w') \<subseteq> set (wd_sessions w2)"
      "\<forall>(i, x) \<in> set m. \<forall>s. gm_objs w2 x = Some s \<longrightarrow> ws_IsConnectionIdle (gm_time w2) s \<longrightarrow> i \<notin> fst ` set (wd_sessions w')" by blast
  have idle: "k \<notin> fst ` set (wd_sessions w')" if k: "(k, y) \<in> set (e # m)" "gm_objs w y = Some t" "ws_IsConnectionIdle (gm_time w) t" for k y t
  proof (cases "(k, y) = e")
    case True
    then have "\<not> ok" using k(2,3) s w1(5) e by auto
    then have "i \<notin> fst ` set (wd_sessions w2)" using w2(10) by blast
    then show ?thesis using w'(8) True e by auto
  next
    case False
    then have m: "(k, y) \<in> set m" "k \<noteq> i" using k(1) e Cons.prems(4) by force+
    have ids: "\<And>k y. (k, y) \<in> set (wd_sessions w) \<Longrightarrow> \<exists>s. gm_objs w y = Some s \<and> ws_id s = k"
      using Cons.prems(1) unfolding world_inv_def world_rest_def by fast
    have "y \<noteq> x" using ids [of k y] ids [OF mem] m Cons.prems(3) by force
    moreover have "(k, y) \<in> set (wd_sessions w2)" using w2(3) m(1) by blast
    then have "y \<in> dom (gm_objs w2)" using w2(2) unfolding world_inv_def world_rest_def by fast
    ultimately have "gm_objs w2 y = Some t" using w2(11) k(2) by simp
    then show ?thesis using w'(9) m(1) k(3) w2(6) by fastforce
  qed
  have sub: "set (wd_sessions w') \<subseteq> set (wd_sessions w)" using w'(8) w2(9) by blast
  have "update_sessions env held (e # m) w = Some w'" using w1(1) w2(1) w'(1) e by (cases ok) simp_all
  moreover have "world_inv (b + 127 * length (e # m)) held w'" using w'(2) by (simp add: add.assoc)
  ultimately show ?case using w'(3-7) w2(4-8) sub idle by (intro exI [of _ w'] conjI) (simp_all, blast)
qed simp

section \<open>Adding sessions\<close>

lemma assign_key_fst: "map fst (assign_key k v m) = map fst m"
  by (induction k v m rule: assign_key.induct) auto

lemma set_assign_key:
  "distinct (map fst m) \<Longrightarrow> map_of m k \<noteq> None \<Longrightarrow> set (assign_key k v m) = insert (k, v) {e \<in> set m. fst e \<noteq> k}"
proof (induction k v m rule: assign_key.induct)
  case (2 k v k' v' m)
  then show ?case by (cases "k' = k") (force split: if_splits)+
qed simp

text \<open>The environment's order of traversal.\<close>

definition order_ok :: "'a world_env \<Rightarrow> bool" where
  "order_ok env \<longleftrightarrow> (\<forall>m. mset (we_order env m) = mset m)"

lemma map_assign_ok:
  assumes "\<forall>m. mset (order m) = mset m" "distinct (map fst m)"
  shows "set (map_assign order k v m) = insert (k, v) {e \<in> set m. fst e \<noteq> k}" "distinct (map fst (map_assign order k v m))"
    "length (map_assign order k v m) = (if k \<in> fst ` set m then length m else Suc (length m))"
proof -
  have o: "set (order ((k, v) # m)) = insert (k, v) (set m)" "mset (map fst (order ((k, v) # m))) = mset (map fst ((k, v) # m))"
    "length (order ((k, v) # m)) = Suc (length m)"
    using assms(1) by (metis list.simps(15) mset_eq_setD, metis mset_map, metis length_Cons size_mset)
  have n: "map_of m k = None \<longleftrightarrow> k \<notin> fst ` set m" by (simp add: map_of_eq_None_iff)
  show "set (map_assign order k v m) = insert (k, v) {e \<in> set m. fst e \<noteq> k}"
    using o(1) n set_assign_key [OF assms(2), of k v] by (auto simp: map_assign_def)
  have "distinct (map fst (order ((k, v) # m))) = distinct (map fst ((k, v) # m))"
    using o(2) mset_eq_imp_distinct_iff by blast
  then show "distinct (map fst (map_assign order k v m))"
    using n assms(2) by (simp add: map_assign_def assign_key_fst)
  have "length (assign_key k v m) = length m" using arg_cong [OF assign_key_fst [of k v m], of length] by simp
  then show "length (map_assign order k v m) = (if k \<in> fst ` set m then length m else Suc (length m))"
    using n o(3) by (simp add: map_assign_def)
qed

lemma kick_world:
  assumes env: "senv_ok (we_srv env)" and inv: "world_inv b held w" "b < 2 ^ 31" and y: "gm_objs w y = Some s"
  shows "\<exists>w'. ws_KickPlayer (we_srv env) y w = Some w' \<and> world_inv b held w' \<and> same_tables w w' \<and> gm_objs w' = gm_objs w"
proof -
  have r: "world_rest b w" "dom (gm_objs w) = wd_refs held w" using inv(1) by (simp_all add: world_inv_def)
  then have "game_ok b w" by (simp add: world_rest_def)
  from KickPlayer_ok [OF env this inv(2) y] obtain sv where
    k: "ws_KickPlayer (we_srv env) y w = Some (w\<lparr>gm_server := sv\<rparr>)" "game_ok b (w\<lparr>gm_server := sv\<rparr>)" by blast
  have same: "same_tables w (w\<lparr>gm_server := sv\<rparr>)" "gm_objs (w\<lparr>gm_server := sv\<rparr>) = gm_objs w" by (simp_all add: same_tables_def)
  have "world_inv b held (w\<lparr>gm_server := sv\<rparr>)"
    using world_rest_same [OF r(1) k(2) same] r(2) refs_same [OF same(1), of held] by (simp add: world_inv_def)
  then show ?thesis using k(1) same by blast
qed

text \<open>The end of the addition: counters, and the queue when the world is full.\<close>

lemma world_inv_counters: "world_inv b held (wd_UpdateMaxSessionCounters w) = world_inv b held w"
  by (simp add: wd_UpdateMaxSessionCounters_def world_inv_def world_rest_def game_ok_def timers_ok_def wd_refs_def)

lemma HasRecently_fst: "snd (wd_HasRecentlyDisconnected i w) = w\<lparr>wd_disconnects := snd (scan_disconnects (gm_time w) i (wd_disconnects w))\<rparr>"
  by (simp add: wd_HasRecentlyDisconnected_def split: prod.splits)

lemma place_ok:
  assumes inv: "world_inv b held w" and x: "x \<in> set held" "gm_objs w x = Some s"
  shows "\<exists>w'. wd_place x i w = Some w' \<and> world_inv b held w' \<and> wd_sessions w' = wd_sessions w \<and> wd_add w' = wd_add w \<and>
    wd_limit w' = wd_limit w \<and> wd_next w' = wd_next w \<and> gm_time w' = gm_time w \<and> gm_compid w' = gm_compid w"
proof -
  let ?n = "wd_GetActiveAndQueuedSessionCount w - 1"
  obtain recent w1 where w1: "(if wd_limit w > 0 \<and> ?n \<ge> wd_limit w then wd_HasRecentlyDisconnected i w else (True, w)) = (recent, w1)" by fastforce
  obtain m where m: "w1 = w\<lparr>wd_disconnects := m\<rparr>"
  proof (cases "wd_limit w > 0 \<and> ?n \<ge> wd_limit w")
    case True
    then show thesis using that w1 HasRecently_fst [of i w] by (metis snd_conv)
  next
    case False
    then have "w1 = w" using w1 by (auto split: if_splits)
    then show thesis using that [of "wd_disconnects w"] by simp
  qed
  have inv1: "world_inv b held w1" using inv by (simp add: m world_inv_def world_rest_disconnects wd_refs_def)
  show ?thesis
  proof (cases recent)
    case True
    then have "wd_place x i w = Some (wd_UpdateMaxSessionCounters w1)" using w1 by (simp add: wd_place_def Let_def)
    then show ?thesis using inv1 world_inv_counters [of b held w1] by (simp add: m wd_UpdateMaxSessionCounters_def)
  next
    case False
    let ?w = "(put_session x (ws_SetInQueue True s) w1)\<lparr>wd_queue := wd_queue w1 @ [x]\<rparr>"
    have r: "world_rest b w1" "dom (gm_objs w1) = wd_refs held w1" "gm_objs w1 x = Some s" using inv1 x(2) by (simp_all add: world_inv_def m)
    have "world_rest b (put_session x (ws_SetInQueue True s) w1)"
      by (rule put_session_rest [OF r(1,3)]) (simp_all add: same_timers_def ws_SetInQueue_def)
    then have "world_rest b ?w" by (simp add: world_rest_queue)
    moreover have "dom (gm_objs ?w) = wd_refs held ?w" using r(2,3) x(1) put_session_tables [of w1 x] by (auto simp: wd_refs_def same_tables_def)
    ultimately have inv2: "world_inv b held ?w" by (simp add: world_inv_def)
    have "wd_place x i w = Some (wd_UpdateMaxSessionCounters ?w)" using w1 False r(3) by (simp add: wd_place_def Let_def wd_AddQueuedPlayer_def)
    then show ?thesis using inv2 world_inv_counters [of b held ?w] by (simp add: m wd_UpdateMaxSessionCounters_def put_session_def)
  qed
qed

lemma Initilize_world:
  assumes inv: "world_inv b held w" and x: "gm_objs w x = Some s" "\<not> ws_container s" "x \<notin> set (lq_items (wd_add w))"
    and room: "gm_compid w < 0xFFFFFFF0"
  shows "\<exists>w'. ws_Initilize junk x w = Some w' \<and> world_inv b held w' \<and> same_tables (w\<lparr>gm_compid := gm_compid w + 2\<rparr>) w' \<and>
    (\<exists>s'. gm_objs w' x = Some s' \<and> same_player s s')"
proof -
  have g: "timers_ok w" "server_ok b (gm_server w)" "online (gm_objs w) (gm_server w)" and r: "world_rest b w" "dom (gm_objs w) = wd_refs held w"
    using inv by (simp_all add: world_inv_def world_rest_def game_ok_def)
  obtain m c s' where i: "ws_Initilize junk x w = Some (w\<lparr>gm_objs := m, gm_ecs := c, gm_compid := gm_compid w + 2\<rparr>)"
    "timers_ok (w\<lparr>gm_objs := m, gm_ecs := c, gm_compid := gm_compid w + 2\<rparr>)"
    "\<forall>y. y \<noteq> x \<longrightarrow> map_option no_ptrs (m y) = map_option no_ptrs (gm_objs w y)" "m x = Some s'" "same_player s s'"
    using Initilize_ok [OF g(1) x(1,2) room, of junk] by blast
  obtain w' where w': "w' = w\<lparr>gm_objs := m, gm_ecs := c, gm_compid := gm_compid w + 2\<rparr>" by simp
  have same: "same_tables (w\<lparr>gm_compid := gm_compid w + 2\<rparr>) w'" by (simp add: w' same_tables_def)
  have other: "\<exists>t'. m y = Some t' \<and> ws_id t' = ws_id t \<and> ws_sock t' = ws_sock t \<and> (y \<noteq> x \<longrightarrow> ws_container t' = ws_container t)"
    if t: "gm_objs w y = Some t" for y t
  proof (cases "y = x")
    case True
    then show ?thesis using i(4,5) x(1) t by (simp add: same_player_def)
  next
    case False
    then obtain t' where "m y = Some t'" "no_ptrs t' = no_ptrs t" using i(3) t by (cases "m y") force+
    then show ?thesis using no_ptrs_eqD by blast
  qed
  have dom: "dom m = dom (gm_objs w)"
  proof -
    have "m y = None \<longleftrightarrow> gm_objs w y = None" for y using i(3,4) x(1) by (cases "y = x") (simp, metis map_option_is_None)
    then show ?thesis by (auto simp: dom_def)
  qed
  have "online m (gm_server w)"
    unfolding online_def
  proof (intro allI impI)
    fix y t' assume t': "m y = Some t'" "ks_alive (sv_objs (gm_server w) (ws_sock t'))"
    obtain t where t: "gm_objs w y = Some t" using t'(1) dom by blast
    then have "ws_sock t' = ws_sock t" using other [OF t] t'(1) by simp
    then show "(ks_conv (sv_objs (gm_server w) (ws_sock t')), ws_sock t') \<in> set (sv_sessions (gm_server w))"
      using g(3) t t'(2) by (simp add: online_def)
  qed
  then have "game_ok b w'" using i(2) g(2) by (simp add: game_ok_def w')
  moreover have "\<forall>(k, y) \<in> set (wd_sessions w). \<exists>t. m y = Some t \<and> ws_id t = k"
    using r(1) other unfolding world_rest_def by fastforce
  moreover have "\<forall>y \<in> set (lq_items (wd_add w)). \<exists>t. m y = Some t \<and> \<not> ws_container t"
    using r(1) other x(3) unfolding world_rest_def by metis
  moreover have "gm_objs w' = m" "wd_sessions w' = wd_sessions w" "wd_add w' = wd_add w" "wd_next w' = wd_next w" by (simp_all add: w')
  ultimately have "world_rest b w'" using r(1) dom unfolding world_rest_def by simp
  moreover have "wd_refs held w' = wd_refs held w" by (simp add: w' wd_refs_def)
  ultimately have "world_inv b held w'" using r(2) dom by (simp add: world_inv_def w')
  moreover have "gm_objs w' x = Some s'" "ws_Initilize junk x w = Some w'" using i(1,4) by (simp_all add: w')
  ultimately show ?thesis using same i(5) by blast
qed

lemma RemoveSession_ok:
  assumes env: "senv_ok (we_srv env)" and inv: "world_inv b held w" "b < 2 ^ 31"
  shows "\<exists>w'. wd_RemoveSession env i w = Some (True, w') \<and> world_inv b held w' \<and> same_tables w w' \<and> gm_objs w' = gm_objs w"
proof (cases "map_of (wd_sessions w) i")
  case None
  then show ?thesis using inv(1) by (simp add: wd_RemoveSession_def)
next
  case (Some x)
  then have "(i, x) \<in> set (wd_sessions w)" by (rule map_of_SomeD)
  then obtain s where s: "gm_objs w x = Some s" using inv(1) by (auto simp: world_inv_def world_rest_def)
  then show ?thesis using kick_world [OF env inv s] Some by (auto simp: wd_RemoveSession_def ws_PlayerLoading_def)
qed

text \<open>A session for a player that may be in the game already takes the place of the old one.\<close>

lemma AddSession_impl_ok:
  assumes env: "senv_ok (we_srv env)" "order_ok env" and inv: "world_inv b [x] w" "b < 2 ^ 31"
    and x: "gm_objs w x = Some s" "\<not> ws_container s" "x \<notin> set (lq_items (wd_add w))" and room: "gm_compid w < 0xFFFFFFF0"
  shows "\<exists>w'. wd_AddSession_impl env x w = Some w' \<and> world_inv b [x] w' \<and> wd_add w' = wd_add w \<and> wd_limit w' = wd_limit w \<and>
    gm_time w' = gm_time w \<and> gm_compid w' = gm_compid w + 2 \<and> wd_next w' = wd_next w \<and>
    set (wd_sessions w') = insert (ws_id s, x) {e \<in> set (wd_sessions w). fst e \<noteq> ws_id s} \<and>
    length (wd_sessions w') \<le> Suc (length (wd_sessions w)) \<and>
    (\<exists>v s'. wd_place x (ws_id s) v = Some w' \<and> wd_sessions v = map_assign (we_order env) (ws_id s) x (wd_sessions w) \<and>
      wd_queue v = wd_queue w \<and> wd_disconnects v = wd_disconnects w \<and> wd_limit v = wd_limit w \<and> gm_time v = gm_time w \<and>
      gm_objs v x = Some s')"
proof -
  let ?i = "ws_id s"
  obtain w1 where w1: "wd_RemoveSession env ?i w = Some (True, w1)" "world_inv b [x] w1" "same_tables w w1" "gm_objs w1 = gm_objs w"
    using RemoveSession_ok [OF env(1) inv] by blast
  obtain old where old: "old = wd_FindSession ?i w1" by simp
  have ses1: "wd_sessions w1 = wd_sessions w" using w1(3) by (simp add: same_tables_def)
  have oldmem: "(?i, y) \<in> set (wd_sessions w)" if "old = Some y" for y
    using that ses1 old by (intro map_of_SomeD) (simp add: wd_FindSession_def)
  obtain w2 where w2: "wd_kick_old env old w1 = Some w2" "world_inv b [x] w2" "same_tables w w2" "gm_objs w2 = gm_objs w"
  proof (cases old)
    case None
    then show thesis using that [of w1] w1(2-4) by (simp add: wd_kick_old_def)
  next
    case (Some y)
    then obtain t where "gm_objs w1 y = Some t" using oldmem inv(1) w1(4) by (fastforce simp: world_inv_def world_rest_def)
    from kick_world [OF env(1) w1(2) inv(2) this] obtain w' where
      "ws_KickPlayer (we_srv env) y w1 = Some w'" "world_inv b [x] w'" "same_tables w1 w'" "gm_objs w' = gm_objs w1" by blast
    then show thesis using that [of w'] Some w1(4) same_tables_trans [OF w1(3), of w'] by (simp add: wd_kick_old_def)
  qed
  have ses2: "wd_sessions w2 = wd_sessions w" "wd_add w2 = wd_add w" "wd_queue w2 = wd_queue w" using w2(3) by (simp_all add: same_tables_def)
  let ?m = "map_assign (we_order env) ?i x (wd_sessions w)"
  let ?w = "w2\<lparr>wd_sessions := map_assign (we_order env) ?i x (wd_sessions w2)\<rparr>"
  have ord: "\<forall>m. mset (we_order env m) = mset m" and dist: "distinct (map fst (wd_sessions w))"
    using env(2) inv(1) by (simp_all add: order_ok_def world_inv_def world_rest_def)
  note ma = map_assign_ok [OF ord dist, of ?i x]
  have r2: "world_rest b w2" "dom (gm_objs w2) = wd_refs [x] w2" using w2(2) by (simp_all add: world_inv_def)
  have "\<forall>(k, y) \<in> set ?m. \<exists>t. gm_objs w2 y = Some t \<and> ws_id t = k"
    using r2(1) ses2(1) x(1) w2(4) by (auto simp: ma(1) world_rest_def)
  moreover have "game_ok b ?w" using r2(1) by (simp add: world_rest_def game_ok_def timers_ok_def)
  ultimately have rest: "world_rest b ?w" using r2(1) ma(2) ses2(1) by (simp add: world_rest_def)
  obtain w3 where w3: "wd_release_old env [x] old ?w = Some w3" "world_inv b [x] w3" "same_tables ?w w3" "gm_objs w3 x = Some s"
  proof (cases old)
    case None
    then have n: "map_of (wd_sessions w) ?i = None" using old ses1 by (simp add: wd_FindSession_def)
    then have "{e \<in> set (wd_sessions w). fst e \<noteq> ?i} = set (wd_sessions w)" by (force simp: map_of_eq_None_iff)
    then have "wd_refs [x] ?w = wd_refs [x] w2" using ma(1) ses2(1) by (auto simp: wd_refs_def)
    then have "world_inv b [x] ?w" using rest r2(2) by (simp add: world_inv_def)
    then show thesis using that [of ?w] None w2(4) x(1) by (simp add: wd_release_old_def)
  next
    case (Some y)
    note mem = oldmem [OF Some]
    have "snd ` set (wd_sessions w) \<subseteq> insert y (snd ` set ?m)"
    proof
      fix z assume "z \<in> snd ` set (wd_sessions w)"
      then obtain k where k: "(k, z) \<in> set (wd_sessions w)" by auto
      show "z \<in> insert y (snd ` set ?m)"
      proof (cases "k = ?i")
        case True
        then show ?thesis using k mem dist by (metis insertI1 map_of_is_SomeI option.inject)
      next
        case False
        then show ?thesis using k ma(1) by force
      qed
    qed
    moreover have "y \<in> snd ` set (wd_sessions w)" using mem by force
    moreover have "snd ` set ?m \<subseteq> insert x (snd ` set (wd_sessions w))" using ma(1) by auto
    ultimately have "wd_refs [x] w2 = insert y (wd_refs [x] ?w)" using ses2 by (auto simp: wd_refs_def)
    then have "dom (gm_objs ?w) = insert y (wd_refs [x] ?w)" using r2(2) by simp
    from release_ok [OF env(1) rest inv(2) this] obtain w' where w': "wd_release env [x] y ?w = Some w'" "world_inv b [x] w'"
      "same_tables ?w w'" "\<forall>z \<in> wd_refs [x] ?w. gm_objs w' z = gm_objs ?w z" by blast
    have "gm_objs w' x = Some s" using w'(4) w2(4) x(1) by (simp add: wd_refs_def)
    then show thesis using that [of w'] Some w'(1-3) by (simp add: wd_release_old_def)
  qed
  have f3: "wd_sessions w3 = ?m" "wd_add w3 = wd_add w" "wd_limit w3 = wd_limit w" "gm_time w3 = gm_time w" "gm_compid w3 = gm_compid w"
    "wd_next w3 = wd_next w" "wd_queue w3 = wd_queue w" "wd_disconnects w3 = wd_disconnects w" using w3(3) w2(3) ses2(1) by (simp_all add: same_tables_def)
  have x3: "x \<notin> set (lq_items (wd_add w3))" "gm_compid w3 < 0xFFFFFFF0" using x(3) room f3 by simp_all
  obtain w4 s' where w4: "ws_Initilize (we_junk env) x w3 = Some w4" "world_inv b [x] w4" "same_tables (w3\<lparr>gm_compid := gm_compid w3 + 2\<rparr>) w4"
    "gm_objs w4 x = Some s'" using Initilize_world [OF w3(2,4) x(2) x3] by blast
  obtain w5 where w5: "wd_place x ?i w4 = Some w5" "world_inv b [x] w5" "wd_sessions w5 = wd_sessions w4" "wd_add w5 = wd_add w4"
    "wd_limit w5 = wd_limit w4" "wd_next w5 = wd_next w4" "gm_time w5 = gm_time w4" "gm_compid w5 = gm_compid w4"
    using place_ok [OF w4(2) _ w4(4), of ?i] by auto
  have "wd_AddSession_impl env x w = Some w5"
    using x(1) w1(1) w2(1) w3(1) w4(1) w5(1) old by (simp add: wd_AddSession_impl_def Let_def)
  moreover have "wd_sessions w5 = ?m" "wd_add w5 = wd_add w" "wd_limit w5 = wd_limit w" "gm_time w5 = gm_time w" "gm_compid w5 = gm_compid w + 2"
    "wd_next w5 = wd_next w" using w5 w4(3) f3 by (simp_all add: same_tables_def)
  moreover have "wd_sessions w4 = ?m" "wd_queue w4 = wd_queue w" "wd_disconnects w4 = wd_disconnects w" "wd_limit w4 = wd_limit w"
    "gm_time w4 = gm_time w" using w4(3) f3 by (simp_all add: same_tables_def)
  then have "\<exists>v s'. wd_place x ?i v = Some w5 \<and> wd_sessions v = ?m \<and> wd_queue v = wd_queue w \<and> wd_disconnects v = wd_disconnects w \<and>
      wd_limit v = wd_limit w \<and> gm_time v = gm_time w \<and> gm_objs v x = Some s'" using w5(1) w4(4) by blast
  ultimately show ?thesis using w5(2) ma(1,3) by - (rule exI [of _ w5], intro conjI, simp_all)
qed

lemma add_pending_ok:
  assumes env: "senv_ok (we_srv env)" "order_ok env"
  shows "world_inv b (held_by sess) w \<Longrightarrow> b < 2 ^ 31 \<Longrightarrow> unat (gm_compid w) + 2 * length (lq_items (wd_add w)) < 0xFFFFFFF0 \<Longrightarrow>
    \<exists>sess' w'. add_pending env sess w = Some (sess', w') \<and> world_inv b (held_by sess') w' \<and> lq_items (wd_add w') = [] \<and>
      wd_limit w' = wd_limit w \<and> gm_time w' = gm_time w \<and> wd_next w' = wd_next w \<and>
      unat (gm_compid w') = unat (gm_compid w) + 2 * length (lq_items (wd_add w)) \<and>
      length (wd_sessions w') \<le> length (wd_sessions w) + length (lq_items (wd_add w))"
proof (induction "lq_items (wd_add w)" arbitrary: w sess)
  case Nil
  have "\<not> lq_held (wd_add w)" using Nil.prems(1) by (simp add: world_inv_def world_rest_def)
  then have "lq_next (wd_add w) = Some (None, wd_add w)" using Nil.hyps by (simp add: lq_next_def)
  then have "add_pending env sess w = Some (sess, w)" by (subst add_pending.simps) simp
  then show ?case using Nil by simp
next
  case (Cons x xs)
  let ?q = "(wd_add w)\<lparr>lq_items := xs\<rparr>"
  let ?w = "w\<lparr>wd_add := ?q\<rparr>"
  have r: "world_rest b w" "dom (gm_objs w) = wd_refs (held_by sess) w" using Cons.prems(1) by (simp_all add: world_inv_def)
  have add: "\<not> lq_held (wd_add w)" "distinct (x # xs)" "\<forall>y \<in> set (x # xs). \<exists>s. gm_objs w y = Some s \<and> \<not> ws_container s"
    using r(1) Cons.hyps(2) by (simp_all add: world_rest_def)
  then have nx: "lq_next (wd_add w) = Some (Some x, ?q)" by (simp add: lq_next_def Cons.hyps(2) [symmetric])
  obtain s where s: "gm_objs w x = Some s" "\<not> ws_container s" using add(3) by auto
  have rest: "world_rest b ?w" using r(1) add unfolding world_rest_def game_ok_def timers_ok_def by simp
  have refs: "dom (gm_objs ?w) = set (held_by sess) \<union> wd_refs [x] ?w"
    using r(2) by (auto simp: wd_refs_def Cons.hyps(2) [symmetric])
  obtain w1 where w1: "wd_release_old env [x] sess ?w = Some w1" "world_inv b [x] w1" "same_tables ?w w1" "gm_objs w1 x = Some s"
  proof (cases sess)
    case None
    then have "world_inv b [x] ?w" using rest refs by (simp add: world_inv_def held_by_def)
    then show thesis using that [of ?w] None s(1) by (simp add: wd_release_old_def)
  next
    case (Some y)
    then have "dom (gm_objs ?w) = insert y (wd_refs [x] ?w)" using refs by (simp add: held_by_def)
    from release_ok [OF env(1) rest Cons.prems(2) this] obtain w' where w': "wd_release env [x] y ?w = Some w'" "world_inv b [x] w'"
      "same_tables ?w w'" "\<forall>z \<in> wd_refs [x] ?w. gm_objs w' z = gm_objs ?w z" by blast
    have "gm_objs w' x = Some s" using w'(4) s(1) by (simp add: wd_refs_def)
    then show thesis using that [of w'] Some w'(1-3) by (simp add: wd_release_old_def)
  qed
  have f1: "wd_add w1 = ?q" "wd_limit w1 = wd_limit w" "gm_time w1 = gm_time w" "wd_next w1 = wd_next w" "gm_compid w1 = gm_compid w"
    "wd_sessions w1 = wd_sessions w" using w1(3) by (simp_all add: same_tables_def)
  have c: "unat (gm_compid w) + 2 * Suc (length xs) < 0xFFFFFFF0" using Cons.prems(3) Cons.hyps(2) [symmetric] by simp
  then have c1: "x \<notin> set (lq_items (wd_add w1))" "gm_compid w1 < 0xFFFFFFF0" using f1 add(2) by (simp_all add: word_less_nat_alt)
  obtain w2 where w2: "wd_AddSession_impl env x w1 = Some w2" "world_inv b [x] w2" "wd_add w2 = wd_add w1" "wd_limit w2 = wd_limit w1"
    "gm_time w2 = gm_time w1" "gm_compid w2 = gm_compid w1 + 2" "wd_next w2 = wd_next w1" "length (wd_sessions w2) \<le> Suc (length (wd_sessions w1))"
    using AddSession_impl_ok [OF env w1(2) Cons.prems(2) w1(4) s(2) c1] by blast
  have u: "unat (gm_compid w2) = unat (gm_compid w) + 2" using w2(6) f1(5) c by (simp add: unat_word_ariths)
  have xs: "xs = lq_items (wd_add w2)" using w2(3) f1(1) by simp
  have "world_inv b (held_by (Some x)) w2" "unat (gm_compid w2) + 2 * length (lq_items (wd_add w2)) < 0xFFFFFFF0"
    using w2(2) u c xs [symmetric] by (simp_all add: held_by_def)
  from Cons.hyps(1) [OF xs this(1) Cons.prems(2) this(2)] obtain sess' w' where
    w': "add_pending env (Some x) w2 = Some (sess', w')" "world_inv b (held_by sess') w'" "lq_items (wd_add w') = []"
      "wd_limit w' = wd_limit w2" "gm_time w' = gm_time w2" "wd_next w' = wd_next w2"
      "unat (gm_compid w') = unat (gm_compid w2) + 2 * length (lq_items (wd_add w2))"
      "length (wd_sessions w') \<le> length (wd_sessions w2) + length (lq_items (wd_add w2))" by blast
  have "add_pending env sess w = Some (sess', w')" using nx w1(1) w2(1) w'(1) by (subst add_pending.simps) simp
  moreover have "unat (gm_compid w') = unat (gm_compid w) + 2 * length (lq_items (wd_add w))"
    "length (wd_sessions w') \<le> length (wd_sessions w) + length (lq_items (wd_add w))"
    using w'(7,8) u w2(8) f1(6) xs [symmetric] Cons.hyps(2) [symmetric] by simp_all
  ultimately show ?case using w'(2-6) w2(4,5,7) f1 by (intro exI [of _ sess'] exI [of _ w'] conjI) simp_all
qed

section \<open>One update of the world\<close>

text \<open>Sessions after the update, at most: those there were and those that were waiting to be added.\<close>

definition world_load :: "'a world \<Rightarrow> nat" where
  "world_load w = length (wd_sessions w) + length (lq_items (wd_add w))"

lemma UpdateSessions_ok:
  assumes env: "senv_ok (we_srv env)" "order_ok env" and inv: "world_inv b [] w" and room: "b + 127 * world_load w < 2 ^ 31"
    "unat (gm_compid w) + 2 * length (lq_items (wd_add w)) < 0xFFFFFFF0"
  shows "\<exists>w'. wd_UpdateSessions env w = Some w' \<and> world_inv (b + 127 * world_load w) [] w' \<and> lq_items (wd_add w') = [] \<and>
    gm_time w' = gm_time w \<and> unat (gm_compid w') = unat (gm_compid w) + 2 * length (lq_items (wd_add w))"
proof -
  have b: "b < 2 ^ 31" using room(1) by simp
  have inv0: "world_inv b (held_by None) w" using inv by (simp add: held_by_def)
  obtain sess w1 where w1: "add_pending env None w = Some (sess, w1)" "world_inv b (held_by sess) w1" "lq_items (wd_add w1) = []"
    "gm_time w1 = gm_time w" "unat (gm_compid w1) = unat (gm_compid w) + 2 * length (lq_items (wd_add w))"
    "length (wd_sessions w1) \<le> length (wd_sessions w) + length (lq_items (wd_add w))"
    using add_pending_ok [OF env inv0 b room(2)] by blast
  let ?n = "length (wd_sessions w1)"
  have n: "b + 127 * ?n \<le> b + 127 * world_load w" using w1(6) by (simp add: world_load_def)
  then have n': "b + 127 * ?n < 2 ^ 31" using room(1) by linarith
  have dist: "distinct (map fst (wd_sessions w1))" using w1(2) by (simp add: world_inv_def world_rest_def)
  obtain w2 where w2: "update_sessions env (held_by sess) (wd_sessions w1) w1 = Some w2" "world_inv (b + 127 * ?n) (held_by sess) w2"
    "wd_add w2 = wd_add w1" "gm_time w2 = gm_time w1" "gm_compid w2 = gm_compid w1"
    using update_sessions_ok [OF env(1) w1(2) n' subset_refl dist] by blast
  have inv2: "world_inv (b + 127 * world_load w) (held_by sess) w2" using world_inv_mono [OF w2(2) n] .
  obtain w' where w': "wd_release_old env [] sess w2 = Some w'" "world_inv (b + 127 * world_load w) [] w'" "same_tables w2 w'"
  proof (cases sess)
    case None
    then show thesis using that [of w2] inv2 by (simp add: wd_release_old_def held_by_def)
  next
    case (Some y)
    have "world_rest (b + 127 * world_load w) w2" "dom (gm_objs w2) = insert y (wd_refs [] w2)"
      using inv2 Some by (simp_all add: world_inv_def held_by_def wd_refs_def)
    from release_ok [OF env(1) this(1) room(1) this(2)] show thesis using that Some by (auto simp: wd_release_old_def)
  qed
  have "wd_UpdateSessions env w = Some w'" using w1(1) w2(1) w'(1) by (simp add: wd_UpdateSessions_def)
  then show ?thesis using w'(2,3) w1(3-5) w2(3-5) by (intro exI [of _ w'] conjI) (simp_all add: same_tables_def)
qed

lemma Update_ok:
  assumes env: "senv_ok (we_srv env)" "order_ok env" and inv: "world_inv b [] w" and room: "b + 127 * world_load w < 2 ^ 31"
    "unat (gm_compid w) + 2 * length (lq_items (wd_add w)) < 0xFFFFFFF0"
  shows "\<exists>w'. wd_Update env diff w = Some w' \<and> world_inv (b + 127 * world_load w) [] w' \<and> lq_items (wd_add w') = [] \<and>
    gm_time w' = gm_time w \<and> unat (gm_compid w') = unat (gm_compid w) + 2 * length (lq_items (wd_add w))"
proof -
  obtain w1 where w1: "wd_UpdateSessions env w = Some w1" "world_inv (b + 127 * world_load w) [] w1" "lq_items (wd_add w1) = []"
    "gm_time w1 = gm_time w" "unat (gm_compid w1) = unat (gm_compid w) + 2 * length (lq_items (wd_add w))"
    using UpdateSessions_ok [OF assms] by blast
  have "timers_ok w1" using w1(2) by (simp add: world_inv_def world_rest_def game_ok_def)
  from OnUpdate_ok [OF this, of "sint diff"] obtain c where c: "ct_OnUpdate (sint diff) (gm_ecs w1) = Some c" "timers_ok (w1\<lparr>gm_ecs := c\<rparr>)" by blast
  have "world_inv (b + 127 * world_load w) [] (w1\<lparr>gm_ecs := c\<rparr>)"
    using w1(2) c(2) by (simp add: world_inv_def world_rest_def game_ok_def wd_refs_def)
  then show ?thesis using w1 c(1) by (intro exI [of _ "w1\<lparr>gm_ecs := c\<rparr>"] conjI) (simp_all add: wd_Update_def)
qed

section \<open>Everything else that happens to the world\<close>

lemma new_world_timers:
  assumes "only_timers c (sy_new (timer_ops 0 0) d)" "gm_ecs w = c" "gm_objs w = Map.empty"
  shows "timers_ok w"
  unfolding timers_ok_def using assms
  by (intro exI [of _ "sy_new (timer_ops 0 0) d"]) (simp add: timers_listed_def sy_new_def timer_ids_def stable_inv_new, simp add: sa_new_def)

lemma new_container:
  "\<exists>c. ct_AddSystem d INTERVAL_TIMER 0 (ct_new memory) = Some (True, c) \<and> only_timers c (sy_new (timer_ops 0 0) d)"
proof -
  have find: "ct_find INTERVAL_TIMER (ct_new memory) = Some None"
    by (simp add: ct_find_def ct_new_def pl_empty_def find_walk.simps)
  obtain l where l: "pl_add 0 0 pl_empty = Some l" "pl_head l = Some 0" "pl_nodes l 0 = \<lparr>pn_data = 0, pn_next = None, pn_priority = 0\<rparr>"
    by (simp add: pl_add_def pl_add_node_def pl_empty_def)
  let ?s = "\<lparr>is_priority = 0, is_enabled = True, is_body = new_body d INTERVAL_TIMER\<rparr>"
  let ?c = "\<lparr>ct_list = l, ct_systems = memory(0 := ?s), ct_next = 1\<rparr>"
  have add: "ct_AddSystem d INTERVAL_TIMER 0 (ct_new memory) = Some (True, ?c)"
    using find l(1) by (simp add: ct_AddSystem_def Let_def) (simp add: ct_new_def)
  have body: "is_body (ct_systems ?c 0) = TimerSys (sy_new (timer_ops 0 0) d)" by (simp add: new_body_def)
  have "find_walk (pl_nodes l) (\<lambda>n. body_catalog (is_body (ct_systems ?c (pn_data (pl_nodes l n)))) = INTERVAL_TIMER) None (Some 0) = Some (None, Some 0)"
    using l(3) body by (simp add: find_walk.simps)
  then have "ct_find INTERVAL_TIMER ?c = Some (Some 0)" using l(2,3) by (simp add: ct_find_def)
  then have "timer_system ?c = Some (0, sy_new (timer_ops 0 0) d)" using body by (simp add: timer_system_def)
  moreover have "pl_iterate l = Some [0]" using l(2,3) by (simp add: pl_iterate_def iterate.simps)
  ultimately have "only_timers ?c (sy_new (timer_ops 0 0) d)" by (simp add: only_timers_def)
  then show ?thesis using add by blast
qed

lemma wd_new_ok:
  assumes "server_ok b sv"
  shows "\<exists>w. wd_new d memory limit active queued sv compid now = Some w \<and> world_inv b [] w \<and> gm_server w = sv \<and> gm_compid w = compid \<and>
    wd_limit w = limit \<and> gm_time w = now \<and> wd_sessions w = [] \<and> lq_items (wd_add w) = []"
proof -
  obtain c where c: "ct_AddSystem d INTERVAL_TIMER 0 (ct_new memory) = Some (True, c)" "only_timers c (sy_new (timer_ops 0 0) d)"
    using new_container by blast
  obtain w :: "'a world" where w: "w = \<lparr>gm_server = sv, gm_objs = Map.empty, gm_ecs = c, gm_compid = compid, gm_time = now, wd_next = 0, wd_sessions = [],
       wd_disconnects = [], wd_add = lq_new, wd_queue = [], wd_limit = limit, wd_maxactive = active, wd_maxqueued = queued\<rparr>" by simp
  have "timers_ok w" by (rule new_world_timers [OF c(2)]) (simp_all add: w)
  then have "world_inv b [] w"
    using assms by (simp add: world_inv_def world_rest_def game_ok_def wd_refs_def w lq_new_def online_def)
  moreover have "wd_new d memory limit active queued sv compid now = Some w" using c(1) by (simp add: wd_new_def w)
  ultimately show ?thesis by (simp add: w lq_new_def)
qed

lemma accept_ok:
  assumes inv: "world_inv b [] w" and sock: "(ks_conv (sv_objs (gm_server w) sock), sock) \<in> set (sv_sessions (gm_server w))"
  shows "\<exists>w'. wd_accept i sock junk w = Some w' \<and> world_inv b [] w' \<and> lq_items (wd_add w') = lq_items (wd_add w) @ [wd_next w]"
proof -
  let ?x = "wd_next w" and ?t = "ws_new i sock (gm_time w) (fst junk) (snd junk)"
  have r: "world_rest b w" "dom (gm_objs w) = wd_refs [] w" using inv by (simp_all add: world_inv_def)
  have fresh: "gm_objs w ?x = None" using r(1) by (auto simp: world_rest_def)
  then have nr: "?x \<notin> wd_refs [] w" using r(2) by blast
  have held: "\<not> lq_held (wd_add w)" using r(1) by (simp add: world_rest_def)
  let ?m = "(gm_objs w)(?x \<mapsto> ?t)"
  obtain w' where w': "w' = w\<lparr>gm_objs := ?m, wd_next := ?x + 1, wd_add := (wd_add w)\<lparr>lq_items := lq_items (wd_add w) @ [?x]\<rparr>\<rparr>" by simp
  have run: "wd_accept i sock junk w = Some w'"
    using held by (simp add: wd_accept_def wd_AddSession_def lq_add_def lq_lock_def lq_unlock_def w' put_session_def)
  obtain s where s: "only_timers (gm_ecs w) s" "timers_listed (gm_objs w) s" "\<forall>k < st_num (sy_data s). told_at (gm_objs w) s k"
    "\<forall>i \<in> set (timer_ids s). i < gm_compid w" using r(1) unfolding world_rest_def game_ok_def timers_ok_def by blast
  have ev: "sy_events s k \<noteq> Some ?x" for k using s(2) fresh unfolding timers_listed_def by (metis option.distinct(1))
  have "listed s ?x ?t" using ev by (simp add: listed_def ws_new_def)
  then have l: "timers_listed ?m s" using s(2) ev unfolding timers_listed_def by (auto split: if_splits)
  have t: "\<forall>k < st_num (sy_data s). told_at ?m s k" using s(3) ev unfolding told_at_def by (auto split: if_splits)
  have "timers_ok w'" unfolding timers_ok_def using s(1,4) l t by (intro exI [of _ s]) (simp add: w')
  moreover have "online ?m (gm_server w)" using r(1) sock by (auto simp: world_rest_def game_ok_def online_def ws_new_def)
  ultimately have g: "game_ok b w'" using r(1) by (simp add: game_ok_def world_rest_def w')
  have ne: "x \<noteq> ?x" if "x \<in> wd_refs [] w" for x using nr that by blast
  have "\<forall>(k, x) \<in> set (wd_sessions w). \<exists>s. ?m x = Some s \<and> ws_id s = k" "\<forall>x \<in> set (lq_items (wd_add w)). \<exists>s. ?m x = Some s \<and> \<not> ws_container s"
    using r(1) ne unfolding world_rest_def wd_refs_def by force+
  moreover have "?x \<notin> set (lq_items (wd_add w))" using nr by (simp add: wd_refs_def)
  moreover have "\<forall>x \<in> dom ?m. x < Suc ?x" using r(1) unfolding world_rest_def by (auto intro: less_SucI)
  ultimately have "world_rest b w'" using r(1) g unfolding world_rest_def by (simp add: w' ws_new_def)
  moreover have "dom (gm_objs w') = wd_refs [] w'" using r(2) by (auto simp: w' wd_refs_def)
  ultimately show ?thesis using run by (simp add: world_inv_def w')
qed

lemma packet_ok:
  assumes "world_inv b [] w" "gm_objs w x = Some s"
  shows "world_inv b [] (put_session x (ws_OnReceivePacket (gm_time w) cmd s) w)"
proof -
  have r: "world_rest b w" "dom (gm_objs w) = wd_refs [] w" using assms(1) by (simp_all add: world_inv_def)
  have "world_rest b (put_session x (ws_OnReceivePacket (gm_time w) cmd s) w)"
    by (rule put_session_rest [OF r(1) assms(2)]) (simp_all add: ws_OnReceivePacket_def same_timers_def)
  moreover have "wd_refs [] (put_session x (ws_OnReceivePacket (gm_time w) cmd s) w) = wd_refs [] w" by (simp add: wd_refs_def put_session_def)
  ultimately show ?thesis using r(2) assms(2) by (auto simp: world_inv_def)
qed

lemma poll_ok:
  assumes env: "senv_ok (we_srv env)" and inv: "world_inv b [] w"
  shows "\<exists>sv. sv_Update (we_srv env) diff (gm_server w) = Some sv \<and> world_inv b [] (w\<lparr>gm_server := sv\<rparr>)"
proof -
  let ?sv = "gm_server w"
  have h: "sv_inv b ?sv" "sv_idle ?sv" "\<not> sv_slock ?sv" and o: "online (gm_objs w) ?sv"
    using inv by (simp_all add: world_inv_def world_rest_def game_ok_def server_ok_def)
  have l: "sv_inv b (y\<lparr>sv_slock := v\<rparr>) = sv_inv b y" "sv_idle (y\<lparr>sv_slock := v\<rparr>) = sv_idle y" for v and y :: "'a server"
    by (simp_all add: sv_inv_def sv_idle_def entry_ok_def get_reader_def)
  obtain sv1 where s1: "update_alive (we_srv env) diff (sv_sessions ?sv) (?sv\<lparr>sv_slock := True\<rparr>) = Some sv1" "sv_inv b sv1" "sv_idle sv1"
    "only_flushed (?sv\<lparr>sv_slock := True\<rparr>) sv1"
    using update_alive_ok [OF env, of b "?sv\<lparr>sv_slock := True\<rparr>" "sv_sessions ?sv" diff] h l by auto
  obtain sv2 where s2: "update_sleep (we_srv env) diff None (sv1\<lparr>sv_slock := False\<rparr>) = Some sv2" "sv_inv b sv2" "sv_idle sv2"
    "only_flushed (sv1\<lparr>sv_slock := False\<rparr>) sv2"
    using update_sleep_ok [OF env, of b "sv1\<lparr>sv_slock := False\<rparr>" diff None] s1(2,3) l by auto
  have "\<not> sv_slock sv2" using s2(4) by (simp add: only_flushed_def)
  moreover have "online (gm_objs w) sv2" using o s1(4) s2(4) by (simp add: online_def only_flushed_def ks_conv_def)
  ultimately have "world_inv b [] (w\<lparr>gm_server := sv2\<rparr>)"
    using inv s2(2,3) by (simp add: world_inv_def world_rest_def game_ok_def server_ok_def wd_refs_def timers_ok_def)
  moreover have "sv_Update (we_srv env) diff ?sv = Some sv2" using h(3) s1(1) s2(1) by (simp add: sv_Update_def)
  ultimately show ?thesis by blast
qed

text \<open>Shutting down drops every player.\<close>

lemma kick_all_ok:
  assumes env: "senv_ok (we_srv env)" and b: "b < 2 ^ 31"
  shows "world_inv b [] w \<Longrightarrow> \<forall>e \<in> set m. gm_objs w (snd e) \<noteq> None \<Longrightarrow>
    \<exists>w'. kick_all env m w = Some w' \<and> world_inv b [] w' \<and> same_tables w w' \<and> gm_objs w' = gm_objs w"
proof (induction m arbitrary: w)
  case (Cons e m)
  obtain i x where e: "e = (i, x)" by (cases e)
  then obtain s where "gm_objs w x = Some s" using Cons.prems(2) by auto
  from kick_world [OF env Cons.prems(1) b this] obtain w1 where
    w1: "ws_KickPlayer (we_srv env) x w = Some w1" "world_inv b [] w1" "same_tables w w1" "gm_objs w1 = gm_objs w" by blast
  have "\<forall>e \<in> set m. gm_objs w1 (snd e) \<noteq> None" using Cons.prems(2) w1(4) by simp
  from Cons.IH [OF w1(2) this] obtain w2 where
    w2: "kick_all env m w1 = Some w2" "world_inv b [] w2" "same_tables w1 w2" "gm_objs w2 = gm_objs w1" by blast
  have "same_tables w w2" using same_tables_trans [OF w1(3) w2(3)] .
  then show ?case using e w1(1,4) w2 by simp
qed simp

lemma drop_queue_ok:
  assumes env: "senv_ok (we_srv env)" and b: "b < 2 ^ 31"
  shows "world_inv b [] w \<Longrightarrow> wd_queue w = q \<Longrightarrow> \<exists>w'. drop_queue env q w = Some w' \<and> world_inv b [] w' \<and> wd_queue w' = [] \<and>
    wd_sessions w' = wd_sessions w \<and> wd_add w' = wd_add w \<and> wd_disconnects w' = wd_disconnects w"
proof (induction q arbitrary: w)
  case (Cons x q)
  let ?w = "w\<lparr>wd_queue := q\<rparr>"
  have "world_rest b ?w" "dom (gm_objs ?w) = insert x (wd_refs [] ?w)"
    using Cons.prems by (auto simp: world_inv_def world_rest_queue wd_refs_def)
  from release_ok [OF env this(1) b this(2)] obtain w1 where w1: "wd_release env [] x ?w = Some w1" "world_inv b [] w1" "same_tables ?w w1" by blast
  have "wd_queue w1 = q" using w1(3) by (simp add: same_tables_def)
  from Cons.IH [OF w1(2) this] show ?case using w1(1,3) by (auto simp: same_tables_def)
qed simp

lemma world_rest_tail:
  assumes "world_rest b w" "wd_sessions w = e # m" shows "world_rest b (w\<lparr>wd_sessions := m\<rparr>)"
proof -
  have "game_ok b (w\<lparr>wd_sessions := m\<rparr>) = game_ok b w" by (simp add: game_ok_def timers_ok_def)
  then show ?thesis using assms by (simp add: world_rest_def)
qed

lemma drop_sessions_ok:
  assumes env: "senv_ok (we_srv env)" and b: "b < 2 ^ 31"
  shows "world_inv b [] w \<Longrightarrow> wd_sessions w = m \<Longrightarrow> \<exists>w'. drop_sessions env m w = Some w' \<and> world_inv b [] w' \<and> wd_sessions w' = [] \<and>
    wd_queue w' = wd_queue w \<and> wd_add w' = wd_add w \<and> wd_disconnects w' = wd_disconnects w"
proof (induction m arbitrary: w)
  case (Cons e m)
  obtain i x where e: "e = (i, x)" by (cases e)
  let ?w = "w\<lparr>wd_sessions := m\<rparr>"
  have "world_rest b ?w" using Cons.prems world_rest_tail [of b w e m] by (simp add: world_inv_def)
  moreover have "dom (gm_objs ?w) = insert x (wd_refs [] ?w)" using Cons.prems e by (auto simp: world_inv_def wd_refs_def)
  ultimately obtain w1 where w1: "wd_release env [] x ?w = Some w1" "world_inv b [] w1" "same_tables ?w w1"
    using release_ok [OF env _ b] by blast
  have "wd_sessions w1 = m" using w1(3) by (simp add: same_tables_def)
  from Cons.IH [OF w1(2) this] show ?case using w1(1,3) e by (auto simp: same_tables_def)
qed simp

lemma ShutDown_ok:
  assumes env: "senv_ok (we_srv env)" and inv: "world_inv b [] w" "b < 2 ^ 31"
  shows "\<exists>w'. wd_OnServerShutDown env w = Some w' \<and> world_inv b [] w' \<and> wd_sessions w' = [] \<and> wd_queue w' = [] \<and> wd_disconnects w' = [] \<and>
    wd_add w' = wd_add w \<and> dom (gm_objs w') = set (lq_items (wd_add w))"
proof -
  have "\<forall>e \<in> set (wd_sessions w). gm_objs w (snd e) \<noteq> None" using inv(1) by (fastforce simp: world_inv_def world_rest_def)
  from kick_all_ok [OF env inv(2,1) this] obtain w1 where
    w1: "kick_all env (wd_sessions w) w = Some w1" "world_inv b [] w1" "same_tables w w1" by blast
  let ?w = "w1\<lparr>wd_disconnects := []\<rparr>"
  have inv2: "world_inv b [] ?w" using w1(2) by (simp add: world_inv_def world_rest_disconnects wd_refs_def)
  obtain w2 where w2: "drop_queue env (wd_queue ?w) ?w = Some w2" "world_inv b [] w2" "wd_queue w2 = []" "wd_sessions w2 = wd_sessions ?w"
    "wd_add w2 = wd_add ?w" "wd_disconnects w2 = []" using drop_queue_ok [OF env inv(2) inv2 refl] by auto
  obtain w3 where w3: "drop_sessions env (wd_sessions w2) w2 = Some w3" "world_inv b [] w3" "wd_sessions w3 = []" "wd_queue w3 = wd_queue w2"
    "wd_add w3 = wd_add w2" "wd_disconnects w3 = wd_disconnects w2" using drop_sessions_ok [OF env inv(2) w2(2) refl] by blast
  have "wd_OnServerShutDown env w = Some w3" using w1(1) w2(1) w3(1) by (simp add: wd_OnServerShutDown_def Let_def)
  moreover have "wd_add w3 = wd_add w" using w3(5) w2(5) w1(3) by (simp add: same_tables_def)
  moreover have "dom (gm_objs w3) = set (lq_items (wd_add w3))" using w3(2-4) w2(3) by (simp add: world_inv_def wd_refs_def)
  ultimately show ?thesis using w3(2-4,6) w2(3,6) by simp
qed

end
