(* ===== verification/World_Properties.thy ===== *)
theory World_Properties
  imports World_Inv Server_Properties
begin

text \<open>
  What the world promises: no operation reaches a destroyed session or a timer that has moved,
  whatever happens in whatever order; who gets the place of a player that leaves; and where the
  code does not do what its comments say.
\<close>

section \<open>The world as a state machine\<close>

text \<open>
  \<open>Accepted\<close>: the network hands over a new connection.  \<open>Packet\<close>: a packet for a session arrives.
  \<open>Polled\<close>: the socket server's update.  \<open>Clock\<close>: the game time moves.  The others are calls of the world.
\<close>

datatype world_event = Accepted u32 nat "u32 \<times> u32" | Packet nat u16 | Polled u32 | Clock int | Ticked u32 | Kicked u32 | Closing

fun world_step :: "'a world_env \<Rightarrow> world_event \<Rightarrow> 'a world \<Rightarrow> 'a world option" where
  "world_step env (Accepted i sock junk) w = wd_accept i sock junk w"
| "world_step env (Packet x cmd) w = map_option (\<lambda>s. put_session x (ws_OnReceivePacket (gm_time w) cmd s) w) (gm_objs w x)"
| "world_step env (Polled diff) w = map_option (\<lambda>sv. w\<lparr>gm_server := sv\<rparr>) (sv_Update (we_srv env) diff (gm_server w))"
| "world_step env (Clock t) w = Some (w\<lparr>gm_time := t\<rparr>)"
| "world_step env (Ticked diff) w = wd_Update env diff w"
| "world_step env (Kicked i) w = map_option snd (wd_RemoveSession env i w)"
| "world_step env Closing w = wd_OnServerShutDown env w"

text \<open>
  What the surroundings have to respect: a connection that is handed over is one of the server's, a
  packet is for a live session, and neither the packets that wait in a socket (at most \<open>b\<close> so far) nor
  the component ids run out.
\<close>

fun event_ok :: "nat \<Rightarrow> world_event \<Rightarrow> 'a world \<Rightarrow> bool" where
  "event_ok b (Accepted i sock junk) w \<longleftrightarrow> (ks_conv (sv_objs (gm_server w) sock), sock) \<in> set (sv_sessions (gm_server w))"
| "event_ok b (Packet x cmd) w \<longleftrightarrow> x \<in> wd_refs [] w"
| "event_ok b (Ticked diff) w \<longleftrightarrow> b + 127 * world_load w < 2 ^ 31 \<and> unat (gm_compid w) + 2 * length (lq_items (wd_add w)) < 0xFFFFFFF0"
| "event_ok b (Kicked i) w \<longleftrightarrow> b < 2 ^ 31"
| "event_ok b Closing w \<longleftrightarrow> b < 2 ^ 31"
| "event_ok b e w \<longleftrightarrow> True"

fun event_cost :: "world_event \<Rightarrow> 'a world \<Rightarrow> nat" where
  "event_cost (Ticked diff) w = 127 * world_load w"
| "event_cost e w = 0"

inductive world_reach :: "'a world_env \<Rightarrow> nat \<Rightarrow> 'a world \<Rightarrow> nat \<Rightarrow> 'a world \<Rightarrow> bool" for env b0 w0 where
  begins: "world_reach env b0 w0 b0 w0"
| moves: "world_reach env b0 w0 b w \<Longrightarrow> event_ok b e w \<Longrightarrow> world_step env e w = Some w' \<Longrightarrow>
    world_reach env b0 w0 (b + event_cost e w) w'"

lemma clock_inv: "world_inv b held (w\<lparr>gm_time := t\<rparr>) = world_inv b held w"
  by (simp add: world_inv_def world_rest_def game_ok_def timers_ok_def wd_refs_def)

lemma step_total:
  assumes env: "senv_ok (we_srv env)" "order_ok env" and inv: "world_inv b [] w" and e: "event_ok b e w"
  shows "\<exists>w'. world_step env e w = Some w' \<and> world_inv (b + event_cost e w) [] w'"
proof (cases e)
  case (Accepted i sock junk)
  then show ?thesis using accept_ok [OF inv, of sock i junk] e by auto
next
  case (Packet x cmd)
  then obtain s where "gm_objs w x = Some s" using e inv by (auto simp: world_inv_def)
  then show ?thesis using packet_ok [OF inv, of x s cmd] Packet by simp
next
  case (Polled diff)
  then show ?thesis using poll_ok [OF env(1) inv, of diff] by auto
next
  case (Clock t)
  then show ?thesis using inv by (simp add: clock_inv)
next
  case (Ticked diff)
  then show ?thesis using Update_ok [OF env inv, of diff] e by auto
next
  case (Kicked i)
  then have "b < 2 ^ 31" using e by simp
  then show ?thesis using RemoveSession_ok [OF env(1) inv, of i] Kicked by auto
next
  case Closing
  then have "b < 2 ^ 31" using e by simp
  then show ?thesis using ShutDown_ok [OF env(1) inv] Closing by auto
qed

lemma reach_inv:
  assumes "senv_ok (we_srv env)" "order_ok env" "world_inv b0 [] w0" "world_reach env b0 w0 b w"
  shows "world_inv b [] w"
  using assms(4)
proof (induction rule: world_reach.induct)
  case (moves b w e w')
  then show ?case using step_total [OF assms(1,2) moves.IH moves.hyps(2)] by auto
qed (use assms in simp)

text \<open>A pointer of a session leads to the timer with the id and the interval of the session.\<close>

definition leads_to :: "system_container \<Rightarrow> (nat \<times> nat) option \<Rightarrow> u32 \<Rightarrow> int \<Rightarrow> bool" where
  "leads_to c com i v \<longleftrightarrow> (case com of None \<Rightarrow> True
     | Some p \<Rightarrow> (case timer_at p c of None \<Rightarrow> False | Some t \<Rightarrow> cm_id t = i \<and> it_interval t = v))"

lemma inv_leads:
  assumes "world_inv b held w" "gm_objs w x = Some s"
  shows "leads_to (gm_ecs w) (ws_timer s) (ws_timerid s) WORLD_SESSION_UPDATE_INTERVAL \<and>
    leads_to (gm_ecs w) (ws_hb s) (ws_hbid s) HEART_BEAT_INTERVAL"
proof -
  obtain sy where sy: "only_timers (gm_ecs w) sy" "timers_listed (gm_objs w) sy" "\<forall>k < st_num (sy_data sy). told_at (gm_objs w) sy k"
    using assms(1) unfolding world_inv_def world_rest_def game_ok_def timers_ok_def by blast
  show ?thesis using session_points [OF sy(2,3) assms(2)]
    by (auto simp: leads_to_def timer_at_alt [OF sy(1)] points_def split: option.splits)
qed


text \<open>A world on the demonstration server: player 7 plays, players 8 and 9 wait; there is one place.\<close>

definition demo_wenv :: "packet_log world_env" where
  "demo_wenv = \<lparr>we_srv = demo_env, we_order = id, we_dorder = id, we_junk = (0, 0)\<rparr>"

definition demo_ecs :: system_container where
  "demo_ecs = snd (the (ct_AddSystem False INTERVAL_TIMER 0
     (ct_new (\<lambda>_. \<lparr>is_priority = 0, is_enabled = True, is_body = new_body False MOVEMENT\<rparr>))))"

definition demo_player :: "u32 \<Rightarrow> bool \<Rightarrow> world_session" where
  "demo_player i waiting = ws_SetInQueue waiting (ws_new i 0 1000 0 0)"

definition demo_world :: "packet_log world" where
  "demo_world = \<lparr>gm_server = open_server, gm_objs = [0 \<mapsto> demo_player 7 False, 1 \<mapsto> demo_player 8 True, 2 \<mapsto> demo_player 9 True],
     gm_ecs = demo_ecs, gm_compid = 0, gm_time = 1010, wd_next = 3, wd_sessions = [(7, 0), (8, 1), (9, 2)], wd_disconnects = [],
     wd_add = lq_new, wd_queue = [1, 2], wd_limit = 1, wd_maxactive = 1, wd_maxqueued = 2\<rparr>"

lemma demo_wenv_ok: "senv_ok (we_srv demo_wenv)" "order_ok demo_wenv"
  using demo_env_ok by (simp_all add: demo_wenv_def order_ok_def)

lemma demo_ecs_timers: "only_timers demo_ecs (sy_new (timer_ops 0 0) False)"
  using new_container [of False "\<lambda>_. \<lparr>is_priority = 0, is_enabled = True, is_body = new_body False MOVEMENT\<rparr>"] by (auto simp: demo_ecs_def)

lemma open_server_conv: "ks_conv (sv_objs open_server 0) = 0x10000"
  using demo_session_new by (auto simp: open_server_sel ks_conv_def)

lemma online_open: "(\<And>x s. m x = Some s \<Longrightarrow> ws_sock s = 0) \<Longrightarrow> online m open_server"
  using open_server_conv by (simp add: online_def open_server_sel)

lemma no_timers_ok:
  assumes "gm_ecs w = demo_ecs" "\<And>x s. gm_objs w x = Some s \<Longrightarrow> ws_timer s = None \<and> ws_hb s = None"
  shows "timers_ok w"
  unfolding timers_ok_def using demo_ecs_timers assms
  by (intro exI [of _ "sy_new (timer_ops 0 0) False"])
    (auto simp: timers_listed_def listed_def sy_new_def timer_ids_def stable_inv_new, auto simp: sa_new_def)

lemma demo_player_sel:
  "ws_sock (demo_player i b) = 0" "ws_id (demo_player i b) = i" "ws_timer (demo_player i b) = None" "ws_hb (demo_player i b) = None"
  "ws_inqueue (demo_player i b) = b" "ws_timeout (demo_player i b) = 1018" "\<not> ws_container (demo_player i b)"
  by (simp_all add: demo_player_def ws_SetInQueue_def ws_new_def WORLD_SESSION_TIMEOUT_def)

lemma demo_world_inv: "world_inv 0 [] demo_world"
proof -
  have "timers_ok demo_world" by (rule no_timers_ok) (auto simp: demo_world_def demo_player_sel split: if_splits)
  moreover have "online (gm_objs demo_world) open_server" by (rule online_open) (auto simp: demo_world_def demo_player_sel split: if_splits)
  ultimately have "game_ok 0 demo_world" using open_server_ok by (simp add: game_ok_def) (simp add: demo_world_def)
  then show ?thesis by (auto simp: world_inv_def world_rest_def demo_world_def wd_refs_def lq_new_def demo_player_sel)
qed


section \<open>Who gets the place\<close>

lemma erase_key_length: "k \<in> fst ` set m \<Longrightarrow> length (erase_key k m) = length m - 1"
proof (induction k m rule: erase_key.induct)
  case (2 k k' v m)
  show ?case
  proof (cases "k' = k")
    case False
    then have k: "k \<in> fst ` set m" using "2.prems" by simp
    then have "0 < length m" by (cases m) auto
    then show ?thesis using "2.IH" [OF False k] False by simp
  qed simp
qed simp

text \<open>The counters, as long as there are fewer than \<open>2 ^ 32\<close> sessions.\<close>

lemma of_nat_difference: "a \<le> b \<Longrightarrow> word_of_int (int b - int a) = of_nat (b - a)"
  by (simp add: of_nat_diff [symmetric] del: of_nat_diff)

lemma active_count:
  assumes "length (wd_queue w) \<le> length (wd_sessions w)" "length (wd_sessions w) < 2 ^ 32"
  shows "unat (wd_GetActiveSessionCount w) = length (wd_sessions w) - length (wd_queue w)"
proof -
  obtain d where d: "d = length (wd_sessions w) - length (wd_queue w)" by simp
  have "wd_GetActiveSessionCount w = of_nat d"
    unfolding wd_GetActiveSessionCount_def d by (rule of_nat_difference [OF assms(1)])
  moreover have "d < 2 ^ 32" using assms(2) d by linarith
  ultimately show ?thesis by (simp add: d [symmetric] unsigned_of_nat take_bit_nat_eq_self_iff)
qed

lemma free_when:
  assumes "length (wd_queue w) \<le> length (wd_sessions w)" "length (wd_sessions w) < 2 ^ 32" "wd_limit w \<noteq> 0"
  shows "place_free x w \<longleftrightarrow>
    length (wd_sessions w) - length (wd_queue w) - (if x \<in> set (wd_queue w) then 0 else 1) < unat (wd_limit w)"
proof -
  let ?n = "wd_GetActiveSessionCount w"
  have c: "unat ?n = length (wd_sessions w) - length (wd_queue w)" by (rule active_count [OF assms(1,2)])
  have "?n \<noteq> 0 \<Longrightarrow> unat (?n - 1) = unat ?n - 1" by (simp add: unat_minus_one)
  moreover have "?n = 0 \<Longrightarrow> unat ?n - 1 = 0" by simp
  ultimately show ?thesis using c assms(3) by (auto simp: place_free_def Let_def word_less_nat_alt)
qed

lemma full_queue_after:
  assumes q: "length (wd_queue w) \<le> length (wd_sessions w)" "length (wd_sessions w) < 2 ^ 32" "distinct (wd_queue w)"
    and full: "length (wd_sessions w) - length (wd_queue w) = unat (wd_limit w)" "wd_limit w \<noteq> 0"
  shows "queue_after x (w\<lparr>wd_queue := queue_after x w\<rparr>) = (if x \<in> set (wd_queue w) then remove1 x (wd_queue w) else tl (wd_queue w))"
proof (cases "x \<in> set (wd_queue w)")
  case True
  let ?q = "remove1 x (wd_queue w)" and ?w = "w\<lparr>wd_queue := remove1 x (wd_queue w)\<rparr>"
  have "\<not> place_free x w" using free_when [OF q(1,2) full(2), of x] full(1) True by simp
  then have a: "queue_after x w = ?q" by (simp add: queue_after_def)
  have x: "x \<notin> set ?q" using q(3) by simp
  have len: "length ?q + 1 = length (wd_queue w)" using True by (simp add: length_remove1) (metis Suc_pred length_pos_if_in_set)
  have "\<not> place_free x ?w" using free_when [of ?w x] q(1,2) full len x by simp
  then show ?thesis using a True x by (simp add: queue_after_def remove1_idem)
next
  case False
  have "place_free x w" using free_when [OF q(1,2) full(2), of x] full False by (simp add: unat_gt_0)
  then have a: "queue_after x w = tl (wd_queue w)" using False by (simp add: queue_after_def remove1_idem)
  have x: "x \<notin> set (tl (wd_queue w))" using False by (cases "wd_queue w") auto
  show ?thesis
  proof (cases "wd_queue w")
    case Nil
    then show ?thesis using a by (simp add: queue_after_def)
  next
    case (Cons p r)
    let ?w = "w\<lparr>wd_queue := r\<rparr>"
    have "length (wd_queue ?w) \<le> length (wd_sessions ?w)" "length (wd_sessions w) - length r - 1 = unat (wd_limit w)" "x \<notin> set r"
      using q(1) full(1) Cons x by simp_all
    then have "\<not> place_free x ?w" using free_when [of ?w x] q(2) full(2) by simp
    then show ?thesis using a False Cons x by (simp add: queue_after_def remove1_idem)
  qed
qed

text \<open>
  C16. The queue is fair and never over-admits: when a player leaves a full world, exactly the player at
  the head of the queue gets the place, although the departure runs \<open>RemoveQueuedPlayer\<close> twice; when a
  waiting player leaves, nobody is let in; and who still waits keeps the order.
\<close>

theorem departure_admits_one:
  assumes "senv_ok (we_srv env)" and "world_inv b held w" and "b < 2 ^ 31" and "(i, x) \<in> set (wd_sessions w)"
    and "distinct (wd_queue w)" and "length (wd_queue w) \<le> length (wd_sessions w)" and "length (wd_sessions w) < 2 ^ 32"
    and "wd_limit w \<noteq> 0" and "length (wd_sessions w) - length (wd_queue w) = unat (wd_limit w)"
  shows "\<exists>w'. wd_depart env held i x w = Some w' \<and>
    wd_queue w' = (if x \<in> set (wd_queue w) then remove1 x (wd_queue w) else tl (wd_queue w)) \<and>
    length (wd_sessions w') = length (wd_sessions w) - 1 \<and>
    (x \<in> set (wd_queue w) \<or> wd_queue w \<noteq> [] \<longrightarrow> length (wd_sessions w') - length (wd_queue w') = unat (wd_limit w))"
proof -
  obtain w' where w': "wd_depart env held i x w = Some w'" "wd_sessions w' = erase_key i (wd_sessions w)"
    "wd_queue w' = queue_after x (w\<lparr>wd_queue := queue_after x w\<rparr>)" using depart_ok [OF assms(1-4)] by blast
  note q = full_queue_after [OF assms(6,7,5,9,8), of x]
  have "distinct (map fst (wd_sessions w))" using assms(2) by (simp add: world_inv_def world_rest_def)
  then have len: "length (erase_key i (wd_sessions w)) = length (wd_sessions w) - 1"
    using assms(4) erase_key_length by force
  have "x \<in> set (wd_queue w) \<Longrightarrow> length (remove1 x (wd_queue w)) = length (wd_queue w) - 1" by (simp add: length_remove1)
  moreover have "x \<in> set (wd_queue w) \<Longrightarrow> 0 < length (wd_queue w)" by (cases "wd_queue w") auto
  ultimately show ?thesis using w' q len assms(6,9) by (intro exI [of _ w']) (auto simp: neq_Nil_conv)
qed

lemma demo_world_sel:
  "wd_queue demo_world = [1, 2]" "wd_sessions demo_world = [(7, 0), (8, 1), (9, 2)]" "wd_limit demo_world = 1"
  "gm_objs demo_world = [0 \<mapsto> demo_player 7 False, 1 \<mapsto> demo_player 8 True, 2 \<mapsto> demo_player 9 True]" "gm_time demo_world = 1010"
  "wd_disconnects demo_world = []"
  by (simp_all add: demo_world_def)

theorem departure_admits_one_witness:
  "\<exists>w'. wd_depart demo_wenv [] 7 0 demo_world = Some w' \<and> wd_queue w' = [2]"
  using departure_admits_one [OF demo_wenv_ok(1) demo_world_inv, of 7 0] by (auto simp: demo_world_sel)

text \<open>
  A player that has waited is never timed out: when the head of the queue gets the place of a player that
  leaves, its flag stays as it was when it was put into the queue, and with the flag set no game
  time at all makes its connection idle.
\<close>

theorem admitted_never_idle:
  assumes "senv_ok (we_srv env)" and "world_inv b held w" and "b < 2 ^ 31" and "(i, x) \<in> set (wd_sessions w)" and "x \<notin> set (wd_queue w)"
    and "wd_queue w = p # q" and "distinct (wd_queue w)" and "length (wd_queue w) \<le> length (wd_sessions w)" and "length (wd_sessions w) < 2 ^ 32"
    and "wd_limit w \<noteq> 0" and "length (wd_sessions w) - length (wd_queue w) = unat (wd_limit w)"
    and "(k, p) \<in> set (wd_sessions w)" and "gm_objs w p = Some (ws_SetInQueue True s)"
  shows "\<exists>w'. wd_depart env held i x w = Some w' \<and> p \<notin> set (wd_queue w') \<and> (k, p) \<in> set (wd_sessions w') \<and>
    gm_objs w' p = Some (ws_SetInQueue True s) \<and> (\<forall>now. \<not> ws_IsConnectionIdle now (ws_SetInQueue True s))"
proof -
  obtain w' where w': "wd_depart env held i x w = Some w'" "world_inv b held w'" "wd_sessions w' = erase_key i (wd_sessions w)"
    "wd_queue w' = queue_after x (w\<lparr>wd_queue := queue_after x w\<rparr>)" "\<forall>y \<in> dom (gm_objs w'). y \<noteq> x \<longrightarrow> gm_objs w' y = gm_objs w y"
    using depart_ok [OF assms(1-4)] by blast
  have px: "p \<noteq> x" using assms(5,6) by auto
  have ids: "(j, y) \<in> set (wd_sessions w) \<Longrightarrow> \<exists>s. gm_objs w y = Some s \<and> ws_id s = j" for j y
    using assms(2) unfolding world_inv_def world_rest_def by fast
  have dist: "distinct (map fst (wd_sessions w))" using assms(2) by (simp add: world_inv_def world_rest_def)
  have "k \<noteq> i" using assms(4,12) px dist by (metis map_of_is_SomeI option.inject)
  then have mem: "(k, p) \<in> set (wd_sessions w')" using w'(3) set_erase_key [OF dist] assms(12) by simp
  then have "p \<in> dom (gm_objs w')" using w'(2) unfolding world_inv_def world_rest_def by fast
  then have "gm_objs w' p = Some (ws_SetInQueue True s)" using w'(5) px assms(13) by simp
  moreover have "p \<notin> set (wd_queue w')" using w'(4) full_queue_after [OF assms(8,9,7,11,10), of x] assms(5,6,7) by simp
  ultimately show ?thesis using w'(1) mem by (auto simp: ws_IsConnectionIdle_def ws_SetInQueue_def)
qed

theorem admitted_never_idle_witness:
  "\<exists>w'. wd_depart demo_wenv [] 7 0 demo_world = Some w' \<and> 1 \<notin> set (wd_queue w') \<and> gm_objs w' 1 = Some (demo_player 8 True)"
  using admitted_never_idle [OF demo_wenv_ok(1) demo_world_inv, of 7 0 1 "[2]" 8 "ws_new 8 0 1000 0 0"]
  by (auto simp: demo_world_sel demo_player_def)

section \<open>Coming back\<close>

lemma scan_past:
  "\<forall>(k, t) \<in> set m. t \<le> now \<Longrightarrow> scan_disconnects now i m = (i \<in> fst ` set m, m)"
  by (induction now i m rule: scan_disconnects.induct) (auto simp: Let_def)

text \<open>
  C29. The record of disconnected players never expires: the test compares the past moment with now instead of the
  difference with the limit, so a player that has ever left is let in at once, over the limit, and
  no entry is ever erased.
\<close>

theorem returning_player_skips_queue:
  assumes "\<forall>(k, t) \<in> set (wd_disconnects w). t \<le> gm_time w" and "i \<in> fst ` set (wd_disconnects w)"
  shows "wd_place x i w = Some (wd_UpdateMaxSessionCounters w) \<and> wd_HasRecentlyDisconnected i w = (True, w)"
proof -
  have "scan_disconnects (gm_time w) i (wd_disconnects w) = (True, wd_disconnects w)" using scan_past [OF assms(1), of i] assms(2) by simp
  then have "wd_HasRecentlyDisconnected i w = (True, w)" by (simp add: wd_HasRecentlyDisconnected_def)
  then show ?thesis by (simp add: wd_place_def Let_def)
qed

theorem returning_player_skips_queue_witness:
  "wd_place 5 7 (demo_world\<lparr>wd_disconnects := [(7, 3)]\<rparr>) = Some (wd_UpdateMaxSessionCounters (demo_world\<lparr>wd_disconnects := [(7, 3)]\<rparr>))"
  using returning_player_skips_queue [of "demo_world\<lparr>wd_disconnects := [(7, 3)]\<rparr>" 7 5] by (simp add: demo_world_sel)

text \<open>
  A waiting player that reconnects takes a second place in the queue: the old session stays in it, the number of
  sessions stays, and the count of active players drops by one, below zero when nobody is active.
\<close>

theorem reconnecting_waits_twice:
  assumes "senv_ok (we_srv env)" and "order_ok env" and "world_inv b [x] w" and "b < 2 ^ 31"
    and "gm_objs w x = Some s" and "\<not> ws_container s" and "x \<notin> set (lq_items (wd_add w))" and "gm_compid w < 0xFFFFFFF0"
    and "(ws_id s, y) \<in> set (wd_sessions w)" and "ws_id s \<notin> fst ` set (wd_disconnects w)" and "\<forall>(k, t) \<in> set (wd_disconnects w). t \<le> gm_time w"
    and "wd_limit w \<noteq> 0" and "unat (wd_limit w) < length (wd_sessions w)" and "length (wd_sessions w) < 2 ^ 32"
  shows "\<exists>w'. wd_AddSession_impl env x w = Some w' \<and> wd_queue w' = wd_queue w @ [x] \<and> length (wd_sessions w') = length (wd_sessions w) \<and>
    wd_GetActiveSessionCount w' = wd_GetActiveSessionCount w - 1"
proof -
  obtain w' v s' where w': "wd_AddSession_impl env x w = Some w'" "wd_place x (ws_id s) v = Some w'"
    "wd_sessions v = map_assign (we_order env) (ws_id s) x (wd_sessions w)" "wd_queue v = wd_queue w" "wd_disconnects v = wd_disconnects w"
    "wd_limit v = wd_limit w" "gm_time v = gm_time w" "gm_objs v x = Some s'"
    using AddSession_impl_ok [OF assms(1-8)] by blast
  have ord: "\<forall>m. mset (we_order env m) = mset m" and dist: "distinct (map fst (wd_sessions w))"
    using assms(2,3) by (simp_all add: order_ok_def world_inv_def world_rest_def)
  have "ws_id s \<in> fst ` set (wd_sessions w)" using assms(9) by force
  then have len: "length (wd_sessions v) = length (wd_sessions w)" using map_assign_ok(3) [OF ord dist] w'(3) by simp
  obtain n where n: "length (wd_sessions w) = Suc n" using assms(13) by (cases "length (wd_sessions w)") auto
  have "unat (of_nat (Suc n) - 1 :: u32) = n" using assms(14) n by (simp add: unsigned_of_nat take_bit_nat_eq_self_iff)
  then have "wd_GetActiveAndQueuedSessionCount v - 1 \<ge> wd_limit w"
    using assms(13) len n by (simp add: wd_GetActiveAndQueuedSessionCount_def word_le_nat_alt)
  moreover have "wd_HasRecentlyDisconnected (ws_id s) v = (False, v)"
    using scan_past [of "wd_disconnects v" "gm_time v" "ws_id s"] assms(10,11) w'(5,7) by (simp add: wd_HasRecentlyDisconnected_def)
  ultimately have "w' = wd_UpdateMaxSessionCounters ((put_session x (ws_SetInQueue True s') v)\<lparr>wd_queue := wd_queue v @ [x]\<rparr>)"
    using w'(2,6,8) assms(12) by (simp add: wd_place_def Let_def wd_AddQueuedPlayer_def word_gt_0)
  then have q: "wd_queue w' = wd_queue w @ [x]" "wd_sessions w' = wd_sessions v"
    using w'(4) by (simp_all add: wd_UpdateMaxSessionCounters_def put_session_def)
  have "word_of_int (int (length (wd_sessions w)) - int (length (wd_queue w @ [x]))) =
      (word_of_int (int (length (wd_sessions w)) - int (length (wd_queue w))) - 1 :: u32)"
    by (simp add: wi_hom_sub [symmetric] algebra_simps)
  then show ?thesis using w'(1) q len by (simp add: wd_GetActiveSessionCount_def)
qed

text \<open>Player 5 waits although nobody is active, and connects again: the session of the new connection is object 3.\<close>

definition demo_waiting :: "packet_log world" where
  "demo_waiting = \<lparr>gm_server = open_server, gm_objs = [1 \<mapsto> demo_player 8 True, 2 \<mapsto> demo_player 9 True, 3 \<mapsto> ws_new 8 0 1000 0 0],
     gm_ecs = demo_ecs, gm_compid = 0, gm_time = 1010, wd_next = 4, wd_sessions = [(8, 1), (9, 2)], wd_disconnects = [],
     wd_add = lq_new, wd_queue = [1, 2], wd_limit = 1, wd_maxactive = 1, wd_maxqueued = 2\<rparr>"

lemma ws_new_sel:
  "ws_sock (ws_new i k t a c) = k" "ws_id (ws_new i k t a c) = i" "ws_timer (ws_new i k t a c) = None" "ws_hb (ws_new i k t a c) = None"
  "\<not> ws_container (ws_new i k t a c)"
  by (simp_all add: ws_new_def)

lemma demo_waiting_inv: "world_inv 0 [3] demo_waiting"
proof -
  have "timers_ok demo_waiting" by (rule no_timers_ok) (auto simp: demo_waiting_def demo_player_sel ws_new_sel split: if_splits)
  moreover have "online (gm_objs demo_waiting) open_server" by (rule online_open) (auto simp: demo_waiting_def demo_player_sel ws_new_sel split: if_splits)
  ultimately have "game_ok 0 demo_waiting" using open_server_ok by (simp add: game_ok_def) (simp add: demo_waiting_def)
  then show ?thesis by (auto simp: world_inv_def world_rest_def demo_waiting_def wd_refs_def lq_new_def demo_player_sel ws_new_sel)
qed

lemma demo_waiting_sel:
  "wd_queue demo_waiting = [1, 2]" "wd_sessions demo_waiting = [(8, 1), (9, 2)]" "wd_limit demo_waiting = 1"
  "gm_objs demo_waiting = [1 \<mapsto> demo_player 8 True, 2 \<mapsto> demo_player 9 True, 3 \<mapsto> ws_new 8 0 1000 0 0]" "gm_time demo_waiting = 1010"
  "wd_disconnects demo_waiting = []" "lq_items (wd_add demo_waiting) = []" "gm_compid demo_waiting = 0"
  by (simp_all add: demo_waiting_def lq_new_def)

theorem reconnecting_waits_twice_witness:
  "\<exists>w'. wd_AddSession_impl demo_wenv 3 demo_waiting = Some w' \<and> wd_queue w' = [1, 2, 3] \<and> length (wd_sessions w') = 2 \<and>
    wd_GetActiveSessionCount w' = 0xFFFFFFFF"
  using reconnecting_waits_twice [OF demo_wenv_ok demo_waiting_inv, of "ws_new 8 0 1000 0 0" 1]
  by (auto simp: demo_waiting_sel ws_new_sel wd_GetActiveSessionCount_def)

section \<open>Going away\<close>

lemma nobody_pending: "\<not> lq_held (wd_add w) \<Longrightarrow> lq_items (wd_add w) = [] \<Longrightarrow> add_pending env None w = Some (None, w)"
  by (subst add_pending.simps) (simp add: lq_next_def)

text \<open>
  C18. Silent players are dropped: one update of the world, with no connection to add, removes the entry of every player whose
  connection is idle, and leaves a well-formed world.
\<close>

theorem idle_players_dropped:
  assumes "senv_ok (we_srv env)" and "world_inv b [] w" and "b + 127 * length (wd_sessions w) < 2 ^ 31" and "lq_items (wd_add w) = []"
  shows "\<exists>w'. wd_Update env diff w = Some w' \<and> world_inv (b + 127 * length (wd_sessions w)) [] w' \<and>
    (\<forall>(i, x) \<in> set (wd_sessions w). \<forall>s. gm_objs w x = Some s \<longrightarrow> ws_IsConnectionIdle (gm_time w) s \<longrightarrow> wd_FindSession i w' = None)"
proof -
  have r: "distinct (map fst (wd_sessions w))" "\<not> lq_held (wd_add w)" using assms(2) by (simp_all add: world_inv_def world_rest_def)
  obtain v where v: "update_sessions env [] (wd_sessions w) w = Some v" "world_inv (b + 127 * length (wd_sessions w)) [] v"
    "\<forall>(i, x) \<in> set (wd_sessions w). \<forall>s. gm_objs w x = Some s \<longrightarrow> ws_IsConnectionIdle (gm_time w) s \<longrightarrow> i \<notin> fst ` set (wd_sessions v)"
    using update_sessions_ok [OF assms(1,2,3) subset_refl r(1)] by blast
  have "wd_UpdateSessions env w = Some v"
    using nobody_pending [OF r(2) assms(4)] v(1) by (simp add: wd_UpdateSessions_def held_by_def wd_release_old_def)
  moreover have "timers_ok v" using v(2) by (simp add: world_inv_def world_rest_def game_ok_def)
  moreover from OnUpdate_ok [OF this, of "sint diff"] obtain c where "ct_OnUpdate (sint diff) (gm_ecs v) = Some c" "timers_ok (v\<lparr>gm_ecs := c\<rparr>)" by blast
  moreover from this have "world_inv (b + 127 * length (wd_sessions w)) [] (v\<lparr>gm_ecs := c\<rparr>)"
    using v(2) by (simp add: world_inv_def world_rest_def game_ok_def wd_refs_def)
  ultimately show ?thesis using v(3)
    by (intro exI [of _ "v\<lparr>gm_ecs := c\<rparr>"] conjI) (auto simp: wd_Update_def wd_FindSession_def map_of_eq_None_iff)
qed

theorem idle_players_dropped_witness:
  "\<exists>w'. wd_Update demo_wenv 50 (demo_world\<lparr>gm_time := 2000\<rparr>) = Some w' \<and> wd_FindSession 7 w' = None"
proof -
  have "world_inv 0 [] (demo_world\<lparr>gm_time := 2000\<rparr>)" using demo_world_inv by (simp only: clock_inv)
  from idle_players_dropped [OF demo_wenv_ok(1) this, of 50] show ?thesis
    by (auto simp: demo_world_def lq_new_def ws_IsConnectionIdle_def demo_player_sel)
qed

text \<open>
  The timers of a session that is destroyed stay: its destructor unregisters the events but every component of the timer
  system is still in its place, with its id, and goes on being updated.
\<close>

theorem destroyed_sessions_leave_timers:
  assumes "senv_ok env" and "game_ok b w" and "b < 2 ^ 31" and "gm_objs w x = Some s"
  shows "\<exists>w'. ws_destroy env x w = Some w' \<and> gm_objs w' x = None \<and> (\<forall>p. timer_at p (gm_ecs w') = timer_at p (gm_ecs w))"
proof -
  obtain sv where k: "ws_KickPlayer env x w = Some (w\<lparr>gm_server := sv\<rparr>)" "game_ok b (w\<lparr>gm_server := sv\<rparr>)"
    using KickPlayer_ok [OF assms] by blast
  obtain v where v: "v = w\<lparr>gm_server := sv\<rparr>" by simp
  have t: "timers_ok v" "gm_objs v x = Some s" using k(2) assms(4) v by (simp_all add: game_ok_def)
  obtain c y y' where c: "ws_drop_timers x v = Some (v\<lparr>gm_ecs := c\<rparr>)"
    "only_timers (gm_ecs v) y" "only_timers c y'" "sy_data y' = sy_data y"
    using drop_timers_ok [OF t] by blast
  have "timer_at p c = timer_at p (gm_ecs w)" for p
    using timer_at_alt [OF c(2)] timer_at_alt [OF c(3)] c(4) v by simp
  moreover have "ws_destroy env x w = Some (v\<lparr>gm_ecs := c, gm_objs := (gm_objs v)(x := None)\<rparr>)"
    using k(1) c(1) [unfolded v] assms(4) unfolding v by (simp add: ws_destroy_def)
  ultimately show ?thesis by simp
qed

theorem destroyed_sessions_leave_timers_witness:
  "\<exists>w'. ws_destroy demo_env 1 demo_world = Some w' \<and> gm_objs w' 1 = None"
proof -
  have "game_ok 0 demo_world" using demo_world_inv by (simp add: world_inv_def world_rest_def)
  from destroyed_sessions_leave_timers [OF demo_env_ok this, of 1] show ?thesis by (auto simp: demo_world_sel)
qed

text \<open>
  A shut-down of the world leaves no player, no waiting player and no record of disconnects; only the sessions
  that the network has accepted since the last update are still alive.
\<close>

theorem shutdown_empties_world:
  assumes "senv_ok (we_srv env)" and "world_inv b [] w" and "b < 2 ^ 31"
  shows "\<exists>w'. wd_OnServerShutDown env w = Some w' \<and> wd_sessions w' = [] \<and> wd_queue w' = [] \<and> wd_disconnects w' = [] \<and>
    dom (gm_objs w') = set (lq_items (wd_add w)) \<and> world_inv b [] w'"
  using ShutDown_ok [OF assms] by blast

theorem shutdown_empties_world_witness:
  "\<exists>w'. wd_OnServerShutDown demo_wenv demo_world = Some w' \<and> dom (gm_objs w') = {}"
  using shutdown_empties_world [OF demo_wenv_ok(1) demo_world_inv] by (auto simp: demo_world_def lq_new_def)

end
