(* ===== verification/Server_Loop.thy ===== *)
theory Server_Loop
  imports World_Properties Game_Time
begin

text \<open>
  \<^verbatim>\<open>server/Server.h/.cpp\<close>: the main loop of the server.  One turn of the loop is \<open>sl_turn\<close>; its
  argument \<open>turn\<close> holds what the surroundings contribute: the readings of the clocks, what the network
  hands over (in the poll of the sockets), and the calls that other threads make while the loop sleeps.
  The clock of the game is \<open>gm_time\<close> of the world; \<open>sl_ms\<close> is \<open>GameTime::GetGameTimeMS()\<close>.
  The enumeration of exit codes has one name, but any value of a byte is stored: it is a number.
\<close>

section \<open>State\<close>

datatype server_state = NORMAL | SHUTDOWN | DELAYED_SHUTDOWN

record 'a main_server =
  sl_state :: server_state
  sl_exit :: int
  sl_timer :: u32
  sl_mask :: u32
  sl_counter :: u32
  sl_ms :: u32
  sl_prev :: u32
  sl_stats :: world_update_time
  sl_world :: "'a world"

definition SHUTDOWN_MASK_IDLE :: u32 where "SHUTDOWN_MASK_IDLE = 2"

definition sl_new :: "u32 \<Rightarrow> u32 \<Rightarrow> world_update_time \<Rightarrow> 'a world \<Rightarrow> 'a main_server" where
  "sl_new ms prev stats w = \<lparr>sl_state = NORMAL, sl_exit = 0, sl_timer = 0, sl_mask = 0, sl_counter = 0,
     sl_ms = ms, sl_prev = prev, sl_stats = stats, sl_world = w\<rparr>"

definition sl_Reset :: "'a main_server \<Rightarrow> 'a main_server" where
  "sl_Reset s = s\<lparr>sl_counter := 0, sl_state := NORMAL, sl_exit := 0\<rparr>"

definition sl_IsStopped :: "'a main_server \<Rightarrow> bool" where
  "sl_IsStopped s \<longleftrightarrow> sl_state s = SHUTDOWN"

section \<open>Stopping\<close>

definition sl_ShutDown :: "'a main_server \<Rightarrow> 'a main_server" where
  "sl_ShutDown s = s\<lparr>sl_exit := 0, sl_state := SHUTDOWN\<rparr>"

definition sl_ShutdownServ :: "'a world_env \<Rightarrow> u32 \<Rightarrow> u32 \<Rightarrow> u8 \<Rightarrow> 'a main_server \<Rightarrow> 'a main_server option" where
  "sl_ShutdownServ env time options exitcode s =
     (if sl_IsStopped s then Some s
      else let s = s\<lparr>sl_mask := options, sl_exit := uint exitcode\<rparr> in
        if time = 0 then
          (if True \<or> options AND SHUTDOWN_MASK_IDLE = 0 \<or> wd_GetActiveAndQueuedSessionCount (sl_world s) = 0
           then map_option (\<lambda>w. s\<lparr>sl_world := w\<rparr>) (wd_OnServerShutDown env (sl_world s))
           else Some (s\<lparr>sl_timer := 1\<rparr>))
        else Some (s\<lparr>sl_timer := time\<rparr>))"

definition sl_ShutDownAfter :: "u32 \<Rightarrow> 'a main_server \<Rightarrow> 'a main_server" where
  "sl_ShutDownAfter seconds s = s\<lparr>sl_timer := sl_ms s div 1000 + seconds\<rparr>"

datatype stop_call = Call_ShutDown | Call_ShutdownServ u32 u32 u8 | Call_ShutDownAfter u32

fun sl_call :: "'a world_env \<Rightarrow> stop_call \<Rightarrow> 'a main_server \<Rightarrow> 'a main_server option" where
  "sl_call env Call_ShutDown s = Some (sl_ShutDown s)"
| "sl_call env (Call_ShutdownServ time options exitcode) s = sl_ShutdownServ env time options exitcode s"
| "sl_call env (Call_ShutDownAfter seconds) s = Some (sl_ShutDownAfter seconds s)"

fun sl_calls :: "'a world_env \<Rightarrow> stop_call list \<Rightarrow> 'a main_server \<Rightarrow> 'a main_server option" where
  "sl_calls env [] s = Some s"
| "sl_calls env (c # cs) s = Option.bind (sl_call env c s) (sl_calls env cs)"

section \<open>The loop\<close>

record turn =
  tn_clock :: u32
  tn_time :: int
  tn_ms :: u32
  tn_network :: "world_event list"
  tn_calls :: "stop_call list"

definition sl_check_timer :: "u32 \<Rightarrow> 'a main_server \<Rightarrow> 'a main_server" where
  "sl_check_timer elapsed s =
     (if \<not> sl_IsStopped s \<and> sl_timer s > 0 \<and> elapsed > 0 then
        (if sl_timer s \<le> elapsed then
           (let s = s\<lparr>sl_state := DELAYED_SHUTDOWN\<rparr> in
            if sl_mask s AND SHUTDOWN_MASK_IDLE = 0 \<or> wd_GetActiveAndQueuedSessionCount (sl_world s) = 0
            then s\<lparr>sl_state := DELAYED_SHUTDOWN\<rparr>
            else s\<lparr>sl_timer := 1\<rparr>)
         else s\<lparr>sl_timer := sl_timer s - elapsed\<rparr>)
      else s)"

definition sl_UpdateGameTime :: "int \<Rightarrow> u32 \<Rightarrow> 'a main_server \<Rightarrow> 'a main_server" where
  "sl_UpdateGameTime now ms s =
     (let lastGameTime = gm_time (sl_world s)
      in sl_check_timer (word_of_int (now - lastGameTime)) (s\<lparr>sl_ms := ms, sl_world := (sl_world s)\<lparr>gm_time := now\<rparr>\<rparr>))"

fun run_events :: "'a world_env \<Rightarrow> world_event list \<Rightarrow> 'a world \<Rightarrow> 'a world option" where
  "run_events env [] w = Some w"
| "run_events env (e # es) w = Option.bind (world_step env e w) (run_events env es)"

definition sl_count :: "u32 \<Rightarrow> 'a main_server \<Rightarrow> 'a main_server option" where
  "sl_count diff s =
     map_option (\<lambda>b. s\<lparr>sl_stats := snd (wt_RecordUpdateTime (sl_ms s) diff ((sl_stats s)\<lparr>wt_base := b\<rparr>))\<rparr>)
       (ut_UpdateWithDiff diff (wt_base (sl_stats s)))"

text \<open>What the loop does when it wakes up.\<close>

definition sl_obey :: "'a world_env \<Rightarrow> 'a main_server \<Rightarrow> 'a main_server option" where
  "sl_obey env s =
     (if sl_state s = DELAYED_SHUTDOWN then map_option sl_ShutDown (sl_ShutdownServ env 0 0 0 s)
      else if sl_state s = SHUTDOWN then sl_ShutdownServ env 0 0 0 s
      else Some s)"

text \<open>The part of a turn that is awake.\<close>

definition sl_work :: "'a world_env \<Rightarrow> turn \<Rightarrow> 'a main_server \<Rightarrow> 'a main_server option" where
  "sl_work env t s = do {
     let diff = getMSTimeDiff (sl_prev s) (tn_clock t);
     let s = sl_UpdateGameTime (tn_time t) (tn_ms t) (s\<lparr>sl_counter := sl_counter s + 1\<rparr>);
     w \<leftarrow> world_step env (Polled diff) (sl_world s);
     w \<leftarrow> run_events env (tn_network t) w;
     w \<leftarrow> wd_Update env diff w;
     s \<leftarrow> sl_count diff (s\<lparr>sl_world := w\<rparr>);
     Some (s\<lparr>sl_prev := tn_clock t\<rparr>)
   }"

definition sl_turn :: "'a world_env \<Rightarrow> turn \<Rightarrow> 'a main_server \<Rightarrow> 'a main_server option" where
  "sl_turn env t s = do { s \<leftarrow> sl_work env t s; s \<leftarrow> sl_calls env (tn_calls t) s; sl_obey env s }"

text \<open>The turns there are time for; the flag says whether the loop has ended.\<close>

fun sl_loop :: "'a world_env \<Rightarrow> turn list \<Rightarrow> 'a main_server \<Rightarrow> (bool \<times> 'a main_server) option" where
  "sl_loop env [] s = Some (sl_IsStopped s, s)"
| "sl_loop env (t # ts) s = (if sl_IsStopped s then Some (True, s) else Option.bind (sl_turn env t s) (sl_loop env ts))"

text \<open>
  \<open>MainLoop\<close> with the clock at its start and whether the socket can listen: \<open>Inl\<close> is the value it
  returns, \<open>Inr\<close> the server that still runs when the turns are used up.
\<close>

definition sl_MainLoop :: "'a world_env \<Rightarrow> u32 \<Rightarrow> bool \<Rightarrow> turn list \<Rightarrow> 'a main_server \<Rightarrow> (int + 'a main_server) option" where
  "sl_MainLoop env start listens ts s =
     (if \<not> listens then Some (Inl (-1))
      else do {
        let sv = sv_StartUp ((gm_server (sl_world s))\<lparr>sv_mtu := 512, sv_id := 0\<rparr>);
        (ended, s) \<leftarrow> sl_loop env ts (s\<lparr>sl_prev := start, sl_world := (sl_world s)\<lparr>gm_server := sv\<rparr>,
          sl_stats := wt_SetRecordUpdateTimeInterval 15000 (sl_stats s)\<rparr>);
        Some (if ended then Inl (sl_exit s) else Inr s)
      })"

section \<open>Every turn returns\<close>

definition loop_inv :: "nat \<Rightarrow> 'a main_server \<Rightarrow> bool" where
  "loop_inv b s \<longleftrightarrow> world_inv b [] (sl_world s) \<and> ut_ok (wt_base (sl_stats s))"

fun from_network :: "world_event \<Rightarrow> bool" where
  "from_network (Accepted i sock junk) = True"
| "from_network (Packet x cmd) = True"
| "from_network e = False"

fun events_ok :: "'a world_env \<Rightarrow> nat \<Rightarrow> world_event list \<Rightarrow> 'a world \<Rightarrow> bool" where
  "events_ok env b [] w = True"
| "events_ok env b (e # es) w = (from_network e \<and> event_ok b e w \<and> (case world_step env e w of None \<Rightarrow> True | Some v \<Rightarrow> events_ok env b es v))"

text \<open>
  What the surroundings have to respect in a turn: the network hands over what is really there, and
  there are at most \<open>n\<close> sessions.
\<close>

definition turn_ok :: "'a world_env \<Rightarrow> nat \<Rightarrow> nat \<Rightarrow> turn \<Rightarrow> 'a main_server \<Rightarrow> bool" where
  "turn_ok env b n t s \<longleftrightarrow> b + 127 * n < 2 ^ 31 \<and>
     (case world_step env (Polled (getMSTimeDiff (sl_prev s) (tn_clock t))) ((sl_world s)\<lparr>gm_time := tn_time t\<rparr>) of
        None \<Rightarrow> True
      | Some v \<Rightarrow> events_ok env b (tn_network t) v \<and>
          (case run_events env (tn_network t) v of
             None \<Rightarrow> True
           | Some u \<Rightarrow> world_load u \<le> n \<and> unat (gm_compid u) + 2 * length (lq_items (wd_add u)) < 0xFFFFFFF0))"

lemma network_step:
  assumes "from_network e" "world_step env e w = Some v"
  shows "gm_time v = gm_time w \<and> event_cost e w = 0"
  using assms by (cases e) (auto simp: wd_accept_def wd_AddSession_def put_session_def)

lemma run_events_ok:
  assumes env: "senv_ok (we_srv env)" "order_ok env"
  shows "world_inv b [] w \<Longrightarrow> events_ok env b es w \<Longrightarrow>
    \<exists>v. run_events env es w = Some v \<and> world_inv b [] v \<and> gm_time v = gm_time w"
proof (induction es arbitrary: w)
  case (Cons e es)
  then have e: "from_network e" "event_ok b e w" by simp_all
  obtain v where v: "world_step env e w = Some v" "world_inv (b + event_cost e w) [] v"
    using step_total [OF env Cons.prems(1) e(2)] by blast
  note t = network_step [OF e(1) v(1)]
  have "world_inv b [] v" "events_ok env b es v" using v t Cons.prems(2) by simp_all
  from Cons.IH [OF this] show ?case using v(1) t by auto
qed simp

text \<open>What the parts of a turn leave alone.\<close>

definition same_control :: "'a main_server \<Rightarrow> 'a main_server \<Rightarrow> bool" where
  "same_control s s' \<longleftrightarrow> sl_state s' = sl_state s \<and> sl_exit s' = sl_exit s \<and> sl_timer s' = sl_timer s \<and> sl_mask s' = sl_mask s \<and>
     gm_time (sl_world s') = gm_time (sl_world s)"

lemma check_timer_sel [simp]:
  "sl_world (sl_check_timer e s) = sl_world s" "sl_stats (sl_check_timer e s) = sl_stats s" "sl_exit (sl_check_timer e s) = sl_exit s"
  "sl_prev (sl_check_timer e s) = sl_prev s" "sl_mask (sl_check_timer e s) = sl_mask s" "sl_ms (sl_check_timer e s) = sl_ms s"
  by (simp_all add: sl_check_timer_def Let_def)

lemma UpdateGameTime_sel [simp]:
  "sl_world (sl_UpdateGameTime now ms s) = (sl_world s)\<lparr>gm_time := now\<rparr>" "sl_stats (sl_UpdateGameTime now ms s) = sl_stats s"
  "sl_exit (sl_UpdateGameTime now ms s) = sl_exit s" "sl_mask (sl_UpdateGameTime now ms s) = sl_mask s"
  "sl_ms (sl_UpdateGameTime now ms s) = ms"
  by (simp_all add: sl_UpdateGameTime_def Let_def)

lemma count_ok:
  assumes "ut_ok (wt_base (sl_stats s))"
  shows "\<exists>st. sl_count diff s = Some (s\<lparr>sl_stats := st\<rparr>) \<and> ut_ok (wt_base st)"
proof -
  obtain b where "ut_UpdateWithDiff diff (wt_base (sl_stats s)) = Some b" "ut_ok b" using update_step [OF assms] by blast
  then show ?thesis
    by (intro exI [of _ "snd (wt_RecordUpdateTime (sl_ms s) diff ((sl_stats s)\<lparr>wt_base := b\<rparr>))"] conjI)
      (simp_all add: sl_count_def wt_RecordUpdateTime_def)
qed

text \<open>The server after the clocks of a turn.\<close>

definition ticked :: "turn \<Rightarrow> 'a main_server \<Rightarrow> 'a main_server" where
  "ticked t s = sl_UpdateGameTime (tn_time t) (tn_ms t) (s\<lparr>sl_counter := sl_counter s + 1\<rparr>)"

lemma work_ok:
  assumes env: "senv_ok (we_srv env)" "order_ok env" and inv: "loop_inv b s" and t: "turn_ok env b n t s"
  shows "\<exists>s'. sl_work env t s = Some s' \<and> loop_inv (b + 127 * n) s' \<and> same_control (ticked t s) s'"
proof -
  let ?d = "getMSTimeDiff (sl_prev s) (tn_clock t)" and ?w = "(sl_world s)\<lparr>gm_time := tn_time t\<rparr>"
  have w: "world_inv b [] ?w" "ut_ok (wt_base (sl_stats s))" using inv by (simp_all add: loop_inv_def clock_inv)
  obtain v where v: "world_step env (Polled ?d) ?w = Some v" "world_inv b [] v" "gm_time v = tn_time t"
    using poll_ok [OF env(1) w(1), of ?d] by auto
  then have "events_ok env b (tn_network t) v" using t unfolding turn_ok_def by (simp del: world_step.simps)
  from run_events_ok [OF env v(2) this] obtain u where
    u: "run_events env (tn_network t) v = Some u" "world_inv b [] u" "gm_time u = tn_time t" using v(3) by auto
  have r: "world_load u \<le> n" "b + 127 * n < 2 ^ 31" "unat (gm_compid u) + 2 * length (lq_items (wd_add u)) < 0xFFFFFFF0"
    using t v(1) u(1) unfolding turn_ok_def by (simp_all del: world_step.simps)
  then have "b + 127 * world_load u \<le> b + 127 * n" by simp
  moreover from this have "b + 127 * world_load u < 2 ^ 31" using r(2) by linarith
  ultimately obtain w' where w': "wd_Update env ?d u = Some w'" "world_inv (b + 127 * n) [] w'" "gm_time w' = tn_time t"
    using Update_ok [OF env u(2) _ r(3), of ?d] u(3) world_inv_mono by metis
  obtain s1 where s1: "s1 = (ticked t s)\<lparr>sl_world := w'\<rparr>" by simp
  then have "ut_ok (wt_base (sl_stats s1))" using w(2) by (simp add: ticked_def)
  from count_ok [OF this] obtain st where st: "sl_count ?d s1 = Some (s1\<lparr>sl_stats := st\<rparr>)" "ut_ok (wt_base st)" by blast
  have "sl_work env t s = Some (s1\<lparr>sl_stats := st, sl_prev := tn_clock t\<rparr>)"
    using v(1) u(1) w'(1) st(1) s1 by (simp add: sl_work_def ticked_def Let_def del: world_step.simps)
  moreover have "loop_inv (b + 127 * n) (s1\<lparr>sl_stats := st, sl_prev := tn_clock t\<rparr>)" using s1 w'(2) st(2) by (simp add: loop_inv_def)
  moreover have "same_control (ticked t s) (s1\<lparr>sl_stats := st, sl_prev := tn_clock t\<rparr>)" using s1 w'(3) by (simp add: same_control_def ticked_def)
  ultimately show ?thesis by blast
qed

text \<open>Nobody plays, nobody waits, and nobody is remembered.\<close>

definition emptied :: "'a world \<Rightarrow> bool" where
  "emptied w \<longleftrightarrow> wd_sessions w = [] \<and> wd_queue w = [] \<and> wd_disconnects w = []"

lemma ShutdownServ_ok:
  assumes env: "senv_ok (we_srv env)" and inv: "loop_inv b s" "b < 2 ^ 31"
  shows "\<exists>s'. sl_ShutdownServ env time options exitcode s = Some s' \<and> loop_inv b s' \<and> sl_state s' = sl_state s \<and>
    (\<not> sl_IsStopped s \<longrightarrow> sl_exit s' = uint exitcode \<and> sl_mask s' = options \<and> sl_timer s' = (if time = 0 then sl_timer s else time) \<and>
      (time = 0 \<longrightarrow> emptied (sl_world s'))) \<and> (sl_IsStopped s \<longrightarrow> s' = s)"
proof (cases "sl_IsStopped s \<or> time \<noteq> 0")
  case True
  then show ?thesis using inv(1) by (auto simp: sl_ShutdownServ_def Let_def loop_inv_def)
next
  case False
  have "world_inv b [] (sl_world s)" using inv(1) by (simp add: loop_inv_def)
  from ShutDown_ok [OF env this inv(2)] obtain w where w: "wd_OnServerShutDown env (sl_world s) = Some w" "world_inv b [] w"
    "emptied w" unfolding emptied_def by blast
  then show ?thesis using False inv(1) by (simp add: sl_ShutdownServ_def Let_def loop_inv_def)
qed

lemma calls_ok:
  assumes env: "senv_ok (we_srv env)" and b: "b < 2 ^ 31"
  shows "loop_inv b s \<Longrightarrow> \<exists>s'. sl_calls env cs s = Some s' \<and> loop_inv b s'"
proof (induction cs arbitrary: s)
  case (Cons c cs)
  obtain s1 where s1: "sl_call env c s = Some s1" "loop_inv b s1"
  proof (cases c)
    case Call_ShutDown
    then show thesis using that Cons.prems by (simp add: sl_ShutDown_def loop_inv_def)
  next
    case (Call_ShutdownServ time options exitcode)
    then show thesis using that ShutdownServ_ok [OF env Cons.prems b, of time options exitcode] by auto
  next
    case (Call_ShutDownAfter seconds)
    then show thesis using that Cons.prems by (simp add: sl_ShutDownAfter_def loop_inv_def)
  qed
  then show ?case using Cons.IH [OF s1(2)] by simp
qed simp

lemma obey_ok:
  assumes env: "senv_ok (we_srv env)" and inv: "loop_inv b s" "b < 2 ^ 31"
  shows "\<exists>s'. sl_obey env s = Some s' \<and> loop_inv b s' \<and> (sl_state s = DELAYED_SHUTDOWN \<longrightarrow> sl_IsStopped s' \<and> emptied (sl_world s') \<and> sl_exit s' = 0) \<and>
    (sl_state s \<noteq> DELAYED_SHUTDOWN \<longrightarrow> s' = s)"
proof (cases "sl_state s")
  case NORMAL
  then show ?thesis using inv(1) by (simp add: sl_obey_def)
next
  case SHUTDOWN
  then show ?thesis using inv(1) by (simp add: sl_obey_def sl_ShutdownServ_def sl_IsStopped_def)
next
  case DELAYED_SHUTDOWN
  then have go: "\<not> sl_IsStopped s" by (simp add: sl_IsStopped_def)
  obtain s' where "sl_ShutdownServ env 0 0 0 s = Some s'" "loop_inv b s'" "emptied (sl_world s')"
    using ShutdownServ_ok [OF env inv, of 0 0 0] go by auto
  then show ?thesis using DELAYED_SHUTDOWN by (simp add: sl_obey_def sl_ShutDown_def sl_IsStopped_def loop_inv_def)
qed

lemma turn_total:
  assumes env: "senv_ok (we_srv env)" "order_ok env" and inv: "loop_inv b s" and t: "turn_ok env b n t s"
  shows "\<exists>s'. sl_turn env t s = Some s' \<and> loop_inv (b + 127 * n) s'"
proof -
  have b: "b + 127 * n < 2 ^ 31" using t by (simp add: turn_ok_def)
  obtain s1 where s1: "sl_work env t s = Some s1" "loop_inv (b + 127 * n) s1" using work_ok [OF env inv t] by blast
  obtain s2 where s2: "sl_calls env (tn_calls t) s1 = Some s2" "loop_inv (b + 127 * n) s2" using calls_ok [OF env(1) b s1(2)] by blast
  then show ?thesis using obey_ok [OF env(1) s2(2) b] s1(1) by (auto simp: sl_turn_def)
qed

fun turns_ok :: "'a world_env \<Rightarrow> nat \<Rightarrow> nat \<Rightarrow> turn list \<Rightarrow> 'a main_server \<Rightarrow> bool" where
  "turns_ok env b n [] s = True"
| "turns_ok env b n (t # ts) s = (turn_ok env b n t s \<and>
     (case sl_turn env t s of None \<Rightarrow> True | Some s' \<Rightarrow> turns_ok env (b + 127 * n) n ts s'))"

lemma loop_total:
  assumes env: "senv_ok (we_srv env)" "order_ok env"
  shows "loop_inv b s \<Longrightarrow> turns_ok env b n ts s \<Longrightarrow> \<exists>s'. sl_loop env ts s = Some (sl_IsStopped s', s') \<and> loop_inv (b + 127 * n * length ts) s'"
proof (induction ts arbitrary: b s)
  case (Cons t ts)
  show ?case
  proof (cases "sl_IsStopped s")
    case True
    have "loop_inv (b + 127 * n * length (t # ts)) s"
      using Cons.prems(1) world_inv_mono [of b "[]" "sl_world s" "b + 127 * n * length (t # ts)"] by (simp add: loop_inv_def)
    then show ?thesis using True by simp
  next
    case False
    have t: "turn_ok env b n t s" using Cons.prems(2) by simp
    from turn_total [OF env Cons.prems(1) t] obtain s1 where s1: "sl_turn env t s = Some s1" "loop_inv (b + 127 * n) s1" by blast
    have "turns_ok env (b + 127 * n) n ts s1" using Cons.prems(2) s1(1) by simp
    from Cons.IH [OF s1(2) this] show ?thesis using False s1(1) by (simp add: algebra_simps)
  qed
qed simp

section \<open>The count-down\<close>

lemma quiet_turn:
  assumes env: "senv_ok (we_srv env)" "order_ok env" and inv: "loop_inv b s" and t: "turn_ok env b n t s" "tn_calls t = []"
    and run: "sl_state s = NORMAL" "sl_timer s \<noteq> 0"
    and e: "gm_time (sl_world s) \<le> tn_time t" "tn_time t - gm_time (sl_world s) < 2 ^ 32"
  shows "\<exists>s'. sl_turn env t s = Some s' \<and> loop_inv (b + 127 * n) s' \<and>
    (if unat (sl_timer s) \<le> nat (tn_time t - gm_time (sl_world s))
     then sl_IsStopped s' \<and> emptied (sl_world s') \<and> sl_exit s' = 0
     else sl_state s' = NORMAL \<and> unat (sl_timer s') = unat (sl_timer s) - nat (tn_time t - gm_time (sl_world s)) \<and>
       gm_time (sl_world s') = tn_time t)"
proof -
  have b: "b + 127 * n < 2 ^ 31" using t by (simp add: turn_ok_def)
  obtain d where d: "d = nat (tn_time t - gm_time (sl_world s))" "d < 2 ^ 32" using e by simp
  obtain x :: u32 where x: "x = of_nat d" by simp
  then have xu: "unat x = d" using d(2) by (simp add: unsigned_of_nat take_bit_nat_eq_self_iff)
  have "int d = tn_time t - gm_time (sl_world s)" using d(1) e(1) by simp
  then have xw: "word_of_int (tn_time t - gm_time (sl_world s)) = x" using x by (metis of_int_of_nat_eq)
  obtain s1 where s1: "sl_work env t s = Some s1" "loop_inv (b + 127 * n) s1" "same_control (ticked t s) s1"
    using work_ok [OF env inv t(1)] by blast
  have time: "gm_time (sl_world s1) = tn_time t" using s1(3) by (simp add: same_control_def ticked_def)
  have turn: "sl_turn env t s = sl_obey env s1" using s1(1) t(2) by (simp add: sl_turn_def)
  have pos: "0 < sl_timer s" "0 < unat (sl_timer s)" using run(2) by (simp_all add: word_gt_0 unat_gt_0)
  have tick: "ticked t s = sl_check_timer x (s\<lparr>sl_counter := sl_counter s + 1, sl_ms := tn_ms t, sl_world := (sl_world s)\<lparr>gm_time := tn_time t\<rparr>\<rparr>)"
    using xw by (simp add: ticked_def sl_UpdateGameTime_def Let_def)
  show ?thesis
  proof (cases "unat (sl_timer s) \<le> d")
    case True
    then have "sl_timer s \<le> x" "0 < x" using xu pos by (simp_all add: word_le_nat_alt word_less_nat_alt)
    then have "sl_state s1 = DELAYED_SHUTDOWN"
      using s1(3) pos run(1) tick by (simp add: same_control_def sl_check_timer_def Let_def sl_IsStopped_def)
    then show ?thesis using obey_ok [OF env(1) s1(2) b] turn True d(1) by auto
  next
    case False
    then have "\<not> sl_timer s \<le> x" using xu by (simp add: word_le_nat_alt)
    then have "sl_state s1 = NORMAL" "sl_timer s1 = sl_timer s - x"
      using s1(3) pos run(1) tick by (auto simp: same_control_def sl_check_timer_def Let_def sl_IsStopped_def word_gt_0)
    moreover have "unat (sl_timer s - x) = unat (sl_timer s) - d" using False xu by (simp add: unat_sub word_le_nat_alt)
    ultimately show ?thesis using obey_ok [OF env(1) s1(2) b] turn False d(1) time by auto
  qed
qed

lemma stopped_loop: "sl_IsStopped s \<Longrightarrow> sl_loop env ts s = Some (True, s)"
  by (cases ts) simp_all

lemma count_down:
  assumes env: "senv_ok (we_srv env)" "order_ok env"
  shows "loop_inv b s \<Longrightarrow> turns_ok env b n ts s \<Longrightarrow> \<forall>t \<in> set ts. tn_calls t = [] \<Longrightarrow> sl_state s = NORMAL \<Longrightarrow> sl_timer s \<noteq> 0 \<Longrightarrow>
    sorted (gm_time (sl_world s) # map tn_time ts) \<Longrightarrow> final = last (gm_time (sl_world s) # map tn_time ts) \<Longrightarrow>
    final - gm_time (sl_world s) < 2 ^ 32 \<Longrightarrow>
    \<exists>s'. sl_loop env ts s = Some (unat (sl_timer s) \<le> nat (final - gm_time (sl_world s)), s') \<and>
      (if unat (sl_timer s) \<le> nat (final - gm_time (sl_world s)) then emptied (sl_world s') \<and> sl_exit s' = 0
       else sl_state s' = NORMAL \<and> unat (sl_timer s') = unat (sl_timer s) - nat (final - gm_time (sl_world s)))"
proof (induction ts arbitrary: b s)
  case Nil
  then show ?case by (simp add: sl_IsStopped_def unat_eq_zero)
next
  case (Cons t ts)
  let ?g = "gm_time (sl_world s)"
  have f: "final = last (tn_time t # map tn_time ts)" "sorted (tn_time t # map tn_time ts)" "?g \<le> tn_time t"
    using Cons.prems(6,7) by simp_all
  then have tf: "tn_time t \<le> final" by (metis last_in_set list.distinct(1) list.set_intros(1) sorted_simps(2) set_ConsD order_refl)
  have go: "\<not> sl_IsStopped s" using Cons.prems(4) by (simp add: sl_IsStopped_def)
  have t: "turn_ok env b n t s" "tn_calls t = []" "tn_time t - ?g < 2 ^ 32" using Cons.prems(2,3,8) tf by simp_all
  obtain s1 where s1: "sl_turn env t s = Some s1" "loop_inv (b + 127 * n) s1"
    "if unat (sl_timer s) \<le> nat (tn_time t - ?g) then sl_IsStopped s1 \<and> emptied (sl_world s1) \<and> sl_exit s1 = 0
     else sl_state s1 = NORMAL \<and> unat (sl_timer s1) = unat (sl_timer s) - nat (tn_time t - ?g) \<and> gm_time (sl_world s1) = tn_time t"
    using quiet_turn [OF env Cons.prems(1) t(1,2) Cons.prems(4,5) f(3) t(3)] by blast
  show ?case
  proof (cases "unat (sl_timer s) \<le> nat (tn_time t - ?g)")
    case True
    then have "unat (sl_timer s) \<le> nat (final - ?g)" using tf by linarith
    then show ?thesis using s1 True go stopped_loop [of s1 env ts] by simp
  next
    case False
    then have n: "sl_state s1 = NORMAL" "unat (sl_timer s1) = unat (sl_timer s) - nat (tn_time t - ?g)" "gm_time (sl_world s1) = tn_time t"
      using s1(3) by simp_all
    then have z: "sl_timer s1 \<noteq> 0" using False by (metis unat_0 zero_less_diff not_le less_irrefl)
    have ok: "turns_ok env (b + 127 * n) n ts s1" "\<forall>t \<in> set ts. tn_calls t = []" using Cons.prems(2,3) s1(1) by simp_all
    have lim: "sorted (gm_time (sl_world s1) # map tn_time ts)" "final = last (gm_time (sl_world s1) # map tn_time ts)"
      "final - gm_time (sl_world s1) < 2 ^ 32" using f Cons.prems(8) n(3) by simp_all
    have "nat (final - ?g) = nat (tn_time t - ?g) + nat (final - tn_time t)" using tf f(3) by simp
    then have eqs: "unat (sl_timer s1) \<le> nat (final - tn_time t) \<longleftrightarrow> unat (sl_timer s) \<le> nat (final - ?g)"
      "unat (sl_timer s1) - nat (final - tn_time t) = unat (sl_timer s) - nat (final - ?g)" using n(2) False by linarith+
    show ?thesis using Cons.IH [OF s1(2) ok n(1) z lim, unfolded n(3) eqs] s1(1) go by simp
  qed
qed

section \<open>What the loop promises\<close>

text \<open>
  C15. The main loop never gets stuck: with acceptable surroundings every turn, with all it does to sockets,
  sessions and timers, and with any calls to stop it, returns and leaves a well-formed world; the loop ends when,
  and only when, the server is stopped.
\<close>

theorem server_loop_total:
  assumes "senv_ok (we_srv env)" and "order_ok env" and "loop_inv b s" and "turns_ok env b n ts s"
  shows "\<exists>s'. sl_loop env ts s = Some (sl_IsStopped s', s') \<and> loop_inv (b + 127 * n * length ts) s'"
  using loop_total [OF assms(1-4)] .

text \<open>The demonstration world in a server that has been up for a minute.\<close>

definition demo_server :: "packet_log main_server" where
  "demo_server = sl_new 60000 60000 wt_new demo_world"

definition demo_turn :: "int \<Rightarrow> stop_call list \<Rightarrow> turn" where
  "demo_turn now calls = \<lparr>tn_clock = 60050, tn_time = now, tn_ms = 60050, tn_network = [], tn_calls = calls\<rparr>"

lemma demo_server_inv: "loop_inv 0 demo_server"
  using demo_world_inv ut_ok_new by (simp add: loop_inv_def demo_server_def sl_new_def wt_new_def)

lemma quiet_turn_ok:
  assumes "tn_network t = []" "b + 127 * n < 2 ^ 31" "world_load (sl_world s) \<le> n"
    "unat (gm_compid (sl_world s)) + 2 * length (lq_items (wd_add (sl_world s))) < 0xFFFFFFF0"
  shows "turn_ok env b n t s"
  using assms by (auto simp: turn_ok_def world_load_def split: option.splits)

lemma demo_turn_ok: "sl_world s = demo_world \<Longrightarrow> turn_ok demo_wenv 0 3 (demo_turn now calls) s"
  by (rule quiet_turn_ok) (simp_all add: demo_turn_def world_load_def demo_world_def lq_new_def)

lemma demo_turns_ok: "sl_world s = demo_world \<Longrightarrow> turns_ok demo_wenv 0 3 [demo_turn now calls] s"
  using demo_turn_ok [of s now calls] by (simp split: option.splits)

theorem server_loop_total_witness:
  "\<exists>s'. sl_loop demo_wenv [demo_turn 1011 [Call_ShutdownServ 5 2 9]] demo_server = Some (sl_IsStopped s', s') \<and> loop_inv 381 s'"
  using server_loop_total [OF demo_wenv_ok demo_server_inv demo_turns_ok [of demo_server 1011 "[Call_ShutdownServ 5 2 9]"]]
  by (simp add: demo_server_def sl_new_def)

text \<open>
  C17. The count-down is exact: a running server with a shut-down timer stops with the first turn in which the game time has
  advanced by at least the timer, and not before; then the world is empty.  The option to wait for an
  idle server plays no part, whatever the mask and however many play, and the exit code is zero whatever the
  caller asked for.
\<close>

theorem shutdown_count_down:
  assumes "senv_ok (we_srv env)" and "order_ok env" and "loop_inv b s" and "turns_ok env b n ts s" and "\<forall>t \<in> set ts. tn_calls t = []"
    and "sl_state s = NORMAL" and "sl_timer s \<noteq> 0" and "sorted (gm_time (sl_world s) # map tn_time ts)"
    and "elapsed = last (gm_time (sl_world s) # map tn_time ts) - gm_time (sl_world s)" and "elapsed < 2 ^ 32"
  shows "\<exists>s'. sl_loop env ts s = Some (unat (sl_timer s) \<le> nat elapsed, s') \<and>
    (if unat (sl_timer s) \<le> nat elapsed then emptied (sl_world s') \<and> sl_exit s' = 0
     else sl_state s' = NORMAL \<and> unat (sl_timer s') = unat (sl_timer s) - nat elapsed)"
proof -
  from assms(9,10) have "last (gm_time (sl_world s) # map tn_time ts) - gm_time (sl_world s) < 2 ^ 32" by simp
  from count_down [OF assms(1-8) refl this] show ?thesis unfolding assms(9) .
qed

text \<open>A shut-down in five seconds was asked for, with exit code 9 and when nobody plays; somebody plays.\<close>

definition demo_stopping :: "packet_log main_server" where
  "demo_stopping = demo_server\<lparr>sl_timer := 5, sl_mask := SHUTDOWN_MASK_IDLE, sl_exit := 9\<rparr>"

theorem shutdown_count_down_witness:
  "sl_ShutdownServ demo_wenv 5 SHUTDOWN_MASK_IDLE 9 demo_server = Some demo_stopping \<and>
   (\<exists>s'. sl_loop demo_wenv [demo_turn 1020 []] demo_stopping = Some (True, s') \<and> emptied (sl_world s') \<and> sl_exit s' = 0)"
proof -
  have "sl_world demo_stopping = demo_world" "sl_state demo_stopping = NORMAL" "sl_timer demo_stopping = 5" "loop_inv 0 demo_stopping"
    using demo_server_inv by (simp_all add: demo_stopping_def demo_server_def sl_new_def loop_inv_def)
  then have "\<exists>s'. sl_loop demo_wenv [demo_turn 1020 []] demo_stopping = Some (True, s') \<and> emptied (sl_world s') \<and> sl_exit s' = 0"
    using shutdown_count_down [OF demo_wenv_ok, of 0 demo_stopping 3 "[demo_turn 1020 []]" 10] demo_turns_ok [of demo_stopping 1020 "[]"]
    by (simp add: demo_turn_def demo_world_sel)
  then show ?thesis
    by (simp add: sl_ShutdownServ_def demo_stopping_def demo_server_def sl_new_def sl_IsStopped_def Let_def)
qed

text \<open>
  \<open>ShutDownAfter\<close> waits too long: what it stores is the moment to stop, but the loop counts it down, so the server is
  still running when the seconds are over, until the time that it has been up has passed once more.
\<close>

theorem shut_down_after_waits_longer:
  assumes "senv_ok (we_srv env)" and "order_ok env" and "loop_inv b s" and "turns_ok env b n ts (sl_ShutDownAfter seconds s)"
    and "\<forall>t \<in> set ts. tn_calls t = []" and "sl_state s = NORMAL" and "sorted (gm_time (sl_world s) # map tn_time ts)"
    and "elapsed = last (gm_time (sl_world s) # map tn_time ts) - gm_time (sl_world s)"
    and "unat (sl_ms s) div 1000 + unat seconds < 2 ^ 32" and "int (unat seconds) \<le> elapsed"
    and "elapsed < int (unat (sl_ms s) div 1000 + unat seconds)"
  shows "\<exists>s'. sl_loop env ts (sl_ShutDownAfter seconds s) = Some (False, s') \<and> sl_state s' = NORMAL"
proof -
  let ?s = "sl_ShutDownAfter seconds s"
  have s: "loop_inv b ?s" "sl_state ?s = NORMAL" "sorted (gm_time (sl_world ?s) # map tn_time ts)"
    using assms(3,6,7) by (simp_all add: sl_ShutDownAfter_def loop_inv_def)
  have u: "unat (sl_timer ?s) = unat (sl_ms s) div 1000 + unat seconds"
    using assms(9) by (simp add: sl_ShutDownAfter_def unat_word_ariths unat_div)
  have e: "last (gm_time (sl_world ?s) # map tn_time ts) - gm_time (sl_world ?s) = elapsed" using assms(8) by (simp add: sl_ShutDownAfter_def)
  obtain k where k: "k = unat (sl_ms s) div 1000 + unat seconds" by simp
  have "0 \<le> elapsed" "elapsed < int k" "k < 2 ^ 32" using assms(9,10,11) unfolding k by linarith+
  then have "0 < unat (sl_timer ?s)" "elapsed < 2 ^ 32" "\<not> unat (sl_timer ?s) \<le> nat elapsed"
    unfolding u [folded k] by (simp_all add: not_le nat_less_iff)
  moreover from this have "sl_timer ?s \<noteq> 0" by (metis less_irrefl unat_0)
  ultimately show ?thesis using count_down [OF assms(1,2) s(1) assms(4,5) s(2) _ s(3) refl] e by auto
qed

theorem shut_down_after_waits_longer_witness:
  "\<exists>s'. sl_loop demo_wenv [demo_turn 1070 []] (sl_ShutDownAfter 6 demo_server) = Some (False, s')"
proof -
  have "sl_world (sl_ShutDownAfter 6 demo_server) = demo_world" "sl_world demo_server = demo_world" "sl_state demo_server = NORMAL" "sl_ms demo_server = 60000"
    by (simp_all add: demo_server_def sl_new_def sl_ShutDownAfter_def)
  then show ?thesis
    using shut_down_after_waits_longer [OF demo_wenv_ok demo_server_inv, of 3 "[demo_turn 1070 []]" 6 60]
      demo_turns_ok [of "sl_ShutDownAfter 6 demo_server" 1070 "[]"]
    by (auto simp: demo_turn_def demo_world_sel)
qed

text \<open>
  The two ways to stop at once each miss half.  \<open>ShutDown\<close> while the loop sleeps stops it without kicking anyone: the
  world is what it would have been.  \<open>ShutdownServ\<close> with no delay empties the world but the
  loop goes on.
\<close>

theorem immediate_stop_incomplete:
  assumes "senv_ok (we_srv env)" and "order_ok env" and "loop_inv b s" and "turn_ok env b n t s" and "sl_state s = NORMAL" and "sl_timer s = 0"
  shows "(\<exists>v w. sl_turn env (t\<lparr>tn_calls := []\<rparr>) s = Some v \<and> sl_turn env (t\<lparr>tn_calls := [Call_ShutDown]\<rparr>) s = Some w \<and>
      sl_IsStopped w \<and> sl_world w = sl_world v) \<and>
    (\<exists>w. sl_turn env (t\<lparr>tn_calls := [Call_ShutdownServ 0 options exitcode]\<rparr>) s = Some w \<and>
      emptied (sl_world w) \<and> \<not> sl_IsStopped w \<and> sl_timer w = 0)"
proof -
  have b: "b + 127 * n < 2 ^ 31" using assms(4) by (simp add: turn_ok_def)
  obtain s1 where s1: "sl_work env t s = Some s1" "loop_inv (b + 127 * n) s1" "same_control (ticked t s) s1"
    using work_ok [OF assms(1-4)] by blast
  have work: "sl_work env (t\<lparr>tn_calls := cs\<rparr>) s = Some s1" for cs using s1(1) by (simp add: sl_work_def)
  have n: "sl_state s1 = NORMAL" "sl_timer s1 = 0"
    using s1(3) assms(5,6) by (simp_all add: same_control_def ticked_def sl_UpdateGameTime_def sl_check_timer_def Let_def)
  have quiet: "sl_turn env (t\<lparr>tn_calls := []\<rparr>) s = Some s1" using work n by (simp add: sl_turn_def sl_obey_def)
  have direct: "sl_turn env (t\<lparr>tn_calls := [Call_ShutDown]\<rparr>) s = Some (sl_ShutDown s1)" "sl_IsStopped (sl_ShutDown s1)"
    using work by (simp_all add: sl_turn_def sl_obey_def sl_ShutDown_def sl_ShutdownServ_def sl_IsStopped_def)
  obtain s2 where s2: "sl_ShutdownServ env 0 options exitcode s1 = Some s2" "sl_state s2 = NORMAL" "sl_timer s2 = 0" "emptied (sl_world s2)"
    using ShutdownServ_ok [OF assms(1) s1(2) b, of 0 options exitcode] n by (auto simp: sl_IsStopped_def)
  have "sl_turn env (t\<lparr>tn_calls := [Call_ShutdownServ 0 options exitcode]\<rparr>) s = Some s2"
    using work s2 by (simp add: sl_turn_def sl_obey_def)
  then show ?thesis using quiet direct s2 by (auto simp: sl_ShutDown_def sl_IsStopped_def)
qed

theorem immediate_stop_incomplete_witness:
  "\<exists>w. sl_turn demo_wenv (demo_turn 1011 [Call_ShutdownServ 0 0 1]) demo_server = Some w \<and> emptied (sl_world w) \<and> \<not> sl_IsStopped w"
proof -
  have "sl_world demo_server = demo_world" "sl_state demo_server = NORMAL" "sl_timer demo_server = 0" by (simp_all add: demo_server_def sl_new_def)
  then show ?thesis
    using immediate_stop_incomplete [OF demo_wenv_ok demo_server_inv demo_turn_ok [of demo_server 1011 "[]"], of 0 1]
    by (auto simp: demo_turn_def)
qed

end
