(* ===== verification/Generator_Base.thy ===== *)
theory Generator_Base
  imports Prelude "HOL-Library.Monad_Syntax"
begin

text \<open>
  \<^verbatim>\<open>Generator/generator.h\<close>: random numbers, clamping and the indices of the maps.  The arithmetic of
  \<^verbatim>\<open>float\<close> is a parameter, \<open>'f fl\<close>: what the generator does with its arrays is stated and proved for any
  arithmetic, in particular for that of the machine.  \<open>fl_lit m n\<close> is the literal \<open>m * 10 ^ (- n)\<close>; the conversion to
  an \<^verbatim>\<open>int\<close> is undefined (\<open>None\<close>) for a number out of range; \<open>fl_bits\<close> is the number with the given representation.  \<open>ge_rand seed k\<close> is the \<open>k\<close>-th value of \<^verbatim>\<open>std::rand\<close>
  after \<^verbatim>\<open>std::srand(seed)\<close>; \<open>ge_stop k\<close> is the \<open>k\<close>-th answer of \<open>MapGenerator::IsStopped\<close>, whose flag another thread
  may clear at any moment.
\<close>

section \<open>Parameters\<close>

datatype neighbor = NeighborLeft | NeighborBottom | NeighborRight | NeighborTop | NeighborAll

record 'f fl =
  fl_add :: "'f \<Rightarrow> 'f \<Rightarrow> 'f"
  fl_sub :: "'f \<Rightarrow> 'f \<Rightarrow> 'f"
  fl_mul :: "'f \<Rightarrow> 'f \<Rightarrow> 'f"
  fl_div :: "'f \<Rightarrow> 'f \<Rightarrow> 'f"
  fl_neg :: "'f \<Rightarrow> 'f"
  fl_less :: "'f \<Rightarrow> 'f \<Rightarrow> bool"
  fl_le :: "'f \<Rightarrow> 'f \<Rightarrow> bool"
  fl_int :: "int \<Rightarrow> 'f"
  fl_lit :: "int \<Rightarrow> nat \<Rightarrow> 'f"
  fl_trunc :: "'f \<Rightarrow> int option"
  fl_floor :: "'f \<Rightarrow> 'f"
  fl_log2 :: "'f \<Rightarrow> 'f"
  fl_ceil :: "'f \<Rightarrow> 'f"
  fl_sqrt :: "'f \<Rightarrow> 'f"
  fl_sin :: "'f \<Rightarrow> 'f"
  fl_cos :: "'f \<Rightarrow> 'f"
  fl_bits :: "u32 \<Rightarrow> 'f"

record 'f gen_env =
  ge_fl :: "'f fl"
  ge_rand :: "int \<Rightarrow> nat \<Rightarrow> nat"
  ge_stop :: "nat \<Rightarrow> bool"
  ge_neighbor :: "int \<Rightarrow> int \<Rightarrow> neighbor \<Rightarrow> u32 \<Rightarrow> 'f option"

text \<open>The state of the random numbers, and how often the flag has been read.\<close>

record gen_state =
  gs_seed :: int
  gs_pos :: nat
  gs_polls :: nat

section \<open>Random numbers\<close>

definition std_rand :: "'f gen_env \<Rightarrow> 'z gen_state_scheme \<Rightarrow> int \<times> 'z gen_state_scheme" where
  "std_rand env s = (int (ge_rand env (gs_seed s) (gs_pos s)), s\<lparr>gs_pos := gs_pos s + 1\<rparr>)"

definition setRandomSeed :: "int \<Rightarrow> 'z gen_state_scheme \<Rightarrow> 'z gen_state_scheme" where
  "setRandomSeed seed s = s\<lparr>gs_seed := seed, gs_pos := 0\<rparr>"

definition irandom :: "'f gen_env \<Rightarrow> int \<Rightarrow> int \<Rightarrow> 'z gen_state_scheme \<Rightarrow> (int \<times> 'z gen_state_scheme) option" where
  "irandom env lo hi s =
     (if lo \<ge> hi then Some (lo, s)
      else do {
        d \<leftarrow> fits 32 (hi - lo);
        let (r, s) = std_rand env s;
        v \<leftarrow> fits 32 (r mod d + lo);
        Some (v, s)
      })"

text \<open>The two calls of \<^verbatim>\<open>rand\<close> are evaluated from left to right.\<close>

definition frandom :: "'f gen_env \<Rightarrow> int \<Rightarrow> int \<Rightarrow> 'z gen_state_scheme \<Rightarrow> ('f \<times> 'z gen_state_scheme) option" where
  "frandom env lo hi s =
     (if lo \<ge> hi then Some (fl_int (ge_fl env) lo, s)
      else do {
        d \<leftarrow> fits 32 (hi - lo);
        let (r, s) = std_rand env s;
        v \<leftarrow> fits 32 (r mod d + lo);
        let (q, s) = std_rand env s;
        Some (fl_add (ge_fl env) (fl_int (ge_fl env) v) (fl_div (ge_fl env) (fl_int (ge_fl env) (q mod 10000)) (fl_lit (ge_fl env) 10000 0)), s)
      })"

definition frandom_f :: "'f gen_env \<Rightarrow> 'f \<Rightarrow> 'f \<Rightarrow> 'z gen_state_scheme \<Rightarrow> ('f \<times> 'z gen_state_scheme) option" where
  "frandom_f env lo hi s =
     (if fl_le (ge_fl env) hi lo then Some (lo, s)
      else do {
        i \<leftarrow> fl_trunc (ge_fl env) (fl_mul (ge_fl env) lo (fl_lit (ge_fl env) 10000 0));
        a \<leftarrow> fl_trunc (ge_fl env) (fl_mul (ge_fl env) hi (fl_lit (ge_fl env) 10000 0));
        (r, s) \<leftarrow> irandom env i a s;
        Some (fl_div (ge_fl env) (fl_int (ge_fl env) r) (fl_lit (ge_fl env) 10000 0), s)
      })"

definition GetChance :: "'f gen_env \<Rightarrow> 'f \<Rightarrow> 'z gen_state_scheme \<Rightarrow> (bool \<times> 'z gen_state_scheme) option" where
  "GetChance env chance s =
     map_option (\<lambda>(r, s). (fl_le (ge_fl env) r chance, s)) (frandom_f env (fl_int (ge_fl env) 0) (fl_lit (ge_fl env) 1 0) s)"

definition IsStopped :: "'f gen_env \<Rightarrow> 'z gen_state_scheme \<Rightarrow> bool \<times> 'z gen_state_scheme" where
  "IsStopped env s = (ge_stop env (gs_polls s), s\<lparr>gs_polls := gs_polls s + 1\<rparr>)"

section \<open>Clamping and indices\<close>

definition clamp :: "int \<Rightarrow> int \<Rightarrow> int \<Rightarrow> int" where
  "clamp x low high = (if x < low then low else if x > high then high else x)"

definition fclamp :: "'f fl \<Rightarrow> 'f \<Rightarrow> 'f \<Rightarrow> 'f \<Rightarrow> 'f" where
  "fclamp F x low high = (if fl_less F x low then low else if fl_less F high x then high else x)"

definition GetHeightMapIndex :: "int \<Rightarrow> int \<Rightarrow> int \<Rightarrow> int option" where
  "GetHeightMapIndex n x y = do { p \<leftarrow> fits 32 (y * n); fits 32 (x + p) }"

definition GetSplatMapIndex :: "int \<Rightarrow> int \<Rightarrow> int \<Rightarrow> int \<Rightarrow> int \<Rightarrow> int option" where
  "GetSplatMapIndex x y z n sizeAlpha = do {
     p \<leftarrow> fits 32 (x * n);
     p \<leftarrow> fits 32 (p + y);
     p \<leftarrow> fits 32 (p * sizeAlpha);
     fits 32 (p + z)
   }"

text \<open>A map is an array of cells that are \<open>None\<close> until they are written.\<close>

definition map_read :: "'f option list \<Rightarrow> int \<Rightarrow> 'f option" where
  "map_read m p = (if 0 \<le> p \<and> p < int (length m) then m ! nat p else None)"

definition map_write :: "'f option list \<Rightarrow> int \<Rightarrow> 'f \<Rightarrow> 'f option list option" where
  "map_write m p v = (if 0 \<le> p \<and> p < int (length m) then Some (m[nat p := Some v]) else None)"

text \<open>The values of a counting loop, \<^verbatim>\<open>for (x = a; x < b; x += step)\<close>, with a positive step.\<close>

function count_up :: "int \<Rightarrow> int \<Rightarrow> int \<Rightarrow> int list" where
  "count_up a b step = (if a < b \<and> 0 < step then a # count_up (a + step) b step else [])"
  by auto
termination by (relation "measure (\<lambda>(a, b, step). nat (b - a))") auto

declare count_up.simps [simp del]

section \<open>Facts\<close>

lemma irandom_range:
  assumes "lo < hi" "fits 32 lo = Some lo" "fits 32 hi = Some hi" "fits 32 (hi - lo) = Some (hi - lo)"
  shows "\<exists>v. irandom env lo hi s = Some (v, s\<lparr>gs_pos := gs_pos s + 1\<rparr>) \<and> lo \<le> v \<and> v < hi"
proof -
  obtain r where r: "r = int (ge_rand env (gs_seed s) (gs_pos s))" by simp
  have m: "0 \<le> r mod (hi - lo)" "r mod (hi - lo) < hi - lo" using assms(1) by simp_all
  have "fits 32 (r mod (hi - lo) + lo) = Some (r mod (hi - lo) + lo)" using m assms(2,3) by (auto simp: fits_def split: if_splits)
  then show ?thesis using assms(1,4) r m by (simp add: irandom_def std_rand_def Let_def)
qed

text \<open>What is asked of the bounds of a random number: in ten-thousandths, they and their difference are integers.\<close>

definition drawable :: "'f gen_env \<Rightarrow> 'f \<Rightarrow> 'f \<Rightarrow> bool" where
  "drawable env lo hi \<longleftrightarrow> (let F = ge_fl env in fl_le F hi lo \<or>
     (\<exists>i a. fl_trunc F (fl_mul F lo (fl_lit F 10000 0)) = Some i \<and> fl_trunc F (fl_mul F hi (fl_lit F 10000 0)) = Some a \<and>
       fits 32 i = Some i \<and> fits 32 a = Some a \<and> (i < a \<longrightarrow> fits 32 (a - i) = Some (a - i))))"

lemma frandom_f_ok:
  assumes "drawable env lo hi" shows "\<exists>v p. frandom_f env lo hi s = Some (v, s\<lparr>gs_pos := p\<rparr>)"
proof (cases "fl_le (ge_fl env) hi lo")
  case True
  have "s\<lparr>gs_pos := gs_pos s\<rparr> = s" by simp
  then show ?thesis using True unfolding frandom_f_def by (metis (full_types))
next
  case False
  then obtain i a where i: "fl_trunc (ge_fl env) (fl_mul (ge_fl env) lo (fl_lit (ge_fl env) 10000 0)) = Some i"
    "fl_trunc (ge_fl env) (fl_mul (ge_fl env) hi (fl_lit (ge_fl env) 10000 0)) = Some a"
    "fits 32 i = Some i" "fits 32 a = Some a" "i < a \<longrightarrow> fits 32 (a - i) = Some (a - i)"
    using assms by (auto simp: drawable_def Let_def)
  have "\<exists>v p. irandom env i a s = Some (v, s\<lparr>gs_pos := p\<rparr>)"
  proof (cases "i < a")
    case True
    then show ?thesis using irandom_range [OF True i(3,4)] i(5) by blast
  next
    case False
    then have "irandom env i a s = Some (i, s\<lparr>gs_pos := gs_pos s\<rparr>)" by (simp add: irandom_def)
    then show ?thesis by blast
  qed
  then obtain v p where "irandom env i a s = Some (v, s\<lparr>gs_pos := p\<rparr>)" by blast
  then have "frandom_f env lo hi s = Some (fl_div (ge_fl env) (fl_int (ge_fl env) v) (fl_lit (ge_fl env) 10000 0), s\<lparr>gs_pos := p\<rparr>)"
    using False i(1,2) by (simp add: frandom_f_def)
  then show ?thesis by blast
qed

lemma GetChance_ok:
  assumes "drawable env (fl_int (ge_fl env) 0) (fl_lit (ge_fl env) 1 0)"
  shows "\<exists>b p. GetChance env chance s = Some (b, s\<lparr>gs_pos := p\<rparr>)"
  using frandom_f_ok [OF assms, of s] by (auto simp: GetChance_def)

lemma set_count_up_one: "set (count_up a b 1) = {a..<b}"
proof (induction a b "1 :: int" rule: count_up.induct)
  case (1 a b)
  then show ?case by (subst count_up.simps) auto
qed

lemma clamp_id: "low \<le> x \<Longrightarrow> x \<le> high \<Longrightarrow> clamp x low high = x"
  by (simp add: clamp_def)

lemma clamp_bounds: "low \<le> high \<Longrightarrow> low \<le> clamp x low high \<and> clamp x low high \<le> high"
  by (simp add: clamp_def)

lemma map_write_read:
  "map_write m p v = Some m' \<Longrightarrow> map_read m' q = (if q = p then Some v else map_read m q)"
  by (auto simp: map_write_def map_read_def split: if_splits)

lemma map_write_length: "map_write m p v = Some m' \<Longrightarrow> length m' = length m"
  by (auto simp: map_write_def split: if_splits)

lemma count_up_map:
  "0 < step \<Longrightarrow> a + (int n - 1) * step < b \<Longrightarrow> b \<le> a + int n * step \<Longrightarrow> count_up a b step = map (\<lambda>k. a + int k * step) [0..<n]"
proof (induction n arbitrary: a)
  case 0
  then show ?case by (subst count_up.simps) simp
next
  case (Suc n)
  have "0 \<le> int n * step" using Suc.prems(1) by simp
  then have a: "a < b" using Suc.prems(2) by simp
  have "count_up (a + step) b step = map (\<lambda>k. (a + step) + int k * step) [0..<n]"
    by (rule Suc.IH) (use Suc.prems in \<open>simp_all add: algebra_simps\<close>)
  moreover have "map (\<lambda>k. a + int k * step) [0..<Suc n] = a # map (\<lambda>k. (a + step) + int k * step) [0..<n]"
    by (simp only: upt_conv_Cons zero_less_Suc map_Suc_upt [symmetric] list.map map_map) (simp add: algebra_simps)
  ultimately show ?case using a Suc.prems(1) by (subst count_up.simps) simp
qed

end
