(* ===== verification/Perlin_Noise.thy ===== *)
theory Perlin_Noise
  imports Generator_Base
begin

text \<open>
  \<^verbatim>\<open>Generator/Noises/PerlinNoise.h\<close>: coherent noise in two and three dimensions, for any \<^verbatim>\<open>float\<close>
  arithmetic.  An index outside the table of permutations is \<open>None\<close>.
\<close>

section \<open>The table\<close>

text \<open>The source lists 512 entries; the second half repeats the first.\<close>

definition perm_half :: "int list" where
  "perm_half =
    [151, 160, 137, 91, 90, 15, 131, 13, 201, 95, 96, 53, 194, 233, 7, 225, 140, 36, 103, 30, 69, 142, 8, 99, 37, 240, 21, 10, 23, 190, 6, 148,
     247, 120, 234, 75, 0, 26, 197, 62, 94, 252, 219, 203, 117, 35, 11, 32, 57, 177, 33, 88, 237, 149, 56, 87, 174, 20, 125, 136, 171, 168, 68, 175,
     74, 165, 71, 134, 139, 48, 27, 166, 77, 146, 158, 231, 83, 111, 229, 122, 60, 211, 133, 230, 220, 105, 92, 41, 55, 46, 245, 40, 244, 102, 143, 54,
     65, 25, 63, 161, 1, 216, 80, 73, 209, 76, 132, 187, 208, 89, 18, 169, 200, 196, 135, 130, 116, 188, 159, 86, 164, 100, 109, 198, 173, 186, 3, 64,
     52, 217, 226, 250, 124, 123, 5, 202, 38, 147, 118, 126, 255, 82, 85, 212, 207, 206, 59, 227, 47, 16, 58, 17, 182, 189, 28, 42, 223, 183, 170, 213,
     119, 248, 152, 2, 44, 154, 163, 70, 221, 153, 101, 155, 167, 43, 172, 9, 129, 22, 39, 253, 19, 98, 108, 110, 79, 113, 224, 232, 178, 185, 112, 104,
     218, 246, 97, 228, 251, 34, 242, 193, 238, 210, 144, 12, 191, 179, 162, 241, 81, 51, 145, 235, 249, 14, 239, 107, 49, 192, 214, 31, 181, 199, 106, 157,
     184, 84, 204, 176, 115, 121, 50, 45, 127, 4, 150, 254, 138, 236, 205, 93, 222, 114, 67, 29, 24, 72, 243, 141, 128, 195, 78, 66, 215, 61, 156, 180]"

definition perm :: "int list" where
  "perm = perm_half @ perm_half"

definition perm_at :: "int \<Rightarrow> int option" where
  "perm_at i = (if 0 \<le> i \<and> i < 512 then Some (perm ! nat i) else None)"

section \<open>Noise\<close>

definition fade :: "'f fl \<Rightarrow> 'f \<Rightarrow> 'f" where
  "fade F t = fl_mul F (fl_mul F (fl_mul F t t) t)
     (fl_add F (fl_mul F t (fl_sub F (fl_mul F t (fl_lit F 6 0)) (fl_lit F 15 0))) (fl_lit F 10 0))"

definition lerp :: "'f fl \<Rightarrow> 'f \<Rightarrow> 'f \<Rightarrow> 'f \<Rightarrow> 'f" where
  "lerp F t a b = fl_add F a (fl_mul F t (fl_sub F b a))"

definition grad :: "'f fl \<Rightarrow> int \<Rightarrow> 'f \<Rightarrow> 'f \<Rightarrow> 'f \<Rightarrow> 'f" where
  "grad F hash x y z =
     (let h = hash AND 0xF in
      if h = 0 then fl_add F x y
      else if h = 1 then fl_add F (fl_neg F x) y
      else if h = 2 then fl_sub F x y
      else if h = 3 then fl_sub F (fl_neg F x) y
      else if h = 4 then fl_add F x x
      else if h = 5 then fl_add F (fl_neg F x) x
      else if h = 6 then fl_sub F x x
      else if h = 7 then fl_sub F (fl_neg F x) x
      else if h = 8 then fl_add F y x
      else if h = 9 then fl_add F (fl_neg F y) x
      else if h = 10 then fl_sub F y x
      else if h = 11 then fl_sub F (fl_neg F y) x
      else if h = 12 then fl_add F y z
      else if h = 13 then fl_add F (fl_neg F y) x
      else if h = 14 then fl_sub F y x
      else fl_sub F (fl_neg F y) z)"

definition grad2 :: "'f fl \<Rightarrow> int \<Rightarrow> 'f \<Rightarrow> 'f \<Rightarrow> 'f" where
  "grad2 F hash x y = grad F hash x y (fl_int F 0)"

text \<open>A hash is stored as a \<^verbatim>\<open>float\<close> on its way from the table to \<open>grad\<close>.\<close>

definition hash_at :: "'f fl \<Rightarrow> int \<Rightarrow> int option" where
  "hash_at F i = do { h \<leftarrow> perm_at i; fl_trunc F (fl_int F h) }"

definition noise3 :: "'f fl \<Rightarrow> 'f \<Rightarrow> 'f \<Rightarrow> 'f \<Rightarrow> 'f option" where
  "noise3 F x y z = do {
     ix \<leftarrow> fl_trunc F x;
     iy \<leftarrow> fl_trunc F y;
     iz \<leftarrow> fl_trunc F z;
     let x = fl_sub F x (fl_int F ix);
     let y = fl_sub F y (fl_int F iy);
     let z = fl_sub F z (fl_int F iz);
     let x1 = fl_sub F x (fl_int F 1);
     let y1 = fl_sub F y (fl_int F 1);
     let z1 = fl_sub F z (fl_int F 1);
     let gx = ix AND 0xFF;
     let gy = iy AND 0xFF;
     let gz = iz AND 0xFF;
     p \<leftarrow> perm_at gx;
     let a0 = gy + p;
     p \<leftarrow> perm_at (gx + 1);
     let b0 = gy + p;
     p \<leftarrow> perm_at a0;
     let aa = gz + p;
     p \<leftarrow> perm_at (a0 + 1);
     let ab = gz + p;
     p \<leftarrow> perm_at b0;
     let ba = gz + p;
     p \<leftarrow> perm_at (b0 + 1);
     let bb = gz + p;
     aa0 \<leftarrow> hash_at F aa;
     aa1 \<leftarrow> hash_at F (aa + 1);
     ab0 \<leftarrow> hash_at F ab;
     ab1 \<leftarrow> hash_at F (ab + 1);
     ba0 \<leftarrow> hash_at F ba;
     ba1 \<leftarrow> hash_at F (ba + 1);
     bb0 \<leftarrow> hash_at F bb;
     bb1 \<leftarrow> hash_at F (bb + 1);
     let a1 = grad F bb1 x1 y1 z1;
     let a2 = grad F ab1 x y1 z1;
     let a3 = grad F ba1 x1 y z1;
     let a4 = grad F aa1 x y z1;
     let a5 = grad F bb0 x1 y1 z;
     let a6 = grad F ab0 x y1 z;
     let a7 = grad F ba0 x1 y z;
     let a8 = grad F aa0 x y z;
     let u = fade F x;
     let v = fade F y;
     let w = fade F z;
     let a8_5 = lerp F v (lerp F u a8 a7) (lerp F u a6 a5);
     let a4_1 = lerp F v (lerp F u a4 a3) (lerp F u a2 a1);
     Some (lerp F w a8_5 a4_1)
   }"

definition fl_abs :: "'f fl \<Rightarrow> 'f \<Rightarrow> 'f" where
  "fl_abs F x = (if fl_less F (fl_int F 0) x then x else fl_neg F x)"

definition fl_min :: "'f fl \<Rightarrow> 'f \<Rightarrow> 'f \<Rightarrow> 'f" where
  "fl_min F a b = (if fl_less F a b then a else b)"

definition noise2 :: "'f fl \<Rightarrow> 'f \<Rightarrow> 'f \<Rightarrow> 'f option" where
  "noise2 F x y = do {
     let x = fl_abs F x;
     let y = fl_abs F y;
     floorX \<leftarrow> fl_trunc F x;
     floorY \<leftarrow> fl_trunc F y;
     let X = floorX AND 255;
     let Y = floorY AND 255;
     let x = fl_sub F x (fl_int F floorX);
     let y = fl_sub F y (fl_int F floorY);
     let u = fade F (fl_min F x (fl_lit F 1 0));
     let v = fade F (fl_min F y (fl_lit F 1 0));
     p \<leftarrow> perm_at X;
     let A = p + Y;
     AA \<leftarrow> perm_at A;
     AB \<leftarrow> perm_at (A + 1);
     p \<leftarrow> perm_at (X + 1);
     let B = p + Y;
     BA \<leftarrow> perm_at B;
     BB \<leftarrow> perm_at (B + 1);
     hAA \<leftarrow> perm_at AA;
     hBA \<leftarrow> perm_at BA;
     hAB \<leftarrow> perm_at AB;
     hBB \<leftarrow> perm_at BB;
     let x1 = fl_sub F x (fl_int F 1);
     let y1 = fl_sub F y (fl_int F 1);
     Some (lerp F v (lerp F u (grad2 F hAA x y) (grad2 F hBA x1 y)) (lerp F u (grad2 F hAB x y1) (grad2 F hBB x1 y1)))
   }"

definition normalized :: "'f fl \<Rightarrow> 'f \<Rightarrow> 'f" where
  "normalized F value = fl_div F (fl_add F value (fl_lit F 69 2)) (fl_add F (fl_lit F 793 3) (fl_lit F 69 2))"

definition NoiseNormalized3 :: "'f fl \<Rightarrow> 'f \<Rightarrow> 'f \<Rightarrow> 'f \<Rightarrow> 'f option" where
  "NoiseNormalized3 F x y z = map_option (normalized F) (noise3 F x y z)"

definition NoiseNormalized2 :: "'f fl \<Rightarrow> 'f \<Rightarrow> 'f \<Rightarrow> 'f option" where
  "NoiseNormalized2 F x y = map_option (normalized F) (noise2 F x y)"

section \<open>Inside the table\<close>

lemma perm_half_range: "length perm_half = 256" "list_all (\<lambda>h. 0 \<le> h \<and> h \<le> 255) perm_half"
  by (simp_all add: perm_half_def)

lemma perm_range: "length perm = 512" "h \<in> set perm \<Longrightarrow> 0 \<le> h \<and> h \<le> 255"
  using perm_half_range by (auto simp: perm_def list_all_iff)

lemma perm_at_range:
  assumes "0 \<le> i" "i < 512" obtains h where "perm_at i = Some h" "0 \<le> h" "h \<le> 255"
proof -
  have "perm ! nat i \<in> set perm" using assms perm_range(1) by simp
  then show thesis using that assms perm_range(2) by (simp add: perm_at_def)
qed

lemma mask_range: "0 \<le> i AND (255 :: int)" "i AND (255 :: int) \<le> 255"
proof -
  have "i AND 255 = i mod 256" using take_bit_eq_mask [of 8 i] by (simp add: mask_eq_exp_minus_1 take_bit_eq_mod)
  then show "0 \<le> i AND (255 :: int)" "i AND (255 :: int) \<le> 255" using pos_mod_sign [of 256 i] pos_mod_bound [of 256 i] by linarith+
qed

text \<open>What is asked of the arithmetic: small integers survive the conversion.\<close>

definition exact_bytes :: "'f fl \<Rightarrow> bool" where
  "exact_bytes F \<longleftrightarrow> (\<forall>i. 0 \<le> i \<and> i \<le> 255 \<longrightarrow> fl_trunc F (fl_int F i) = Some i)"

lemma hash_at_range:
  assumes "exact_bytes F" "0 \<le> i" "i < 512" shows "\<exists>h. hash_at F i = Some h"
proof -
  obtain h where "perm_at i = Some h" "0 \<le> h" "h \<le> 255" using perm_at_range assms(2,3) .
  then show ?thesis using assms(1) by (simp add: hash_at_def exact_bytes_def)
qed

lemma noise3_total:
  assumes F: "exact_bytes F" and t: "fl_trunc F x = Some ix" "fl_trunc F y = Some iy" "fl_trunc F z = Some iz"
  shows "\<exists>v. noise3 F x y z = Some v"
proof -
  obtain gx gy gz where g: "gx = ix AND 255" "gy = iy AND 255" "gz = iz AND 255" by simp
  note r = mask_range [of ix, folded g] mask_range [of iy, folded g] mask_range [of iz, folded g]
  obtain p where p: "perm_at gx = Some p" "0 \<le> p" "p \<le> 255" using perm_at_range [of gx] r by auto
  obtain q where q: "perm_at (gx + 1) = Some q" "0 \<le> q" "q \<le> 255" using perm_at_range [of "gx + 1"] r by auto
  obtain a where a: "perm_at (gy + p) = Some a" "0 \<le> a" "a \<le> 255" using perm_at_range [of "gy + p"] r p by auto
  obtain b where b: "perm_at (gy + p + 1) = Some b" "0 \<le> b" "b \<le> 255" using perm_at_range [of "gy + p + 1"] r p by auto
  obtain c where c: "perm_at (gy + q) = Some c" "0 \<le> c" "c \<le> 255" using perm_at_range [of "gy + q"] r q by auto
  obtain d where d: "perm_at (gy + q + 1) = Some d" "0 \<le> d" "d \<le> 255" using perm_at_range [of "gy + q + 1"] r q by auto
  have h: "\<exists>h. hash_at F (gz + i) = Some h" "\<exists>h. hash_at F (gz + i + 1) = Some h" if "0 \<le> i" "i \<le> 255" for i
    using hash_at_range [OF F, of "gz + i"] hash_at_range [OF F, of "gz + i + 1"] r that by auto
  show ?thesis unfolding noise3_def using t p(1) q(1) a(1) b(1) c(1) d(1) h [OF a(2,3)] h [OF b(2,3)] h [OF c(2,3)] h [OF d(2,3)]
    by (auto simp: Let_def g [symmetric])
qed

lemma noise2_total:
  assumes t: "fl_trunc F (fl_abs F x) = Some ix" "fl_trunc F (fl_abs F y) = Some iy"
  shows "\<exists>v. noise2 F x y = Some v"
proof -
  obtain gx gy where g: "gx = ix AND 255" "gy = iy AND 255" by simp
  note r = mask_range [of ix, folded g] mask_range [of iy, folded g]
  obtain p where p: "perm_at gx = Some p" "0 \<le> p" "p \<le> 255" using perm_at_range [of gx] r by auto
  obtain q where q: "perm_at (gx + 1) = Some q" "0 \<le> q" "q \<le> 255" using perm_at_range [of "gx + 1"] r by auto
  obtain a where a: "perm_at (p + gy) = Some a" "0 \<le> a" "a \<le> 255" using perm_at_range [of "p + gy"] r p by auto
  obtain b where b: "perm_at (p + gy + 1) = Some b" "0 \<le> b" "b \<le> 255" using perm_at_range [of "p + gy + 1"] r p by auto
  obtain c where c: "perm_at (q + gy) = Some c" "0 \<le> c" "c \<le> 255" using perm_at_range [of "q + gy"] r q by auto
  obtain d where d: "perm_at (q + gy + 1) = Some d" "0 \<le> d" "d \<le> 255" using perm_at_range [of "q + gy + 1"] r q by auto
  have h: "\<exists>h. perm_at i = Some h" if "0 \<le> i" "i \<le> 255" for i using perm_at_range [of i] that by auto
  show ?thesis unfolding noise2_def using t p(1) q(1) a(1) b(1) c(1) d(1) h [OF a(2,3)] h [OF b(2,3)] h [OF c(2,3)] h [OF d(2,3)]
    by (auto simp: Let_def g [symmetric])
qed

text \<open>
  C28. The noise never reads outside its table: for any arithmetic that keeps small integers and for any coordinates
  that have an integer part, both functions return.
\<close>

theorem noise_in_table:
  assumes "exact_bytes F" and "fl_trunc F x \<noteq> None" and "fl_trunc F y \<noteq> None" and "fl_trunc F z \<noteq> None"
    and "fl_trunc F (fl_abs F x) \<noteq> None" and "fl_trunc F (fl_abs F y) \<noteq> None"
  shows "noise3 F x y z \<noteq> None \<and> noise2 F x y \<noteq> None"
  using noise3_total [OF assms(1)] noise2_total [of F x] assms(2-6) by fastforce

text \<open>An arithmetic of fixed-point numbers with four decimal places.\<close>

definition fixed_point :: "int fl" where
  "fixed_point = \<lparr>fl_add = (+), fl_sub = (-), fl_mul = (\<lambda>a b. a * b div 10000), fl_div = (\<lambda>a b. a * 10000 div b), fl_neg = uminus,
     fl_less = (<), fl_le = (\<le>), fl_int = (\<lambda>i. i * 10000), fl_lit = (\<lambda>m k. m * 10000 div 10 ^ k),
     fl_trunc = (\<lambda>x. fits 32 (x div 10000)), fl_floor = (\<lambda>x. x div 10000 * 10000), fl_log2 = (\<lambda>x. x),
     fl_ceil = (\<lambda>x. - (- x div 10000) * 10000), fl_sqrt = (\<lambda>x. x), fl_sin = (\<lambda>x. 0), fl_cos = (\<lambda>x. 10000), fl_bits = uint\<rparr>"

text \<open>A machine with fixed-point arithmetic and numbers that are not very random; nobody stops it.\<close>

definition fixed_env :: "int gen_env" where
  "fixed_env = \<lparr>ge_fl = fixed_point, ge_rand = \<lambda>seed k. 7919 * k, ge_stop = \<lambda>k. False, ge_neighbor = \<lambda>_ _ _ _. None\<rparr>"

theorem noise_in_table_witness:
  "noise3 fixed_point 12345 (- 70001) 99999 \<noteq> None"
  using noise_in_table [of fixed_point 12345 "- 70001" 99999]
  by (simp add: exact_bytes_def fixed_point_def fits_def fl_abs_def)

end
