(* ===== verification/Diamond_Square.thy ===== *)
theory Diamond_Square
  imports Perlin_Noise
begin

text \<open>
  \<^verbatim>\<open>Generator/Generators/TerrainGenerator/Diamond_Square.h/.cpp\<close>: the height map of the world.  A height
  is a \<open>'f\<close>; a cell of the map that has not been written is \<open>None\<close>, and so is the outcome of reading
  one, or of leaving the map; a map that is a null pointer is empty.  Coordinates stay below \<open>2 ^ 16\<close>, so only
  indices can overflow.  The code after the \<^verbatim>\<open>return\<close> in the first line of \<open>Flush\<close> is never reached; the callback of
  the progress is its list of arguments; logging is left out.
\<close>

section \<open>State\<close>

record 'f diamond = gen_state +
  ds_owner :: u32
  ds_map :: "'f option list"
  ds_mapsize :: int
  ds_n :: int
  ds_H :: 'f
  ds_I :: int
  ds_depth :: int
  ds_max :: int
  ds_delta :: 'f
  ds_finished :: bool
  ds_extended :: bool
  ds_initialized :: bool
  ds_weight :: "int \<rightharpoonup> 'f"
  ds_handler :: bool
  ds_progress :: "int list"

definition ds_new :: "'f fl \<Rightarrow> gen_state \<Rightarrow> 'f diamond" where
  "ds_new F g = \<lparr>gs_seed = gs_seed g, gs_pos = gs_pos g, gs_polls = gs_polls g, ds_owner = 0, ds_map = [], ds_mapsize = 0, ds_n = 0,
     ds_H = fl_int F 0, ds_I = 0, ds_depth = 0, ds_max = 0, ds_delta = fl_int F 0, ds_finished = False, ds_extended = False,
     ds_initialized = False, ds_weight = Map.empty, ds_handler = False, ds_progress = []\<rparr>"

text \<open>\<^verbatim>\<open>std::pow(2, 2 * I) + 1\<close>, cut to an integer.\<close>

definition square_size :: "int \<Rightarrow> int option" where
  "square_size I = (if I < 0 then Some 1 else fits 32 (2 ^ nat (2 * I) + 1))"

definition ds_Initilize :: "'f gen_env \<Rightarrow> u32 \<Rightarrow> int \<Rightarrow> int \<Rightarrow> 'f \<Rightarrow> 'f option list \<Rightarrow> 'f diamond \<Rightarrow> 'f diamond option" where
  "ds_Initilize env owner seed I H heightMap s = do {
     n \<leftarrow> square_size I;
     len \<leftarrow> fits 32 (n * n);
     Some ((setRandomSeed seed s)\<lparr>ds_I := I, ds_H := fl_div (ge_fl env) H (fl_lit (ge_fl env) 100 0), ds_finished := False,
       ds_map := heightMap, ds_n := n, ds_max := n - 1, ds_mapsize := len, ds_initialized := True, ds_owner := owner\<rparr>)
   }"

definition ds_Reset :: "'f diamond \<Rightarrow> 'f diamond" where
  "ds_Reset s = s\<lparr>ds_finished := False, ds_extended := False, ds_weight := Map.empty\<rparr>"

definition ds_ReleaseUnusedBuffer :: "'f diamond \<Rightarrow> 'f diamond" where
  "ds_ReleaseUnusedBuffer s = s\<lparr>ds_weight := Map.empty, ds_initialized := False\<rparr>"

section \<open>Cells\<close>

definition ds_GetHeight :: "int \<Rightarrow> int \<Rightarrow> 'f diamond \<Rightarrow> 'f option" where
  "ds_GetHeight x y s = do {
     p \<leftarrow> GetHeightMapIndex (ds_n s) (clamp x 0 (ds_max s)) (clamp y 0 (ds_max s));
     map_read (ds_map s) p
   }"

definition ds_SetHeight :: "int \<Rightarrow> int \<Rightarrow> 'f \<Rightarrow> 'f diamond \<Rightarrow> 'f diamond option" where
  "ds_SetHeight x y v s = do {
     p \<leftarrow> GetHeightMapIndex (ds_n s) x y;
     m \<leftarrow> map_write (ds_map s) p v;
     Some (s\<lparr>ds_map := m\<rparr>)
   }"

definition ds_GetWeight :: "int \<Rightarrow> int \<Rightarrow> 'f diamond \<Rightarrow> 'f option option" where
  "ds_GetWeight x y s = map_option (ds_weight s) (GetHeightMapIndex (ds_n s) x y)"

definition ds_SetPulse :: "int \<Rightarrow> int \<Rightarrow> 'f \<Rightarrow> 'f diamond \<Rightarrow> 'f diamond option" where
  "ds_SetPulse x y h s =
     (if x \<ge> 0 \<and> x < ds_n s \<and> y \<ge> 0 \<and> y < ds_n s then do {
        key \<leftarrow> GetHeightMapIndex (ds_n s) x y;
        let s = s\<lparr>ds_extended := True, ds_weight := (case ds_weight s key of None \<Rightarrow> (ds_weight s)(key \<mapsto> h) | Some _ \<Rightarrow> ds_weight s)\<rparr>;
        if (x = 0 \<or> x = ds_max s) \<and> (y = 0 \<or> y = ds_max s) \<and> ds_initialized s then ds_SetHeight x y h s else Some s
      }
      else Some s)"

definition ds_neighbor :: "'f gen_env \<Rightarrow> int \<Rightarrow> int \<Rightarrow> neighbor \<Rightarrow> 'f diamond \<Rightarrow> 'f option" where
  "ds_neighbor env x y dir s = (if ds_extended s then ge_neighbor env x y dir (ds_owner s) else None)"

definition Randomize :: "'f gen_env \<Rightarrow> 'f \<Rightarrow> 'f diamond \<Rightarrow> ('f \<times> 'f diamond) option" where
  "Randomize env h s = frandom_f env (fl_neg (ge_fl env) h) h s"

section \<open>The two steps\<close>

text \<open>The early exit, the mean of four heights and the height from it are the same in both steps.\<close>

definition ds_preset :: "int \<Rightarrow> int \<Rightarrow> 'f diamond \<Rightarrow> 'f option option" where
  "ds_preset x y s = (if ds_extended s then ds_GetWeight x y s else Some None)"

definition mean4 :: "'f fl \<Rightarrow> 'f \<Rightarrow> 'f \<Rightarrow> 'f \<Rightarrow> 'f \<Rightarrow> 'f" where
  "mean4 F a b c d = fl_div F (fl_add F (fl_add F (fl_add F a b) c) d) (fl_lit F 4 0)"

definition ds_set_mean :: "'f gen_env \<Rightarrow> int \<Rightarrow> int \<Rightarrow> 'f \<Rightarrow> 'f \<Rightarrow> 'f diamond \<Rightarrow> 'f diamond option" where
  "ds_set_mean env x y h p s = do {
     w \<leftarrow> ds_preset x y s;
     let p = (case w of None \<Rightarrow> p | Some height \<Rightarrow> fl_div (ge_fl env) (fl_add (ge_fl env) p height) (fl_lit (ge_fl env) 2 0));
     ds_SetHeight x y (fl_add (ge_fl env) p (fl_mul (ge_fl env) h p)) s
   }"

text \<open>
  The four points of a diamond, in the buffer \<open>p\<close>; in place of the point outside the map there is the height of the
  neighbouring map or, if there is none, one of the other points.
\<close>

definition pick :: "(int \<rightharpoonup> 'f) \<Rightarrow> int \<Rightarrow> int \<Rightarrow> 'f diamond \<Rightarrow> ((int \<rightharpoonup> 'f) \<times> 'f diamond) option" where
  "pick p k i s = map_option (\<lambda>v. (p(k \<mapsto> v), s)) (p i)"

definition diamond_points :: "'f gen_env \<Rightarrow> int \<Rightarrow> int \<Rightarrow> int \<Rightarrow> 'f diamond \<Rightarrow> ((int \<rightharpoonup> 'f) \<times> 'f diamond) option" where
  "diamond_points env x y g s =
     (if x - g < 0 then do {
        p1 \<leftarrow> ds_GetHeight x (y - g) s;
        p2 \<leftarrow> ds_GetHeight g y s;
        p3 \<leftarrow> ds_GetHeight x (y + g) s;
        let p = [1 \<mapsto> p1, 2 \<mapsto> p2, 3 \<mapsto> p3];
        case ds_neighbor env (x - g) y NeighborLeft s of
          Some v \<Rightarrow> Some (p(0 \<mapsto> v), s)
        | None \<Rightarrow> do { (i, s) \<leftarrow> irandom env 1 3 s; pick p 0 i s }
      }
      else if x + g > ds_max s then do {
        p0 \<leftarrow> ds_GetHeight (x - g) y s;
        p1 \<leftarrow> ds_GetHeight x (y - g) s;
        p3 \<leftarrow> ds_GetHeight x (y + g) s;
        let p = [0 \<mapsto> p0, 1 \<mapsto> p1, 2 \<mapsto> p3, 3 \<mapsto> p3];
        case ds_neighbor env (x + g) y NeighborRight s of
          Some v \<Rightarrow> Some (p(2 \<mapsto> v), s)
        | None \<Rightarrow> do { (i, s) \<leftarrow> irandom env 0 2 s; pick p 2 (if i = 2 then i + 1 else i) s }
      }
      else if y - g < 0 then do {
        p0 \<leftarrow> ds_GetHeight (x - g) 0 s;
        p2 \<leftarrow> ds_GetHeight (x + g) 0 s;
        p3 \<leftarrow> ds_GetHeight x g s;
        let p = [0 \<mapsto> p0, 2 \<mapsto> p2, 3 \<mapsto> p3];
        case ds_neighbor env x (y - g) NeighborBottom s of
          Some v \<Rightarrow> Some (p(1 \<mapsto> v), s)
        | None \<Rightarrow> do { (i, s) \<leftarrow> irandom env 1 3 s; pick p 1 (if i = 1 then i - 1 else i) s }
      }
      else if y + g > ds_max s then do {
        p0 \<leftarrow> ds_GetHeight (x - g) y s;
        p1 \<leftarrow> ds_GetHeight x (y - g) s;
        p2 \<leftarrow> ds_GetHeight (x + g) y s;
        let p = [0 \<mapsto> p0, 1 \<mapsto> p1, 2 \<mapsto> p2];
        case ds_neighbor env x (y - g) NeighborRight s of
          Some v \<Rightarrow> Some (p(3 \<mapsto> v), s)
        | None \<Rightarrow> do { (i, s) \<leftarrow> irandom env 0 2 s; pick p 3 i s }
      }
      else do {
        p0 \<leftarrow> ds_GetHeight (x - g) y s;
        p1 \<leftarrow> ds_GetHeight x (y - g) s;
        p2 \<leftarrow> ds_GetHeight (x + g) y s;
        p3 \<leftarrow> ds_GetHeight x (y + g) s;
        Some ([0 \<mapsto> p0, 1 \<mapsto> p1, 2 \<mapsto> p2, 3 \<mapsto> p3], s)
      })"

definition ds_Diamond :: "'f gen_env \<Rightarrow> int \<Rightarrow> int \<Rightarrow> int \<Rightarrow> 'f \<Rightarrow> 'f diamond \<Rightarrow> 'f diamond option" where
  "ds_Diamond env x y g h s = do {
     w \<leftarrow> ds_preset x y s;
     case w of
       Some height \<Rightarrow> ds_SetHeight x y height s
     | None \<Rightarrow> do {
         (p, s) \<leftarrow> diamond_points env x y g s;
         p0 \<leftarrow> p 0;
         p1 \<leftarrow> p 1;
         p2 \<leftarrow> p 2;
         p3 \<leftarrow> p 3;
         ds_set_mean env x y h (mean4 (ge_fl env) p0 p1 p2 p3) s
       }
   }"

definition ds_Square :: "'f gen_env \<Rightarrow> int \<Rightarrow> int \<Rightarrow> int \<Rightarrow> 'f \<Rightarrow> 'f diamond \<Rightarrow> 'f diamond option" where
  "ds_Square env x y g h s = do {
     w \<leftarrow> ds_preset x y s;
     case w of
       Some height \<Rightarrow> ds_SetHeight x y height s
     | None \<Rightarrow> do {
         p0 \<leftarrow> ds_GetHeight (x - g) (y - g) s;
         p1 \<leftarrow> ds_GetHeight (x + g) (y - g) s;
         p2 \<leftarrow> ds_GetHeight (x - g) (y + g) s;
         p3 \<leftarrow> ds_GetHeight (x + g) (y + g) s;
         ds_set_mean env x y h (mean4 (ge_fl env) p0 p1 p2 p3) s
       }
   }"

section \<open>The loops\<close>

text \<open>
  A loop returns whether it has run to its end (it is left when the generator is stopped), and how many cells
  it has generated.
\<close>

fun gen_row :: "'f gen_env \<Rightarrow> (int \<Rightarrow> 'f \<Rightarrow> 'f diamond \<Rightarrow> 'f diamond option) \<Rightarrow> 'f \<Rightarrow> int list \<Rightarrow> int \<Rightarrow> 'f diamond \<Rightarrow> (bool \<times> int \<times> 'f diamond) option" where
  "gen_row env step H [] len s = Some (True, len, s)"
| "gen_row env step H (x # xs) len s =
     (let (stop, s) = IsStopped env s in
      if stop then Some (False, len, s)
      else do {
        (h, s) \<leftarrow> Randomize env H s;
        s \<leftarrow> step x h s;
        gen_row env step H xs (len + 1) s
      })"

fun square_rows :: "'f gen_env \<Rightarrow> int \<Rightarrow> 'f \<Rightarrow> int list \<Rightarrow> int list \<Rightarrow> int \<Rightarrow> 'f diamond \<Rightarrow> (bool \<times> int \<times> 'f diamond) option" where
  "square_rows env g H xs [] len s = Some (True, len, s)"
| "square_rows env g H xs (y # ys) len s = do {
     (go, len, s) \<leftarrow> gen_row env (\<lambda>x. ds_Square env x y g) H xs len s;
     if go then square_rows env g H xs ys len s else Some (False, len, s)
   }"

fun diamond_rows :: "'f gen_env \<Rightarrow> int \<Rightarrow> int \<Rightarrow> 'f \<Rightarrow> int list \<Rightarrow> int \<Rightarrow> 'f diamond \<Rightarrow> (bool \<times> int \<times> 'f diamond) option" where
  "diamond_rows env g prev H [] len s = Some (True, len, s)"
| "diamond_rows env g prev H (y # ys) len s = do {
     (go, len, s) \<leftarrow> gen_row env (\<lambda>x. ds_Diamond env x y g) H (count_up ((y + g) mod prev) (ds_max s + 1) prev) len s;
     if go then diamond_rows env g prev H ys len s else Some (False, len, s)
   }"

definition gen_level :: "'f gen_env \<Rightarrow> int \<Rightarrow> int \<Rightarrow> 'f \<Rightarrow> int \<Rightarrow> 'f diamond \<Rightarrow> (bool \<times> int \<times> 'f diamond) option" where
  "gen_level env g prev H len s = do {
     (go, len, s) \<leftarrow> square_rows env g H (count_up g (ds_max s) prev) (count_up g (ds_max s) prev) len s;
     if go then diamond_rows env g prev H (count_up 0 (ds_max s + 1) g) len s else Some (False, len, s)
   }"

definition report :: "'f gen_env \<Rightarrow> 'f \<Rightarrow> int \<Rightarrow> 'f diamond \<Rightarrow> (int \<times> 'f diamond) option" where
  "report env process Iprocess s = do {
     pro \<leftarrow> fl_trunc (ge_fl env) (fl_floor (ge_fl env) process);
     Some (pro, if pro > Iprocess \<and> ds_handler s then s\<lparr>ds_progress := ds_progress s @ [pro]\<rparr> else s)
   }"

function gen_levels :: "'f gen_env \<Rightarrow> int \<Rightarrow> int \<Rightarrow> 'f \<Rightarrow> 'f \<Rightarrow> 'f \<Rightarrow> int \<Rightarrow> int \<Rightarrow> 'f diamond \<Rightarrow> (bool \<times> int \<times> 'f diamond) option" where
  "gen_levels env g prev H speed process Iprocess len s =
     (if g > 0 then
        (let (stop, s) = IsStopped env s in
         if stop then Some (False, len, s)
         else do {
           (go, len, s) \<leftarrow> gen_level env g prev H len s;
           if go then do {
             let s = s\<lparr>ds_depth := ds_depth s - 1\<rparr>;
             let process = fl_add (ge_fl env) process speed;
             (pro, s) \<leftarrow> report env process Iprocess s;
             gen_levels env (g div 2) g (fl_div (ge_fl env) H (fl_lit (ge_fl env) 2 0)) speed process pro len s
           }
           else Some (False, len, s)
         })
      else Some (True, len, s))"
  by pat_completeness auto
termination by (relation "measure (\<lambda>(env, g, _). nat g)") auto

declare gen_levels.simps [simp del]

section \<open>Smoothing\<close>

definition ds_Smooth :: "'f gen_env \<Rightarrow> int \<Rightarrow> int \<Rightarrow> 'f diamond \<Rightarrow> 'f diamond option" where
  "ds_Smooth env x y s = do {
     let F = ge_fl env;
     h0 \<leftarrow> ds_GetHeight x y s;
     h1 \<leftarrow> ds_GetHeight (x + 1) y s;
     h2 \<leftarrow> ds_GetHeight (x - 1) y s;
     h3 \<leftarrow> ds_GetHeight (x + 1) (y + 1) s;
     h4 \<leftarrow> ds_GetHeight (x - 1) (y + 1) s;
     h5 \<leftarrow> ds_GetHeight (x + 1) (y - 1) s;
     h6 \<leftarrow> ds_GetHeight (x - 1) (y - 1) s;
     h7 \<leftarrow> ds_GetHeight x (y + 1) s;
     h8 \<leftarrow> ds_GetHeight x (y - 1) s;
     let q = fl_lit F 75 2;
     let h = foldl (fl_add F) (fl_lit F 0 0) [h0, h1, h2, fl_mul F h3 q, fl_mul F h4 q, fl_mul F h5 q, fl_mul F h6 q, h7, h8];
     ds_SetHeight x y (fl_div F h (fl_lit F 8 0)) s
   }"

definition blur_noise :: "'f gen_env \<Rightarrow> int \<Rightarrow> int \<Rightarrow> 'f diamond \<Rightarrow> 'f diamond option" where
  "blur_noise env x y s = do {
     let F = ge_fl env;
     height \<leftarrow> ds_GetHeight x y s;
     noise \<leftarrow> noise3 F (fl_mul F (fl_int F x) (ds_delta s)) (fl_mul F (fl_int F y) (ds_delta s)) height;
     let noise = fclamp F noise (fl_lit F (- 5) 1) (fl_lit F 5 1);
     ds_SetHeight x y (fl_mul F height (fl_add F (fl_int F 1) noise)) s
   }"

definition blur_cell :: "'f gen_env \<Rightarrow> bool \<Rightarrow> int \<times> int \<Rightarrow> 'f diamond \<Rightarrow> 'f diamond option" where
  "blur_cell env perlin c s = do {
     s \<leftarrow> (if perlin then blur_noise env (fst c) (snd c) s else Some s);
     ds_Smooth env (fst c) (snd c) s
   }"

fun blur_cells :: "'f gen_env \<Rightarrow> bool \<Rightarrow> (int \<times> int) list \<Rightarrow> 'f diamond \<Rightarrow> 'f diamond option" where
  "blur_cells env perlin [] s = Some s"
| "blur_cells env perlin (c # cs) s = Option.bind (blur_cell env perlin c s) (blur_cells env perlin cs)"

definition ds_Blur :: "'f gen_env \<Rightarrow> bool \<Rightarrow> 'f diamond \<Rightarrow> 'f diamond option" where
  "ds_Blur env perlin s =
     blur_cells env perlin (concat (map (\<lambda>y. map (\<lambda>x. (x, y)) (count_up 1 (ds_max s) 1)) (count_up 1 (ds_max s) 1))) s"

section \<open>A run\<close>

definition ds_Flush :: "'f diamond \<Rightarrow> 'f diamond" where
  "ds_Flush s = s"

text \<open>The result says whether the run was not stopped, and how many cells it has generated.\<close>

definition ds_WorkThread :: "'f gen_env \<Rightarrow> 'f diamond \<Rightarrow> (bool \<times> int \<times> 'f diamond) option" where
  "ds_WorkThread env s = do {
     let F = ge_fl env;
     let speed = fl_mul F (fl_div F (fl_int F 1) (fl_log2 F (fl_int F (ds_max s)))) (fl_lit F 100 0);
     let s = (if ds_owner s \<noteq> 0xFFFFFFFF then ds_Flush s else s);
     (go, len, s) \<leftarrow> gen_levels env (ds_max s div 2) (ds_max s) (ds_H s) speed (fl_int F 0) 0 0 s;
     if \<not> go then Some (False, len, s)
     else do {
       s \<leftarrow> ds_Blur env (fl_less F (fl_int F 0) (ds_delta s)) s;
       s \<leftarrow> ds_Blur env False s;
       Some (True, len, s\<lparr>ds_finished := True\<rparr>)
     }
   }"

text \<open>The first corner is looked up under the key 0, which is its index.\<close>

definition set_corner :: "'f gen_env \<Rightarrow> int \<Rightarrow> int \<Rightarrow> 'f \<Rightarrow> 'f diamond \<Rightarrow> 'f diamond option" where
  "set_corner env x y c s = do {
     key \<leftarrow> GetHeightMapIndex (ds_n s) x y;
     ds_SetHeight x y (case ds_weight s key of None \<Rightarrow> fl_div (ge_fl env) c (fl_lit (ge_fl env) 2000 0) | Some h \<Rightarrow> h) s
   }"

definition set_corners :: "'f gen_env \<Rightarrow> 'f list \<Rightarrow> 'f diamond \<Rightarrow> 'f diamond option" where
  "set_corners env cs s = do {
     s \<leftarrow> set_corner env 0 0 (cs ! 0) s;
     s \<leftarrow> set_corner env (ds_max s) 0 (cs ! 1) s;
     s \<leftarrow> set_corner env 0 (ds_max s) (cs ! 2) s;
     set_corner env (ds_max s) (ds_max s) (cs ! 3) s
   }"

definition ds_Start :: "'f gen_env \<Rightarrow> 'f list option \<Rightarrow> int \<Rightarrow> int \<Rightarrow> 'f diamond \<Rightarrow> (bool \<times> int \<times> 'f diamond) option" where
  "ds_Start env corner k mapWidth s =
     (let F = ge_fl env; s = s\<lparr>ds_finished := False\<rparr> in
      case corner of
        None \<Rightarrow> Some (False, 0, s)
      | Some cs \<Rightarrow>
          if k \<noteq> 4 then Some (False, 0, s)
          else do {
            let d = fl_div F (fl_int F mapWidth) (fl_int F (ds_n s));
            let s = s\<lparr>ds_delta := (if fl_less F d (fl_lit F 1 3) then fl_lit F (- 1) 2 else d)\<rparr>;
            s \<leftarrow> (if ds_owner s = 0xFFFFFFFF then
                   (if length cs < 4 then None else set_corners env cs s)
                  else Some s);
            ds_WorkThread env s
          })"

end
