(* ===== verification/Diamond_Cells.thy ===== *)
theory Diamond_Cells
  imports Diamond_Square
begin

text \<open>
  The cells of the height map, and what the steps and the loops of the diamond-square algorithm read and write, for
  any arithmetic and any random numbers.
\<close>

section \<open>Cells\<close>

definition cell :: "'f diamond \<Rightarrow> int \<times> int \<Rightarrow> 'f option" where
  "cell s c = map_read (ds_map s) (fst c + snd c * ds_n s)"

definition shaped :: "int \<Rightarrow> 'f diamond \<Rightarrow> bool" where
  "shaped M s \<longleftrightarrow> 0 < M \<and> M \<le> 2 ^ 14 \<and> ds_max s = M \<and> ds_n s = M + 1 \<and> int (length (ds_map s)) = (M + 1) * (M + 1)"

definition inside :: "int \<Rightarrow> (int \<times> int) set" where
  "inside M = {0..M} \<times> {0..M}"

text \<open>What the steps leave alone besides the cells.\<close>

definition same_grid :: "'f diamond \<Rightarrow> 'f diamond \<Rightarrow> bool" where
  "same_grid s s' \<longleftrightarrow> ds_max s' = ds_max s \<and> ds_n s' = ds_n s \<and> length (ds_map s') = length (ds_map s) \<and> ds_H s' = ds_H s \<and>
     ds_delta s' = ds_delta s \<and> ds_owner s' = ds_owner s \<and> ds_handler s' = ds_handler s \<and> ds_extended s' = ds_extended s \<and>
     ds_weight s' = ds_weight s"

lemma same_grid_refl [simp]: "same_grid s s"
  by (simp add: same_grid_def)

lemma same_grid_trans: "same_grid a b \<Longrightarrow> same_grid b c \<Longrightarrow> same_grid a c"
  by (simp add: same_grid_def)

lemma shaped_same: "same_grid s s' \<Longrightarrow> shaped M s \<Longrightarrow> shaped M s'"
  by (simp add: same_grid_def shaped_def)

lemma index_ok:
  assumes "shaped M s" "(x, y) \<in> inside M"
  shows "GetHeightMapIndex (ds_n s) x y = Some (x + y * ds_n s)" "0 \<le> x + y * ds_n s" "x + y * ds_n s < int (length (ds_map s))"
proof -
  have r: "0 \<le> x" "x \<le> M" "0 \<le> y" "y \<le> M" "M \<le> 2 ^ 14" using assms by (simp_all add: shaped_def inside_def)
  have y: "0 \<le> y * (M + 1)" "y * (M + 1) \<le> M * (M + 1)" using r by (simp_all add: mult_right_mono)
  have "M * (M + 1) \<le> 2 ^ 14 * (2 ^ 14 + 1)" using r by (intro mult_mono) simp_all
  then have "M * (M + 1) \<le> 268451840" by simp
  then have "y * (M + 1) \<le> 268451840" "M \<le> 16384" using order_trans [OF y(2)] r by simp_all
  then have b: "y * (M + 1) < 2 ^ 31" "x + y * (M + 1) < 2 ^ 31" using r by simp_all
  have c: "x + y * (M + 1) < (M + 1) * (M + 1)" using y r by (simp add: algebra_simps)
  obtain p where p: "p = y * (M + 1)" by simp
  then have "0 \<le> p" "p < 2 ^ 31" "x + p < 2 ^ 31" "x + p < (M + 1) * (M + 1)" using y(1) b c by (simp_all only:)
  then have f: "fits 32 p = Some p" "fits 32 (x + p) = Some (x + p)" "0 \<le> x + p" "x + p < (M + 1) * (M + 1)"
    using r(1) by (simp_all add: fits_def)
  have n: "ds_n s = M + 1" "int (length (ds_map s)) = (M + 1) * (M + 1)" using assms(1) by (simp_all add: shaped_def)
  show "GetHeightMapIndex (ds_n s) x y = Some (x + y * ds_n s)" "0 \<le> x + y * ds_n s" "x + y * ds_n s < int (length (ds_map s))"
    using f unfolding n p by (simp_all add: GetHeightMapIndex_def)
qed

lemma index_inj:
  assumes "0 \<le> x" "x < n" "0 \<le> x'" "x' < (n :: int)" "x + y * n = x' + y' * n"
  shows "x = x' \<and> y = y'"
proof -
  have "(x + y * n) mod n = x" "(x' + y' * n) mod n = x'" "(x + y * n) div n = y" "(x' + y' * n) div n = y'"
    using assms(1-4) by simp_all
  then show ?thesis using assms(5) by metis
qed

lemma get_cell: "shaped M s \<Longrightarrow> (x, y) \<in> inside M \<Longrightarrow> ds_GetHeight x y s = cell s (x, y)"
  using index_ok(1) [of M s x y] by (auto simp: ds_GetHeight_def cell_def shaped_def inside_def clamp_id)

lemma get_known:
  assumes "shaped M s" "\<forall>c \<in> inside M. cell s c \<noteq> None" shows "\<exists>v. ds_GetHeight x y s = Some v"
proof -
  have "ds_GetHeight x y s = ds_GetHeight (clamp x 0 M) (clamp y 0 M) s"
    using assms(1) by (simp add: ds_GetHeight_def shaped_def clamp_def)
  moreover have "(clamp x 0 M, clamp y 0 M) \<in> inside M" using assms(1) by (simp add: shaped_def inside_def clamp_def)
  ultimately show ?thesis using get_cell [OF assms(1)] assms(2) by fastforce
qed

lemma set_cell:
  assumes "shaped M s" "(x, y) \<in> inside M"
  shows "\<exists>s'. ds_SetHeight x y v s = Some s' \<and> same_grid s s' \<and> (\<forall>c \<in> inside M. cell s' c = (if c = (x, y) then Some v else cell s c))"
proof -
  note i = index_ok [OF assms]
  obtain m where m: "map_write (ds_map s) (x + y * ds_n s) v = Some m" using i(2,3) by (simp add: map_write_def)
  have "cell (s\<lparr>ds_map := m\<rparr>) c = (if c = (x, y) then Some v else cell s c)" if "c \<in> inside M" for c
  proof -
    have "fst c + snd c * ds_n s = x + y * ds_n s \<longleftrightarrow> c = (x, y)"
      using index_inj [of "fst c" "M + 1" x "snd c" y] that assms by (auto simp: inside_def shaped_def)
    then show ?thesis using map_write_read [OF m] by (simp add: cell_def)
  qed
  then show ?thesis using i(1) m map_write_length [OF m] by (simp add: ds_SetHeight_def same_grid_def)
qed

lemma preset_ok: "shaped M s \<Longrightarrow> (x, y) \<in> inside M \<Longrightarrow> \<exists>w. ds_preset x y s = Some w"
  using index_ok(1) [of M s x y] by (simp add: ds_preset_def ds_GetWeight_def)

text \<open>A step at \<open>(x, y)\<close> writes this cell and no other.\<close>

definition writes :: "int \<Rightarrow> (int \<times> int) set \<Rightarrow> 'f diamond \<Rightarrow> 'f diamond \<Rightarrow> bool" where
  "writes M C s s' \<longleftrightarrow> same_grid s s' \<and> (\<forall>c \<in> inside M. if c \<in> C then cell s' c \<noteq> None else cell s' c = cell s c)"

lemma writes_none: "same_grid s s' \<Longrightarrow> ds_map s' = ds_map s \<Longrightarrow> writes M {} s s'"
  by (simp add: writes_def cell_def same_grid_def)

lemma writes_trans: "writes M A a b \<Longrightarrow> writes M B b c \<Longrightarrow> writes M (A \<union> B) a c"
  unfolding writes_def using same_grid_trans by (metis Un_iff)

lemma writes_known: "writes M C s s' \<Longrightarrow> c \<in> inside M \<Longrightarrow> cell s c \<noteq> None \<or> c \<in> C \<Longrightarrow> cell s' c \<noteq> None"
  by (auto simp: writes_def split: if_splits)

lemma writes_frame: "writes M C s s' \<Longrightarrow> C \<subseteq> D \<Longrightarrow> \<forall>c \<in> inside M - D. cell s' c = cell s c"
  unfolding writes_def by (metis Diff_iff subsetD)

lemma set_writes:
  assumes "shaped M s" "(x, y) \<in> inside M"
  shows "\<exists>s'. ds_SetHeight x y v s = Some s' \<and> writes M {(x, y)} s s'"
  using set_cell [OF assms, of v] by (auto simp: writes_def)

lemma set_mean_writes:
  assumes "shaped M s" "(x, y) \<in> inside M"
  shows "\<exists>s'. ds_set_mean env x y h p s = Some s' \<and> writes M {(x, y)} s s'"
  using preset_ok [OF assms] set_writes [OF assms] by (auto simp: ds_set_mean_def Let_def)

section \<open>Random numbers\<close>

definition quiet :: "'f diamond \<Rightarrow> 'f diamond \<Rightarrow> bool" where
  "quiet s s' \<longleftrightarrow> same_grid s s' \<and> ds_map s' = ds_map s"

lemma quiet_refl [simp]: "quiet s s"
  by (simp add: quiet_def)

lemma quiet_writes: "quiet s s' \<Longrightarrow> writes M {} s s'"
  by (simp add: quiet_def writes_none)

lemma quiet_cell: "quiet s s' \<Longrightarrow> cell s' = cell s"
  by (simp add: quiet_def same_grid_def cell_def fun_eq_iff)

lemma quiet_pos: "quiet s (s\<lparr>gs_pos := p\<rparr>)"
  by (simp add: quiet_def same_grid_def)

lemma irandom_ok:
  assumes "lo < hi" "fits 32 lo = Some lo" "fits 32 hi = Some hi" "fits 32 (hi - lo) = Some (hi - lo)"
  shows "\<exists>v s'. irandom env lo hi s = Some (v, s') \<and> quiet s s' \<and> lo \<le> v \<and> v < hi"
  using irandom_range [OF assms, of env s] quiet_pos by blast

definition rough :: "'f gen_env \<Rightarrow> 'f \<Rightarrow> bool" where
  "rough env H \<longleftrightarrow> drawable env (fl_neg (ge_fl env) H) H"

lemma Randomize_ok:
  assumes "rough env H" shows "\<exists>h s'. Randomize env H s = Some (h, s') \<and> quiet s s'"
  using frandom_f_ok [of env "fl_neg (ge_fl env) H" H s] assms quiet_pos unfolding rough_def Randomize_def by blast

section \<open>The two steps\<close>

lemma square_ok:
  assumes s: "shaped M s" and c: "(x, y) \<in> inside M" "x - g \<ge> 0" "x + g \<le> M" "y - g \<ge> 0" "y + g \<le> M" "0 \<le> g"
    and k: "cell s (x - g, y - g) \<noteq> None" "cell s (x + g, y - g) \<noteq> None" "cell s (x - g, y + g) \<noteq> None" "cell s (x + g, y + g) \<noteq> None"
  shows "\<exists>s'. ds_Square env x y g h s = Some s' \<and> writes M {(x, y)} s s'"
proof -
  have "(x - g, y - g) \<in> inside M" "(x + g, y - g) \<in> inside M" "(x - g, y + g) \<in> inside M" "(x + g, y + g) \<in> inside M"
    using c by (auto simp: inside_def)
  note r = this [THEN get_cell [OF s]]
  obtain w where w: "ds_preset x y s = Some w" using preset_ok [OF s c(1)] by blast
  show ?thesis
  proof (cases w)
    case None
    then show ?thesis using w r k set_mean_writes [OF s c(1)] by (auto simp: ds_Square_def)
  next
    case (Some v)
    then show ?thesis using w set_writes [OF s c(1), of v] by (simp add: ds_Square_def)
  qed
qed

text \<open>
  The grid of a level: \<open>N\<close> steps of \<open>g\<close> in each direction.  A diamond lies where the coordinates differ in
  parity, and reads where they agree.
\<close>

definition agree :: "int \<Rightarrow> int \<Rightarrow> (int \<times> int) set" where
  "agree g N = {c. \<exists>u v. c = (u * g, v * g) \<and> 0 \<le> u \<and> u \<le> N \<and> 0 \<le> v \<and> v \<le> N \<and> even (u + v)}"

lemma agreeI: "0 \<le> u \<Longrightarrow> u \<le> N \<Longrightarrow> 0 \<le> v \<Longrightarrow> v \<le> N \<Longrightarrow> even (u + v) \<Longrightarrow> (u * g, v * g) \<in> agree g N"
  by (auto simp: agree_def)

lemma agree_inside: "0 < g \<Longrightarrow> agree g N \<subseteq> inside (N * g)"
  by (auto simp: agree_def inside_def mult_right_mono)

lemma diamond_points_ok:
  assumes s: "shaped (N * g) s" and g: "0 < g" "even N" and known: "\<forall>c \<in> agree g N. cell s c \<noteq> None"
    and c: "x = u * g" "y = v * g" "0 \<le> u" "u \<le> N" "0 \<le> v" "v \<le> N" "odd (u + v)"
  shows "\<exists>p s' p0 p1 p2 p3. diamond_points env x y g s = Some (p, s') \<and> quiet s s' \<and> p 0 = Some p0 \<and> p 1 = Some p1 \<and> p 2 = Some p2 \<and> p 3 = Some p3"
proof -
  have M: "ds_max s = N * g" using s by (simp add: shaped_def)
  have at: "\<exists>h. ds_GetHeight a b s = Some h" if "a = i * g" "b = j * g" "0 \<le> i" "i \<le> N" "0 \<le> j" "j \<le> N" "even (i + j)" for a b i j
  proof -
    have "(a, b) \<in> agree g N" using that agreeI by simp
    then show ?thesis using known get_cell [OF s] agree_inside [OF g(1)] by (metis not_None_eq subsetD)
  qed
  have bound: "x - g < 0 \<longleftrightarrow> u = 0" "x + g > ds_max s \<longleftrightarrow> u = N" "y - g < 0 \<longleftrightarrow> v = 0" "y + g > ds_max s \<longleftrightarrow> v = N"
  proof -
    have "u * g - g < 0 \<longleftrightarrow> u * g < 1 * g" "u * g + g > N * g \<longleftrightarrow> N * g < (u + 1) * g" "v * g - g < 0 \<longleftrightarrow> v * g < 1 * g"
      "v * g + g > N * g \<longleftrightarrow> N * g < (v + 1) * g" by (simp_all add: algebra_simps)
    then show "x - g < 0 \<longleftrightarrow> u = 0" "x + g > ds_max s \<longleftrightarrow> u = N" "y - g < 0 \<longleftrightarrow> v = 0" "y + g > ds_max s \<longleftrightarrow> v = N"
      unfolding M c(1,2) mult_less_cancel_right using g(1) c(3-6) by auto
  qed
  have two: "fits 32 0 = Some 0" "fits 32 1 = Some 1" "fits 32 2 = Some 2" "fits 32 3 = Some 3" by (simp_all add: fits_def)
  obtain i s1 where i: "irandom env 1 3 s = Some (i, s1)" "quiet s s1" "1 \<le> i" "i < 3" using irandom_ok [of 1 3 env s] two by auto
  then have i12: "i = 1 \<or> i = 2" by linarith
  obtain j s2 where j: "irandom env 0 2 s = Some (j, s2)" "quiet s s2" "0 \<le> j" "j < 2" using irandom_ok [of 0 2 env s] two by auto
  then have j01: "j = 0 \<or> j = 1" by linarith
  have left: "u \<noteq> 0 \<Longrightarrow> \<exists>h. ds_GetHeight (x - g) y s = Some h" by (rule at [of _ "u - 1" _ v]) (use c in \<open>auto simp: algebra_simps\<close>)
  have right: "u \<noteq> N \<Longrightarrow> \<exists>h. ds_GetHeight (x + g) y s = Some h" by (rule at [of _ "u + 1" _ v]) (use c in \<open>auto simp: algebra_simps\<close>)
  have below: "v \<noteq> 0 \<Longrightarrow> \<exists>h. ds_GetHeight x (y - g) s = Some h" by (rule at [of _ u _ "v - 1"]) (use c in \<open>auto simp: algebra_simps\<close>)
  have above: "v \<noteq> N \<Longrightarrow> \<exists>h. ds_GetHeight x (y + g) s = Some h" by (rule at [of _ u _ "v + 1"]) (use c in \<open>auto simp: algebra_simps\<close>)
  consider "u = 0" | "u \<noteq> 0" "u = N" | "u \<noteq> 0" "u \<noteq> N" "v = 0" | "u \<noteq> 0" "u \<noteq> N" "v \<noteq> 0" "v = N" | "u \<noteq> 0" "u \<noteq> N" "v \<noteq> 0" "v \<noteq> N" by blast
  then show ?thesis
  proof cases
    case 1
    then have v: "v \<noteq> 0" "v \<noteq> N" using c(7) g(2) by auto
    have N: "u \<noteq> N" using v c(5,6) 1 by auto
    obtain p1 p2 p3 where "ds_GetHeight x (y - g) s = Some p1" "ds_GetHeight g y s = Some p2" "ds_GetHeight x (y + g) s = Some p3"
      using below [OF v(1)] right [OF N] above [OF v(2)] 1 c(1) by auto
    then show ?thesis using 1 bound(1) i(1,2) i12 by (auto simp: diamond_points_def Let_def pick_def split: option.splits)
  next
    case 2
    then have v: "v \<noteq> 0" "v \<noteq> N" using c(7) g(2) by auto
    obtain p0 p1 p3 where "ds_GetHeight (x - g) y s = Some p0" "ds_GetHeight x (y - g) s = Some p1" "ds_GetHeight x (y + g) s = Some p3"
      using left [OF 2(1)] below [OF v(1)] above [OF v(2)] by auto
    then show ?thesis using 2 bound(1,2) j(1,2) j01 by (auto simp: diamond_points_def Let_def pick_def split: option.splits)
  next
    case 3
    have v: "v \<noteq> N" using 3 c(3,4) by auto
    obtain p0 p2 p3 where "ds_GetHeight (x - g) 0 s = Some p0" "ds_GetHeight (x + g) 0 s = Some p2" "ds_GetHeight x g s = Some p3"
      using left [OF 3(1)] right [OF 3(2)] above [OF v] 3 c(2) by auto
    then show ?thesis using 3 bound(1,2,3) i(1,2) i12 by (auto simp: diamond_points_def Let_def pick_def split: option.splits)
  next
    case 4
    obtain p0 p1 p2 where "ds_GetHeight (x - g) y s = Some p0" "ds_GetHeight x (y - g) s = Some p1" "ds_GetHeight (x + g) y s = Some p2"
      using left [OF 4(1)] below [OF 4(3)] right [OF 4(2)] by auto
    then show ?thesis using 4 bound j(1,2) j01 by (auto simp: diamond_points_def Let_def pick_def split: option.splits)
  next
    case 5
    obtain p0 p1 p2 p3 where "ds_GetHeight (x - g) y s = Some p0" "ds_GetHeight x (y - g) s = Some p1" "ds_GetHeight (x + g) y s = Some p2"
      "ds_GetHeight x (y + g) s = Some p3" using left [OF 5(1)] below [OF 5(3)] right [OF 5(2)] above [OF 5(4)] by auto
    then show ?thesis using 5 bound by (auto simp: diamond_points_def)
  qed
qed

lemma diamond_ok:
  assumes s: "shaped (N * g) s" and g: "0 < g" "even N" and known: "\<forall>c \<in> agree g N. cell s c \<noteq> None"
    and c: "x = u * g" "y = v * g" "0 \<le> u" "u \<le> N" "0 \<le> v" "v \<le> N" "odd (u + v)"
  shows "\<exists>s'. ds_Diamond env x y g h s = Some s' \<and> writes (N * g) {(x, y)} s s'"
proof -
  have i: "(x, y) \<in> inside (N * g)" using c(1-6) g(1) by (simp add: inside_def mult_right_mono)
  obtain w where w: "ds_preset x y s = Some w" using preset_ok [OF s i] by blast
  show ?thesis
  proof (cases w)
    case None
    obtain p s1 p0 p1 p2 p3 where p: "diamond_points env x y g s = Some (p, s1)" "quiet s s1"
      "p 0 = Some p0" "p 1 = Some p1" "p 2 = Some p2" "p 3 = Some p3" using diamond_points_ok [OF s g known c] by blast
    have s1: "shaped (N * g) s1" using p(2) shaped_same [OF _ s] by (simp add: quiet_def)
    obtain s' where s': "ds_set_mean env x y h (mean4 (ge_fl env) p0 p1 p2 p3) s1 = Some s'" "writes (N * g) {(x, y)} s1 s'"
      using set_mean_writes [OF s1 i] by blast
    have "writes (N * g) {(x, y)} s s'" using writes_trans [OF quiet_writes [OF p(2)] s'(2)] by simp
    then show ?thesis using None w p s'(1) by (simp add: ds_Diamond_def)
  next
    case (Some v)
    then show ?thesis using w set_writes [OF s i, of v] by (simp add: ds_Diamond_def)
  qed
qed

section \<open>The loops\<close>

text \<open>A loop that was not left has written its cells and counted them.\<close>

definition ran :: "'f gen_env \<Rightarrow> int \<Rightarrow> (int \<times> int) set \<Rightarrow> nat \<Rightarrow> int \<Rightarrow> 'f diamond \<Rightarrow> (bool \<times> int \<times> 'f diamond) option \<Rightarrow> bool" where
  "ran env M C n len s r \<longleftrightarrow> (case r of
     None \<Rightarrow> False
   | Some (go, len', s') \<Rightarrow> same_grid s s' \<and> (go \<longrightarrow> writes M C s s' \<and> len' = len + int n) \<and> ((\<forall>k. \<not> ge_stop env k) \<longrightarrow> go))"

lemma ranE:
  assumes "ran env M C n len s r"
  obtains go len' s' where "r = Some (go, len', s')" "same_grid s s'" "go \<longrightarrow> writes M C s s' \<and> len' = len + int n"
    "(\<forall>k. \<not> ge_stop env k) \<longrightarrow> go"
  using assms unfolding ran_def by (auto split: option.splits prod.splits)

lemma ran_done: "ran env M {} 0 len s (Some (True, len, s))"
  by (simp add: ran_def writes_def)

lemma ran_stopped: "ge_stop env k \<Longrightarrow> same_grid s s' \<Longrightarrow> ran env M C n len s (Some (False, len', s'))"
  by (auto simp: ran_def)

lemma ran_then:
  assumes r: "ran env M A n len s r"
    and rest: "\<And>len' s'. r = Some (True, len', s') \<Longrightarrow> writes M A s s' \<Longrightarrow> len' = len + int n \<Longrightarrow> ran env M B m len' s' (f len' s')"
  shows "ran env M (A \<union> B) (n + m) len s
    (Option.bind r (\<lambda>(go, len, s). if go then f len s else Some (False, len, s)))"
  using r
proof (rule ranE)
  fix go len' s'
  assume r': "r = Some (go, len', s')" "same_grid s s'" "go \<longrightarrow> writes M A s s' \<and> len' = len + int n" "(\<forall>k. \<not> ge_stop env k) \<longrightarrow> go"
  show ?thesis
  proof (cases go)
    case True
    then have w: "writes M A s s'" "len' = len + int n" using r'(3) by simp_all
    have "ran env M B m len' s' (f len' s')" using rest [of len' s'] r'(1) True w by simp
    then obtain go2 l2 s2 where t: "f len' s' = Some (go2, l2, s2)" "same_grid s' s2" "go2 \<longrightarrow> writes M B s' s2 \<and> l2 = len' + int m"
      "(\<forall>k. \<not> ge_stop env k) \<longrightarrow> go2" by (rule ranE)
    have "go2 \<longrightarrow> writes M (A \<union> B) s s2 \<and> l2 = len + int (n + m)" using t(3) w writes_trans [OF w(1)] by auto
    then show ?thesis using r'(1) t True same_grid_trans [OF r'(2) t(2)] unfolding ran_def by auto
  next
    case False
    then show ?thesis using r' by (auto simp: ran_def)
  qed
qed

lemma shaped_writes: "shaped M s \<Longrightarrow> writes M C s s' \<Longrightarrow> shaped M s'"
  using shaped_same by (auto simp: writes_def)

lemma known_writes:
  assumes "writes M C s s'" "K \<subseteq> inside M" "\<forall>c \<in> K. cell s c \<noteq> None" shows "\<forall>c \<in> K. cell s' c \<noteq> None"
  using writes_known [OF assms(1)] assms(2,3) by blast

lemma row_ok:
  assumes H: "rough env H" and K: "K \<subseteq> inside M"
    and step: "\<And>x h s. x \<in> set xs \<Longrightarrow> shaped M s \<Longrightarrow> \<forall>c \<in> K. cell s c \<noteq> None \<Longrightarrow> \<exists>s'. step x h s = Some s' \<and> writes M {(x, y)} s s'"
  shows "shaped M s \<Longrightarrow> \<forall>c \<in> K. cell s c \<noteq> None \<Longrightarrow>
    ran env M ((\<lambda>x. (x, y)) ` set xs) (length xs) len s (gen_row env step H xs len s)"
  using step
proof (induction xs arbitrary: len s)
  case Nil
  then show ?case using ran_done by simp
next
  case (Cons x xs)
  obtain s1 where s1: "IsStopped env s = (ge_stop env (gs_polls s), s1)" "quiet s s1"
    by (simp add: IsStopped_def quiet_def same_grid_def)
  show ?case
  proof (cases "ge_stop env (gs_polls s)")
    case True
    then show ?thesis using s1 ran_stopped [OF True] by (simp add: quiet_def)
  next
    case False
    obtain h s2 where s2: "Randomize env H s1 = Some (h, s2)" "quiet s1 s2" using Randomize_ok [OF H] by blast
    have w2: "writes M {} s s2" using writes_trans [OF quiet_writes [OF s1(2)] quiet_writes [OF s2(2)], of M] by simp
    obtain s3 where s3: "step x h s2 = Some s3" "writes M {(x, y)} s2 s3"
      using Cons.prems(3) [of x s2 h] shaped_writes [OF Cons.prems(1) w2] known_writes [OF w2 K Cons.prems(2)] by auto
    have w3: "writes M {(x, y)} s s3" using writes_trans [OF w2 s3(2)] by simp
    have r: "ran env M ((\<lambda>x. (x, y)) ` set xs) (length xs) (len + 1) s3 (gen_row env step H xs (len + 1) s3)"
      by (rule Cons.IH [OF shaped_writes [OF Cons.prems(1) w3] known_writes [OF w3 K Cons.prems(2)]]) (use Cons.prems(3) in auto)
    have "same_grid s s3" using w3 by (simp add: writes_def)
    then have "ran env M {(x, y)} 1 len s (Some (True, len + 1, s3))" using w3 by (simp add: ran_def)
    from ran_then [OF this, of "(\<lambda>x. (x, y)) ` set xs" "length xs" "gen_row env step H xs"] r False s1(1) s2(1) s3(1)
    show ?thesis by simp
  qed
qed

lemma square_rows_ok:
  assumes H: "rough env H" and g: "0 \<le> g" and K: "K \<subseteq> inside M" and xs: "set xs \<times> set ys \<subseteq> inside M"
    and reads: "\<And>x y. x \<in> set xs \<Longrightarrow> y \<in> set ys \<Longrightarrow> {(x - g, y - g), (x + g, y - g), (x - g, y + g), (x + g, y + g)} \<subseteq> K"
  shows "shaped M s \<Longrightarrow> \<forall>c \<in> K. cell s c \<noteq> None \<Longrightarrow>
    ran env M (set xs \<times> set ys) (length xs * length ys) len s (square_rows env g H xs ys len s)"
  using xs reads
proof (induction ys arbitrary: len s)
  case Nil
  then show ?case using ran_done by simp
next
  case (Cons y ys)
  have step: "\<exists>s'. ds_Square env x y g h s = Some s' \<and> writes M {(x, y)} s s'"
    if x: "x \<in> set xs" "shaped M s" "\<forall>c \<in> K. cell s c \<noteq> None" for x h s
  proof -
    have r: "(x - g, y - g) \<in> K" "(x + g, y - g) \<in> K" "(x - g, y + g) \<in> K" "(x + g, y + g) \<in> K" using Cons.prems(4) [OF x(1), of y] by simp_all
    then have "(x - g, y - g) \<in> inside M" "(x + g, y + g) \<in> inside M" using K by blast+
    moreover have "(x, y) \<in> inside M" using Cons.prems(3) x(1) by auto
    ultimately show ?thesis using r x(3) g by (intro square_ok [OF x(2)]) (auto simp: inside_def)
  qed
  have row: "ran env M ((\<lambda>x. (x, y)) ` set xs) (length xs) len s (gen_row env (\<lambda>x. ds_Square env x y g) H xs len s)"
    by (rule row_ok [OF H K step Cons.prems(1,2)])
  have rest: "ran env M (set xs \<times> set ys) (length xs * length ys) l t (square_rows env g H xs ys l t)"
    if w: "writes M ((\<lambda>x. (x, y)) ` set xs) s t" for l t
    by (rule Cons.IH [OF shaped_writes [OF Cons.prems(1) w] known_writes [OF w K Cons.prems(2)]]) (use Cons.prems(3,4) in auto)
  have "ran env M ((\<lambda>x. (x, y)) ` set xs \<union> set xs \<times> set ys) (length xs + length xs * length ys) len s (square_rows env g H xs (y # ys) len s)"
    using ran_then [OF row rest] by simp
  moreover have "(\<lambda>x. (x, y)) ` set xs \<union> set xs \<times> set ys = set xs \<times> set (y # ys)" by auto
  ultimately show ?case by simp
qed

lemma diamond_rows_ok:
  assumes H: "rough env H" and g: "0 < g" "even N" and M: "M = N * g"
    and cells: "\<And>y x. y \<in> set ys \<Longrightarrow> x \<in> set (count_up ((y + g) mod prev) (M + 1) prev) \<Longrightarrow>
      \<exists>u v. x = u * g \<and> y = v * g \<and> 0 \<le> u \<and> u \<le> N \<and> 0 \<le> v \<and> v \<le> N \<and> odd (u + v)"
  shows "shaped M s \<Longrightarrow> \<forall>c \<in> agree g N. cell s c \<noteq> None \<Longrightarrow>
    ran env M (\<Union>y \<in> set ys. (\<lambda>x. (x, y)) ` set (count_up ((y + g) mod prev) (M + 1) prev))
      (sum_list (map (\<lambda>y. length (count_up ((y + g) mod prev) (M + 1) prev)) ys)) len s (diamond_rows env g prev H ys len s)"
  using cells
proof (induction ys arbitrary: len s)
  case Nil
  then show ?case using ran_done by simp
next
  case (Cons y ys)
  have K: "agree g N \<subseteq> inside M" using agree_inside [OF g(1)] M by simp
  let ?xs = "count_up ((y + g) mod prev) (M + 1) prev"
  have step: "\<exists>s'. ds_Diamond env x y g h s = Some s' \<and> writes M {(x, y)} s s'"
    if x: "x \<in> set ?xs" "shaped M s" "\<forall>c \<in> agree g N. cell s c \<noteq> None" for x h s
  proof -
    obtain u v where "x = u * g" "y = v * g" "0 \<le> u" "u \<le> N" "0 \<le> v" "v \<le> N" "odd (u + v)" using Cons.prems(3) [of y x] x(1) by auto
    then show ?thesis using diamond_ok [of N g s x u y v env h] x(2,3) g M by simp
  qed
  have row: "ran env M ((\<lambda>x. (x, y)) ` set ?xs) (length ?xs) len s (gen_row env (\<lambda>x. ds_Diamond env x y g) H ?xs len s)"
    by (rule row_ok [OF H K step Cons.prems(1,2)])
  have rest: "ran env M (\<Union>y \<in> set ys. (\<lambda>x. (x, y)) ` set (count_up ((y + g) mod prev) (M + 1) prev))
      (sum_list (map (\<lambda>y. length (count_up ((y + g) mod prev) (M + 1) prev)) ys)) l t (diamond_rows env g prev H ys l t)"
    if w: "writes M ((\<lambda>x. (x, y)) ` set ?xs) s t" for l t
    by (rule Cons.IH [OF shaped_writes [OF Cons.prems(1) w] known_writes [OF w K Cons.prems(2)]]) (use Cons.prems(3) in auto)
  have "ds_max s = M" using Cons.prems(1) by (simp add: shaped_def)
  then show ?case using ran_then [OF row rest] by simp
qed

end
