(* ===== verification/Diamond_Levels.thy ===== *)
theory Diamond_Levels
  imports Diamond_Cells
begin

text \<open>
  A level of the algorithm halves the distance of the grid of written cells: it writes each cell of the finer grid
  that was not in the coarser one, and reads only cells that it knows.
\<close>

section \<open>A level\<close>

definition grid :: "int \<Rightarrow> int \<Rightarrow> (int \<times> int) set" where
  "grid g N = {c. \<exists>u v. c = (u * g, v * g) \<and> 0 \<le> u \<and> u \<le> N \<and> 0 \<le> v \<and> v \<le> N}"

lemma gridI: "0 \<le> u \<Longrightarrow> u \<le> N \<Longrightarrow> 0 \<le> v \<Longrightarrow> v \<le> N \<Longrightarrow> (u * g, v * g) \<in> grid g N"
  by (auto simp: grid_def)

lemma grid_inside: "0 < g \<Longrightarrow> grid g N \<subseteq> inside (N * g)"
  by (auto simp: grid_def inside_def mult_right_mono)

lemma grid_one: "grid 1 N = inside N"
  by (auto simp: grid_def inside_def)

text \<open>The coordinates of the squares, and those of the diamonds in row \<open>v\<close>.\<close>

lemma square_coords:
  assumes "0 < g" shows "count_up g (2 * int m * g) (2 * g) = map (\<lambda>k. (2 * int k + 1) * g) [0..<m]"
proof -
  have "count_up g (2 * int m * g) (2 * g) = map (\<lambda>k. g + int k * (2 * g)) [0..<m]"
    by (rule count_up_map) (use assms in \<open>simp_all add: algebra_simps\<close>)
  then show ?thesis by (simp add: algebra_simps)
qed

lemma row_coords:
  assumes g: "0 < g" and v: "0 \<le> v"
  shows "count_up ((v * g + g) mod (2 * g)) (2 * int m * g + 1) (2 * g) =
    (if even v then map (\<lambda>k. (2 * int k + 1) * g) [0..<m] else map (\<lambda>k. 2 * int k * g) [0..<Suc m])"
proof -
  have "(v * g + g) mod (2 * g) = (v + 1) mod 2 * g" using mult_mod_left [of "v + 1" 2 g] by (simp add: algebra_simps)
  then have start: "(v * g + g) mod (2 * g) = (if even v then g else 0)" by (simp add: mod2_eq_if)
  show ?thesis
  proof (cases "even v")
    case True
    have "count_up g (2 * int m * g + 1) (2 * g) = map (\<lambda>k. g + int k * (2 * g)) [0..<m]"
      by (rule count_up_map) (use g in \<open>simp_all add: algebra_simps\<close>)
    then show ?thesis using True start by (simp add: algebra_simps)
  next
    case False
    have "count_up 0 (2 * int m * g + 1) (2 * g) = map (\<lambda>k. 0 + int k * (2 * g)) [0..<Suc m]"
      by (rule count_up_map) (use g in \<open>simp_all add: algebra_simps\<close>)
    then show ?thesis using False start by (simp add: algebra_simps del: upt_Suc)
  qed
qed

lemma row_list:
  assumes "0 < g" shows "count_up 0 (2 * int m * g + 1) g = map (\<lambda>v. int v * g) [0..<2 * m + 1]"
proof -
  have "count_up 0 (2 * int m * g + 1) g = map (\<lambda>k. 0 + int k * g) [0..<2 * m + 1]"
    by (rule count_up_map) (use assms in \<open>simp_all add: algebra_simps\<close>)
  then show ?thesis by simp
qed

lemma sum_rows: "sum_list (map (\<lambda>v. if even v then m else Suc m) [0..<2 * k + 1]) = (k + 1) * m + k * Suc m"
  by (induction k) simp_all

text \<open>The cells of the two steps of a level, and that together they are what the level adds.\<close>

definition squares :: "int \<Rightarrow> nat \<Rightarrow> (int \<times> int) set" where
  "squares g m = {c. \<exists>u v. c = ((2 * u + 1) * g, (2 * v + 1) * g) \<and> 0 \<le> u \<and> u < int m \<and> 0 \<le> v \<and> v < int m}"

definition diamonds :: "int \<Rightarrow> nat \<Rightarrow> (int \<times> int) set" where
  "diamonds g m = {c. \<exists>u v. c = (u * g, v * g) \<and> 0 \<le> u \<and> u \<le> 2 * int m \<and> 0 \<le> v \<and> v \<le> 2 * int m \<and> odd (u + v)}"

lemma added_not_old:
  assumes g: "0 < g" and c: "c = (u * g, v * g)" "odd u \<or> odd v" shows "c \<notin> grid (2 * g) N"
proof
  assume "c \<in> grid (2 * g) N"
  then obtain a b where "c = (a * (2 * g), b * (2 * g))" by (auto simp: grid_def)
  then have "u * g = (2 * a) * g" "v * g = (2 * b) * g" using c(1) by (simp_all add: algebra_simps)
  then have "u = 2 * a" "v = 2 * b" using g by simp_all
  then show False using c(2) by simp
qed

lemma squares_added: assumes "0 < g" shows "squares g m \<subseteq> grid g (2 * int m) - grid (2 * g) (int m)"
proof
  fix c assume "c \<in> squares g m"
  then obtain u v where u: "c = ((2 * u + 1) * g, (2 * v + 1) * g)" "0 \<le> u" "u < int m" "0 \<le> v" "v < int m" by (auto simp: squares_def)
  then have "c \<in> grid g (2 * int m)" using gridI [of "2 * u + 1" "2 * int m" "2 * v + 1" g] by simp
  then show "c \<in> grid g (2 * int m) - grid (2 * g) (int m)" using added_not_old [OF assms u(1)] by simp
qed

lemma diamonds_added: assumes "0 < g" shows "diamonds g m \<subseteq> grid g (2 * int m) - grid (2 * g) (int m)"
proof
  fix c assume "c \<in> diamonds g m"
  then obtain u v where u: "c = (u * g, v * g)" "0 \<le> u" "u \<le> 2 * int m" "0 \<le> v" "v \<le> 2 * int m" "odd (u + v)" by (auto simp: diamonds_def)
  have "odd u \<or> odd v" using u(6) by auto
  then show "c \<in> grid g (2 * int m) - grid (2 * g) (int m)" using added_not_old [OF assms u(1)] gridI [OF u(2-5)] u(1) by blast
qed

lemma added_covered: "grid g (2 * int m) - grid (2 * g) (int m) \<subseteq> squares g m \<union> diamonds g m"
proof
  fix c assume c: "c \<in> grid g (2 * int m) - grid (2 * g) (int m)"
  then obtain u v where u: "c = (u * g, v * g)" "0 \<le> u" "u \<le> 2 * int m" "0 \<le> v" "v \<le> 2 * int m" by (auto simp: grid_def)
  consider "odd (u + v)" | "even u" "even v" | "odd u" "odd v" by auto
  then show "c \<in> squares g m \<union> diamonds g m"
  proof cases
    case 1
    then show ?thesis using u by (auto simp: diamonds_def)
  next
    case 2
    then obtain a b where "u = 2 * a" "v = 2 * b" by (elim evenE)
    then have "c \<in> grid (2 * g) (int m)" using u gridI [of a "int m" b "2 * g"] by (simp add: algebra_simps)
    then show ?thesis using c by simp
  next
    case 3
    then obtain a b where a: "u = 2 * a + 1" "v = 2 * b + 1" by (elim oddE)
    then have "0 \<le> a" "a < int m" "0 \<le> b" "b < int m" using u(2-5) by linarith+
    then show ?thesis using u(1) a unfolding squares_def by blast
  qed
qed

lemma level_cells: "0 < g \<Longrightarrow> squares g m \<union> diamonds g m = grid g (2 * int m) - grid (2 * g) (int m)"
  using squares_added diamonds_added added_covered by blast

lemma level_inside:
  assumes "0 < g" shows "squares g m \<subseteq> inside (2 * int m * g)" "diamonds g m \<subseteq> inside (2 * int m * g)" "grid (2 * g) (int m) \<subseteq> inside (2 * int m * g)"
  using squares_added [OF assms, of m] diamonds_added [OF assms, of m] grid_inside [OF assms, of "2 * int m"] grid_inside [of "2 * g" "int m"] assms
  by (auto simp: mult.commute mult.left_commute)

lemma agree_covered:
  assumes g: "0 < g" shows "agree g (2 * int m) \<subseteq> grid (2 * g) (int m) \<union> squares g m"
proof
  fix c assume c: "c \<in> agree g (2 * int m)"
  then have "c \<in> grid g (2 * int m)" by (auto simp: agree_def grid_def)
  moreover have "c \<notin> diamonds g m"
  proof
    assume "c \<in> diamonds g m"
    then obtain u v where "c = (u * g, v * g)" "odd (u + v)" unfolding diamonds_def by blast
    moreover obtain a b where "c = (a * g, b * g)" "even (a + b)" using c unfolding agree_def by blast
    ultimately show False using g by simp
  qed
  ultimately show "c \<in> grid (2 * g) (int m) \<union> squares g m" using added_covered [of g m] by blast
qed

text \<open>The squares of a level.\<close>

definition odds :: "int \<Rightarrow> nat \<Rightarrow> int list" where
  "odds g m = map (\<lambda>k. (2 * int k + 1) * g) [0..<m]"

definition evens :: "int \<Rightarrow> nat \<Rightarrow> int list" where
  "evens g m = map (\<lambda>k. 2 * int k * g) [0..<Suc m]"

lemma set_odds: "set (odds g m) = {x. \<exists>u. x = (2 * u + 1) * g \<and> 0 \<le> u \<and> u < int m}"
  by (auto simp: odds_def image_iff) (metis nat_0_le nat_less_iff atLeastLessThan_iff zero_le)

lemma set_evens: "set (evens g m) = {x. \<exists>u. x = 2 * u * g \<and> 0 \<le> u \<and> u \<le> int m}"
  by (auto simp: evens_def image_iff simp del: upt_Suc) (metis atLeastLessThan_iff le_imp_less_Suc nat_0_le nat_le_iff zero_le)

lemma squares_product: "set (odds g m) \<times> set (odds g m) = squares g m"
  unfolding set_odds squares_def by auto

lemma squares_ok:
  assumes H: "rough env H" and g: "0 < g" and s: "shaped (2 * int m * g) s" and known: "\<forall>c \<in> grid (2 * g) (int m). cell s c \<noteq> None"
  shows "ran env (2 * int m * g) (squares g m) (m * m) len s (square_rows env g H (odds g m) (odds g m) len s)"
proof -
  have reads: "{(x - g, y - g), (x + g, y - g), (x - g, y + g), (x + g, y + g)} \<subseteq> grid (2 * g) (int m)"
    if xy: "x \<in> set (odds g m)" "y \<in> set (odds g m)" for x y
  proof -
    obtain i j where ij: "x = (2 * i + 1) * g" "0 \<le> i" "i < int m" "y = (2 * j + 1) * g" "0 \<le> j" "j < int m" using xy unfolding set_odds by blast
    have e: "x - g = i * (2 * g)" "x + g = (i + 1) * (2 * g)" "y - g = j * (2 * g)" "y + g = (j + 1) * (2 * g)"
      using ij(1,4) by (simp_all add: algebra_simps)
    show ?thesis unfolding e using ij(2,3,5,6) by (auto intro!: gridI)
  qed
  have g0: "0 \<le> g" and S: "set (odds g m) \<times> set (odds g m) \<subseteq> inside (2 * int m * g)"
    using g level_inside(1) [OF g] by (simp_all only: squares_product)
  from square_rows_ok [OF H g0 level_inside(3) [OF g] S reads s known]
  have "ran env (2 * int m * g) (set (odds g m) \<times> set (odds g m)) (length (odds g m) * length (odds g m)) len s
    (square_rows env g H (odds g m) (odds g m) len s)" .
  then show ?thesis unfolding squares_product by (simp add: odds_def)
qed

text \<open>The diamonds of a level.\<close>

definition row_xs :: "int \<Rightarrow> nat \<Rightarrow> int \<Rightarrow> int list" where
  "row_xs g m y = count_up ((y + g) mod (2 * g)) (2 * int m * g + 1) (2 * g)"

definition row_ys :: "int \<Rightarrow> nat \<Rightarrow> int list" where
  "row_ys g m = map (\<lambda>v. int v * g) [0..<2 * m + 1]"

lemma row_xs: "0 < g \<Longrightarrow> row_xs g m (int v * g) = (if even v then odds g m else evens g m)"
  using row_coords [of g "int v" m] by (simp add: row_xs_def odds_def evens_def del: upt_Suc)

lemma row_cells:
  assumes g: "0 < g" and xy: "y \<in> set (row_ys g m)" "x \<in> set (row_xs g m y)"
  shows "\<exists>u v. x = u * g \<and> y = v * g \<and> 0 \<le> u \<and> u \<le> 2 * int m \<and> 0 \<le> v \<and> v \<le> 2 * int m \<and> odd (u + v)"
proof -
  have "y \<in> (\<lambda>v. int v * g) ` {0..<2 * m + 1}" using xy(1) by (simp only: row_ys_def set_map set_upt)
  then obtain v where v: "y = int v * g" "v \<le> 2 * m" using g by auto
  show ?thesis
  proof (cases "even v")
    case True
    then obtain u where "x = (2 * u + 1) * g" "0 \<le> u" "u < int m" using xy(2) row_xs [OF g] unfolding v(1) by (auto simp: set_odds)
    then show ?thesis using v True by (intro exI [of _ "2 * u + 1"] exI [of _ "int v"]) simp
  next
    case False
    then obtain u where "x = 2 * u * g" "0 \<le> u" "u \<le> int m" using xy(2) row_xs [OF g] unfolding v(1) by (auto simp: set_evens)
    then show ?thesis using v False by (intro exI [of _ "2 * u"] exI [of _ "int v"]) simp
  qed
qed

lemma cell_row:
  assumes g: "0 < g" and c: "0 \<le> u" "u \<le> 2 * int m" "odd (u + int w)"
  shows "u * g \<in> set (row_xs g m (int w * g))"
proof (cases "even w")
  case True
  then obtain a where a: "u = 2 * a + 1" using c(3) by (auto elim: oddE)
  then have "0 \<le> a" "a < int m" using c(1,2) by linarith+
  then show ?thesis using True a row_xs [OF g] by (auto simp: set_odds)
next
  case False
  then obtain a where a: "u = 2 * a" using c(3) by (auto elim: evenE)
  then have "0 \<le> a" "a \<le> int m" using c(1,2) by linarith+
  then show ?thesis using False a row_xs [OF g] by (auto simp: set_evens)
qed

lemma rows_diamonds:
  assumes g: "0 < g" shows "(\<Union>y \<in> set (row_ys g m). (\<lambda>x. (x, y)) ` set (row_xs g m y)) = diamonds g m"
proof (intro equalityI subsetI)
  fix c assume "c \<in> diamonds g m"
  then obtain u v where c: "c = (u * g, v * g)" "0 \<le> u" "u \<le> 2 * int m" "0 \<le> v" "v \<le> 2 * int m" "odd (u + v)" unfolding diamonds_def by blast
  obtain w where w: "v = int w" using c(4) by (metis nat_0_le)
  then have "int w * g \<in> set (row_ys g m)" using c(5) by (auto simp: row_ys_def simp del: upt_Suc)
  then show "c \<in> (\<Union>y \<in> set (row_ys g m). (\<lambda>x. (x, y)) ` set (row_xs g m y))"
    using c(1) w cell_row [OF g c(2,3), of w] c(6) by (intro UN_I [of "int w * g"]) auto
next
  fix c assume "c \<in> (\<Union>y \<in> set (row_ys g m). (\<lambda>x. (x, y)) ` set (row_xs g m y))"
  then obtain x y where "c = (x, y)" "y \<in> set (row_ys g m)" "x \<in> set (row_xs g m y)" by blast
  then show "c \<in> diamonds g m" using row_cells [OF g] unfolding diamonds_def by blast
qed

lemma rows_length:
  assumes "0 < g" shows "sum_list (map (\<lambda>y. length (row_xs g m y)) (row_ys g m)) = (m + 1) * m + m * Suc m"
proof -
  have "map (\<lambda>y. length (row_xs g m y)) (row_ys g m) = map (\<lambda>v. if even v then m else Suc m) [0..<2 * m + 1]"
    unfolding row_ys_def map_map by (rule map_cong) (simp_all add: row_xs [OF assms] odds_def evens_def del: upt_Suc)
  then show ?thesis by (simp only: sum_rows)
qed

lemma diamonds_ok:
  assumes H: "rough env H" and g: "0 < g" and s: "shaped (2 * int m * g) s" and known: "\<forall>c \<in> agree g (2 * int m). cell s c \<noteq> None"
  shows "ran env (2 * int m * g) (diamonds g m) ((m + 1) * m + m * Suc m) len s (diamond_rows env g (2 * g) H (row_ys g m) len s)"
proof -
  have "even (2 * int m)" by simp
  from diamond_rows_ok [where ys = "row_ys g m" and prev = "2 * g" and len = len, OF H g this refl _ s known]
    row_cells [OF g, of _ m] rows_diamonds [OF g, of m] rows_length [OF g, of m]
  show ?thesis unfolding row_xs_def by simp
qed

lemma level_ok:
  assumes H: "rough env H" and g: "0 < g" and s: "shaped (2 * int m * g) s" and known: "\<forall>c \<in> grid (2 * g) (int m). cell s c \<noteq> None"
  shows "ran env (2 * int m * g) (grid g (2 * int m) - grid (2 * g) (int m)) (m * m + ((m + 1) * m + m * Suc m)) len s (gen_level env g (2 * g) H len s)"
proof -
  let ?M = "2 * int m * g"
  have M: "ds_max s = ?M" using s by (simp add: shaped_def)
  have xs: "count_up g ?M (2 * g) = odds g m" unfolding odds_def by (rule square_coords [OF g])
  have rest: "ran env ?M (diamonds g m) ((m + 1) * m + m * Suc m) l t (diamond_rows env g (2 * g) H (count_up 0 (ds_max t + 1) g) l t)"
    if w: "writes ?M (squares g m) s t" for l t
  proof -
    have t: "shaped ?M t" using shaped_writes [OF s w] .
    have k: "\<forall>c \<in> agree g (2 * int m). cell t c \<noteq> None"
      using agree_covered [OF g, of m] known writes_known [OF w] level_inside(1,3) [OF g, of m] by blast
    have "ds_max t = ?M" using t by (simp add: shaped_def)
    then have "count_up 0 (ds_max t + 1) g = row_ys g m" using row_list [OF g, of m] by (simp only: row_ys_def)
    then show ?thesis using diamonds_ok [OF H g t k, of l] by simp
  qed
  have "ran env ?M (squares g m \<union> diamonds g m) (m * m + ((m + 1) * m + m * Suc m)) len s (gen_level env g (2 * g) H len s)"
    unfolding gen_level_def M xs by (rule ran_then [OF squares_ok [OF H g s known] rest])
  then show ?thesis unfolding level_cells [OF g, of m] .
qed

section \<open>All levels\<close>

text \<open>What is asked of the numbers of \<open>k\<close> levels: each roughness can be drawn from, and the progress has an integer part.\<close>

fun levels_ok :: "'f gen_env \<Rightarrow> nat \<Rightarrow> 'f \<Rightarrow> 'f \<Rightarrow> 'f \<Rightarrow> bool" where
  "levels_ok env 0 H speed process = True"
| "levels_ok env (Suc k) H speed process = (rough env H \<and>
     fl_trunc (ge_fl env) (fl_floor (ge_fl env) (fl_add (ge_fl env) process speed)) \<noteq> None \<and>
     levels_ok env k (fl_div (ge_fl env) H (fl_lit (ge_fl env) 2 0)) speed (fl_add (ge_fl env) process speed))"

lemma report_ok:
  assumes "fl_trunc (ge_fl env) (fl_floor (ge_fl env) process) \<noteq> None"
  shows "\<exists>pro s'. report env process Iprocess s = Some (pro, s') \<and> quiet s s'"
  using assms by (auto simp: report_def quiet_def same_grid_def)

lemma grid_whole: "inside (int m * g) - grid g (int m) \<union> (grid g (int m) - grid (2 * g) n) = inside (int m * g) - grid (2 * g) n"
  if "0 < g" "grid (2 * g) n \<subseteq> grid g (int m)"
  using that grid_inside [of g "int m"] by blast

lemma grid_double: "grid (2 * g) (int m) \<subseteq> grid g (2 * int m)"
proof
  fix c assume "c \<in> grid (2 * g) (int m)"
  then obtain u v where "c = (u * (2 * g), v * (2 * g))" "0 \<le> u" "u \<le> int m" "0 \<le> v" "v \<le> int m" by (auto simp: grid_def)
  then show "c \<in> grid g (2 * int m)" using gridI [of "2 * u" "2 * int m" "2 * v" g] by (simp add: algebra_simps)
qed

lemma count_level: "(2 * m + 1) * (2 * m + 1) = m * m + ((m + 1) * m + m * Suc m) + (m + 1) * (m + (1 :: nat))"
  by (simp add: algebra_simps)

lemma count_grows: "0 < p \<Longrightarrow> (m + 1) * (m + 1) \<le> (m * p + 1) * (m * p + (1 :: nat))"
  by (intro mult_mono) simp_all

lemma levels_run:
  shows "levels_ok env k H speed process \<Longrightarrow> shaped (int m * 2 ^ k) s \<Longrightarrow> \<forall>c \<in> grid (2 ^ k) (int m). cell s c \<noteq> None \<Longrightarrow>
    ran env (int m * 2 ^ k) (inside (int m * 2 ^ k) - grid (2 ^ k) (int m)) ((m * 2 ^ k + 1) * (m * 2 ^ k + 1) - (m + 1) * (m + 1)) len s
      (gen_levels env (2 ^ k div 2) (2 ^ k) H speed process Ip len s)"
proof (induction k arbitrary: m H process Ip len s)
  case 0
  then show ?case using ran_done [of env "int m" len s] by (subst gen_levels.simps) (simp add: grid_one)
next
  case (Suc k)
  let ?g = "2 ^ k :: int" and ?M = "int m * 2 ^ Suc k"
  let ?H = "fl_div (ge_fl env) H (fl_lit (ge_fl env) 2 0)" and ?p = "fl_add (ge_fl env) process speed"
  have L: "rough env H" "fl_trunc (ge_fl env) (fl_floor (ge_fl env) ?p) \<noteq> None" "levels_ok env k ?H speed ?p" using Suc.prems(1) by simp_all
  have M: "?M = 2 * int m * ?g" "?M = int (2 * m) * 2 ^ k" by simp_all
  obtain s1 where s1: "IsStopped env s = (ge_stop env (gs_polls s), s1)" "quiet s s1" by (simp add: IsStopped_def quiet_def same_grid_def)
  note w1 = quiet_writes [OF s1(2), of ?M]
  have K: "grid (2 * ?g) (int m) \<subseteq> inside ?M" using grid_inside [of "2 * ?g" "int m"] by simp
  show ?case
  proof (cases "ge_stop env (gs_polls s)")
    case True
    then show ?thesis using s1 ran_stopped [OF True] by (subst gen_levels.simps) (simp add: quiet_def)
  next
    case False
    have s1': "shaped (2 * int m * ?g) s1" using shaped_writes [OF Suc.prems(2) w1] unfolding M(1) .
    have k1: "\<forall>c \<in> grid (2 * ?g) (int m). cell s1 c \<noteq> None" using known_writes [OF w1 K] Suc.prems(3) by simp
    have level: "ran env ?M (grid ?g (2 * int m) - grid (2 * ?g) (int m)) (m * m + ((m + 1) * m + m * Suc m)) len s1 (gen_level env ?g (2 * ?g) H len s1)"
      unfolding M(1) by (rule level_ok [OF L(1) _ s1' k1]) simp
    let ?rest = "\<lambda>len s. Option.bind (report env ?p Ip (s\<lparr>ds_depth := ds_depth s - 1\<rparr>)) (\<lambda>(pro, s). gen_levels env (?g div 2) ?g ?H speed ?p pro len s)"
    have rest: "ran env ?M (inside ?M - grid ?g (int (2 * m))) ((2 * m * 2 ^ k + 1) * (2 * m * 2 ^ k + 1) - (2 * m + 1) * (2 * m + 1)) l t (?rest l t)"
      if w: "writes ?M (grid ?g (2 * int m) - grid (2 * ?g) (int m)) s1 t" for l t
    proof -
      obtain pro t1 where t1: "report env ?p Ip (t\<lparr>ds_depth := ds_depth t - 1\<rparr>) = Some (pro, t1)" "quiet (t\<lparr>ds_depth := ds_depth t - 1\<rparr>) t1"
        using report_ok [OF L(2)] by blast
      have q: "quiet t t1" using t1(2) by (simp add: quiet_def same_grid_def)
      have t: "shaped (int (2 * m) * 2 ^ k) t1" using shaped_writes [OF shaped_writes [OF s1' w [unfolded M(1)]] quiet_writes [OF q]] by simp
      have "grid ?g (2 * int m) \<subseteq> inside ?M" unfolding M(1) by (rule grid_inside) simp
      then have "\<forall>c \<in> grid ?g (2 * int m). cell t c \<noteq> None" using writes_known [OF w] k1 by blast
      then have "\<forall>c \<in> grid (2 ^ k) (int (2 * m)). cell t1 c \<noteq> None" using quiet_cell [OF q] by simp
      from Suc.IH [OF L(3) t this, of l pro]
      have "ran env ?M (inside ?M - grid ?g (int (2 * m))) ((2 * m * 2 ^ k + 1) * (2 * m * 2 ^ k + 1) - (2 * m + 1) * (2 * m + 1)) l t1
        (gen_levels env (?g div 2) ?g ?H speed ?p pro l t1)" unfolding M(2) by simp
      moreover have "ran env ?M {} 0 l t (Some (True, l, t1))" using quiet_writes [OF q, of ?M] q by (simp add: ran_def quiet_def)
      ultimately show ?thesis using ran_then [of env ?M "{}" 0 l t "Some (True, l, t1)"] t1(1) by simp
    qed
    have "ran env ?M (grid ?g (2 * int m) - grid (2 * ?g) (int m) \<union> (inside ?M - grid ?g (int (2 * m))))
      (m * m + ((m + 1) * m + m * Suc m) + ((2 * m * 2 ^ k + 1) * (2 * m * 2 ^ k + 1) - (2 * m + 1) * (2 * m + 1))) len s1
      (Option.bind (gen_level env ?g (2 * ?g) H len s1) (\<lambda>(go, len, s). if go then ?rest len s else Some (False, len, s)))"
      by (rule ran_then [OF level rest])
    moreover have "grid ?g (2 * int m) - grid (2 * ?g) (int m) \<union> (inside ?M - grid ?g (int (2 * m))) = inside ?M - grid (2 * ?g) (int m)"
      unfolding M(1) using grid_whole [of ?g "int m" "2 * m"] grid_double [of ?g m] by (simp add: Un_commute)
    moreover have "m * m + ((m + 1) * m + m * Suc m) + ((2 * m * 2 ^ k + 1) * (2 * m * 2 ^ k + 1) - (2 * m + 1) * (2 * m + 1)) =
      (m * 2 ^ Suc k + 1) * (m * 2 ^ Suc k + 1) - (m + 1) * (m + 1)"
      using count_level [of m] count_grows [of "2 ^ k" "2 * m"] by (simp add: mult.left_commute mult.commute)
    moreover have "gen_levels env (2 ^ Suc k div 2) (2 ^ Suc k) H speed process Ip len s =
      Option.bind (gen_level env ?g (2 * ?g) H len s1) (\<lambda>(go, len, s). if go then ?rest len s else Some (False, len, s))"
      using False s1(1) by (subst gen_levels.simps) (simp add: Let_def cong: if_cong)
    ultimately have "ran env ?M (inside ?M - grid (2 ^ Suc k) (int m)) ((m * 2 ^ Suc k + 1) * (m * 2 ^ Suc k + 1) - (m + 1) * (m + 1)) len s1
      (gen_levels env (2 ^ Suc k div 2) (2 ^ Suc k) H speed process Ip len s)" by simp
    moreover have "ran env ?M {} 0 len s (Some (True, len, s1))" using w1 s1(2) by (simp add: ran_def quiet_def)
    ultimately show ?thesis
      using ran_then [of env ?M "{}" 0 len s "Some (True, len, s1)" _ _ "\<lambda>_ _. gen_levels env (2 ^ Suc k div 2) (2 ^ Suc k) H speed process Ip len s"]
      by simp
  qed
qed

end
