(* ===== verification/Diamond_Properties.thy ===== *)
theory Diamond_Properties
  imports Diamond_Levels
begin

text \<open>
  A run writes every cell but the four corners, which keep the given heights; the two passes of smoothing read and
  write the whole map and leave its edge alone.
\<close>

section \<open>Smoothing\<close>

definition interior :: "int \<Rightarrow> (int \<times> int) set" where
  "interior M = {1..<M} \<times> {1..<M}"

text \<open>A step over a map in which every cell is written.\<close>

lemma blur_cell_ok:
  assumes s: "shaped M s" and known: "\<forall>c \<in> inside M. cell s c \<noteq> None" and c: "c \<in> interior M"
    and noise: "perlin \<longrightarrow> (\<forall>x y z. noise3 (ge_fl env) x y z \<noteq> None)"
  shows "\<exists>s'. blur_cell env perlin c s = Some s' \<and> writes M {c} s s'"
proof -
  obtain x y where xy: "c = (x, y)" "(x, y) \<in> inside M" using c by (auto simp: interior_def inside_def)
  obtain s1 where s1: "(if perlin then blur_noise env x y s else Some s) = Some s1" "writes M {(x, y)} s s1 \<or> writes M {} s s1"
  proof (cases perlin)
    case True
    obtain h where h: "ds_GetHeight x y s = Some h" using get_known [OF s known] by blast
    obtain v where "noise3 (ge_fl env) (fl_mul (ge_fl env) (fl_int (ge_fl env) x) (ds_delta s)) (fl_mul (ge_fl env) (fl_int (ge_fl env) y) (ds_delta s)) h = Some v"
      using noise True by blast
    then show thesis using that set_writes [OF s xy(2)] h True by (fastforce simp: blur_noise_def Let_def)
  next
    case False
    then show thesis using that writes_none [of s s] by simp
  qed
  have shaped1: "shaped M s1" and known1: "\<forall>c \<in> inside M. cell s1 c \<noteq> None"
    using s1(2) shaped_writes [OF s] writes_known known by blast+
  note get = get_known [OF shaped1 known1]
  obtain v where "\<And>s2. ds_SetHeight x y v s1 = Some s2 \<Longrightarrow> ds_Smooth env x y s1 = Some s2"
    using get [of x y] get [of "x + 1" y] get [of "x - 1" y] get [of "x + 1" "y + 1"] get [of "x - 1" "y + 1"]
      get [of "x + 1" "y - 1"] get [of "x - 1" "y - 1"] get [of x "y + 1"] get [of x "y - 1"]
    by (auto simp: ds_Smooth_def Let_def)
  then obtain s2 where s2: "ds_Smooth env x y s1 = Some s2" "writes M {(x, y)} s1 s2" using set_writes [OF shaped1 xy(2), of v] by blast
  have "writes M {(x, y)} s s2" using s1(2) writes_trans [OF _ s2(2), of "{(x, y)}" s] writes_trans [OF _ s2(2), of "{}" s] by auto
  moreover have "blur_cell env perlin c s = Some s2" unfolding blur_cell_def xy(1) fst_conv snd_conv s1(1) using s2(1) by simp
  ultimately show ?thesis using xy(1) by blast
qed

lemma blur_cells_ok:
  assumes noise: "perlin \<longrightarrow> (\<forall>x y z. noise3 (ge_fl env) x y z \<noteq> None)"
  shows "shaped M s \<Longrightarrow> \<forall>c \<in> inside M. cell s c \<noteq> None \<Longrightarrow> set cs \<subseteq> interior M \<Longrightarrow>
    \<exists>s'. blur_cells env perlin cs s = Some s' \<and> writes M (set cs) s s'"
proof (induction cs arbitrary: s)
  case Nil
  then show ?case using writes_none [of s s] by simp
next
  case (Cons c cs)
  have c: "c \<in> interior M" using Cons.prems(3) by simp
  obtain s1 where s1: "blur_cell env perlin c s = Some s1" "writes M {c} s s1"
    using blur_cell_ok [OF Cons.prems(1,2) c noise] by blast
  have "\<forall>c \<in> inside M. cell s1 c \<noteq> None" using writes_known [OF s1(2)] Cons.prems(2) by blast
  from Cons.IH [OF shaped_writes [OF Cons.prems(1) s1(2)] this] obtain s2 where
    s2: "blur_cells env perlin cs s1 = Some s2" "writes M (set cs) s1 s2" using Cons.prems(3) by auto
  have "writes M (set (c # cs)) s s2" using writes_trans [OF s1(2) s2(2)] by simp
  then show ?case using s1(1) s2(1) by simp
qed

lemma blur_ok:
  assumes s: "shaped M s" and known: "\<forall>c \<in> inside M. cell s c \<noteq> None"
    and noise: "perlin \<longrightarrow> (\<forall>x y z. noise3 (ge_fl env) x y z \<noteq> None)"
  shows "\<exists>s'. ds_Blur env perlin s = Some s' \<and> same_grid s s' \<and> (\<forall>c \<in> inside M. cell s' c \<noteq> None) \<and>
    (\<forall>c \<in> inside M - interior M. cell s' c = cell s c)"
proof -
  let ?cs = "concat (map (\<lambda>y. map (\<lambda>x. (x, y)) (count_up 1 (ds_max s) 1)) (count_up 1 (ds_max s) 1))"
  have M: "ds_max s = 1 + int (nat (M - 1))" "0 < M" using s by (simp_all add: shaped_def)
  have "count_up 1 (ds_max s) 1 = map (\<lambda>k. 1 + int k * 1) [0..<nat (M - 1)]" by (rule count_up_map) (use M in simp_all)
  then have cs: "set ?cs \<subseteq> interior M" using M(2) by (auto simp: interior_def)
  obtain s' where s': "blur_cells env perlin ?cs s = Some s'" "writes M (set ?cs) s s'" using blur_cells_ok [OF noise s known cs] by blast
  have "\<forall>c \<in> inside M - interior M. cell s' c = cell s c" by (rule writes_frame [OF s'(2) cs])
  moreover have "\<forall>c \<in> inside M. cell s' c \<noteq> None" using writes_known [OF s'(2)] known by blast
  moreover have "same_grid s s'" using s'(2) by (simp only: writes_def)
  ultimately show ?thesis using s'(1) unfolding ds_Blur_def by blast
qed

section \<open>The world map\<close>

lemma ds_work_ok:
  assumes s: "shaped (2 ^ k) s" and corners: "\<forall>c \<in> grid (2 ^ k) 1. cell s c \<noteq> None"
    and speed: "speed = fl_mul (ge_fl env) (fl_div (ge_fl env) (fl_int (ge_fl env) 1) (fl_log2 (ge_fl env) (fl_int (ge_fl env) (2 ^ k)))) (fl_lit (ge_fl env) 100 0)"
    and levels: "levels_ok env k (ds_H s) speed (fl_int (ge_fl env) 0)"
    and delta: "\<not> fl_less (ge_fl env) (fl_int (ge_fl env) 0) (ds_delta s)"
  shows "\<exists>go len s'. ds_WorkThread env s = Some (go, len, s') \<and> ((\<forall>k. \<not> ge_stop env k) \<longrightarrow> go) \<and>
    (go \<longrightarrow> len = (2 ^ k + 1) * (2 ^ k + 1) - 4 \<and> ds_finished s' \<and> same_grid s s' \<and> (\<forall>c \<in> inside (2 ^ k). cell s' c \<noteq> None) \<and>
      (\<forall>c \<in> grid (2 ^ k) 1. cell s' c = cell s c))"
proof -
  have M: "ds_max s = 2 ^ k" using s by (simp add: shaped_def)
  have G: "grid (2 ^ k) 1 \<subseteq> inside (2 ^ k)" using grid_inside [of "2 ^ k" 1] by simp
  have gi: "grid (2 ^ k) 1 \<inter> interior (2 ^ k) = {}"
  proof -
    have "u = 0 \<or> u = 1" if "0 \<le> u" "u \<le> 1" for u :: int using that by linarith
    then show ?thesis by (fastforce simp: grid_def interior_def)
  qed
  have "levels_ok env k (ds_H s) speed (fl_int (ge_fl env) 0)" "shaped (int 1 * 2 ^ k) s" "\<forall>c \<in> grid (2 ^ k) (int 1). cell s c \<noteq> None"
    using levels s corners by simp_all
  from levels_run [OF this, of 0 0]
  have "ran env (2 ^ k) (inside (2 ^ k) - grid (2 ^ k) 1) ((2 ^ k + 1) * (2 ^ k + 1) - (1 + 1) * (1 + 1)) 0 s
    (gen_levels env (2 ^ k div 2) (2 ^ k) (ds_H s) speed (fl_int (ge_fl env) 0) 0 0 s)" by simp
  then obtain go len s1 where
    s1: "gen_levels env (2 ^ k div 2) (2 ^ k) (ds_H s) speed (fl_int (ge_fl env) 0) 0 0 s = Some (go, len, s1)" "same_grid s s1"
    "go \<longrightarrow> writes (2 ^ k) (inside (2 ^ k) - grid (2 ^ k) 1) s s1 \<and> len = 0 + int ((2 ^ k + 1) * (2 ^ k + 1) - (1 + 1) * (1 + 1))"
    "(\<forall>k. \<not> ge_stop env k) \<longrightarrow> go" by (rule ranE)
  show ?thesis
  proof (cases go)
    case False
    have "ds_WorkThread env s = Some (False, len, s1)" using s1(1) False speed M by (simp add: ds_WorkThread_def ds_Flush_def Let_def)
    then show ?thesis using s1(4) False by (intro exI [of _ False] exI [of _ len] exI [of _ s1]) simp
  next
    case True
    then have w: "writes (2 ^ k) (inside (2 ^ k) - grid (2 ^ k) 1) s s1" using s1(3) by simp
    have "(1 + 1) * (1 + 1) \<le> (2 ^ k + 1) * (2 ^ k + (1 :: nat))" by (intro mult_mono) simp_all
    then have "int ((2 ^ k + 1) * (2 ^ k + 1) - (1 + 1) * (1 + 1)) = (2 ^ k + 1) * (2 ^ k + 1) - 4" by (simp add: of_nat_diff algebra_simps)
    then have len: "len = (2 ^ k + 1) * (2 ^ k + 1) - 4" using s1(3) True by simp
    have sh1: "shaped (2 ^ k) s1" using shaped_writes [OF s w] .
    have k1: "\<forall>c \<in> inside (2 ^ k). cell s1 c \<noteq> None" using writes_known [OF w] corners by blast
    have c1: "\<forall>c \<in> grid (2 ^ k) 1. cell s1 c = cell s c" using w G unfolding writes_def by auto
    have "\<not> fl_less (ge_fl env) (fl_int (ge_fl env) 0) (ds_delta s1)" using delta s1(2) by (simp add: same_grid_def)
    then obtain s2 where s2: "ds_Blur env (fl_less (ge_fl env) (fl_int (ge_fl env) 0) (ds_delta s1)) s1 = Some s2" "same_grid s1 s2"
      "\<forall>c \<in> inside (2 ^ k). cell s2 c \<noteq> None" "\<forall>c \<in> inside (2 ^ k) - interior (2 ^ k). cell s2 c = cell s1 c"
      using blur_ok [OF sh1 k1] by metis
    obtain s3 where s3: "ds_Blur env False s2 = Some s3" "same_grid s2 s3"
      "\<forall>c \<in> inside (2 ^ k). cell s3 c \<noteq> None" "\<forall>c \<in> inside (2 ^ k) - interior (2 ^ k). cell s3 c = cell s2 c"
      using blur_ok [OF shaped_same [OF s2(2) sh1] s2(3), of False env] by blast
    have "\<forall>c \<in> grid (2 ^ k) 1. cell s3 c = cell s c" using s3(4) s2(4) c1 G gi by (metis Diff_iff IntI empty_iff subsetD)
    moreover have "cell (s3\<lparr>ds_finished := True\<rparr>) = cell s3" by (simp add: cell_def fun_eq_iff)
    moreover have "same_grid s (s3\<lparr>ds_finished := True\<rparr>)"
      using same_grid_trans [OF s1(2) same_grid_trans [OF s2(2) s3(2)]] by (simp add: same_grid_def)
    moreover have "ds_WorkThread env s = Some (True, len, s3\<lparr>ds_finished := True\<rparr>)"
      using s1(1) s2(1) s3(1) speed M True by (simp add: ds_WorkThread_def ds_Flush_def Let_def)
    ultimately show ?thesis using s3(3) len
      by (intro exI [of _ True] exI [of _ len] exI [of _ "s3\<lparr>ds_finished := True\<rparr>"]) simp
  qed
qed

text \<open>The corners: the height of a neighbouring map, or the one that is given.\<close>

definition corner_height :: "'f gen_env \<Rightarrow> (int \<rightharpoonup> 'f) \<Rightarrow> int \<Rightarrow> 'f \<Rightarrow> 'f" where
  "corner_height env weight key c = (case weight key of None \<Rightarrow> fl_div (ge_fl env) c (fl_lit (ge_fl env) 2000 0) | Some h \<Rightarrow> h)"

lemma grid_corners: "grid g 1 = {(0, 0), (g, 0), (0, g), (g, g)}"
proof -
  have "u = 0 \<or> u = 1" if "0 \<le> u" "u \<le> 1" for u :: int using that by linarith
  then show ?thesis by (fastforce simp: grid_def intro: exI [of _ 0] exI [of _ 1])
qed

lemma set_corner_ok:
  assumes "shaped M s" "(x, y) \<in> inside M"
  shows "\<exists>s'. set_corner env x y c s = Some s' \<and> same_grid s s' \<and>
    (\<forall>d \<in> inside M. cell s' d = (if d = (x, y) then Some (corner_height env (ds_weight s) (x + y * (M + 1)) c) else cell s d))"
proof -
  have "ds_n s = M + 1" using assms(1) by (simp add: shaped_def)
  then have "GetHeightMapIndex (M + 1) x y = Some (x + y * (M + 1))" using index_ok(1) [OF assms] by simp
  then show ?thesis using \<open>ds_n s = M + 1\<close> set_cell [OF assms, of "corner_height env (ds_weight s) (x + y * (M + 1)) c"]
    by (simp add: set_corner_def corner_height_def)
qed

lemma set_corners_ok:
  assumes s: "shaped M s"
  shows "\<exists>s'. set_corners env cs s = Some s' \<and> same_grid s s' \<and> (\<forall>e \<in> grid M 1. cell s' e \<noteq> None) \<and>
    cell s' (0, 0) = Some (corner_height env (ds_weight s) 0 (cs ! 0)) \<and> cell s' (M, 0) = Some (corner_height env (ds_weight s) M (cs ! 1)) \<and>
    cell s' (0, M) = Some (corner_height env (ds_weight s) (M * (M + 1)) (cs ! 2)) \<and>
    cell s' (M, M) = Some (corner_height env (ds_weight s) (M + M * (M + 1)) (cs ! 3))"
proof -
  have M: "0 < M" using s by (simp add: shaped_def)
  then have i: "(0, 0) \<in> inside M" "(M, 0) \<in> inside M" "(0, M) \<in> inside M" "(M, M) \<in> inside M" by (simp_all add: inside_def)
  obtain s1 where s1: "set_corner env 0 0 (cs ! 0) s = Some s1" "same_grid s s1"
    "\<forall>e \<in> inside M. cell s1 e = (if e = (0, 0) then Some (corner_height env (ds_weight s) (0 + 0 * (M + 1)) (cs ! 0)) else cell s e)"
    using set_corner_ok [OF s i(1)] by blast
  note h1 = shaped_same [OF s1(2) s]
  obtain s2 where s2: "set_corner env M 0 (cs ! 1) s1 = Some s2" "same_grid s1 s2"
    "\<forall>e \<in> inside M. cell s2 e = (if e = (M, 0) then Some (corner_height env (ds_weight s1) (M + 0 * (M + 1)) (cs ! 1)) else cell s1 e)"
    using set_corner_ok [OF h1 i(2)] by blast
  note h2 = shaped_same [OF s2(2) h1]
  obtain s3 where s3: "set_corner env 0 M (cs ! 2) s2 = Some s3" "same_grid s2 s3"
    "\<forall>e \<in> inside M. cell s3 e = (if e = (0, M) then Some (corner_height env (ds_weight s2) (0 + M * (M + 1)) (cs ! 2)) else cell s2 e)"
    using set_corner_ok [OF h2 i(3)] by blast
  note h3 = shaped_same [OF s3(2) h2]
  obtain s4 where s4: "set_corner env M M (cs ! 3) s3 = Some s4" "same_grid s3 s4"
    "\<forall>e \<in> inside M. cell s4 e = (if e = (M, M) then Some (corner_height env (ds_weight s3) (M + M * (M + 1)) (cs ! 3)) else cell s3 e)"
    using set_corner_ok [OF h3 i(4)] by blast
  have w: "ds_weight s1 = ds_weight s" "ds_weight s2 = ds_weight s" "ds_weight s3 = ds_weight s"
    using s1(2) s2(2) s3(2) by (simp_all add: same_grid_def)
  have "same_grid s s4" using same_grid_trans s1(2) s2(2) s3(2) s4(2) by blast
  moreover have "ds_max s1 = M" "ds_max s2 = M" "ds_max s3 = M" using h1 h2 h3 by (simp_all add: shaped_def)
  ultimately show ?thesis using s1(1,3) s2(1,3) s3(1,3) s4(1,3) i M unfolding w grid_corners
    by (intro exI [of _ s4]) (simp add: set_corners_def)
qed

text \<open>A \<^verbatim>\<open>Start\<close> of the world map, after the initialisation.\<close>

lemma square_size_small:
  assumes "1 \<le> I" "I \<le> 7" obtains n where "square_size I = Some n" "n = 2 ^ nat (2 * I) + 1" "(2 :: int) ^ nat (2 * I) \<le> 2 ^ 14" "fits 32 (n * n) = Some (n * n)"
proof -
  have "nat (2 * I) \<le> 14" using assms by simp
  then have p: "(2 :: int) ^ nat (2 * I) \<le> 2 ^ 14" by (rule power_increasing) simp
  obtain q where q: "q = ((2 :: int) ^ nat (2 * I) + 1) * (2 ^ nat (2 * I) + 1)" by simp
  have "q \<le> (2 ^ 14 + 1) * (2 ^ 14 + 1)" unfolding q using p by (intro mult_mono) simp_all
  moreover have "0 \<le> q" unfolding q by simp
  ultimately have "fits 32 q = Some q" by (simp add: fits_def)
  then show thesis using that [of "2 ^ nat (2 * I) + 1"] p assms(1) unfolding q by (simp add: square_size_def fits_def)
qed

lemma initialised:
  assumes I: "1 \<le> I" "I \<le> 7" and m: "int (length m) = (2 ^ nat (2 * I) + 1) * (2 ^ nat (2 * I) + 1)"
  obtains s1 where "ds_Initilize env owner seed I H m s = Some s1" "shaped (2 ^ nat (2 * I)) s1" "ds_owner s1 = owner" "ds_weight s1 = ds_weight s"
    "ds_H s1 = fl_div (ge_fl env) H (fl_lit (ge_fl env) 100 0)"
proof -
  obtain n where n: "square_size I = Some n" "n = 2 ^ nat (2 * I) + 1" "(2 :: int) ^ nat (2 * I) \<le> 2 ^ 14" "fits 32 (n * n) = Some (n * n)"
    using square_size_small [OF I] .
  then show thesis using that m by (simp add: ds_Initilize_def shaped_def setRandomSeed_def)
qed

lemma start_ok:
  assumes s: "shaped (2 ^ k) s" and owner: "ds_owner s = 0xFFFFFFFF" and cs: "4 \<le> length cs"
    and delta: "d = fl_div (ge_fl env) (fl_int (ge_fl env) mapWidth) (fl_int (ge_fl env) (2 ^ k + 1))"
      "\<not> fl_less (ge_fl env) (fl_int (ge_fl env) 0) (if fl_less (ge_fl env) d (fl_lit (ge_fl env) 1 3) then fl_lit (ge_fl env) (- 1) 2 else d)"
    and speed: "speed = fl_mul (ge_fl env) (fl_div (ge_fl env) (fl_int (ge_fl env) 1) (fl_log2 (ge_fl env) (fl_int (ge_fl env) (2 ^ k)))) (fl_lit (ge_fl env) 100 0)"
    and levels: "levels_ok env k (ds_H s) speed (fl_int (ge_fl env) 0)"
  shows "\<exists>go len s'. ds_Start env (Some cs) 4 mapWidth s = Some (go, len, s') \<and> ((\<forall>k. \<not> ge_stop env k) \<longrightarrow> go) \<and>
    (go \<longrightarrow> len = (2 ^ k + 1) * (2 ^ k + 1) - 4 \<and> ds_finished s' \<and> shaped (2 ^ k) s' \<and> (\<forall>c \<in> inside (2 ^ k). cell s' c \<noteq> None) \<and>
      cell s' (0, 0) = Some (corner_height env (ds_weight s) 0 (cs ! 0)) \<and> cell s' (2 ^ k, 0) = Some (corner_height env (ds_weight s) (2 ^ k) (cs ! 1)) \<and>
      cell s' (0, 2 ^ k) = Some (corner_height env (ds_weight s) (2 ^ k * (2 ^ k + 1)) (cs ! 2)) \<and>
      cell s' (2 ^ k, 2 ^ k) = Some (corner_height env (ds_weight s) (2 ^ k + 2 ^ k * (2 ^ k + 1)) (cs ! 3)))"
proof -
  let ?delta = "if fl_less (ge_fl env) d (fl_lit (ge_fl env) 1 3) then fl_lit (ge_fl env) (- 1) 2 else d"
  obtain s0 where s0: "s0 = s\<lparr>ds_finished := False, ds_delta := ?delta\<rparr>" by simp
  have sh0: "shaped (2 ^ k) s0" and w0: "ds_weight s0 = ds_weight s" "ds_delta s0 = ?delta" "ds_H s0 = ds_H s" "ds_owner s0 = 0xFFFFFFFF"
    using s owner by (simp_all add: s0 shaped_def)
  obtain s1 where s1: "set_corners env cs s0 = Some s1" "same_grid s0 s1" "\<forall>e \<in> grid (2 ^ k) 1. cell s1 e \<noteq> None"
    "cell s1 (0, 0) = Some (corner_height env (ds_weight s0) 0 (cs ! 0))" "cell s1 (2 ^ k, 0) = Some (corner_height env (ds_weight s0) (2 ^ k) (cs ! 1))"
    "cell s1 (0, 2 ^ k) = Some (corner_height env (ds_weight s0) (2 ^ k * (2 ^ k + 1)) (cs ! 2))"
    "cell s1 (2 ^ k, 2 ^ k) = Some (corner_height env (ds_weight s0) (2 ^ k + 2 ^ k * (2 ^ k + 1)) (cs ! 3))"
    using set_corners_ok [OF sh0] by metis
  have sh1: "shaped (2 ^ k) s1" by (rule shaped_same [OF s1(2) sh0])
  have keep: "ds_H s1 = ds_H s" "ds_delta s1 = ?delta" using s1(2) w0 by (simp_all add: same_grid_def)
  obtain go len s2 where s2: "ds_WorkThread env s1 = Some (go, len, s2)" "(\<forall>k. \<not> ge_stop env k) \<longrightarrow> go"
    "go \<longrightarrow> len = (2 ^ k + 1) * (2 ^ k + 1) - 4 \<and> ds_finished s2 \<and> same_grid s1 s2 \<and> (\<forall>c \<in> inside (2 ^ k). cell s2 c \<noteq> None) \<and>
      (\<forall>c \<in> grid (2 ^ k) 1. cell s2 c = cell s1 c)"
    using ds_work_ok [OF sh1 s1(3) speed] levels delta(2) unfolding keep by blast
  have "ds_n s = 2 ^ k + 1" using s by (simp add: shaped_def)
  then have run: "ds_Start env (Some cs) 4 mapWidth s = Some (go, len, s2)"
    using cs owner delta(1) s1(1) s2(1) by (auto simp: ds_Start_def s0 Let_def split: if_splits)
  have "shaped (2 ^ k) s2 \<and> (\<forall>e \<in> {(0, 0), (2 ^ k, 0), (0, 2 ^ k), (2 ^ k, 2 ^ k)}. cell s2 e = cell s1 e)" if "go"
    using s2(3) that shaped_same [OF _ sh1] unfolding grid_corners by blast
  then show ?thesis using run s2(2,3) s1(4-7) unfolding w0(1) by (intro exI [of _ go] exI [of _ len] exI [of _ s2]) simp
qed

text \<open>
  C25. The world map is complete.  Started the way the map generator starts it (four corners, no noise), the
  algorithm returns for any random numbers and wherever it is stopped; if it is not stopped, it has generated every cell but the
  four corners, each cell of the map has a height, and the corners have the heights that were given for them.
\<close>

theorem world_map_complete:
  assumes "1 \<le> I" and "I \<le> 7" and "M = 2 ^ nat (2 * I)" and "int (length m) = (M + 1) * (M + 1)" and "F = ge_fl env"
    and "levels_ok env (nat (2 * I)) (fl_div F H (fl_lit F 100 0)) (fl_mul F (fl_div F (fl_int F 1) (fl_log2 F (fl_int F M))) (fl_lit F 100 0)) (fl_int F 0)"
    and "fl_less F (fl_div F (fl_int F 0) (fl_int F (M + 1))) (fl_lit F 1 3)" and "\<not> fl_less F (fl_int F 0) (fl_lit F (- 1) 2)"
  shows "\<exists>s1 go len s2. ds_Initilize env 0xFFFFFFFF seed I H m s = Some s1 \<and> ds_Start env (Some [a, b, c, d]) 4 0 s1 = Some (go, len, s2) \<and>
    ((\<forall>k. \<not> ge_stop env k) \<longrightarrow> go) \<and>
    (go \<longrightarrow> ds_finished s2 \<and> len = (M + 1) * (M + 1) - 4 \<and> (\<forall>x y. ds_GetHeight x y s2 \<noteq> None) \<and>
      ds_GetHeight 0 0 s2 = Some (corner_height env (ds_weight s) 0 a) \<and> ds_GetHeight M 0 s2 = Some (corner_height env (ds_weight s) M b) \<and>
      ds_GetHeight 0 M s2 = Some (corner_height env (ds_weight s) (M * (M + 1)) c) \<and>
      ds_GetHeight M M s2 = Some (corner_height env (ds_weight s) (M + M * (M + 1)) d))"
proof -
  obtain s1 where s1: "ds_Initilize env 0xFFFFFFFF seed I H m s = Some s1" "shaped M s1" "ds_owner s1 = 0xFFFFFFFF" "ds_weight s1 = ds_weight s"
    "ds_H s1 = fl_div F H (fl_lit F 100 0)" using initialised [OF assms(1,2), where m = m and env = env and seed = seed and H = H and s = s and owner = "0xFFFFFFFF"] assms(3-5) by auto
  obtain go len s2 where s2: "ds_Start env (Some [a, b, c, d]) 4 0 s1 = Some (go, len, s2)" "(\<forall>k. \<not> ge_stop env k) \<longrightarrow> go"
    "go \<longrightarrow> len = (M + 1) * (M + 1) - 4 \<and> ds_finished s2 \<and> shaped M s2 \<and> (\<forall>c \<in> inside M. cell s2 c \<noteq> None) \<and>
      cell s2 (0, 0) = Some (corner_height env (ds_weight s) 0 a) \<and> cell s2 (M, 0) = Some (corner_height env (ds_weight s) M b) \<and>
      cell s2 (0, M) = Some (corner_height env (ds_weight s) (M * (M + 1)) c) \<and>
      cell s2 (M, M) = Some (corner_height env (ds_weight s) (M + M * (M + 1)) d)"
    using start_ok [of "nat (2 * I)" s1 "[a, b, c, d]" _ env 0, folded assms(3,5), OF s1(2,3) _ refl _ refl] assms(6-8) s1(4,5) by auto
  have "(\<forall>x y. ds_GetHeight x y s2 \<noteq> None) \<and> ds_GetHeight 0 0 s2 = cell s2 (0, 0) \<and> ds_GetHeight M 0 s2 = cell s2 (M, 0) \<and>
    ds_GetHeight 0 M s2 = cell s2 (0, M) \<and> ds_GetHeight M M s2 = cell s2 (M, M)" if "shaped M s2" "\<forall>c \<in> inside M. cell s2 c \<noteq> None"
    using get_known [OF that] get_cell [OF that(1)] assms(3) by (simp add: inside_def)
  then show ?thesis using s1(1) s2 by (intro exI conjI) auto
qed

lemma levels_ok_numeral:
  "levels_ok env (numeral k) H speed process = (rough env H \<and>
     fl_trunc (ge_fl env) (fl_floor (ge_fl env) (fl_add (ge_fl env) process speed)) \<noteq> None \<and>
     levels_ok env (pred_numeral k) (fl_div (ge_fl env) H (fl_lit (ge_fl env) 2 0)) speed (fl_add (ge_fl env) process speed))"
  by (simp only: numeral_eq_Suc levels_ok.simps)

lemma fixed_levels:
  "levels_ok fixed_env 4 (fl_div fixed_point 500000 (fl_lit fixed_point 100 0))
     (fl_mul fixed_point (fl_div fixed_point (fl_int fixed_point 1) (fl_log2 fixed_point (fl_int fixed_point 16))) (fl_lit fixed_point 100 0)) (fl_int fixed_point 0)"
  by (simp add: levels_ok_numeral rough_def drawable_def fixed_env_def fixed_point_def fits_def)

theorem world_map_complete_witness:
  "\<exists>s1 len s2. ds_Initilize fixed_env 0xFFFFFFFF 5 2 500000 (replicate 289 None) (ds_new fixed_point \<lparr>gs_seed = 1, gs_pos = 0, gs_polls = 0\<rparr>) = Some s1 \<and>
     ds_Start fixed_env (Some [10, 20, 30, 40]) 4 0 s1 = Some (True, len, s2) \<and> len = 285"
proof -
  have "ge_fl fixed_env = fixed_point" "\<forall>k. \<not> ge_stop fixed_env k" by (simp_all add: fixed_env_def)
  moreover have "fl_less fixed_point (fl_div fixed_point (fl_int fixed_point 0) (fl_int fixed_point (16 + 1))) (fl_lit fixed_point 1 3)"
    "\<not> fl_less fixed_point (fl_int fixed_point 0) (fl_lit fixed_point (- 1) 2)" by (simp_all add: fixed_point_def)
  ultimately show ?thesis
    using world_map_complete [of 2 16 "replicate 289 None" fixed_point fixed_env 500000 5
        "ds_new fixed_point \<lparr>gs_seed = 1, gs_pos = 0, gs_polls = 0\<rparr>" 10 20 30 40] fixed_levels by auto
qed

end
