(* ===== verification/Splat_Painter.thy ===== *)
theory Splat_Painter
  imports Generator_Base
begin

text \<open>
  \<^verbatim>\<open>Generator/Terrain/Painter\<close>: the brush, the painter of splat maps and the automatic painter, which always
  has a \<^verbatim>\<open>SplatPainter\<close>, so that its casts succeed.  A splat map holds \<open>sp_count\<close> weights for each cell.  The painter
  keeps the contents of the map that its pointer names; the height map, which it only reads, is an argument.  Numbers that
  the constructors leave uninitialised are \<open>None\<close>.
\<close>

section \<open>The brush\<close>

datatype brush_style = Circle_ful | Circle_middle | Square_full | Square_middle

record 'f brush =
  br_n :: "int option"
  br_max :: "int option"
  br_strength :: "'f list"

definition nBrushMinSize :: int where
  "nBrushMinSize = 1"

definition brush_new :: "'f fl \<Rightarrow> 'f brush" where
  "brush_new F = \<lparr>br_n = None, br_max = None, br_strength = replicate (nat (nBrushMinSize * nBrushMinSize)) (fl_int F 0)\<rparr>"

text \<open>The code after the first \<^verbatim>\<open>return\<close> is not reached.\<close>

definition GetStrength :: "'f fl \<Rightarrow> int \<Rightarrow> int \<Rightarrow> 'f brush \<Rightarrow> 'f" where
  "GetStrength F xOffset yOffset b = fl_lit F 1 0"

definition GetDistance2D :: "'f fl \<Rightarrow> 'f \<Rightarrow> 'f \<Rightarrow> 'f \<Rightarrow> 'f \<Rightarrow> 'f" where
  "GetDistance2D F x y targetX targetY =
     (let dx = fl_sub F targetX x; dy = fl_sub F targetY y in fl_sqrt F (fl_add F (fl_mul F dx dx) (fl_mul F dy dy)))"

definition blurred_strength :: "'f fl \<Rightarrow> int \<Rightarrow> int \<Rightarrow> int \<Rightarrow> 'f" where
  "blurred_strength F width x y =
     (let middle = fl_int F (width div 2); radius = fl_mul F (fl_int F width) (fl_lit F 5 1);
        distance = GetDistance2D F (fl_int F x) (fl_int F y) middle middle;
        v = fl_div F (fl_sub F radius distance) radius in
      if fl_le F v (fl_lit F 0 0) then fl_lit F 0 0 else v)"

text \<open>Every strength is assigned, whatever the vector held; for a size up to one, each of its bytes is set to 1.\<close>

definition br_Initilize :: "'f fl \<Rightarrow> brush_style \<Rightarrow> int \<Rightarrow> 'f brush \<Rightarrow> 'f brush option" where
  "br_Initilize F style width b = do {
     len \<leftarrow> fits 32 (width * width);
     let b = b\<lparr>br_n := Some width, br_max := Some (width - 1)\<rparr>;
     if width \<le> nBrushMinSize then Some (b\<lparr>br_strength := replicate (nat len) (fl_bits F 0x01010101)\<rparr>)
     else case style of
       Circle_ful \<Rightarrow> Some (b\<lparr>br_strength := replicate (nat len) (fl_int F 1)\<rparr>)
     | Square_full \<Rightarrow> Some (b\<lparr>br_strength := replicate (nat len) (fl_int F 1)\<rparr>)
     | _ \<Rightarrow> Some (b\<lparr>br_strength := concat (map (\<lambda>y. map (\<lambda>x. blurred_strength F width x y) (count_up 0 width 1)) (count_up 0 width 1))\<rparr>)
   }"

section \<open>The painter of splat maps\<close>

record 'f painter = gen_state +
  sp_brush :: "'f brush"
  sp_map :: "'f option list"
  sp_count :: int
  sp_n :: int
  sp_strength :: 'f
  ap_n :: "int option"
  ap_max :: "int option"

definition ap_new :: "'f fl \<Rightarrow> gen_state \<Rightarrow> 'f painter" where
  "ap_new F g = \<lparr>gs_seed = gs_seed g, gs_pos = gs_pos g, gs_polls = gs_polls g, sp_brush = brush_new F, sp_map = [], sp_count = 0, sp_n = 0,
     sp_strength = fl_lit F 1 0, ap_n = None, ap_max = None\<rparr>"

definition sp_ResetBrush :: "'f fl \<Rightarrow> int \<Rightarrow> 'f painter \<Rightarrow> 'f painter option" where
  "sp_ResetBrush F brushSize s = map_option (\<lambda>b. s\<lparr>sp_brush := b\<rparr>) (br_Initilize F Circle_middle brushSize (sp_brush s))"

definition sp_Init :: "'f fl \<Rightarrow> 'f option list \<Rightarrow> int \<Rightarrow> int \<Rightarrow> 'f painter \<Rightarrow> 'f painter option" where
  "sp_Init F alphaMap sizeXY splatCount s =
     sp_ResetBrush F 5 (s\<lparr>sp_count := splatCount, sp_n := sizeXY, sp_map := alphaMap\<rparr>)"

definition sp_SetBaseBrushStrength :: "'f \<Rightarrow> 'f painter \<Rightarrow> 'f painter" where
  "sp_SetBaseBrushStrength strength s = s\<lparr>sp_strength := strength\<rparr>"

definition sp_GetAlpha :: "'f fl \<Rightarrow> int \<Rightarrow> int \<Rightarrow> int \<Rightarrow> 'f painter \<Rightarrow> 'f option" where
  "sp_GetAlpha F x y k s =
     (if k \<ge> sp_count s then Some (fl_int F 0)
      else do {
        p \<leftarrow> GetSplatMapIndex (clamp y 0 (sp_n s - 1)) (clamp x 0 (sp_n s - 1)) k (sp_n s) (sp_count s);
        map_read (sp_map s) p
      })"

text \<open>The loops over the weights of a cell, which lie at \<open>line\<close> and behind.\<close>

fun sum_others :: "'f fl \<Rightarrow> 'f option list \<Rightarrow> int \<Rightarrow> int \<Rightarrow> int list \<Rightarrow> 'f \<Rightarrow> 'f option" where
  "sum_others F m line k [] acc = Some acc"
| "sum_others F m line k (i # js) acc =
     (if i \<noteq> k then do {
        p \<leftarrow> fits 32 (line + i);
        v \<leftarrow> map_read m p;
        sum_others F m line k js (fl_add F acc v)
      }
      else sum_others F m line k js acc)"

fun scale_others :: "'f fl \<Rightarrow> int \<Rightarrow> int \<Rightarrow> 'f \<Rightarrow> int list \<Rightarrow> 'f option list \<Rightarrow> 'f option list option" where
  "scale_others F line k adjust [] m = Some m"
| "scale_others F line k adjust (i # js) m =
     (if i \<noteq> k then do {
        p \<leftarrow> fits 32 (line + i);
        v \<leftarrow> map_read m p;
        m \<leftarrow> map_write m p (fl_mul F v adjust);
        scale_others F line k adjust js m
      }
      else scale_others F line k adjust js m)"

fun set_only :: "'f fl \<Rightarrow> int \<Rightarrow> int \<Rightarrow> int list \<Rightarrow> 'f option list \<Rightarrow> 'f option list option" where
  "set_only F line k [] m = Some m"
| "set_only F line k (i # js) m = do {
     p \<leftarrow> fits 32 (line + i);
     m \<leftarrow> map_write m p (if i = k then fl_lit F 1 0 else fl_lit F 0 0);
     set_only F line k js m
   }"

definition sp_Normalize :: "'f fl \<Rightarrow> int \<Rightarrow> int \<Rightarrow> 'f \<Rightarrow> int \<Rightarrow> 'f painter \<Rightarrow> 'f painter option" where
  "sp_Normalize F x y newAlpha k s = do {
     line \<leftarrow> GetSplatMapIndex y x 0 (sp_n s) (sp_count s);
     let newAlpha = fclamp F newAlpha (fl_int F 0) (fl_lit F 1 0);
     p \<leftarrow> fits 32 (line + k);
     m \<leftarrow> map_write (sp_map s) p newAlpha;
     total \<leftarrow> sum_others F m line k (count_up 0 (sp_count s) 1) (fl_int F 0);
     m \<leftarrow> (if fl_less F (fl_lit F 1 2) total
           then scale_others F line k (fl_div F (fl_sub F (fl_lit F 1 0) newAlpha) total) (count_up 0 (sp_count s) 1) m
           else set_only F line k (count_up 0 (sp_count s) 1) m);
     Some (s\<lparr>sp_map := m\<rparr>)
   }"

definition paint_cell :: "'f fl \<Rightarrow> int \<Rightarrow> int \<Rightarrow> int \<Rightarrow> int \<Rightarrow> int \<Rightarrow> 'f painter \<Rightarrow> 'f painter option" where
  "paint_cell F k xCenter yCenter xBrushOffset yBrushOffset s = do {
     let rx = clamp (xBrushOffset + xCenter) 0 (sp_n s - 1);
     let ry = clamp (yBrushOffset + yCenter) 0 (sp_n s - 1);
     let brushStrength = fl_mul F (GetStrength F xBrushOffset yBrushOffset (sp_brush s)) (sp_strength s);
     index \<leftarrow> GetSplatMapIndex ry rx k (sp_n s) (sp_count s);
     a \<leftarrow> map_read (sp_map s) index;
     m \<leftarrow> map_write (sp_map s) index (fl_add F a brushStrength);
     sp_Normalize F rx ry (fl_add F a brushStrength) k (s\<lparr>sp_map := m\<rparr>)
   }"

fun paint_cells :: "'f fl \<Rightarrow> int \<Rightarrow> int \<Rightarrow> int \<Rightarrow> (int \<times> int) list \<Rightarrow> 'f painter \<Rightarrow> 'f painter option" where
  "paint_cells F k xCenter yCenter [] s = Some s"
| "paint_cells F k xCenter yCenter (c # cs) s =
     Option.bind (paint_cell F k xCenter yCenter (fst c) (snd c) s) (paint_cells F k xCenter yCenter cs)"

definition sp_Paint :: "'f fl \<Rightarrow> int \<Rightarrow> int \<Rightarrow> int \<Rightarrow> 'f painter \<Rightarrow> 'f painter option" where
  "sp_Paint F xCenter yCenter k s =
     (if k \<ge> sp_count s then Some s
      else do {
        b \<leftarrow> br_n (sp_brush s);
        let intRadius = b div 2;
        let intFraction = b mod 2;
        let xmin = clamp (xCenter - intRadius) 0 (sp_n s - 1);
        let ymin = clamp (yCenter - intRadius) 0 (sp_n s - 1);
        let xmax = clamp (xCenter + intRadius + intFraction) 0 (sp_n s);
        let ymax = clamp (yCenter + intRadius + intFraction) 0 (sp_n s);
        paint_cells F k xCenter yCenter
          (concat (map (\<lambda>x. map (\<lambda>y. (xmin + x - (xCenter - intRadius + intFraction), ymin + y - (yCenter - intRadius + intFraction)))
             (count_up 0 (ymax - ymin) 1)) (count_up 0 (xmax - xmin) 1))) s
      })"

section \<open>The automatic painter\<close>

definition ap_Init :: "'f fl \<Rightarrow> 'f option list option \<Rightarrow> int \<Rightarrow> 'f option list option \<Rightarrow> int \<Rightarrow> int \<Rightarrow> 'f painter \<Rightarrow> 'f painter option" where
  "ap_Init F heightMap heightSizeXY alphaMap alphaSizeXY splatCount s =
     (if heightMap = None then Some s
      else case alphaMap of
        None \<Rightarrow> Some s
      | Some m \<Rightarrow> do {
          s \<leftarrow> sp_Init F m alphaSizeXY splatCount s;
          s \<leftarrow> sp_ResetBrush F 5 s;
          Some (s\<lparr>ap_n := Some heightSizeXY, ap_max := Some (heightSizeXY - 1)\<rparr>)
        })"

fun init_cells :: "'f fl \<Rightarrow> int \<Rightarrow> int \<Rightarrow> (int \<times> int \<times> int) list \<Rightarrow> 'f option list \<Rightarrow> 'f option list option" where
  "init_cells F n cnt [] m = Some m"
| "init_cells F n cnt (c # cs) m = do {
     p \<leftarrow> GetSplatMapIndex (fst (snd c)) (fst c) (snd (snd c)) n cnt;
     m \<leftarrow> map_write m p (if snd (snd c) = 1 then fl_lit F 1 0 else fl_int F 0);
     init_cells F n cnt cs m
   }"

definition InitSplatMap :: "'f fl \<Rightarrow> 'f painter \<Rightarrow> 'f painter option" where
  "InitSplatMap F s =
     map_option (\<lambda>m. s\<lparr>sp_map := m\<rparr>) (init_cells F (sp_n s) (sp_count s)
       (concat (map (\<lambda>x. concat (map (\<lambda>y. map (\<lambda>a. (x, y, a)) (count_up 0 (sp_count s) 1)) (count_up 0 (sp_n s) 1))) (count_up 0 (sp_n s) 1)))
       (sp_map s))"

text \<open>The loop over the neighbours reads the weight of the cell itself, once for each of them.\<close>

fun count_neighbors :: "'f fl \<Rightarrow> int \<Rightarrow> int \<Rightarrow> (int \<times> int) list \<Rightarrow> nat \<Rightarrow> 'f painter \<Rightarrow> nat option" where
  "count_neighbors F x y [] cnt s = Some cnt"
| "count_neighbors F x y (c # cs) cnt s =
     (if x = fst c \<and> y = snd c then count_neighbors F x y cs cnt s
      else do {
        a \<leftarrow> sp_GetAlpha F x y 0 s;
        count_neighbors F x y cs (if fl_less F (fl_lit F 5 1) a then cnt + 1 else cnt) s
      })"

definition height_at :: "'f fl \<Rightarrow> 'f option list \<Rightarrow> int \<Rightarrow> int \<Rightarrow> 'f painter \<Rightarrow> 'f option" where
  "height_at F heights x y s = do {
     n \<leftarrow> ap_n s;
     p \<leftarrow> GetHeightMapIndex n x y;
     h \<leftarrow> map_read heights p;
     Some (fl_mul F h (fl_lit F 2000 0))
   }"

definition ap_Paint :: "'f gen_env \<Rightarrow> 'f option list \<Rightarrow> int \<Rightarrow> int \<Rightarrow> int \<Rightarrow> 'f \<Rightarrow> 'f painter \<Rightarrow> 'f painter option" where
  "ap_Paint env heights x y brushSize scale s = do {
     let F = ge_fl env;
     heightMapX \<leftarrow> fl_trunc F (fl_mul F scale (fl_int F x));
     heightMapY \<leftarrow> fl_trunc F (fl_mul F scale (fl_int F y));
     nMax \<leftarrow> ap_max s;
     height \<leftarrow> height_at F heights (clamp heightMapX 0 nMax) (clamp heightMapY 0 nMax) s;
     if fl_less F (fl_lit F 550 0) height then sp_Paint F x y 1 (sp_SetBaseBrushStrength (fl_int F 1) s)
     else if fl_less F height (fl_lit F 50 0) then sp_Paint F x y 1 (sp_SetBaseBrushStrength (fl_int F 1) s)
     else do {
       alpha0 \<leftarrow> sp_GetAlpha F x y 0 s;
       neighborCnt \<leftarrow> count_neighbors F x y (concat (map (\<lambda>x0. map (Pair x0) (count_up (- brushSize) (brushSize + 1) brushSize))
         (count_up (- brushSize) (brushSize + 1) brushSize))) 0 s;
       (chance, s) \<leftarrow> (if neighborCnt < 5 then GetChance env (fl_lit F 5 1) s else Some (True, s));
       if chance then sp_Paint F x y 0 (sp_SetBaseBrushStrength (fl_int F 1) s) else Some s
     }
   }"

text \<open>A row of cells; the result says whether it was left because the generator is stopped.\<close>

fun draw_row :: "'f gen_env \<Rightarrow> 'f option list \<Rightarrow> int \<Rightarrow> 'f \<Rightarrow> int \<Rightarrow> int list \<Rightarrow> 'f painter \<Rightarrow> (bool \<times> 'f painter) option" where
  "draw_row env heights brushSize scale y [] s = Some (True, s)"
| "draw_row env heights brushSize scale y (x # xs) s =
     (let (stop, s) = IsStopped env s in
      if stop then Some (False, s)
      else Option.bind (ap_Paint env heights x y brushSize scale s) (draw_row env heights brushSize scale y xs))"

fun draw_rows :: "'f gen_env \<Rightarrow> 'f option list \<Rightarrow> int \<Rightarrow> 'f \<Rightarrow> int list \<Rightarrow> int list \<Rightarrow> 'f painter \<Rightarrow> (bool \<times> 'f painter) option" where
  "draw_rows env heights brushSize scale xs [] s = Some (True, s)"
| "draw_rows env heights brushSize scale xs (y # ys) s = do {
     (go, s) \<leftarrow> draw_row env heights brushSize scale y xs s;
     if go then draw_rows env heights brushSize scale xs ys s else Some (False, s)
   }"

text \<open>The second pair of loops does not set \<^verbatim>\<open>x\<close> back: after its first row there is nothing left to paint.\<close>

fun draw_rest :: "'f gen_env \<Rightarrow> 'f option list \<Rightarrow> int \<Rightarrow> 'f \<Rightarrow> int list \<Rightarrow> int list \<Rightarrow> 'f painter \<Rightarrow> (bool \<times> 'f painter) option" where
  "draw_rest env heights brushSize scale xs [] s = Some (True, s)"
| "draw_rest env heights brushSize scale xs (y # ys) s = do {
     (go, s) \<leftarrow> draw_row env heights brushSize scale y xs s;
     if go then draw_rest env heights brushSize scale [] ys s else Some (False, s)
   }"

definition DrawSplatMap :: "'f gen_env \<Rightarrow> 'f option list \<Rightarrow> 'f painter \<Rightarrow> (bool \<times> 'f painter) option" where
  "DrawSplatMap env heights s =
     (let (stop, s) = IsStopped env s in
      if stop then Some (False, s)
      else do {
        let F = ge_fl env;
        s \<leftarrow> InitSplatMap F s;
        b \<leftarrow> br_n (sp_brush s);
        let brushSize = (if b div 2 < 1 then 1 else b div 2);
        let intFraction = b mod 2;
        let alphaSize = sp_n s;
        n \<leftarrow> ap_n s;
        let scale = fl_div F (fl_int F n) (fl_int F alphaSize);
        (go, s) \<leftarrow> draw_rows env heights brushSize scale (count_up 0 alphaSize brushSize) (count_up 0 alphaSize brushSize) s;
        if go then draw_rest env heights brushSize scale (count_up (alphaSize - intFraction - 1) alphaSize brushSize)
          (count_up (alphaSize - intFraction - 1) alphaSize brushSize) s
        else Some (False, s)
      })"

text \<open>How rough the ground is around a cell; its only call is commented out.\<close>

datatype smooth_type = Smooth | Rough | Sharp

fun add_variance :: "'f fl \<Rightarrow> 'f option list \<Rightarrow> int \<Rightarrow> int \<Rightarrow> 'f \<Rightarrow> int \<Rightarrow> (int \<times> int) list \<Rightarrow> 'f \<Rightarrow> 'f painter \<Rightarrow> 'f option" where
  "add_variance F heights x y height nMax [] v s = Some v"
| "add_variance F heights x y height nMax (c # cs) v s =
     (let rx = clamp (x + fst c) 0 nMax; ry = clamp (y + snd c) 0 nMax in
      if rx = x \<and> ry = y then add_variance F heights x y height nMax cs v s
      else do {
        h \<leftarrow> height_at F heights rx ry s;
        let offsetHeight = fl_sub F height h;
        add_variance F heights x y height nMax cs (fl_add F v (fl_mul F offsetHeight offsetHeight)) s
      })"

definition GetTerrainStateNear :: "'f fl \<Rightarrow> 'f option list \<Rightarrow> int \<Rightarrow> int \<Rightarrow> 'f \<Rightarrow> 'f painter \<Rightarrow> smooth_type option" where
  "GetTerrainStateNear F heights x y height s = do {
     nMax \<leftarrow> ap_max s;
     v \<leftarrow> add_variance F heights x y height nMax (concat (map (\<lambda>oy. map (\<lambda>ox. (ox, oy)) (count_up (- 2) 3 1)) (count_up (- 2) 3 1))) (fl_int F 0) s;
     let v = fl_div F v (fl_lit F 24 0);
     Some (if fl_le F v (fl_int F 100) then Smooth else if fl_le F v (fl_int F 250) then Rough else Sharp)
   }"

end
