(* ===== verification/Splat_Properties.thy ===== *)
theory Splat_Properties
  imports Splat_Painter Perlin_Noise
begin

text \<open>
  The painter stays inside the splat map and the height map, and leaves no weight unwritten, for any arithmetic and any
  random numbers; but it never paints the first row and the first column, because the painted square is shifted.
\<close>

section \<open>Changes of one cell\<close>

text \<open>A change between two positions that forgets no number.\<close>

definition changes :: "int \<Rightarrow> int \<Rightarrow> 'f option list \<Rightarrow> 'f option list \<Rightarrow> bool" where
  "changes a b m m' \<longleftrightarrow> length m' = length m \<and> (\<forall>p. \<not> (a \<le> p \<and> p < b) \<longrightarrow> map_read m' p = map_read m p) \<and>
     (\<forall>p. map_read m p \<noteq> None \<longrightarrow> map_read m' p \<noteq> None)"

lemma changes_refl [simp]: "changes a b m m"
  by (simp add: changes_def)

lemma changes_trans: "changes a b m m' \<Longrightarrow> changes a b m' m'' \<Longrightarrow> changes a b m m''"
  by (simp add: changes_def)

lemma write_changes:
  assumes "a \<le> p" "p < b" "0 \<le> p" "p < int (length m)"
  shows "\<exists>m'. map_write m p v = Some m' \<and> changes a b m m' \<and> map_read m' p = Some v"
proof -
  obtain m' where m': "map_write m p v = Some m'" using assms(3,4) by (simp add: map_write_def)
  show ?thesis using m' map_write_read [OF m'] map_write_length [OF m'] assms(1,2) by (auto simp: changes_def)
qed

definition inside_line :: "int \<Rightarrow> int \<Rightarrow> 'f option list \<Rightarrow> bool" where
  "inside_line line c m \<longleftrightarrow> 0 \<le> line \<and> line + c \<le> int (length m) \<and> line + c < 2 ^ 31"

lemma inside_changes: "inside_line line c m \<Longrightarrow> changes a b m m' \<Longrightarrow> inside_line line c m'"
  by (simp add: inside_line_def changes_def)

lemma line_fits: "inside_line line c m \<Longrightarrow> 0 \<le> i \<Longrightarrow> i < c \<Longrightarrow> fits 32 (line + i) = Some (line + i)"
  by (simp add: inside_line_def fits_def)

lemma write_line:
  "inside_line line c m \<Longrightarrow> 0 \<le> i \<Longrightarrow> i < c \<Longrightarrow> \<exists>m'. map_write m (line + i) v = Some m' \<and> changes line (line + c) m m' \<and> map_read m' (line + i) = Some v"
  by (rule write_changes) (simp_all add: inside_line_def)

definition known_line :: "int \<Rightarrow> int \<Rightarrow> 'f option list \<Rightarrow> bool" where
  "known_line line c m \<longleftrightarrow> (\<forall>i. 0 \<le> i \<and> i < c \<longrightarrow> map_read m (line + i) \<noteq> None)"

lemma known_changes: "known_line line c m \<Longrightarrow> changes a b m m' \<Longrightarrow> known_line line c m'"
  by (simp add: known_line_def changes_def)

lemma sum_others_ok:
  "inside_line line c m \<Longrightarrow> known_line line c m \<Longrightarrow> \<forall>i \<in> set js. 0 \<le> i \<and> i < c \<Longrightarrow> \<exists>t. sum_others F m line k js acc = Some t"
proof (induction js arbitrary: acc)
  case (Cons i js)
  have i: "0 \<le> i" "i < c" using Cons.prems(3) by simp_all
  then obtain v where v: "map_read m (line + i) = Some v" using Cons.prems(2) by (auto simp: known_line_def)
  show ?case using Cons.IH [OF Cons.prems(1,2)] Cons.prems(3) v line_fits [OF Cons.prems(1) i] by simp
qed simp

lemma scale_others_ok:
  "inside_line line c m \<Longrightarrow> known_line line c m \<Longrightarrow> \<forall>i \<in> set js. 0 \<le> i \<and> i < c \<Longrightarrow>
    \<exists>m'. scale_others F line k adjust js m = Some m' \<and> changes line (line + c) m m'"
proof (induction js arbitrary: m)
  case (Cons i js)
  have i: "0 \<le> i" "i < c" using Cons.prems(3) by simp_all
  then obtain v where v: "map_read m (line + i) = Some v" using Cons.prems(2) by (auto simp: known_line_def)
  obtain m1 where m1: "map_write m (line + i) (fl_mul F v adjust) = Some m1" "changes line (line + c) m m1"
    using write_line [OF Cons.prems(1) i] by blast
  obtain m2 where m2: "scale_others F line k adjust js m1 = Some m2" "changes line (line + c) m1 m2"
    using Cons.IH [OF inside_changes [OF Cons.prems(1) m1(2)] known_changes [OF Cons.prems(2) m1(2)]] Cons.prems(3) by auto
  obtain m3 where m3: "scale_others F line k adjust js m = Some m3" "changes line (line + c) m m3"
    using Cons.IH [OF Cons.prems(1,2)] Cons.prems(3) by auto
  show ?case using v m1 m2 m3 changes_trans [OF m1(2) m2(2)] line_fits [OF Cons.prems(1) i] by simp
qed simp

lemma set_only_ok:
  "inside_line line c m \<Longrightarrow> \<forall>i \<in> set js. 0 \<le> i \<and> i < c \<Longrightarrow> \<exists>m'. set_only F line k js m = Some m' \<and> changes line (line + c) m m'"
proof (induction js arbitrary: m)
  case (Cons i js)
  have i: "0 \<le> i" "i < c" using Cons.prems(2) by simp_all
  obtain m1 where m1: "map_write m (line + i) (if i = k then fl_lit F 1 0 else fl_lit F 0 0) = Some m1" "changes line (line + c) m m1"
    using write_line [OF Cons.prems(1) i] by blast
  obtain m2 where m2: "set_only F line k js m1 = Some m2" "changes line (line + c) m1 m2"
    using Cons.IH [OF inside_changes [OF Cons.prems(1) m1(2)]] Cons.prems(2) by auto
  show ?case using m1 m2 changes_trans [OF m1(2) m2(2)] line_fits [OF Cons.prems(1) i] by simp
qed simp

lemma count_up_range: "x \<in> set (count_up a b step) \<Longrightarrow> 0 < step \<Longrightarrow> a \<le> x \<and> x < b"
proof (induction a b step rule: count_up.induct)
  case (1 a b step)
  then show ?case by (subst (asm) (2) count_up.simps) (auto split: if_splits)
qed

section \<open>The shape of the painter\<close>

definition splat_ok :: "int \<Rightarrow> int \<Rightarrow> int \<Rightarrow> 'f painter \<Rightarrow> bool" where
  "splat_ok n c N s \<longleftrightarrow> 1 < n \<and> 0 < c \<and> n * n * c < 2 ^ 31 \<and> sp_n s = n \<and> sp_count s = c \<and> int (length (sp_map s)) = n * n * c \<and>
     br_n (sp_brush s) = Some 5 \<and> ap_n s = Some N \<and> ap_max s = Some (N - 1)"

definition filled :: "'f option list \<Rightarrow> bool" where
  "filled m \<longleftrightarrow> (\<forall>p. 0 \<le> p \<and> p < int (length m) \<longrightarrow> map_read m p \<noteq> None)"

lemma cell_line:
  assumes "0 \<le> x" "x < n" "0 \<le> y" "y < n" "0 < c" "n * n * c < 2 ^ 31" "int (length m) = n * n * c" "0 \<le> k" "k < c"
  shows "GetSplatMapIndex y x k n c = Some ((y * n + x) * c + k)" "inside_line ((y * n + x) * c) c m"
proof -
  have y: "0 \<le> y * n" "y * n \<le> (n - 1) * n" using assms(1-4) by (simp_all add: mult_right_mono)
  obtain q where q: "q = y * n" "0 \<le> q" "q + x + 1 \<le> n * n" using y assms(2) by (simp add: algebra_simps)
  have e: "q + x \<le> (q + x) * c" using mult_left_mono [of 1 c "q + x"] assms(1,5) q(2) by simp
  have l: "(q + x) * c + c \<le> n * n * c" using mult_right_mono [OF q(3), of c] assms(5) by (simp add: algebra_simps)
  obtain r where r: "r = (q + x) * c" "0 \<le> r" "q + x \<le> r" "r + c \<le> n * n * c" using e l q(2) assms(1,5) by simp
  show "inside_line ((y * n + x) * c) c m" using r assms(6,7) unfolding q(1) by (simp add: inside_line_def)
  have b: "r + c < 2 ^ 31" using r(4) assms(6) by linarith
  have "fits 32 q = Some q" "fits 32 (q + x) = Some (q + x)" "fits 32 r = Some r" "fits 32 (r + k) = Some (r + k)"
    using b r(2,3) q(2) assms(1,5,8,9) by (simp_all add: fits_def)
  then show "GetSplatMapIndex y x k n c = Some ((y * n + x) * c + k)"
    unfolding GetSplatMapIndex_def q(1) [symmetric] r(1) [symmetric] by (simp add: r(1) [symmetric])
qed

text \<open>A step that paints the cells of \<open>R\<close>.\<close>

definition same_painter :: "'f painter \<Rightarrow> 'f painter \<Rightarrow> bool" where
  "same_painter s s' \<longleftrightarrow> sp_brush s' = sp_brush s \<and> sp_n s' = sp_n s \<and> sp_count s' = sp_count s \<and> length (sp_map s') = length (sp_map s) \<and>
     ap_n s' = ap_n s \<and> ap_max s' = ap_max s"

definition weight :: "'f painter \<Rightarrow> int \<Rightarrow> int \<Rightarrow> int \<Rightarrow> 'f option" where
  "weight s x y k = map_read (sp_map s) ((y * sp_n s + x) * sp_count s + k)"

definition paints :: "(int \<times> int) set \<Rightarrow> 'f painter \<Rightarrow> 'f painter \<Rightarrow> bool" where
  "paints R s s' \<longleftrightarrow> same_painter s s' \<and> (filled (sp_map s) \<longrightarrow> filled (sp_map s')) \<and>
     (\<forall>x y k. (x, y) \<notin> R \<longrightarrow> 0 \<le> x \<longrightarrow> x < sp_n s \<longrightarrow> 0 \<le> k \<longrightarrow> k < sp_count s \<longrightarrow> weight s' x y k = weight s x y k)"

lemma paints_quiet: "same_painter s s' \<Longrightarrow> sp_map s' = sp_map s \<Longrightarrow> paints R s s'"
  by (simp add: paints_def weight_def same_painter_def)

lemma paints_refl [simp]: "paints R s s"
  by (rule paints_quiet) (simp_all add: same_painter_def)

lemma paints_trans: "paints R a b \<Longrightarrow> paints R b c \<Longrightarrow> paints R a c"
  by (simp add: paints_def same_painter_def)

lemma splat_ok_same: "splat_ok n c N s \<Longrightarrow> same_painter s s' \<Longrightarrow> splat_ok n c N s'"
  by (simp add: splat_ok_def same_painter_def)

lemma paints_ok: "splat_ok n c N s \<Longrightarrow> filled (sp_map s) \<Longrightarrow> paints R s s' \<Longrightarrow> splat_ok n c N s' \<and> filled (sp_map s')"
  using splat_ok_same by (auto simp: paints_def)

text \<open>The weights of different cells do not overlap.\<close>

lemma line_distinct:
  assumes "0 \<le> x" "x < n" "0 \<le> x'" "x' < n" "(x', y') \<noteq> (x, y)" "0 \<le> k" "k < c" "0 < (c :: int)"
  shows "\<not> ((y * n + x) * c \<le> (y' * n + x') * c + k \<and> (y' * n + x') * c + k < (y * n + x) * c + c)"
proof
  assume "(y * n + x) * c \<le> (y' * n + x') * c + k \<and> (y' * n + x') * c + k < (y * n + x) * c + c"
  then have "((y' * n + x') * c + k) div c = y * n + x" by (intro int_div_pos_eq [where r = "(y' * n + x') * c + k - (y * n + x) * c"]) (simp_all add: algebra_simps)
  then have "y' * n + x' = y * n + x" using assms(6-8) by simp
  moreover have "(y' * n + x') mod n = x'" "(y * n + x) mod n = x" "(y' * n + x') div n = y'" "(y * n + x) div n = y" using assms(1-4) by simp_all
  ultimately show False using assms(5) by metis
qed

lemma changes_paints:
  assumes s: "splat_ok n c N s" and x: "0 \<le> x" "x < n" "0 \<le> y" "y < n" and m: "changes ((y * n + x) * c) ((y * n + x) * c + c) (sp_map s) m"
  shows "paints {(x, y)} s (s\<lparr>sp_map := m\<rparr>)"
proof -
  have n: "sp_n s = n" "sp_count s = c" "0 < c" using s by (simp_all add: splat_ok_def)
  have "weight (s\<lparr>sp_map := m\<rparr>) x' y' k = weight s x' y' k" if k: "(x', y') \<noteq> (x, y)" "0 \<le> x'" "x' < n" "0 \<le> k" "k < c" for x' y' k
    using m line_distinct [OF x(1,2) k(2,3,1,4,5) n(3)] by (simp add: weight_def n changes_def)
  moreover have "length m = length (sp_map s)" "filled (sp_map s) \<longrightarrow> filled m" using m by (auto simp: changes_def filled_def)
  ultimately show ?thesis by (simp add: paints_def same_painter_def n)
qed

section \<open>Painting\<close>

lemma Normalize_ok:
  assumes s: "splat_ok n c N s" "filled (sp_map s)" and x: "0 \<le> x" "x < n" "0 \<le> y" "y < n" "0 \<le> k" "k < c"
  shows "\<exists>s'. sp_Normalize F x y v k s = Some s' \<and> paints {(x, y)} s s'"
proof -
  have n: "sp_n s = n" "sp_count s = c" "0 < c" "n * n * c < 2 ^ 31" "int (length (sp_map s)) = n * n * c" using s(1) by (simp_all add: splat_ok_def)
  let ?l = "(y * n + x) * c" and ?v = "fclamp F v (fl_int F 0) (fl_lit F 1 0)"
  have l: "GetSplatMapIndex y x 0 n c = Some ?l" "inside_line ?l c (sp_map s)" using cell_line [OF x(1-4) n(3-5), of 0] n(3) by simp_all
  have k: "known_line ?l c (sp_map s)" using s(2) l(2) by (simp add: known_line_def filled_def inside_line_def)
  obtain m where m: "map_write (sp_map s) (?l + k) ?v = Some m" "changes ?l (?l + c) (sp_map s) m" using write_line [OF l(2) x(5,6)] by blast
  note l1 = inside_changes [OF l(2) m(2)] and k1 = known_changes [OF k m(2)]
  have r: "\<forall>i \<in> set (count_up 0 c 1). 0 \<le> i \<and> i < c" using count_up_range [of _ 0 c 1] by simp
  obtain t where t: "sum_others F m ?l k (count_up 0 c 1) (fl_int F 0) = Some t" using sum_others_ok [OF l1 k1 r] by blast
  obtain m1 where m1: "scale_others F ?l k (fl_div F (fl_sub F (fl_lit F 1 0) ?v) t) (count_up 0 c 1) m = Some m1" "changes ?l (?l + c) m m1"
    using scale_others_ok [OF l1 k1 r] by blast
  obtain m2 where m2: "set_only F ?l k (count_up 0 c 1) m = Some m2" "changes ?l (?l + c) m m2" using set_only_ok [OF l1 r] by blast
  let ?m = "if fl_less F (fl_lit F 1 2) t then m1 else m2"
  have "sp_Normalize F x y v k s = Some (s\<lparr>sp_map := ?m\<rparr>)"
    using l(1) line_fits [OF l(2) x(5,6)] m(1) t m1(1) m2(1) by (simp add: sp_Normalize_def n(1,2) Let_def)
  moreover have "changes ?l (?l + c) (sp_map s) ?m" using changes_trans [OF m(2)] m1(2) m2(2) by simp
  ultimately show ?thesis using changes_paints [OF s(1) x(1-4)] by blast
qed

lemma paint_cell_ok:
  assumes s: "splat_ok n c N s" "filled (sp_map s)" and k: "0 \<le> k" "k < c"
    and r: "rx = clamp (xo + xc) 0 (n - 1)" "ry = clamp (yo + yc) 0 (n - 1)"
  shows "\<exists>s'. paint_cell F k xc yc xo yo s = Some s' \<and> paints {(rx, ry)} s s'"
proof -
  have n: "sp_n s = n" "sp_count s = c" "1 < n" "0 < c" "n * n * c < 2 ^ 31" "int (length (sp_map s)) = n * n * c" using s(1) by (simp_all add: splat_ok_def)
  have x: "0 \<le> rx" "rx < n" "0 \<le> ry" "ry < n" using clamp_bounds [of 0 "n - 1"] n(3) unfolding r by force+
  let ?l = "(ry * n + rx) * c"
  note l = cell_line [OF x n(4-6) k]
  obtain a where a: "map_read (sp_map s) (?l + k) = Some a" using s(2) l(2) k by (fastforce simp: filled_def inside_line_def)
  let ?v = "fl_add F a (fl_mul F (GetStrength F xo yo (sp_brush s)) (sp_strength s))"
  obtain m where m: "map_write (sp_map s) (?l + k) ?v = Some m" "changes ?l (?l + c) (sp_map s) m" using write_line [OF l(2) k] by blast
  note p = changes_paints [OF s(1) x m(2)]
  have s1: "splat_ok n c N (s\<lparr>sp_map := m\<rparr>)" "filled (sp_map (s\<lparr>sp_map := m\<rparr>))" using paints_ok [OF s p] by simp_all
  obtain s2 where s2: "sp_Normalize F rx ry ?v k (s\<lparr>sp_map := m\<rparr>) = Some s2" "paints {(rx, ry)} (s\<lparr>sp_map := m\<rparr>) s2"
    using Normalize_ok [OF s1 x k] by blast
  have "paint_cell F k xc yc xo yo s = Some s2" using l(1) a m(1) s2(1) by (simp add: paint_cell_def n(1,2) r [symmetric] Let_def)
  then show ?thesis using paints_trans [OF p s2(2)] by blast
qed

text \<open>The cells that can be painted at all: not those of the first row and column.\<close>

definition reachable_cells :: "(int \<times> int) set" where
  "reachable_cells = {c. 0 < fst c \<and> 0 < snd c}"

lemma paints_mono: "paints A s s' \<Longrightarrow> A \<subseteq> B \<Longrightarrow> paints B s s'"
  unfolding paints_def by blast

lemma paint_cells_ok:
  "splat_ok n c N s \<Longrightarrow> filled (sp_map s) \<Longrightarrow> 0 \<le> k \<Longrightarrow> k < c \<Longrightarrow> \<forall>(xo, yo) \<in> set cs. 0 < xo + xc \<and> 0 < yo + yc \<Longrightarrow>
    \<exists>s'. paint_cells F k xc yc cs s = Some s' \<and> paints reachable_cells s s'"
proof (induction cs arbitrary: s)
  case (Cons d cs)
  obtain xo yo where d: "d = (xo, yo)" by (cases d)
  have n: "1 < n" using Cons.prems(1) by (simp add: splat_ok_def)
  obtain s1 where s1: "paint_cell F k xc yc xo yo s = Some s1" "paints {(clamp (xo + xc) 0 (n - 1), clamp (yo + yc) 0 (n - 1))} s s1"
    using paint_cell_ok [OF Cons.prems(1-4) refl refl] by blast
  have "{(clamp (xo + xc) 0 (n - 1), clamp (yo + yc) 0 (n - 1))} \<subseteq> reachable_cells"
    using Cons.prems(5) n d by (auto simp: reachable_cells_def clamp_def)
  note p1 = paints_mono [OF s1(2) this]
  obtain s2 where s2: "paint_cells F k xc yc cs s1 = Some s2" "paints reachable_cells s1 s2"
    using Cons.IH [of s1] paints_ok [OF Cons.prems(1,2) p1] Cons.prems(3-5) by auto
  show ?case using d s1(1) s2(1) paints_trans [OF p1 s2(2)] by simp
qed simp

lemma Paint_ok:
  assumes s: "splat_ok n c N s" "filled (sp_map s)" and k: "0 \<le> k"
  shows "\<exists>s'. sp_Paint F xc yc k s = Some s' \<and> paints reachable_cells s s'"
proof (cases "k < c")
  case True
  have n: "sp_n s = n" "sp_count s = c" "1 < n" "br_n (sp_brush s) = Some 5" using s(1) by (simp_all add: splat_ok_def)
  have shift: "0 < clamp (z - 2) 0 (n - 1) + i - (z - 2 + 1) + z" if "i \<in> set (count_up 0 w 1)" for z i w
    using clamp_bounds [of 0 "n - 1" "z - 2"] n(3) count_up_range [OF that] by simp
  let ?cs = "concat (map (\<lambda>x. map (\<lambda>y. (clamp (xc - 2) 0 (n - 1) + x - (xc - 2 + 1), clamp (yc - 2) 0 (n - 1) + y - (yc - 2 + 1)))
             (count_up 0 (clamp (yc + 2 + 1) 0 n - clamp (yc - 2) 0 (n - 1)) 1)) (count_up 0 (clamp (xc + 2 + 1) 0 n - clamp (xc - 2) 0 (n - 1)) 1))"
  have "\<forall>(xo, yo) \<in> set ?cs. 0 < xo + xc \<and> 0 < yo + yc"
  proof
    fix d assume "d \<in> set ?cs"
    then obtain x y where d: "x \<in> set (count_up 0 (clamp (xc + 2 + 1) 0 n - clamp (xc - 2) 0 (n - 1)) 1)"
      "y \<in> set (count_up 0 (clamp (yc + 2 + 1) 0 n - clamp (yc - 2) 0 (n - 1)) 1)"
      "d = (clamp (xc - 2) 0 (n - 1) + x - (xc - 2 + 1), clamp (yc - 2) 0 (n - 1) + y - (yc - 2 + 1))" by auto
    show "case d of (xo, yo) \<Rightarrow> 0 < xo + xc \<and> 0 < yo + yc"
      unfolding d(3) prod.case using shift [OF d(1), of xc] shift [OF d(2), of yc] by blast
  qed
  from paint_cells_ok [OF s k True this] show ?thesis using True n by (simp add: sp_Paint_def Let_def)
next
  case False
  then show ?thesis using s(1) by (auto simp: sp_Paint_def splat_ok_def)
qed

section \<open>The initial map\<close>

definition initial_weight :: "'f fl \<Rightarrow> int \<Rightarrow> 'f" where
  "initial_weight F a = (if a = 1 then fl_lit F 1 0 else fl_int F 0)"

lemma init_cells_ok:
  assumes "0 < c" "n * n * c < 2 ^ 31"
  shows "int (length m) = n * n * c \<Longrightarrow> \<forall>(x, y, a) \<in> set cs. 0 \<le> x \<and> x < n \<and> 0 \<le> y \<and> y < n \<and> 0 \<le> a \<and> a < c \<Longrightarrow>
    \<exists>m'. init_cells F n c cs m = Some m' \<and> length m' = length m \<and>
      (\<forall>p. map_read m' p = (if \<exists>(x, y, a) \<in> set cs. p = (y * n + x) * c + a then Some (initial_weight F (p mod c)) else map_read m p))"
proof (induction cs arbitrary: m)
  case (Cons d cs)
  obtain x y a where d: "d = (x, y, a)" by (cases d)
  have x: "0 \<le> x" "x < n" "0 \<le> y" "y < n" "0 \<le> a" "a < c" using Cons.prems(2) d by auto
  let ?p = "(y * n + x) * c + a"
  note l = cell_line [OF x(1-4) assms Cons.prems(1) x(5,6)]
  obtain m1 where m1: "map_write m ?p (initial_weight F a) = Some m1" using write_line [OF l(2) x(5,6)] by blast
  have mod: "?p mod c = a" using x(5,6) by simp
  have len: "length m1 = length m" by (rule map_write_length [OF m1])
  obtain m2 where m2: "init_cells F n c cs m1 = Some m2" "length m2 = length m1"
    "\<forall>p. map_read m2 p = (if \<exists>(x, y, a) \<in> set cs. p = (y * n + x) * c + a then Some (initial_weight F (p mod c)) else map_read m1 p)"
    using Cons.IH [of m1] Cons.prems len by auto
  have "map_read m2 p = (if \<exists>(x, y, a) \<in> set (d # cs). p = (y * n + x) * c + a then Some (initial_weight F (p mod c)) else map_read m p)" for p
    using m2(3) map_write_read [OF m1, of p] mod unfolding d by auto
  then show ?case using l(1) m1 m2(1,2) len unfolding d by (simp add: initial_weight_def)
qed simp

lemma div_below: assumes "0 < (c :: int)" "p < r * c" shows "p div c < r"
proof (rule ccontr)
  assume "\<not> p div c < r"
  then have "r * c \<le> p div c * c" using assms(1) by (simp add: mult_right_mono)
  moreover have "p div c * c \<le> p" using assms(1) div_mult_mod_eq [of p c] pos_mod_sign [of c p] by linarith
  ultimately show False using assms(2) by simp
qed

text \<open>What the painter leaves behind in the cells that it does not reach.\<close>

definition edge_initial :: "'f fl \<Rightarrow> 'f painter \<Rightarrow> bool" where
  "edge_initial F s \<longleftrightarrow> (\<forall>x y k. 0 \<le> x \<longrightarrow> x < sp_n s \<longrightarrow> 0 \<le> y \<longrightarrow> y < sp_n s \<longrightarrow> 0 \<le> k \<longrightarrow> k < sp_count s \<longrightarrow> x = 0 \<or> y = 0 \<longrightarrow>
     weight s x y k = Some (initial_weight F k))"

lemma paints_edge: "edge_initial F s \<Longrightarrow> paints reachable_cells s s' \<Longrightarrow> edge_initial F s'"
  by (fastforce simp: edge_initial_def paints_def same_painter_def reachable_cells_def)

lemma InitSplatMap_ok:
  assumes s: "splat_ok n c N s"
  shows "\<exists>s'. InitSplatMap F s = Some s' \<and> same_painter s s' \<and> filled (sp_map s') \<and> edge_initial F s'"
proof -
  have n: "sp_n s = n" "sp_count s = c" "1 < n" "0 < c" "n * n * c < 2 ^ 31" "int (length (sp_map s)) = n * n * c" using s by (simp_all add: splat_ok_def)
  let ?cs = "concat (map (\<lambda>x. concat (map (\<lambda>y. map (\<lambda>a. (x, y, a)) (count_up 0 c 1)) (count_up 0 n 1))) (count_up 0 n 1))"
  have cs: "set ?cs = {0..<n} \<times> {0..<n} \<times> {0..<c}" by (auto simp: set_count_up_one)
  then have "\<forall>(x, y, a) \<in> set ?cs. 0 \<le> x \<and> x < n \<and> 0 \<le> y \<and> y < n \<and> 0 \<le> a \<and> a < c" by auto
  from init_cells_ok [OF n(4,5,6) this] obtain m where m: "init_cells F n c ?cs (sp_map s) = Some m" "length m = length (sp_map s)"
    "\<forall>p. map_read m p = (if \<exists>(x, y, a) \<in> set ?cs. p = (y * n + x) * c + a then Some (initial_weight F (p mod c)) else map_read (sp_map s) p)" by blast
  have w: "map_read m ((y * n + x) * c + a) = Some (initial_weight F a)" if "0 \<le> x" "x < n" "0 \<le> y" "y < n" "0 \<le> a" "a < c" for x y a
  proof -
    have "(x, y, a) \<in> set ?cs" unfolding cs using that by simp
    moreover have "((y * n + x) * c + a) mod c = a" using that(5,6) by simp
    ultimately show ?thesis using m(3) by fastforce
  qed
  have "filled m" unfolding filled_def
  proof (intro allI impI)
    fix p assume p: "0 \<le> p \<and> p < int (length m)"
    have "p div c < n * n" using p m(2) n(6) by (intro div_below [OF n(4)]) simp
    then have "0 \<le> p div c" "p div c div n < n" using p n(3,4) div_below [of n "p div c" n] by (simp_all add: pos_imp_zdiv_nonneg_iff)
    then have "map_read m ((p div c div n * n + p div c mod n) * c + p mod c) = Some (initial_weight F (p mod c))"
      using w [of "p div c mod n" "p div c div n" "p mod c"] n(3,4) by (simp add: pos_imp_zdiv_nonneg_iff)
    then show "map_read m p \<noteq> None" by simp
  qed
  moreover have "edge_initial F (s\<lparr>sp_map := m\<rparr>)" using w by (simp add: edge_initial_def weight_def n)
  moreover have "InitSplatMap F s = Some (s\<lparr>sp_map := m\<rparr>)" using m(1) by (simp add: InitSplatMap_def n)
  moreover have "same_painter s (s\<lparr>sp_map := m\<rparr>)" using m(2) by (simp add: same_painter_def)
  ultimately show ?thesis by auto
qed

section \<open>The automatic painter\<close>

lemma GetAlpha_ok:
  assumes s: "splat_ok n c N s" "filled (sp_map s)" and k: "0 \<le> k" shows "\<exists>a. sp_GetAlpha F x y k s = Some a"
proof (cases "k < c")
  case True
  have n: "sp_n s = n" "sp_count s = c" "1 < n" "0 < c" "n * n * c < 2 ^ 31" "int (length (sp_map s)) = n * n * c" using s(1) by (simp_all add: splat_ok_def)
  let ?x = "clamp x 0 (n - 1)" and ?y = "clamp y 0 (n - 1)"
  have "0 \<le> ?x" "?x < n" "0 \<le> ?y" "?y < n" using clamp_bounds [of 0 "n - 1"] n(3) by force+
  note l = cell_line [OF this n(4-6) k True]
  have "map_read (sp_map s) ((?y * n + ?x) * c + k) \<noteq> None" using s(2) l(2) k True by (simp add: filled_def inside_line_def)
  then show ?thesis using l(1) by (auto simp: sp_GetAlpha_def n)
next
  case False
  then show ?thesis using s(1) by (simp add: sp_GetAlpha_def splat_ok_def)
qed

text \<open>The neighbours do not count: the number depends on the weight of the cell itself.\<close>

lemma neighbors_ignored:
  assumes "sp_GetAlpha F x y 0 s = Some a"
  shows "count_neighbors F x y cs cnt s = Some (if fl_less F (fl_lit F 5 1) a then cnt + length (filter (\<lambda>c. c \<noteq> (x, y)) cs) else cnt)"
proof (induction cs arbitrary: cnt)
  case (Cons c cs)
  show ?case
  proof (cases "c = (x, y)")
    case False
    then have "(x = fst c \<and> y = snd c) = False" by auto
    then show ?thesis using Cons.IH assms False by (simp del: not_False_eq_True de_Morgan_conj)
  qed (use Cons.IH in simp)
qed simp

definition heights_ok :: "int \<Rightarrow> 'f option list \<Rightarrow> bool" where
  "heights_ok N heights \<longleftrightarrow> 0 < N \<and> N * N < 2 ^ 31 \<and> int (length heights) = N * N \<and> filled heights"

lemma height_at_ok:
  assumes h: "heights_ok N heights" and n: "ap_n s = Some N" and x: "0 \<le> x" "x < N" "0 \<le> y" "y < N"
  shows "\<exists>v. height_at F heights x y s = Some v"
proof -
  have "y * N \<le> (N - 1) * N" "0 \<le> y * N" using x by (simp_all add: mult_right_mono)
  then obtain p where p: "p = y * N" "0 \<le> p" "p + x < N * N" using x(2) by (simp add: algebra_simps)
  have "fits 32 p = Some p" "fits 32 (x + p) = Some (x + p)" using p(2,3) x(1) h by (simp_all add: fits_def heights_ok_def)
  moreover have "map_read heights (x + p) \<noteq> None" using h p(2,3) x(1) by (simp add: heights_ok_def filled_def)
  ultimately show ?thesis using n p(1) by (auto simp: height_at_def GetHeightMapIndex_def)
qed

text \<open>What is asked of the numbers: the cells have a place on the height map, and chances can be drawn.\<close>

definition splat_numbers :: "'f gen_env \<Rightarrow> int \<Rightarrow> int \<Rightarrow> bool" where
  "splat_numbers env n N \<longleftrightarrow> (let F = ge_fl env in
     (\<forall>x. 0 \<le> x \<and> x < n \<longrightarrow> fl_trunc F (fl_mul F (fl_div F (fl_int F N) (fl_int F n)) (fl_int F x)) \<noteq> None) \<and>
     drawable env (fl_int F 0) (fl_lit F 1 0))"

lemma ap_Paint_ok:
  assumes s: "splat_ok n c N s" "filled (sp_map s)" and h: "heights_ok N heights" and num: "splat_numbers env n N"
    and x: "0 \<le> x" "x < n" "0 \<le> y" "y < n" and scale: "scale = fl_div (ge_fl env) (fl_int (ge_fl env) N) (fl_int (ge_fl env) n)"
  shows "\<exists>s'. ap_Paint env heights x y b scale s = Some s' \<and> paints reachable_cells s s'"
proof -
  let ?F = "ge_fl env"
  obtain hx where hx: "fl_trunc ?F (fl_mul ?F scale (fl_int ?F x)) = Some hx" using num x unfolding scale splat_numbers_def Let_def by blast
  obtain hy where hy: "fl_trunc ?F (fl_mul ?F scale (fl_int ?F y)) = Some hy" using num x unfolding scale splat_numbers_def Let_def by blast
  have N: "ap_n s = Some N" "ap_max s = Some (N - 1)" "0 < N" using s(1) h by (simp_all add: splat_ok_def heights_ok_def)
  have "0 \<le> clamp z 0 (N - 1)" "clamp z 0 (N - 1) < N" for z using clamp_bounds [of 0 "N - 1" z] N(3) by simp_all
  then obtain v where v: "height_at ?F heights (clamp hx 0 (N - 1)) (clamp hy 0 (N - 1)) s = Some v" using height_at_ok [OF h N(1)] by blast
  obtain a where a: "sp_GetAlpha ?F x y 0 s = Some a" using GetAlpha_ok [OF s] by blast
  obtain ch p where ch: "GetChance env (fl_lit ?F 5 1) s = Some (ch, s\<lparr>gs_pos := p\<rparr>)" using GetChance_ok [of env "fl_lit ?F 5 1" s] num by (auto simp: splat_numbers_def Let_def)
  have paint: "\<exists>s'. sp_Paint ?F x y k (sp_SetBaseBrushStrength q t) = Some s' \<and> paints reachable_cells s s'"
    if t: "same_painter s t" "sp_map t = sp_map s" "0 \<le> k" for k q t
  proof -
    have t': "same_painter s (sp_SetBaseBrushStrength q t)" "sp_map (sp_SetBaseBrushStrength q t) = sp_map s"
      using t(1,2) by (simp_all add: sp_SetBaseBrushStrength_def same_painter_def)
    obtain s' where "sp_Paint ?F x y k (sp_SetBaseBrushStrength q t) = Some s'" "paints reachable_cells (sp_SetBaseBrushStrength q t) s'"
      using Paint_ok [OF splat_ok_same [OF s(1) t'(1)] _ t(3)] s(2) t'(2) by metis
    then show ?thesis using paints_trans [OF paints_quiet [OF t']] by blast
  qed
  have same: "same_painter s s" "same_painter s (s\<lparr>gs_pos := p\<rparr>)" by (simp_all add: same_painter_def)
  obtain s1 where s1: "sp_Paint ?F x y 1 (sp_SetBaseBrushStrength (fl_int ?F 1) s) = Some s1" "paints reachable_cells s s1" using paint [OF same(1) refl, of 1] by auto
  obtain s2 where s2: "sp_Paint ?F x y 0 (sp_SetBaseBrushStrength (fl_int ?F 1) s) = Some s2" "paints reachable_cells s s2" using paint [OF same(1) refl, of 0] by auto
  obtain s3 where s3: "sp_Paint ?F x y 0 (sp_SetBaseBrushStrength (fl_int ?F 1) (s\<lparr>gs_pos := p\<rparr>)) = Some s3" "paints reachable_cells s s3"
    using paint [OF same(2), of 0] by auto
  have "paints reachable_cells s (s\<lparr>gs_pos := p\<rparr>)" by (rule paints_quiet [OF same(2)]) simp
  then show ?thesis using hx hy N(2) v a ch s1 s2 s3 unfolding ap_Paint_def
    by (cases "fl_less ?F (fl_lit ?F 550 0) v"; cases "fl_less ?F v (fl_lit ?F 50 0)"; cases ch) (simp_all add: Let_def neighbors_ignored [OF a])
qed

section \<open>The whole map\<close>

definition drew :: "'f gen_env \<Rightarrow> 'f painter \<Rightarrow> (bool \<times> 'f painter) option \<Rightarrow> bool" where
  "drew env s r \<longleftrightarrow> (\<exists>go s'. r = Some (go, s') \<and> paints reachable_cells s s' \<and> ((\<forall>k. \<not> ge_stop env k) \<longrightarrow> go))"

lemma drew_done: "drew env s (Some (True, s))"
  unfolding drew_def by (intro exI [of _ True] exI [of _ s]) simp

lemma drew_bind:
  assumes "drew env s r" "\<And>s'. r = Some (True, s') \<Longrightarrow> paints reachable_cells s s' \<Longrightarrow> drew env s' (f s')"
  shows "drew env s (Option.bind r (\<lambda>(go, s). if go then f s else Some (False, s)))"
proof -
  obtain go s' where r: "r = Some (go, s')" "paints reachable_cells s s'" "(\<forall>k. \<not> ge_stop env k) \<longrightarrow> go" using assms(1) unfolding drew_def by blast
  show ?thesis
  proof (cases go)
    case True
    then have "drew env s' (f s')" using assms(2) r by simp
    then show ?thesis using True r(1) paints_trans [OF r(2)] unfolding drew_def by auto
  next
    case False
    then show ?thesis using r unfolding drew_def by auto
  qed
qed

lemma IsStopped_paints:
  obtains s1 where "IsStopped env s = (ge_stop env (gs_polls s), s1)" "paints R s s1" "same_painter s s1"
proof -
  have "same_painter s (s\<lparr>gs_polls := gs_polls s + 1\<rparr>)" by (simp add: same_painter_def)
  moreover from this have "paints R s (s\<lparr>gs_polls := gs_polls s + 1\<rparr>)" by (rule paints_quiet) simp
  ultimately show thesis using that by (simp add: IsStopped_def)
qed

lemma row_drew:
  assumes h: "heights_ok N heights" and num: "splat_numbers env n N"
    and y: "0 \<le> y" "y < n" and scale: "scale = fl_div (ge_fl env) (fl_int (ge_fl env) N) (fl_int (ge_fl env) n)"
  shows "splat_ok n c N s \<Longrightarrow> filled (sp_map s) \<Longrightarrow> set xs \<subseteq> {0..<n} \<Longrightarrow> drew env s (draw_row env heights b scale y xs s)"
proof (induction xs arbitrary: s)
  case Nil
  then show ?case by (simp add: drew_done)
next
  case (Cons x xs)
  obtain s1 where s1: "IsStopped env s = (ge_stop env (gs_polls s), s1)" "paints reachable_cells s s1"
    using IsStopped_paints .
  note k1 = paints_ok [OF Cons.prems(1,2) s1(2)]
  obtain s2 where s2: "ap_Paint env heights x y b scale s1 = Some s2" "paints reachable_cells s1 s2"
    using ap_Paint_ok [OF conjunct1 [OF k1] conjunct2 [OF k1] h num _ _ y scale, of x b] Cons.prems(3) by auto
  note k2 = paints_ok [OF conjunct1 [OF k1] conjunct2 [OF k1] s2(2)]
  have "drew env s2 (draw_row env heights b scale y xs s2)" using Cons.IH [of s2] k2 Cons.prems(3) by simp
  then show ?case using s1 s2 paints_trans [OF s1(2) paints_trans [OF s2(2)]] unfolding drew_def by auto
qed

lemma rows_drew:
  assumes h: "heights_ok N heights" and num: "splat_numbers env n N"
    and scale: "scale = fl_div (ge_fl env) (fl_int (ge_fl env) N) (fl_int (ge_fl env) n)" and xs: "set xs \<subseteq> {0..<n}"
  shows "splat_ok n c N s \<Longrightarrow> filled (sp_map s) \<Longrightarrow> set ys \<subseteq> {0..<n} \<Longrightarrow> drew env s (draw_rows env heights b scale xs ys s)"
proof (induction ys arbitrary: s)
  case Nil
  then show ?case by (simp add: drew_done)
next
  case (Cons y ys)
  have y: "0 \<le> y" "y < n" using Cons.prems(3) by simp_all
  show ?case unfolding draw_rows.simps
    by (rule drew_bind [OF row_drew [OF h num y scale Cons.prems(1,2) xs]]) (use paints_ok [OF Cons.prems(1,2)] Cons.IH Cons.prems(3) in auto)
qed

lemma rest_drew:
  assumes h: "heights_ok N heights" and num: "splat_numbers env n N"
    and scale: "scale = fl_div (ge_fl env) (fl_int (ge_fl env) N) (fl_int (ge_fl env) n)"
  shows "set xs \<subseteq> {0..<n} \<Longrightarrow> splat_ok n c N s \<Longrightarrow> filled (sp_map s) \<Longrightarrow> set ys \<subseteq> {0..<n} \<Longrightarrow> drew env s (draw_rest env heights b scale xs ys s)"
proof (induction ys arbitrary: xs s)
  case Nil
  then show ?case by (simp add: drew_done)
next
  case (Cons y ys)
  have y: "0 \<le> y" "y < n" using Cons.prems(4) by simp_all
  show ?case unfolding draw_rest.simps
    by (rule drew_bind [OF row_drew [OF h num y scale Cons.prems(2,3,1)]]) (use paints_ok [OF Cons.prems(2,3)] Cons.IH [of "[]"] Cons.prems(4) in auto)
qed

text \<open>What the initialisation makes of a painter.\<close>

lemma ap_Init_ok:
  assumes "1 < n" "0 < c" "n * n * c < 2 ^ 31" "int (length m) = n * n * c"
  shows "\<exists>s'. ap_Init F (Some heights) N (Some m) n c s = Some s' \<and> splat_ok n c N s' \<and> gs_polls s' = gs_polls s \<and> sp_map s' = m"
  using assms by (simp add: ap_Init_def sp_Init_def sp_ResetBrush_def br_Initilize_def nBrushMinSize_def fits_def splat_ok_def)

lemma DrawSplatMap_ok:
  assumes h: "heights_ok N heights" and num: "splat_numbers env n N" and s: "splat_ok n c N s"
  shows "\<exists>go s'. DrawSplatMap env heights s = Some (go, s') \<and> same_painter s s' \<and> ((\<forall>k. \<not> ge_stop env k) \<longrightarrow> go) \<and>
    (go \<or> \<not> ge_stop env (gs_polls s) \<longrightarrow> filled (sp_map s') \<and> edge_initial (ge_fl env) s')"
proof -
  obtain s1 where s1: "IsStopped env s = (ge_stop env (gs_polls s), s1)" "same_painter s s1" using IsStopped_paints by blast
  show ?thesis
  proof (cases "ge_stop env (gs_polls s)")
    case True
    then show ?thesis using s1 by (auto simp: DrawSplatMap_def)
  next
    case False
    have k1: "splat_ok n c N s1" by (rule splat_ok_same [OF s s1(2)])
    obtain s2 where i2: "InitSplatMap (ge_fl env) s1 = Some s2" "same_painter s1 s2" "filled (sp_map s2)" "edge_initial (ge_fl env) s2"
      using InitSplatMap_ok [OF k1] by blast
    note s2 = i2(1) splat_ok_same [OF k1 i2(2)] i2(3,4)
    have n: "1 < n" "sp_n s2 = n" "br_n (sp_brush s2) = Some 5" "ap_n s2 = Some N" using s2(2) by (simp_all add: splat_ok_def)
    let ?scale = "fl_div (ge_fl env) (fl_int (ge_fl env) N) (fl_int (ge_fl env) n)"
    have xs: "set (count_up 0 n 2) \<subseteq> {0..<n}" "set (count_up (n - 2) n 2) \<subseteq> {0..<n}" using count_up_range [of _ 0 n 2] count_up_range [of _ "n - 2" n 2] n(1) by force+
    let ?rows = "draw_rows env heights 2 ?scale (count_up 0 n 2) (count_up 0 n 2) s2"
    let ?rest = "draw_rest env heights 2 ?scale (count_up (n - 2) n 2) (count_up (n - 2) n 2)"
    have "drew env s2 (Option.bind ?rows (\<lambda>(go, s). if go then ?rest s else Some (False, s)))"
      by (rule drew_bind [OF rows_drew [OF h num refl xs(1) s2(2,3) xs(1)]]) (use paints_ok [OF s2(2,3)] rest_drew [OF h num refl xs(2) _ _ xs(2)] in blast)
    moreover have "DrawSplatMap env heights s = Option.bind ?rows (\<lambda>(go, s). if go then ?rest s else Some (False, s))"
      using False s1(1) s2(1) n(2-4) by (simp add: DrawSplatMap_def Let_def cong: if_cong)
    ultimately obtain go s3 where s3: "DrawSplatMap env heights s = Some (go, s3)" "paints reachable_cells s2 s3" "(\<forall>k. \<not> ge_stop env k) \<longrightarrow> go"
      unfolding drew_def by auto
    have "same_painter s s3" using s1(2) i2(2) s3(2) by (simp add: paints_def same_painter_def)
    moreover have "filled (sp_map s3)" "edge_initial (ge_fl env) s3" using paints_ok [OF s2(2,3) s3(2)] paints_edge [OF s2(4) s3(2)] by simp_all
    ultimately show ?thesis using s3(1,3) by blast
  qed
qed

lemma demo_numbers: "splat_numbers fixed_env 4 5"
proof -
  have "- 2147483648 \<le> 5 * x div 4" "5 * x div 4 < 2147483648" if "0 \<le> x \<and> x < 4" for x :: int using that by auto
  then show ?thesis by (simp add: splat_numbers_def drawable_def fixed_env_def fixed_point_def fits_def)
qed

lemma demo_heights: "heights_ok 5 (replicate 25 (Some 7))"
  by (auto simp: heights_ok_def filled_def map_read_def)

text \<open>
  C26. The splat map is painted without leaving the arrays.  Initialised with a map of the right size and complete heights, the
  painter returns for any random numbers and wherever it is stopped, and unless it was stopped before it began, each weight
  of each cell has been written.
\<close>

theorem splat_map_painted:
  assumes "1 < n" and "0 < c" and "n * n * c < 2 ^ 31" and "int (length m) = n * n * c"
    and "heights_ok N heights" and "splat_numbers env n N"
  shows "\<exists>s1 go s2. ap_Init (ge_fl env) (Some heights) N (Some m) n c s = Some s1 \<and> DrawSplatMap env heights s1 = Some (go, s2) \<and>
    ((\<forall>k. \<not> ge_stop env k) \<longrightarrow> go) \<and> (\<not> ge_stop env (gs_polls s) \<longrightarrow> length (sp_map s2) = length m \<and> None \<notin> set (sp_map s2))"
proof -
  obtain s1 where s1: "ap_Init (ge_fl env) (Some heights) N (Some m) n c s = Some s1" "splat_ok n c N s1" "gs_polls s1 = gs_polls s"
    using ap_Init_ok [OF assms(1-4)] by blast
  obtain go s2 where s2: "DrawSplatMap env heights s1 = Some (go, s2)" "same_painter s1 s2" "(\<forall>k. \<not> ge_stop env k) \<longrightarrow> go"
    "\<not> ge_stop env (gs_polls s1) \<longrightarrow> filled (sp_map s2)" using DrawSplatMap_ok [OF assms(5,6) s1(2)] by blast
  have "length (sp_map s2) = length m" using s2(2) s1(2) assms(4) by (simp add: same_painter_def splat_ok_def)
  moreover have "None \<notin> set (sp_map s2)" if "filled (sp_map s2)"
  proof
    assume "None \<in> set (sp_map s2)"
    then obtain i where i: "i < length (sp_map s2)" "sp_map s2 ! i = None" by (auto simp: in_set_conv_nth)
    then have "map_read (sp_map s2) (int i) = None" by (simp add: map_read_def)
    moreover have "map_read (sp_map s2) (int i) \<noteq> None" using that i(1) unfolding filled_def by (metis of_nat_0_le_iff of_nat_less_iff)
    ultimately show False by simp
  qed
  ultimately show ?thesis using s1(1,3) s2 by (intro exI [of _ s1] exI [of _ go] exI [of _ s2]) simp
qed

theorem splat_map_painted_witness:
  "\<exists>s1 s2. ap_Init fixed_point (Some (replicate 25 (Some 7))) 5 (Some (replicate 32 None)) 4 2 (ap_new fixed_point \<lparr>gs_seed = 1, gs_pos = 0, gs_polls = 0\<rparr>) = Some s1 \<and>
     DrawSplatMap fixed_env (replicate 25 (Some 7)) s1 = Some (True, s2) \<and> None \<notin> set (sp_map s2)"
proof -
  have "ge_fl fixed_env = fixed_point" "\<forall>k. \<not> ge_stop fixed_env k" by (simp_all add: fixed_env_def)
  then show ?thesis
    using splat_map_painted [OF _ _ _ _ demo_heights demo_numbers, of 2 "replicate 32 None" "ap_new fixed_point \<lparr>gs_seed = 1, gs_pos = 0, gs_polls = 0\<rparr>"] by auto
qed

text \<open>
  C27. The first row and the first column are never painted.  The painter adds the remainder of the brush size to the wrong
  side, so the painted square lies one cell to the right and above: whatever the heights and the random numbers
  are, the cells of the first row and column keep the weights of the initial map.
\<close>

theorem first_row_unpainted:
  assumes "1 < n" and "0 < c" and "n * n * c < 2 ^ 31" and "int (length m) = n * n * c"
    and "heights_ok N heights" and "splat_numbers env n N" and "\<not> ge_stop env (gs_polls s)"
    and "0 \<le> x" and "x < n" and "0 \<le> y" and "y < n" and "x = 0 \<or> y = 0" and "0 \<le> k" and "k < c"
  shows "\<exists>s1 go s2. ap_Init (ge_fl env) (Some heights) N (Some m) n c s = Some s1 \<and> DrawSplatMap env heights s1 = Some (go, s2) \<and>
    sp_GetAlpha (ge_fl env) x y k s2 = Some (if k = 1 then fl_lit (ge_fl env) 1 0 else fl_int (ge_fl env) 0)"
proof -
  obtain s1 where s1: "ap_Init (ge_fl env) (Some heights) N (Some m) n c s = Some s1" "splat_ok n c N s1" "gs_polls s1 = gs_polls s"
    using ap_Init_ok [OF assms(1-4)] by blast
  obtain go s2 where s2: "DrawSplatMap env heights s1 = Some (go, s2)" "same_painter s1 s2" "edge_initial (ge_fl env) s2"
    using DrawSplatMap_ok [OF assms(5,6) s1(2)] assms(7) s1(3) by auto
  have s2': "splat_ok n c N s2" by (rule splat_ok_same [OF s1(2) s2(2)])
  then have n: "sp_n s2 = n" "sp_count s2 = c" "int (length (sp_map s2)) = n * n * c" by (simp_all add: splat_ok_def)
  have "weight s2 x y k = Some (initial_weight (ge_fl env) k)" using s2(3) assms(8-14) unfolding edge_initial_def n by blast
  then have "sp_GetAlpha (ge_fl env) x y k s2 = Some (initial_weight (ge_fl env) k)"
    using cell_line(1) [OF assms(8-11,2,3) n(3) assms(13,14)] assms(8-11,14) n by (simp add: sp_GetAlpha_def weight_def clamp_id)
  then show ?thesis using s1(1) s2(1) by (auto simp: initial_weight_def)
qed

theorem first_row_unpainted_witness:
  "\<exists>s1 go s2. ap_Init fixed_point (Some (replicate 25 (Some 7))) 5 (Some (replicate 32 None)) 4 2 (ap_new fixed_point \<lparr>gs_seed = 1, gs_pos = 0, gs_polls = 0\<rparr>) = Some s1 \<and>
     DrawSplatMap fixed_env (replicate 25 (Some 7)) s1 = Some (go, s2) \<and> sp_GetAlpha fixed_point 0 3 1 s2 = Some 10000"
proof -
  have "ge_fl fixed_env = fixed_point" "\<forall>k. \<not> ge_stop fixed_env k" by (simp_all add: fixed_env_def)
  moreover have "fl_lit fixed_point 1 0 = 10000" by (simp add: fixed_point_def)
  ultimately show ?thesis
    using first_row_unpainted [OF _ _ _ _ demo_heights demo_numbers, of 2 "replicate 32 None" "ap_new fixed_point \<lparr>gs_seed = 1, gs_pos = 0, gs_polls = 0\<rparr>" 0 3 1] by auto
qed

end
