(* ===== verification/Map_Generator.thy ===== *)
theory Map_Generator
  imports Diamond_Square Splat_Painter Work_Queues
begin

text \<open>
  \<^verbatim>\<open>Generator/Terrain/Terrain.h/.cpp\<close> and \<^verbatim>\<open>Generator/MapGenerator/MapGenerator.h/.cpp\<close>: the world map, the tiles that
  are cut from it and what the main thread does with them.  Terrains are objects in a store, since shared pointers
  refer to them; a pointer to a height map is the name of a buffer, whose contents are \<open>mg_mem\<close>.  The buffers of the
  game are the \<open>Client\<close> buffers.  \<open>LoadFromNative\<close> always answers no; positions and logging stay as they are in the
  code, except that nothing is printed.
\<close>

section \<open>Terrains\<close>

datatype buffer = World_Heights | Client nat

type_synonym 'f memory = "buffer \<rightharpoonup> 'f option list"

record 'f terrain =
  te_left :: "nat option"
  te_bottom :: "nat option"
  te_right :: "nat option"
  te_top :: "nat option"
  te_pos :: "'f \<times> 'f \<times> 'f"
  te_I :: u32
  te_real :: u32
  te_map :: "buffer option"
  te_n :: int
  te_id :: u32
  te_ready :: bool

definition te_new :: "'f fl \<Rightarrow> u32 \<Rightarrow> u32 \<Rightarrow> u32 \<Rightarrow> 'f terrain" where
  "te_new F ins I heightMapSize = \<lparr>te_left = None, te_bottom = None, te_right = None, te_top = None, te_pos = (fl_int F 0, fl_int F 0, fl_int F 0),
     te_I = I, te_real = heightMapSize, te_map = None, te_n = sint heightMapSize, te_id = ins, te_ready = False\<rparr>"

definition te_GetHeight :: "'f memory \<Rightarrow> int \<Rightarrow> int \<Rightarrow> 'f terrain \<Rightarrow> 'f option" where
  "te_GetHeight mem x y t = do {
     b \<leftarrow> te_map t;
     m \<leftarrow> mem b;
     p \<leftarrow> GetHeightMapIndex (te_n t) (clamp x 0 (te_n t - 1)) (clamp y 0 (te_n t - 1));
     map_read m p
   }"

fun te_at :: "neighbor \<Rightarrow> 'f terrain \<Rightarrow> nat option" where
  "te_at NeighborLeft t = te_left t"
| "te_at NeighborBottom t = te_bottom t"
| "te_at NeighborRight t = te_right t"
| "te_at NeighborTop t = te_top t"
| "te_at NeighborAll t = None"

definition te_GetNeighbor :: "(nat \<Rightarrow> 'f terrain) \<Rightarrow> neighbor \<Rightarrow> 'f terrain \<Rightarrow> u32" where
  "te_GetNeighbor H dir t = (case te_at dir t of None \<Rightarrow> 0 | Some r \<Rightarrow> te_id (H r))"

definition te_Init :: "buffer option \<Rightarrow> int \<Rightarrow> 'f terrain \<Rightarrow> 'f terrain" where
  "te_Init heightMap heightMapSize t =
     (if heightMap = None then t
      else (let t = t\<lparr>te_ready := True, te_map := heightMap, te_n := heightMapSize\<rparr> in
        if te_real t = 0 then t\<lparr>te_real := word_of_int (te_n t)\<rparr> else t))"

text \<open>The neighbour is refused when it already has another terrain on the facing side.\<close>

fun te_put :: "neighbor \<Rightarrow> nat option \<Rightarrow> 'f terrain \<Rightarrow> 'f terrain" where
  "te_put NeighborLeft r t = t\<lparr>te_left := r\<rparr>"
| "te_put NeighborBottom r t = t\<lparr>te_bottom := r\<rparr>"
| "te_put NeighborRight r t = t\<lparr>te_right := r\<rparr>"
| "te_put NeighborTop r t = t\<lparr>te_top := r\<rparr>"
| "te_put NeighborAll r t = t"

fun facing :: "neighbor \<Rightarrow> neighbor" where
  "facing NeighborLeft = NeighborRight"
| "facing NeighborBottom = NeighborTop"
| "facing NeighborRight = NeighborLeft"
| "facing NeighborTop = NeighborBottom"
| "facing NeighborAll = NeighborAll"

definition te_InitNeighbor :: "neighbor \<Rightarrow> nat \<Rightarrow> nat option \<Rightarrow> (nat \<Rightarrow> 'f terrain) \<Rightarrow> nat \<Rightarrow> 'f terrain" where
  "te_InitNeighbor dir self r H =
     (let H = H(self := te_put dir r (H self)) in
      case r of
        None \<Rightarrow> H
      | Some q \<Rightarrow> (case te_at (facing dir) (H q) of
          None \<Rightarrow> H
        | Some b \<Rightarrow> if b \<noteq> self then H(self := te_put dir None (H self)) else H))"

text \<open>The inner option is the answer: \<open>None\<close> when there is no such neighbour.\<close>

definition te_GetNeighborHeight :: "'f memory \<Rightarrow> (nat \<Rightarrow> 'f terrain) \<Rightarrow> int \<Rightarrow> int \<Rightarrow> neighbor \<Rightarrow> 'f terrain \<Rightarrow> 'f option option" where
  "te_GetNeighborHeight mem H x y dir t =
     (case te_at dir t of None \<Rightarrow> Some None | Some r \<Rightarrow> map_option Some (te_GetHeight mem x y (H r)))"

section \<open>The map generator\<close>

record map_data =
  md_seed :: int
  md_H :: int
  md_I :: int
  md_worldMapSize :: u32
  md_singleMapSize :: u32
  md_splatWidth :: u32
  md_splatCount :: u32
  md_height0 :: int
  md_height1 :: int
  md_height2 :: int
  md_height3 :: int
  md_flags :: int

record 'f map_gen = gen_state +
  mg_terrains :: "(u32 \<times> nat) list"
  mg_heap :: "nat \<Rightarrow> 'f terrain"
  mg_fresh :: nat
  mg_queue :: "u32 locked_queue"
  mg_world :: "nat option"
  mg_current :: "nat option"
  mg_diamond :: "'f diamond"
  mg_painter :: "'f painter"
  mg_mem :: "'f memory"
  mg_splat :: "'f option list"
  mg_hcopy :: "'f option list"
  mg_scopy :: "'f option list"
  mg_cb :: bool
  mg_cur :: u32
  mg_data :: map_data
  mg_run :: bool
  mg_exited :: bool
  mg_total :: u32

definition no_data :: map_data where
  "no_data = \<lparr>md_seed = 0, md_H = 0, md_I = 0, md_worldMapSize = 0, md_singleMapSize = 0, md_splatWidth = 0, md_splatCount = 0,
     md_height0 = 0, md_height1 = 0, md_height2 = 0, md_height3 = 0, md_flags = 0\<rparr>"

definition mg_new :: "'f fl \<Rightarrow> 'f memory \<Rightarrow> gen_state \<Rightarrow> 'f map_gen" where
  "mg_new F mem g = \<lparr>gs_seed = gs_seed g, gs_pos = gs_pos g, gs_polls = gs_polls g, mg_terrains = [], mg_heap = \<lambda>_. te_new F 0 0 0, mg_fresh = 0,
     mg_queue = lq_new, mg_world = None, mg_current = None, mg_diamond = ds_new F g, mg_painter = ap_new F g, mg_mem = mem, mg_splat = [],
     mg_hcopy = [], mg_scopy = [], mg_cb = False, mg_cur = 0, mg_data = no_data, mg_run = False, mg_exited = True, mg_total = 0\<rparr>"

text \<open>The random numbers of the process, and the count of the looks at the flag, are handed from one part to the next.\<close>

definition gen_from :: "'y gen_state_scheme \<Rightarrow> 'z gen_state_scheme \<Rightarrow> 'z gen_state_scheme" where
  "gen_from s t = t\<lparr>gs_seed := gs_seed s, gs_pos := gs_pos s, gs_polls := gs_polls s\<rparr>"

lemma gen_from_state [simp]: "gs_seed (gen_from d s) = gs_seed d" "gs_pos (gen_from d s) = gs_pos d" "gs_polls (gen_from d s) = gs_polls d"
  by (simp_all add: gen_from_def)

lemma gen_from_painter [simp]:
  "sp_brush (gen_from d s) = sp_brush s" "sp_map (gen_from d s) = sp_map s" "sp_count (gen_from d s) = sp_count s" "sp_n (gen_from d s) = sp_n s"
  "ap_n (gen_from d s) = ap_n s" "ap_max (gen_from d s) = ap_max s"
  by (cases s, simp add: gen_from_def)+

lemma gen_from_map_gen [simp]:
  "mg_terrains (gen_from d s) = mg_terrains s" "mg_heap (gen_from d s) = mg_heap s" "mg_fresh (gen_from d s) = mg_fresh s"
  "mg_queue (gen_from d s) = mg_queue s" "mg_world (gen_from d s) = mg_world s" "mg_current (gen_from d s) = mg_current s"
  "mg_diamond (gen_from d s) = mg_diamond s" "mg_painter (gen_from d s) = mg_painter s" "mg_mem (gen_from d s) = mg_mem s"
  "mg_splat (gen_from d s) = mg_splat s" "mg_hcopy (gen_from d s) = mg_hcopy s" "mg_scopy (gen_from d s) = mg_scopy s"
  "mg_cb (gen_from d s) = mg_cb s" "mg_cur (gen_from d s) = mg_cur s" "mg_data (gen_from d s) = mg_data s" "mg_run (gen_from d s) = mg_run s"
  "mg_exited (gen_from d s) = mg_exited s" "mg_total (gen_from d s) = mg_total s"
  by (cases s, simp add: gen_from_def)+

lemma map_gen_state [simp]:
  "gs_seed (s\<lparr>mg_diamond := b\<rparr>) = gs_seed s" "gs_pos (s\<lparr>mg_diamond := b\<rparr>) = gs_pos s" "gs_polls (s\<lparr>mg_diamond := b\<rparr>) = gs_polls s"
  "gs_seed (s\<lparr>mg_painter := c\<rparr>) = gs_seed s" "gs_pos (s\<lparr>mg_painter := c\<rparr>) = gs_pos s" "gs_polls (s\<lparr>mg_painter := c\<rparr>) = gs_polls s"
  "mg_diamond (s\<lparr>gs_seed := a\<rparr>) = mg_diamond s" "mg_diamond (s\<lparr>gs_pos := k\<rparr>) = mg_diamond s" "mg_diamond (s\<lparr>gs_polls := k\<rparr>) = mg_diamond s"
  "mg_painter (s\<lparr>gs_seed := a\<rparr>) = mg_painter s" "mg_painter (s\<lparr>gs_pos := k\<rparr>) = mg_painter s" "mg_painter (s\<lparr>gs_polls := k\<rparr>) = mg_painter s"
  by (cases s, simp)+

lemma gen_from_other [simp]: "gen_from (s\<lparr>mg_data := a\<rparr>) t = gen_from s t" "gen_from (s\<lparr>mg_diamond := b\<rparr>) t = gen_from s t"
  "gen_from (s\<lparr>mg_painter := c\<rparr>) t = gen_from s t" "gen_from (s\<lparr>mg_mem := e\<rparr>) t = gen_from s t" "gen_from (s\<lparr>mg_world := w\<rparr>) t = gen_from s t"
  by (simp_all add: gen_from_def)

text \<open>\<^verbatim>\<open>std::make_shared\<close> of a terrain.\<close>

definition mg_alloc :: "'f terrain \<Rightarrow> 'f map_gen \<Rightarrow> nat \<times> 'f map_gen" where
  "mg_alloc t s = (mg_fresh s, s\<lparr>mg_heap := (mg_heap s)(mg_fresh s := t), mg_fresh := mg_fresh s + 1\<rparr>)"

definition mg_update :: "nat \<Rightarrow> ('f terrain \<Rightarrow> 'f terrain) \<Rightarrow> 'f map_gen \<Rightarrow> 'f map_gen" where
  "mg_update r f s = s\<lparr>mg_heap := (mg_heap s)(r := f (mg_heap s r))\<rparr>"

definition udiv :: "u32 \<Rightarrow> u32 \<Rightarrow> u32 option" where
  "udiv a b = (if b = 0 then None else Some (a div b))"

definition umod :: "u32 \<Rightarrow> u32 \<Rightarrow> u32 option" where
  "umod a b = (if b = 0 then None else Some (a mod b))"

text \<open>Memory is not exhausted; a splat map of \<open>2 ^ 31\<close> cells in a row is refused.\<close>

definition new_floats :: "u32 \<Rightarrow> 'f option list" where
  "new_floats n = replicate (unat n) None"

definition mg_Init :: "'f gen_env \<Rightarrow> map_data \<Rightarrow> 'f map_gen \<Rightarrow> 'f map_gen option" where
  "mg_Init env data s = do {
     let F = ge_fl env;
     let s = s\<lparr>mg_data := data\<rparr>;
     d \<leftarrow> ds_Initilize env 0 0 (md_I data) (fl_int F 0) [] (gen_from s (mg_diamond s));
     let s = (gen_from d s)\<lparr>mg_diamond := d\<rparr>;
     let worldMapSize = word_of_int (ds_n d);
     q \<leftarrow> udiv worldMapSize (md_singleMapSize data - 1);
     let singleSize = sint q;
     total \<leftarrow> fits 32 (singleSize * singleSize);
     let s = s\<lparr>mg_total := word_of_int total\<rparr>;
     let heights = new_floats (worldMapSize * worldMapSize);
     splat \<leftarrow> fl_trunc F (fl_div F (fl_int F (uint (worldMapSize * md_splatWidth data))) (fl_int F (uint (md_singleMapSize data))));
     splatSize \<leftarrow> (if splat < 0 then None else Some (word_of_int splat :: u32));
     let splats = new_floats (splatSize * splatSize * md_splatCount data);
     let s = s\<lparr>mg_mem := (mg_mem s)(World_Heights \<mapsto> heights), mg_splat := splats, mg_hcopy := new_floats (md_singleMapSize data * md_singleMapSize data),
       mg_scopy := new_floats (md_splatWidth data * md_splatWidth data * md_splatCount data)\<rparr>;
     p \<leftarrow> ap_Init F (Some heights) (sint worldMapSize) (Some splats) (sint splatSize) (sint (md_splatCount data)) (mg_painter s);
     Some (s\<lparr>mg_painter := p\<rparr>)
   }"

definition mg_StartRun :: "'f map_gen \<Rightarrow> 'f map_gen" where
  "mg_StartRun s = s\<lparr>mg_run := True\<rparr>"

definition mg_Stop :: "'f map_gen \<Rightarrow> 'f map_gen" where
  "mg_Stop s = s\<lparr>mg_run := False\<rparr>"

definition mg_SetCallBack :: "bool \<Rightarrow> 'f map_gen \<Rightarrow> 'f map_gen" where
  "mg_SetCallBack cb s = s\<lparr>mg_cb := cb\<rparr>"

section \<open>The world map\<close>

text \<open>
  The results say whether the work was done to its end.  The flag is only cleared while a worker runs, so once it was seen
  cleared, every later look finds it cleared.
\<close>

definition mg_DrawSplatMap :: "'f gen_env \<Rightarrow> 'f map_gen \<Rightarrow> (bool \<times> 'f map_gen) option" where
  "mg_DrawSplatMap env s = do {
     heights \<leftarrow> mg_mem s World_Heights;
     (go, p) \<leftarrow> DrawSplatMap env heights (gen_from s ((mg_painter s)\<lparr>sp_map := mg_splat s\<rparr>));
     Some (go, (gen_from p s)\<lparr>mg_painter := p, mg_splat := sp_map p\<rparr>)
   }"

definition AutoGenSplatMap :: "'f gen_env \<Rightarrow> 'f map_gen \<Rightarrow> (bool \<times> 'f map_gen) option" where
  "AutoGenSplatMap env s = (let (stop, s) = IsStopped env s in if stop then Some (False, s) else mg_DrawSplatMap env s)"

text \<open>The generator fills the map that the terrain of the world map refers to.\<close>

definition gen_heights :: "'f gen_env \<Rightarrow> 'f map_gen \<Rightarrow> (bool \<times> 'f map_gen) option" where
  "gen_heights env s = do {
     let F = ge_fl env;
     let corner = map (fl_int F) [md_height0 (mg_data s), md_height1 (mg_data s), md_height2 (mg_data s), md_height3 (mg_data s)];
     (go, len, d) \<leftarrow> ds_Start env (Some corner) 4 0 (gen_from s (mg_diamond s));
     Some (go, (gen_from d s)\<lparr>mg_diamond := d, mg_mem := (mg_mem s)(World_Heights \<mapsto> ds_map d)\<rparr>)
   }"

text \<open>The terrain of the world map refers to the map before it is filled.\<close>

definition begin_world :: "'f gen_env \<Rightarrow> 'f map_gen \<Rightarrow> (nat \<times> 'f map_gen) option" where
  "begin_world env s = do {
     let F = ge_fl env;
     let s = setRandomSeed (md_seed (mg_data s)) s;
     let I = md_I (mg_data s);
     let (r, s) = std_rand env s;
     heights \<leftarrow> mg_mem s World_Heights;
     d \<leftarrow> ds_Initilize env 0xFFFFFFFF r I (fl_int F (md_H (mg_data s))) heights (gen_from s (mg_diamond s));
     let (w, s) = mg_alloc (te_Init (Some World_Heights) (ds_n d) (te_new F 0xFFFFFFFF (word_of_int I) (word_of_int (ds_n d))))
       ((gen_from d s)\<lparr>mg_diamond := d\<rparr>);
     Some (w, s\<lparr>mg_world := Some w\<rparr>)
   }"

definition GenWorldMap :: "'f gen_env \<Rightarrow> 'f map_gen \<Rightarrow> (bool \<times> 'f map_gen) option" where
  "GenWorldMap env s = do {
     (w, s) \<leftarrow> begin_world env s;
     if te_I (mg_heap s w) > 1 then do {
       (go, s) \<leftarrow> gen_heights env s;
       let (stop, s) = IsStopped env s;
       if \<not> go \<or> stop then Some (False, s) else AutoGenSplatMap env s
     }
     else AutoGenSplatMap env s
   }"

section \<open>Tiles\<close>

text \<open>
  The first part of \<open>Generate\<close>, without the mutex: the new tile becomes the current one.  The result is the place of the
  tile in the world.
\<close>

definition tile_begin :: "'f gen_env \<Rightarrow> u32 \<Rightarrow> 'f map_gen \<Rightarrow> ((u32 \<times> u32) \<times> 'f map_gen) option" where
  "tile_begin env terr s = do {
     let F = ge_fl env;
     let single = md_singleMapSize (mg_data s);
     let (c, s) = mg_alloc (te_new F terr 1 single) (s\<lparr>mg_cur := terr\<rparr>);
     let s = s\<lparr>mg_current := Some c\<rparr>;
     w \<leftarrow> mg_world s;
     let n = word_of_int (te_n (mg_heap s w));
     perEdge \<leftarrow> udiv n (single - 1);
     x \<leftarrow> umod (terr - 1) perEdge;
     y \<leftarrow> udiv (terr - 1) perEdge;
     let pos = (fl_int F (uint (x * te_real (mg_heap s c))), fl_int F 0, fl_int F (uint (y * te_real (mg_heap s c))));
     Some ((x, y), mg_update c (\<lambda>t. t\<lparr>te_pos := pos\<rparr>) s)
   }"

text \<open>A counting loop with an inclusive upper bound does not end when the bound is the largest number.\<close>

definition up_to :: "u32 \<Rightarrow> u32 \<Rightarrow> int list option" where
  "up_to a b = (if b = 0xFFFFFFFF then None else Some (count_up (uint a) (uint b + 1) 1))"

fun copy_splats :: "'f option list \<Rightarrow> u32 list \<Rightarrow> u32 \<Rightarrow> 'f option list \<Rightarrow> (u32 \<times> 'f option list) option" where
  "copy_splats splats [] idx scopy = Some (idx, scopy)"
| "copy_splats splats (i # js) idx scopy = do {
     v \<leftarrow> map_read splats (uint i);
     scopy \<leftarrow> map_write scopy (uint idx) v;
     copy_splats splats js (idx + 1) scopy
   }"

definition splat_index :: "map_data \<Rightarrow> u32 \<Rightarrow> u32 \<Rightarrow> u32 \<Rightarrow> u32" where
  "splat_index data wx wy a = (wx * md_splatWidth data + wy) * md_splatCount data + a"

fun copy_cells :: "'f option list \<Rightarrow> 'f option list \<Rightarrow> map_data \<Rightarrow> u32 \<Rightarrow> (int \<times> int) list \<Rightarrow> u32 \<Rightarrow> u32 \<Rightarrow> 'f option list \<Rightarrow> 'f option list \<Rightarrow>
    ('f option list \<times> 'f option list) option" where
  "copy_cells heights splats data n [] idx sidx hcopy scopy = Some (hcopy, scopy)"
| "copy_cells heights splats data n (c # cs) idx sidx hcopy scopy = do {
     let wx = word_of_int (snd c);
     let wy = word_of_int (fst c);
     v \<leftarrow> map_read heights (uint (wx + wy * n :: u32));
     hcopy \<leftarrow> map_write hcopy (uint idx) v;
     (sidx, scopy) \<leftarrow> copy_splats splats (map (\<lambda>a. splat_index data wx wy (word_of_int a)) (count_up 0 (uint (md_splatCount data)) 1)) sidx scopy;
     copy_cells heights splats data n cs (idx + 1) sidx hcopy scopy
   }"

text \<open>The insertion keeps an entry that is already there.\<close>

definition insert_terrain :: "u32 \<Rightarrow> nat \<Rightarrow> (u32 \<times> nat) list \<Rightarrow> (u32 \<times> nat) list" where
  "insert_terrain k r m = (if k \<in> set (map fst m) then m else m @ [(k, r)])"

text \<open>The second part, under the mutex.\<close>

definition tile_copy :: "u32 \<Rightarrow> u32 \<times> u32 \<Rightarrow> 'f map_gen \<Rightarrow> 'f map_gen option" where
  "tile_copy terr xy s = do {
     let single_max = md_singleMapSize (mg_data s) - 1;
     w \<leftarrow> mg_world s;
     c \<leftarrow> mg_current s;
     heights \<leftarrow> mg_mem s World_Heights;
     ys \<leftarrow> up_to (snd xy * single_max) ((snd xy + 1) * single_max);
     xs \<leftarrow> up_to (fst xy * single_max) ((fst xy + 1) * single_max);
     (hcopy, scopy) \<leftarrow> copy_cells heights (mg_splat s) (mg_data s) (word_of_int (te_n (mg_heap s w)))
       (concat (map (\<lambda>wy. map (Pair wy) xs) ys)) 0 0 (mg_hcopy s) (mg_scopy s);
     q \<leftarrow> lq_add terr (mg_queue s);
     Some (s\<lparr>mg_hcopy := hcopy, mg_scopy := scopy, mg_terrains := insert_terrain terr c (mg_terrains s), mg_queue := q\<rparr>)
   }"

text \<open>Both parts; the flag is looked at between them.\<close>

definition Generate :: "'f gen_env \<Rightarrow> u32 \<Rightarrow> 'f map_gen \<Rightarrow> 'f map_gen option" where
  "Generate env terr s = do { (xy, s) \<leftarrow> tile_begin env terr s; if mg_run s then tile_copy terr xy s else Some s }"

definition InitilizeNext :: "'f map_gen \<Rightarrow> u32" where
  "InitilizeNext s = of_nat (length (mg_terrains s)) + 1"

definition mg_GetTerrain :: "u32 \<Rightarrow> 'f map_gen \<Rightarrow> nat option" where
  "mg_GetTerrain terr s = map_of (mg_terrains s) terr"

section \<open>What the game asks for\<close>

definition memcpy :: "buffer \<Rightarrow> 'f option list \<Rightarrow> u32 \<Rightarrow> 'f memory \<Rightarrow> 'f memory option" where
  "memcpy dst src n mem = do {
     m \<leftarrow> mem dst;
     if unat n \<le> length src \<and> unat n \<le> length m then Some (mem(dst \<mapsto> take (unat n) src @ drop (unat n) m)) else None
   }"

text \<open>The log line at the head of \<open>InitTerrainInMainThread\<close> reads the number of the current tile.\<close>

definition mg_InitTerrain :: "u32 \<Rightarrow> buffer option \<Rightarrow> u32 \<Rightarrow> buffer option \<Rightarrow> u32 \<Rightarrow> u32 \<Rightarrow> 'f map_gen \<Rightarrow> 'f map_gen option" where
  "mg_InitTerrain terrain heightMap heightMapSize splatMap splatWidth splatCount s =
     (case heightMap of
        None \<Rightarrow> Some s
      | Some hm \<Rightarrow>
     (case splatMap of
        None \<Rightarrow> Some s
      | Some sm \<Rightarrow>
        if heightMapSize \<noteq> md_singleMapSize (mg_data s) then Some s
        else if splatWidth \<noteq> md_splatWidth (mg_data s) then Some s
        else if splatCount \<noteq> md_splatCount (mg_data s) then Some s
        else do {
          c \<leftarrow> mg_current s;
          case mg_GetTerrain terrain s of
            None \<Rightarrow> Some s
          | Some r \<Rightarrow>
              if te_id (mg_heap s r) \<noteq> terrain then Some s
              else do {
                let s = mg_update r (te_Init heightMap (sint heightMapSize)) s;
                mem \<leftarrow> memcpy hm (mg_hcopy s) (md_singleMapSize (mg_data s) * md_singleMapSize (mg_data s)) (mg_mem s);
                mem \<leftarrow> memcpy sm (mg_scopy s) (md_splatWidth (mg_data s) * md_splatWidth (mg_data s) * md_splatCount (mg_data s)) mem;
                Some (s\<lparr>mg_mem := mem\<rparr>)
              }
        }))"

section \<open>Neighbours\<close>

definition GetNeighborID :: "neighbor \<Rightarrow> u32 \<Rightarrow> 'f map_gen \<Rightarrow> u32 option" where
  "GetNeighborID dir who s =
     (if who = 0 then Some 0
      else do {
        let size = md_worldMapSize (mg_data s);
        x \<leftarrow> umod (who - 1) size;
        y \<leftarrow> udiv (who - 1) size;
        Some (case dir of
          NeighborLeft \<Rightarrow> let idx = x - 1 + y * size + 1 in if sint idx > 0 then idx else 0
        | NeighborBottom \<Rightarrow> let idx = x + (y - 1) * size + 1 in if sint idx > 0 then idx else 0
        | NeighborRight \<Rightarrow> let idx = x + 1 + y * size + 1 in if idx \<le> mg_total s then idx else 0
        | NeighborTop \<Rightarrow> let idx = x + (y + 1) * size + 1 in if idx \<le> mg_total s then idx else 0
        | NeighborAll \<Rightarrow> 0)
      })"

definition GetHeightOnNeighbor :: "int \<Rightarrow> int \<Rightarrow> neighbor \<Rightarrow> u32 \<Rightarrow> 'f map_gen \<Rightarrow> 'f option option" where
  "GetHeightOnNeighbor x y dir owner s =
     (case mg_current s of
        None \<Rightarrow> Some None
      | Some c \<Rightarrow>
          if te_id (mg_heap s c) \<noteq> owner then Some None
          else te_GetNeighborHeight (mg_mem s) (mg_heap s) x y dir (mg_heap s c))"

text \<open>One edge: the heights of the facing edge of the neighbour, which must be the one that is meant.\<close>

fun pulse_edge :: "'f memory \<Rightarrow> 'f terrain \<Rightarrow> neighbor \<Rightarrow> int \<Rightarrow> int list \<Rightarrow> 'f diamond \<Rightarrow> 'f diamond option" where
  "pulse_edge mem nb dir nMax [] d = Some d"
| "pulse_edge mem nb dir nMax (i # js) d = do {
     h \<leftarrow> (case dir of
         NeighborLeft \<Rightarrow> te_GetHeight mem nMax i nb
       | NeighborRight \<Rightarrow> te_GetHeight mem 0 i nb
       | NeighborBottom \<Rightarrow> te_GetHeight mem i nMax nb
       | _ \<Rightarrow> te_GetHeight mem i 0 nb);
     d \<leftarrow> (case dir of
         NeighborLeft \<Rightarrow> ds_SetPulse 0 i h d
       | NeighborRight \<Rightarrow> ds_SetPulse nMax i h d
       | NeighborBottom \<Rightarrow> ds_SetPulse i 0 h d
       | _ \<Rightarrow> ds_SetPulse i nMax h d);
     pulse_edge mem nb dir nMax js d
   }"

definition InitHeightMapBaseOnNeighbor :: "neighbor \<Rightarrow> nat option \<Rightarrow> 'f map_gen \<Rightarrow> 'f map_gen option" where
  "InitHeightMapBaseOnNeighbor position nb s =
     (if position = NeighborAll then Some s
      else do {
        let nMax = sint (md_singleMapSize (mg_data s)) - 1;
        c \<leftarrow> mg_current s;
        if te_at position (mg_heap s c) \<noteq> nb then Some s
        else if nMax < 0 then Some s
        else do {
          r \<leftarrow> nb;
          d \<leftarrow> pulse_edge (mg_mem s) (mg_heap s r) position nMax (count_up 0 (nMax + 1) 1) (mg_diamond s);
          Some (s\<lparr>mg_diamond := d\<rparr>)
        }
      })"

end
