(* ===== verification/Map_World.thy ===== *)
theory Map_World
  imports Map_Generator Diamond_Properties Splat_Properties
begin

text \<open>
  The initialisation of the map generator and the world map: the sizes of the arrays, and that a world map which was not
  stopped is complete, heights and splats.
\<close>

section \<open>Settings\<close>

definition world_max :: "map_data \<Rightarrow> int" where
  "world_max data = 2 ^ nat (2 * md_I data)"

definition tile_max :: "map_data \<Rightarrow> int" where
  "tile_max data = uint (md_singleMapSize data) - 1"

definition tiles_per_edge :: "map_data \<Rightarrow> int" where
  "tiles_per_edge data = world_max data div tile_max data"

text \<open>
  A setting like that of the game (\<open>I = 5\<close>, tiles of 65 cells, two splats): tiles divide the world, share their edges, and the
  splat maps are as fine as the height maps.
\<close>

definition map_config_ok :: "map_data \<Rightarrow> bool" where
  "map_config_ok data \<longleftrightarrow> 2 \<le> md_I data \<and> md_I data \<le> 7 \<and> 2 \<le> tile_max data \<and> tile_max data dvd world_max data \<and>
     md_splatWidth data = md_singleMapSize data \<and> 0 < uint (md_splatCount data) \<and>
     (world_max data + 1) * (world_max data + 1) * uint (md_splatCount data) < 2 ^ 31"

text \<open>What is asked of the numbers; all of it is about the arithmetic.\<close>

definition numbers_ok :: "'f gen_env \<Rightarrow> map_data \<Rightarrow> bool" where
  "numbers_ok env data \<longleftrightarrow> (let F = ge_fl env; M = world_max data; S = uint (md_singleMapSize data) in
     levels_ok env (nat (2 * md_I data)) (fl_div F (fl_int F (md_H data)) (fl_lit F 100 0))
       (fl_mul F (fl_div F (fl_int F 1) (fl_log2 F (fl_int F M))) (fl_lit F 100 0)) (fl_int F 0) \<and>
     fl_less F (fl_div F (fl_int F 0) (fl_int F (M + 1))) (fl_lit F 1 3) \<and> \<not> fl_less F (fl_int F 0) (fl_lit F (- 1) 2) \<and>
     fl_trunc F (fl_div F (fl_int F ((M + 1) * S)) (fl_int F S)) = Some (M + 1) \<and> splat_numbers env (M + 1) (M + 1))"

lemma rough_arith: "ge_fl env' = ge_fl env \<Longrightarrow> rough env' H = rough env H"
  by (simp add: rough_def drawable_def)

lemma levels_ok_arith:
  assumes "ge_fl env' = ge_fl env" shows "levels_ok env' k H speed process = levels_ok env k H speed process"
proof (induction k arbitrary: H process)
  case (Suc k)
  show ?case unfolding levels_ok.simps Suc.IH rough_arith [OF assms] assms by (rule refl)
qed simp

lemma splat_numbers_arith: "ge_fl env' = ge_fl env \<Longrightarrow> splat_numbers env' n N = splat_numbers env n N"
  by (simp add: splat_numbers_def drawable_def)

lemma numbers_arith:
  assumes "ge_fl env' = ge_fl env" shows "numbers_ok env' data = numbers_ok env data"
  unfolding numbers_ok_def Let_def levels_ok_arith [OF assms] splat_numbers_arith [OF assms] assms by (rule refl)

lemma config_facts:
  assumes "map_config_ok data"
  shows "world_max data = tiles_per_edge data * tile_max data" "4 \<le> world_max data" "world_max data \<le> 2 ^ 14"
    "1 \<le> tiles_per_edge data" "tiles_per_edge data \<le> 2 ^ 13" "tile_max data \<le> world_max data"
    "(world_max data + 1) div tile_max data = tiles_per_edge data"
proof -
  have I: "2 \<le> md_I data" "md_I data \<le> 7" and t: "2 \<le> tile_max data" "tile_max data dvd world_max data" using assms by (simp_all add: map_config_ok_def)
  have "(2 :: int) ^ 4 \<le> world_max data" unfolding world_max_def by (rule power_increasing) (use I in simp_all)
  then show M4: "4 \<le> world_max data" by simp
  show M14: "world_max data \<le> 2 ^ 14" unfolding world_max_def by (rule power_increasing) (use I in simp_all)
  show e: "world_max data = tiles_per_edge data * tile_max data" using t(2) by (simp add: tiles_per_edge_def)
  have "0 < tiles_per_edge data * tile_max data" using M4 unfolding e by linarith
  then show p: "1 \<le> tiles_per_edge data" using t(1) by (simp add: zero_less_mult_iff)
  have "tiles_per_edge data * 2 \<le> tiles_per_edge data * tile_max data" using t(1) p by (intro mult_left_mono) simp_all
  then show "tiles_per_edge data \<le> 2 ^ 13" using M14 unfolding e by simp
  have "1 * tile_max data \<le> tiles_per_edge data * tile_max data" using t(1) p by (intro mult_right_mono) simp_all
  then show "tile_max data \<le> world_max data" unfolding e by simp
  have "(tiles_per_edge data * tile_max data + 1) div tile_max data = tiles_per_edge data"
    using t(1) by (simp add: div_mult_self3 div_pos_pos_trivial)
  then show "(world_max data + 1) div tile_max data = tiles_per_edge data" using e by simp
qed

section \<open>Initialisation\<close>

lemma uint_small: "0 \<le> n \<Longrightarrow> n < 2 ^ 32 \<Longrightarrow> uint (word_of_int n :: u32) = n"
  by (simp add: uint_word_of_int take_bit_int_eq_self)

lemma sint_uint_small:
  assumes "uint (v :: u32) < 2 ^ 31" shows "sint v = uint v"
proof -
  obtain k where k: "unat v = k" "uint v = int k" by (metis uint_nat)
  then show ?thesis using assms unfolding sint32_cases k by simp
qed

lemma sint_small:
  assumes "0 \<le> n" "n < 2 ^ 31" shows "sint (word_of_int n :: u32) = n"
  using sint_uint_small [of "word_of_int n"] uint_small [of n] assms by simp

lemma mult_small:
  assumes "uint a * uint b < 2 ^ 32" shows "uint (a * b :: u32) = uint a * uint b"
  using assms uint_mult_lem [of a b] by simp

text \<open>The sizes after the initialisation.\<close>

definition sized :: "map_data \<Rightarrow> 'f map_gen \<Rightarrow> bool" where
  "sized data s \<longleftrightarrow> mg_data s = data \<and> uint (mg_total s) = tiles_per_edge data * tiles_per_edge data \<and>
     (\<exists>m. mg_mem s World_Heights = Some m \<and> int (length m) = (world_max data + 1) * (world_max data + 1)) \<and>
     int (length (mg_splat s)) = (world_max data + 1) * (world_max data + 1) * uint (md_splatCount data) \<and>
     int (length (mg_hcopy s)) = (tile_max data + 1) * (tile_max data + 1) \<and>
     int (length (mg_scopy s)) = (tile_max data + 1) * (tile_max data + 1) * uint (md_splatCount data) \<and>
     splat_ok (world_max data + 1) (uint (md_splatCount data)) (world_max data + 1) ((mg_painter s)\<lparr>sp_map := mg_splat s\<rparr>)"


lemma length_new_floats: "int (length (new_floats n)) = uint n"
  by (simp add: new_floats_def)

text \<open>The sizes, as the code computes them.\<close>

lemma size_words:
  assumes c: "map_config_ok data"
  defines "W \<equiv> word_of_int (world_max data + 1) :: u32" and "S \<equiv> md_singleMapSize data"
  shows "uint W = world_max data + 1" "sint W = world_max data + 1" "uint S = tile_max data + 1" "uint (S - 1) = tile_max data"
    "udiv W (S - 1) = Some (W div (S - 1))" "uint (W div (S - 1)) = tiles_per_edge data" "sint (W div (S - 1)) = tiles_per_edge data"
proof -
  note f = config_facts [OF c]
  have t: "2 \<le> tile_max data" using c by (simp add: map_config_ok_def)
  show W: "uint W = world_max data + 1" unfolding W_def by (rule uint_small) (use f(2,3) in simp_all)
  show "sint W = world_max data + 1" unfolding W_def by (rule sint_small) (use f(2,3) in simp_all)
  show S: "uint S = tile_max data + 1" by (simp add: tile_max_def S_def)
  have "1 \<le> S" using S t by (simp add: word_le_def)
  then show S1: "uint (S - 1) = tile_max data" using S by (simp add: uint_minus_simple_alt)
  then have "S - 1 \<noteq> 0" using t by auto
  then show "udiv W (S - 1) = Some (W div (S - 1))" by (simp add: udiv_def)
  show p: "uint (W div (S - 1)) = tiles_per_edge data" unfolding uint_div W S1 by (rule f(7))
  have "uint (W div (S - 1)) < 2 ^ 31" using f(5) unfolding p by simp
  from sint_uint_small [OF this] show "sint (W div (S - 1)) = tiles_per_edge data" unfolding p .
qed

lemma area_words:
  assumes c: "map_config_ok data"
  defines "W \<equiv> word_of_int (world_max data + 1) :: u32" and "S \<equiv> md_singleMapSize data" and "C \<equiv> md_splatCount data"
  shows "uint (W * W) = (world_max data + 1) * (world_max data + 1)" "uint (W * W * C) = (world_max data + 1) * (world_max data + 1) * uint C"
    "uint (S * S) = (tile_max data + 1) * (tile_max data + 1)" "uint (S * S * C) = (tile_max data + 1) * (tile_max data + 1) * uint C"
    "uint (W * S) = (world_max data + 1) * (tile_max data + 1)" "uint C < 2 ^ 31"
    "(tile_max data + 1) * (tile_max data + 1) * uint C \<le> (world_max data + 1) * (world_max data + 1) * uint C"
proof -
  note f = config_facts [OF c] and w = size_words [OF c, folded W_def S_def]
  have C: "0 < uint C" "(world_max data + 1) * (world_max data + 1) * uint C < 2 ^ 31" using c by (simp_all add: map_config_ok_def C_def)
  have t: "0 \<le> tile_max data" "0 \<le> world_max data" using f(2) c by (simp_all add: map_config_ok_def)
  have grow: "a \<le> a * uint C" if "0 \<le> a" for a using mult_left_mono [of 1 "uint C" a] C(1) that by simp
  have WW: "(world_max data + 1) * (world_max data + 1) \<le> (world_max data + 1) * (world_max data + 1) * uint C" by (rule grow) (use t in simp)
  have SW: "(tile_max data + 1) * (tile_max data + 1) \<le> (world_max data + 1) * (world_max data + 1)"
    "(world_max data + 1) * (tile_max data + 1) \<le> (world_max data + 1) * (world_max data + 1)" using f(6) t by (intro mult_mono; simp)+
  show le: "(tile_max data + 1) * (tile_max data + 1) * uint C \<le> (world_max data + 1) * (world_max data + 1) * uint C"
    by (rule mult_right_mono [OF SW(1)]) (use C in simp)
  have lt: "(world_max data + 1) * (world_max data + 1) < 2 ^ 32" "(world_max data + 1) * (world_max data + 1) * uint C < 2 ^ 32" using WW C(2) by simp_all
  show a: "uint (W * W) = (world_max data + 1) * (world_max data + 1)" using mult_small [of W W] lt(1) unfolding w(1) by blast
  show "uint (W * W * C) = (world_max data + 1) * (world_max data + 1) * uint C" using mult_small [of "W * W" C] lt(2) unfolding a by blast
  show b: "uint (S * S) = (tile_max data + 1) * (tile_max data + 1)" using mult_small [of S S] SW(1) lt(1) unfolding w(3) by linarith
  show "uint (S * S * C) = (tile_max data + 1) * (tile_max data + 1) * uint C" using mult_small [of "S * S" C] le lt(2) unfolding b by linarith
  show "uint (W * S) = (world_max data + 1) * (tile_max data + 1)" using mult_small [of W S] SW(2) lt(1) unfolding w(1,3) by linarith
  have "1 * uint C \<le> (world_max data + 1) * (world_max data + 1) * uint C"
    by (rule mult_right_mono) (use mult_mono [of 1 "world_max data + 1" 1 "world_max data + 1"] t C in simp_all)
  then show "uint C < 2 ^ 31" using C(2) by simp
qed

lemma Init_ok:
  assumes c: "map_config_ok data" and num: "numbers_ok env data"
  shows "\<exists>s'. mg_Init env data s = Some s' \<and> sized data s' \<and> mg_terrains s' = mg_terrains s \<and> mg_queue s' = mg_queue s \<and> mg_run s' = mg_run s \<and>
    mg_cb s' = mg_cb s \<and> (\<forall>b. b \<noteq> World_Heights \<longrightarrow> mg_mem s' b = mg_mem s b)"
proof -
  let ?F = "ge_fl env" and ?M = "world_max data" and ?p = "tiles_per_edge data" and ?C = "md_splatCount data"
  let ?W = "word_of_int (world_max data + 1) :: u32" and ?S = "md_singleMapSize data"
  note f = config_facts [OF c] and w = size_words [OF c] and ar = area_words [OF c]
  have I: "1 \<le> md_I data" "md_I data \<le> 7" and sw: "md_splatWidth data = ?S"
    and cc: "0 < uint ?C" "(?M + 1) * (?M + 1) * uint ?C < 2 ^ 31" using c by (simp_all add: map_config_ok_def)
  obtain n where n: "square_size (md_I data) = Some n" "n = ?M + 1" "fits 32 (n * n) = Some (n * n)"
    using square_size_small [OF I] unfolding world_max_def by metis
  obtain d where d: "ds_Initilize env 0 0 (md_I data) (fl_int ?F 0) [] (gen_from s (mg_diamond s)) = Some d" "ds_n d = ?M + 1"
    using n by (simp add: ds_Initilize_def)
  have pp: "?p * ?p \<le> 2 ^ 13 * 2 ^ 13" using f(4,5) by (intro mult_mono) simp_all
  have p0: "0 \<le> ?p * ?p" using f(4) by simp
  have fp: "fits 32 (?p * ?p) = Some (?p * ?p)" unfolding fits_def using p0 pp order_trans [of "- (2 ^ 31)" 0 "?p * ?p"] by simp
  have up: "uint (word_of_int (?p * ?p) :: u32) = ?p * ?p" by (rule uint_small) (use pp p0 in simp_all)
  have splat: "fl_trunc ?F (fl_div ?F (fl_int ?F (uint (?W * ?S))) (fl_int ?F (uint ?S))) = Some (?M + 1)"
    using num unfolding ar(5) w(3) by (simp add: numbers_ok_def Let_def tile_max_def)
  have sC: "sint ?C = uint ?C" by (rule sint_uint_small [OF ar(6)])
  let ?h = "new_floats (?W * ?W)" and ?sp = "new_floats (?W * ?W * ?C)"
  have len: "int (length ?sp) = (?M + 1) * (?M + 1) * sint ?C" unfolding length_new_floats ar(2) sC by (rule refl)
  obtain p where p: "ap_Init ?F (Some ?h) (?M + 1) (Some ?sp) (?M + 1) (sint ?C) (mg_painter s) = Some p"
    "splat_ok (?M + 1) (uint ?C) (?M + 1) p" "sp_map p = ?sp"
    using ap_Init_ok [of "?M + 1" "uint ?C" ?sp ?F ?h "?M + 1" "mg_painter s"] f(2) cc len unfolding sC by auto
  let ?s = "(gen_from d (s\<lparr>mg_data := data\<rparr>))\<lparr>mg_diamond := d, mg_total := word_of_int (?p * ?p), mg_mem := (mg_mem s)(World_Heights \<mapsto> ?h), mg_splat := ?sp,
    mg_hcopy := new_floats (?S * ?S), mg_scopy := new_floats (?S * ?S * ?C), mg_painter := p\<rparr>"
  have "mg_Init env data s = Some ?s"
    using d p(1) fp splat w(2,5,7) f(2) unfolding mg_Init_def sw by (simp add: Let_def)
  moreover have "sized data ?s"
  proof -
    have "p\<lparr>sp_map := ?sp\<rparr> = p" using p(3) by (cases p) simp
    then show ?thesis using p(2) ar(1-4) up unfolding sized_def by (simp add: length_new_floats)
  qed
  ultimately show ?thesis by (intro exI [of _ ?s]) simp
qed

section \<open>The world map\<close>

text \<open>What the work on the world map leaves alone.\<close>

definition kept :: "'f map_gen \<Rightarrow> 'f map_gen \<Rightarrow> bool" where
  "kept s s' \<longleftrightarrow> mg_terrains s' = mg_terrains s \<and> mg_queue s' = mg_queue s \<and> mg_current s' = mg_current s \<and> mg_hcopy s' = mg_hcopy s \<and>
     mg_scopy s' = mg_scopy s \<and> mg_cb s' = mg_cb s \<and> mg_data s' = mg_data s \<and> mg_run s' = mg_run s \<and> mg_total s' = mg_total s \<and>
     mg_fresh s \<le> mg_fresh s' \<and> (\<forall>b. mg_mem s' (Client b) = mg_mem s (Client b))"

lemma kept_trans: "kept s s' \<Longrightarrow> kept s' s'' \<Longrightarrow> kept s s''"
  by (simp add: kept_def)

text \<open>The terrain of the world map, and a map without gaps.\<close>

definition world_terrain :: "map_data \<Rightarrow> 'f map_gen \<Rightarrow> bool" where
  "world_terrain data s \<longleftrightarrow> (\<exists>w. mg_world s = Some w \<and> w < mg_fresh s \<and> te_n (mg_heap s w) = world_max data + 1)"

definition heights_done :: "map_data \<Rightarrow> 'f map_gen \<Rightarrow> bool" where
  "heights_done data s \<longleftrightarrow> (\<exists>m. mg_mem s World_Heights = Some m \<and> heights_ok (world_max data + 1) m)"

lemma begin_world_ok:
  assumes c: "map_config_ok data" and s: "sized data s"
  shows "\<exists>w s'. begin_world env s = Some (w, s') \<and> kept s s' \<and> sized data s' \<and> world_terrain data s' \<and> te_I (mg_heap s' w) > 1 \<and>
    shaped (world_max data) (mg_diamond s') \<and> ds_owner (mg_diamond s') = 0xFFFFFFFF \<and>
    ds_H (mg_diamond s') = fl_div (ge_fl env) (fl_int (ge_fl env) (md_H data)) (fl_lit (ge_fl env) 100 0)"
proof -
  have I: "1 \<le> md_I data" "md_I data \<le> 7" "2 \<le> md_I data" using c by (simp_all add: map_config_ok_def)
  have d: "mg_data s = data" using s by (simp add: sized_def)
  obtain m where m: "mg_mem s World_Heights = Some m" "int (length m) = (world_max data + 1) * (world_max data + 1)" using s by (auto simp: sized_def)
  obtain r s1 where r: "std_rand env (setRandomSeed (md_seed data) s) = (r, s1)" by (meson surj_pair)
  then have k1: "kept s s1" "sized data s1" "mg_mem s1 = mg_mem s" "mg_data s1 = data" "mg_data (setRandomSeed (md_seed data) s) = data"
    using s by (auto simp: std_rand_def setRandomSeed_def kept_def sized_def)
  obtain d1 where d1: "ds_Initilize env 0xFFFFFFFF r (md_I data) (fl_int (ge_fl env) (md_H data)) m (gen_from s1 (mg_diamond s1)) = Some d1"
    "shaped (world_max data) d1" "ds_owner d1 = 0xFFFFFFFF" "ds_H d1 = fl_div (ge_fl env) (fl_int (ge_fl env) (md_H data)) (fl_lit (ge_fl env) 100 0)"
    using initialised [OF I(1,2) m(2) [unfolded world_max_def], where env = env and owner = "0xFFFFFFFF" and seed = r and H = "fl_int (ge_fl env) (md_H data)"
      and s = "gen_from s1 (mg_diamond s1)"] unfolding world_max_def by blast
  have n: "ds_n d1 = world_max data + 1" using d1(2) by (simp add: shaped_def)
  have "uint (word_of_int (md_I data) :: u32) = md_I data" by (rule uint_small) (use I in simp_all)
  then have big: "(word_of_int (md_I data) :: u32) > 1" using I(3) by (simp add: word_less_def)
  let ?t = "te_Init (Some World_Heights) (ds_n d1) (te_new (ge_fl env) 0xFFFFFFFF (word_of_int (md_I data)) (word_of_int (ds_n d1)))"
  let ?s2 = "snd (mg_alloc ?t ((gen_from d1 s1)\<lparr>mg_diamond := d1\<rparr>))\<lparr>mg_world := Some (mg_fresh s1)\<rparr>"
  have "begin_world env s = Some (mg_fresh s1, ?s2)"
    unfolding begin_world_def d using r d1(1) m(1) k1(3-5) by (simp add: mg_alloc_def Let_def)
  moreover have "te_n ?t = world_max data + 1" "te_I ?t = word_of_int (md_I data)" using n by (simp_all add: te_Init_def te_new_def Let_def)
  moreover have "kept s1 ?s2" "sized data ?s2" using k1(2) by (auto simp: kept_def sized_def mg_alloc_def)
  ultimately show ?thesis using kept_trans [OF k1(1)] d1 big
    by (intro exI [of _ "mg_fresh s1"] exI [of _ ?s2]) (simp add: mg_alloc_def world_terrain_def)
qed

lemma shaped_heights:
  assumes s: "shaped M d" and known: "\<forall>c \<in> inside M. cell d c \<noteq> None"
  shows "heights_ok (M + 1) (ds_map d)"
proof -
  have M: "0 < M" "M \<le> 2 ^ 14" "ds_n d = M + 1" "int (length (ds_map d)) = (M + 1) * (M + 1)" using s by (simp_all add: shaped_def)
  obtain q where q: "q = (M + 1) * (M + 1)" by simp
  have "q \<le> (2 ^ 14 + 1) * (2 ^ 14 + 1)" unfolding q using M by (intro mult_mono) simp_all
  then have "(M + 1) * (M + 1) < 2 ^ 31" unfolding q by simp
  moreover have "map_read (ds_map d) p \<noteq> None" if p: "0 \<le> p" "p < (M + 1) * (M + 1)" for p
  proof -
    have e: "p = (M + 1) * (p div (M + 1)) + p mod (M + 1)" "0 \<le> p mod (M + 1)" using M(1) by simp_all
    have "p div (M + 1) < M + 1"
    proof (rule ccontr)
      assume "\<not> p div (M + 1) < M + 1"
      then have "(M + 1) * (M + 1) \<le> (M + 1) * (p div (M + 1))" using M(1) by (intro mult_left_mono) simp_all
      then show False using e p(2) by linarith
    qed
    moreover have "0 \<le> p div (M + 1)" using p(1) M(1) by (simp add: pos_imp_zdiv_nonneg_iff)
    ultimately have "0 \<le> p div (M + 1)" "p div (M + 1) < M + 1" by simp_all
    then have "(p mod (M + 1), p div (M + 1)) \<in> inside M" using M(1) pos_mod_bound [of "M + 1" p] pos_mod_sign [of "M + 1" p] by (simp add: inside_def)
    from bspec [OF known this] show ?thesis using M(3) mod_mult_div_eq [of p "M + 1"] by (simp add: cell_def mult.commute)
  qed
  ultimately show ?thesis using M(1,4) by (simp add: heights_ok_def filled_def)
qed

lemma gen_heights_ok:
  assumes c: "map_config_ok data" and num: "numbers_ok env data" and s: "sized data s" and w: "world_terrain data s"
    and d: "shaped (world_max data) (mg_diamond s)" "ds_owner (mg_diamond s) = 0xFFFFFFFF"
      "ds_H (mg_diamond s) = fl_div (ge_fl env) (fl_int (ge_fl env) (md_H data)) (fl_lit (ge_fl env) 100 0)"
  shows "\<exists>go s'. gen_heights env s = Some (go, s') \<and> kept s s' \<and> ((\<forall>k. \<not> ge_stop env k) \<longrightarrow> go) \<and>
    (go \<longrightarrow> sized data s' \<and> world_terrain data s' \<and> heights_done data s')"
proof -
  let ?F = "ge_fl env" and ?d = "gen_from s (mg_diamond s)" and ?cs = "map (fl_int (ge_fl env)) [md_height0 data, md_height1 data, md_height2 data, md_height3 data]"
  have d': "shaped (2 ^ nat (2 * md_I data)) ?d" "ds_owner ?d = 0xFFFFFFFF" "ds_H ?d = fl_div ?F (fl_int ?F (md_H data)) (fl_lit ?F 100 0)"
    using d unfolding world_max_def by (simp_all add: gen_from_def shaped_def)
  have num': "levels_ok env (nat (2 * md_I data)) (ds_H ?d)
       (fl_mul ?F (fl_div ?F (fl_int ?F 1) (fl_log2 ?F (fl_int ?F (2 ^ nat (2 * md_I data))))) (fl_lit ?F 100 0)) (fl_int ?F 0)"
    "fl_less ?F (fl_div ?F (fl_int ?F 0) (fl_int ?F (2 ^ nat (2 * md_I data) + 1))) (fl_lit ?F 1 3)" "\<not> fl_less ?F (fl_int ?F 0) (fl_lit ?F (- 1) 2)"
    using num unfolding d'(3) by (simp_all add: numbers_ok_def Let_def world_max_def)
  obtain go len d1 where d1: "ds_Start env (Some ?cs) 4 0 ?d = Some (go, len, d1)" "(\<forall>k. \<not> ge_stop env k) \<longrightarrow> go"
    "go \<longrightarrow> shaped (world_max data) d1 \<and> (\<forall>c \<in> inside (world_max data). cell d1 c \<noteq> None)"
    using start_ok [OF d'(1,2) _ refl _ refl num'(1), of ?cs 0] num'(2,3) unfolding world_max_def by auto
  have data: "mg_data s = data" using s by (simp add: sized_def)
  let ?s = "(gen_from d1 s)\<lparr>mg_diamond := d1, mg_mem := (mg_mem s)(World_Heights \<mapsto> ds_map d1)\<rparr>"
  have run: "gen_heights env s = Some (go, ?s)" using d1(1) data by (simp add: gen_heights_def)
  have k: "kept s ?s" by (simp add: kept_def)
  have "sized data ?s \<and> world_terrain data ?s \<and> heights_done data ?s" if "go"
  proof -
    have h: "heights_ok (world_max data + 1) (ds_map d1)" using d1(3) that shaped_heights by blast
    then have "int (length (ds_map d1)) = (world_max data + 1) * (world_max data + 1)" by (simp add: heights_ok_def)
    then show ?thesis using s w h by (simp add: sized_def world_terrain_def heights_done_def)
  qed
  then show ?thesis using run k d1(2) by blast
qed

definition splats_done :: "'f map_gen \<Rightarrow> bool" where
  "splats_done s \<longleftrightarrow> filled (mg_splat s)"

lemma AutoGenSplatMap_ok:
  assumes num: "numbers_ok env data" and s: "sized data s" and w: "world_terrain data s" and h: "heights_done data s"
  shows "\<exists>go s'. AutoGenSplatMap env s = Some (go, s') \<and> kept s s' \<and> ((\<forall>k. \<not> ge_stop env k) \<longrightarrow> go) \<and>
    (go \<longrightarrow> sized data s' \<and> world_terrain data s' \<and> heights_done data s' \<and> splats_done s')"
proof -
  obtain m where m: "mg_mem s World_Heights = Some m" "heights_ok (world_max data + 1) m" using h by (auto simp: heights_done_def)
  let ?s1 = "s\<lparr>gs_polls := gs_polls s + 1\<rparr>"
  have s1: "IsStopped env s = (ge_stop env (gs_polls s), ?s1)" by (simp add: IsStopped_def)
  have k1: "kept s ?s1" by (simp add: kept_def)
  have n: "splat_numbers env (world_max data + 1) (world_max data + 1)" using num by (simp add: numbers_ok_def Let_def)
  have p: "splat_ok (world_max data + 1) (uint (md_splatCount data)) (world_max data + 1) (gen_from ?s1 ((mg_painter s)\<lparr>sp_map := mg_splat s\<rparr>))"
    using s by (simp add: sized_def splat_ok_def)
  obtain go p1 where p1: "DrawSplatMap env m (gen_from ?s1 ((mg_painter s)\<lparr>sp_map := mg_splat s\<rparr>)) = Some (go, p1)"
    "same_painter (gen_from ?s1 ((mg_painter s)\<lparr>sp_map := mg_splat s\<rparr>)) p1" "(\<forall>k. \<not> ge_stop env k) \<longrightarrow> go" "go \<longrightarrow> filled (sp_map p1)"
    using DrawSplatMap_ok [OF m(2) n p] by blast
  let ?s2 = "(gen_from p1 ?s1)\<lparr>mg_painter := p1, mg_splat := sp_map p1\<rparr>"
  have run: "AutoGenSplatMap env s = (if ge_stop env (gs_polls s) then Some (False, ?s1) else Some (go, ?s2))"
    using p1(1) m(1) unfolding AutoGenSplatMap_def s1 by (simp add: mg_DrawSplatMap_def)
  have k2: "kept s ?s2" by (simp add: kept_def)
  have "splat_ok (world_max data + 1) (uint (md_splatCount data)) (world_max data + 1) p1" by (rule splat_ok_same [OF p p1(2)])
  moreover have "p1\<lparr>sp_map := sp_map p1\<rparr> = p1" by (cases p1) simp
  moreover have "length (sp_map p1) = length (mg_splat s)" using p1(2) by (simp add: same_painter_def)
  ultimately have "sized data ?s2" using s by (simp add: sized_def)
  moreover have "world_terrain data ?s2" "heights_done data ?s2" using w m by (simp_all add: world_terrain_def heights_done_def)
  ultimately show ?thesis using run k1 k2 p1(3,4) by (cases "ge_stop env (gs_polls s)") (auto simp: splats_done_def)
qed

text \<open>The world map is generated in any state that was initialised.\<close>

lemma GenWorldMap_ok:
  assumes c: "map_config_ok data" and num: "numbers_ok env data" and s: "sized data s"
  shows "\<exists>go s'. GenWorldMap env s = Some (go, s') \<and> kept s s' \<and> ((\<forall>k. \<not> ge_stop env k) \<longrightarrow> go) \<and>
    (go \<longrightarrow> sized data s' \<and> world_terrain data s' \<and> heights_done data s' \<and> splats_done s')"
proof -
  obtain w s1 where s1: "begin_world env s = Some (w, s1)" "kept s s1" "sized data s1" "world_terrain data s1" "te_I (mg_heap s1 w) > 1"
    "shaped (world_max data) (mg_diamond s1)" "ds_owner (mg_diamond s1) = 0xFFFFFFFF"
    "ds_H (mg_diamond s1) = fl_div (ge_fl env) (fl_int (ge_fl env) (md_H data)) (fl_lit (ge_fl env) 100 0)"
    using begin_world_ok [OF c s] by blast
  obtain go s2 where s2: "gen_heights env s1 = Some (go, s2)" "kept s1 s2" "(\<forall>k. \<not> ge_stop env k) \<longrightarrow> go"
    "go \<longrightarrow> sized data s2 \<and> world_terrain data s2 \<and> heights_done data s2" using gen_heights_ok [OF c num s1(3,4,6-8)] by blast
  let ?s3 = "s2\<lparr>gs_polls := gs_polls s2 + 1\<rparr>"
  have st: "IsStopped env s2 = (ge_stop env (gs_polls s2), ?s3)" by (simp add: IsStopped_def)
  have k3: "kept s ?s3" using kept_trans [OF s1(2) s2(2)] by (simp add: kept_def)
  have run: "GenWorldMap env s = (if \<not> go \<or> ge_stop env (gs_polls s2) then Some (False, ?s3) else AutoGenSplatMap env ?s3)"
    unfolding GenWorldMap_def using s1(1,5) s2(1) st by simp
  show ?thesis
  proof (cases "\<not> go \<or> ge_stop env (gs_polls s2)")
    case True
    then show ?thesis using run k3 s2(3) by (intro exI [of _ False] exI [of _ ?s3]) auto
  next
    case False
    then have "sized data ?s3" "world_terrain data ?s3" "heights_done data ?s3" using s2(4) by (simp_all add: sized_def world_terrain_def heights_done_def)
    from AutoGenSplatMap_ok [OF num this] obtain go4 s4 where s4: "AutoGenSplatMap env ?s3 = Some (go4, s4)" "kept ?s3 s4"
      "(\<forall>k. \<not> ge_stop env k) \<longrightarrow> go4" "go4 \<longrightarrow> sized data s4 \<and> world_terrain data s4 \<and> heights_done data s4 \<and> splats_done s4" by blast
    then show ?thesis using run False kept_trans [OF k3 s4(2)] by (intro exI [of _ go4] exI [of _ s4]) simp
  qed
qed

end
