(* ===== verification/Map_Tiles.thy ===== *)
theory Map_Tiles
  imports Map_World
begin

text \<open>
  The tiles.  A tile has the heights of its square of the world map, row by row; its last row and column are the
  first ones of the next tile.  Its splat weights are read with the width of the tile's splat map as the length of a row of the world's, so
  they are those of other cells.
\<close>

section \<open>Writing one place after another\<close>

definition fill :: "'f option list \<Rightarrow> nat \<Rightarrow> 'f list \<Rightarrow> 'f option list" where
  "fill m i vs = take i m @ map Some vs @ drop (i + length vs) m"

lemma fill_nil [simp]: "fill m i [] = m"
  by (simp add: fill_def)

lemma fill_cons: "i < length m \<Longrightarrow> fill (m[i := Some v]) (i + 1) vs = fill m i (v # vs)"
  by (simp add: fill_def take_Suc_conv_app_nth)

lemma fill_append: "i + length vs \<le> length m \<Longrightarrow> fill (fill m i vs) (i + length vs) ws = fill m i (vs @ ws)"
  by (simp add: fill_def ac_simps)

lemma length_fill: "i + length vs \<le> length m \<Longrightarrow> length (fill m i vs) = length m"
  by (simp add: fill_def)

lemma fill_all: "length vs = length m \<Longrightarrow> fill m 0 vs = map Some vs"
  by (simp add: fill_def)

lemma unat_next: "unat (idx :: u32) + 1 < 2 ^ 32 \<Longrightarrow> unat (idx + 1) = unat idx + 1"
  using unat_add_lem [of idx 1] by simp

lemma write_word:
  assumes "unat (idx :: u32) < length m" shows "map_write m (uint idx) v = Some (m[unat idx := Some v])"
proof -
  obtain k where k: "unat idx = k" "uint idx = int k" by (metis uint_nat)
  then show ?thesis using assms unfolding k by (simp add: map_write_def)
qed

lemma copy_splats_ok:
  "unat idx + length js \<le> length m \<Longrightarrow> length m < 2 ^ 31 \<Longrightarrow> \<forall>j \<in> set js. map_read splats (uint j) = Some (f j) \<Longrightarrow>
    \<exists>idx'. copy_splats splats js idx m = Some (idx', fill m (unat idx) (map f js)) \<and> unat idx' = unat idx + length js"
proof (induction js arbitrary: idx m)
  case (Cons j js)
  let ?m = "m[unat idx := Some (f j)]"
  have i: "unat (idx + 1) = unat idx + 1" by (rule unat_next) (use Cons.prems(1,2) in simp)
  from Cons.IH [of "idx + 1" ?m] Cons.prems i obtain idx' where
    r: "copy_splats splats js (idx + 1) ?m = Some (idx', fill ?m (unat idx + 1) (map f js))" "unat idx' = unat idx + 1 + length js" by auto
  have "fill ?m (unat idx + 1) (map f js) = fill m (unat idx) (map f (j # js))" using fill_cons [of "unat idx" m "f j" "map f js"] Cons.prems(1) by simp
  then show ?case using r write_word [of idx m "f j"] Cons.prems(1,3) by simp
qed simp

text \<open>The indices of the source are words; the places are those of the numbers.\<close>

definition splat_words :: "map_data \<Rightarrow> int \<times> int \<Rightarrow> u32 list" where
  "splat_words data c = map (\<lambda>a. splat_index data (word_of_int (snd c)) (word_of_int (fst c)) (word_of_int a)) (count_up 0 (uint (md_splatCount data)) 1)"

lemma splat_words_all:
  assumes "0 < uint (md_splatCount data)"
  shows "length (splat_words data c) = nat (uint (md_splatCount data))"
    "0 \<le> k \<Longrightarrow> k < uint (md_splatCount data) \<Longrightarrow>
      splat_words data c ! nat k = splat_index data (word_of_int (snd c)) (word_of_int (fst c)) (word_of_int k)"
proof -
  obtain m where m: "uint (md_splatCount data) = int m" by (metis uint_nat)
  have u: "count_up 0 (int m) 1 = map (\<lambda>k. 0 + int k * 1) [0..<m]" by (rule count_up_map) (use assms m in simp_all)
  show "length (splat_words data c) = nat (uint (md_splatCount data))" unfolding splat_words_def m u by simp
  assume k: "0 \<le> k" "k < uint (md_splatCount data)"
  then obtain n where n: "k = int n" "n < m" using m by (metis nonneg_int_cases of_nat_less_iff)
  then show "splat_words data c ! nat k = splat_index data (word_of_int (snd c)) (word_of_int (fst c)) (word_of_int k)"
    unfolding splat_words_def m u by simp
qed

lemma copy_cells_ok:
  assumes h: "\<And>c. c \<in> set cs \<Longrightarrow> map_read heights (uint (word_of_int (snd c) + word_of_int (fst c) * n :: u32)) = Some (hv c)"
    and s: "\<And>c j. c \<in> set cs \<Longrightarrow> j \<in> set (splat_words data c) \<Longrightarrow> map_read splats (uint j) = Some (f j)"
  shows "unat idx + length cs \<le> length hm \<Longrightarrow> length hm < 2 ^ 31 \<Longrightarrow> unat sidx + length (concat (map (splat_words data) cs)) \<le> length sm \<Longrightarrow>
    length sm < 2 ^ 31 \<Longrightarrow> copy_cells heights splats data n cs idx sidx hm sm =
      Some (fill hm (unat idx) (map hv cs), fill sm (unat sidx) (map f (concat (map (splat_words data) cs))))"
  using h s
proof (induction cs arbitrary: idx sidx hm sm)
  case (Cons c cs)
  note h = Cons.prems(5) and sp = Cons.prems(6)
  let ?hm = "hm[unat idx := Some (hv c)]" and ?sm = "fill sm (unat sidx) (map f (splat_words data c))"
  have i: "unat (idx + 1) = unat idx + 1" by (rule unat_next) (use Cons.prems(1,2) in simp)
  have le: "unat sidx + length (splat_words data c) \<le> length sm" using Cons.prems(3) by simp
  obtain sidx' where r: "copy_splats splats (splat_words data c) sidx sm = Some (sidx', ?sm)" "unat sidx' = unat sidx + length (splat_words data c)"
    using copy_splats_ok [OF le Cons.prems(4), of splats f] sp [of c] by auto
  have len: "length ?sm = length sm" using length_fill [of "unat sidx" "map f (splat_words data c)" sm] le by simp
  have "copy_cells heights splats data n cs (idx + 1) sidx' ?hm ?sm =
      Some (fill ?hm (unat (idx + 1)) (map hv cs), fill ?sm (unat sidx') (map f (concat (map (splat_words data) cs))))"
  proof (rule Cons.IH)
    show "unat (idx + 1) + length cs \<le> length ?hm" "length ?hm < 2 ^ 31" using Cons.prems(1,2) i by simp_all
    show "unat sidx' + length (concat (map (splat_words data) cs)) \<le> length ?sm" "length ?sm < 2 ^ 31" using Cons.prems(3,4) r(2) len by simp_all
    show "map_read heights (uint (word_of_int (snd d) + word_of_int (fst d) * n :: u32)) = Some (hv d)" if "d \<in> set cs" for d
      by (rule h) (use that in simp)
    show "map_read splats (uint j) = Some (f j)" if "d \<in> set cs" "j \<in> set (splat_words data d)" for d j
      by (rule sp [OF _ that(2)]) (use that(1) in simp)
  qed
  moreover have "fill ?hm (unat (idx + 1)) (map hv cs) = fill hm (unat idx) (map hv (c # cs))"
    using fill_cons [of "unat idx" hm "hv c" "map hv cs"] i Cons.prems(1) by simp
  moreover have "fill ?sm (unat sidx') (map f (concat (map (splat_words data) cs))) = fill sm (unat sidx) (map f (concat (map (splat_words data) (c # cs))))"
    using fill_append [of "unat sidx" "map f (splat_words data c)" sm] le r(2) by simp
  moreover have "map_write hm (uint idx) (hv c) = Some ?hm" by (rule write_word) (use Cons.prems(1) in simp)
  ultimately show ?case using h [of c] r(1) unfolding splat_words_def by (simp add: Let_def)
qed simp

section \<open>The cells of a tile\<close>

lemma length_concat_all: "\<forall>xs \<in> set xss. length xs = n \<Longrightarrow> length (concat xss) = length xss * n"
  by (induction xss) simp_all

lemma concat_nth:
  "\<forall>xs \<in> set xss. length xs = n \<Longrightarrow> q < length xss \<Longrightarrow> r < n \<Longrightarrow> concat xss ! (q * n + r) = xss ! q ! r"
proof (induction xss arbitrary: q)
  case (Cons xs xss)
  then show ?case by (cases q) (simp_all add: nth_append)
qed simp

text \<open>A cell of the world map is a pair of its row and its column.\<close>

definition tile_cells :: "int \<Rightarrow> int \<Rightarrow> int \<Rightarrow> (int \<times> int) list" where
  "tile_cells tm x y = concat (map (\<lambda>j. map (\<lambda>i. (y * tm + int j, x * tm + int i)) [0..<nat (tm + 1)]) [0..<nat (tm + 1)])"

lemma tile_cells_length: "length (tile_cells tm x y) = nat (tm + 1) * nat (tm + 1)"
  unfolding tile_cells_def by (subst length_concat_all [where n = "nat (tm + 1)"]) auto

lemma tile_cells_nth:
  assumes "i < nat (tm + 1)" "j < nat (tm + 1)" shows "tile_cells tm x y ! (j * nat (tm + 1) + i) = (y * tm + int j, x * tm + int i)"
  unfolding tile_cells_def by (subst concat_nth) (use assms in auto)

lemma tile_cells_range: "c \<in> set (tile_cells tm x y) \<Longrightarrow> y * tm \<le> fst c \<and> fst c \<le> y * tm + tm \<and> x * tm \<le> snd c \<and> snd c \<le> x * tm + tm"
  by (auto simp: tile_cells_def)

lemma tile_cells_count:
  assumes "0 \<le> tm"
  shows "concat (map (\<lambda>wy. map (Pair wy) (count_up (x * tm) (x * tm + tm + 1) 1)) (count_up (y * tm) (y * tm + tm + 1) 1)) = tile_cells tm x y"
proof -
  have c: "count_up a (a + tm + 1) 1 = map (\<lambda>k. a + int k) [0..<nat (tm + 1)]" for a
    using count_up_map [of 1 a "nat (tm + 1)" "a + tm + 1"] assms by simp
  show ?thesis unfolding c tile_cells_def by (simp add: comp_def)
qed

text \<open>The words of the code stand for these numbers.\<close>

lemma cell_word:
  assumes c: "map_config_ok data" and x: "0 \<le> X" "X \<le> world_max data" "0 \<le> Y" "Y \<le> world_max data"
  shows "uint (word_of_int X + word_of_int Y * word_of_int (world_max data + 1) :: u32) = X + Y * (world_max data + 1)"
    "X + Y * (world_max data + 1) < (world_max data + 1) * (world_max data + 1)"
proof -
  have "Y * (world_max data + 1) \<le> world_max data * (world_max data + 1)" using x by (intro mult_right_mono) simp_all
  then show lt: "X + Y * (world_max data + 1) < (world_max data + 1) * (world_max data + 1)" using x(2) by (simp add: algebra_simps)
  have "uint (word_of_int (world_max data + 1) * word_of_int (world_max data + 1) :: u32) = (world_max data + 1) * (world_max data + 1)" by (rule area_words(1) [OF c])
  then have "(world_max data + 1) * (world_max data + 1) < 2 ^ 32" using uint_bounded [of "word_of_int (world_max data + 1) * word_of_int (world_max data + 1) :: u32"] by simp
  then have small: "X + Y * (world_max data + 1) < 2 ^ 32" using lt by linarith
  have "0 \<le> X + Y * (world_max data + 1)" using x by simp
  then have "uint (word_of_int (X + Y * (world_max data + 1)) :: u32) = X + Y * (world_max data + 1)" using small by (rule uint_small)
  then show "uint (word_of_int X + word_of_int Y * word_of_int (world_max data + 1) :: u32) = X + Y * (world_max data + 1)" by (simp only: wi_hom_add wi_hom_mult)
qed

lemma splat_word:
  assumes c: "map_config_ok data" and x: "0 \<le> X" "X \<le> world_max data" "0 \<le> Y" "Y \<le> world_max data" and k: "0 \<le> k" "k < uint (md_splatCount data)"
  shows "uint (splat_index data (word_of_int X) (word_of_int Y) (word_of_int k)) = (X * (tile_max data + 1) + Y) * uint (md_splatCount data) + k"
    "(X * (tile_max data + 1) + Y) * uint (md_splatCount data) + k < (world_max data + 1) * (world_max data + 1) * uint (md_splatCount data)"
proof -
  let ?C = "uint (md_splatCount data)" and ?M = "world_max data" and ?t = "tile_max data"
  have sw: "md_splatWidth data = word_of_int (?t + 1)" and cc: "(?M + 1) * (?M + 1) * ?C < 2 ^ 31" and t: "0 \<le> ?t"
    using c by (simp_all add: map_config_ok_def tile_max_def)
  have "X * (?t + 1) \<le> ?M * (?M + 1)" using x config_facts(6) [OF c] t by (intro mult_mono) simp_all
  then have "X * (?t + 1) + Y + 1 \<le> (?M + 1) * (?M + 1)" using x(4) by (simp add: algebra_simps)
  then have "(X * (?t + 1) + Y + 1) * ?C \<le> (?M + 1) * (?M + 1) * ?C" by (rule mult_right_mono) simp
  then show lt: "(X * (?t + 1) + Y) * ?C + k < (?M + 1) * (?M + 1) * ?C" using k(2) by (simp add: algebra_simps)
  have nn: "0 \<le> (X * (?t + 1) + Y) * ?C + k" using x t k(1) by simp
  have "splat_index data (word_of_int X) (word_of_int Y) (word_of_int k) = word_of_int ((X * (?t + 1) + Y) * ?C + k)"
    unfolding splat_index_def sw by (simp only: wi_hom_add [symmetric] wi_hom_mult [symmetric] word_of_int_uint)
  moreover have "(X * (?t + 1) + Y) * ?C + k < 2 ^ 32" by (rule less_trans [OF less_trans [OF lt cc]]) simp
  ultimately show "uint (splat_index data (word_of_int X) (word_of_int Y) (word_of_int k)) = (X * (?t + 1) + Y) * ?C + k"
    using uint_small [OF nn] by simp
qed

section \<open>The place of a tile\<close>

definition tile_x :: "map_data \<Rightarrow> u32 \<Rightarrow> int" where
  "tile_x data t = (uint t - 1) mod tiles_per_edge data"

definition tile_y :: "map_data \<Rightarrow> u32 \<Rightarrow> int" where
  "tile_y data t = (uint t - 1) div tiles_per_edge data"

definition is_tile :: "map_data \<Rightarrow> u32 \<Rightarrow> bool" where
  "is_tile data t \<longleftrightarrow> 1 \<le> uint t \<and> uint t \<le> tiles_per_edge data * tiles_per_edge data"

lemma tile_place:
  assumes c: "map_config_ok data" and t: "is_tile data t"
  shows "0 \<le> tile_x data t" "tile_x data t < tiles_per_edge data" "0 \<le> tile_y data t" "tile_y data t < tiles_per_edge data"
    "0 \<le> tile_x data t * tile_max data" "tile_x data t * tile_max data + tile_max data \<le> world_max data"
    "0 \<le> tile_y data t * tile_max data" "tile_y data t * tile_max data + tile_max data \<le> world_max data"
proof -
  note f = config_facts [OF c]
  have p: "0 < tiles_per_edge data" and tm: "0 \<le> tile_max data" using f(4) c by (simp_all add: map_config_ok_def)
  have e: "uint t - 1 < tiles_per_edge data * tiles_per_edge data" "0 \<le> uint t - 1" using t by (simp_all add: is_tile_def)
  show x: "0 \<le> tile_x data t" "tile_x data t < tiles_per_edge data" using p by (simp_all add: tile_x_def)
  show y0: "0 \<le> tile_y data t" using e(2) p by (simp add: tile_y_def pos_imp_zdiv_nonneg_iff)
  have m: "uint t - 1 = tiles_per_edge data * tile_y data t + tile_x data t" by (simp add: tile_x_def tile_y_def)
  show y: "tile_y data t < tiles_per_edge data"
  proof (rule ccontr)
    assume "\<not> tile_y data t < tiles_per_edge data"
    then have "tiles_per_edge data * tiles_per_edge data \<le> tiles_per_edge data * tile_y data t" using p by (intro mult_left_mono) simp_all
    then show False using m x(1) e(1) by linarith
  qed
  have up: "a * tile_max data + tile_max data \<le> world_max data" if "a < tiles_per_edge data" for a
  proof -
    have "(a + 1) * tile_max data \<le> tiles_per_edge data * tile_max data" by (rule mult_right_mono) (use that tm in simp_all)
    then show ?thesis unfolding f(1) by (simp add: algebra_simps)
  qed
  show "tile_x data t * tile_max data + tile_max data \<le> world_max data" "tile_y data t * tile_max data + tile_max data \<le> world_max data"
    using up x(2) y by simp_all
  show "0 \<le> tile_x data t * tile_max data" "0 \<le> tile_y data t * tile_max data" using x(1) y0 tm by simp_all
qed

text \<open>What the game and the neighbours see of the new tile.\<close>

lemma tile_begin_ok:
  assumes c: "map_config_ok data" and s: "sized data s" "world_terrain data s" and t: "is_tile data t"
  shows "\<exists>xy s'. tile_begin env t s = Some (xy, s') \<and> uint (fst xy) = tile_x data t \<and> uint (snd xy) = tile_y data t \<and>
    s' = s\<lparr>mg_cur := t, mg_heap := mg_heap s', mg_fresh := mg_fresh s + 1, mg_current := Some (mg_fresh s)\<rparr> \<and>
    te_id (mg_heap s' (mg_fresh s)) = t \<and> (\<forall>r. r \<noteq> mg_fresh s \<longrightarrow> mg_heap s' r = mg_heap s r) \<and>
    te_pos (mg_heap s' (mg_fresh s)) = (fl_int (ge_fl env) (tile_x data t * (tile_max data + 1)), fl_int (ge_fl env) 0,
      fl_int (ge_fl env) (tile_y data t * (tile_max data + 1)))"
proof -
  note w = size_words [OF c] and pl = tile_place [OF c t] and f = config_facts [OF c]
  let ?W = "word_of_int (world_max data + 1) :: u32" and ?S = "md_singleMapSize data"
  obtain r where r: "mg_world s = Some r" "r < mg_fresh s" "te_n (mg_heap s r) = world_max data + 1" using s(2) by (auto simp: world_terrain_def)
  have data: "mg_data s = data" using s(1) by (simp add: sized_def)
  obtain q where q: "udiv ?W (?S - 1) = Some q" "uint q = tiles_per_edge data" using w(5,6) by simp
  have "q \<noteq> 0" using q(2) f(4) by auto
  then obtain x y where xy: "umod (t - 1) q = Some x" "udiv (t - 1) q = Some y" "x = (t - 1) mod q" "y = (t - 1) div q" by (simp add: umod_def udiv_def)
  have "1 \<le> t" using t by (simp add: is_tile_def word_le_def)
  then have "uint (t - 1) = uint t - 1" by (simp add: uint_minus_simple_alt)
  then have u: "uint x = tile_x data t" "uint y = tile_y data t" unfolding xy tile_x_def tile_y_def by (simp_all add: uint_mod uint_div q(2))
  have pos: "uint (a * ?S) = uint a * (tile_max data + 1)" if "uint a < tiles_per_edge data" for a
  proof -
    have "uint a * (tile_max data + 1) \<le> tiles_per_edge data * (2 * tile_max data)"
      by (rule mult_mono) (use that f(4) c in \<open>simp_all add: map_config_ok_def\<close>)
    then have "uint a * (tile_max data + 1) \<le> 2 * world_max data" unfolding f(1) by (simp add: ac_simps)
    then have "uint a * uint ?S < 2 ^ 32" unfolding w(3) using f(3) by simp
    from mult_small [OF this] show ?thesis unfolding w(3) .
  qed
  let ?H = "(mg_heap s)(mg_fresh s := (te_new (ge_fl env) t 1 ?S)\<lparr>te_pos := (fl_int (ge_fl env) (uint (x * ?S)), fl_int (ge_fl env) 0, fl_int (ge_fl env) (uint (y * ?S)))\<rparr>)"
  have "tile_begin env t s = Some ((x, y), s\<lparr>mg_cur := t, mg_heap := ?H, mg_fresh := mg_fresh s + 1, mg_current := Some (mg_fresh s)\<rparr>)"
    using r q(1) xy(1,2) unfolding tile_begin_def by (simp add: data mg_alloc_def mg_update_def te_new_def Let_def)
  moreover have "uint (x * ?S) = tile_x data t * (tile_max data + 1)" "uint (y * ?S) = tile_y data t * (tile_max data + 1)"
    using pos [of x] pos [of y] u pl by simp_all
  ultimately show ?thesis using u
    by (intro exI [of _ "(x, y)"] exI [of _ "s\<lparr>mg_cur := t, mg_heap := ?H, mg_fresh := mg_fresh s + 1, mg_current := Some (mg_fresh s)\<rparr>"]) (simp add: te_new_def)
qed

section \<open>Copying a tile\<close>

lemma tile_range:
  assumes c: "map_config_ok data" and a: "uint a = A" "0 \<le> A" "A * tile_max data + tile_max data \<le> world_max data"
  shows "up_to (a * (md_singleMapSize data - 1)) ((a + 1) * (md_singleMapSize data - 1)) =
    Some (count_up (A * tile_max data) (A * tile_max data + tile_max data + 1) 1)"
proof -
  let ?s = "md_singleMapSize data - 1"
  have s1: "uint ?s = tile_max data" by (rule size_words(4) [OF c])
  have f: "world_max data \<le> 2 ^ 14" and t: "2 \<le> tile_max data" using config_facts(3) [OF c] c by (simp_all add: map_config_ok_def)
  have "0 \<le> A * tile_max data" using a(2) t by simp
  then have lo: "uint (a * ?s) = A * tile_max data" using mult_small [of a ?s] a f t unfolding s1 by simp
  have "(A + 1) * 1 \<le> (A + 1) * tile_max data" by (rule mult_left_mono) (use a(2) t in simp_all)
  then have "A + 1 \<le> 2 ^ 14" using a(3) f by (simp add: algebra_simps)
  then have "uint (a + 1) = A + 1" using a(1,2) uint_add_lem [of a 1] by simp
  then have hi: "uint ((a + 1) * ?s) = A * tile_max data + tile_max data" using mult_small [of "a + 1" ?s] a f unfolding s1 by (simp add: algebra_simps)
  then have "(a + 1) * ?s \<noteq> 0xFFFFFFFF" using a(3) f by auto
  then show ?thesis unfolding up_to_def lo hi by simp
qed

text \<open>A tile of the world map; the weights are read as the code does.\<close>

definition tile_of :: "map_data \<Rightarrow> 'f option list \<Rightarrow> 'f option list \<Rightarrow> u32 \<Rightarrow> 'f option list \<Rightarrow> 'f option list \<Rightarrow> bool" where
  "tile_of data m sm t hc sc \<longleftrightarrow> (let tm = tile_max data; n = world_max data + 1; C = uint (md_splatCount data);
       x = tile_x data t * tm; y = tile_y data t * tm in
     int (length hc) = (tm + 1) * (tm + 1) \<and> int (length sc) = (tm + 1) * (tm + 1) * C \<and>
     (\<forall>i j. 0 \<le> i \<and> i \<le> tm \<and> 0 \<le> j \<and> j \<le> tm \<longrightarrow>
       map_read hc (i + j * (tm + 1)) = map_read m ((x + i) + (y + j) * n) \<and>
       (\<forall>k. 0 \<le> k \<and> k < C \<longrightarrow> map_read sc ((j * (tm + 1) + i) * C + k) = map_read sm (((x + i) * (tm + 1) + (y + j)) * C + k))))"

lemma tile_at:
  assumes "0 \<le> tm" "0 \<le> i \<and> i \<le> tm \<and> 0 \<le> j \<and> j \<le> tm"
  shows "0 \<le> j * (tm + 1) + i" "nat (j * (tm + 1) + i) < length (tile_cells tm x y)"
    "tile_cells tm x y ! nat (j * (tm + 1) + i) = (y * tm + j, x * tm + i)" "(y * tm + j, x * tm + i) \<in> set (tile_cells tm x y)"
proof -
  obtain k a b where k: "i = int a" "j = int b" "tm + 1 = int k" by (metis assms add_nonneg_nonneg nonneg_int_cases zero_le_one)
  have ab: "a < k" "b < k" "nat (tm + 1) = k" using assms(2) k by linarith+
  have n: "j * (tm + 1) + i = int (b * k + a)" unfolding k by simp
  then show "0 \<le> j * (tm + 1) + i" by simp
  have "b * k + k \<le> k * k" using mult_le_mono1 [of "b + 1" k k] ab(2) by simp
  then have lt: "b * k + a < length (tile_cells tm x y)" using ab by (simp add: tile_cells_length)
  then show l: "nat (j * (tm + 1) + i) < length (tile_cells tm x y)" unfolding n nat_int .
  have "tile_cells tm x y ! (b * k + a) = (y * tm + j, x * tm + i)" using tile_cells_nth [of a tm b x y] ab k(1,2) by simp
  then show e: "tile_cells tm x y ! nat (j * (tm + 1) + i) = (y * tm + j, x * tm + i)" unfolding n nat_int .
  show "(y * tm + j, x * tm + i) \<in> set (tile_cells tm x y)" using nth_mem [OF l] unfolding e .
qed

lemma read_at: "0 \<le> p \<Longrightarrow> nat p < length cs \<Longrightarrow> map_read (map Some (map f cs)) p = Some (f (cs ! nat p))"
  by (simp add: map_read_def)

lemma read_nat: "n < length ys \<Longrightarrow> map_read (map Some (map f ys)) (int n) = Some (f (ys ! n))"
  by (simp add: map_read_def)

lemma tile_cell_inside:
  assumes c: "map_config_ok data" and t: "is_tile data t" and d: "d \<in> set (tile_cells (tile_max data) (tile_x data t) (tile_y data t))"
  shows "0 \<le> snd d" "snd d \<le> world_max data" "0 \<le> fst d" "fst d \<le> world_max data"
  using tile_place(5-8) [OF c t] tile_cells_range [OF d] by linarith+

definition tile_heights :: "map_data \<Rightarrow> 'f option list \<Rightarrow> u32 \<Rightarrow> 'f list" where
  "tile_heights data m t = map (\<lambda>d. the (map_read m (snd d + fst d * (world_max data + 1)))) (tile_cells (tile_max data) (tile_x data t) (tile_y data t))"

definition tile_words :: "map_data \<Rightarrow> u32 \<Rightarrow> u32 list" where
  "tile_words data t = concat (map (splat_words data) (tile_cells (tile_max data) (tile_x data t) (tile_y data t)))"

definition tile_weights :: "map_data \<Rightarrow> 'f option list \<Rightarrow> u32 \<Rightarrow> 'f list" where
  "tile_weights data sm t = map (\<lambda>j. the (map_read sm (uint j))) (tile_words data t)"

lemma tile_words_length:
  assumes c: "map_config_ok data"
  shows "length (tile_words data t) = length (tile_cells (tile_max data) (tile_x data t) (tile_y data t)) * nat (uint (md_splatCount data))"
proof -
  have C: "0 < uint (md_splatCount data)" using c by (simp add: map_config_ok_def)
  show ?thesis unfolding tile_words_def
    by (subst length_concat_all [where n = "nat (uint (md_splatCount data))"]) (simp_all add: splat_words_all(1) [OF C])
qed

lemma tile_lengths:
  assumes c: "map_config_ok data"
  shows "int (length (tile_heights data m t)) = (tile_max data + 1) * (tile_max data + 1)"
    "int (length (tile_weights data sm t)) = (tile_max data + 1) * (tile_max data + 1) * uint (md_splatCount data)"
proof -
  have "0 \<le> tile_max data" using c by (simp add: map_config_ok_def)
  then have l: "int (length (tile_cells (tile_max data) (tile_x data t) (tile_y data t))) = (tile_max data + 1) * (tile_max data + 1)"
    by (simp add: tile_cells_length)
  show "int (length (tile_heights data m t)) = (tile_max data + 1) * (tile_max data + 1)" using l by (simp add: tile_heights_def)
  show "int (length (tile_weights data sm t)) = (tile_max data + 1) * (tile_max data + 1) * uint (md_splatCount data)"
    using l by (simp add: tile_weights_def tile_words_length [OF c])
qed

lemma copies_small:
  assumes c: "map_config_ok data" and s: "sized data s"
  shows "length (mg_scopy s) < 2 ^ 31" "length (mg_hcopy s) < 2 ^ 31"
proof -
  let ?t = "tile_max data + 1" and ?C = "uint (md_splatCount data)"
  have "0 < ?C" and sb: "(world_max data + 1) * (world_max data + 1) * ?C < 2 ^ 31" using c by (simp_all add: map_config_ok_def)
  then have "?t * ?t * 1 \<le> ?t * ?t * ?C" by (intro mult_left_mono) simp_all
  moreover have "?t * ?t * ?C \<le> (world_max data + 1) * (world_max data + 1) * ?C" by (rule area_words(7) [OF c])
  moreover have "int (length (mg_hcopy s)) = ?t * ?t" "int (length (mg_scopy s)) = ?t * ?t * ?C" using s by (simp_all add: sized_def)
  ultimately have "int (length (mg_scopy s)) < 2 ^ 31" "int (length (mg_hcopy s)) < 2 ^ 31" using sb by linarith+
  then show "length (mg_scopy s) < 2 ^ 31" "length (mg_hcopy s) < 2 ^ 31" by simp_all
qed

text \<open>No read of a copy leaves the arrays.\<close>

lemma tile_reads:
  assumes c: "map_config_ok data" and t: "is_tile data t" and m: "int (length m) = (world_max data + 1) * (world_max data + 1)" "filled m"
    and sm: "int (length sm) = (world_max data + 1) * (world_max data + 1) * uint (md_splatCount data)" "filled sm"
    and d: "d \<in> set (tile_cells (tile_max data) (tile_x data t) (tile_y data t))"
  shows "map_read m (snd d + fst d * (world_max data + 1)) = Some (the (map_read m (snd d + fst d * (world_max data + 1))))"
    "j \<in> set (splat_words data d) \<Longrightarrow> map_read sm (uint j) = Some (the (map_read sm (uint j)))"
proof -
  note r = tile_cell_inside [OF c t d]
  have "0 \<le> snd d + fst d * (world_max data + 1)" using r by simp
  then have "map_read m (snd d + fst d * (world_max data + 1)) \<noteq> None" using m cell_word(2) [OF c r] unfolding filled_def by auto
  then show "map_read m (snd d + fst d * (world_max data + 1)) = Some (the (map_read m (snd d + fst d * (world_max data + 1))))" by simp
  assume "j \<in> set (splat_words data d)"
  then obtain k where k: "0 \<le> k" "k < uint (md_splatCount data)" "j = splat_index data (word_of_int (snd d)) (word_of_int (fst d)) (word_of_int k)"
    by (auto simp: splat_words_def set_count_up_one)
  have "uint j < int (length sm)" unfolding sm(1) k(3) using splat_word [OF c r k(1,2)] by simp
  then have "map_read sm (uint j) \<noteq> None" using sm(2) unfolding filled_def by simp
  then show "map_read sm (uint j) = Some (the (map_read sm (uint j)))" by simp
qed

lemma tile_heights_of:
  assumes c: "map_config_ok data" and t: "is_tile data t" and m: "int (length m) = (world_max data + 1) * (world_max data + 1)" "filled m"
    and sm: "int (length sm) = (world_max data + 1) * (world_max data + 1) * uint (md_splatCount data)" "filled sm"
    and ij: "0 \<le> i \<and> i \<le> tile_max data \<and> 0 \<le> j \<and> j \<le> tile_max data"
  defines "x \<equiv> tile_x data t * tile_max data + i" and "y \<equiv> tile_y data t * tile_max data + j"
  shows "map_read (map Some (tile_heights data m t)) (i + j * (tile_max data + 1)) = map_read m (x + y * (world_max data + 1))"
proof -
  have t0: "0 \<le> tile_max data" using c by (simp add: map_config_ok_def)
  note at = tile_at(1) [OF t0 ij] tile_at(2-4) [OF t0 ij, where x = "tile_x data t" and y = "tile_y data t"]
  show ?thesis unfolding tile_heights_def x_def y_def
    using read_at [OF at(1,2), of "\<lambda>d. the (map_read m (snd d + fst d * (world_max data + 1)))"] at(3) tile_reads(1) [OF c t m sm at(4)]
    by (simp add: add.commute)
qed

lemma tile_weights_of:
  assumes c: "map_config_ok data" and t: "is_tile data t" and m: "int (length m) = (world_max data + 1) * (world_max data + 1)" "filled m"
    and sm: "int (length sm) = (world_max data + 1) * (world_max data + 1) * uint (md_splatCount data)" "filled sm"
    and ij: "0 \<le> i \<and> i \<le> tile_max data \<and> 0 \<le> j \<and> j \<le> tile_max data" and k: "0 \<le> k" "k < uint (md_splatCount data)"
  defines "x \<equiv> tile_x data t * tile_max data + i" and "y \<equiv> tile_y data t * tile_max data + j"
  shows "map_read (map Some (tile_weights data sm t)) ((j * (tile_max data + 1) + i) * uint (md_splatCount data) + k) =
    map_read sm ((x * (tile_max data + 1) + y) * uint (md_splatCount data) + k)"
proof -
  let ?C = "uint (md_splatCount data)" and ?cs = "tile_cells (tile_max data) (tile_x data t) (tile_y data t)"
  have t0: "0 \<le> tile_max data" and C: "0 < ?C" using c by (simp_all add: map_config_ok_def)
  note at = tile_at(1) [OF t0 ij] tile_at(2-4) [OF t0 ij, where x = "tile_x data t" and y = "tile_y data t"]
  note r = tile_cell_inside [OF c t at(4), unfolded fst_conv snd_conv]
  have kn: "nat k < nat ?C" by (rule iffD2 [OF nat_less_eq_zless [OF k(1)] k(2)])
  let ?q = "nat (j * (tile_max data + 1) + i)" and ?w = "splat_index data (word_of_int x) (word_of_int y) (word_of_int k)"
  have p: "(j * (tile_max data + 1) + i) * ?C + k = int (?q * nat ?C + nat k)" using at(1) C k(1) by simp
  have "?q * nat ?C + nat ?C \<le> length ?cs * nat ?C" using mult_le_mono1 [of "?q + 1" "length ?cs" "nat ?C"] at(2) by simp
  then have lt: "?q * nat ?C + nat k < length (tile_words data t)" unfolding tile_words_length [OF c] using kn by linarith
  have "tile_words data t ! (?q * nat ?C + nat k) = map (splat_words data) ?cs ! ?q ! nat k" unfolding tile_words_def
    by (rule concat_nth) (use at(2) kn in \<open>simp_all add: splat_words_all(1) [OF C]\<close>)
  also have "\<dots> = splat_words data (y, x) ! nat k" using at(2,3) by (simp add: x_def y_def)
  also have "\<dots> = ?w" using splat_words_all(2) [OF C k, of "(y, x)"] by (simp only: fst_conv snd_conv)
  finally have nth: "tile_words data t ! (?q * nat ?C + nat k) = ?w" .
  have "?w \<in> set (splat_words data (y, x))" using k by (simp add: splat_words_def set_count_up_one)
  then have "map_read sm (uint ?w) = Some (the (map_read sm (uint ?w)))" using tile_reads(2) [OF c t m sm at(4)] by (simp add: x_def y_def)
  moreover have "uint ?w = (x * (tile_max data + 1) + y) * ?C + k" unfolding x_def y_def by (rule splat_word(1) [OF c r k])
  ultimately show ?thesis unfolding p tile_weights_def read_nat [OF lt] nth by simp
qed

lemma tile_copy_ok:
  assumes c: "map_config_ok data" and s: "sized data s" "world_terrain data s" "heights_done data s" "splats_done s" and t: "is_tile data t"
    and xy: "uint (fst xy) = tile_x data t" "uint (snd xy) = tile_y data t" and cur: "mg_current s = Some r" and q: "lq_add t (mg_queue s) = Some q"
    and m: "mg_mem s World_Heights = Some m"
  shows "\<exists>hc sc. tile_copy t xy s = Some (s\<lparr>mg_hcopy := hc, mg_scopy := sc, mg_terrains := insert_terrain t r (mg_terrains s), mg_queue := q\<rparr>) \<and>
    tile_of data m (mg_splat s) t hc sc"
proof -
  let ?cs = "tile_cells (tile_max data) (tile_x data t) (tile_y data t)"
  let ?hc = "map Some (tile_heights data m t)" and ?sc = "map Some (tile_weights data (mg_splat s) t)"
  note pl = tile_place [OF c t] and len = tile_lengths [OF c]
  have t0: "0 \<le> tile_max data" using c by (simp add: map_config_ok_def)
  obtain w where w: "mg_world s = Some w" "te_n (mg_heap s w) = world_max data + 1" using s(2) by (auto simp: world_terrain_def)
  have data: "mg_data s = data" and lens: "int (length (mg_splat s)) = (world_max data + 1) * (world_max data + 1) * uint (md_splatCount data)"
    "length (mg_hcopy s) = length (tile_heights data m t)" "length (mg_scopy s) = length (tile_weights data (mg_splat s) t)"
    using s(1) len [of m t] len [of "mg_splat s" t] by (simp_all add: sized_def)
  have hm: "int (length m) = (world_max data + 1) * (world_max data + 1)" "filled m" using s(3) m by (auto simp: heights_done_def heights_ok_def)
  note rd = tile_reads [OF c t hm lens(1) s(4) [unfolded splats_done_def]]
  have small: "length (mg_scopy s) < 2 ^ 31" "length (mg_hcopy s) < 2 ^ 31" using copies_small [OF c s(1)] by simp_all
  let ?hv = "\<lambda>d. the (map_read m (snd d + fst d * (world_max data + 1)))" and ?f = "\<lambda>j. the (map_read (mg_splat s) (uint (j :: u32)))"
  have "copy_cells m (mg_splat s) data (word_of_int (te_n (mg_heap s w))) ?cs 0 0 (mg_hcopy s) (mg_scopy s) =
    Some (fill (mg_hcopy s) (unat (0 :: u32)) (map ?hv ?cs), fill (mg_scopy s) (unat (0 :: u32)) (map ?f (concat (map (splat_words data) ?cs))))"
  proof (rule copy_cells_ok)
    show "map_read m (uint (word_of_int (snd d) + word_of_int (fst d) * word_of_int (te_n (mg_heap s w)) :: u32)) = Some (?hv d)" if "d \<in> set ?cs" for d
      unfolding w(2) cell_word(1) [OF c tile_cell_inside [OF c t that]] by (rule rd(1) [OF that])
    show "map_read (mg_splat s) (uint j) = Some (?f j)" if "d \<in> set ?cs" "j \<in> set (splat_words data d)" for d j by (rule rd(2) [OF that])
  qed (use small lens(2,3) in \<open>simp_all add: tile_heights_def tile_weights_def tile_words_def\<close>)
  moreover have "fill (mg_hcopy s) 0 (tile_heights data m t) = ?hc" "fill (mg_scopy s) 0 (tile_weights data (mg_splat s) t) = ?sc"
    using lens(2,3) by (simp_all only: fill_all)
  ultimately have "copy_cells m (mg_splat s) data (word_of_int (te_n (mg_heap s w))) ?cs 0 0 (mg_hcopy s) (mg_scopy s) = Some (?hc, ?sc)"
    by (simp add: tile_heights_def tile_weights_def tile_words_def)
  then have "tile_copy t xy s = Some (s\<lparr>mg_hcopy := ?hc, mg_scopy := ?sc, mg_terrains := insert_terrain t r (mg_terrains s), mg_queue := q\<rparr>)"
    using w(1) cur m q tile_range [OF c xy(1) pl(1,6)] tile_range [OF c xy(2) pl(3,8)] tile_cells_count [OF t0, of "tile_x data t" "tile_y data t"]
    unfolding tile_copy_def by (simp add: data)
  moreover have "tile_of data m (mg_splat s) t ?hc ?sc" unfolding tile_of_def Let_def
    using len(1) [of m t] len(2) [of "mg_splat s" t] tile_heights_of [OF c t hm lens(1) s(4) [unfolded splats_done_def]] tile_weights_of [OF c t hm lens(1) s(4) [unfolded splats_done_def]] by simp
  ultimately show ?thesis by blast
qed

end
