(* ===== verification/Map_Worker.thy ===== *)
theory Map_Worker
  imports Map_Tiles
begin

text \<open>
  The thread of the map generator beside the main thread (\<^verbatim>\<open>WorkThread\<close>, \<^verbatim>\<open>Generate\<close>, \<^verbatim>\<open>UpdateInMainThread\<close>): what
  each does under the mutex is one step of the worker, which the main thread keeps out while it holds the mutex, and several steps of
  the main thread.  Between them the flag may be cleared at any time.
\<close>

section \<open>The two threads\<close>

text \<open>Where the worker is; \<open>W_Check\<close> stands for both looks at the flag before the copy, \<open>W_Wait\<close> for those after it.\<close>

datatype map_worker = W_Start | W_Loop | W_Lock | W_Begin u32 | W_Check u32 "u32 \<times> u32" | W_Copy u32 "u32 \<times> u32" | W_Wait u32 | W_Done

text \<open>The main thread holds the mutex in \<open>G_Update\<close> and in the game's function, \<open>G_Callback\<close>.\<close>

datatype map_game = G_Idle | G_Update | G_Callback u32

text \<open>\<open>rn_taken\<close> records what was taken from the queue, \<open>rn_stopped\<close> that \<^verbatim>\<open>Stop\<close> was called.\<close>

record 'f map_run =
  rn_map :: "'f map_gen"
  rn_worker :: map_worker
  rn_game :: map_game
  rn_taken :: "u32 list"
  rn_stopped :: bool

definition run_start :: "'f map_gen \<Rightarrow> 'f map_run" where
  "run_start m = \<lparr>rn_map = mg_StartRun m, rn_worker = W_Start, rn_game = G_Idle, rn_taken = [], rn_stopped = False\<rparr>"

definition work_finish :: "'f map_run \<Rightarrow> 'f map_run" where
  "work_finish s = s\<lparr>rn_map := (rn_map s)\<lparr>mg_run := False, mg_exited := True\<rparr>, rn_worker := W_Done\<rparr>"

inductive work_run :: "'f gen_env \<Rightarrow> 'f map_run \<Rightarrow> 'f map_run \<Rightarrow> bool" for env where
  world: "\<lbrakk>rn_worker s = W_Start; mg_run (rn_map s); GenWorldMap (env\<lparr>ge_stop := \<lambda>_. False\<rparr>) (rn_map s) = Some (go, m)\<rbrakk> \<Longrightarrow>
    work_run env s (s\<lparr>rn_map := m\<lparr>mg_exited := False\<rparr>, rn_worker := W_Loop\<rparr>)"
| world_stopped: "\<lbrakk>rn_worker s = W_Start; mg_run (rn_map s); GenWorldMap (env\<lparr>ge_stop := p\<rparr>) (rn_map s) = Some (go, m)\<rbrakk> \<Longrightarrow>
    work_run env s (s\<lparr>rn_map := m\<lparr>mg_exited := False, mg_run := False\<rparr>, rn_worker := W_Loop, rn_stopped := True\<rparr>)"
| no_world: "\<lbrakk>rn_worker s = W_Start; \<not> mg_run (rn_map s)\<rbrakk> \<Longrightarrow> work_run env s (s\<lparr>rn_map := (rn_map s)\<lparr>mg_exited := False\<rparr>, rn_worker := W_Loop\<rparr>)"
| again: "\<lbrakk>rn_worker s = W_Loop; mg_run (rn_map s)\<rbrakk> \<Longrightarrow> work_run env s (s\<lparr>rn_worker := W_Lock\<rparr>)"
| enough: "\<lbrakk>rn_worker s = W_Loop; \<not> mg_run (rn_map s)\<rbrakk> \<Longrightarrow> work_run env s (work_finish s)"
| initilize_next: "\<lbrakk>rn_worker s = W_Lock; rn_game s = G_Idle; t = InitilizeNext (rn_map s)\<rbrakk> \<Longrightarrow>
    work_run env s (s\<lparr>rn_worker := if t > 0 then W_Begin t else W_Wait t\<rparr>)"
| begin_tile: "\<lbrakk>rn_worker s = W_Begin t; tile_begin env t (rn_map s) = Some (xy, m)\<rbrakk> \<Longrightarrow> work_run env s (s\<lparr>rn_map := m, rn_worker := W_Check t xy\<rparr>)"
| go_on: "\<lbrakk>rn_worker s = W_Check t xy; mg_run (rn_map s)\<rbrakk> \<Longrightarrow> work_run env s (s\<lparr>rn_worker := W_Copy t xy\<rparr>)"
| give_up: "\<lbrakk>rn_worker s = W_Check t xy; \<not> mg_run (rn_map s)\<rbrakk> \<Longrightarrow> work_run env s (s\<lparr>rn_worker := W_Wait t\<rparr>)"
| copy: "\<lbrakk>rn_worker s = W_Copy t xy; rn_game s = G_Idle; tile_copy t xy (rn_map s) = Some m\<rbrakk> \<Longrightarrow> work_run env s (s\<lparr>rn_map := m, rn_worker := W_Wait t\<rparr>)"
| wait_stopped: "\<lbrakk>rn_worker s = W_Wait t; \<not> mg_run (rn_map s)\<rbrakk> \<Longrightarrow> work_run env s (work_finish s)"
| next_tile: "\<lbrakk>rn_worker s = W_Wait t; mg_run (rn_map s); lq_empty (mg_queue (rn_map s)) = Some True; t < mg_total (rn_map s)\<rbrakk> \<Longrightarrow>
    work_run env s (s\<lparr>rn_worker := W_Loop\<rparr>)"
| all_tiles: "\<lbrakk>rn_worker s = W_Wait t; mg_run (rn_map s); lq_empty (mg_queue (rn_map s)) = Some True; \<not> t < mg_total (rn_map s)\<rbrakk> \<Longrightarrow>
    work_run env s (work_finish s)"

text \<open>The main thread; the game may do what it likes with its own buffers, and asks for tiles only where the code lets it.\<close>

inductive game_run :: "'f map_run \<Rightarrow> 'f map_run \<Rightarrow> bool" where
  stop: "game_run s (s\<lparr>rn_map := mg_Stop (rn_map s), rn_stopped := True\<rparr>)"
| set_callback: "rn_game s = G_Idle \<Longrightarrow> game_run s (s\<lparr>rn_map := mg_SetCallBack cb (rn_map s)\<rparr>)"
| own_buffers: "mem World_Heights = mg_mem (rn_map s) World_Heights \<Longrightarrow> game_run s (s\<lparr>rn_map := (rn_map s)\<lparr>mg_mem := mem\<rparr>\<rparr>)"
| update: "rn_game s = G_Idle \<Longrightarrow> game_run s (s\<lparr>rn_game := G_Update\<rparr>)"
| tell: "\<lbrakk>rn_game s = G_Update; lq_next (mg_queue (rn_map s)) = Some (Some t, q); mg_cb (rn_map s); mg_current (rn_map s) = Some c\<rbrakk> \<Longrightarrow>
    game_run s (s\<lparr>rn_map := (rn_map s)\<lparr>mg_queue := q\<rparr>, rn_game := G_Callback t, rn_taken := rn_taken s @ [t]\<rparr>)"
| ignore: "\<lbrakk>rn_game s = G_Update; lq_next (mg_queue (rn_map s)) = Some (Some t, q); \<not> mg_cb (rn_map s)\<rbrakk> \<Longrightarrow>
    game_run s (s\<lparr>rn_map := (rn_map s)\<lparr>mg_queue := q\<rparr>, rn_taken := rn_taken s @ [t]\<rparr>)"
| updated: "\<lbrakk>rn_game s = G_Update; lq_next (mg_queue (rn_map s)) = Some (None, q)\<rbrakk> \<Longrightarrow>
    game_run s (s\<lparr>rn_map := (rn_map s)\<lparr>mg_queue := q\<rparr>, rn_game := G_Idle\<rparr>)"
| fetch: "\<lbrakk>rn_game s = G_Callback t; hm \<noteq> Some World_Heights; sm \<noteq> Some World_Heights; mg_InitTerrain u hm n sm width cnt (rn_map s) = Some m\<rbrakk> \<Longrightarrow>
    game_run s (s\<lparr>rn_map := m\<rparr>)"
| callback_done: "rn_game s = G_Callback t \<Longrightarrow> game_run s (s\<lparr>rn_game := G_Update\<rparr>)"

inductive run_reach :: "'f gen_env \<Rightarrow> 'f map_run \<Rightarrow> 'f map_run \<Rightarrow> bool" for env s0 where
  run_init: "run_reach env s0 s0"
| run_work: "run_reach env s0 s \<Longrightarrow> work_run env s s' \<Longrightarrow> run_reach env s0 s'"
| run_game: "run_reach env s0 s \<Longrightarrow> game_run s s' \<Longrightarrow> run_reach env s0 s'"

section \<open>What the threads rely on\<close>

definition has_world :: "map_data \<Rightarrow> 'f map_gen \<Rightarrow> bool" where
  "has_world data m \<longleftrightarrow> sized data m \<and> world_terrain data m \<and> heights_done data m \<and> splats_done m"

definition tiles :: "nat \<Rightarrow> u32 list" where
  "tiles n = map of_nat [1..<n + 1]"

text \<open>The terrains are the tiles in order.\<close>

definition registered :: "map_data \<Rightarrow> 'f map_gen \<Rightarrow> bool" where
  "registered data m \<longleftrightarrow> map fst (mg_terrains m) = tiles (length (mg_terrains m)) \<and>
     int (length (mg_terrains m)) \<le> tiles_per_edge data * tiles_per_edge data \<and>
     (\<forall>(k, r) \<in> set (mg_terrains m). te_id (mg_heap m r) = k \<and> r < mg_fresh m \<and> mg_world m \<noteq> Some r)"

definition next_is :: "map_data \<Rightarrow> u32 \<Rightarrow> 'f map_gen \<Rightarrow> bool" where
  "next_is data t m \<longleftrightarrow> is_tile data t \<and> uint t = int (length (mg_terrains m)) + 1"

definition current_is :: "u32 \<Rightarrow> 'f map_gen \<Rightarrow> bool" where
  "current_is t m \<longleftrightarrow> (\<exists>c. mg_current m = Some c \<and> te_id (mg_heap m c) = t \<and> c < mg_fresh m \<and> mg_world m \<noteq> Some c)"

definition finished_tile :: "map_data \<Rightarrow> u32 \<Rightarrow> 'f map_gen \<Rightarrow> bool" where
  "finished_tile data t m \<longleftrightarrow> has_world data m \<and> is_tile data t \<and> uint t = int (length (mg_terrains m)) \<and>
     (\<exists>c. mg_current m = Some c \<and> map_of (mg_terrains m) t = Some c) \<and>
     (\<exists>h. mg_mem m World_Heights = Some h \<and> tile_of data h (mg_splat m) t (mg_hcopy m) (mg_scopy m))"

definition calling :: "'f map_run \<Rightarrow> bool" where
  "calling s \<longleftrightarrow> (\<exists>t. rn_game s = G_Callback t)"

definition waiting :: "'f map_run \<Rightarrow> u32 list" where
  "waiting s = lq_items (mg_queue (rn_map s))"

fun worker_ok :: "map_data \<Rightarrow> map_worker \<Rightarrow> 'f map_run \<Rightarrow> bool" where
  "worker_ok data W_Start s = (sized data (rn_map s) \<and> mg_terrains (rn_map s) = [])"
| "worker_ok data W_Loop s = (waiting s = [] \<and> (has_world data (rn_map s) \<and> int (length (mg_terrains (rn_map s))) < tiles_per_edge data * tiles_per_edge data \<or>
     \<not> mg_run (rn_map s) \<and> mg_terrains (rn_map s) = []))"
| "worker_ok data W_Lock s = (waiting s = [] \<and> has_world data (rn_map s) \<and> int (length (mg_terrains (rn_map s))) < tiles_per_edge data * tiles_per_edge data)"
| "worker_ok data (W_Begin t) s = (waiting s = [] \<and> has_world data (rn_map s) \<and> next_is data t (rn_map s) \<and> \<not> calling s)"
| "worker_ok data (W_Check t xy) s = (waiting s = [] \<and> has_world data (rn_map s) \<and> next_is data t (rn_map s) \<and> \<not> calling s \<and>
     uint (fst xy) = tile_x data t \<and> uint (snd xy) = tile_y data t \<and> current_is t (rn_map s))"
| "worker_ok data (W_Copy t xy) s = (waiting s = [] \<and> has_world data (rn_map s) \<and> next_is data t (rn_map s) \<and> \<not> calling s \<and>
     uint (fst xy) = tile_x data t \<and> uint (snd xy) = tile_y data t \<and> current_is t (rn_map s))"
| "worker_ok data (W_Wait t) s = (has_world data (rn_map s) \<and> (uint t = int (length (mg_terrains (rn_map s))) \<or> \<not> mg_run (rn_map s) \<and> waiting s = []))"
| "worker_ok data W_Done s = (\<not> mg_run (rn_map s) \<and>
     (rn_stopped s \<or> int (length (mg_terrains (rn_map s))) = tiles_per_edge data * tiles_per_edge data))"

definition run_ok :: "map_data \<Rightarrow> 'f map_run \<Rightarrow> bool" where
  "run_ok data s \<longleftrightarrow> \<not> lq_held (mg_queue (rn_map s)) \<and> registered data (rn_map s) \<and> rn_taken s @ waiting s = tiles (length (mg_terrains (rn_map s))) \<and>
     (\<forall>t. rn_game s = G_Callback t \<longrightarrow> waiting s = [] \<and> finished_tile data t (rn_map s)) \<and>
     (waiting s \<noteq> [] \<longrightarrow> \<not> calling s \<and> (\<exists>t. waiting s = [t] \<and> finished_tile data t (rn_map s))) \<and>
     (mg_run (rn_map s) \<or> rn_stopped s \<or> rn_worker s = W_Done) \<and> worker_ok data (rn_worker s) s"

text \<open>What may change without harm to the tiles.\<close>

definition harmless :: "'f map_gen \<Rightarrow> 'f map_gen \<Rightarrow> bool" where
  "harmless m m' \<longleftrightarrow> mg_terrains m' = mg_terrains m \<and> mg_world m' = mg_world m \<and> mg_current m' = mg_current m \<and> mg_fresh m' = mg_fresh m \<and>
     mg_painter m' = mg_painter m \<and> mg_splat m' = mg_splat m \<and> mg_hcopy m' = mg_hcopy m \<and> mg_scopy m' = mg_scopy m \<and> mg_data m' = mg_data m \<and>
     mg_total m' = mg_total m \<and> mg_mem m' World_Heights = mg_mem m World_Heights \<and> (\<forall>r. te_id (mg_heap m' r) = te_id (mg_heap m r)) \<and>
     (\<forall>w. mg_world m = Some w \<longrightarrow> te_n (mg_heap m' w) = te_n (mg_heap m w))"

lemma harmless_has_world: "harmless m m' \<Longrightarrow> has_world data m \<Longrightarrow> has_world data m'"
  by (auto simp: harmless_def has_world_def sized_def world_terrain_def heights_done_def splats_done_def)

lemma harmless_sized: "harmless m m' \<Longrightarrow> sized data m \<Longrightarrow> sized data m'"
  by (auto simp: harmless_def sized_def)

lemma harmless_finished: "harmless m m' \<Longrightarrow> finished_tile data t m \<Longrightarrow> finished_tile data t m'"
  using harmless_has_world [of m m' data] by (auto simp: harmless_def finished_tile_def)

lemma harmless_registered: "harmless m m' \<Longrightarrow> registered data m \<Longrightarrow> registered data m'"
  by (simp add: harmless_def registered_def)

lemma harmless_current: "harmless m m' \<Longrightarrow> current_is t m \<Longrightarrow> current_is t m'"
  by (simp add: harmless_def current_is_def)

lemma harmless_next: "harmless m m' \<Longrightarrow> next_is data t m \<Longrightarrow> next_is data t m'"
  by (simp add: harmless_def next_is_def)

lemmas harmless_facts = harmless_has_world harmless_sized harmless_finished harmless_registered harmless_current harmless_next

text \<open>A step of the game that takes nothing from the queue.\<close>

lemma run_ok_harmless:
  assumes ok: "run_ok data s" and h: "harmless (rn_map s) m"
    and same: "mg_queue m = mg_queue (rn_map s)" "mg_run m \<longrightarrow> mg_run (rn_map s)" "\<not> mg_run m \<longrightarrow> st \<or> \<not> mg_run (rn_map s)" "rn_stopped s \<longrightarrow> st"
    and g: "calling (s\<lparr>rn_game := g\<rparr>) \<longrightarrow> g = rn_game s"
  shows "run_ok data (s\<lparr>rn_map := m, rn_game := g, rn_stopped := st\<rparr>)"
proof -
  let ?s = "s\<lparr>rn_map := m, rn_game := g, rn_stopped := st\<rparr>"
  have w: "waiting ?s = waiting s" using same(1) by (simp add: waiting_def)
  have t: "mg_terrains m = mg_terrains (rn_map s)" using h by (simp add: harmless_def)
  have c: "calling ?s \<longrightarrow> calling s" using g by (auto simp: calling_def)
  have "worker_ok data (rn_worker s) ?s"
    using ok c same(2-4) harmless_facts [OF h] unfolding run_ok_def by (cases "rn_worker s") (auto simp: w t)
  then show ?thesis
    using ok c same harmless_facts [OF h] g unfolding run_ok_def w by (auto simp: t w calling_def)
qed

section \<open>The main thread\<close>

lemma memcpy_keeps: "memcpy dst src n mem = Some mem' \<Longrightarrow> b \<noteq> dst \<Longrightarrow> mem' b = mem b"
  by (auto simp: memcpy_def split: Option.bind_splits if_splits)

lemma te_Init_id [simp]: "te_id (te_Init hm n t) = te_id t"
  by (simp add: te_Init_def Let_def)

lemma InitTerrain_harmless:
  assumes reg: "registered data m" and b: "hm \<noteq> Some World_Heights" "sm \<noteq> Some World_Heights"
    and run: "mg_InitTerrain u hm n sm width cnt m = Some m'"
  shows "harmless m m' \<and> mg_queue m' = mg_queue m \<and> mg_run m' = mg_run m"
proof (cases "m' = m")
  case True
  then show ?thesis by (simp add: harmless_def)
next
  case False
  then obtain h w r mem mem' where e: "hm = Some h" "sm = Some w" "mg_GetTerrain u m = Some r"
    "m' = (mg_update r (te_Init hm (sint n)) m)\<lparr>mg_mem := mem'\<rparr>" "\<exists>k. memcpy h (mg_hcopy m) k (mg_mem m) = Some mem" "\<exists>k. memcpy w (mg_scopy m) k mem = Some mem'"
    using run unfolding mg_InitTerrain_def by (fastforce simp: mg_update_def Let_def split: option.splits if_splits Option.bind_splits)
  have "(u, r) \<in> set (mg_terrains m)" using e(3) by (simp add: mg_GetTerrain_def map_of_SomeD)
  then have "mg_world m \<noteq> Some r" using reg by (auto simp: registered_def)
  moreover have "mem' World_Heights = mg_mem m World_Heights"
    using e(1,2,5,6) b memcpy_keeps [of h "mg_hcopy m" _ "mg_mem m" mem World_Heights] memcpy_keeps [of w "mg_scopy m" _ mem mem' World_Heights] by auto
  ultimately show ?thesis unfolding e(4) by (auto simp: harmless_def mg_update_def)
qed

lemma take_ok:
  assumes ok: "run_ok data s" and n: "lq_next (mg_queue (rn_map s)) = Some (Some t, q)"
    and g: "g = G_Callback t \<or> g = G_Update" and upd: "rn_game s = G_Update"
  shows "run_ok data (s\<lparr>rn_map := (rn_map s)\<lparr>mg_queue := q\<rparr>, rn_game := g, rn_taken := rn_taken s @ [t]\<rparr>)" "finished_tile data t (rn_map s)"
proof -
  let ?s = "s\<lparr>rn_map := (rn_map s)\<lparr>mg_queue := q\<rparr>, rn_game := g, rn_taken := rn_taken s @ [t]\<rparr>"
  have q: "waiting s = t # lq_items q" "lq_held q = lq_held (mg_queue (rn_map s))"
    using n by (auto simp: lq_next_def waiting_def split: if_splits list.splits)
  obtain u where u: "waiting s = [u]" "finished_tile data u (rn_map s)" using ok q(1) unfolding run_ok_def by auto
  then have one: "waiting s = [t]" "finished_tile data t (rn_map s)" "lq_items q = []" using q(1) by simp_all
  then show "finished_tile data t (rn_map s)" by simp
  have h: "harmless (rn_map s) ((rn_map s)\<lparr>mg_queue := q\<rparr>)" by (simp add: harmless_def)
  have w: "waiting ?s = []" using one(3) by (simp add: waiting_def)
  have "worker_ok data (rn_worker s) ?s"
    using ok one(1) harmless_facts [OF h] w unfolding run_ok_def by (cases "rn_worker s") auto
  moreover have "finished_tile data t' (rn_map ?s)" if "rn_game ?s = G_Callback t'" for t'
    using that g harmless_finished [OF h one(2)] by auto
  moreover have "rn_taken ?s @ waiting ?s = tiles (length (mg_terrains (rn_map ?s)))" using ok one(1) w by (simp add: run_ok_def)
  ultimately show "run_ok data ?s" using ok q(2) harmless_registered [OF h] unfolding run_ok_def w by simp
qed

lemma game_run_ok:
  assumes "game_run s s'" "run_ok data s" shows "run_ok data s'"
  using assms
proof (induction rule: game_run.induct)
  case (stop s)
  have "run_ok data (s\<lparr>rn_map := mg_Stop (rn_map s), rn_game := rn_game s, rn_stopped := True\<rparr>)"
    by (rule run_ok_harmless [OF stop]) (simp_all add: mg_Stop_def harmless_def)
  then show ?case by simp
next
  case (set_callback s cb)
  have "run_ok data (s\<lparr>rn_map := mg_SetCallBack cb (rn_map s), rn_game := rn_game s, rn_stopped := rn_stopped s\<rparr>)"
    by (rule run_ok_harmless [OF set_callback(2)]) (simp_all add: mg_SetCallBack_def harmless_def)
  then show ?case by simp
next
  case (own_buffers mem s)
  have "run_ok data (s\<lparr>rn_map := (rn_map s)\<lparr>mg_mem := mem\<rparr>, rn_game := rn_game s, rn_stopped := rn_stopped s\<rparr>)"
    by (rule run_ok_harmless [OF own_buffers(2)]) (simp_all add: harmless_def own_buffers(1))
  then show ?case by simp
next
  case (update s)
  have "run_ok data (s\<lparr>rn_map := rn_map s, rn_game := G_Update, rn_stopped := rn_stopped s\<rparr>)"
    by (rule run_ok_harmless [OF update(2)]) (simp_all add: harmless_def calling_def)
  then show ?case by simp
next
  case (tell s t q c)
  then show ?case using take_ok(1) [of data s t q "G_Callback t"] by simp
next
  case (ignore s t q)
  have "run_ok data (s\<lparr>rn_map := (rn_map s)\<lparr>mg_queue := q\<rparr>, rn_game := G_Update, rn_taken := rn_taken s @ [t]\<rparr>)"
    by (rule take_ok(1) [OF ignore(4,2) _ ignore(1)]) simp
  then show ?case using ignore(1) by (cases s) simp
next
  case (updated s q)
  have q: "q = mg_queue (rn_map s)" using updated(2) by (auto simp: lq_next_def split: if_splits list.splits)
  have "run_ok data (s\<lparr>rn_map := (rn_map s)\<lparr>mg_queue := q\<rparr>, rn_game := G_Idle, rn_stopped := rn_stopped s\<rparr>)"
    by (rule run_ok_harmless [OF updated(3)]) (simp_all add: harmless_def q calling_def)
  then show ?case by simp
next
  case (fetch s t hm sm u n width cnt m)
  have h: "harmless (rn_map s) m" "mg_queue m = mg_queue (rn_map s)" "mg_run m = mg_run (rn_map s)"
    using InitTerrain_harmless [OF _ fetch(2,3,4), of data] fetch(5) unfolding run_ok_def by blast+
  have "run_ok data (s\<lparr>rn_map := m, rn_game := rn_game s, rn_stopped := rn_stopped s\<rparr>)"
    by (rule run_ok_harmless [OF fetch(5) h(1,2)]) (simp_all add: h(3))
  then show ?case by simp
next
  case (callback_done s t)
  have "run_ok data (s\<lparr>rn_map := rn_map s, rn_game := G_Update, rn_stopped := rn_stopped s\<rparr>)"
    by (rule run_ok_harmless [OF callback_done(2)]) (simp_all add: harmless_def calling_def)
  then show ?case by simp
qed

section \<open>The worker\<close>

lemma tiles_Suc: "tiles (Suc n) = tiles n @ [of_nat (n + 1)]"
  by (simp add: tiles_def)

lemma area_small:
  assumes c: "map_config_ok data" shows "tiles_per_edge data * tiles_per_edge data \<le> 2 ^ 26" "1 \<le> tiles_per_edge data * tiles_per_edge data"
proof -
  have p: "1 \<le> tiles_per_edge data" "tiles_per_edge data \<le> 2 ^ 13" using config_facts(4,5) [OF c] .
  then have "tiles_per_edge data * tiles_per_edge data \<le> 2 ^ 13 * 2 ^ 13" by (intro mult_mono) simp_all
  then show "tiles_per_edge data * tiles_per_edge data \<le> 2 ^ 26" by simp
  show "1 \<le> tiles_per_edge data * tiles_per_edge data" using mult_mono [of 1 "tiles_per_edge data" 1 "tiles_per_edge data"] p by simp
qed

lemma uint_count:
  assumes "int n < 2 ^ 32" shows "uint (of_nat n :: u32) = int n"
  using uint_small [of "int n"] assms by simp

text \<open>A tile that is new is not registered yet.\<close>

lemma next_new:
  assumes c: "map_config_ok data" and n: "next_is data t m" and reg: "registered data m"
  shows "t = of_nat (length (mg_terrains m) + 1)" "t \<notin> set (map fst (mg_terrains m))"
proof -
  let ?n = "length (mg_terrains m)"
  have u: "uint t = int ?n + 1" and le: "int ?n + 1 \<le> 2 ^ 26" using n area_small(1) [OF c] by (simp_all add: next_is_def is_tile_def)
  have "of_nat (nat (uint t)) = t" by simp
  then show t: "t = of_nat (?n + 1)" unfolding u by (simp add: nat_add_distrib)
  have "t \<noteq> of_nat k" if "k \<in> {1..<?n + 1}" for k
  proof
    assume "t = of_nat k"
    then have "uint t = int k" using uint_count [of k] that le by simp
    then show False using u that by simp
  qed
  then have "t \<notin> of_nat ` {1..<?n + 1}" by blast
  then have "t \<notin> set (tiles ?n)" by (simp only: tiles_def set_map set_upt not_False_eq_True)
  then show "t \<notin> set (map fst (mg_terrains m))" using reg unfolding registered_def by (simp only: not_False_eq_True)
qed

lemma finish_ok:
  assumes ok: "run_ok data s" and "rn_stopped s \<or> int (length (mg_terrains (rn_map s))) = tiles_per_edge data * tiles_per_edge data"
  shows "run_ok data (work_finish s)"
proof -
  have h: "harmless (rn_map s) ((rn_map s)\<lparr>mg_run := False, mg_exited := True\<rparr>)" by (simp add: harmless_def)
  show ?thesis using ok assms(2) harmless_facts [OF h] unfolding run_ok_def work_finish_def waiting_def calling_def by auto
qed

lemma world_run_ok:
  assumes c: "map_config_ok data" and num: "numbers_ok env data" and ok: "run_ok data s" and st: "rn_worker s = W_Start"
    and gen: "GenWorldMap (env\<lparr>ge_stop := p\<rparr>) (rn_map s) = Some (go, m)"
    and kind: "(\<forall>k. \<not> p k) \<and> b \<or> \<not> b"
  shows "run_ok data (s\<lparr>rn_map := m\<lparr>mg_exited := False, mg_run := b \<and> mg_run m\<rparr>, rn_worker := W_Loop, rn_stopped := rn_stopped s \<or> \<not> b\<rparr>)"
proof -
  have ok': "sized data (rn_map s)" "mg_terrains (rn_map s) = []" "waiting s = []" "rn_taken s = []" "\<not> lq_held (mg_queue (rn_map s))"
    "mg_run (rn_map s) \<or> rn_stopped s"
    using ok unfolding run_ok_def st by (auto simp: tiles_def)
  have nc: "\<not> calling s" using ok ok'(2) unfolding run_ok_def calling_def finished_tile_def by (auto simp: is_tile_def)
  have num': "numbers_ok (env\<lparr>ge_stop := p\<rparr>) data" using num by (subst numbers_arith [of _ env]) simp_all
  have g: "kept (rn_map s) m" "(\<forall>k. \<not> p k) \<longrightarrow> go" "go \<longrightarrow> has_world data m"
    using GenWorldMap_ok [OF c num' ok'(1)] gen by (auto simp: has_world_def)
  have k: "mg_terrains m = []" "mg_queue m = mg_queue (rn_map s)" "mg_run m = mg_run (rn_map s)" using g(1) ok'(2) by (simp_all add: kept_def)
  have h: "harmless m (m\<lparr>mg_exited := False, mg_run := b \<and> mg_run m\<rparr>)" by (simp add: harmless_def)
  have "worker_ok data W_Loop (s\<lparr>rn_map := m\<lparr>mg_exited := False, mg_run := b \<and> mg_run m\<rparr>, rn_worker := W_Loop, rn_stopped := rn_stopped s \<or> \<not> b\<rparr>)"
    using kind g(2,3) harmless_has_world [OF h, of data] k ok'(3) area_small(2) [OF c] by (auto simp: waiting_def)
  then show ?thesis using ok'(3-6) k nc area_small(2) [OF c] unfolding run_ok_def
    by (auto simp: waiting_def registered_def tiles_def calling_def)
qed

lemma begin_run_ok:
  assumes c: "map_config_ok data" and ok: "run_ok data s" and w: "rn_worker s = W_Begin t" and b: "tile_begin env t (rn_map s) = Some (xy, m)"
  shows "run_ok data (s\<lparr>rn_map := m, rn_worker := W_Check t xy\<rparr>)"
proof -
  have wk: "waiting s = []" "has_world data (rn_map s)" "next_is data t (rn_map s)" "\<not> calling s" using ok unfolding run_ok_def w by simp_all
  then have t: "is_tile data t" "sized data (rn_map s)" "world_terrain data (rn_map s)" by (simp_all add: next_is_def has_world_def)
  have m: "uint (fst xy) = tile_x data t" "uint (snd xy) = tile_y data t"
    "m = (rn_map s)\<lparr>mg_cur := t, mg_heap := mg_heap m, mg_fresh := mg_fresh (rn_map s) + 1, mg_current := Some (mg_fresh (rn_map s))\<rparr>"
    "te_id (mg_heap m (mg_fresh (rn_map s))) = t" "\<forall>r. r \<noteq> mg_fresh (rn_map s) \<longrightarrow> mg_heap m r = mg_heap (rn_map s) r"
    using tile_begin_ok [OF c t(2,3,1), of env] b by auto
  have same: "mg_terrains m = mg_terrains (rn_map s)" "mg_world m = mg_world (rn_map s)" "mg_queue m = mg_queue (rn_map s)" "mg_run m = mg_run (rn_map s)"
    "mg_fresh m = mg_fresh (rn_map s) + 1" "mg_current m = Some (mg_fresh (rn_map s))"
    by (subst m(3), simp)+
  obtain r where r: "mg_world (rn_map s) = Some r" "r < mg_fresh (rn_map s)" "te_n (mg_heap (rn_map s) r) = world_max data + 1"
    using t(3) by (auto simp: world_terrain_def)
  have "world_terrain data m" using r m(5) same(2,5) by (simp add: world_terrain_def)
  moreover have "sized data m" "heights_done data m" "splats_done m"
    using wk(2) by (subst m(3), simp add: has_world_def sized_def heights_done_def splats_done_def)+
  ultimately have hw: "has_world data m" by (simp add: has_world_def)
  have reg: "registered data m" using ok m(5) same(1,2,5) unfolding run_ok_def registered_def by fastforce
  have cur: "current_is t m" using m(4) r(1,2) same(2,5,6) by (simp add: current_is_def)
  show ?thesis using ok wk m(1,2) hw reg cur same unfolding run_ok_def w by (auto simp: waiting_def calling_def next_is_def)
qed

text \<open>A copy, in a state that can be reached.\<close>

lemma copy_step:
  assumes c: "map_config_ok data" and ok: "run_ok data s" and w: "rn_worker s = W_Copy t xy"
  defines "m \<equiv> rn_map s"
  obtains r h hc sc where "mg_current m = Some r" "te_id (mg_heap m r) = t" "r < mg_fresh m" "mg_world m \<noteq> Some r" "mg_mem m World_Heights = Some h"
    "tile_copy t xy m = Some (m\<lparr>mg_hcopy := hc, mg_scopy := sc, mg_terrains := insert_terrain t r (mg_terrains m), mg_queue := (mg_queue m)\<lparr>lq_items := [t]\<rparr>\<rparr>)"
    "tile_of data h (mg_splat m) t hc sc"
proof -
  have wk: "waiting s = []" "has_world data m" "next_is data t m" "uint (fst xy) = tile_x data t" "uint (snd xy) = tile_y data t"
    "current_is t m" using ok unfolding run_ok_def w m_def by simp_all
  then have t: "is_tile data t" "sized data m" "world_terrain data m" "heights_done data m" "splats_done m" by (simp_all add: next_is_def has_world_def)
  have held: "\<not> lq_held (mg_queue m)" using ok unfolding run_ok_def m_def by simp
  obtain r where r: "mg_current m = Some r" "te_id (mg_heap m r) = t" "r < mg_fresh m" "mg_world m \<noteq> Some r" using wk(6) by (auto simp: current_is_def)
  obtain h where h: "mg_mem m World_Heights = Some h" using t(4) by (auto simp: heights_done_def)
  have "lq_add t (mg_queue m) = Some ((mg_queue m)\<lparr>lq_items := [t]\<rparr>)"
    using held wk(1) by (simp add: lq_add_def lq_lock_def lq_unlock_def waiting_def m_def)
  from tile_copy_ok [OF c t(2-5,1) wk(4,5) r(1) this h] that [OF r h] show thesis by blast
qed

lemma copy_run_ok:
  assumes c: "map_config_ok data" and ok: "run_ok data s" and w: "rn_worker s = W_Copy t xy" and b: "tile_copy t xy (rn_map s) = Some m"
  shows "run_ok data (s\<lparr>rn_map := m, rn_worker := W_Wait t\<rparr>)"
proof -
  let ?m = "rn_map s" and ?n = "length (mg_terrains (rn_map s))"
  obtain r h hc sc where r: "mg_current ?m = Some r" "te_id (mg_heap ?m r) = t" "r < mg_fresh ?m" "mg_world ?m \<noteq> Some r" and h: "mg_mem ?m World_Heights = Some h"
    and cp: "tile_copy t xy ?m = Some (?m\<lparr>mg_hcopy := hc, mg_scopy := sc, mg_terrains := insert_terrain t r (mg_terrains ?m), mg_queue := (mg_queue ?m)\<lparr>lq_items := [t]\<rparr>\<rparr>)"
    and cut: "tile_of data h (mg_splat ?m) t hc sc" using copy_step [OF c ok w] by metis
  have m: "m = ?m\<lparr>mg_hcopy := hc, mg_scopy := sc, mg_terrains := insert_terrain t r (mg_terrains ?m), mg_queue := (mg_queue ?m)\<lparr>lq_items := [t]\<rparr>\<rparr>"
    using b unfolding cp by simp
  have wk: "waiting s = []" "has_world data ?m" "next_is data t ?m" "\<not> calling s" using ok unfolding run_ok_def w by simp_all
  then have t: "is_tile data t" "sized data ?m" "world_terrain data ?m" "heights_done data ?m" "splats_done ?m" by (simp_all add: next_is_def has_world_def)
  have reg: "registered data ?m" and held: "\<not> lq_held (mg_queue ?m)" using ok unfolding run_ok_def by simp_all
  note new = next_new [OF c wk(3) reg]
  have T: "mg_terrains m = mg_terrains ?m @ [(t, r)]" unfolding m using new(2) by (simp add: insert_terrain_def)
  have lens: "int (length hc) = (tile_max data + 1) * (tile_max data + 1)" "int (length sc) = (tile_max data + 1) * (tile_max data + 1) * uint (md_splatCount data)"
    using cut by (simp_all add: tile_of_def Let_def)
  have hw: "has_world data m" using t lens unfolding has_world_def m by (simp add: sized_def world_terrain_def heights_done_def splats_done_def)
  have u: "uint t = int ?n + 1" "uint t \<le> tiles_per_edge data * tiles_per_edge data" using wk(3) by (simp_all add: next_is_def is_tile_def)
  have reg': "registered data m" using reg r u new(1) unfolding registered_def T by (auto simp: m tiles_Suc)
  have "map_of (mg_terrains ?m) t = None" using new(2) by (simp add: map_of_eq_None_iff)
  then have fin: "finished_tile data t m" unfolding finished_tile_def T using hw t(1) u(1) r(1) h cut by (simp add: m map_add_def)
  have wait: "waiting (s\<lparr>rn_map := m, rn_worker := W_Wait t\<rparr>) = [t]" by (simp add: waiting_def m)
  have taken: "rn_taken s @ [t] = tiles (length (mg_terrains m))" using ok wk(1) new(1) unfolding T run_ok_def by (simp add: tiles_Suc)
  have "mg_run m = mg_run ?m" "\<not> lq_held (mg_queue m)" using held by (simp_all add: m)
  then show ?thesis using ok wk(4) reg' fin taken u(1) hw unfolding run_ok_def wait by (auto simp: calling_def w T)
qed

lemma work_run_ok:
  assumes c: "map_config_ok data" and num: "numbers_ok env data"
  shows "work_run env s s' \<Longrightarrow> run_ok data s \<Longrightarrow> run_ok data s'"
proof (induction rule: work_run.induct)
  case (world s go m)
  have "run_ok data (s\<lparr>rn_map := m\<lparr>mg_exited := False, mg_run := True \<and> mg_run m\<rparr>, rn_worker := W_Loop, rn_stopped := rn_stopped s \<or> \<not> True\<rparr>)"
    by (rule world_run_ok [OF c num world(4,1,3)]) simp
  then show ?case by simp
next
  case (world_stopped s p go m)
  have "run_ok data (s\<lparr>rn_map := m\<lparr>mg_exited := False, mg_run := False \<and> mg_run m\<rparr>, rn_worker := W_Loop, rn_stopped := rn_stopped s \<or> \<not> False\<rparr>)"
    by (rule world_run_ok [OF c num world_stopped(4,1,3)]) simp
  then show ?case by simp
next
  case (no_world s)
  have h: "harmless (rn_map s) ((rn_map s)\<lparr>mg_exited := False\<rparr>)" by (simp add: harmless_def)
  have "waiting s = []" "\<not> calling s" using no_world unfolding run_ok_def finished_tile_def calling_def by (auto simp: tiles_def is_tile_def)
  then show ?case using no_world harmless_facts [OF h] unfolding run_ok_def by (auto simp: waiting_def calling_def)
next
  case (again s)
  then show ?case unfolding run_ok_def by (auto simp: waiting_def calling_def)
next
  case (enough s)
  then have "rn_stopped s" unfolding run_ok_def by auto
  then show ?case using finish_ok [OF enough(3)] by simp
next
  case (initilize_next s t)
  have wk: "waiting s = []" "has_world data (rn_map s)" "int (length (mg_terrains (rn_map s))) < tiles_per_edge data * tiles_per_edge data"
    using initilize_next(4) unfolding run_ok_def initilize_next(1) by simp_all
  have "uint t = int (length (mg_terrains (rn_map s)) + 1)"
    using uint_count [of "length (mg_terrains (rn_map s)) + 1"] wk(3) area_small(1) [OF c] initilize_next(3) by (simp add: InitilizeNext_def add.commute)
  then have t: "uint t = int (length (mg_terrains (rn_map s))) + 1" "t > 0" by (simp_all add: word_less_def)
  then have "next_is data t (rn_map s)" using wk(3) by (simp add: next_is_def is_tile_def)
  then show ?case using initilize_next(2,4) t(2) wk unfolding run_ok_def by (auto simp: waiting_def calling_def)
next
  case (begin_tile s t xy m)
  then show ?case using begin_run_ok [OF c] by blast
next
  case (go_on s t xy)
  then show ?case unfolding run_ok_def by (auto simp: waiting_def calling_def)
next
  case (give_up s t xy)
  then show ?case unfolding run_ok_def by (auto simp: waiting_def calling_def)
next
  case (copy s t xy m)
  then show ?case using copy_run_ok [OF c] by blast
next
  case (wait_stopped s t)
  then have "rn_stopped s" unfolding run_ok_def by auto
  then show ?case using finish_ok [OF wait_stopped(3)] by simp
next
  case (next_tile s t)
  have "has_world data (rn_map s)" "uint t = int (length (mg_terrains (rn_map s)))" using next_tile unfolding run_ok_def by auto
  moreover from this have "uint t < tiles_per_edge data * tiles_per_edge data" using next_tile(4) by (simp add: has_world_def sized_def word_less_def)
  moreover have "waiting s = []" using next_tile(3) by (simp add: lq_empty_def waiting_def split: if_splits)
  ultimately show ?case using next_tile unfolding run_ok_def by (auto simp: waiting_def calling_def)
next
  case (all_tiles s t)
  have "has_world data (rn_map s)" "uint t = int (length (mg_terrains (rn_map s)))" "registered data (rn_map s)" using all_tiles unfolding run_ok_def by auto
  then have "int (length (mg_terrains (rn_map s))) = tiles_per_edge data * tiles_per_edge data"
    using all_tiles(4) by (simp add: has_world_def sized_def word_less_def registered_def)
  then show ?case using finish_ok [OF all_tiles(5)] by simp
qed

lemma start_run_ok:
  assumes "sized data m" "mg_terrains m = []" "mg_queue m = lq_new" "1 \<le> tiles_per_edge data * tiles_per_edge data"
  shows "run_ok data (run_start m)"
  using assms by (simp add: run_ok_def run_start_def mg_StartRun_def registered_def tiles_def waiting_def calling_def lq_new_def sized_def)

lemma reach_run_ok:
  assumes c: "map_config_ok data" and num: "numbers_ok env data" and s0: "run_ok data s0"
  shows "run_reach env s0 s \<Longrightarrow> run_ok data s"
proof (induction rule: run_reach.induct)
  case run_init
  then show ?case by (rule s0)
next
  case (run_work s s')
  then show ?case using work_run_ok [OF c num] by blast
next
  case (run_game s s')
  then show ?case using game_run_ok by blast
qed

end
