(* ===== verification/Map_Properties.thy ===== *)
theory Map_Properties
  imports Map_Worker
begin

text \<open>
  What the game gets from the map generator.
\<close>

section \<open>One tile after the other\<close>

lemma run_reach_trans: "run_reach env s1 s2 \<Longrightarrow> run_reach env s0 s1 \<Longrightarrow> run_reach env s0 s2"
  by (induction rule: run_reach.induct) (auto intro: run_reach.intros)

text \<open>The worker is about to begin the next tile, and the game waits for it.\<close>

definition ready :: "map_data \<Rightarrow> nat \<Rightarrow> 'f map_run \<Rightarrow> bool" where
  "ready data n s \<longleftrightarrow> run_ok data s \<and> rn_worker s = W_Loop \<and> rn_game s = G_Idle \<and> mg_run (rn_map s) \<and> mg_cb (rn_map s) \<and> \<not> rn_stopped s \<and>
     length (mg_terrains (rn_map s)) = n"

lemma reach_callback:
  assumes c: "map_config_ok data" and num: "numbers_ok env data" and s: "ready data n s"
  obtains s' where "run_reach env s s'" "rn_game s' = G_Callback (of_nat (n + 1))" "rn_worker s' = W_Wait (of_nat (n + 1))" "run_ok data s'"
    "mg_run (rn_map s')" "mg_cb (rn_map s')" "\<not> rn_stopped s'" "length (mg_terrains (rn_map s')) = n + 1"
proof -
  let ?t = "of_nat (n + 1) :: u32"
  have s': "run_ok data s" "rn_worker s = W_Loop" "rn_game s = G_Idle" "mg_run (rn_map s)" "mg_cb (rn_map s)" "\<not> rn_stopped s"
    "length (mg_terrains (rn_map s)) = n" using s by (simp_all add: ready_def)
  note step = work_run_ok [OF c num]
  let ?a = "s\<lparr>rn_worker := W_Lock\<rparr>" and ?b = "s\<lparr>rn_worker := W_Begin ?t\<rparr>"
  have a: "work_run env s ?a" by (rule again) (use s' in simp_all)
  have oka: "run_ok data ?a" by (rule step [OF a s'(1)])
  then have "int n < tiles_per_edge data * tiles_per_edge data" using s'(7) by (simp add: run_ok_def)
  then have "uint ?t = int (n + 1)" using uint_count [of "n + 1"] area_small(1) [OF c] by simp
  then have "?t > 0" by (simp add: word_less_def)
  then have b: "work_run env ?a ?b" using work_run.initilize_next [of ?a ?t env] s'(3,7) by (simp add: InitilizeNext_def add.commute)
  have okb: "run_ok data ?b" by (rule step [OF b oka])
  then have "sized data (rn_map s)" "world_terrain data (rn_map s)" "is_tile data ?t" by (simp_all add: run_ok_def has_world_def next_is_def)
  from tile_begin_ok [OF c this, of env] obtain xy m1 where m1: "tile_begin env ?t (rn_map s) = Some (xy, m1)"
    "m1 = (rn_map s)\<lparr>mg_cur := ?t, mg_heap := mg_heap m1, mg_fresh := mg_fresh (rn_map s) + 1, mg_current := Some (mg_fresh (rn_map s))\<rparr>" by blast
  let ?c = "s\<lparr>rn_map := m1, rn_worker := W_Check ?t xy\<rparr>" and ?d = "s\<lparr>rn_map := m1, rn_worker := W_Copy ?t xy\<rparr>"
  have r1: "mg_run m1" "mg_cb m1" "mg_terrains m1 = mg_terrains (rn_map s)" using s'(4,5) by (subst m1(2), simp)+
  have c': "work_run env ?b ?c" using begin_tile [of ?b ?t env xy m1] m1(1) by simp
  have okc: "run_ok data ?c" by (rule step [OF c' okb])
  have d: "work_run env ?c ?d" using go_on [of ?c ?t xy env] r1(1) by simp
  have okd: "run_ok data ?d" by (rule step [OF d okc])
  have wc: "rn_worker ?d = W_Copy ?t xy" "rn_map ?d = m1" by simp_all
  obtain r hc sc where cp: "mg_current m1 = Some r"
    "tile_copy ?t xy m1 = Some (m1\<lparr>mg_hcopy := hc, mg_scopy := sc, mg_terrains := insert_terrain ?t r (mg_terrains m1), mg_queue := (mg_queue m1)\<lparr>lq_items := [?t]\<rparr>\<rparr>)"
    using copy_step [OF c okd wc(1), unfolded wc(2)] by blast
  let ?m2 = "m1\<lparr>mg_hcopy := hc, mg_scopy := sc, mg_terrains := insert_terrain ?t r (mg_terrains m1), mg_queue := (mg_queue m1)\<lparr>lq_items := [?t]\<rparr>\<rparr>"
  let ?e = "s\<lparr>rn_map := ?m2, rn_worker := W_Wait ?t\<rparr>"
  have e: "work_run env ?d ?e" using copy [of ?d ?t xy ?m2 env] cp(2) s'(3) by simp
  have oke: "run_ok data ?e" by (rule step [OF e okd])
  have held: "\<not> lq_held (mg_queue ?m2)" using oke by (simp add: run_ok_def)
  let ?f = "?e\<lparr>rn_game := G_Update\<rparr>" and ?q = "(mg_queue m1)\<lparr>lq_items := []\<rparr>"
  let ?g = "?f\<lparr>rn_map := ?m2\<lparr>mg_queue := ?q\<rparr>, rn_game := G_Callback ?t, rn_taken := rn_taken s @ [?t]\<rparr>"
  have f: "game_run ?e ?f" using update [of ?e] s'(3) by simp
  have g: "game_run ?f ?g" using tell [of ?f ?t ?q r] held r1(2) cp(1) by (simp add: lq_next_def)
  have okf: "run_ok data ?f" by (rule game_run_ok [OF f oke])
  have okg: "run_ok data ?g" by (rule game_run_ok [OF g okf])
  have "run_reach env s ?g"
    using run_game [OF run_game [OF run_work [OF run_work [OF run_work [OF run_work [OF run_work [OF run_init a] b] c'] d] e] f] g] .
  moreover have "length (mg_terrains ?m2) = n + 1"
    using okg \<open>uint ?t = int (n + 1)\<close> by (simp add: run_ok_def finished_tile_def)
  ultimately show thesis using that [of ?g] okg r1(1,2) s'(6) by simp
qed

lemma reach_next:
  assumes c: "map_config_ok data" and num: "numbers_ok env data" and s: "ready data n s"
  obtains s' where "run_reach env s s'" "run_ok data s'" "waiting s' = []" "\<not> rn_stopped s'" "length (mg_terrains (rn_map s')) = n + 1"
    "if int (n + 1) < tiles_per_edge data * tiles_per_edge data then ready data (n + 1) s' else rn_worker s' = W_Done"
proof -
  let ?t = "of_nat (n + 1) :: u32"
  obtain s1 where s1: "run_reach env s s1" "rn_game s1 = G_Callback ?t" "rn_worker s1 = W_Wait ?t" "run_ok data s1"
    "mg_run (rn_map s1)" "mg_cb (rn_map s1)" "\<not> rn_stopped s1" "length (mg_terrains (rn_map s1)) = n + 1" by (rule reach_callback [OF c num s])
  let ?a = "s1\<lparr>rn_game := G_Update\<rparr>" and ?b = "s1\<lparr>rn_game := G_Idle\<rparr>"
  have w: "lq_items (mg_queue (rn_map s1)) = []" "\<not> lq_held (mg_queue (rn_map s1))" "finished_tile data ?t (rn_map s1)"
    using s1(2,4) unfolding run_ok_def waiting_def by auto
  then have t: "uint ?t = int (n + 1)" "sized data (rn_map s1)" using s1(8) by (simp_all add: finished_tile_def has_world_def)
  have a: "game_run s1 ?a" by (rule callback_done [OF s1(2)])
  have "game_run ?a (?a\<lparr>rn_map := (rn_map ?a)\<lparr>mg_queue := mg_queue (rn_map s1)\<rparr>, rn_game := G_Idle\<rparr>)"
    by (rule updated) (use w in \<open>simp_all add: lq_next_def\<close>)
  then have b: "game_run ?a ?b" by simp
  have okb: "run_ok data ?b" by (rule game_run_ok [OF b game_run_ok [OF a s1(4)]])
  have to_b: "run_reach env s ?b" by (rule run_game [OF run_game [OF s1(1) a] b])
  have empty: "lq_empty (mg_queue (rn_map ?b)) = Some True" using w by (simp add: lq_empty_def)
  have total: "?t < mg_total (rn_map ?b) \<longleftrightarrow> int (n + 1) < tiles_per_edge data * tiles_per_edge data" using t by (simp add: word_less_def sized_def)
  show thesis
  proof (cases "int (n + 1) < tiles_per_edge data * tiles_per_edge data")
    case True
    have st: "work_run env ?b (?b\<lparr>rn_worker := W_Loop\<rparr>)" by (rule next_tile [of _ ?t]) (use s1(3,5) empty total True in simp_all)
    have "run_ok data (?b\<lparr>rn_worker := W_Loop\<rparr>)" by (rule work_run_ok [OF c num st okb])
    then show thesis using that [of "?b\<lparr>rn_worker := W_Loop\<rparr>"] run_work [OF to_b st] True s1(5-8) w(1) by (simp add: ready_def waiting_def)
  next
    case False
    have st: "work_run env ?b (work_finish ?b)" by (rule all_tiles [of _ ?t]) (use s1(3,5) empty total False in simp_all)
    have "run_ok data (work_finish ?b)" by (rule work_run_ok [OF c num st okb])
    then show thesis using that [of "work_finish ?b"] run_work [OF to_b st] False s1(7,8) w(1) by (simp add: work_finish_def waiting_def)
  qed
qed

lemma reach_all:
  assumes c: "map_config_ok data" and num: "numbers_ok env data"
  shows "ready data n s \<Longrightarrow> int n + int d = tiles_per_edge data * tiles_per_edge data \<Longrightarrow> 0 < d \<Longrightarrow>
    \<exists>s'. run_reach env s s' \<and> rn_worker s' = W_Done \<and> \<not> rn_stopped s' \<and> rn_taken s' = tiles (n + d)"
proof (induction d arbitrary: n s)
  case (Suc d)
  obtain s1 where s1: "run_reach env s s1" "run_ok data s1" "waiting s1 = []" "\<not> rn_stopped s1" "length (mg_terrains (rn_map s1)) = n + 1"
    "if int (n + 1) < tiles_per_edge data * tiles_per_edge data then ready data (n + 1) s1 else rn_worker s1 = W_Done" by (rule reach_next [OF c num Suc.prems(1)])
  show ?case
  proof (cases "d = 0")
    case True
    then have "rn_worker s1 = W_Done" using s1(6) Suc.prems(2) by simp
    moreover have "rn_taken s1 = tiles (n + 1)" using s1(2,3,5) by (simp add: run_ok_def)
    ultimately show ?thesis using s1(1,4) True by (intro exI [of _ s1]) simp
  next
    case False
    then have "ready data (n + 1) s1" using s1(6) Suc.prems(2) by (simp split: if_splits)
    from Suc.IH [OF this] Suc.prems(2) False obtain s2 where s2: "run_reach env s1 s2" "rn_worker s2 = W_Done" "\<not> rn_stopped s2" "rn_taken s2 = tiles (n + 1 + d)" by auto
    then show ?thesis using run_reach_trans [OF s2(1) s1(1)] by (intro exI [of _ s2]) simp
  qed
qed simp

section \<open>What the game fetches\<close>

lemma memcpy_all:
  "mem dst = Some b \<Longrightarrow> length src = unat n \<Longrightarrow> length b = unat n \<Longrightarrow> memcpy dst src n mem = Some (mem(dst \<mapsto> src))"
  by (simp add: memcpy_def)

lemma unat_uint: "uint (v :: u32) = int k \<Longrightarrow> unat v = k"
  using nat_uint_eq [of v] by simp

lemma fetch_ok:
  assumes c: "map_config_ok data" and reg: "registered data m" and fin: "finished_tile data t m"
    and hw: "h \<noteq> w" "mg_mem m (Client h) = Some hb" "mg_mem m (Client w) = Some wb"
    and len: "length hb = length (mg_hcopy m)" "length wb = length (mg_scopy m)"
  shows "\<exists>m' r. mg_InitTerrain t (Some (Client h)) (md_singleMapSize data) (Some (Client w)) (md_splatWidth data) (md_splatCount data) m = Some m' \<and>
    mg_mem m' = (mg_mem m)(Client h \<mapsto> mg_hcopy m, Client w \<mapsto> mg_scopy m) \<and> mg_splat m' = mg_splat m \<and>
    mg_GetTerrain t m' = Some r \<and> te_id (mg_heap m' r) = t \<and> te_map (mg_heap m' r) = Some (Client h)"
proof -
  have sz: "sized data m" and cw: "md_splatWidth data = md_singleMapSize data" using fin c by (simp_all add: finished_tile_def has_world_def map_config_ok_def)
  then have data: "mg_data m = data" by (simp add: sized_def)
  let ?S = "md_singleMapSize data" and ?C = "md_splatCount data"
  have "uint (?S * ?S) = int (length (mg_hcopy m))" "uint (?S * ?S * ?C) = int (length (mg_scopy m))"
    using area_words(3,4) [OF c] sz by (simp_all add: sized_def)
  then have u: "unat (?S * ?S) = length (mg_hcopy m)" "unat (?S * ?S * ?C) = length (mg_scopy m)" by (simp_all only: unat_uint)
  obtain r where r: "mg_current m = Some r" "map_of (mg_terrains m) t = Some r" using fin by (auto simp: finished_tile_def)
  have id: "te_id (mg_heap m r) = t" using reg map_of_SomeD [OF r(2)] by (auto simp: registered_def)
  let ?m = "mg_update r (te_Init (Some (Client h)) (sint ?S)) m"
  let ?mem1 = "(mg_mem m)(Client h \<mapsto> mg_hcopy m)"
  let ?mem2 = "?mem1(Client w \<mapsto> mg_scopy m)"
  have c1: "memcpy (Client h) (mg_hcopy m) (?S * ?S) (mg_mem m) = Some ?mem1" by (rule memcpy_all [where b = hb]) (use u len hw in simp_all)
  have c2: "memcpy (Client w) (mg_scopy m) (?S * ?S * ?C) ?mem1 = Some ?mem2" by (rule memcpy_all [where b = wb]) (use u len hw in simp_all)
  have up: "mg_hcopy ?m = mg_hcopy m" "mg_scopy ?m = mg_scopy m" "mg_mem ?m = mg_mem m" "mg_data ?m = data" "mg_terrains ?m = mg_terrains m"
    "mg_splat ?m = mg_splat m" by (simp_all add: mg_update_def data)
  have "mg_InitTerrain t (Some (Client h)) ?S (Some (Client w)) (md_splatWidth data) ?C m = Some (?m\<lparr>mg_mem := ?mem2\<rparr>)"
    using r id c1 c2 unfolding mg_InitTerrain_def by (simp add: data mg_GetTerrain_def up cw Let_def)
  moreover have "te_map (mg_heap ?m r) = Some (Client h)" by (simp add: mg_update_def te_Init_def Let_def)
  moreover have "te_id (mg_heap ?m r) = t" using id by (simp add: mg_update_def)
  ultimately show ?thesis using r(2)
    by (intro exI [of _ "?m\<lparr>mg_mem := ?mem2\<rparr>"] exI [of _ r]) (simp add: up mg_GetTerrain_def)
qed

lemma filled_complete: "filled m \<Longrightarrow> None \<notin> set m"
proof
  assume f: "filled m" and n: "None \<in> set m"
  then obtain i where i: "i < length m" "m ! i = None" by (auto simp: in_set_conv_nth)
  then show False using f [unfolded filled_def, rule_format, of "int i"] by (simp add: map_read_def)
qed

text \<open>The start of the game: the generator is initialised and told where to report.\<close>

definition game_start :: "'f gen_env \<Rightarrow> map_data \<Rightarrow> 'f memory \<Rightarrow> gen_state \<Rightarrow> bool \<Rightarrow> 'f map_run option" where
  "game_start env data mem g cb = map_option (\<lambda>m. run_start (mg_SetCallBack cb m)) (mg_Init env data (mg_new (ge_fl env) mem g))"

lemma game_start_ok:
  assumes c: "map_config_ok data" and num: "numbers_ok env data"
  obtains m where "mg_Init env data (mg_new (ge_fl env) mem g) = Some m" "sized data m" "mg_terrains m = []" "mg_queue m = lq_new"
    "game_start env data mem g cb = Some (run_start (mg_SetCallBack cb m))" "run_ok data (run_start (mg_SetCallBack cb m))"
proof -
  obtain m where m: "mg_Init env data (mg_new (ge_fl env) mem g) = Some m" "sized data m" "mg_terrains m = []" "mg_queue m = lq_new"
    using Init_ok [OF c num, of "mg_new (ge_fl env) mem g"] by (auto simp: mg_new_def)
  have "run_ok data (run_start (mg_SetCallBack cb m))"
    by (rule start_run_ok) (use m area_small(2) [OF c] in \<open>simp_all add: mg_SetCallBack_def sized_def\<close>)
  then show thesis using that m by (simp add: game_start_def)
qed

text \<open>
  C19. The game gets its tile.  Whatever the two threads do, and wherever the generator is stopped, in the function that the game
  is called with for a tile it can fetch this tile into two buffers of the right size: the heights are those of the tile's square
  of the world map, which is complete, and the terrain of the tile refers to the buffer.
\<close>

theorem game_gets_its_tile:
  assumes "map_config_ok data" and "numbers_ok env data" and "game_start env data mem g cb = Some s0" and "run_reach env s0 s" and "rn_game s = G_Callback t"
    and "h \<noteq> w" and "mg_mem (rn_map s) (Client h) = Some hb" and "mg_mem (rn_map s) (Client w) = Some wb"
    and "int (length hb) = (tile_max data + 1) * (tile_max data + 1)" and "int (length wb) = (tile_max data + 1) * (tile_max data + 1) * uint (md_splatCount data)"
  shows "\<exists>m heights hb' wb' r. mg_InitTerrain t (Some (Client h)) (md_singleMapSize data) (Some (Client w)) (md_splatWidth data) (md_splatCount data) (rn_map s) = Some m \<and>
    mg_mem m World_Heights = Some heights \<and> None \<notin> set heights \<and> None \<notin> set (mg_splat m) \<and> mg_mem m (Client h) = Some hb' \<and> mg_mem m (Client w) = Some wb' \<and>
    tile_of data heights (mg_splat m) t hb' wb' \<and> mg_GetTerrain t m = Some r \<and> te_id (mg_heap m r) = t \<and> te_map (mg_heap m r) = Some (Client h)"
proof -
  have "run_ok data s0" using game_start_ok [OF assms(1,2), of mem g cb] assms(3) by (metis option.inject)
  then have ok: "run_ok data s" by (rule reach_run_ok [OF assms(1,2) _ assms(4)])
  then have fin: "finished_tile data t (rn_map s)" "registered data (rn_map s)" using assms(5) by (simp_all add: run_ok_def)
  then obtain hs where hs: "mg_mem (rn_map s) World_Heights = Some hs" "tile_of data hs (mg_splat (rn_map s)) t (mg_hcopy (rn_map s)) (mg_scopy (rn_map s))"
    "has_world data (rn_map s)" by (auto simp: finished_tile_def)
  then have "int (length hb) = int (length (mg_hcopy (rn_map s)))" "int (length wb) = int (length (mg_scopy (rn_map s)))"
    using assms(9,10) by (simp_all add: has_world_def sized_def)
  then have "length hb = length (mg_hcopy (rn_map s))" "length wb = length (mg_scopy (rn_map s))" by simp_all
  from fetch_ok [OF assms(1) fin(2,1) assms(6-8) this] obtain m r where
    m: "mg_InitTerrain t (Some (Client h)) (md_singleMapSize data) (Some (Client w)) (md_splatWidth data) (md_splatCount data) (rn_map s) = Some m"
    "mg_mem m = (mg_mem (rn_map s))(Client h \<mapsto> mg_hcopy (rn_map s), Client w \<mapsto> mg_scopy (rn_map s))" "mg_splat m = mg_splat (rn_map s)"
    "mg_GetTerrain t m = Some r" "te_id (mg_heap m r) = t" "te_map (mg_heap m r) = Some (Client h)" by blast
  have "None \<notin> set hs" "None \<notin> set (mg_splat (rn_map s))" using hs(1,3) filled_complete
    by (auto simp: has_world_def heights_done_def heights_ok_def splats_done_def)
  then show ?thesis using m hs(1,2) assms(6) by (intro exI [of _ m] exI [of _ hs] exI [of _ "mg_hcopy (rn_map s)"] exI [of _ "mg_scopy (rn_map s)"] exI [of _ r]) simp
qed

lemma first_ready:
  assumes c: "map_config_ok data" and num: "numbers_ok env data" and start: "game_start env data mem g True = Some s0"
  obtains s where "run_reach env s0 s" "ready data 0 s"
proof -
  obtain m where m: "sized data m" "mg_terrains m = []" "s0 = run_start (mg_SetCallBack True m)" "run_ok data s0"
    using game_start_ok [OF c num, of mem g True] start by (metis option.inject)
  have m0: "rn_map s0 = m\<lparr>mg_cb := True, mg_run := True\<rparr>" "rn_worker s0 = W_Start" "rn_game s0 = G_Idle" "\<not> rn_stopped s0"
    unfolding m(3) by (simp_all add: run_start_def mg_StartRun_def mg_SetCallBack_def)
  have "sized data (rn_map s0)" using m(1) unfolding m0 by (simp add: sized_def)
  moreover have "numbers_ok (env\<lparr>ge_stop := \<lambda>_. False\<rparr>) data" using num by (subst numbers_arith [of _ env]) simp_all
  ultimately obtain go m1 where m1: "GenWorldMap (env\<lparr>ge_stop := \<lambda>_. False\<rparr>) (rn_map s0) = Some (go, m1)" "kept (rn_map s0) m1"
    using GenWorldMap_ok [OF c] by blast
  let ?s = "s0\<lparr>rn_map := m1\<lparr>mg_exited := False\<rparr>, rn_worker := W_Loop\<rparr>"
  have st: "work_run env s0 ?s" by (rule world [OF m0(2) _ m1(1)]) (simp add: m0)
  have "run_ok data ?s" by (rule work_run_ok [OF c num st m(4)])
  then have "ready data 0 ?s" using m1(2) m0 m(2) by (simp add: ready_def kept_def)
  then show thesis using that [of ?s] run_work [OF run_init st] by blast
qed

text \<open>A small world: sixteen tiles of five by five cells, one weight a cell.\<close>

definition demo_data :: map_data where
  "demo_data = \<lparr>md_seed = 1, md_H = 50, md_I = 2, md_worldMapSize = 4, md_singleMapSize = 5, md_splatWidth = 5, md_splatCount = 1,
     md_height0 = 0, md_height1 = 1, md_height2 = 2, md_height3 = 3, md_flags = 0\<rparr>"

lemma demo_sizes: "world_max demo_data = 16" "tile_max demo_data = 4" "tiles_per_edge demo_data = 4"
  by (simp_all add: demo_data_def world_max_def tile_max_def tiles_per_edge_def)

lemma demo_map_config: "map_config_ok demo_data"
  unfolding map_config_ok_def demo_sizes by (simp add: demo_data_def)

lemma demo_map_numbers: "numbers_ok fixed_env demo_data"
proof -
  have "- 2147483648 \<le> x \<and> x < 2147483648" if "0 \<le> x \<and> x < 17" for x :: int using that by auto
  then have "splat_numbers fixed_env 17 17" by (simp add: splat_numbers_def drawable_def fixed_env_def fixed_point_def fits_def)
  then show ?thesis unfolding numbers_ok_def Let_def demo_sizes
    by (simp add: demo_data_def levels_ok_numeral rough_def drawable_def fixed_env_def fixed_point_def fits_def)
qed

theorem game_gets_its_tile_witness:
  "\<exists>s0 s m heights hb wb. game_start fixed_env demo_data (\<lambda>_. None) \<lparr>gs_seed = 1, gs_pos = 0, gs_polls = 0\<rparr> True = Some s0 \<and>
     run_reach fixed_env s0 s \<and> rn_game s = G_Callback 1 \<and> mg_InitTerrain 1 (Some (Client 0)) 5 (Some (Client 1)) 5 1 (rn_map s) = Some m \<and>
     mg_mem m World_Heights = Some heights \<and> mg_mem m (Client 0) = Some hb \<and> mg_mem m (Client 1) = Some wb \<and>
     tile_of demo_data heights (mg_splat m) 1 hb wb"
proof -
  let ?g = "\<lparr>gs_seed = 1, gs_pos = 0, gs_polls = 0\<rparr>"
  obtain s0 where s0: "game_start fixed_env demo_data (\<lambda>_. None) ?g True = Some s0"
    using game_start_ok [OF demo_map_config demo_map_numbers, of "\<lambda>_. None" ?g True] by metis
  obtain s1 where s1: "run_reach fixed_env s0 s1" "ready demo_data 0 s1" by (rule first_ready [OF demo_map_config demo_map_numbers s0])
  obtain s2 where s2: "run_reach fixed_env s1 s2" "rn_game s2 = G_Callback (of_nat (0 + 1))" by (rule reach_callback [OF demo_map_config demo_map_numbers s1(2)])
  let ?mem = "(mg_mem (rn_map s2))(Client 0 \<mapsto> replicate 25 None, Client 1 \<mapsto> replicate 25 None)"
  let ?s = "s2\<lparr>rn_map := (rn_map s2)\<lparr>mg_mem := ?mem\<rparr>\<rparr>"
  have "game_run s2 ?s" by (rule own_buffers) simp
  then have r: "run_reach fixed_env s0 ?s" by (rule run_game [OF run_reach_trans [OF s2(1) s1(1)]])
  have cb: "rn_game ?s = G_Callback 1" using s2(2) by simp
  have b: "mg_mem (rn_map ?s) (Client 0) = Some (replicate 25 None)" "mg_mem (rn_map ?s) (Client 1) = Some (replicate 25 None)" by simp_all
  have d: "md_singleMapSize demo_data = 5" "md_splatWidth demo_data = 5" "md_splatCount demo_data = 1" by (simp_all add: demo_data_def)
  show ?thesis using game_gets_its_tile [OF demo_map_config demo_map_numbers s0 r cb _ b, unfolded demo_sizes d] s0 r cb by auto
qed

section \<open>In order, and all of them\<close>

text \<open>
  C20. The generator never fails.  For settings like those of the game, in every state that the two threads can reach, the work that comes next is defined: no index leaves
  its array, no division is by zero and no number overflows, while the world map is generated, wherever that is stopped, and while a
  tile is begun and copied; and there is a current tile whenever one is waiting to be told.
\<close>

theorem generator_never_fails:
  assumes "map_config_ok data" and "numbers_ok env data" and "game_start env data mem g cb = Some s0" and "run_reach env s0 s"
  shows "(rn_worker s = W_Start \<longrightarrow> (\<forall>p. GenWorldMap (env\<lparr>ge_stop := p\<rparr>) (rn_map s) \<noteq> None)) \<and>
    (\<forall>t. rn_worker s = W_Begin t \<longrightarrow> tile_begin env t (rn_map s) \<noteq> None) \<and>
    (\<forall>t xy. rn_worker s = W_Copy t xy \<longrightarrow> tile_copy t xy (rn_map s) \<noteq> None) \<and>
    lq_next (mg_queue (rn_map s)) \<noteq> None \<and> (lq_items (mg_queue (rn_map s)) \<noteq> [] \<longrightarrow> mg_current (rn_map s) \<noteq> None)"
proof -
  have "run_ok data s0" using game_start_ok [OF assms(1,2), of mem g cb] assms(3) by (metis option.inject)
  then have ok: "run_ok data s" by (rule reach_run_ok [OF assms(1,2) _ assms(4)])
  have "GenWorldMap (env\<lparr>ge_stop := p\<rparr>) (rn_map s) \<noteq> None" if "rn_worker s = W_Start" for p
  proof -
    have "numbers_ok (env\<lparr>ge_stop := p\<rparr>) data" using assms(2) by (subst numbers_arith [of _ env]) simp_all
    then show ?thesis using GenWorldMap_ok [OF assms(1), of "env\<lparr>ge_stop := p\<rparr>" "rn_map s"] ok that by (auto simp: run_ok_def)
  qed
  moreover have "tile_begin env t (rn_map s) \<noteq> None" if "rn_worker s = W_Begin t" for t
    using tile_begin_ok [OF assms(1), of "rn_map s" t env] ok that by (auto simp: run_ok_def has_world_def next_is_def)
  moreover have "tile_copy t xy (rn_map s) \<noteq> None" if "rn_worker s = W_Copy t xy" for t xy
    by (rule copy_step [OF assms(1) ok that]) simp
  moreover have "mg_current (rn_map s) \<noteq> None" if "lq_items (mg_queue (rn_map s)) \<noteq> []"
    using ok that unfolding run_ok_def waiting_def finished_tile_def by auto
  moreover have "lq_next (mg_queue (rn_map s)) \<noteq> None" using ok by (auto simp: run_ok_def lq_next_def split: list.splits)
  ultimately show ?thesis by blast
qed

theorem generator_never_fails_witness:
  "\<exists>s0. game_start fixed_env demo_data (\<lambda>_. None) \<lparr>gs_seed = 1, gs_pos = 0, gs_polls = 0\<rparr> True = Some s0 \<and> rn_worker s0 = W_Start \<and>
     (\<forall>p. GenWorldMap (fixed_env\<lparr>ge_stop := p\<rparr>) (rn_map s0) \<noteq> None)"
proof -
  let ?g = "\<lparr>gs_seed = 1, gs_pos = 0, gs_polls = 0\<rparr>"
  obtain m s0 where s0: "game_start fixed_env demo_data (\<lambda>_. None) ?g True = Some s0" "s0 = run_start (mg_SetCallBack True m)"
    using game_start_ok [OF demo_map_config demo_map_numbers, of "\<lambda>_. None" ?g True] by metis
  show ?thesis using generator_never_fails [OF demo_map_config demo_map_numbers s0(1) run_init] s0 by (simp add: run_start_def)
qed

text \<open>
  C21. The tiles come in order.  Under any interleaving, what the main thread has taken from the queue is a beginning of the list of all tiles,
  and the tile it is told is the last of it; a worker that has come to its end without being stopped leaves no tile out.
\<close>

theorem tiles_in_order:
  assumes "map_config_ok data" and "numbers_ok env data" and "game_start env data mem g cb = Some s0" and "run_reach env s0 s"
  shows "\<exists>k. rn_taken s = tiles k \<and> int k \<le> tiles_per_edge data * tiles_per_edge data \<and> (\<forall>t. rn_game s = G_Callback t \<longrightarrow> k = unat t) \<and>
    (rn_worker s = W_Done \<and> \<not> rn_stopped s \<and> lq_items (mg_queue (rn_map s)) = [] \<longrightarrow> int k = tiles_per_edge data * tiles_per_edge data)"
proof -
  have "run_ok data s0" using game_start_ok [OF assms(1,2), of mem g cb] assms(3) by (metis option.inject)
  then have ok: "run_ok data s" by (rule reach_run_ok [OF assms(1,2) _ assms(4)])
  let ?n = "length (mg_terrains (rn_map s))"
  have n: "int ?n \<le> tiles_per_edge data * tiles_per_edge data" "rn_taken s @ waiting s = tiles ?n" using ok by (simp_all add: run_ok_def registered_def)
  show ?thesis
  proof (cases "waiting s = []")
    case True
    have "?n = unat t" if "rn_game s = G_Callback t" for t
      using that ok unat_uint [of t ?n] by (simp add: run_ok_def finished_tile_def)
    moreover have "int ?n = tiles_per_edge data * tiles_per_edge data" if "rn_worker s = W_Done \<and> \<not> rn_stopped s" using that ok by (simp add: run_ok_def)
    ultimately show ?thesis using n True by (intro exI [of _ ?n]) simp
  next
    case False
    then obtain t where t: "waiting s = [t]" "\<not> calling s" "uint t = int ?n" "is_tile data t" using ok unfolding run_ok_def finished_tile_def by blast
    then have "0 < ?n" by (auto simp: is_tile_def)
    then obtain k where k: "?n = Suc k" by (auto simp: gr0_conv_Suc)
    then have "rn_taken s = tiles k" using n(2) t(1) by (simp add: tiles_Suc)
    then show ?thesis using n(1) k t(1,2) by (intro exI [of _ k]) (auto simp: calling_def waiting_def)
  qed
qed

theorem tiles_in_order_witness:
  "\<exists>s0 s. game_start fixed_env demo_data (\<lambda>_. None) \<lparr>gs_seed = 1, gs_pos = 0, gs_polls = 0\<rparr> True = Some s0 \<and> run_reach fixed_env s0 s \<and>
     rn_worker s = W_Done \<and> (\<exists>k. rn_taken s = tiles k \<and> k \<le> 16)"
proof -
  let ?g = "\<lparr>gs_seed = 1, gs_pos = 0, gs_polls = 0\<rparr>"
  obtain s0 where s0: "game_start fixed_env demo_data (\<lambda>_. None) ?g True = Some s0"
    using game_start_ok [OF demo_map_config demo_map_numbers, of "\<lambda>_. None" ?g True] by metis
  obtain s1 where s1: "run_reach fixed_env s0 s1" "ready demo_data 0 s1" by (rule first_ready [OF demo_map_config demo_map_numbers s0])
  obtain s2 where s2: "run_reach fixed_env s1 s2" "rn_worker s2 = W_Done"
    using reach_all [OF demo_map_config demo_map_numbers s1(2), of 16] unfolding demo_sizes by auto
  note r = run_reach_trans [OF s2(1) s1(1)]
  show ?thesis using tiles_in_order [OF demo_map_config demo_map_numbers s0 r] s0 r s2(2) unfolding demo_sizes by auto
qed



section \<open>Tiles side by side\<close>

lemma Generate_ok:
  assumes c: "map_config_ok data" and w: "has_world data s" and run: "mg_run s" and held: "\<not> lq_held (mg_queue s)" and t: "is_tile data t"
    and m: "mg_mem s World_Heights = Some m"
  obtains s' where "Generate env t s = Some s'" "has_world data s'" "mg_run s'" "\<not> lq_held (mg_queue s')" "mg_mem s' World_Heights = Some m"
    "mg_splat s' = mg_splat s" "mg_painter s' = mg_painter s" "tile_of data m (mg_splat s) t (mg_hcopy s') (mg_scopy s')"
proof -
  have s: "sized data s" "world_terrain data s" "heights_done data s" "splats_done s" using w by (simp_all add: has_world_def)
  obtain xy s1 where b: "tile_begin env t s = Some (xy, s1)" "uint (fst xy) = tile_x data t" "uint (snd xy) = tile_y data t"
    "s1 = s\<lparr>mg_cur := t, mg_heap := mg_heap s1, mg_fresh := mg_fresh s + 1, mg_current := Some (mg_fresh s)\<rparr>"
    "\<forall>r. r \<noteq> mg_fresh s \<longrightarrow> mg_heap s1 r = mg_heap s r" using tile_begin_ok [OF c s(1,2) t, of env] by blast
  have same: "mg_world s1 = mg_world s" "mg_fresh s1 = mg_fresh s + 1" "mg_current s1 = Some (mg_fresh s)" "mg_run s1" "mg_queue s1 = mg_queue s"
    "mg_mem s1 = mg_mem s" "mg_splat s1 = mg_splat s" "mg_painter s1 = mg_painter s" using run by (subst b(4), simp)+
  obtain r where "mg_world s = Some r" "r < mg_fresh s" "te_n (mg_heap s r) = world_max data + 1" using s(2) by (auto simp: world_terrain_def)
  then have "world_terrain data s1" using b(5) same(1,2) by (simp add: world_terrain_def)
  moreover have "sized data s1" "heights_done data s1" "splats_done s1"
    using s by (subst b(4), simp add: sized_def heights_done_def splats_done_def)+
  moreover have q: "lq_add t (mg_queue s1) = Some ((mg_queue s)\<lparr>lq_items := lq_items (mg_queue s) @ [t]\<rparr>)"
    using held same(5) by (simp add: lq_add_def lq_lock_def lq_unlock_def)
  ultimately obtain hc sc where cp: "tile_copy t xy s1 = Some (s1\<lparr>mg_hcopy := hc, mg_scopy := sc, mg_terrains := insert_terrain t (mg_fresh s) (mg_terrains s1),
      mg_queue := (mg_queue s)\<lparr>lq_items := lq_items (mg_queue s) @ [t]\<rparr>\<rparr>)" "tile_of data m (mg_splat s1) t hc sc"
    using tile_copy_ok [OF c _ _ _ _ t b(2,3) same(3) q, of m] m same(6) by auto
  let ?s = "s1\<lparr>mg_hcopy := hc, mg_scopy := sc, mg_terrains := insert_terrain t (mg_fresh s) (mg_terrains s1),
      mg_queue := (mg_queue s)\<lparr>lq_items := lq_items (mg_queue s) @ [t]\<rparr>\<rparr>"
  have "int (length hc) = (tile_max data + 1) * (tile_max data + 1)" "int (length sc) = (tile_max data + 1) * (tile_max data + 1) * uint (md_splatCount data)"
    using cp(2) by (simp_all add: tile_of_def Let_def)
  then have "has_world data ?s" using \<open>world_terrain data s1\<close> \<open>sized data s1\<close> \<open>heights_done data s1\<close> \<open>splats_done s1\<close>
    by (simp add: has_world_def sized_def world_terrain_def heights_done_def splats_done_def)
  moreover have "Generate env t s = Some ?s" using b(1) same(4) cp(1) by (simp add: Generate_def)
  ultimately show thesis using that [of ?s] same held m cp(2) by simp
qed

text \<open>The world map, when nobody stops the worker.\<close>

lemma world_ready:
  assumes c: "map_config_ok data" and num: "numbers_ok env data" and "\<forall>k. \<not> ge_stop env k"
  obtains m s h where "mg_Init env data (mg_new (ge_fl env) mem g) = Some m" "GenWorldMap env (mg_StartRun m) = Some (True, s)"
    "has_world data s" "mg_run s" "\<not> lq_held (mg_queue s)" "mg_mem s World_Heights = Some h" "filled h"
proof -
  obtain m where m: "mg_Init env data (mg_new (ge_fl env) mem g) = Some m" "sized data m" "mg_queue m = lq_new"
    using game_start_ok [OF c num, of mem g True] by metis
  have "sized data (mg_StartRun m)" "mg_run (mg_StartRun m)" "mg_queue (mg_StartRun m) = lq_new" using m(2,3) by (simp_all add: mg_StartRun_def sized_def)
  moreover from this GenWorldMap_ok [OF c num] obtain s where "GenWorldMap env (mg_StartRun m) = Some (True, s)" "kept (mg_StartRun m) s" "has_world data s"
    using assms(3) unfolding has_world_def by (metis (full_types))
  ultimately show thesis using that [OF m(1)] by (auto simp: kept_def lq_new_def has_world_def heights_done_def heights_ok_def)
qed

text \<open>
  C23. Neighbouring tiles fit together.  The last column of a tile has the same heights as the first column of the tile to its right, and its last row
  those of the first row of the next tile up, so the pieces of the terrain have no gaps.
\<close>

theorem tile_edges_shared:
  assumes "map_config_ok data" and "numbers_ok env data" and "\<forall>k. \<not> ge_stop env k" and "is_tile data t" and "is_tile data u"
  shows "\<exists>m s s1 s2. mg_Init env data (mg_new (ge_fl env) mem g) = Some m \<and> GenWorldMap env (mg_StartRun m) = Some (True, s) \<and>
    Generate env t s = Some s1 \<and> Generate env u s1 = Some s2 \<and>
    (tile_x data u = tile_x data t + 1 \<and> tile_y data u = tile_y data t \<longrightarrow> (\<forall>j. 0 \<le> j \<and> j \<le> tile_max data \<longrightarrow>
      map_read (mg_hcopy s2) (j * (tile_max data + 1)) = map_read (mg_hcopy s1) (tile_max data + j * (tile_max data + 1)))) \<and>
    (tile_x data u = tile_x data t \<and> tile_y data u = tile_y data t + 1 \<longrightarrow> (\<forall>i. 0 \<le> i \<and> i \<le> tile_max data \<longrightarrow>
      map_read (mg_hcopy s2) i = map_read (mg_hcopy s1) (i + tile_max data * (tile_max data + 1))))"
proof -
  obtain m s h where w: "mg_Init env data (mg_new (ge_fl env) mem g) = Some m" "GenWorldMap env (mg_StartRun m) = Some (True, s)"
    "has_world data s" "mg_run s" "\<not> lq_held (mg_queue s)" "mg_mem s World_Heights = Some h" by (rule world_ready [OF assms(1-3)])
  obtain s1 where s1: "Generate env t s = Some s1" "has_world data s1" "mg_run s1" "\<not> lq_held (mg_queue s1)" "mg_mem s1 World_Heights = Some h"
    "tile_of data h (mg_splat s) t (mg_hcopy s1) (mg_scopy s1)" by (rule Generate_ok [OF assms(1) w(3-5) assms(4) w(6)])
  obtain s2 where s2: "Generate env u s1 = Some s2" "tile_of data h (mg_splat s1) u (mg_hcopy s2) (mg_scopy s2)"
    by (rule Generate_ok [OF assms(1) s1(2-4) assms(5) s1(5)])
  have t0: "0 \<le> tile_max data" using assms(1) by (simp add: map_config_ok_def)
  have a: "map_read (mg_hcopy s1) (i + j * (tile_max data + 1)) = map_read h ((tile_x data t * tile_max data + i) + (tile_y data t * tile_max data + j) * (world_max data + 1))"
    if "0 \<le> i" "i \<le> tile_max data" "0 \<le> j" "j \<le> tile_max data" for i j using s1(6) that by (simp add: tile_of_def Let_def)
  have b: "map_read (mg_hcopy s2) (i + j * (tile_max data + 1)) = map_read h ((tile_x data u * tile_max data + i) + (tile_y data u * tile_max data + j) * (world_max data + 1))"
    if "0 \<le> i" "i \<le> tile_max data" "0 \<le> j" "j \<le> tile_max data" for i j using s2(2) that by (simp add: tile_of_def Let_def)
  have "map_read (mg_hcopy s2) (j * (tile_max data + 1)) = map_read (mg_hcopy s1) (tile_max data + j * (tile_max data + 1))"
    if "tile_x data u = tile_x data t + 1" "tile_y data u = tile_y data t" "0 \<le> j" "j \<le> tile_max data" for j
    using a [of "tile_max data" j] b [of 0 j] that t0 by (simp add: algebra_simps)
  moreover have "map_read (mg_hcopy s2) i = map_read (mg_hcopy s1) (i + tile_max data * (tile_max data + 1))"
    if "tile_x data u = tile_x data t" "tile_y data u = tile_y data t + 1" "0 \<le> i" "i \<le> tile_max data" for i
    using a [of i "tile_max data"] b [of i 0] that t0 by (simp add: algebra_simps)
  ultimately show ?thesis using w(1,2) s1(1) s2(1) by blast
qed

theorem tile_edges_shared_witness:
  "(\<exists>s s1 s2. Generate fixed_env 1 s = Some s1 \<and> Generate fixed_env 2 s1 = Some s2 \<and> map_read (mg_hcopy s2) 10 = map_read (mg_hcopy s1) (14 :: int)) \<and>
   (\<exists>s s1 s2. Generate fixed_env 1 s = Some s1 \<and> Generate fixed_env 5 s1 = Some s2 \<and> map_read (mg_hcopy s2) 3 = map_read (mg_hcopy s1) (23 :: int))"
proof -
  let ?g = "\<lparr>gs_seed = 1, gs_pos = 0, gs_polls = 0\<rparr>"
  have tl: "is_tile demo_data 1" "is_tile demo_data 2" "is_tile demo_data 5" unfolding is_tile_def demo_sizes by simp_all
  have xy: "tile_x demo_data 1 = 0" "tile_y demo_data 1 = 0" "tile_x demo_data 2 = 1" "tile_y demo_data 2 = 0" "tile_x demo_data 5 = 0" "tile_y demo_data 5 = 1"
    unfolding tile_x_def tile_y_def demo_sizes by simp_all
  have go: "\<forall>k. \<not> ge_stop fixed_env k" by (simp add: fixed_env_def)
  obtain s s1 s2 where a: "Generate fixed_env 1 s = Some s1" "Generate fixed_env 2 s1 = Some s2"
    "\<forall>j. 0 \<le> j \<and> j \<le> 4 \<longrightarrow> map_read (mg_hcopy s2) (j * 5) = map_read (mg_hcopy s1) (4 + j * 5)"
    using tile_edges_shared [OF demo_map_config demo_map_numbers go tl(1,2), of "\<lambda>_. None" ?g, unfolded xy demo_sizes] by auto
  obtain s' s3 s4 where b: "Generate fixed_env 1 s' = Some s3" "Generate fixed_env 5 s3 = Some s4"
    "\<forall>i. 0 \<le> i \<and> i \<le> 4 \<longrightarrow> map_read (mg_hcopy s4) i = map_read (mg_hcopy s3) (i + 20)"
    using tile_edges_shared [OF demo_map_config demo_map_numbers go tl(1,3), of "\<lambda>_. None" ?g, unfolded xy demo_sizes] by auto
  show ?thesis using a(1,2) a(3) [rule_format, of 2] b(1,2) b(3) [rule_format, of 3] by auto
qed

text \<open>
  C24. The weights of a tile are those of other cells.  The copy reads the weights with the width of the tile's splat map as the length of a
  row of the world's map, and with the coordinates the other way round, so the cell \<open>(x, y)\<close> gets the weights of the cell whose number is
  \<open>x * splatWidth + y\<close>: in the first tile, the second cell of the first row gets those of a cell of the next tile.
\<close>

theorem tile_weights_scrambled:
  assumes "map_config_ok data" and "numbers_ok env data" and "\<forall>k. \<not> ge_stop env k" and "is_tile data t"
    and "0 \<le> i" and "i \<le> tile_max data" and "0 \<le> j" and "j \<le> tile_max data" and "0 \<le> k" and "k < uint (md_splatCount data)"
    and "number = (tile_x data t * tile_max data + i) * (tile_max data + 1) + (tile_y data t * tile_max data + j)"
  shows "\<exists>m s s1. mg_Init env data (mg_new (ge_fl env) mem g) = Some m \<and> GenWorldMap env (mg_StartRun m) = Some (True, s) \<and> Generate env t s = Some s1 \<and>
    map_read (mg_scopy s1) ((j * (tile_max data + 1) + i) * uint (md_splatCount data) + k) =
      weight ((mg_painter s)\<lparr>sp_map := mg_splat s\<rparr>) (number mod (world_max data + 1)) (number div (world_max data + 1)) k"
proof -
  obtain m s h where w: "mg_Init env data (mg_new (ge_fl env) mem g) = Some m" "GenWorldMap env (mg_StartRun m) = Some (True, s)"
    "has_world data s" "mg_run s" "\<not> lq_held (mg_queue s)" "mg_mem s World_Heights = Some h" by (rule world_ready [OF assms(1-3)])
  obtain s1 where s1: "Generate env t s = Some s1" "tile_of data h (mg_splat s) t (mg_hcopy s1) (mg_scopy s1)" by (rule Generate_ok [OF assms(1) w(3-5) assms(4) w(6)])
  have "sp_n (mg_painter s) = world_max data + 1" "sp_count (mg_painter s) = uint (md_splatCount data)"
    using w(3) by (simp_all add: has_world_def sized_def splat_ok_def)
  moreover have "number div (world_max data + 1) * (world_max data + 1) + number mod (world_max data + 1) = number" by (rule div_mult_mod_eq)
  ultimately have "weight ((mg_painter s)\<lparr>sp_map := mg_splat s\<rparr>) (number mod (world_max data + 1)) (number div (world_max data + 1)) k =
      map_read (mg_splat s) (number * uint (md_splatCount data) + k)" unfolding weight_def by simp
  moreover have "map_read (mg_scopy s1) ((j * (tile_max data + 1) + i) * uint (md_splatCount data) + k) = map_read (mg_splat s) (number * uint (md_splatCount data) + k)"
    using s1(2) assms(5-10) unfolding assms(11) by (simp add: tile_of_def Let_def)
  ultimately show ?thesis using w(1,2) s1(1) by auto
qed

theorem tile_weights_scrambled_witness:
  "\<exists>s s1. Generate fixed_env 1 s = Some s1 \<and> map_read (mg_scopy s1) 1 = weight ((mg_painter s)\<lparr>sp_map := mg_splat s\<rparr>) 5 0 0"
proof -
  have tl: "is_tile demo_data 1" "tile_x demo_data 1 = 0" "tile_y demo_data 1 = 0" unfolding is_tile_def tile_x_def tile_y_def demo_sizes by simp_all
  have go: "\<forall>k. \<not> ge_stop fixed_env k" and C: "uint (md_splatCount demo_data) = 1" by (simp_all add: fixed_env_def demo_data_def)
  show ?thesis
    using tile_weights_scrambled [OF demo_map_config demo_map_numbers go tl(1), of 1 0 0 5 "\<lambda>_. None" "\<lparr>gs_seed = 1, gs_pos = 0, gs_polls = 0\<rparr>", unfolded tl(2,3) demo_sizes C] by auto
qed

section \<open>Two flaws\<close>

text \<open>The identifiers of neighbours run on from one row into the next: the first tile of the second row has a left neighbour.\<close>

lemma left_neighbor_wraps: "md_worldMapSize (mg_data s) = 4 \<Longrightarrow> GetNeighborID NeighborLeft 5 s = Some 4"
  by (simp add: GetNeighborID_def umod_def udiv_def Let_def)

text \<open>A world of the smallest size is painted, but its heights are never generated.\<close>

lemma smallest_world_has_no_heights:
  "begin_world env s = Some (w, s') \<Longrightarrow> te_I (mg_heap s' w) = 1 \<Longrightarrow> GenWorldMap env s = AutoGenSplatMap env s'"
  by (simp add: GenWorldMap_def)

end
