(* ===== verification/Spec2Isabelle.thy ===== *)
theory Spec2Isabelle
  imports Prelude Byte_Codec Message_Buffer Socket_Types Write_Queue Kcp_Base Kcp_Recv Kcp_Send Kcp_Input Kcp_Flush
    Kcp_Frame Kcp_Transport Kcp_Properties Packet_Reader Kcp_Session Socket_Server Server_Inv Server_Properties
    C_Socket Kcp_Client Client_Inv Client_Properties Priority_List Ecs_Component Stable_Array Ecs_System
    Work_Queues Mpsc_Queue Thread_Pool Game_Time
    World_Session Session_Timers World World_Inv World_Properties Server_Loop
    Generator_Base Perlin_Noise Diamond_Square Diamond_Cells Diamond_Levels Diamond_Properties
    Splat_Painter Splat_Properties Map_Generator Map_World Map_Tiles Map_Worker Map_Properties
begin

text \<open>
  A verification development for the C++ part of PCGForUnity, \<^verbatim>\<open>src/cppLib/code\<close>: the reliable UDP
  stack under \<^verbatim>\<open>Network/Socket\<close>, the entity component system under \<^verbatim>\<open>ECS\<close>, the game server
  under \<^verbatim>\<open>server\<close> that is built on both, and the map generator under \<^verbatim>\<open>Generator\<close>.

  \<^bold>\<open>The program.\<close>  A server owns one UDP socket.  Its receive thread hands every datagram to
  \<open>SocketServer\<close>, which finds the session of the sender's address, or runs the handshake that
  creates one.  A session feeds the datagram to its own KCP transport (\<open>ikcp_input\<close>), takes out the
  message that became complete (\<open>ikcp_recv\<close>), and cuts the byte stream into packets of a header of
  eight bytes and a payload, which go to the application.  Packets are sent through \<open>ikcp_send\<close>;
  \<open>ikcp_update\<close> and \<open>ikcp_flush\<close> turn them into datagrams, which the server queues for its sending
  thread.  \<open>KcpClient\<close> is the other end, with a socket of its own.  The entity component system
  stores components in stable arrays, one per system, tells their owners where they are, and
  updates the systems in the order of a priority list.  The game server runs a main loop: each turn reads
  the clock, polls the sockets and updates the world.  The world takes the new connections from a
  locked queue, lets them in or makes them wait, updates the sessions, which drop silent clients and send
  heart beats when their interval timers, components of the world's own system, say so, and removes who has gone.  The map generator, a thread of
  the client, fills a height map with the diamond-square algorithm, paints its splat map, cuts it into tiles and hands them to the
  game one by one.

  \<^bold>\<open>The theories\<close>, in the order of the calls:
  \<^item> \<open>Prelude\<close>: machine integers of \<^verbatim>\<open>define.h\<close>, C conversions, bounded reads of byte arrays (\<open>peek\<close>),
    shared lemmas and the collections \<open>codec_simps\<close>, \<open>kcp_defs\<close>, \<open>inv_intros\<close>.
  \<^item> \<open>Byte_Codec\<close>: the little-endian codecs of \<^verbatim>\<open>ikcp.c\<close> and \<^verbatim>\<open>SocketConfig.h\<close>; the locale \<open>wire_codec\<close>
    composes round trips.
  \<^item> \<open>Message_Buffer\<close>, \<open>Socket_Types\<close>, \<open>Write_Queue\<close>: \<^verbatim>\<open>MessageBuffer.h\<close> (refined to a byte queue by the
    locale \<open>byte_fifo\<close>), the addresses, session ids and opcodes with the standard maps over their
    comparators, and \<^verbatim>\<open>WriteBufferQueue.h/.cpp\<close> (\<^verbatim>\<open>std::sort\<close> is the locale \<open>std_sort\<close>).
  \<^item> \<open>Kcp_Base\<close>, \<open>Kcp_Recv\<close>, \<open>Kcp_Send\<close>, \<open>Kcp_Input\<close>, \<open>Kcp_Flush\<close>: \<^verbatim>\<open>ikcp.h\<close> and \<^verbatim>\<open>ikcp.c\<close>.  The control
    block is the record \<open>kcb\<close>; the intrusive lists are lists of \<open>kseg\<close>; each function of the file is
    a definition of the same name, each of its loops one of its own.  \<open>Kcp_Frame\<close> says what each
    operation leaves alone, \<open>Kcp_Transport\<close> is the contract its users rely on, \<open>Kcp_Properties\<close>
    has the properties.
  \<^item> \<open>Packet_Reader\<close>: the reassembly loop that \<open>KcpSession\<close> and \<open>KcpClient\<close> share, for any owner; the
    locales \<open>packet_owner\<close> and \<open>packet_sink\<close> say what an owner's handler may do and conclude that every
    packet of the stream is handled once, in order, wherever the stream was cut.
  \<^item> \<open>Kcp_Session\<close>, \<open>Socket_Server\<close>: \<^verbatim>\<open>KcpSession.h/.cpp\<close> and \<^verbatim>\<open>SocketServer.h/.cpp\<close>.  Sessions live in a
    store indexed by address, because the two maps of the server share them.  \<open>Server_Inv\<close> is the
    invariant and its preservation, \<open>Server_Properties\<close> the properties.
  \<^item> \<open>C_Socket\<close>: \<^verbatim>\<open>CSocket.h/.cpp\<close>; the answers of the operating system are arguments, and the receive
    thread is the transition relation \<open>select_reach\<close>.
  \<^item> \<open>Kcp_Client\<close>, \<open>Client_Inv\<close>, \<open>Client_Properties\<close>: \<^verbatim>\<open>KcpClient.h/.cpp\<close> in the same way.
  \<^item> \<open>Priority_List\<close>: \<^verbatim>\<open>Utinities/PriorityList.h\<close> on a store of nodes.
  \<^item> \<open>Ecs_Component\<close>, \<open>Stable_Array\<close>, \<open>Ecs_System\<close>: \<^verbatim>\<open>IComponent.h\<close> and the components (the locale
    \<open>component_type\<close> is what a storage needs of one), \<^verbatim>\<open>StableArray.h\<close>, \<^verbatim>\<open>ISystem.h\<close>, the systems
    and \<^verbatim>\<open>SystemContainer.h/.cpp\<close>.
  \<^item> \<open>Work_Queues\<close>: \<^verbatim>\<open>LockedQueue.h\<close> and \<^verbatim>\<open>ProducerConsumerQueue.h\<close>, both instances of the locale \<open>fifo\<close>.
  \<^item> \<open>Mpsc_Queue\<close>: \<^verbatim>\<open>MPSCQueue.h\<close>; every access to shared memory is a step of the relation \<open>mq_step\<close>.
  \<^item> \<open>Thread_Pool\<close>: \<^verbatim>\<open>Threading/ThreadPool.h/.cpp\<close> and \<^verbatim>\<open>ThreadManager.h/.cpp\<close>; the workers, the mutex and the
    condition variable are the relation \<open>pool_step\<close>, whose part without the users is \<open>work_step\<close>.
  \<^item> \<open>Game_Time\<close>: \<^verbatim>\<open>Utinities/Timer.h\<close>, \<^verbatim>\<open>game/Time/GameTime.cpp\<close> and \<^verbatim>\<open>UpdateTime.h/.cpp\<close>.
  \<^item> \<open>World_Session\<close>: \<^verbatim>\<open>server/WorldSession/WorldSession.h/.cpp\<close>, with the raw pointers to the timers
    as block and position in the timer system.  \<open>Session_Timers\<close> is the invariant between the sessions and that
    system, \<open>timers_ok\<close>.
  \<^item> \<open>World\<close>: \<^verbatim>\<open>server/World/World.h/.cpp\<close> on a store of session objects with explicit references
    (\<open>wd_refs\<close>, \<open>wd_release\<close>).  \<open>World_Inv\<close> is the invariant \<open>world_inv\<close> and its preservation,
    \<open>World_Properties\<close> the properties, over any order of events (\<open>world_reach\<close>).
  \<^item> \<open>Server_Loop\<close>: \<^verbatim>\<open>server/Server.h/.cpp\<close>; what the surroundings do in a turn of the loop is its argument.

  \<^item> \<open>Generator_Base\<close>, \<open>Perlin_Noise\<close>: \<^verbatim>\<open>Generator/generator.h\<close> and \<^verbatim>\<open>Noises/PerlinNoise.h\<close>; the arithmetic of
    \<^verbatim>\<open>float\<close>, the random numbers and the answers of \<open>IsStopped\<close> are parameters (\<open>gen_env\<close>).
  \<^item> \<open>Diamond_Square\<close>: \<^verbatim>\<open>Generators/TerrainGenerator/Diamond_Square.h/.cpp\<close>, with cells that are \<open>None\<close> until they are
    written.  \<open>Diamond_Cells\<close> says what the steps and loops read and write, \<open>Diamond_Levels\<close> that the levels
    cover the map, \<open>Diamond_Properties\<close> what a run leaves behind.
  \<^item> \<open>Splat_Painter\<close>: \<^verbatim>\<open>Terrain/Painter\<close>, the brush, the painter of splat maps and the automatic painter;
    \<open>Splat_Properties\<close> shows that it stays inside its arrays, and which cells it never paints.
  \<^item> \<open>Map_Generator\<close>: \<^verbatim>\<open>Generator/Terrain/Terrain.h/.cpp\<close> and \<^verbatim>\<open>Generator/MapGenerator\<close>, with a store of terrains and the
    contents of the buffers as a memory.  \<open>Map_World\<close> shows that the initialisation makes arrays of the right sizes and that a world
    map that was not stopped is complete, \<open>Map_Tiles\<close> that a copy has the heights of its square of the world.  \<open>Map_Worker\<close> is
    the worker beside the main thread, the relations \<open>work_run\<close> and \<open>game_run\<close>, and their invariant \<open>run_ok\<close>;
    \<open>Map_Properties\<close> has the properties.  The settings are those with \<open>map_config_ok\<close>: tiles divide the world, and the splat map of a
    tile is as wide as the tile.

  \<^bold>\<open>Conventions.\<close>  Structs are records, enumerations are datatypes, integers are words of their width
  or \<open>int\<close> with the overflow written out.  A result \<open>None\<close> is always an error of the program and
  never an error that it reports: a read or write outside a buffer, a failed assertion, a signed
  overflow, a lock taken twice, a freed object used, or a loop that does not end.  Totality of an
  operation is therefore a statement of the form \<open>\<exists>r. f x = Some r\<close>.  Errors that the program
  reports are values: the negative return codes of KCP, \<open>sock_error\<close>, \<open>read_result\<close>.  Datagrams
  that an operation sends are returned as a list.  Memory that a constructor does not initialise
  is an argument called \<open>junk\<close>.

  \<^bold>\<open>Parameters.\<close>  The allocation of memory, \<^verbatim>\<open>std::sort\<close> (locale \<open>std_sort\<close>: a sorted permutation for a
  strict weak order), the clock, the padding of headers, the application's handlers and the
  answers of the operating system are arguments of the definitions; their laws are named
  hypotheses, each with a concrete instance in a witness.

  \<^bold>\<open>What the lemmas show.\<close>  Of the transport: \<open>ikcp_input\<close> is safe on arbitrary bytes, \<open>ikcp_flush\<close> stays
  in its buffer, the reorder buffer refines delivery in order from a map, fragmentation and
  reassembly are inverse, acknowledgements remove exactly what they name, timeouts stay in their
  bounds.  Of server and client: every datagram and every update is handled to the end with the
  invariant kept; packets are dispatched in order; the handshake connects, and a client without an
  answer gives up.  Of the entity component system: stored components keep their places, and
  owners know the addresses of their components.  Of the threads: the queues are queues in every
  interleaving, the pool forgets no task and its destructor returns.  Of the game server: no order of
  events makes the world use a destroyed session or a timer that has moved; every turn of the main loop returns; a
  free place goes to the head of the queue; idle players are dropped; a shut-down timer stops the server when it has
  run out and not before.  Of the map generator: the world map is
  complete, the painter stays in its arrays, and in every interleaving of the two threads the game gets the tiles in order,
  each with its own heights.  The properties of kind \<open>error\<close> show where the
  code does not do what it means to; they state exactly which inputs are affected.

  \<^bold>\<open>Fuel and bounds.\<close>  The one loop with fuel is \<open>ReadHandler\<close>: a round either stops, or consumes an
  unread byte, or handles a packet, so \<open>read_fuel\<close>, twice the unread bytes and a constant, is never
  used up; \<open>session_dispatches\<close> and \<open>client_dispatches\<close> prove that.  All other loops are structural
  recursions, or, on the linked nodes of the priority list, partial functions whose result is
  \<open>None\<close> exactly when the walk does not end.  The loop of the world over its pending connections is a partial function as
  well, which is shown to return (\<open>add_pending_ok\<close>); the main loop takes the list of its turns.  Loops that call the operating system take the list of
  its answers.  Hypotheses such as \<open>cl_backlog c < 2 ^ 31\<close> say that a queue is shorter than
  the \<^verbatim>\<open>int\<close> that counts it.

  \<^bold>\<open>Not modelled.\<close>  Interleavings are modelled in the queues, the pool and the map generator.  In the network stack only
  the locks are: an operation that takes the mutex its caller holds is \<open>None\<close>, and operations are
  atomic otherwise.  The memory model is sequentially consistent.  The triangulation and the meshes of mountains, which are
  floating point geometry, are left out.  The vendored libraries under \<^verbatim>\<open>dep\<close>,
  the generated \<^verbatim>\<open>Network/Proto\<close>, logging, the bindings to the engine, the tests and the C# part of
  the repository are left out; options of the socket that only forward to the operating system
  have no state to model.
\<close>

end
